(* ===== verification/Prelude.thy ===== *)
theory Prelude
  imports Main "HOL-Library.Word" "HOL-Library.Char_ord" "HOL-Library.List_Lexorder"
    "HOL-Library.Monad_Syntax" "HOL-Library.Multiset" "HOL-Library.Sublist"
begin

text \<open>
  The shared base of the development.

  C code is modelled in the option monad: a C function that writes into fixed buffers or follows
  pointers returns an option, and None is the point where the C program has undefined behaviour
  (a NULL pointer is followed, a fixed buffer is written past its end, an uninitialised buffer
  is read). Results that the C code itself reports (0, -1, NULL) are ordinary values.

  The theory holds the fault checks, the bounded copy, the generic sorting routine that stands
  for the C library's qsort, and the list lemmas the components share.
\<close>

section \<open>Collections\<close>

named_theorems c_defs \<open>definitions unfolded when a fault is ruled out\<close>
named_theorems window_defs \<open>definitions of the list-window navigation\<close>

section \<open>Faults\<close>

text \<open>A check whose failure is undefined behaviour.\<close>

definition c_ok :: "bool \<Rightarrow> unit option" where
  "c_ok b = (if b then Some () else None)"

lemma c_ok_Some [simp]: "c_ok b = Some u \<longleftrightarrow> b"
  by (simp add: c_ok_def)

lemma c_ok_True [simp]: "c_ok True = Some ()"
  by (simp add: c_ok_def)

lemma c_ok_False [simp]: "c_ok False = None"
  by (simp add: c_ok_def)

lemma c_ok_bind [simp]: "Option.bind (c_ok b) f = (if b then f () else None)"
  by (simp add: c_ok_def)

text \<open>
  strcpy or sprintf of the string s into a buffer of n bytes: the terminating NUL needs one
  byte, so s fits when it is shorter than n.
\<close>

definition c_buf :: "nat \<Rightarrow> string \<Rightarrow> string option" where
  "c_buf n s = (if length s < n then Some s else None)"

lemma c_buf_Some [simp]: "c_buf n s = Some t \<longleftrightarrow> length s < n \<and> t = s"
  by (auto simp: c_buf_def)

lemma c_buf_bind [simp]: "Option.bind (c_buf n s) f = (if length s < n then f s else None)"
  by (simp add: c_buf_def)

lemma bind_Some_elim:
  assumes "Option.bind x f = Some y"
  obtains z where "x = Some z" and "f z = Some y"
  using assms by (cases x) auto

lemma bind_not_None [simp]: "Option.bind x f \<noteq> None \<longleftrightarrow> (\<exists>z. x = Some z \<and> f z \<noteq> None)"
  by (cases x) auto

text \<open>Running a fallible step over a list, left to right; the first fault ends the run.\<close>

fun fold_opt :: "('a \<Rightarrow> 's \<Rightarrow> 's option) \<Rightarrow> 'a list \<Rightarrow> 's \<Rightarrow> 's option" where
  "fold_opt f [] s = Some s"
| "fold_opt f (x # xs) s = Option.bind (f x s) (fold_opt f xs)"

lemma fold_opt_append: "fold_opt f (xs @ ys) s = Option.bind (fold_opt f xs s) (fold_opt f ys)"
  by (induction xs arbitrary: s) (auto split: Option.bind_splits)

lemma fold_opt_invariant:
  assumes "fold_opt f xs s = Some t" and "P s"
    and "\<And>x s s'. x \<in> set xs \<Longrightarrow> P s \<Longrightarrow> f x s = Some s' \<Longrightarrow> P s'"
  shows "P t"
  using assms
proof (induction xs arbitrary: s)
  case Nil
  then show ?case by simp
next
  case (Cons x xs)
  from Cons.prems(1) obtain u where u: "f x s = Some u" "fold_opt f xs u = Some t"
    by (auto elim: bind_Some_elim)
  have "P u" using Cons.prems(2,3) u(1) by auto
  with u(2) Cons.IH Cons.prems(3) show ?case by auto
qed

lemma fold_opt_total:
  assumes "\<And>x s. x \<in> set xs \<Longrightarrow> P s \<Longrightarrow> \<exists>s'. f x s = Some s' \<and> P s'" and "P s"
  shows "\<exists>t. fold_opt f xs s = Some t \<and> P t"
  using assms
proof (induction xs arbitrary: s)
  case Nil
  then show ?case by simp
next
  case (Cons x xs)
  then obtain u where u: "f x s = Some u" "P u" by force
  from Cons.IH [OF _ u(2)] Cons.prems(1) obtain t where "fold_opt f xs u = Some t \<and> P t"
    by auto
  with u show ?case by auto
qed

text \<open>A loop that appends what each item gives is a traversal.\<close>

lemma fold_opt_collect:
  assumes "\<And>x acc. x \<in> set xs \<Longrightarrow> f x acc = map_option (\<lambda>ys. acc @ ys) (g x)"
  shows "fold_opt f xs acc = map_option (\<lambda>yss. acc @ concat yss) (those (map g xs))"
  using assms
proof (induction xs arbitrary: acc)
  case Nil
  then show ?case by simp
next
  case (Cons x xs)
  show ?case
  proof (cases "g x")
    case None
    then show ?thesis using Cons.prems by simp
  next
    case (Some ys)
    then have "fold_opt f (x # xs) acc = fold_opt f xs (acc @ ys)" using Cons.prems by simp
    also have "\<dots> = map_option (\<lambda>yss. (acc @ ys) @ concat yss) (those (map g xs))"
      using Cons by simp
    finally show ?thesis using Some by (simp add: option.map_comp comp_def)
  qed
qed

lemma those_Some: "those xs = Some ys \<longleftrightarrow> xs = map Some ys"
proof (induction xs arbitrary: ys)
  case Nil
  then show ?case by auto
next
  case (Cons x xs)
  then show ?case by (cases x; cases ys) auto
qed

lemma those_map_Some:
  assumes "those (map g xs) = Some ys"
  shows "length ys = length xs" and "x \<in> set xs \<Longrightarrow> \<exists>y \<in> set ys. g x = Some y"
    and "y \<in> set ys \<Longrightarrow> \<exists>x \<in> set xs. g x = Some y"
proof -
  have eq: "map g xs = map Some ys" using assms by (simp add: those_Some)
  then show "length ys = length xs" by (metis length_map)
  have "g ` set xs = Some ` set ys" using eq by (metis list.set_map)
  then show "x \<in> set xs \<Longrightarrow> \<exists>y \<in> set ys. g x = Some y"
    and "y \<in> set ys \<Longrightarrow> \<exists>x \<in> set xs. g x = Some y"
    by (metis imageE imageI)+
qed

section \<open>qsort\<close>

text \<open>
  The C library's qsort with a comparison function that returns a signed int. The C standard
  leaves the order of equal elements open; the model keeps them in their original order.
\<close>

fun qsort_insert :: "('a \<Rightarrow> 'a \<Rightarrow> int) \<Rightarrow> 'a \<Rightarrow> 'a list \<Rightarrow> 'a list" where
  "qsort_insert cmp x [] = [x]"
| "qsort_insert cmp x (y # ys) = (if cmp x y \<le> 0 then x # y # ys else y # qsort_insert cmp x ys)"

fun qsort :: "('a \<Rightarrow> 'a \<Rightarrow> int) \<Rightarrow> 'a list \<Rightarrow> 'a list" where
  "qsort cmp [] = []"
| "qsort cmp (x # xs) = qsort_insert cmp x (qsort cmp xs)"

lemma mset_qsort_insert [simp]: "mset (qsort_insert cmp x xs) = add_mset x (mset xs)"
  by (induction xs) auto

lemma mset_qsort [simp]: "mset (qsort cmp xs) = mset xs"
  by (induction xs) auto

lemma set_qsort [simp]: "set (qsort cmp xs) = set xs"
  by (rule mset_eq_setD) simp

lemma length_qsort [simp]: "length (qsort cmp xs) = length xs"
  by (metis mset_qsort size_mset)

text \<open>
  The contract of a comparison function on the elements that satisfy ok: its sign is that of a
  total preorder. Whatever is sorted with such a function comes out sorted.
\<close>

locale comparator =
  fixes cmp :: "'a \<Rightarrow> 'a \<Rightarrow> int"
    and ok :: "'a \<Rightarrow> bool"
  assumes cmp_total: "ok x \<Longrightarrow> ok y \<Longrightarrow> cmp x y \<le> 0 \<or> cmp y x \<le> 0"
    and cmp_trans: "ok x \<Longrightarrow> ok y \<Longrightarrow> ok z \<Longrightarrow> cmp x y \<le> 0 \<Longrightarrow> cmp y z \<le> 0 \<Longrightarrow> cmp x z \<le> 0"
begin

lemma sorted_insert:
  "ok x \<Longrightarrow> (\<forall>y \<in> set xs. ok y) \<Longrightarrow> sorted_wrt (\<lambda>x y. cmp x y \<le> 0) xs \<Longrightarrow>
   sorted_wrt (\<lambda>x y. cmp x y \<le> 0) (qsort_insert cmp x xs)"
proof (induction xs)
  case Nil
  then show ?case by simp
next
  case (Cons y ys)
  have in_set: "set (qsort_insert cmp x ys) = insert x (set ys)"
    by (metis list.simps(15) mset.simps(2) mset_eq_setD mset_qsort_insert)
  show ?case
  proof (cases "cmp x y \<le> 0")
    case True
    then show ?thesis using Cons.prems cmp_trans [of x y] by auto
  next
    case False
    then have "cmp y x \<le> 0" using cmp_total Cons.prems by auto
    then show ?thesis using Cons False in_set by auto
  qed
qed

lemma sorted_qsort: "\<forall>x \<in> set xs. ok x \<Longrightarrow> sorted_wrt (\<lambda>x y. cmp x y \<le> 0) (qsort cmp xs)"
  by (induction xs) (auto intro: sorted_insert)

lemma insert_fixed:
  "sorted_wrt (\<lambda>x y. cmp x y \<le> 0) (x # xs) \<Longrightarrow> qsort_insert cmp x xs = x # xs"
  by (cases xs) auto

lemma qsort_fixed: "sorted_wrt (\<lambda>x y. cmp x y \<le> 0) xs \<Longrightarrow> qsort cmp xs = xs"
  by (induction xs) (simp_all add: insert_fixed)

end

section \<open>Lists\<close>

lemma distinct_map_filter: "distinct (map f xs) \<Longrightarrow> distinct (map f (filter P xs))"
  by (induction xs) auto

lemma prefix_iff_take: "prefix xs ys \<longleftrightarrow> take (length xs) ys = xs"
proof
  assume "take (length xs) ys = xs"
  then show "prefix xs ys" using take_is_prefix [of "length xs" ys] by simp
qed (auto simp: prefix_def)

lemma suffix_iff_drop: "suffix xs ys \<longleftrightarrow> length xs \<le> length ys \<and> xs = drop (length ys - length xs) ys"
proof
  assume "length xs \<le> length ys \<and> xs = drop (length ys - length xs) ys"
  then show "suffix xs ys" using suffix_drop [of "length ys - length xs" ys] by simp
qed (auto simp: suffix_def)

lemma nth_last_mem: "l ! (length l - Suc 0) = x \<Longrightarrow> l \<noteq> [] \<Longrightarrow> x \<in> set l"
  by (metis last_conv_nth last_in_set One_nat_def)

lemma takeWhile_eq_self: "(\<forall>x \<in> set xs. P x) \<Longrightarrow> takeWhile P xs = xs"
  by (induction xs) auto

lemma length_takeWhile_less: "\<exists>x \<in> set xs. \<not> P x \<Longrightarrow> length (takeWhile P xs) < length xs"
  by (induction xs) auto

lemma prefix_before: "c \<notin> set w \<Longrightarrow> prefix w (a @ c # b) \<Longrightarrow> prefix w a"
proof (induction a arbitrary: w)
  case Nil
  then show ?case by (cases w) auto
next
  case (Cons y ys)
  then show ?case by (cases w) auto
qed

end
