(* ===== verification/CString.thy ===== *)
theory CString
  imports Prelude
begin

text \<open>
  The part of the C library's string functions the program uses, on Isabelle strings. A C string
  is the list of its bytes before the terminating NUL; a pointer into it is an index, and writing
  a NUL through such a pointer is a take. Comparison and classification use the C locale, as the
  launcher never calls setlocale.
\<close>

section \<open>Bytes\<close>

definition NUL :: char where
  "NUL = CHR 0x00"

definition NL :: char where
  "NL = CHR 0x0A"

definition CR :: char where
  "CR = CHR 0x0D"

definition TAB :: char where
  "TAB = CHR 0x09"

abbreviation byte :: "char \<Rightarrow> nat" where
  "byte c \<equiv> of_char c"

lemma byte_less: "byte c < 256"
  using of_char_of [of "byte c"] by (metis char_of_mod_256 of_char_mod_256 mod_less_divisor zero_less_numeral)

lemma byte_inject [simp]: "byte c = byte d \<longleftrightarrow> c = d"
  by (metis char_of_char)

definition c_tolower :: "char \<Rightarrow> char" where
  "c_tolower c = (if 65 \<le> byte c \<and> byte c \<le> 90 then char_of (byte c + 32) else c)"

definition c_isdigit :: "char \<Rightarrow> bool" where
  "c_isdigit c \<longleftrightarrow> 48 \<le> byte c \<and> byte c \<le> 57"

definition c_isblank :: "char \<Rightarrow> bool" where
  "c_isblank c \<longleftrightarrow> byte c = 32 \<or> byte c = 9"

definition c_isspace :: "char \<Rightarrow> bool" where
  "c_isspace c \<longleftrightarrow> byte c = 32 \<or> (9 \<le> byte c \<and> byte c \<le> 13)"

definition lower :: "string \<Rightarrow> string" where
  "lower s = map c_tolower s"

definition nul_free :: "string \<Rightarrow> bool" where
  "nul_free s \<longleftrightarrow> NUL \<notin> set s"

lemma nul_free_simps [simp]:
  "nul_free []"
  "nul_free (c # s) \<longleftrightarrow> c \<noteq> NUL \<and> nul_free s"
  "nul_free (s @ t) \<longleftrightarrow> nul_free s \<and> nul_free t"
  by (auto simp: nul_free_def)

lemma nul_free_take [simp]: "nul_free s \<Longrightarrow> nul_free (take n s)"
  by (auto simp: nul_free_def dest: in_set_takeD)

lemma nul_free_drop [simp]: "nul_free s \<Longrightarrow> nul_free (drop n s)"
  by (auto simp: nul_free_def dest: in_set_dropD)

lemma byte_tolower: "byte (c_tolower c) = (if 65 \<le> byte c \<and> byte c \<le> 90 then byte c + 32 else byte c)"
  by (simp add: c_tolower_def)

lemma byte_0_iff: "byte c = 0 \<longleftrightarrow> c = NUL"
proof -
  have z: "byte NUL = 0" by (simp add: NUL_def)
  show ?thesis by (subst z [symmetric]) (rule byte_inject)
qed

lemma byte_pos: "c \<noteq> NUL \<Longrightarrow> 0 < byte c"
  using byte_0_iff [of c] by auto

lemma byte_tolower_0_iff: "byte (c_tolower c) = 0 \<longleftrightarrow> c = NUL"
  by (auto simp: byte_tolower byte_0_iff [symmetric])

lemma tolower_NUL: "c_tolower c = NUL \<longleftrightarrow> c = NUL"
  using byte_0_iff [of "c_tolower c"] byte_tolower_0_iff [of c] by simp

lemma byte_tolower_pos: "c \<noteq> NUL \<Longrightarrow> 0 < byte (c_tolower c)"
  using byte_tolower_0_iff [of c] by auto

lemma tolower_idem [simp]: "c_tolower (c_tolower c) = c_tolower c"
proof -
  have "byte (c_tolower (c_tolower c)) = byte (c_tolower c)"
    by (simp add: byte_tolower)
  then show ?thesis by simp
qed

lemma lower_simps [simp]:
  "lower [] = []"
  "lower (c # s) = c_tolower c # lower s"
  "lower (s @ t) = lower s @ lower t"
  by (simp_all add: lower_def)

lemma length_lower [simp]: "length (lower s) = length s"
  by (simp add: lower_def)

lemma lower_lower [simp]: "lower (lower s) = lower s"
  by (simp add: lower_def)

section \<open>Comparison\<close>

fun strcasecmp :: "string \<Rightarrow> string \<Rightarrow> int" where
  "strcasecmp [] [] = 0"
| "strcasecmp [] (b # bs) = - int (byte (c_tolower b))"
| "strcasecmp (a # as) [] = int (byte (c_tolower a))"
| "strcasecmp (a # as) (b # bs) =
     (if c_tolower a = c_tolower b then strcasecmp as bs
      else int (byte (c_tolower a)) - int (byte (c_tolower b)))"

fun strncasecmp :: "string \<Rightarrow> string \<Rightarrow> nat \<Rightarrow> int" where
  "strncasecmp as bs 0 = 0"
| "strncasecmp [] [] (Suc n) = 0"
| "strncasecmp [] (b # bs) (Suc n) = - int (byte (c_tolower b))"
| "strncasecmp (a # as) [] (Suc n) = int (byte (c_tolower a))"
| "strncasecmp (a # as) (b # bs) (Suc n) =
     (if c_tolower a = c_tolower b then strncasecmp as bs n
      else int (byte (c_tolower a)) - int (byte (c_tolower b)))"

fun strncmp :: "string \<Rightarrow> string \<Rightarrow> nat \<Rightarrow> int" where
  "strncmp as bs 0 = 0"
| "strncmp [] [] (Suc n) = 0"
| "strncmp [] (b # bs) (Suc n) = - int (byte b)"
| "strncmp (a # as) [] (Suc n) = int (byte a)"
| "strncmp (a # as) (b # bs) (Suc n) =
     (if a = b then strncmp as bs n else int (byte a) - int (byte b))"

lemma strcasecmp_0_iff:
  "nul_free as \<Longrightarrow> nul_free bs \<Longrightarrow> strcasecmp as bs = 0 \<longleftrightarrow> lower as = lower bs"
  by (induction as bs rule: strcasecmp.induct) (auto dest: byte_tolower_pos)

lemma strncasecmp_0_iff:
  "nul_free as \<Longrightarrow> nul_free bs \<Longrightarrow>
   strncasecmp as bs n = 0 \<longleftrightarrow> lower (take n as) = lower (take n bs)"
  by (induction as bs n rule: strncasecmp.induct) (auto dest: byte_tolower_pos)

lemma strncmp_0_iff:
  "nul_free as \<Longrightarrow> nul_free bs \<Longrightarrow> strncmp as bs n = 0 \<longleftrightarrow> take n as = take n bs"
  by (induction as bs n rule: strncmp.induct) (auto dest: byte_pos)

section \<open>Searching\<close>

text \<open>Pointers returned by strchr, strrchr and strstr are indices; NULL is None.\<close>

fun strchr :: "string \<Rightarrow> char \<Rightarrow> nat option" where
  "strchr [] c = None"
| "strchr (x # xs) c = (if x = c then Some 0 else map_option Suc (strchr xs c))"

fun strrchr :: "string \<Rightarrow> char \<Rightarrow> nat option" where
  "strrchr [] c = None"
| "strrchr (x # xs) c =
     (case strrchr xs c of
        Some i \<Rightarrow> Some (Suc i)
      | None \<Rightarrow> if x = c then Some 0 else None)"

fun strstr :: "string \<Rightarrow> string \<Rightarrow> nat option" where
  "strstr [] n = (if n = [] then Some 0 else None)"
| "strstr (x # xs) n = (if prefix n (x # xs) then Some 0 else map_option Suc (strstr xs n))"

definition strcasestr :: "string \<Rightarrow> string \<Rightarrow> nat option" where
  "strcasestr h n = strstr (lower h) (lower n)"

lemma strchr_None: "strchr s c = None \<longleftrightarrow> c \<notin> set s"
  by (induction s) auto

lemma strchr_absent [simp]: "c \<notin> set s \<Longrightarrow> strchr s c = None"
  by (simp add: strchr_None)

lemma strrchr_None: "strrchr s c = None \<longleftrightarrow> c \<notin> set s"
  by (induction s) (auto split: option.splits)

lemma strrchr_absent [simp]: "c \<notin> set s \<Longrightarrow> strrchr s c = None"
  by (simp add: strrchr_None)

lemma strchr_append: "c \<notin> set a \<Longrightarrow> strchr (a @ c # b) c = Some (length a)"
  by (induction a) auto

lemma strrchr_append: "c \<notin> set b \<Longrightarrow> strrchr (a @ c # b) c = Some (length a)"
  by (induction a) (auto split: option.splits)

lemma strchr_split:
  "strchr s c = Some i \<Longrightarrow> i < length s \<and> s = take i s @ c # drop (Suc i) s \<and> c \<notin> set (take i s)"
  by (induction s arbitrary: i) (auto split: if_splits)

lemma strrchr_split:
  "strrchr s c = Some i \<Longrightarrow> i < length s \<and> s = take i s @ c # drop (Suc i) s \<and> c \<notin> set (drop (Suc i) s)"
proof (induction s arbitrary: i)
  case Nil
  then show ?case by simp
next
  case (Cons x xs)
  show ?case
  proof (cases "strrchr xs c")
    case None
    then have "c \<notin> set xs" by (simp add: strrchr_None)
    with None Cons.prems show ?thesis by (auto split: if_splits)
  next
    case (Some j)
    from Cons.IH [OF this] Some Cons.prems show ?thesis by auto
  qed
qed

lemma strrchr_less: "strrchr s c = Some i \<Longrightarrow> i < length s"
  by (simp add: strrchr_split)

lemma strchr_less: "strchr s c = Some i \<Longrightarrow> i < length s"
  by (simp add: strchr_split)

lemma strrchr_in_set: "c \<in> set s \<Longrightarrow> \<exists>i. strrchr s c = Some i"
  using strrchr_None [of s c] by (cases "strrchr s c") auto

lemma strchr_in_set: "c \<in> set s \<Longrightarrow> \<exists>i. strchr s c = Some i"
  using strchr_None [of s c] by (cases "strchr s c") auto

lemma strstr_prefix: "prefix n s \<Longrightarrow> strstr s n = Some 0"
  by (cases s) (auto)

section \<open>Reading lines\<close>

text \<open>
  fgets reads at most n - 1 bytes, up to and including the first newline; a longer line comes
  back in pieces. The buffer is then read as a C string, so a NUL byte in the file ends it early.
  A loop \<open>while (fgets (line, n, f) != NULL)\<close> sees exactly \<open>fgets_all n\<close> of the
  file's contents.
\<close>

definition c_str :: "string \<Rightarrow> string" where
  "c_str s = takeWhile (\<lambda>c. c \<noteq> NUL) s"

definition fgets_len :: "nat \<Rightarrow> string \<Rightarrow> nat" where
  "fgets_len n s = min (n - 1) (Suc (length (takeWhile (\<lambda>c. c \<noteq> NL) s)))"

function fgets_all :: "nat \<Rightarrow> string \<Rightarrow> string list" where
  "fgets_all n s =
     (if s = [] \<or> n < 2 then []
      else c_str (take (fgets_len n s) s) # fgets_all n (drop (fgets_len n s) s))"
  by pat_completeness auto
termination
  by (relation "measure (\<lambda>(n, s). length s)") (auto simp: fgets_len_def)

declare fgets_all.simps [simp del]

lemma fgets_all_Nil [simp]: "fgets_all n [] = []"
  by (simp add: fgets_all.simps)

lemma nul_free_c_str [simp]: "nul_free (c_str s)"
  by (auto simp: nul_free_def c_str_def dest: set_takeWhileD)

lemma c_str_id: "nul_free s \<Longrightarrow> c_str s = s"
  by (auto simp: c_str_def nul_free_def intro: takeWhile_eq_self)

lemma length_c_str: "length (c_str s) \<le> length s"
  by (simp add: c_str_def length_takeWhile_le)

lemma fgets_all_line:
  assumes "NL \<notin> set l" and "nul_free l" and "length l + 1 < n"
  shows "fgets_all n (l @ NL # rest) = (l @ [NL]) # fgets_all n rest"
proof -
  have "fgets_len n (l @ NL # rest) = Suc (length l)"
    using assms by (auto simp: fgets_len_def takeWhile_append takeWhile_eq_self)
  then show ?thesis
    using assms by (subst fgets_all.simps) (auto simp: c_str_id NL_def NUL_def)
qed

lemma fgets_all_member:
  "l \<in> set (fgets_all n s) \<Longrightarrow> nul_free l \<and> length l < n"
proof (induction n s rule: fgets_all.induct)
  case (1 n s)
  then have ne: "\<not> (s = [] \<or> n < 2)" by (subst (asm) (2) fgets_all.simps) (auto split: if_splits)
  with 1 have "l = c_str (take (fgets_len n s) s) \<or> l \<in> set (fgets_all n (drop (fgets_len n s) s))"
    by (subst (asm) (2) fgets_all.simps) auto
  moreover have "length (c_str (take (fgets_len n s) s)) < n"
    using ne length_c_str [of "take (fgets_len n s) s"] by (auto simp: fgets_len_def)
  ultimately show ?case using 1 ne by auto
qed

section \<open>Printing\<close>

text \<open>
  snprintf into a buffer of n bytes leaves the first n - 1 bytes of the text; its return value is
  the length of the whole text, so the text was cut exactly when that length reaches n.
  strncpy followed by a NUL at n - 1 leaves the same bytes.
\<close>

definition c_trunc :: "nat \<Rightarrow> string \<Rightarrow> string" where
  "c_trunc n s = take (n - 1) s"

lemma length_c_trunc: "0 < n \<Longrightarrow> length (c_trunc n s) < n"
  by (auto simp: c_trunc_def)

lemma c_trunc_id: "length s < n \<Longrightarrow> c_trunc n s = s"
  by (auto simp: c_trunc_def)

fun c_digits :: "nat \<Rightarrow> string" where
  "c_digits n = (if n < 10 then [char_of (48 + n)] else c_digits (n div 10) @ [char_of (48 + n mod 10)])"

declare c_digits.simps [simp del]

definition c_int :: "int \<Rightarrow> string" where
  "c_int i = (if i < 0 then CHR ''-'' # c_digits (nat (- i)) else c_digits (nat i))"

text \<open>The value of a run of decimal digits, and the digits' round trip.\<close>

definition digit_val :: "char \<Rightarrow> nat" where
  "digit_val c = byte c - 48"

fun digits_val :: "nat \<Rightarrow> string \<Rightarrow> nat" where
  "digits_val a [] = a"
| "digits_val a (c # cs) = digits_val (10 * a + digit_val c) cs"

lemma digits_val_append: "digits_val a (s @ t) = digits_val (digits_val a s) t"
  by (induction s arbitrary: a) auto

lemma c_digits_isdigit: "\<forall>c \<in> set (c_digits n). c_isdigit c"
proof (induction n rule: c_digits.induct)
  case (1 n)
  then show ?case
    by (subst c_digits.simps) (auto simp: c_isdigit_def)
qed

lemma digits_val_c_digits: "digits_val 0 (c_digits n) = n"
proof (induction n rule: c_digits.induct)
  case (1 n)
  then show ?case
    by (subst c_digits.simps) (auto simp: digits_val_append digit_val_def)
qed

lemma c_digits_ne [simp]: "c_digits n \<noteq> []"
  by (subst c_digits.simps) simp

lemma length_c_digits: "0 < k \<Longrightarrow> n < 10 ^ k \<Longrightarrow> length (c_digits n) \<le> k"
proof (induction k arbitrary: n)
  case 0
  then show ?case by simp
next
  case (Suc k)
  show ?case
  proof (cases "n < 10")
    case True
    then show ?thesis by (simp add: c_digits.simps)
  next
    case False
    with Suc.prems have "0 < k" by (cases k) auto
    moreover have "n div 10 < 10 ^ k"
      using Suc.prems by (simp add: less_mult_imp_div_less mult.commute)
    ultimately show ?thesis
      using Suc.IH [of "n div 10"] False by (subst c_digits.simps) auto
  qed
qed

text \<open>
  atoi and the decimal branch of a scanf conversion: leading white space, an optional sign, then
  digits; 0 when there is no digit.
\<close>

definition atoi :: "string \<Rightarrow> int" where
  "atoi s = (let t = dropWhile c_isspace s in
     case t of
       [] \<Rightarrow> 0
     | c # cs \<Rightarrow>
         if c = CHR ''-'' then - int (digits_val 0 (takeWhile c_isdigit cs))
         else if c = CHR ''+'' then int (digits_val 0 (takeWhile c_isdigit cs))
         else int (digits_val 0 (takeWhile c_isdigit t)))"

lemma takeWhile_digits: "takeWhile c_isdigit (c_digits n) = c_digits n"
  by (rule takeWhile_eq_self) (rule c_digits_isdigit)

lemma isdigit_not_space: "c_isdigit c \<Longrightarrow> \<not> c_isspace c"
  by (auto simp: c_isdigit_def c_isspace_def)

lemma isdigit_not_sign: "c_isdigit c \<Longrightarrow> c \<noteq> CHR ''-'' \<and> c \<noteq> CHR ''+''"
  by (auto simp: c_isdigit_def)

lemma atoi_c_int: "atoi (c_int i) = i"
proof (cases "i < 0")
  case True
  then show ?thesis
    by (simp add: atoi_def c_int_def c_isspace_def takeWhile_digits digits_val_c_digits)
next
  case False
  obtain c cs where d: "c_digits (nat i) = c # cs"
    by (cases "c_digits (nat i)") auto
  then have "c_isdigit c" using c_digits_isdigit [of "nat i"] by auto
  then have c: "c_isdigit c" "\<not> c_isspace c" "c \<noteq> CHR ''-''" "c \<noteq> CHR ''+''"
    by (auto dest: isdigit_not_space isdigit_not_sign)
  from d have "takeWhile c_isdigit (c # cs) = c # cs" "digits_val 0 (c # cs) = nat i"
    using takeWhile_digits [of "nat i"] digits_val_c_digits [of "nat i"] by simp_all
  with c False d show ?thesis
    by (simp add: atoi_def c_int_def takeWhile_eq_self)
qed

end
