(* ===== verification/FileSys.thy ===== *)
theory FileSys
  imports CString
begin

text \<open>
  The file system as the launcher sees it: the contents of the files, the entries of the
  directories in the order readdir returns them, and the paths the system lets it write. The
  listing of a directory is data of its own; creating a file does not change it (no code path of
  the model creates a file in a directory that it lists afterwards).

  The second half is the file helpers of workspace/all/common/utils.c (exists, touch, putFile,
  getFile, allocFile, getInt, putInt) and the launcher's power-cut safe Lodor_atomicWrite.
\<close>

record dirent =
  d_name :: string
  d_isdir :: bool

record fsys =
  fs_files :: "string \<Rightarrow> string option"
  fs_dirs :: "string \<Rightarrow> dirent list option"
  fs_writable :: "string \<Rightarrow> bool"

text \<open>A directory may be named with trailing slashes.\<close>

definition dir_key :: "string \<Rightarrow> string" where
  "dir_key p = rev (dropWhile (\<lambda>c. c = CHR ''/'') (rev p))"

definition opendir :: "fsys \<Rightarrow> string \<Rightarrow> dirent list option" where
  "opendir fs p = fs_dirs fs (dir_key p)"

definition exists :: "fsys \<Rightarrow> string \<Rightarrow> bool" where
  "exists fs p \<longleftrightarrow> fs_files fs p \<noteq> None \<or> opendir fs p \<noteq> None"

definition unlink :: "fsys \<Rightarrow> string \<Rightarrow> fsys" where
  "unlink fs p = fs\<lparr>fs_files := (fs_files fs)(p := None)\<rparr>"

section \<open>utils.c: files\<close>

text \<open>touch creates an empty file when there is none and keeps an existing one.\<close>

definition touch :: "fsys \<Rightarrow> string \<Rightarrow> fsys" where
  "touch fs p =
     (if fs_files fs p = None \<and> fs_writable fs p
      then fs\<lparr>fs_files := (fs_files fs)(p \<mapsto> [])\<rparr> else fs)"

definition putFile :: "fsys \<Rightarrow> string \<Rightarrow> string \<Rightarrow> fsys" where
  "putFile fs p contents =
     (if fs_writable fs p then fs\<lparr>fs_files := (fs_files fs)(p \<mapsto> contents)\<rparr> else fs)"

text \<open>
  None when the file does not open: the caller's buffer then keeps whatever it held.
\<close>

definition getFile :: "fsys \<Rightarrow> string \<Rightarrow> nat \<Rightarrow> string option" where
  "getFile fs p n = map_option (\<lambda>c. c_str (c_trunc n c)) (fs_files fs p)"

definition allocFile :: "fsys \<Rightarrow> string \<Rightarrow> string option" where
  "allocFile fs p = map_option c_str (fs_files fs p)"

text \<open>
  The conversion %i of fscanf: white space, a sign, then 0x and hexadecimal digits, 0 and octal
  digits, or decimal digits; the 32-bit long of the platform saturates.
\<close>

definition hex_val :: "char \<Rightarrow> nat option" where
  "hex_val c =
     (if c_isdigit c then Some (byte c - 48)
      else if 97 \<le> byte c \<and> byte c \<le> 102 then Some (byte c - 87)
      else if 65 \<le> byte c \<and> byte c \<le> 70 then Some (byte c - 55)
      else None)"

fun base_val :: "nat \<Rightarrow> nat \<Rightarrow> string \<Rightarrow> nat" where
  "base_val b a [] = a"
| "base_val b a (c # cs) =
     (case hex_val c of
        Some d \<Rightarrow> if d < b then base_val b (b * a + d) cs else a
      | None \<Rightarrow> a)"

definition scan_unsigned :: "string \<Rightarrow> nat" where
  "scan_unsigned s =
     (case s of
        (c # d # ds) \<Rightarrow>
          if c = CHR ''0'' then
            (if d = CHR ''x'' \<or> d = CHR ''X'' then base_val 16 0 ds else base_val 8 0 s)
          else base_val 10 0 s
      | _ \<Rightarrow> base_val 10 0 s)"

definition saturate :: "int \<Rightarrow> int" where
  "saturate i = max (- (2 ^ 31)) (min (2 ^ 31 - 1) i)"

definition scan_i :: "string \<Rightarrow> int" where
  "scan_i s =
     (case dropWhile c_isspace s of
        [] \<Rightarrow> 0
      | c # cs \<Rightarrow>
          saturate (if c = CHR ''-'' then - int (scan_unsigned cs)
                    else if c = CHR ''+'' then int (scan_unsigned cs)
                    else int (scan_unsigned (c # cs))))"

definition getInt :: "fsys \<Rightarrow> string \<Rightarrow> int" where
  "getInt fs p = (case fs_files fs p of None \<Rightarrow> 0 | Some c \<Rightarrow> scan_i c)"

text \<open>The number is printed into a buffer of 8 bytes before it is written.\<close>

definition putInt :: "fsys \<Rightarrow> string \<Rightarrow> int \<Rightarrow> fsys option" where
  "putInt fs p v = do {
     buffer \<leftarrow> c_buf 8 (c_int v);
     Some (putFile fs p buffer)
   }"

section \<open>The store interface\<close>

text \<open>
  What the components rely on when they keep their state in files: a write to a path that may be
  written is what the next read of that path returns, and no other path changes.
\<close>

locale file_store =
  fixes rd :: "'s \<Rightarrow> string \<Rightarrow> string option"
    and wr :: "'s \<Rightarrow> string \<Rightarrow> string \<Rightarrow> 's"
    and ok :: "'s \<Rightarrow> string \<Rightarrow> bool"
  assumes rd_wr_same: "ok s p \<Longrightarrow> rd (wr s p c) p = Some c"
    and rd_wr_other: "p \<noteq> q \<Longrightarrow> rd (wr s p c) q = rd s q"
    and wr_refused: "\<not> ok s p \<Longrightarrow> wr s p c = s"
    and ok_wr: "ok (wr s p c) q = ok s q"
begin

lemma rd_wr: "rd (wr s p c) q = (if p = q \<and> ok s p then Some c else rd s q)"
  by (metis rd_wr_other rd_wr_same wr_refused)

lemma rd_wr_twice: "ok s p \<Longrightarrow> rd (wr (wr s p c) p d) q = rd (wr s p d) q"
  by (simp add: rd_wr ok_wr)

lemma rd_wr_commute: "p \<noteq> q \<Longrightarrow> rd (wr (wr s p c) q d) r = rd (wr (wr s q d) p c) r"
  by (auto simp: rd_wr ok_wr)

lemma rd_wr_mono: "rd s q \<noteq> None \<Longrightarrow> rd (wr s p c) q \<noteq> None"
  by (simp add: rd_wr)

end

interpretation fstore: file_store fs_files putFile fs_writable
  by unfold_locales (auto simp: putFile_def)

lemma putFile_frame [simp]:
  "fs_dirs (putFile fs p c) = fs_dirs fs" "fs_writable (putFile fs p c) = fs_writable fs"
  by (simp_all add: putFile_def)

lemma opendir_putFile [simp]: "opendir (putFile fs p c) q = opendir fs q"
  by (simp add: opendir_def)

lemma exists_putFile: "exists fs q \<Longrightarrow> exists (putFile fs p c) q"
  using fstore.rd_wr_mono by (auto simp: exists_def)

lemma exists_putFile_other: "p \<noteq> q \<Longrightarrow> exists (putFile fs p c) q = exists fs q"
  by (simp add: exists_def fstore.rd_wr)

lemma getFile_putFile:
  "fs_writable fs p \<Longrightarrow> getFile (putFile fs p c) p n = Some (c_str (c_trunc n c))"
  by (simp add: getFile_def fstore.rd_wr)

section \<open>Numbers in files\<close>

lemma hex_val_digit: "c_isdigit c \<Longrightarrow> hex_val c = Some (digit_val c) \<and> digit_val c < 10"
  by (auto simp: hex_val_def digit_val_def c_isdigit_def)

lemma base_val_10: "\<forall>c \<in> set s. c_isdigit c \<Longrightarrow> base_val 10 a s = digits_val a s"
  by (induction s arbitrary: a) (auto simp: hex_val_digit)

lemma c_digits_no_leading_0: "0 < n \<Longrightarrow> hd (c_digits n) \<noteq> CHR ''0''"
proof (induction n rule: c_digits.induct)
  case (1 n)
  show ?case
  proof (cases "n < 10")
    case True
    then have "byte (char_of (48 + n)) \<noteq> byte CHR ''0''" using "1.prems" by simp
    then have "char_of (48 + n) \<noteq> CHR ''0''" by fastforce
    with True show ?thesis by (subst c_digits.simps) simp
  next
    case False
    then have "hd (c_digits (n div 10)) \<noteq> CHR ''0''" using 1 by auto
    with False show ?thesis by (subst c_digits.simps) (simp add: hd_append)
  qed
qed

lemma scan_unsigned_c_digits: "scan_unsigned (c_digits n) = n"
proof (cases "n = 0")
  case True
  then show ?thesis by (simp add: c_digits.simps scan_unsigned_def hex_val_def c_isdigit_def)
next
  case False
  then have "hd (c_digits n) \<noteq> CHR ''0''" using c_digits_no_leading_0 by simp
  then have "scan_unsigned (c_digits n) = base_val 10 0 (c_digits n)"
    by (cases "c_digits n") (auto simp: scan_unsigned_def split: list.splits)
  then show ?thesis by (simp add: base_val_10 c_digits_isdigit digits_val_c_digits)
qed

lemma scan_i_c_int: "- (2 ^ 31) \<le> i \<Longrightarrow> i < 2 ^ 31 \<Longrightarrow> scan_i (c_int i) = i"
proof (cases "i < 0")
  case True
  assume "- (2 ^ 31) \<le> i" "i < 2 ^ 31"
  with True show ?thesis
    by (simp add: scan_i_def c_int_def c_isspace_def scan_unsigned_c_digits saturate_def)
next
  case False
  assume b: "- (2 ^ 31) \<le> i" "i < 2 ^ 31"
  obtain c cs where d: "c_digits (nat i) = c # cs" by (cases "c_digits (nat i)") auto
  then have "c_isdigit c" using c_digits_isdigit [of "nat i"] by auto
  then have "\<not> c_isspace c" "c \<noteq> CHR ''-''" "c \<noteq> CHR ''+''"
    by (auto dest: isdigit_not_space isdigit_not_sign)
  then show ?thesis
    using False b d scan_unsigned_c_digits [of "nat i"]
    by (simp add: scan_i_def c_int_def saturate_def)
qed

end
