(* ===== verification/Utils.thy ===== *)
theory Utils
  imports FileSys
begin

text \<open>
  workspace/all/common/utils.c and the path constants of workspace/all/common/defines.h: string
  matching, the hidden-file rule, the display name and emulator tag of a path, and the line and
  sorting-prefix clean-up that every file reader of the launcher uses. Paths are those of the
  miyoomini build (platform.h).
\<close>

section \<open>Paths\<close>

definition PLATFORM :: string where
  "PLATFORM = ''miyoomini''"

definition SDCARD_PATH :: string where
  "SDCARD_PATH = ''/mnt/SDCARD''"

definition ROMS_PATH :: string where
  "ROMS_PATH = SDCARD_PATH @ ''/Roms''"

definition SYSTEM_PATH :: string where
  "SYSTEM_PATH = SDCARD_PATH @ ''/.system/'' @ PLATFORM"

definition SHARED_USERDATA_PATH :: string where
  "SHARED_USERDATA_PATH = SDCARD_PATH @ ''/.userdata/shared''"

definition PAKS_PATH :: string where
  "PAKS_PATH = SYSTEM_PATH @ ''/paks''"

definition RECENT_PATH :: string where
  "RECENT_PATH = SHARED_USERDATA_PATH @ ''/.minui/recent.txt''"

definition AUTO_RESUME_PATH :: string where
  "AUTO_RESUME_PATH = SHARED_USERDATA_PATH @ ''/.minui/auto_resume.txt''"

definition AUTO_RESUME_SLOT :: int where
  "AUTO_RESUME_SLOT = 9"

definition FAUX_RECENT_PATH :: string where
  "FAUX_RECENT_PATH = SDCARD_PATH @ ''/Recently Played''"

definition COLLECTIONS_PATH :: string where
  "COLLECTIONS_PATH = SDCARD_PATH @ ''/Collections''"

definition LAST_PATH :: string where
  "LAST_PATH = ''/tmp/last.txt''"

definition CHANGE_DISC_PATH :: string where
  "CHANGE_DISC_PATH = ''/tmp/change_disc.txt''"

definition RESUME_SLOT_PATH :: string where
  "RESUME_SLOT_PATH = ''/tmp/resume_slot.txt''"

lemmas path_defs = PLATFORM_def SDCARD_PATH_def ROMS_PATH_def SYSTEM_PATH_def
  SHARED_USERDATA_PATH_def PAKS_PATH_def RECENT_PATH_def AUTO_RESUME_PATH_def
  FAUX_RECENT_PATH_def COLLECTIONS_PATH_def LAST_PATH_def CHANGE_DISC_PATH_def
  RESUME_SLOT_PATH_def

section \<open>Matching\<close>

definition prefixMatch :: "string \<Rightarrow> string \<Rightarrow> bool" where
  "prefixMatch pre str \<longleftrightarrow> strncasecmp pre str (length pre) = 0"

definition suffixMatch :: "string \<Rightarrow> string \<Rightarrow> bool" where
  "suffixMatch suf str \<longleftrightarrow>
     (let len = int (length suf); offset = int (length str) - len
      in 0 \<le> offset \<and> strncasecmp suf (drop (nat offset) str) (length suf) = 0)"

text \<open>The arguments may be NULL.\<close>

definition exactMatch :: "string option \<Rightarrow> string option \<Rightarrow> bool" where
  "exactMatch str1 str2 \<longleftrightarrow>
     (case (str1, str2) of
        (Some s1, Some s2) \<Rightarrow> length s1 = length s2 \<and> strncmp s1 s2 (length s1) = 0
      | _ \<Rightarrow> False)"

definition containsString :: "string \<Rightarrow> string \<Rightarrow> bool" where
  "containsString haystack needle \<longleftrightarrow> strcasestr haystack needle \<noteq> None"

definition hide :: "string \<Rightarrow> bool" where
  "hide file_name \<longleftrightarrow>
     (file_name \<noteq> [] \<and> hd file_name = CHR ''.'') \<or> suffixMatch ''.disabled'' file_name
     \<or> exactMatch (Some ''map.txt'') (Some file_name)
     \<or> exactMatch (Some ''Lodor.pak'') (Some file_name)
     \<or> exactMatch (Some ''HoardUI Options.pak'') (Some file_name)
     \<or> exactMatch (Some ''Sync.pak'') (Some file_name)
     \<or> exactMatch (Some ''Sync Pending.pak'') (Some file_name)"

lemma exactMatch_iff [simp]:
  "exactMatch (Some s) (Some t) \<longleftrightarrow> s = t"
proof -
  have "strncmp s t (length s) = 0 \<longleftrightarrow> s = t" if "length s = length t"
    using that
  proof (induction s arbitrary: t)
    case Nil
    then show ?case by simp
  next
    case (Cons a s)
    then show ?case by (cases t) auto
  qed
  then show ?thesis by (auto simp: exactMatch_def)
qed

lemma exactMatch_NULL [simp]: "\<not> exactMatch None t" "\<not> exactMatch s None"
  by (auto simp: exactMatch_def split: option.splits)

lemma prefixMatch_iff:
  assumes "nul_free pre" "nul_free str"
  shows "prefixMatch pre str \<longleftrightarrow> prefix (lower pre) (lower str)"
proof -
  have "prefixMatch pre str \<longleftrightarrow> lower pre = lower (take (length pre) str)"
    using assms by (simp add: prefixMatch_def strncasecmp_0_iff)
  also have "\<dots> \<longleftrightarrow> lower pre = take (length (lower pre)) (lower str)"
    by (simp add: lower_def take_map)
  also have "\<dots> \<longleftrightarrow> prefix (lower pre) (lower str)"
    by (subst prefix_iff_take) (rule eq_commute)
  finally show ?thesis .
qed

lemma prefixMatch_append: "prefixMatch pre (pre @ s)"
  unfolding prefixMatch_def by (induction pre) auto

lemma suffixMatch_iff:
  assumes "nul_free suf" "nul_free str"
  shows "suffixMatch suf str \<longleftrightarrow> suffix (lower suf) (lower str)"
proof -
  have "suffixMatch suf str \<longleftrightarrow>
      length suf \<le> length str \<and> lower suf = lower (drop (length str - length suf) str)"
    using assms by (auto simp: suffixMatch_def Let_def strncasecmp_0_iff nat_diff_distrib)
  also have "\<dots> \<longleftrightarrow> length suf \<le> length str \<and> lower suf = drop (length (lower str) - length (lower suf)) (lower str)"
    by (simp add: lower_def drop_map)
  also have "\<dots> \<longleftrightarrow> suffix (lower suf) (lower str)"
    by (simp add: suffix_iff_drop)
  finally show ?thesis .
qed

lemma suffixMatch_append: "suffixMatch suf (s @ suf)"
  using prefixMatch_append [of suf "[]"] by (simp add: suffixMatch_def prefixMatch_def Let_def)

section \<open>Display names\<close>

text \<open>Extensions of one to four letters are cut off one after the other.\<close>

function strip_extensions :: "string \<Rightarrow> string" where
  "strip_extensions s =
     (case strrchr s (CHR ''.'') of
        None \<Rightarrow> s
      | Some i \<Rightarrow>
          (let len = length s - i
           in if 2 < len \<and> len \<le> 5 then strip_extensions (take i s) else s))"
  by pat_completeness auto
termination
  by (relation "measure length") (auto dest: strrchr_less)

text \<open>Then everything from the last opening parenthesis, round ones first, unless it opens the name.\<close>

function strip_parens :: "string \<Rightarrow> string" where
  "strip_parens s =
     (case (case strrchr s (CHR ''('') of Some i \<Rightarrow> Some i | None \<Rightarrow> strrchr s (CHR ''['')) of
        None \<Rightarrow> s
      | Some i \<Rightarrow> if i = 0 then s else strip_parens (take i s))"
  by pat_completeness auto
termination
  by (relation "measure length") (auto split: option.splits dest: strrchr_less)

declare strip_extensions.simps [simp del] strip_parens.simps [simp del]

text \<open>Trailing white space goes, but never the first character.\<close>

definition trim_tail :: "string \<Rightarrow> string" where
  "trim_tail s = (case s of [] \<Rightarrow> [] | c # cs \<Rightarrow> c # rev (dropWhile c_isspace (rev cs)))"

definition getDisplayName :: "string \<Rightarrow> string option" where
  "getDisplayName in_name = do {
     work_name \<leftarrow> c_buf 256 in_name;
     out_name \<leftarrow> c_buf 256 in_name;
     work_name \<leftarrow>
       (if suffixMatch (''/'' @ PLATFORM) work_name
        then (case strrchr work_name (CHR ''/'') of
                None \<Rightarrow> None
              | Some i \<Rightarrow> Some (take i work_name))
        else Some work_name);
     let out_name = (case strrchr work_name (CHR ''/'') of
                       Some i \<Rightarrow> drop (Suc i) work_name
                     | None \<Rightarrow> out_name);
     let out_name = strip_extensions out_name;
     let work_name = out_name;
     let out_name = strip_parens out_name;
     let out_name = (if out_name = [] then work_name else out_name);
     Some (trim_tail out_name)
   }"

section \<open>Emulator tags\<close>

text \<open>
  The output buffer holds cap bytes. A path below ROMS_PATH is cut to its first component; the
  text between the last opening parenthesis and the next closing one is the tag. A name that
  opens a parenthesis and never closes it makes the code write through a NULL pointer. Copying
  the path that is ROMS_PATH itself would start past its end.
\<close>

definition getEmuName :: "nat \<Rightarrow> string \<Rightarrow> string option" where
  "getEmuName cap in_name = do {
     out_name \<leftarrow> c_buf cap in_name;
     out_name \<leftarrow>
       (if prefixMatch ROMS_PATH out_name
        then do {
          c_ok (length ROMS_PATH + 1 \<le> length out_name);
          let tmp = drop (length ROMS_PATH + 1) out_name;
          Some (case strchr tmp (CHR ''/'') of Some i \<Rightarrow> take i tmp | None \<Rightarrow> tmp)
        }
        else Some out_name);
     (case strrchr out_name (CHR ''('') of
        None \<Rightarrow> Some out_name
      | Some i \<Rightarrow>
          (let out_name = drop (Suc i) out_name
           in case strchr out_name (CHR '')'') of
                None \<Rightarrow> None
              | Some j \<Rightarrow> Some (take j out_name)))
   }"

definition getEmuPath :: "fsys \<Rightarrow> string \<Rightarrow> string option" where
  "getEmuPath fs emu_name = do {
     pak_path \<leftarrow> c_buf 256 (SDCARD_PATH @ ''/Emus/'' @ PLATFORM @ ''/'' @ emu_name @ ''.pak/launch.sh'');
     (if exists fs pak_path then Some pak_path
      else c_buf 256 (PAKS_PATH @ ''/Emus/'' @ emu_name @ ''.pak/launch.sh''))
   }"

section \<open>Lines\<close>

definition normalizeNewline :: "string \<Rightarrow> string" where
  "normalizeNewline line =
     (let len = length line
      in if 1 < len \<and> line ! (len - 1) = NL \<and> line ! (len - 2) = CR
         then take (len - 2) line @ [NL] else line)"

function trimTrailingNewlines :: "string \<Rightarrow> string" where
  "trimTrailingNewlines line =
     (let len = length line
      in if 0 < len \<and> line ! (len - 1) = NL then trimTrailingNewlines (take (len - 1) line)
         else line)"
  by pat_completeness auto
termination
  by (relation "measure length") auto

declare trimTrailingNewlines.simps [simp del]

text \<open>The two calls every reader makes on a line it got from fgets.\<close>

definition clean_line :: "string \<Rightarrow> string" where
  "clean_line line = trimTrailingNewlines (normalizeNewline line)"

text \<open>The prefix of digits, a closing parenthesis and blanks that orders a menu.\<close>

definition trimSortingMeta :: "string \<Rightarrow> string" where
  "trimSortingMeta str =
     (case dropWhile c_isdigit str of
        [] \<Rightarrow> str
      | c # cs \<Rightarrow> if c = CHR '')'' then dropWhile c_isblank cs else str)"

section \<open>Lemmas\<close>

lemma trim_snoc_NL: "trimTrailingNewlines (l @ [NL]) = trimTrailingNewlines l"
  by (subst trimTrailingNewlines.simps) (simp add: Let_def)

lemma trim_no_NL: "NL \<notin> set l \<Longrightarrow> trimTrailingNewlines l = l"
  by (subst trimTrailingNewlines.simps) (auto simp: Let_def in_set_conv_nth)

lemma trim_result: "trimTrailingNewlines l = [] \<or> last (trimTrailingNewlines l) \<noteq> NL"
proof (induction l rule: trimTrailingNewlines.induct)
  case (1 l)
  then show ?case
    by (subst (1 2) trimTrailingNewlines.simps) (auto simp: Let_def last_conv_nth)
qed

lemma trim_prefix: "prefix (trimTrailingNewlines l) l"
proof (induction l rule: trimTrailingNewlines.induct)
  case (1 l)
  then show ?case
    by (subst trimTrailingNewlines.simps)
       (auto simp: Let_def intro: prefix_order.trans take_is_prefix)
qed

lemma normalize_LF: "NL \<notin> set l \<Longrightarrow> CR \<notin> set l \<Longrightarrow> normalizeNewline (l @ [NL]) = l @ [NL]"
  by (auto simp: normalizeNewline_def Let_def nth_append in_set_conv_nth)

lemma normalize_CRLF: "normalizeNewline (l @ [CR, NL]) = l @ [NL]"
  by (simp add: normalizeNewline_def Let_def nth_append)

lemma normalize_no_NL: "NL \<notin> set l \<Longrightarrow> normalizeNewline l = l"
  by (auto simp: normalizeNewline_def Let_def dest!: nth_last_mem)

lemma clean_line_LF: "NL \<notin> set l \<Longrightarrow> CR \<notin> set l \<Longrightarrow> clean_line (l @ [NL]) = l"
  by (simp add: clean_line_def normalize_LF trim_snoc_NL trim_no_NL)

lemma clean_line_CRLF: "NL \<notin> set l \<Longrightarrow> clean_line (l @ [CR, NL]) = l"
  by (simp add: clean_line_def normalize_CRLF trim_snoc_NL trim_no_NL)

lemma clean_line_last: "NL \<notin> set l \<Longrightarrow> clean_line l = l"
  by (simp add: clean_line_def normalize_no_NL trim_no_NL)

lemma length_normalizeNewline: "length (normalizeNewline l) \<le> length l"
  by (auto simp: normalizeNewline_def Let_def)

lemma length_clean_line: "length (clean_line l) \<le> length l"
  unfolding clean_line_def
  by (rule order_trans [OF prefix_length_le [OF trim_prefix] length_normalizeNewline])

text \<open>The non-empty cleaned lines of a file, as the readers' loops see them.\<close>

definition read_lines :: "nat \<Rightarrow> string \<Rightarrow> string list" where
  "read_lines n contents = filter (\<lambda>l. l \<noteq> []) (map clean_line (fgets_all n contents))"

definition line_ok :: "nat \<Rightarrow> string \<Rightarrow> bool" where
  "line_ok n l \<longleftrightarrow> NL \<notin> set l \<and> CR \<notin> set l \<and> nul_free l \<and> length l + 1 < n"

lemma read_lines_Nil [simp]: "read_lines n [] = []"
  by (simp add: read_lines_def)

lemma read_lines_Cons:
  "line_ok n l \<Longrightarrow> read_lines n (l @ NL # rest) = (if l = [] then [] else [l]) @ read_lines n rest"
  by (simp add: read_lines_def line_ok_def fgets_all_line clean_line_LF)

lemma read_lines_written:
  "\<forall>l \<in> set ls. line_ok n l \<Longrightarrow>
   read_lines n (concat (map (\<lambda>l. l @ [NL]) ls)) = filter (\<lambda>l. l \<noteq> []) ls"
  by (induction ls) (auto simp: read_lines_Cons)

lemma set_normalizeNewline: "set (normalizeNewline l) \<subseteq> set l"
  by (auto simp: normalizeNewline_def Let_def dest: in_set_takeD dest!: nth_last_mem)

lemma set_clean_line: "set (clean_line l) \<subseteq> set l"
  using trim_prefix [of "normalizeNewline l"] set_normalizeNewline [of l]
  unfolding clean_line_def by (auto dest: set_mono_prefix)

lemma read_lines_member:
  "l \<in> set (read_lines n s) \<Longrightarrow> l \<noteq> [] \<and> nul_free l \<and> length l < n"
proof -
  assume "l \<in> set (read_lines n s)"
  then obtain r where r: "r \<in> set (fgets_all n s)" "l = clean_line r" "l \<noteq> []"
    by (auto simp: read_lines_def)
  with fgets_all_member [OF r(1)] length_clean_line [of r] set_clean_line [of r]
  show ?thesis by (auto simp: nul_free_def)
qed

section \<open>Display names: what is shown\<close>

lemma prefix_of_take: "prefix t (take i s) \<Longrightarrow> prefix t s"
  by (rule prefix_order.trans [OF _ take_is_prefix])

lemma strip_extensions_prefix: "prefix (strip_extensions s) s"
proof (induction s rule: strip_extensions.induct)
  case (1 s)
  show ?case
  proof (cases "strrchr s (CHR ''.'')")
    case None
    then show ?thesis by (simp add: strip_extensions.simps [of s])
  next
    case (Some i)
    have "prefix (strip_extensions (take i s)) s" if "2 < length s - i \<and> length s - i \<le> 5"
      by (rule prefix_of_take) (rule "1.IH" [OF Some refl that])
    with Some show ?thesis by (simp add: strip_extensions.simps [of s] Let_def)
  qed
qed

lemma strip_parens_prefix: "prefix (strip_parens s) s"
proof (induction s rule: strip_parens.induct)
  case (1 s)
  note IH = "1.IH"
  let ?o = "case strrchr s (CHR ''('') of Some i \<Rightarrow> Some i | None \<Rightarrow> strrchr s (CHR ''['')"
  show ?case
  proof (cases ?o)
    case None
    then show ?thesis by (subst strip_parens.simps) simp
  next
    case (Some i)
    have "prefix (strip_parens (take i s)) s" if "i \<noteq> 0"
      by (rule prefix_of_take) (rule IH [OF Some that])
    with Some show ?thesis by (subst strip_parens.simps) simp
  qed
qed

lemma strip_parens_ne: "s \<noteq> [] \<Longrightarrow> strip_parens s \<noteq> []"
proof (induction s rule: strip_parens.induct)
  case (1 s)
  then show ?case
    by (subst strip_parens.simps) (auto split: option.splits)
qed

lemma strip_parens_parens:
  "strip_parens s \<noteq> [] \<Longrightarrow> CHR ''('' \<notin> set (tl (strip_parens s))"
proof (induction s rule: strip_parens.induct)
  case (1 s)
  show ?case
  proof (cases "strrchr s (CHR ''('')")
    case None
    then have no: "CHR ''('' \<notin> set s" by (simp add: strrchr_None)
    have "set (tl (strip_parens s)) \<subseteq> set s"
      using set_mono_prefix [OF strip_parens_prefix [of s]]
      by (cases "strip_parens s") auto
    with no show ?thesis by blast
  next
    case (Some i)
    show ?thesis
    proof (cases "i = 0")
      case True
      with Some have "CHR ''('' \<notin> set (tl s)"
        using strrchr_split [OF Some] by (cases s) auto
      with Some True show ?thesis by (simp add: strip_parens.simps [of s])
    next
      case False
      with Some 1 show ?thesis by (simp add: strip_parens.simps [of s])
    qed
  qed
qed

lemma trim_tail_prefix: "prefix (trim_tail s) s"
proof (cases s)
  case Nil
  then show ?thesis by (simp add: trim_tail_def)
next
  case (Cons c cs)
  have "prefix (rev (dropWhile c_isspace (rev cs))) cs"
    using suffix_dropWhile [of c_isspace "rev cs"] by (simp add: suffix_to_prefix)
  with Cons show ?thesis by (simp add: trim_tail_def)
qed

lemma trim_tail_ne: "trim_tail s = [] \<longleftrightarrow> s = []"
  by (auto simp: trim_tail_def split: list.splits)

lemma trim_tail_last: "1 < length (trim_tail s) \<Longrightarrow> \<not> c_isspace (last (trim_tail s))"
proof (cases s)
  case Nil
  then show "1 < length (trim_tail s) \<Longrightarrow> ?thesis" by (simp add: trim_tail_def)
next
  case (Cons c cs)
  assume "1 < length (trim_tail s)"
  with Cons have ne: "dropWhile c_isspace (rev cs) \<noteq> []" by (auto simp: trim_tail_def)
  then have "\<not> c_isspace (hd (dropWhile c_isspace (rev cs)))" by (rule hd_dropWhile)
  with Cons ne show ?thesis
    by (simp add: trim_tail_def last_rev del: dropWhile_eq_Nil_conv)
qed

text \<open>
  The name of a path that is not the Tools folder of the platform: computed from the last
  component alone.
\<close>

lemma getDisplayName_base:
  assumes "length (dir @ CHR ''/'' # base) < 256"
    and "CHR ''/'' \<notin> set base" and "\<not> suffixMatch (''/'' @ PLATFORM) (dir @ CHR ''/'' # base)"
  shows "getDisplayName (dir @ CHR ''/'' # base) =
    (let e = strip_extensions base; p = strip_parens e
     in Some (trim_tail (if p = [] then e else p)))"
  using assms by (simp add: getDisplayName_def strrchr_append Let_def)

lemma lower_slash: "CHR ''/'' \<in> set (lower s) \<Longrightarrow> CHR ''/'' \<in> set s"
proof -
  assume "CHR ''/'' \<in> set (lower s)"
  then obtain c where c: "c \<in> set s" "c_tolower c = CHR ''/''" by (auto simp: lower_def)
  then have "byte (c_tolower c) = 47" by simp
  then have "byte c = byte (CHR ''/'')" by (auto simp: byte_tolower split: if_splits)
  then have "c = CHR ''/''" by (simp only: byte_inject)
  with c show ?thesis by simp
qed

lemma platform_suffix_slash:
  assumes "nul_free s" "suffixMatch (''/'' @ PLATFORM) s"
  shows "CHR ''/'' \<in> set s"
proof -
  have "suffix (lower (''/'' @ PLATFORM)) (lower s)"
    using assms suffixMatch_iff [of "''/'' @ PLATFORM" s] by (simp add: PLATFORM_def NUL_def)
  then have "set (lower (''/'' @ PLATFORM)) \<subseteq> set (lower s)" by (rule set_mono_suffix)
  moreover have "CHR ''/'' \<in> set (lower (''/'' @ PLATFORM))"
    by (simp add: PLATFORM_def c_tolower_def)
  ultimately have "CHR ''/'' \<in> set (lower s)" by blast
  then show ?thesis by (rule lower_slash)
qed

lemma length_prefix_chain:
  "length (trim_tail (if p = [] then e else p)) \<le> max (length e) (length p)"
  using prefix_length_le [OF trim_tail_prefix] by (auto intro: order_trans simp: le_max_iff_disj)

lemma getDisplayName_total:
  assumes "length s < 256" "nul_free s"
  shows "\<exists>d. getDisplayName s = Some d \<and> length d \<le> length s"
proof -
  obtain w where w: "(if suffixMatch (''/'' @ PLATFORM) s
      then (case strrchr s (CHR ''/'') of None \<Rightarrow> None | Some i \<Rightarrow> Some (take i s))
      else Some s) = Some w" "length w \<le> length s"
    using strrchr_in_set [OF platform_suffix_slash [OF assms(2)]] by (cases "suffixMatch (''/'' @ PLATFORM) s") auto
  let ?b = "case strrchr w (CHR ''/'') of Some i \<Rightarrow> drop (Suc i) w | None \<Rightarrow> s"
  let ?e = "strip_extensions ?b"
  let ?p = "strip_parens ?e"
  have "length ?b \<le> length s" using w(2) by (auto split: option.splits)
  moreover have "length ?e \<le> length ?b" by (rule prefix_length_le [OF strip_extensions_prefix])
  moreover have "length ?p \<le> length ?e" by (rule prefix_length_le [OF strip_parens_prefix])
  ultimately have "length (trim_tail (if ?p = [] then ?e else ?p)) \<le> length s"
    using length_prefix_chain [of ?p ?e] by linarith
  moreover have "getDisplayName s = Some (trim_tail (if ?p = [] then ?e else ?p))"
    using assms(1) w(1) by (simp add: getDisplayName_def Let_def)
  ultimately show ?thesis by blast
qed

text \<open>The tag of a console folder.\<close>

lemma folder_tag:
  assumes "CHR ''/'' \<notin> set nm" "CHR ''/'' \<notin> set tag" "CHR ''/'' \<notin> set post"
    and "CHR ''('' \<notin> set tag" "CHR ''('' \<notin> set post" "CHR '')'' \<notin> set tag"
    and "length (ROMS_PATH @ CHR ''/'' # nm @ CHR ''('' # tag @ CHR '')'' # post @ CHR ''/'' # rest) < cap"
  shows "getEmuName cap (ROMS_PATH @ CHR ''/'' # nm @ CHR ''('' # tag @ CHR '')'' # post @ CHR ''/'' # rest)
    = Some tag"
proof -
  let ?folder = "nm @ CHR ''('' # tag @ CHR '')'' # post"
  have cut: "strchr (?folder @ CHR ''/'' # rest) (CHR ''/'') = Some (length ?folder)"
    by (rule strchr_append) (use assms in auto)
  have opn: "strrchr ?folder (CHR ''('') = Some (length nm)"
    by (rule strrchr_append) (use assms in auto)
  have cls: "strchr (tag @ CHR '')'' # post) (CHR '')'') = Some (length tag)"
    by (rule strchr_append) (use assms in auto)
  show ?thesis
    using assms(7) cut opn cls prefixMatch_append [of ROMS_PATH]
    by (simp add: getEmuName_def Let_def)
qed

section \<open>Properties\<close>

text \<open>
  The emulator tag of anything below a console folder \<open>Name (TAG)\<close> is TAG, however deep the
  file lies and whatever parentheses its own name has: the tag is a property of the folder, so
  saves and states stay keyed by it.
\<close>

theorem getEmuName_folder_tag:
  assumes "CHR ''/'' \<notin> set nm" "CHR ''/'' \<notin> set tag" "CHR ''/'' \<notin> set post"
    and "CHR ''('' \<notin> set tag" "CHR ''('' \<notin> set post" "CHR '')'' \<notin> set tag"
    and "length (ROMS_PATH @ CHR ''/'' # nm @ CHR ''('' # tag @ CHR '')'' # post @ CHR ''/'' # rest) < cap"
  shows "getEmuName cap (ROMS_PATH @ CHR ''/'' # nm @ CHR ''('' # tag @ CHR '')'' # post @ CHR ''/'' # rest)
    = Some tag"
  using assms by (rule folder_tag)

theorem getEmuName_folder_tag_witness:
  "getEmuName 256 (ROMS_PATH @ ''/Game Boy (GB)/Sub/Tetris (World).gb'') = Some ''GB''"
  using getEmuName_folder_tag [of "''Game Boy ''" "''GB''" "[]" "''Sub/Tetris (World).gb''" 256]
  by (simp add: path_defs)

text \<open>
  A console folder whose name opens a parenthesis without closing it makes getEmuName write
  through the NULL that strchr returns, whatever lies below it.
\<close>

theorem getEmuName_unclosed_faults:
  assumes "CHR ''/'' \<notin> set nm" "CHR ''/'' \<notin> set tag"
    and "CHR ''('' \<notin> set tag" "CHR '')'' \<notin> set tag"
  shows "getEmuName cap (ROMS_PATH @ CHR ''/'' # nm @ CHR ''('' # tag @ CHR ''/'' # rest) = None"
proof -
  let ?folder = "nm @ CHR ''('' # tag"
  have cut: "strchr (?folder @ CHR ''/'' # rest) (CHR ''/'') = Some (length ?folder)"
    by (rule strchr_append) (use assms in auto)
  have opn: "strrchr ?folder (CHR ''('') = Some (length nm)"
    by (rule strrchr_append) (use assms in auto)
  show ?thesis
    using cut opn assms(4) prefixMatch_append [of ROMS_PATH]
    by (simp add: getEmuName_def Let_def)
qed

theorem getEmuName_unclosed_faults_witness:
  "getEmuName 512 (ROMS_PATH @ ''/Game Boy (GB/Tetris.gb'') = None"
  using getEmuName_unclosed_faults [of "''Game Boy ''" "''GB''" 512 "''Tetris.gb''"] by simp

text \<open>
  The display name of a path: for a last component that is not empty it is a non-empty
  prefix of that component, it opens no parenthesis after its first character, and it does not
  end in white space (unless it is a single character). No buffer overflows below 256 bytes.
\<close>

theorem getDisplayName_spec:
  assumes "length (dir @ CHR ''/'' # base) < 256" "nul_free (dir @ CHR ''/'' # base)"
    and "CHR ''/'' \<notin> set base" "strip_extensions base \<noteq> []"
    and "\<not> suffixMatch (''/'' @ PLATFORM) (dir @ CHR ''/'' # base)"
  shows "\<exists>d. getDisplayName (dir @ CHR ''/'' # base) = Some d \<and> d \<noteq> [] \<and> prefix d base
    \<and> CHR ''('' \<notin> set (tl d) \<and> (1 < length d \<longrightarrow> \<not> c_isspace (last d))"
proof -
  let ?p = "strip_parens (strip_extensions base)"
  let ?d = "trim_tail ?p"
  have p: "?p \<noteq> []" using assms(4) by (rule strip_parens_ne)
  have eq: "getDisplayName (dir @ CHR ''/'' # base) = Some ?d"
    using getDisplayName_base [OF assms(1,3,5)] p by (simp add: Let_def)
  have "prefix ?d base"
    using trim_tail_prefix strip_parens_prefix strip_extensions_prefix prefix_order.trans by metis
  moreover have "CHR ''('' \<notin> set (tl ?d)"
  proof -
    have "set (tl ?d) \<subseteq> set (tl ?p)"
      using trim_tail_prefix [of ?p] by (cases ?d; cases ?p) (auto dest: set_mono_prefix)
    then show ?thesis using strip_parens_parens [OF p] by blast
  qed
  ultimately show ?thesis using eq p trim_tail_ne trim_tail_last by blast
qed

theorem getDisplayName_spec_witness:
  "\<exists>d. getDisplayName (''/mnt/SDCARD/Roms/Game Boy (GB)'' @ CHR ''/'' # ''Tetris (World) (Rev 1).p8.png'') = Some d
    \<and> d \<noteq> [] \<and> prefix d ''Tetris (World) (Rev 1).p8.png'' \<and> CHR ''('' \<notin> set (tl d)"
proof -
  have "\<exists>d. getDisplayName (''/mnt/SDCARD/Roms/Game Boy (GB)'' @ CHR ''/'' # ''Tetris (World) (Rev 1).p8.png'') = Some d
    \<and> d \<noteq> [] \<and> prefix d ''Tetris (World) (Rev 1).p8.png''
    \<and> CHR ''('' \<notin> set (tl d) \<and> (1 < length d \<longrightarrow> \<not> c_isspace (last d))"
    by (rule getDisplayName_spec) code_simp+
  then show ?thesis by blast
qed

text \<open>
  A number survives putInt and getInt for every value that prints in at most seven
  characters, whatever other file is written between.
\<close>

theorem putInt_getInt:
  assumes "fs_writable fs p" "- (10 ^ 6) < v" "v < 10 ^ 7" "p \<noteq> q"
  shows "\<exists>fs'. putInt fs p v = Some fs' \<and> getInt (putFile fs' q c) p = v"
proof -
  have len: "length (c_int v) < 8"
  proof (cases "v < 0")
    case True
    with assms have "length (c_digits (nat (- v))) \<le> 6" by (intro length_c_digits) auto
    with True show ?thesis by (simp add: c_int_def)
  next
    case False
    with assms have "length (c_digits (nat v)) \<le> 7" by (intro length_c_digits) auto
    with False show ?thesis by (simp add: c_int_def)
  qed
  have "scan_i (c_int v) = v" using assms by (intro scan_i_c_int) auto
  with len assms show ?thesis by (simp add: putInt_def getInt_def fstore.rd_wr)
qed

theorem putInt_getInt_witness:
  "\<exists>fs'. putInt \<lparr>fs_files = Map.empty, fs_dirs = Map.empty, fs_writable = \<lambda>_. True\<rparr> ''/tmp/a'' 8 = Some fs'
    \<and> getInt (putFile fs' ''/tmp/b'' ''x'') ''/tmp/a'' = 8"
  by (rule putInt_getInt) auto

end
