(* ===== verification/Shell.thy ===== *)
theory Shell
  imports Utils
begin

text \<open>
  Quoting for the shell (workspace/all/minui/minui.c): escapeSingleQuotes, which refuses what does
  not fit, Lodor_shq, which cuts it, and the launch command that autoResume and openRom hand to
  the shell through /tmp/next. The specification is a lexer for the part of POSIX sh they need:
  blanks, single quotes and the backslash.
\<close>

section \<open>The code\<close>

definition QUOTE :: char where
  "QUOTE = CHR 0x27"

definition BACKSLASH :: char where
  "BACKSLASH = CHR 0x5C"

definition esc_char :: "char \<Rightarrow> string" where
  "esc_char c = (if c = QUOTE then [QUOTE, BACKSLASH, QUOTE, QUOTE] else [c])"

definition LODOR_ESC_MAX :: nat where
  "LODOR_ESC_MAX = 1024"

text \<open>The loop over the source, with the bytes written so far; None is the refusal NULL.\<close>

fun escape_loop :: "nat \<Rightarrow> string \<Rightarrow> string \<Rightarrow> string option" where
  "escape_loop dstcap dst [] = Some dst"
| "escape_loop dstcap dst (s # src) =
     (if s = QUOTE then
        if dstcap \<le> length dst + 4 then None
        else escape_loop dstcap (dst @ [QUOTE, BACKSLASH, QUOTE, QUOTE]) src
      else if dstcap \<le> length dst + 1 then None
      else escape_loop dstcap (dst @ [s]) src)"

definition escapeSingleQuotes :: "nat \<Rightarrow> string \<Rightarrow> string option" where
  "escapeSingleQuotes dstcap src = (if dstcap = 0 then None else escape_loop dstcap [] src)"

fun shq_loop :: "int \<Rightarrow> string \<Rightarrow> string \<Rightarrow> string" where
  "shq_loop cap out [] = out"
| "shq_loop cap out (c # src) =
     (if int (length out) < cap - 5 then
        shq_loop cap (if c = QUOTE then out @ [QUOTE, BACKSLASH, QUOTE, QUOTE] else out @ [c]) src
      else out)"

definition Lodor_shq :: "string \<Rightarrow> int \<Rightarrow> string" where
  "Lodor_shq src cap = shq_loop cap [] src"

text \<open>
  The command line that autoResume and openRom build in their cmd buffers, with the refusal (inner
  None) when a field is too long to escape or the line is cut.
\<close>

definition launch_command :: "string \<Rightarrow> string \<Rightarrow> string \<Rightarrow> string \<Rightarrow> string option" where
  "launch_command emu_name emu_path sd_path lodor_core_override = do {
     emu_q \<leftarrow> escapeSingleQuotes LODOR_ESC_MAX emu_name;
     path_q \<leftarrow> escapeSingleQuotes LODOR_ESC_MAX emu_path;
     sd_q \<leftarrow> escapeSingleQuotes LODOR_ESC_MAX sd_path;
     cmd \<leftarrow>
       (if lodor_core_override \<noteq> [] then do {
          core_q \<leftarrow> escapeSingleQuotes LODOR_ESC_MAX lodor_core_override;
          Some (''LODOR_ROM_TAG='' @ QUOTE # emu_q @ QUOTE # '' LODOR_CORE_OVERRIDE='' @ QUOTE # core_q
                @ QUOTE # '' '' @ QUOTE # path_q @ QUOTE # '' '' @ QUOTE # sd_q @ [QUOTE])
        }
        else Some (''LODOR_ROM_TAG='' @ QUOTE # emu_q @ QUOTE # '' '' @ QUOTE # path_q
                   @ QUOTE # '' '' @ QUOTE # sd_q @ [QUOTE]));
     (if 1024 \<le> length cmd then None else Some cmd)
   }"

text \<open>The command of openPak, in its buffer of LODOR_ESC_MAX + 32 bytes.\<close>

definition pak_command :: "string \<Rightarrow> string option" where
  "pak_command path = do {
     path_q \<leftarrow> escapeSingleQuotes LODOR_ESC_MAX path;
     let cmd = QUOTE # path_q @ ''/launch.sh'' @ [QUOTE];
     (if LODOR_ESC_MAX + 32 \<le> length cmd then None else Some cmd)
   }"

section \<open>Specification: words of a simple command\<close>

text \<open>
  A byte that stands for itself outside quotes in sh, wherever in the word it is. Every other byte
  (operators, expansions, globs, comments, newlines) makes the lexer reject the line.
\<close>

definition plain_char :: "char \<Rightarrow> bool" where
  "plain_char c \<longleftrightarrow>
     (65 \<le> byte c \<and> byte c \<le> 90) \<or> (97 \<le> byte c \<and> byte c \<le> 122) \<or> c_isdigit c
     \<or> c \<in> set ''_-./:,@%+='' \<or> 128 \<le> byte c"

datatype quoting = Bare | Quoted

text \<open>The pending word is None between words.\<close>

fun sh_lex :: "quoting \<Rightarrow> string option \<Rightarrow> string \<Rightarrow> string list option" where
  "sh_lex Quoted w [] = None"
| "sh_lex Quoted w (c # s) =
     (if c = QUOTE then sh_lex Bare w s
      else sh_lex Quoted (map_option (\<lambda>w. w @ [c]) w) s)"
| "sh_lex Bare w [] = Some (case w of None \<Rightarrow> [] | Some w \<Rightarrow> [w])"
| "sh_lex Bare w (c # s) =
     (if c = QUOTE then sh_lex Quoted (Some (case w of None \<Rightarrow> [] | Some w \<Rightarrow> w)) s
      else if c = BACKSLASH then
        (case s of
           [] \<Rightarrow> None
         | d # s' \<Rightarrow> if d = NL then None
                     else sh_lex Bare (Some (case w of None \<Rightarrow> [d] | Some w \<Rightarrow> w @ [d])) s')
      else if c = CHR '' '' \<or> c = TAB then
        (case w of
           None \<Rightarrow> sh_lex Bare None s
         | Some w \<Rightarrow> map_option (Cons w) (sh_lex Bare None s))
      else if plain_char c then sh_lex Bare (Some (case w of None \<Rightarrow> [c] | Some w \<Rightarrow> w @ [c])) s
      else None)"

definition sh_words :: "string \<Rightarrow> string list option" where
  "sh_words s = sh_lex Bare None s"

section \<open>Escaping\<close>

definition escaped :: "string \<Rightarrow> string" where
  "escaped s = concat (map esc_char s)"

lemma escaped_simps [simp]: "escaped [] = []" "escaped (c # s) = esc_char c @ escaped s"
  by (simp_all add: escaped_def)

lemma length_escaped: "length s \<le> length (escaped s) \<and> length (escaped s) \<le> 4 * length s"
  by (induction s) (auto simp: esc_char_def)

lemma escape_loop_eq:
  "length dst < cap \<Longrightarrow> escape_loop cap dst s = (if length (dst @ escaped s) < cap then Some (dst @ escaped s) else None)"
proof (induction s arbitrary: dst)
  case Nil
  then show ?case by simp
next
  case (Cons c s)
  then show ?case using length_escaped [of s] by (auto simp: esc_char_def)
qed

lemma escapeSingleQuotes_eq:
  "escapeSingleQuotes cap s = (if length (escaped s) < cap then Some (escaped s) else None)"
  by (cases "cap = 0") (simp_all add: escapeSingleQuotes_def escape_loop_eq)

lemma shq_loop_eq: "\<exists>k. shq_loop cap out s = out @ escaped (take k s)
    \<and> (int (length out + length (escaped s)) \<le> cap - 5 \<longrightarrow> k = length s)"
proof (induction s arbitrary: out)
  case Nil
  then show ?case by (intro exI [of _ 0]) simp
next
  case (Cons c s)
  show ?case
  proof (cases "int (length out) < cap - 5")
    case True
    obtain k where "shq_loop cap (out @ esc_char c) s = (out @ esc_char c) @ escaped (take k s)"
      "int (length (out @ esc_char c) + length (escaped s)) \<le> cap - 5 \<longrightarrow> k = length s"
      using Cons.IH by blast
    with True show ?thesis
      by (intro exI [of _ "Suc k"]) (auto simp: esc_char_def)
  next
    case False
    then show ?thesis by (intro exI [of _ 0]) (auto simp: esc_char_def)
  qed
qed

lemma shq_loop_length: "int (length out) < cap \<Longrightarrow> int (length (shq_loop cap out s)) < cap"
  by (induction s arbitrary: out) auto

section \<open>Lexing what was escaped\<close>

lemma lex_escaped:
  "sh_lex Quoted (Some w) (escaped s @ QUOTE # rest) = sh_lex Bare (Some (w @ s)) rest"
proof (induction s arbitrary: w)
  case Nil
  then show ?case by simp
next
  case (Cons c s)
  have "QUOTE \<noteq> BACKSLASH" "QUOTE \<noteq> NL" by (simp_all add: QUOTE_def BACKSLASH_def NL_def)
  then show ?case
    using Cons.IH [of "w @ [c]"] by (cases "c = QUOTE") (simp_all add: esc_char_def)
qed

lemma lex_plain:
  "\<forall>c \<in> set p. plain_char c \<Longrightarrow> p \<noteq> [] \<or> w \<noteq> None \<Longrightarrow>
   sh_lex Bare w (p @ rest) = sh_lex Bare (Some ((case w of None \<Rightarrow> [] | Some w \<Rightarrow> w) @ p)) rest"
proof (induction p arbitrary: w)
  case Nil
  then show ?case by auto
next
  case (Cons c p)
  have "plain_char c" using Cons.prems by simp
  then have "c \<noteq> QUOTE" "c \<noteq> BACKSLASH" "c \<noteq> CHR '' ''" "c \<noteq> TAB"
    by (auto simp: plain_char_def QUOTE_def BACKSLASH_def TAB_def c_isdigit_def)
  then show ?case
    using Cons.prems Cons.IH [of "Some (case w of None \<Rightarrow> [c] | Some w \<Rightarrow> w @ [c])"]
    by (cases w) (simp_all del: One_nat_def)
qed

text \<open>A word that is an unquoted name part and one quoted field, then a blank or the end.\<close>

lemma lex_field_blank:
  assumes "\<forall>c \<in> set p. plain_char c"
  shows "sh_lex Bare None (p @ QUOTE # escaped s @ QUOTE # CHR '' '' # rest)
    = map_option (Cons (p @ s)) (sh_lex Bare None rest)"
  using assms lex_escaped [of p s] lex_plain [of p None]
  by (cases "p = []") (simp_all add: lex_escaped QUOTE_def BACKSLASH_def)

lemma lex_field_end:
  assumes "\<forall>c \<in> set p. plain_char c"
  shows "sh_lex Bare None (p @ QUOTE # escaped s @ [QUOTE]) = Some [p @ s]"
  using assms lex_escaped [of p s "[]"] lex_plain [of p None]
  by (cases "p = []") (simp_all add: lex_escaped)

lemma escaped_append: "escaped (s @ t) = escaped s @ escaped t"
  by (simp add: escaped_def)

lemma plain_names [simp]:
  "\<forall>c \<in> set ''LODOR_ROM_TAG=''. plain_char c" "\<forall>c \<in> set ''LODOR_CORE_OVERRIDE=''. plain_char c"
  by (simp_all add: plain_char_def)

lemma launch_words:
  assumes "launch_command emu_name emu_path sd_path core = Some cmd"
  shows "sh_words cmd = Some ([''LODOR_ROM_TAG='' @ emu_name]
      @ (if core = [] then [] else [''LODOR_CORE_OVERRIDE='' @ core]) @ [emu_path, sd_path])"
proof -
  note lex = lex_field_blank [OF plain_names(1), of emu_name] lex_field_blank [OF plain_names(2), of core]
    lex_field_blank [of "[]" emu_path] lex_field_end [of "[]" sd_path]
  show ?thesis
    using assms lex
    by (auto simp: launch_command_def sh_words_def escapeSingleQuotes_eq split: if_splits)
qed

lemma launch_command_length: "launch_command t p s c = Some cmd \<Longrightarrow> length cmd < 1024"
  by (auto simp: launch_command_def elim!: bind_Some_elim split: if_splits)

section \<open>Properties\<close>

text \<open>
  C2. The command written to /tmp/next runs what was resolved, and nothing else: read by the
  shell it is exactly the assignment of the folder tag, that of the core when there is one, and
  the two words pak and ROM path, byte for byte, whatever bytes the names on the card hold.
\<close>

theorem launch_command_words:
  assumes "launch_command emu_name emu_path sd_path core = Some cmd"
  shows "sh_words cmd = Some ([''LODOR_ROM_TAG='' @ emu_name]
      @ (if core = [] then [] else [''LODOR_CORE_OVERRIDE='' @ core]) @ [emu_path, sd_path])
    \<and> length cmd < 1024"
  using launch_words [OF assms] launch_command_length [OF assms] by blast

text \<open>
  Escaping accepts exactly what fits: escapeSingleQuotes gives NULL if and only if the
  escaped field and its NUL do not fit the buffer, never writes past it, and LODOR_ESC_MAX holds
  every field of the 256-byte buffers the launch path uses.
\<close>

theorem escapeSingleQuotes_bounds:
  "(escapeSingleQuotes cap src = None \<longleftrightarrow> cap \<le> length (concat (map esc_char src)))
   \<and> (\<forall>dst. escapeSingleQuotes cap src = Some dst \<longrightarrow> length dst < cap \<and> dst = concat (map esc_char src))
   \<and> (length src < 256 \<longrightarrow> escapeSingleQuotes LODOR_ESC_MAX src \<noteq> None)"
  using length_escaped [of src]
  by (auto simp: escapeSingleQuotes_eq escaped_def [symmetric] LODOR_ESC_MAX_def)

theorem escapeSingleQuotes_bounds_witness:
  "escapeSingleQuotes 5 [QUOTE, CHR ''a''] = None
    \<and> escapeSingleQuotes LODOR_ESC_MAX (replicate 255 QUOTE) \<noteq> None"
  using escapeSingleQuotes_bounds [of 5 "[QUOTE, CHR ''a'']"]
    escapeSingleQuotes_bounds [of 5 "replicate 255 QUOTE"]
  by (simp add: esc_char_def)

theorem launch_command_words_witness:
  "\<exists>cmd. launch_command ''GB'' ''/a.pak/launch.sh'' (''/Roms/It'' @ QUOTE # ''s; rm -rf.gb'') [] = Some cmd
    \<and> sh_words cmd = Some [''LODOR_ROM_TAG=GB'', ''/a.pak/launch.sh'', ''/Roms/It'' @ QUOTE # ''s; rm -rf.gb'']"
proof -
  have "launch_command ''GB'' ''/a.pak/launch.sh'' (''/Roms/It'' @ QUOTE # ''s; rm -rf.gb'') [] \<noteq> None"
    by code_simp
  then obtain cmd where
    cmd: "launch_command ''GB'' ''/a.pak/launch.sh'' (''/Roms/It'' @ QUOTE # ''s; rm -rf.gb'') [] = Some cmd" by blast
  then show ?thesis using launch_command_words [OF cmd] by simp
qed

text \<open>
  Lodor_shq is safe but may cut: between single quotes its output is one shell word that is
  a prefix of the input, it never overruns its buffer, and the word is the whole input as soon as
  the escaped input leaves five bytes of the buffer free.
\<close>

theorem Lodor_shq_word:
  assumes "0 < cap"
  shows "\<exists>w. sh_words (QUOTE # Lodor_shq src cap @ [QUOTE]) = Some [w] \<and> prefix w src
    \<and> int (length (Lodor_shq src cap)) < cap
    \<and> (int (length (concat (map esc_char src))) \<le> cap - 5 \<longrightarrow> w = src)"
proof -
  obtain k where k: "Lodor_shq src cap = escaped (take k src)"
    "int (length (escaped src)) \<le> cap - 5 \<longrightarrow> k = length src"
    using shq_loop_eq [of cap "[]" src] by (auto simp: Lodor_shq_def)
  have "sh_words (QUOTE # Lodor_shq src cap @ [QUOTE]) = Some [take k src]"
    using lex_field_end [of "[]" "take k src"] k(1) by (simp add: sh_words_def)
  moreover have "int (length (Lodor_shq src cap)) < cap"
    using assms shq_loop_length [of "[]" cap src] by (simp add: Lodor_shq_def)
  ultimately show ?thesis
    using k(2) by (auto simp: take_is_prefix escaped_def)
qed

theorem Lodor_shq_word_witness:
  "sh_words (QUOTE # Lodor_shq (''a'' @ [QUOTE] @ ''$b'') 32 @ [QUOTE]) = Some [''a'' @ [QUOTE] @ ''$b'']"
proof -
  have "int (length (concat (map esc_char (''a'' @ [QUOTE] @ ''$b'')))) \<le> 32 - 5" by code_simp
  then show ?thesis using Lodor_shq_word [of 32 "''a'' @ [QUOTE] @ ''$b''"] by auto
qed

end
