(* ===== verification/Containers.thy ===== *)
theory Containers
  imports Utils
begin

text \<open>
  The launcher's containers (workspace/all/minui/minui.c): the growable Array of pointers with its
  doubling capacity, the Hash built from two of them, and the fixed IntArray of 27 slots that
  holds a directory's alphabetical index. Each is given as the code has it, then shown to
  implement what the rest of the launcher uses it for: a list, a first-entry-wins map, a bounded
  list. The later theories work on lists and rest on these refinements.
\<close>

section \<open>Array\<close>

text \<open>A slot is None when it holds NULL or has never been written.\<close>

record 'a carray =
  a_count :: nat
  a_capacity :: nat
  a_items :: "'a option list"

definition Array_new :: "'a carray" where
  "Array_new = \<lparr>a_count = 0, a_capacity = 8, a_items = replicate 8 None\<rparr>"

definition Array_push :: "'a carray \<Rightarrow> 'a option \<Rightarrow> 'a carray" where
  "Array_push self item =
     (let self =
        (if a_capacity self \<le> a_count self
         then self\<lparr>a_capacity := a_capacity self * 2,
                   a_items := a_items self @ replicate (a_capacity self) None\<rparr>
         else self)
      in self\<lparr>a_items := (a_items self)[a_count self := item], a_count := a_count self + 1\<rparr>)"

text \<open>The loop of Array_unshift: from the highest index down, every slot takes its left neighbour.\<close>

fun shift_right :: "nat \<Rightarrow> 'b list \<Rightarrow> 'b list" where
  "shift_right 0 xs = xs"
| "shift_right (Suc i) xs = shift_right i (xs[Suc i := xs ! i])"

definition Array_unshift :: "'a carray \<Rightarrow> 'a option \<Rightarrow> 'a carray" where
  "Array_unshift self item =
     (if a_count self = 0 then Array_push self item
      else
        (let self = Array_push self None;
             items = shift_right (a_count self - 1) (a_items self)
         in self\<lparr>a_items := items[0 := item]\<rparr>))"

definition Array_pop :: "'a carray \<Rightarrow> 'a option \<times> 'a carray" where
  "Array_pop self =
     (if a_count self = 0 then (None, self)
      else (a_items self ! (a_count self - 1), self\<lparr>a_count := a_count self - 1\<rparr>))"

text \<open>The loop of Array_reverse, i going from 0 to mid.\<close>

function swap_ends :: "nat \<Rightarrow> nat \<Rightarrow> nat \<Rightarrow> 'b list \<Rightarrow> 'b list" where
  "swap_ends i mid e xs =
     (if i < mid then swap_ends (Suc i) mid e (xs[i := xs ! (e - i), e - i := xs ! i]) else xs)"
  by pat_completeness auto
termination
  by (relation "measure (\<lambda>(i, mid, e, xs). mid - i)") auto

declare swap_ends.simps [simp del]

definition Array_reverse :: "'a carray \<Rightarrow> 'a carray" where
  "Array_reverse self =
     (let e = a_count self - 1; mid = a_count self div 2
      in self\<lparr>a_items := swap_ends 0 mid e (a_items self)\<rparr>)"

definition StringArray_indexOf :: "string carray \<Rightarrow> string \<Rightarrow> int" where
  "StringArray_indexOf self str =
     (case find (\<lambda>i. exactMatch (a_items self ! i) (Some str)) [0 ..< a_count self] of
        Some i \<Rightarrow> int i
      | None \<Rightarrow> -1)"

text \<open>What the array holds, and when it is well formed.\<close>

definition Array_list :: "'a carray \<Rightarrow> 'a option list" where
  "Array_list self = take (a_count self) (a_items self)"

definition Array_ok :: "'a carray \<Rightarrow> bool" where
  "Array_ok self \<longleftrightarrow>
     length (a_items self) = a_capacity self \<and> a_count self \<le> a_capacity self \<and> 0 < a_capacity self"

lemma Array_ok_new [simp]: "Array_ok Array_new"
  by (simp add: Array_ok_def Array_new_def)

lemma Array_list_new [simp]: "Array_list Array_new = []"
  by (simp add: Array_list_def Array_new_def)

lemma length_Array_list: "Array_ok s \<Longrightarrow> length (Array_list s) = a_count s"
  by (simp add: Array_list_def Array_ok_def)

lemma take_snoc_update: "n < length xs \<Longrightarrow> take (Suc n) (xs[n := x]) = take n xs @ [x]"
  by (simp add: take_Suc_conv_app_nth)

lemma Array_ok_push: "Array_ok s \<Longrightarrow> Array_ok (Array_push s x)"
  by (auto simp: Array_ok_def Array_push_def Let_def)

lemma Array_list_push: "Array_ok s \<Longrightarrow> Array_list (Array_push s x) = Array_list s @ [x]"
  by (auto simp: Array_ok_def Array_list_def Array_push_def Let_def take_snoc_update)

lemma count_push [simp]: "a_count (Array_push s x) = Suc (a_count s)"
  by (simp add: Array_push_def Let_def)

lemma length_shift_right [simp]: "length (shift_right i xs) = length xs"
  by (induction i xs rule: shift_right.induct) auto

lemma nth_shift_right:
  "i < length xs \<Longrightarrow> j < length xs \<Longrightarrow>
   shift_right i xs ! j = (if 0 < j \<and> j \<le> i then xs ! (j - 1) else xs ! j)"
  by (induction i xs arbitrary: j rule: shift_right.induct) (auto simp: nth_list_update le_Suc_eq)

lemma Array_ok_unshift: "Array_ok s \<Longrightarrow> Array_ok (Array_unshift s x)"
  using Array_ok_push [of s x] Array_ok_push [of s None]
  by (auto simp: Array_ok_def Array_unshift_def Let_def)

lemma Array_list_unshift:
  assumes "Array_ok s"
  shows "Array_list (Array_unshift s x) = x # Array_list s"
proof (cases "a_count s = 0")
  case True
  then show ?thesis using assms Array_list_push [OF assms, of x]
    by (simp add: Array_unshift_def Array_list_def)
next
  case False
  define t where "t = Array_push s None"
  have t: "Array_ok t" "Array_list t = Array_list s @ [None]" "a_count t = Suc (a_count s)"
    using assms by (auto simp: t_def Array_ok_push Array_list_push)
  have len: "a_count t \<le> length (a_items t)" using t(1) by (simp add: Array_ok_def)
  let ?u = "(shift_right (a_count t - 1) (a_items t))[0 := x]"
  have "Array_list (Array_unshift s x) = take (a_count t) ?u"
    using False by (simp add: Array_unshift_def Array_list_def t_def Let_def)
  also have "\<dots> = x # Array_list s"
  proof (rule nth_equalityI)
    show "length (take (a_count t) ?u) = length (x # Array_list s)"
      using len t(3) length_Array_list [OF assms] by simp
  next
    fix j assume "j < length (take (a_count t) ?u)"
    then have j: "j < a_count t" "j < length (a_items t)" using len by auto
    have "a_items t ! k = (Array_list s @ [None]) ! k" if "k < a_count t" for k
      using t(2) that by (metis Array_list_def nth_take)
    then show "take (a_count t) ?u ! j = (x # Array_list s) ! j"
      using j t(3) len length_Array_list [OF assms]
      by (cases j) (auto simp: nth_shift_right nth_append)
  qed
  finally show ?thesis .
qed

lemma Array_pop_empty: "Array_ok s \<Longrightarrow> Array_list s = [] \<Longrightarrow> Array_pop s = (None, s)"
  using length_Array_list [of s] by (simp add: Array_pop_def)

lemma Array_pop_ne:
  assumes "Array_ok s" "Array_list s \<noteq> []"
  shows "fst (Array_pop s) = last (Array_list s)"
    "Array_list (snd (Array_pop s)) = butlast (Array_list s)"
proof -
  have n: "0 < a_count s" "a_count s \<le> length (a_items s)"
    using assms length_Array_list [OF assms(1)] by (cases "a_count s"; auto simp: Array_ok_def)+
  then show "fst (Array_pop s) = last (Array_list s)"
    using assms by (simp add: Array_pop_def Array_list_def last_conv_nth)
  show "Array_list (snd (Array_pop s)) = butlast (Array_list s)"
    using n by (simp add: Array_pop_def Array_list_def butlast_take)
qed

lemma Array_ok_pop: "Array_ok s \<Longrightarrow> Array_ok (snd (Array_pop s))"
  by (auto simp: Array_ok_def Array_pop_def)

lemma length_swap_ends [simp]: "length (swap_ends i mid e xs) = length xs"
  by (induction i mid e xs rule: swap_ends.induct) (simp add: swap_ends.simps)

lemma nth_swap_ends:
  assumes "e < length xs" "2 * mid \<le> Suc e" "j < length xs"
  shows "swap_ends i mid e xs ! j =
    (if (i \<le> j \<and> j < mid) \<or> (e < j + mid \<and> j + i \<le> e) then xs ! (e - j) else xs ! j)"
  using assms
proof (induction i mid e xs rule: swap_ends.induct)
  case (1 i mid e xs)
  show ?case
  proof (cases "i < mid")
    case False
    then show ?thesis using 1 by (subst swap_ends.simps) auto
  next
    case True
    then show ?thesis
      using "1.IH" [OF True] "1.prems"
      by (subst swap_ends.simps) (auto simp: nth_list_update)
  qed
qed

lemma Array_list_reverse:
  assumes "Array_ok s"
  shows "Array_list (Array_reverse s) = rev (Array_list s)"
proof (cases "a_count s = 0")
  case True
  then show ?thesis by (simp add: Array_list_def Array_reverse_def Let_def)
next
  case False
  have len: "a_count s \<le> length (a_items s)" using assms by (simp add: Array_ok_def)
  show ?thesis
  proof (rule nth_equalityI)
    show "length (Array_list (Array_reverse s)) = length (rev (Array_list s))"
      by (simp add: Array_list_def Array_reverse_def Let_def)
  next
    fix j assume "j < length (Array_list (Array_reverse s))"
    then have j: "j < a_count s" by (simp add: Array_list_def Array_reverse_def Let_def)
    have "swap_ends 0 (a_count s div 2) (a_count s - 1) (a_items s) ! j = a_items s ! (a_count s - 1 - j)"
    proof (cases "j < a_count s div 2 \<or> a_count s - 1 < j + a_count s div 2")
      case True
      then show ?thesis using j len False by (subst nth_swap_ends) auto
    next
      case mid: False
      then have "a_count s - 1 - j = j" using j by linarith
      then show ?thesis using j len False mid by (subst nth_swap_ends) auto
    qed
    then show "Array_list (Array_reverse s) ! j = rev (Array_list s) ! j"
      using j len by (simp add: Array_list_def Array_reverse_def Let_def rev_nth)
  qed
qed

lemma Array_ok_reverse: "Array_ok s \<Longrightarrow> Array_ok (Array_reverse s)"
  by (simp add: Array_ok_def Array_reverse_def Let_def)

section \<open>The sequence interface\<close>

text \<open>
  The contract the launcher's menus, directory stack and recents list rely on: an
  implementation state with an invariant and the list it stands for.
\<close>

locale sequence =
  fixes inv :: "'s \<Rightarrow> bool"
    and abs :: "'s \<Rightarrow> 'b list"
    and new :: "'s"
    and push :: "'s \<Rightarrow> 'b \<Rightarrow> 's"
    and unshift :: "'s \<Rightarrow> 'b \<Rightarrow> 's"
    and pop :: "'s \<Rightarrow> 'b option \<times> 's"
    and reverse :: "'s \<Rightarrow> 's"
  assumes inv_new: "inv new" and abs_new: "abs new = []"
    and inv_push: "inv s \<Longrightarrow> inv (push s x)"
    and abs_push: "inv s \<Longrightarrow> abs (push s x) = abs s @ [x]"
    and inv_unshift: "inv s \<Longrightarrow> inv (unshift s x)"
    and abs_unshift: "inv s \<Longrightarrow> abs (unshift s x) = x # abs s"
    and inv_pop: "inv s \<Longrightarrow> inv (snd (pop s))"
    and pop_empty: "inv s \<Longrightarrow> abs s = [] \<Longrightarrow> fst (pop s) = None \<and> abs (snd (pop s)) = []"
    and pop_last: "inv s \<Longrightarrow> abs s \<noteq> [] \<Longrightarrow>
      fst (pop s) = Some (last (abs s)) \<and> abs (snd (pop s)) = butlast (abs s)"
    and inv_reverse: "inv s \<Longrightarrow> inv (reverse s)"
    and abs_reverse: "inv s \<Longrightarrow> abs (reverse s) = rev (abs s)"
begin

lemma push_all: "inv s \<Longrightarrow> inv (fold (\<lambda>x s. push s x) xs s) \<and> abs (fold (\<lambda>x s. push s x) xs s) = abs s @ xs"
  by (induction xs arbitrary: s) (auto simp: inv_push abs_push)

lemma pop_push: "inv s \<Longrightarrow> fst (pop (push s x)) = Some x \<and> abs (snd (pop (push s x))) = abs s"
  using pop_last [of "push s x"] by (simp add: inv_push abs_push)

lemma reverse_push: "inv s \<Longrightarrow> abs (reverse (push s x)) = abs (unshift (reverse s) x)"
  by (simp add: abs_reverse abs_push abs_unshift inv_push inv_reverse)

end

text \<open>A NULL that Array_pop returns from an empty array is told apart from a stored NULL.\<close>

definition Array_pop_result :: "'a carray \<Rightarrow> 'a option option \<times> 'a carray" where
  "Array_pop_result s = (if a_count s = 0 then (None, s) else apfst Some (Array_pop s))"

interpretation carray: sequence Array_ok Array_list Array_new Array_push Array_unshift
    Array_pop_result Array_reverse
proof unfold_locales
  fix s :: "'a carray"
  assume s: "Array_ok s"
  then have z: "a_count s = 0 \<longleftrightarrow> Array_list s = []"
    using length_Array_list [OF s] by auto
  show "Array_ok (snd (Array_pop_result s))"
    using s by (auto simp: Array_pop_result_def apfst_def map_prod_def split_beta Array_ok_pop)
  show "fst (Array_pop_result s) = None \<and> Array_list (snd (Array_pop_result s)) = []"
    if "Array_list s = []" using that z by (simp add: Array_pop_result_def)
  show "fst (Array_pop_result s) = Some (last (Array_list s))
      \<and> Array_list (snd (Array_pop_result s)) = butlast (Array_list s)"
    if "Array_list s \<noteq> []"
    using that z Array_pop_ne [OF s that] by (simp add: Array_pop_result_def apfst_def map_prod_def split_beta)
qed (simp_all add: Array_ok_push Array_list_push Array_ok_unshift Array_list_unshift
    Array_ok_reverse Array_list_reverse)

text \<open>A program over an array, run on the implementation and on lists.\<close>

datatype 'a array_op = Push 'a | Unshift 'a | Pop | Reverse

fun run_array :: "'a option array_op list \<Rightarrow> 'a carray \<Rightarrow> 'a option list \<Rightarrow> 'a option list \<times> 'a carray" where
  "run_array [] s out = (rev out, s)"
| "run_array (Push x # ops) s out = run_array ops (Array_push s x) out"
| "run_array (Unshift x # ops) s out = run_array ops (Array_unshift s x) out"
| "run_array (Pop # ops) s out = run_array ops (snd (Array_pop s)) (fst (Array_pop s) # out)"
| "run_array (Reverse # ops) s out = run_array ops (Array_reverse s) out"

fun run_list :: "'a option array_op list \<Rightarrow> 'a option list \<Rightarrow> 'a option list \<Rightarrow> 'a option list \<times> 'a option list" where
  "run_list [] xs out = (rev out, xs)"
| "run_list (Push x # ops) xs out = run_list ops (xs @ [x]) out"
| "run_list (Unshift x # ops) xs out = run_list ops (x # xs) out"
| "run_list (Pop # ops) xs out =
     (if xs = [] then run_list ops [] (None # out) else run_list ops (butlast xs) (last xs # out))"
| "run_list (Reverse # ops) xs out = run_list ops (rev xs) out"

lemma run_array_refines:
  "Array_ok s \<Longrightarrow>
   fst (run_array ops s out) = fst (run_list ops (Array_list s) out)
   \<and> Array_list (snd (run_array ops s out)) = snd (run_list ops (Array_list s) out)
   \<and> Array_ok (snd (run_array ops s out))"
proof (induction ops s out rule: run_array.induct)
  case (4 ops s out)
  then show ?case
    by (cases "Array_list s = []") (auto simp: Array_pop_empty Array_pop_ne Array_ok_pop)
qed (auto simp: Array_ok_push Array_list_push Array_ok_unshift Array_list_unshift
    Array_ok_reverse Array_list_reverse)

lemma indexOf_list:
  "StringArray_indexOf s str =
     (case find (\<lambda>i. Array_list s ! i = Some str) [0 ..< a_count s] of Some i \<Rightarrow> int i | None \<Rightarrow> -1)"
proof -
  have "find (\<lambda>i. exactMatch (a_items s ! i) (Some str)) [0 ..< a_count s]
      = find (\<lambda>i. Array_list s ! i = Some str) [0 ..< a_count s]"
  proof (rule find_cong)
    fix i assume "i \<in> set [0 ..< a_count s]"
    then show "exactMatch (a_items s ! i) (Some str) = (Array_list s ! i = Some str)"
      by (cases "a_items s ! i") (auto simp: Array_list_def)
  qed simp
  then show ?thesis by (simp add: StringArray_indexOf_def)
qed

section \<open>Hash\<close>

record chash =
  h_keys :: "string carray"
  h_values :: "string carray"

definition Hash_new :: chash where
  "Hash_new = \<lparr>h_keys = Array_new, h_values = Array_new\<rparr>"

definition Hash_set :: "chash \<Rightarrow> string \<Rightarrow> string \<Rightarrow> chash" where
  "Hash_set self key v =
     self\<lparr>h_keys := Array_push (h_keys self) (Some key),
          h_values := Array_push (h_values self) (Some v)\<rparr>"

definition Hash_get :: "chash \<Rightarrow> string \<Rightarrow> string option" where
  "Hash_get self key =
     (let i = StringArray_indexOf (h_keys self) key
      in if i = -1 then None else a_items (h_values self) ! nat i)"

text \<open>The pairs a hash was given, oldest first, and its invariant.\<close>

definition Hash_pairs :: "chash \<Rightarrow> (string \<times> string) list" where
  "Hash_pairs self = zip (map the (Array_list (h_keys self))) (map the (Array_list (h_values self)))"

definition Hash_ok :: "chash \<Rightarrow> bool" where
  "Hash_ok self \<longleftrightarrow> Array_ok (h_keys self) \<and> Array_ok (h_values self)
     \<and> a_count (h_keys self) = a_count (h_values self)
     \<and> None \<notin> set (Array_list (h_keys self)) \<and> None \<notin> set (Array_list (h_values self))"

lemma Hash_ok_new [simp]: "Hash_ok Hash_new" and Hash_pairs_new [simp]: "Hash_pairs Hash_new = []"
  by (simp_all add: Hash_ok_def Hash_new_def Hash_pairs_def)

lemma Hash_ok_set: "Hash_ok h \<Longrightarrow> Hash_ok (Hash_set h k v)"
  by (simp add: Hash_ok_def Hash_set_def Array_ok_push Array_list_push)

lemma Hash_pairs_set: "Hash_ok h \<Longrightarrow> Hash_pairs (Hash_set h k v) = Hash_pairs h @ [(k, v)]"
  by (simp add: Hash_ok_def Hash_set_def Hash_pairs_def Array_list_push length_Array_list)

lemma find_index_map_of:
  "length ks = length vs \<Longrightarrow>
   map_of (zip ks vs) k = map_option (\<lambda>i. vs ! i) (find (\<lambda>i. ks ! i = k) [0 ..< length ks])"
proof (induction ks vs rule: list_induct2)
  case Nil
  then show ?case by simp
next
  case (Cons a ks b vs)
  have up: "[0 ..< Suc (length ks)] = 0 # map Suc [0 ..< length ks]"
    by (simp add: upt_conv_Cons map_Suc_upt del: upt_Suc)
  have find_map: "find P (map Suc xs) = map_option Suc (find (P \<circ> Suc) xs)" for P xs
    by (induction xs) auto
  show ?case
    using Cons.IH by (simp add: up find_map comp_def option.map_comp del: upt_Suc)
qed

lemma Hash_get_map_of:
  assumes "Hash_ok h"
  shows "Hash_get h k = map_of (Hash_pairs h) k"
proof -
  let ?ks = "Array_list (h_keys h)" and ?vs = "Array_list (h_values h)"
  have ok: "Array_ok (h_keys h)" "Array_ok (h_values h)" using assms by (auto simp: Hash_ok_def)
  have len: "length ?ks = a_count (h_keys h)" "length ?vs = a_count (h_keys h)"
    using assms length_Array_list [OF ok(1)] length_Array_list [OF ok(2)] by (auto simp: Hash_ok_def)
  have no_None: "None \<notin> set ?ks" "None \<notin> set ?vs" using assms by (auto simp: Hash_ok_def)
  have some: "?ks ! i = Some (the (?ks ! i))" "?vs ! i = Some (the (?vs ! i))"
    if "i < a_count (h_keys h)" for i
    using that len no_None nth_mem [of i ?ks] nth_mem [of i ?vs] option.collapse by metis+
  let ?f = "find (\<lambda>i. ?ks ! i = Some k) [0 ..< a_count (h_keys h)]"
  have f: "find (\<lambda>i. map the ?ks ! i = k) [0 ..< length (map the ?ks)] = ?f"
    by (rule find_cong) (use len some(1) in \<open>auto simp: in_set_conv_nth\<close>)
  have "map_of (Hash_pairs h) k = map_option (\<lambda>i. map the ?vs ! i) ?f"
    unfolding Hash_pairs_def using len f by (subst find_index_map_of) auto
  also have "\<dots> = Hash_get h k"
  proof (cases ?f)
    case None
    then show ?thesis by (simp add: Hash_get_def indexOf_list Let_def)
  next
    case (Some i)
    then have i: "i < a_count (h_keys h)" by (auto simp: find_Some_iff)
    then have "a_items (h_values h) ! i = ?vs ! i"
      using len(2) by (metis Array_list_def nth_take length_take min_less_iff_conj)
    with Some i len(2) some(2) [OF i] show ?thesis
      by (simp add: Hash_get_def indexOf_list Let_def)
  qed
  finally show ?thesis by simp
qed

text \<open>
  The contract of the map the directory code reads aliases from: the first entry for a key stays.
\<close>

locale first_wins_map =
  fixes inv :: "'m \<Rightarrow> bool"
    and new :: "'m"
    and set_entry :: "'m \<Rightarrow> 'k \<Rightarrow> 'v \<Rightarrow> 'm"
    and get :: "'m \<Rightarrow> 'k \<Rightarrow> 'v option"
  assumes inv_new: "inv new" and get_new: "get new k = None"
    and inv_set: "inv m \<Longrightarrow> inv (set_entry m k v)"
    and get_set: "inv m \<Longrightarrow>
      get (set_entry m k v) k' = (case get m k' of Some w \<Rightarrow> Some w | None \<Rightarrow> if k' = k then Some v else None)"
begin

lemma get_fold:
  "inv m \<Longrightarrow> inv (fold (\<lambda>(k, v) m. set_entry m k v) kvs m) \<and>
   get (fold (\<lambda>(k, v) m. set_entry m k v) kvs m) k
     = (case get m k of Some w \<Rightarrow> Some w | None \<Rightarrow> map_of kvs k)"
  by (induction kvs arbitrary: m) (auto simp: inv_set get_set split: option.splits)

lemma get_fold_new: "get (fold (\<lambda>(k, v) m. set_entry m k v) kvs new) k = map_of kvs k"
  using get_fold [OF inv_new] by (simp add: get_new)

end

interpretation chash: first_wins_map Hash_ok Hash_new Hash_set Hash_get
  by unfold_locales
     (auto simp: Hash_ok_set Hash_get_map_of Hash_pairs_set map_add_def split: option.splits)

section \<open>IntArray\<close>

definition INT_ARRAY_MAX :: nat where
  "INT_ARRAY_MAX = 27"

record int_array =
  ia_count :: nat
  ia_items :: "int list"

definition IntArray_new :: int_array where
  "IntArray_new = \<lparr>ia_count = 0, ia_items = replicate INT_ARRAY_MAX 0\<rparr>"

text \<open>There is no bounds check; the write past the 27th slot is the fault.\<close>

definition IntArray_push :: "int_array \<Rightarrow> int \<Rightarrow> int_array option" where
  "IntArray_push self i = do {
     c_ok (ia_count self < INT_ARRAY_MAX);
     Some (self\<lparr>ia_items := (ia_items self)[ia_count self := i], ia_count := ia_count self + 1\<rparr>)
   }"

definition IntArray_list :: "int_array \<Rightarrow> int list" where
  "IntArray_list self = take (ia_count self) (ia_items self)"

definition IntArray_ok :: "int_array \<Rightarrow> bool" where
  "IntArray_ok self \<longleftrightarrow> length (ia_items self) = INT_ARRAY_MAX \<and> ia_count self \<le> INT_ARRAY_MAX"

lemma IntArray_new_simps [simp]: "IntArray_ok IntArray_new" "IntArray_list IntArray_new = []"
    "ia_count IntArray_new = 0"
  by (simp_all add: IntArray_ok_def IntArray_list_def IntArray_new_def)

lemma IntArray_push_Some:
  "IntArray_ok a \<Longrightarrow> IntArray_push a i = Some b \<Longrightarrow>
   IntArray_ok b \<and> IntArray_list b = IntArray_list a @ [i] \<and> ia_count b = Suc (ia_count a)"
  by (auto simp: IntArray_push_def IntArray_ok_def IntArray_list_def take_snoc_update split: if_splits)

lemma IntArray_push_None: "IntArray_push a i = None \<longleftrightarrow> INT_ARRAY_MAX \<le> ia_count a"
  by (auto simp: IntArray_push_def)

lemma length_IntArray_list: "IntArray_ok a \<Longrightarrow> length (IntArray_list a) = ia_count a"
  by (simp add: IntArray_ok_def IntArray_list_def)

section \<open>Properties\<close>

text \<open>
  The growable Array implements lists: any program of pushes, unshifts, pops and reverses
  on a fresh array (with its doubling capacity and in-place shifting and swapping) returns the
  same popped values and leaves the same contents as the same program on lists, and keeps the
  representation invariant.
\<close>

theorem Array_refines_list:
  "fst (run_array ops Array_new []) = fst (run_list ops [] [])
   \<and> Array_list (snd (run_array ops Array_new [])) = snd (run_list ops [] [])
   \<and> Array_ok (snd (run_array ops Array_new []))"
  using run_array_refines [OF Array_ok_new, of ops "[]"] by simp

text \<open>
  The Hash is a first-entry-wins map: after any sequence of Hash_set calls, Hash_get
  returns the value of the earliest entry for the key (a later Hash_set of the same key never
  takes effect).
\<close>

theorem Hash_first_entry_wins:
  "Hash_get (fold (\<lambda>(k, v) h. Hash_set h k v) kvs Hash_new) key = map_of kvs key"
  by (rule chash.get_fold_new)

end
