(* ===== verification/Entries.thy ===== *)
theory Entries
  imports Containers
begin

text \<open>
  Menu entries and directories of workspace/all/minui/minui.c: Entry_new, the sort of a listing,
  the naming of duplicates, and Directory_index with its map.txt aliases and alphabetical index.
  Array is used as the list it stands for (theory Containers).
\<close>

section \<open>Entries\<close>

datatype entry_type = ENTRY_DIR | ENTRY_PAK | ENTRY_ROM

record entry =
  e_path :: string
  e_name :: string
  e_unique :: "string option"
  e_type :: entry_type
  e_alpha :: int

definition Entry_new :: "string \<Rightarrow> entry_type \<Rightarrow> entry option" where
  "Entry_new path ty = do {
     display_name \<leftarrow> getDisplayName path;
     Some \<lparr>e_path = path, e_name = display_name, e_unique = None, e_type = ty, e_alpha = 0\<rparr>
   }"

definition EntryArray_indexOf :: "entry list \<Rightarrow> string \<Rightarrow> int" where
  "EntryArray_indexOf self path =
     (case find (\<lambda>i. exactMatch (Some (e_path (self ! i))) (Some path)) [0 ..< length self] of
        Some i \<Rightarrow> int i
      | None \<Rightarrow> -1)"

definition EntryArray_sortEntry :: "entry \<Rightarrow> entry \<Rightarrow> int" where
  "EntryArray_sortEntry a b = strcasecmp (e_name a) (e_name b)"

definition EntryArray_sort :: "entry list \<Rightarrow> entry list" where
  "EntryArray_sort self = qsort EntryArray_sortEntry self"

section \<open>Directories\<close>

record directory =
  dir_path :: string
  dir_name :: string
  dir_entries :: "entry list"
  dir_alphas :: int_array
  dir_selected :: int
  dir_start :: int
  dir_end :: int

text \<open>strrchr (path, '/') + 1, which every caller follows.\<close>

definition file_name :: "string \<Rightarrow> string option" where
  "file_name path = map_option (\<lambda>i. drop (Suc i) path) (strrchr path (CHR ''/''))"

definition getIndexChar :: "string \<Rightarrow> int" where
  "getIndexChar str =
     (let c = (case str of [] \<Rightarrow> 0 | x # _ \<Rightarrow> byte (c_tolower x))
      in if 97 \<le> c \<and> c \<le> 122 then int c - 97 + 1 else 0)"

definition getUniqueName :: "entry \<Rightarrow> string option" where
  "getUniqueName entry = do {
     emu_tag \<leftarrow> getEmuName 256 (e_path entry);
     c_buf 256 (e_name entry @ '' ('' @ emu_tag @ '')'')
   }"

text \<open>map.txt: one \<open>file name TAB alias\<close> per line.\<close>

definition parse_map :: "string \<Rightarrow> chash" where
  "parse_map contents =
     fold (\<lambda>line h.
        case strchr line TAB of
          None \<Rightarrow> h
        | Some i \<Rightarrow> Hash_set h (take i line) (drop (Suc i) line))
      (read_lines 256 contents) Hash_new"

definition alias_entry :: "chash \<Rightarrow> entry \<Rightarrow> entry option" where
  "alias_entry mp e = do {
     filename \<leftarrow> file_name (e_path e);
     Some (case Hash_get mp filename of None \<Rightarrow> e | Some alias \<Rightarrow> e\<lparr>e_name := alias\<rparr>)
   }"

text \<open>
  The loop that applies the aliases: the entries, whether one was renamed (resort), and whether a
  renamed one is now hidden (filter).
\<close>

fun alias_loop :: "chash \<Rightarrow> entry list \<Rightarrow> bool \<Rightarrow> bool \<Rightarrow> (entry list \<times> bool \<times> bool) option" where
  "alias_loop mp [] resort filt = Some ([], resort, filt)"
| "alias_loop mp (e # es) resort filt = do {
     filename \<leftarrow> file_name (e_path e);
     (case Hash_get mp filename of
        None \<Rightarrow> do {
          (rest, r, f) \<leftarrow> alias_loop mp es resort filt;
          Some (e # rest, r, f)
        }
      | Some alias \<Rightarrow> do {
          (rest, r, f) \<leftarrow> alias_loop mp es True (filt \<or> hide alias);
          Some (e\<lparr>e_name := alias\<rparr> # rest, r, f)
        })
   }"

text \<open>
  An entry that shows the same name as the one before it: both get their file names, or their
  names with the emulator tag when the file names agree too. The entries done so far are kept in
  reverse, so the prior entry is the head.
\<close>

definition mark_unique :: "entry list \<Rightarrow> entry \<Rightarrow> (entry list \<times> entry) option" where
  "mark_unique done e =
     (case done of
        [] \<Rightarrow> Some (done, e)
      | prior # ps \<Rightarrow>
          if exactMatch (Some (e_name prior)) (Some (e_name e)) then do {
            prior_filename \<leftarrow> file_name (e_path prior);
            entry_filename \<leftarrow> file_name (e_path e);
            (if exactMatch (Some prior_filename) (Some entry_filename) then do {
               prior_unique \<leftarrow> getUniqueName prior;
               entry_unique \<leftarrow> getUniqueName e;
               Some (prior\<lparr>e_unique := Some prior_unique\<rparr> # ps, e\<lparr>e_unique := Some entry_unique\<rparr>)
             }
             else Some (prior\<lparr>e_unique := Some prior_filename\<rparr> # ps,
                        e\<lparr>e_unique := Some entry_filename\<rparr>))
          }
          else Some (done, e))"

text \<open>The alphabetical index: a new group starts wherever the index letter changes.\<close>

definition index_step ::
    "bool \<Rightarrow> int \<Rightarrow> entry \<Rightarrow> int \<times> int \<times> int_array \<Rightarrow> (entry \<times> int \<times> int \<times> int_array) option" where
  "index_step skip_index i e st =
     (case st of (alpha, index, alphas) \<Rightarrow>
        if skip_index then Some (e, alpha, index, alphas)
        else
          (let a = getIndexChar (e_name e)
           in if a \<noteq> alpha then do {
                let index = int (ia_count alphas);
                alphas \<leftarrow> IntArray_push alphas i;
                Some (e\<lparr>e_alpha := index\<rparr>, a, index, alphas)
              }
              else Some (e\<lparr>e_alpha := index\<rparr>, alpha, index, alphas)))"

fun index_loop ::
    "bool \<Rightarrow> chash option \<Rightarrow> entry list \<Rightarrow> entry list \<Rightarrow> int \<Rightarrow> int \<times> int \<times> int_array
     \<Rightarrow> (entry list \<times> int_array) option" where
  "index_loop skip_index mp done [] i st = Some (rev done, snd (snd st))"
| "index_loop skip_index mp done (e # es) i st = do {
     e \<leftarrow> (case mp of None \<Rightarrow> Some e | Some h \<Rightarrow> alias_entry h e);
     (done, e) \<leftarrow> mark_unique done e;
     (e, st) \<leftarrow> map_option (\<lambda>(e, al, ix, as). (e, (al, ix, as))) (index_step skip_index i e st);
     index_loop skip_index mp (e # done) es (i + 1) st
   }"

definition Directory_index :: "fsys \<Rightarrow> directory \<Rightarrow> directory option" where
  "Directory_index fs self = do {
     let is_collection = prefixMatch COLLECTIONS_PATH (dir_path self);
     let skip_index = (exactMatch (Some FAUX_RECENT_PATH) (Some (dir_path self)) \<or> is_collection);
     map_path \<leftarrow> c_buf 256 ((if is_collection then COLLECTIONS_PATH else dir_path self) @ ''/map.txt'');
     (mp, entries) \<leftarrow>
       (case fs_files fs map_path of
          None \<Rightarrow> Some (None, dir_entries self)
        | Some contents \<Rightarrow> do {
            let mp = parse_map contents;
            (entries, resort, filt) \<leftarrow> alias_loop mp (dir_entries self) False False;
            let entries = (if filt then filter (\<lambda>e. \<not> hide (e_name e)) entries else entries);
            let entries = (if resort then EntryArray_sort entries else entries);
            Some (Some mp, entries)
          });
     (entries, alphas) \<leftarrow> index_loop skip_index mp [] entries 0 (-1, 0, dir_alphas self);
     Some (self\<lparr>dir_entries := entries, dir_alphas := alphas\<rparr>)
   }"

section \<open>The order of a listing\<close>

definition sort_key_of :: "string \<Rightarrow> nat list" where
  "sort_key_of s = map byte (lower s)"

lemma strcasecmp_le_iff:
  "nul_free a \<Longrightarrow> nul_free b \<Longrightarrow> strcasecmp a b \<le> 0 \<longleftrightarrow> sort_key_of a \<le> sort_key_of b"
proof (induction a b rule: strcasecmp.induct)
  case (3 a as)
  then show ?case using byte_tolower_pos [of a] by (simp add: sort_key_of_def)
next
  case (4 a as b bs)
  have "byte (c_tolower a) = byte (c_tolower b) \<Longrightarrow> c_tolower a = c_tolower b"
    by (simp only: byte_inject)
  with 4 show ?case by (auto simp: sort_key_of_def order_less_le)
qed (auto simp: sort_key_of_def)

definition entry_ok :: "entry \<Rightarrow> bool" where
  "entry_ok e \<longleftrightarrow> nul_free (e_name e) \<and> CHR ''/'' \<in> set (e_path e)"

interpretation by_name: comparator EntryArray_sortEntry entry_ok
proof unfold_locales
  fix x y z :: entry
  assume ok: "entry_ok x" "entry_ok y"
  show "EntryArray_sortEntry x y \<le> 0 \<or> EntryArray_sortEntry y x \<le> 0"
    using ok by (auto simp: EntryArray_sortEntry_def entry_ok_def strcasecmp_le_iff)
  show "EntryArray_sortEntry x z \<le> 0"
    if "entry_ok z" "EntryArray_sortEntry x y \<le> 0" "EntryArray_sortEntry y z \<le> 0"
    using ok that by (auto simp: EntryArray_sortEntry_def entry_ok_def strcasecmp_le_iff)
qed

lemma sorted_EntryArray_sort:
  "\<forall>e \<in> set es. entry_ok e \<Longrightarrow> sorted (map (\<lambda>e. sort_key_of (e_name e)) (EntryArray_sort es))"
proof -
  assume ok: "\<forall>e \<in> set es. entry_ok e"
  have "sorted_wrt (\<lambda>x y. EntryArray_sortEntry x y \<le> 0) (EntryArray_sort es)"
    using by_name.sorted_qsort [OF ok] by (simp add: EntryArray_sort_def)
  then have "sorted_wrt (\<lambda>x y. sort_key_of (e_name x) \<le> sort_key_of (e_name y)) (EntryArray_sort es)"
    by (rule sorted_wrt_mono_rel [rotated])
       (use ok in \<open>auto simp: EntryArray_sortEntry_def entry_ok_def EntryArray_sort_def strcasecmp_le_iff\<close>)
  then show ?thesis by (simp add: sorted_wrt_map)
qed

section \<open>The alphabetical index\<close>

lemma getIndexChar_range: "0 \<le> getIndexChar s \<and> getIndexChar s \<le> 26"
  by (auto simp: getIndexChar_def Let_def)

text \<open>The letter and the group of each entry, and what the index must say about them.\<close>

definition letters :: "entry list \<Rightarrow> (int \<times> int) list" where
  "letters es = map (\<lambda>e. (getIndexChar (e_name e), e_alpha e)) es"

definition group_ok :: "(int \<times> int) list \<Rightarrow> int list \<Rightarrow> nat \<Rightarrow> bool" where
  "group_ok ks as j \<longleftrightarrow>
     (let g = snd (ks ! j)
      in 0 \<le> g \<and> g < int (length as) \<and> as ! nat g \<le> int j
         \<and> (\<forall>k < length as. g < int k \<longrightarrow> int j < as ! k)
         \<and> fst (ks ! nat (as ! nat g)) = fst (ks ! j))"

text \<open>The rows where a group must start: the first one, and each whose letter differs from the row before.\<close>

definition group_starts :: "int list \<Rightarrow> int list" where
  "group_starts ls = map int (filter (\<lambda>j. j = 0 \<or> ls ! j \<noteq> ls ! (j - 1)) [0 ..< length ls])"

lemma group_starts_snoc:
  "group_starts (ls @ [a]) = group_starts ls @ (if ls = [] \<or> last ls \<noteq> a then [int (length ls)] else [])"
proof -
  have "filter (\<lambda>j. j = 0 \<or> (ls @ [a]) ! j \<noteq> (ls @ [a]) ! (j - 1)) [0 ..< length ls]
      = filter (\<lambda>j. j = 0 \<or> ls ! j \<noteq> ls ! (j - 1)) [0 ..< length ls]"
    by (rule filter_cong) (auto simp: nth_append)
  then show ?thesis by (auto simp: group_starts_def nth_append last_conv_nth)
qed

definition index_ok :: "(int \<times> int) list \<Rightarrow> int list \<Rightarrow> bool" where
  "index_ok ks as \<longleftrightarrow>
     as = group_starts (map fst ks) \<and> sorted_wrt (<) as \<and> (\<forall>a \<in> set as. 0 \<le> a \<and> a < int (length ks))
     \<and> (\<forall>j < length ks. group_ok ks as j)"

lemma letters_simps [simp]:
  "letters [] = []" "letters (es @ fs) = letters es @ letters fs" "length (letters es) = length es"
  "letters (e # es) = (getIndexChar (e_name e), e_alpha e) # letters es"
  by (simp_all add: letters_def)

lemma group_ok_old:
  assumes "group_ok ks as j" "j < length ks" "\<forall>a \<in> set as. 0 \<le> a \<and> a < int (length ks)"
  shows "group_ok (ks @ [x]) as j"
proof -
  let ?g = "nat (snd (ks ! j))"
  have "as ! ?g \<in> set as" using assms(1) by (auto simp: group_ok_def Let_def)
  then have "nat (as ! ?g) < length ks" using assms(3) by force
  then show ?thesis using assms(1,2) by (simp add: group_ok_def Let_def nth_append)
qed

lemma group_ok_more:
  assumes "group_ok ks as j" "int j < m"
  shows "group_ok ks (as @ [m]) j"
proof -
  have "nat (snd (ks ! j)) < length as" using assms(1) by (auto simp: group_ok_def Let_def)
  then show ?thesis using assms by (simp add: group_ok_def Let_def nth_append)
qed

lemma index_ok_new:
  assumes "index_ok ks as" "ks = [] \<or> fst (last ks) \<noteq> a"
  shows "index_ok (ks @ [(a, int (length as))]) (as @ [int (length ks)])"
proof -
  let ?ks = "ks @ [(a, int (length as))]" and ?as = "as @ [int (length ks)]"
  have old: "group_ok ?ks ?as j" if "j < length ks" for j
    using assms that by (intro group_ok_more group_ok_old) (auto simp: index_ok_def)
  have "group_ok ?ks ?as (length ks)" by (simp add: group_ok_def Let_def nth_append)
  with old have "\<forall>j < length ?ks. group_ok ?ks ?as j" by (auto simp: less_Suc_eq)
  moreover have "sorted_wrt (<) ?as" using assms(1) by (auto simp: index_ok_def sorted_wrt_append)
  moreover have "\<forall>x \<in> set ?as. 0 \<le> x \<and> x < int (length ?ks)" using assms(1) by (force simp: index_ok_def)
  moreover have "?as = group_starts (map fst ?ks)"
    using assms by (auto simp: index_ok_def group_starts_snoc last_map)
  ultimately show ?thesis unfolding index_ok_def by blast
qed

lemma index_ok_same:
  assumes "index_ok ks as" "ks \<noteq> []" "fst (last ks) = a" "snd (last ks) = int (length as) - 1"
  shows "index_ok (ks @ [(a, int (length as) - 1)]) as"
proof -
  let ?l = "length ks - 1" and ?ks = "ks @ [(a, int (length as) - 1)]"
  have l: "ks ! ?l = last ks" "?l < length ks" using assms(2) by (auto simp: last_conv_nth)
  then have g: "group_ok ks as ?l" using assms(1) unfolding index_ok_def by blast
  then have gl: "0 < length as" "as ! nat (int (length as) - 1) \<le> int ?l"
    "fst (ks ! nat (as ! nat (int (length as) - 1))) = a"
    using l assms(3,4) by (auto simp: group_ok_def Let_def)
  have old: "group_ok ?ks as j" if "j < length ks" for j
    using assms(1) that by (intro group_ok_old) (auto simp: index_ok_def)
  have "group_ok ?ks as (length ks)"
    using gl l(2) by (auto simp: group_ok_def Let_def nth_append)
  with old have "\<forall>j < length ?ks. group_ok ?ks as j" by (auto simp: less_Suc_eq)
  moreover have "as = group_starts (map fst ?ks)"
    using assms by (simp add: index_ok_def group_starts_snoc last_map)
  moreover have "\<forall>x \<in> set as. 0 \<le> x \<and> x < int (length ?ks)" using assms(1) by (force simp: index_ok_def)
  ultimately show ?thesis using assms(1) unfolding index_ok_def by blast
qed

lemma mark_unique_letters:
  "mark_unique done e = Some (done', e') \<Longrightarrow>
   letters done' = letters done \<and> getIndexChar (e_name e') = getIndexChar (e_name e)
   \<and> e_alpha e' = e_alpha e \<and> map e_name done' = map e_name done \<and> e_name e' = e_name e
   \<and> map e_path done' = map e_path done \<and> e_path e' = e_path e"
  by (auto simp: mark_unique_def elim!: bind_Some_elim split: list.splits if_splits)

text \<open>The state of the loop after the entries done so far.\<close>

definition index_inv :: "entry list \<Rightarrow> int \<times> int \<times> int_array \<Rightarrow> bool" where
  "index_inv D st \<longleftrightarrow>
     (case st of (alpha, index, alphas) \<Rightarrow>
        IntArray_ok alphas \<and> index_ok (letters D) (IntArray_list alphas)
        \<and> (if D = [] then alpha = -1 \<and> IntArray_list alphas = []
           else alpha = getIndexChar (e_name (last D)) \<and> index = e_alpha (last D)
             \<and> index = int (ia_count alphas) - 1))"

lemma last_letters: "D \<noteq> [] \<Longrightarrow> last (letters D) = (getIndexChar (e_name (last D)), e_alpha (last D))"
  by (simp add: letters_def last_map)

lemma index_step_inv:
  assumes "index_inv D st" "index_step False (int (length D)) e st = Some (e', st')"
  shows "index_inv (D @ [e']) st'"
proof -
  obtain alpha index alphas where st: "st = (alpha, index, alphas)" by (cases st)
  let ?a = "getIndexChar (e_name e)"
  have inv: "IntArray_ok alphas" "index_ok (letters D) (IntArray_list alphas)"
    and len: "length (IntArray_list alphas) = ia_count alphas"
    using assms(1) st by (auto simp: index_inv_def length_IntArray_list)
  show ?thesis
  proof (cases "?a = alpha")
    case False
    then obtain as where as: "IntArray_push alphas (int (length D)) = Some as"
      and e': "e' = e\<lparr>e_alpha := int (ia_count alphas)\<rparr>" and st': "st' = (?a, int (ia_count alphas), as)"
      using assms(2) st by (auto simp: index_step_def Let_def elim!: bind_Some_elim)
    have "letters D = [] \<or> fst (last (letters D)) \<noteq> ?a"
      using assms(1) st False by (cases "D = []") (auto simp: index_inv_def last_letters)
    from IntArray_push_Some [OF inv(1) as] index_ok_new [OF inv(2) this] len
    show ?thesis by (simp add: index_inv_def e' st')
  next
    case True
    then have ne: "D \<noteq> []" using assms(1) st getIndexChar_range [of "e_name e"] by (auto simp: index_inv_def split: if_splits)
    have e': "e' = e\<lparr>e_alpha := index\<rparr>" and st': "st' = (alpha, index, alphas)"
      using assms(2) st True by (auto simp: index_step_def Let_def)
    have "index_ok (letters D @ [(?a, int (length (IntArray_list alphas)) - 1)]) (IntArray_list alphas)"
      using assms(1) st ne True len inv(2)
      by (intro index_ok_same) (auto simp: index_inv_def letters_def last_map)
    then show ?thesis using assms(1) st ne True len by (auto simp: index_inv_def e' st')
  qed
qed

lemma index_inv_letters:
  assumes "letters D = letters D'" shows "index_inv D st = index_inv D' st"
proof -
  have "length D = length D'" using assms by (metis letters_simps(3))
  then have "D = [] \<longleftrightarrow> D' = []" by auto
  moreover have "D \<noteq> [] \<Longrightarrow> getIndexChar (e_name (last D)) = getIndexChar (e_name (last D'))
      \<and> e_alpha (last D) = e_alpha (last D')"
    using assms last_letters [of D] last_letters [of D'] calculation by auto
  ultimately show ?thesis using assms by (auto simp: index_inv_def)
qed

lemma letters_rev: "letters (rev es) = rev (letters es)"
  by (simp add: letters_def rev_map)

lemma index_loop_inv:
  "index_loop False mp done es (int (length done)) st = Some (es', as) \<Longrightarrow> index_inv (rev done) st \<Longrightarrow>
   \<exists>st'. snd (snd st') = as \<and> index_inv es' st'"
proof (induction es arbitrary: "done" st)
  case Nil
  then show ?case by (intro exI [of _ st]) simp
next
  case (Cons e es)
  from Cons.prems(1) obtain e1 done2 e2 e3 al ix as2 where
    mu: "mark_unique done e1 = Some (done2, e2)"
    and stp: "index_step False (int (length done)) e2 st = Some (e3, al, ix, as2)"
    and rest: "index_loop False mp (e3 # done2) es (int (length done) + 1) (al, ix, as2) = Some (es', as)"
    by (auto elim!: bind_Some_elim split: option.splits)
  have lm: "letters done2 = letters done" using mark_unique_letters [OF mu] by simp
  then have len: "length done2 = length done" by (metis letters_simps(3))
  have "index_inv (rev done2) st"
    using Cons.prems(2) index_inv_letters [of "rev done2" "rev done"] lm by (simp add: letters_rev)
  from index_step_inv [OF this] stp len
  have "index_inv (rev (e3 # done2)) (al, ix, as2)" by simp
  with Cons.IH [of "e3 # done2"] rest len show ?case by (simp add: add.commute)
qed

text \<open>
  No overflow as long as the letters only grow: the number of groups is bounded by the current
  letter.
\<close>

definition group_bound :: "int \<times> int \<times> int_array \<Rightarrow> bool" where
  "group_bound st \<longleftrightarrow> (case st of (alpha, index, alphas) \<Rightarrow>
     -1 \<le> alpha \<and> IntArray_ok alphas \<and> int (ia_count alphas) \<le> alpha + 1)"

lemma index_step_bound:
  assumes "group_bound (al, ix, as)" "al \<le> getIndexChar (e_name e)"
  shows "\<exists>e' ix' as'. index_step False i e (al, ix, as) = Some (e', getIndexChar (e_name e), ix', as')
    \<and> group_bound (getIndexChar (e_name e), ix', as') \<and> e_name e' = e_name e \<and> e_path e' = e_path e"
proof (cases "getIndexChar (e_name e) = al")
  case True
  then show ?thesis using assms by (simp add: index_step_def)
next
  case False
  have "ia_count as < INT_ARRAY_MAX"
    using assms False getIndexChar_range [of "e_name e"] by (auto simp: group_bound_def INT_ARRAY_MAX_def)
  then obtain as' where as': "IntArray_push as i = Some as'" by (simp add: IntArray_push_def)
  have "IntArray_ok as'" "ia_count as' = Suc (ia_count as)"
    using IntArray_push_Some [OF _ as'] assms(1) by (auto simp: group_bound_def)
  with as' False assms getIndexChar_range [of "e_name e"] show ?thesis
    by (auto simp: index_step_def Let_def group_bound_def)
qed

lemma sort_key_letter:
  assumes "sort_key_of a \<le> sort_key_of b" "b = [] \<or> byte (c_tolower (hd b)) \<le> 122"
  shows "getIndexChar a \<le> getIndexChar b"
proof (cases a)
  case Nil
  then show ?thesis using getIndexChar_range [of b] by (simp add: getIndexChar_def)
next
  case (Cons x a')
  then obtain y b' where b: "b = y # b'" using assms(1) by (cases b) (auto simp: sort_key_of_def)
  then have "byte (c_tolower x) \<le> byte (c_tolower y)"
    using assms(1) Cons by (auto simp: sort_key_of_def)
  then show ?thesis using assms(2) Cons b by (auto simp: getIndexChar_def Let_def)
qed

text \<open>An entry whose duplicate marking cannot fault.\<close>

definition markable :: "entry \<Rightarrow> bool" where
  "markable e \<longleftrightarrow> file_name (e_path e) \<noteq> None \<and> getUniqueName e \<noteq> None"

lemma getUniqueName_cong: "e_path e = e_path f \<Longrightarrow> e_name e = e_name f \<Longrightarrow> getUniqueName e = getUniqueName f"
  by (simp add: getUniqueName_def)

lemma markable_cong: "e_path e = e_path f \<Longrightarrow> e_name e = e_name f \<Longrightarrow> markable e = markable f"
  by (simp add: markable_def getUniqueName_cong [of e f])

lemma mark_unique_total:
  assumes "\<forall>p \<in> set done. markable p" "markable e"
  shows "\<exists>done' e'. mark_unique done e = Some (done', e') \<and> (\<forall>p \<in> set done'. markable p) \<and> markable e'
    \<and> e_name e' = e_name e \<and> e_path e' = e_path e"
proof -
  have ex: "\<exists>done' e'. mark_unique done e = Some (done', e')"
    using assms by (auto simp: mark_unique_def markable_def split: list.splits)
  then obtain done' e' where mu: "mark_unique done e = Some (done', e')" by blast
  from mark_unique_letters [OF mu] have
    same: "map e_name done' = map e_name done" "map e_path done' = map e_path done"
      "e_name e' = e_name e" "e_path e' = e_path e" by auto
  have "\<forall>p \<in> set done'. markable p"
  proof
    fix p assume "p \<in> set done'"
    then obtain k where k: "k < length done'" "done' ! k = p" by (auto simp: in_set_conv_nth)
    have len: "length done' = length done" using same(1) by (metis length_map)
    with k have "e_name p = e_name (done ! k)" "e_path p = e_path (done ! k)"
      using same(1,2) by (metis nth_map)+
    then show "markable p" using assms(1) k len markable_cong [of p "done ! k"] by auto
  qed
  moreover have "markable e'" using assms(2) same(3,4) markable_cong [of e' e] by simp
  ultimately show ?thesis using mu same by blast
qed

lemma index_loop_total:
  assumes "\<forall>p \<in> set done. markable p" "\<forall>e \<in> set es. markable e"
    and "skip \<or> (group_bound st \<and> sorted (map (\<lambda>e. getIndexChar (e_name e)) es)
      \<and> (\<forall>e \<in> set es. fst st \<le> getIndexChar (e_name e)))"
  shows "\<exists>r. index_loop skip None done es i st = Some r"
  using assms
proof (induction es arbitrary: "done" i st)
  case Nil
  then show ?case by simp
next
  case (Cons e es)
  obtain done2 e2 where mu: "mark_unique done e = Some (done2, e2)"
    and ok: "\<forall>p \<in> set done2. markable p" "markable e2" "e_name e2 = e_name e" "e_path e2 = e_path e"
    using mark_unique_total [OF Cons.prems(1), of e] Cons.prems(2) by auto
  obtain al ix as where st: "st = (al, ix, as)" by (cases st)
  show ?case
  proof (cases skip)
    case True
    then have "index_step skip i e2 st = Some (e2, al, ix, as)" by (simp add: index_step_def st)
    moreover have "\<exists>r. index_loop skip None (e2 # done2) es (i + 1) (al, ix, as) = Some r"
      using Cons.prems ok True by (intro Cons.IH) auto
    ultimately show ?thesis using mu by auto
  next
    case False
    have "al \<le> getIndexChar (e_name e2)" "group_bound (al, ix, as)"
      using Cons.prems(3) False ok(3) by (auto simp: st)
    from index_step_bound [OF this(2,1), of i] obtain e3 ix' as' where
      stp: "index_step False i e2 (al, ix, as) = Some (e3, getIndexChar (e_name e2), ix', as')"
      and gb: "group_bound (getIndexChar (e_name e2), ix', as')"
      and e3: "e_name e3 = e_name e2" "e_path e3 = e_path e2" by blast
    have "markable e3" using ok(2) e3 markable_cong [of e3 e2] by simp
    then have mk: "\<forall>p \<in> set (e3 # done2). markable p" using ok(1) by simp
    have srt: "sorted (map (\<lambda>e. getIndexChar (e_name e)) es)"
      "\<forall>f \<in> set es. getIndexChar (e_name e2) \<le> getIndexChar (e_name f)"
      using Cons.prems(3) False ok(3) by simp_all
    have "\<exists>r. index_loop skip None (e3 # done2) es (i + 1) (getIndexChar (e_name e2), ix', as') = Some r"
      by (rule Cons.IH [OF mk]) (use Cons.prems(2) gb srt in simp_all)
    then show ?thesis using mu stp False by (auto simp: st)
  qed
qed

lemma Directory_index_index_ok:
  assumes "Directory_index fs d = Some d'" "dir_alphas d = IntArray_new"
    and "dir_path d \<noteq> FAUX_RECENT_PATH" "\<not> prefixMatch COLLECTIONS_PATH (dir_path d)"
  shows "index_ok (letters (dir_entries d')) (IntArray_list (dir_alphas d'))
    \<and> IntArray_ok (dir_alphas d')"
proof -
  from assms obtain mp es where
    loop: "index_loop False mp [] es 0 (-1, 0, IntArray_new) = Some (dir_entries d', dir_alphas d')"
    by (auto simp: Directory_index_def elim!: bind_Some_elim split: if_splits)
  have "index_inv (rev []) (-1, 0, IntArray_new)"
    by (simp add: index_inv_def index_ok_def group_starts_def)
  with index_loop_inv [of mp "[]" es "(-1, 0, IntArray_new)"] loop
  have "\<exists>st'. snd (snd st') = dir_alphas d' \<and> index_inv (dir_entries d') st'" by simp
  then show ?thesis by (auto simp: index_inv_def)
qed

section \<open>Properties\<close>

text \<open>
  C6. The alphabetical index that L1 and R1 jump by is right for every directory that has one:
  whenever Directory_index returns, its groups start at the first row and at exactly the rows whose
  index letter differs from the row before, in increasing order; and every row's group number is that
  of the group it lies in: in range, starting at or before the row, with the next one starting after
  it and the same index letter at its first row.
\<close>

theorem Directory_index_alphas:
  assumes "Directory_index fs d = Some d'" "dir_alphas d = IntArray_new"
    and "dir_path d \<noteq> FAUX_RECENT_PATH" "\<not> prefixMatch COLLECTIONS_PATH (dir_path d)"
  shows "index_ok (letters (dir_entries d')) (IntArray_list (dir_alphas d'))
    \<and> IntArray_ok (dir_alphas d')"
  using assms by (rule Directory_index_index_ok)

text \<open>
  Directory_index returns on every sorted listing without map.txt whose names start at or
  below the letter z: the 27 slots of the index suffice, and duplicates can always be told apart
  when the paths lie in folders with a readable tag.
\<close>

theorem Directory_index_total:
  assumes "fs_files fs (dir_path d @ ''/map.txt'') = None" "length (dir_path d) < 247"
    and "\<not> prefixMatch COLLECTIONS_PATH (dir_path d)" "dir_alphas d = IntArray_new"
    and "dir_entries d = EntryArray_sort es" "\<forall>e \<in> set es. entry_ok e \<and> getUniqueName e \<noteq> None"
    and "\<forall>e \<in> set es. e_name e = [] \<or> byte (c_tolower (hd (e_name e))) \<le> 122"
  shows "\<exists>d'. Directory_index fs d = Some d'"
proof -
  have mk: "\<forall>e \<in> set (dir_entries d). markable e"
    using assms(5,6) strrchr_in_set
    by (fastforce simp: markable_def entry_ok_def file_name_def EntryArray_sort_def)
  have "sorted (map (\<lambda>e. sort_key_of (e_name e)) (dir_entries d))"
    using sorted_EntryArray_sort assms(5,6) by simp
  then have "sorted_wrt (\<lambda>x y. getIndexChar (e_name x) \<le> getIndexChar (e_name y)) (dir_entries d)"
    unfolding sorted_map
    by (rule sorted_wrt_mono_rel [rotated])
       (use assms(5,7) sort_key_letter in \<open>auto simp: EntryArray_sort_def\<close>)
  then have "sorted (map (\<lambda>e. getIndexChar (e_name e)) (dir_entries d))" by (simp add: sorted_map)
  moreover have "group_bound (-1, 0, IntArray_new)" by (simp add: group_bound_def)
  moreover have "\<forall>e \<in> set (dir_entries d). (-1::int) \<le> getIndexChar (e_name e)"
    using getIndexChar_range by (meson dual_order.trans neg_le_0_iff_le zero_le_one)
  ultimately have "\<exists>r. index_loop (FAUX_RECENT_PATH = dir_path d) None [] (dir_entries d) 0
      (-1, 0, IntArray_new) = Some r"
    using mk by (intro index_loop_total) auto
  then show ?thesis using assms(1-4) by (auto simp: Directory_index_def)
qed

text \<open>A small console folder with two games, and one with 28 index letters.\<close>

definition game :: "string \<Rightarrow> entry" where
  "game nm = \<lparr>e_path = ''/mnt/SDCARD/Roms/Game Boy (GB)/'' @ nm @ ''.gb'', e_name = nm,
     e_unique = None, e_type = ENTRY_ROM, e_alpha = 0\<rparr>"

definition folder :: "entry list \<Rightarrow> directory" where
  "folder es = \<lparr>dir_path = ''/mnt/SDCARD/Roms/Game Boy (GB)'', dir_name = ''Game Boy'',
     dir_entries = es, dir_alphas = IntArray_new, dir_selected = 0, dir_start = 0, dir_end = 0\<rparr>"

definition empty_card :: fsys where
  "empty_card = \<lparr>fs_files = \<lambda>_. None, fs_dirs = \<lambda>_. None, fs_writable = \<lambda>_. True\<rparr>"

theorem Directory_index_total_witness:
  "\<exists>d'. Directory_index empty_card (folder (EntryArray_sort [game ''Zelda'', game ''Tetris''])) = Some d'"
  by (rule Directory_index_total [of _ _ "[game ''Zelda'', game ''Tetris'']"]) code_simp+

theorem Directory_index_alphas_witness:
  "index_ok (letters [(game ''Tetris'')\<lparr>e_alpha := 0\<rparr>, (game ''Zelda'')\<lparr>e_alpha := 1\<rparr>]) [0, 1]"
proof -
  let ?d = "folder [game ''Tetris'', game ''Zelda'']"
  have r: "Directory_index empty_card ?d = Some (?d\<lparr>
      dir_entries := [(game ''Tetris'')\<lparr>e_alpha := 0\<rparr>, (game ''Zelda'')\<lparr>e_alpha := 1\<rparr>],
      dir_alphas := \<lparr>ia_count = 2, ia_items = [0, 1] @ replicate 25 0\<rparr>\<rparr>)"
    by code_simp
  show ?thesis
    using Directory_index_alphas [OF r] by (simp add: folder_def path_defs prefixMatch_def IntArray_list_def c_tolower_def)
qed

text \<open>
  The index overflows on a directory the program can hold: a sorted listing with a name that
  starts with a digit, one for each letter, and one that starts with a byte above z (such as the
  check mark the sync engine puts before downloaded games) has 28 groups, and the 28th push
  writes past the 27 slots.
\<close>

definition overflow_names :: "string list" where
  "overflow_names = map (\<lambda>c. [c]) ''0abcdefghijklmnopqrstuvwxyz'' @ [[CHR 0xE2, CHR 0x9C, CHR 0x93, CHR '' '', CHR ''a'']]"

theorem Directory_index_overflow:
  "EntryArray_sort (map game overflow_names) = map game overflow_names
   \<and> Directory_index empty_card (folder (map game overflow_names)) = None"
  by code_simp

end
