(* ===== verification/Override.thy ===== *)
theory Override
  imports Entries
begin

text \<open>
  The per-game emulator override of workspace/all/minui/minui.c: the state markers in front of
  ROM file names, the sidecar file \<open>.minui/TAG/FILE.emu.txt\<close> with its validated pak= and core=
  values, the resolver every launch goes through, and the resolution of a recorded path whose
  marker has changed since.
\<close>

section \<open>Markers\<close>

definition MARK_DEVICE :: string where
  "MARK_DEVICE = [CHR 0xE2, CHR 0x9C, CHR 0x93, CHR '' '']"

definition MARK_CLOUD :: string where
  "MARK_CLOUD = [CHR 0xE2, CHR 0x9C, CHR 0x98, CHR '' '']"

definition LODOR_MARKER_PREFS :: "string list" where
  "LODOR_MARKER_PREFS = [MARK_DEVICE, MARK_CLOUD, [], ''[v] '', ''[^] '']"

definition Lodor_stripMarker :: "string \<Rightarrow> string" where
  "Lodor_stripMarker base =
     (case find (\<lambda>m. strncmp base m (length m) = 0) [MARK_DEVICE, MARK_CLOUD, ''[v] '', ''[^] ''] of
        Some m \<Rightarrow> drop (length m) base
      | None \<Rightarrow> base)"

text \<open>
  The recorded path if it is still there, else the first marker variant of its file name that is;
  the candidates are cut at MAX_PATH and a cut one is skipped. None is "not found" (the C
  function's 0), the outer option the usual fault.
\<close>

definition MAX_PATH :: nat where
  "MAX_PATH = 512"

definition Lodor_resolveMarkedPath :: "fsys \<Rightarrow> string \<Rightarrow> string option" where
  "Lodor_resolveMarkedPath fs path =
     (if path = [] then None
      else if exists fs path then Some path
      else
        (case strrchr path (CHR ''/'') of
           None \<Rightarrow> None
         | Some i \<Rightarrow>
             if MAX_PATH \<le> i then None
             else
               (let dir = take i path;
                    canon = c_trunc MAX_PATH (Lodor_stripMarker (drop (Suc i) path))
                in find (\<lambda>cand. length cand < MAX_PATH \<and> exists fs cand)
                     (map (\<lambda>m. dir @ ''/'' @ m @ canon) LODOR_MARKER_PREFS))))"

section \<open>The sidecar\<close>

definition Lodor_romTag :: "string \<Rightarrow> string option" where
  "Lodor_romTag rom_path = getEmuName MAX_PATH rom_path"

definition Lodor_emuSidecarPath :: "string \<Rightarrow> nat \<Rightarrow> string option" where
  "Lodor_emuSidecarPath rom_path outsz = do {
     tag \<leftarrow> Lodor_romTag rom_path;
     Some (case strrchr rom_path (CHR ''/'') of
             None \<Rightarrow> []
           | Some i \<Rightarrow>
               if tag = [] \<or> drop (Suc i) rom_path = [] then []
               else c_trunc outsz (SHARED_USERDATA_PATH @ ''/.minui/'' @ tag @ ''/''
                      @ Lodor_stripMarker (drop (Suc i) rom_path) @ ''.emu.txt''))
   }"

definition LODOR_SIDECAR_MAX :: nat where
  "LODOR_SIDECAR_MAX = 120"

text \<open>The loop of Lodor_validStem with its flag printable.\<close>

fun valid_stem_loop :: "string \<Rightarrow> bool \<Rightarrow> bool" where
  "valid_stem_loop [] printable = printable"
| "valid_stem_loop (p # ps) printable =
     (if byte p < 32 \<or> byte p = 127 then False
      else if p = CHR ''/'' then False
      else valid_stem_loop ps (printable \<or> p \<noteq> CHR '' ''))"

definition Lodor_validStem :: "string \<Rightarrow> bool" where
  "Lodor_validStem v \<longleftrightarrow>
     v \<noteq> [] \<and> \<not> LODOR_SIDECAR_MAX < length v \<and> valid_stem_loop v False"

text \<open>The result is whether the file could be read, and the pak= and core= values.\<close>

definition sidecar_line :: "nat \<Rightarrow> nat \<Rightarrow> string \<Rightarrow> string \<times> string \<Rightarrow> string \<times> string" where
  "sidecar_line paksz coresz raw out =
     (case out of (out_pak, out_core) \<Rightarrow>
        (let line = clean_line raw;
             out_pak = (if strncmp line ''pak='' 4 = 0 \<and> Lodor_validStem (drop 4 line)
                        then c_trunc paksz (drop 4 line) else out_pak);
             out_core = (if strncmp line ''core='' 5 = 0 \<and> Lodor_validStem (drop 5 line)
                         then c_trunc coresz (drop 5 line) else out_core)
         in (out_pak, out_core)))"

definition Lodor_readEmuSidecar ::
    "fsys \<Rightarrow> string \<Rightarrow> nat \<Rightarrow> nat \<Rightarrow> (bool \<times> string \<times> string) option" where
  "Lodor_readEmuSidecar fs rom_path paksz coresz = do {
     sc \<leftarrow> Lodor_emuSidecarPath rom_path MAX_PATH;
     Some (if sc = [] then (False, [], [])
           else (case fs_files fs sc of
                   None \<Rightarrow> (False, [], [])
                 | Some contents \<Rightarrow>
                     (True, fold (sidecar_line paksz coresz) (fgets_all 256 contents) ([], []))))
   }"

definition Lodor_findPak :: "fsys \<Rightarrow> string \<Rightarrow> bool \<times> string" where
  "Lodor_findPak fs pakname =
     (let pak_path = c_trunc 256 (SDCARD_PATH @ ''/Emus/'' @ PLATFORM @ ''/'' @ pakname @ ''.pak/launch.sh'')
      in if exists fs pak_path then (True, pak_path)
         else
           (let pak_path = c_trunc 256 (PAKS_PATH @ ''/Emus/'' @ pakname @ ''.pak/launch.sh'')
            in (exists fs pak_path, pak_path)))"

text \<open>The pak to launch, and the new value of lodor_core_override.\<close>

definition Lodor_resolveEmu :: "fsys \<Rightarrow> string \<Rightarrow> (string \<times> string) option" where
  "Lodor_resolveEmu fs rom_path = do {
     tag \<leftarrow> Lodor_romTag rom_path;
     (_, pakname, core) \<leftarrow> Lodor_readEmuSidecar fs rom_path 128 256;
     (if pakname \<noteq> [] \<and> fst (Lodor_findPak fs pakname)
      then Some (snd (Lodor_findPak fs pakname), core)
      else do {
        let core = (if pakname \<noteq> [] then [] else core);
        pak_path \<leftarrow> getEmuPath fs tag;
        Some (pak_path, core)
      })
   }"

definition Lodor_hasEmuFor :: "fsys \<Rightarrow> string \<Rightarrow> (bool \<times> string) option" where
  "Lodor_hasEmuFor fs sd_rom_path = do {
     (pak_path, core) \<leftarrow> Lodor_resolveEmu fs sd_rom_path;
     Some (exists fs pak_path, core)
   }"

section \<open>Writing files safely\<close>

text \<open>
  A card with a cache before it. The running system sees \<open>d_fs\<close>; the bytes of the files in
  \<open>d_dirty\<close> may be in the cache only, and the directory on the card may still be one of the earlier
  ones in \<open>d_past\<close>, each with the files whose bytes were not on the card then.
\<close>

record disk =
  d_fs :: fsys
  d_dirty :: "string list"
  d_past :: "(fsys \<times> string list) list"

definition calm :: "fsys \<Rightarrow> disk" where
  "calm fs = \<lparr>d_fs = fs, d_dirty = [], d_past = []\<rparr>"

definition d_change :: "(fsys \<Rightarrow> fsys) \<Rightarrow> (string list \<Rightarrow> string list) \<Rightarrow> disk \<Rightarrow> disk" where
  "d_change f g d = \<lparr>d_fs = f (d_fs d), d_dirty = g (d_dirty d), d_past = (d_fs d, d_dirty d) # d_past d\<rparr>"

text \<open>
  fopen for writing creates the file, the kernel gets bytes in its cache, fsync of the file puts them
  on the card, fsync of the folder the names.
\<close>

definition d_create :: "string \<Rightarrow> disk \<Rightarrow> disk" where
  "d_create p = d_change (\<lambda>fs. fs\<lparr>fs_files := (fs_files fs)(p \<mapsto> [])\<rparr>) (Cons p)"

definition d_write :: "string \<Rightarrow> string \<Rightarrow> disk \<Rightarrow> disk" where
  "d_write p s d =
    (if s = [] then d
     else d_change (\<lambda>fs. fs\<lparr>fs_files := (fs_files fs)(p \<mapsto> (case fs_files fs p of None \<Rightarrow> [] | Some old \<Rightarrow> old) @ s)\<rparr>) (Cons p) d)"

definition d_fsync :: "string \<Rightarrow> disk \<Rightarrow> disk" where
  "d_fsync p d = d\<lparr>d_dirty := removeAll p (d_dirty d)\<rparr>"

definition d_unlink :: "string \<Rightarrow> disk \<Rightarrow> disk" where
  "d_unlink p = d_change (\<lambda>fs. unlink fs p) (removeAll p)"

definition d_rename :: "string \<Rightarrow> string \<Rightarrow> disk \<Rightarrow> disk" where
  "d_rename p q = d_change (\<lambda>fs. fs\<lparr>fs_files := (fs_files fs)(p := None, q := fs_files fs p)\<rparr>)
     (\<lambda>dirty. if p \<in> set dirty then q # removeAll p dirty else removeAll q dirty)"

definition d_sync_dir :: "disk \<Rightarrow> disk" where
  "d_sync_dir d = d\<lparr>d_past := []\<rparr>"

text \<open>
  What a power cut leaves: one of the directories the card may have, where the files with bytes in the
  cache hold whatever \<open>junk\<close> says, none of it, a part, or garbage.
\<close>

definition cut_off :: "(string \<Rightarrow> string option) \<Rightarrow> fsys \<times> string list \<Rightarrow> fsys" where
  "cut_off junk st = (fst st)\<lparr>fs_files := (\<lambda>p. if p \<in> set (snd st) then junk p else fs_files (fst st) p)\<rparr>"

definition after_cut :: "nat \<Rightarrow> (string \<Rightarrow> string option) \<Rightarrow> disk \<Rightarrow> fsys" where
  "after_cut n junk d =
    cut_off junk (if n < length (d_past d) then d_past d ! n else (d_fs d, d_dirty d))"

text \<open>
  What the system calls of one atomic write answer: whether the temporary file opens, how many bytes
  fwrite takes and how many of them it passes to the kernel at once, and whether fflush, fsync, fclose,
  rename and the fsync of the folder succeed.
\<close>

record write_outcome =
  wo_fopen :: bool
  wo_fwrite :: nat
  wo_early :: nat
  wo_fflush :: bool
  wo_fsync :: bool
  wo_fclose :: bool
  wo_rename :: bool
  wo_dirsync :: bool

text \<open>
  Lodor_atomicWrite as the list of states the card goes through, the last one being the final state,
  and its result. What fwrite keeps in the buffer of the stream reaches the kernel by fflush, or
  else by fclose.
\<close>

definition Lodor_atomicWrite ::
    "write_outcome \<Rightarrow> fsys \<Rightarrow> string \<Rightarrow> string \<Rightarrow> disk list \<times> bool" where
  "Lodor_atomicWrite wo fs path content =
     (let tmp = path @ ''.tmp''; d0 = calm fs
      in if MAX_PATH \<le> length tmp then ([d0], False)
         else if \<not> wo_fopen wo then ([d0], False)
         else
           (let d1 = d_create tmp d0;
                taken = take (wo_fwrite wo) content;
                d2 = d_write tmp (take (wo_early wo) taken) d1;
                buf = drop (wo_early wo) taken;
                ok = (length taken = length content);
                (d3, buf, ok) = (if ok then if wo_fflush wo then (d_write tmp buf d2, [], True) else (d2, buf, False)
                                 else (d2, buf, False));
                (d4, ok) = (if ok then if wo_fsync wo then (d_fsync tmp d3, True) else (d3, False) else (d3, False));
                d5 = d_write tmp buf d4;
                ok = (ok \<and> wo_fclose wo)
            in if \<not> ok then ([d0, d1, d2, d3, d4, d5, d_unlink tmp d5], False)
               else if \<not> wo_rename wo then ([d0, d1, d2, d3, d4, d5, d_unlink tmp d5], False)
               else
                 (let d6 = d_rename tmp path d5;
                      d7 = (if CHR ''/'' \<in> set path \<and> wo_dirsync wo then d_sync_dir d6 else d6)
                  in ([d0, d1, d2, d3, d4, d5, d6, d7], True))))"

text \<open>What the running system sees when the write has returned.\<close>

definition live :: "disk list \<Rightarrow> fsys" where
  "live ds = d_fs (last ds)"

text \<open>The override picker's writer: the default (no pak name) deletes the whole sidecar.\<close>

definition Lodor_writeEmuSidecar ::
    "write_outcome \<Rightarrow> fsys \<Rightarrow> string \<Rightarrow> string option \<Rightarrow> fsys option" where
  "Lodor_writeEmuSidecar wo fs rom_path pakname = do {
     sc \<leftarrow> Lodor_emuSidecarPath rom_path MAX_PATH;
     (if sc = [] then Some fs
      else (case pakname of
              None \<Rightarrow> Some (unlink fs sc)
            | Some [] \<Rightarrow> Some (unlink fs sc)
            | Some pak \<Rightarrow> do {
                (_, _, core) \<leftarrow> Lodor_readEmuSidecar fs rom_path 0 256;
                let line1 = ''pak='' @ pak @ [NL];
                let line2 = (if core = [] then [] else ''core='' @ core @ [NL]);
                Some (if 512 \<le> length line1 then fs
                      else if 512 - length line1 \<le> length line2 then fs
                      else live (fst (Lodor_atomicWrite wo fs sc (line1 @ line2))))
              }))
   }"

section \<open>Lemmas\<close>

definition stem_char :: "char \<Rightarrow> bool" where
  "stem_char c \<longleftrightarrow> 32 \<le> byte c \<and> byte c \<noteq> 127 \<and> c \<noteq> CHR ''/''"

lemma valid_stem_loop_iff:
  "valid_stem_loop s pr \<longleftrightarrow> (\<forall>c \<in> set s. stem_char c) \<and> (pr \<or> (\<exists>c \<in> set s. c \<noteq> CHR '' ''))"
  by (induction s arbitrary: pr) (auto simp: stem_char_def)

lemma validStem_iff:
  "Lodor_validStem v \<longleftrightarrow> length v \<le> 120 \<and> (\<forall>c \<in> set v. stem_char c) \<and> (\<exists>c \<in> set v. c \<noteq> CHR '' '')"
  by (auto simp: Lodor_validStem_def valid_stem_loop_iff LODOR_SIDECAR_MAX_def)

lemma stem_char_simps [simp]: "\<not> stem_char NL" "\<not> stem_char CR" "\<not> stem_char NUL" "\<not> stem_char TAB" "\<not> stem_char (CHR ''/'')"
  by (simp_all add: stem_char_def NL_def CR_def NUL_def TAB_def)

lemma validStem_line: "Lodor_validStem v \<Longrightarrow> NL \<notin> set v \<and> CR \<notin> set v \<and> nul_free v \<and> CHR ''/'' \<notin> set v \<and> v \<noteq> []"
  by (auto simp: validStem_iff nul_free_def)

lemma strncmp_prefix: "strncmp (p @ s) p (length p) = 0"
  by (induction p) auto

text \<open>Every value the reader accepts is a valid stem, whatever the file holds.\<close>

lemma sidecar_line_valid:
  assumes "121 \<le> paksz \<or> paksz = 0" "121 \<le> coresz"
    and "fst out = [] \<or> Lodor_validStem (fst out)" "snd out = [] \<or> Lodor_validStem (snd out)"
  shows "(fst (sidecar_line paksz coresz raw out) = [] \<or> Lodor_validStem (fst (sidecar_line paksz coresz raw out)))
    \<and> (snd (sidecar_line paksz coresz raw out) = [] \<or> Lodor_validStem (snd (sidecar_line paksz coresz raw out)))"
proof -
  have t: "Lodor_validStem v \<Longrightarrow> 121 \<le> n \<Longrightarrow> c_trunc n v = v" for v n
    by (rule c_trunc_id) (auto simp: validStem_iff)
  have z: "c_trunc 0 v = []" for v by (simp add: c_trunc_def)
  show ?thesis using assms by (auto simp: sidecar_line_def Let_def split_beta t z)
qed

lemma sidecar_fold_valid:
  assumes "121 \<le> paksz \<or> paksz = 0" "121 \<le> coresz"
  shows "(fst out = [] \<or> Lodor_validStem (fst out)) \<and> (snd out = [] \<or> Lodor_validStem (snd out)) \<Longrightarrow>
    (fst (fold (sidecar_line paksz coresz) ls out) = [] \<or> Lodor_validStem (fst (fold (sidecar_line paksz coresz) ls out)))
    \<and> (snd (fold (sidecar_line paksz coresz) ls out) = [] \<or> Lodor_validStem (snd (fold (sidecar_line paksz coresz) ls out)))"
proof (induction ls arbitrary: out)
  case Nil
  then show ?case by simp
next
  case (Cons l ls)
  from sidecar_line_valid [OF assms, of out l] Cons.prems Cons.IH show ?case by simp
qed

lemma readEmuSidecar_valid:
  assumes "Lodor_readEmuSidecar fs rom paksz coresz = Some (r, pak, core)"
    and "121 \<le> paksz \<or> paksz = 0" "121 \<le> coresz"
  shows "(pak = [] \<or> Lodor_validStem pak) \<and> (core = [] \<or> Lodor_validStem core)"
proof -
  from assms(1) have "(pak, core) = ([], []) \<or>
      (\<exists>ls. fold (sidecar_line paksz coresz) ls ([], []) = (pak, core))"
    by (auto simp: Lodor_readEmuSidecar_def elim!: bind_Some_elim split: if_splits option.splits)
  then show ?thesis using sidecar_fold_valid [OF assms(2,3), of "([], [])"] by (metis fst_conv snd_conv)
qed

text \<open>What a written sidecar reads back as.\<close>

lemma line_ok_assign:
  assumes "Lodor_validStem v" "NL \<notin> set k" "CR \<notin> set k" "nul_free k" "length k \<le> 5"
  shows "line_ok 256 (k @ v)"
  using assms validStem_line [OF assms(1)] by (auto simp: line_ok_def validStem_iff)

lemma fgets_all_line_ok: "line_ok n l \<Longrightarrow> fgets_all n (l @ NL # rest) = (l @ [NL]) # fgets_all n rest"
  by (simp add: line_ok_def fgets_all_line)

lemma sidecar_line_pak:
  assumes "Lodor_validStem pak" "121 \<le> paksz"
  shows "sidecar_line paksz coresz (''pak='' @ pak @ [NL]) (p, c) = (pak, c)"
proof -
  have "clean_line ((''pak='' @ pak) @ [NL]) = ''pak='' @ pak"
    using validStem_line [OF assms(1)] by (intro clean_line_LF) (auto simp: NL_def CR_def)
  moreover have "c_trunc paksz pak = pak" using assms by (intro c_trunc_id) (auto simp: validStem_iff)
  ultimately show ?thesis using assms(1) by (simp add: sidecar_line_def Let_def eval_nat_numeral)
qed

lemma sidecar_line_core:
  assumes "Lodor_validStem core" "121 \<le> coresz"
  shows "sidecar_line paksz coresz (''core='' @ core @ [NL]) (p, c) = (p, core)"
proof -
  have "clean_line ((''core='' @ core) @ [NL]) = ''core='' @ core"
    using validStem_line [OF assms(1)] by (intro clean_line_LF) (auto simp: NL_def CR_def)
  moreover have "c_trunc coresz core = core" using assms by (intro c_trunc_id) (auto simp: validStem_iff)
  ultimately show ?thesis using assms(1) by (simp add: sidecar_line_def Let_def eval_nat_numeral)
qed

lemma sidecar_body_parsed:
  assumes "Lodor_validStem pak" "core = [] \<or> Lodor_validStem core" "121 \<le> paksz" "121 \<le> coresz"
  shows "fold (sidecar_line paksz coresz)
      (fgets_all 256 (''pak='' @ pak @ [NL] @ (if core = [] then [] else ''core='' @ core @ [NL]))) ([], [])
    = (pak, core)"
proof -
  have l1: "line_ok 256 (''pak='' @ pak)" using assms(1) by (intro line_ok_assign) (auto simp: NL_def CR_def NUL_def)
  show ?thesis
  proof (cases "core = []")
    case True
    have "fgets_all 256 ((''pak='' @ pak) @ NL # []) = [(''pak='' @ pak) @ [NL]]"
      by (subst fgets_all_line_ok [OF l1]) simp
    then show ?thesis using True sidecar_line_pak [OF assms(1,3), of coresz "[]" "[]"] by simp
  next
    case False
    then have l2: "line_ok 256 (''core='' @ core)" using assms(2) by (intro line_ok_assign) (auto simp: NL_def CR_def NUL_def)
    have "fgets_all 256 ((''pak='' @ pak) @ NL # (''core='' @ core) @ NL # [])
        = [(''pak='' @ pak) @ [NL], (''core='' @ core) @ [NL]]"
      by (subst fgets_all_line_ok [OF l1], subst fgets_all_line_ok [OF l2]) simp
    then show ?thesis
      using False assms(2) sidecar_line_pak [OF assms(1,3), of coresz "[]" "[]"]
        sidecar_line_core [of core coresz paksz pak "[]"] assms(4) by simp
  qed
qed

text \<open>The files during an atomic write.\<close>

lemmas disk_defs = calm_def d_change_def d_create_def d_write_def d_fsync_def d_unlink_def d_rename_def d_sync_dir_def
  unlink_def

text \<open>
  The invariant of the cards during a write: every directory the card may hold has, away from the
  temporary file, the old contents or the new ones under the target, and nothing but the temporary
  file has bytes in the cache.
\<close>

definition sound_image :: "fsys \<Rightarrow> string \<Rightarrow> string \<Rightarrow> fsys \<times> string list \<Rightarrow> bool" where
  "sound_image fs path content st \<longleftrightarrow> set (snd st) \<subseteq> {path @ ''.tmp''}
     \<and> (\<forall>q. q \<noteq> path @ ''.tmp'' \<longrightarrow> fs_files (fst st) q = fs_files fs q \<or> q = path \<and> fs_files (fst st) q = Some content)"

definition sound_disk :: "fsys \<Rightarrow> string \<Rightarrow> string \<Rightarrow> disk \<Rightarrow> bool" where
  "sound_disk fs path content d \<longleftrightarrow> (\<forall>st \<in> set ((d_fs d, d_dirty d) # d_past d). sound_image fs path content st)"

lemma sound_cut:
  assumes "sound_disk fs path content d" "q \<noteq> path @ ''.tmp''"
  shows "fs_files (after_cut n junk d) q = fs_files fs q \<or> q = path \<and> fs_files (after_cut n junk d) q = Some content"
proof -
  let ?st = "if n < length (d_past d) then d_past d ! n else (d_fs d, d_dirty d)"
  have "?st \<in> set ((d_fs d, d_dirty d) # d_past d)" by auto
  then have "sound_image fs path content ?st" using assms(1) unfolding sound_disk_def by blast
  then show ?thesis using assms(2) unfolding after_cut_def cut_off_def sound_image_def by auto
qed

lemma sound_calm: "sound_disk fs path content (calm fs)"
  by (simp add: sound_disk_def sound_image_def calm_def)

lemma sound_create: "sound_disk fs path c d \<Longrightarrow> sound_disk fs path c (d_create (path @ ''.tmp'') d)"
  by (auto simp: sound_disk_def sound_image_def d_create_def d_change_def)

lemma sound_write: "sound_disk fs path c d \<Longrightarrow> sound_disk fs path c (d_write (path @ ''.tmp'') s d)"
  by (auto simp: sound_disk_def sound_image_def d_write_def d_change_def)

lemma sound_fsync: "sound_disk fs path c d \<Longrightarrow> sound_disk fs path c (d_fsync p d)"
  by (auto simp: sound_disk_def sound_image_def d_fsync_def)

lemma sound_unlink: "sound_disk fs path c d \<Longrightarrow> sound_disk fs path c (d_unlink (path @ ''.tmp'') d)"
  by (auto simp: sound_disk_def sound_image_def d_unlink_def d_change_def unlink_def)

lemma sound_sync_dir: "sound_disk fs path c d \<Longrightarrow> sound_disk fs path c (d_sync_dir d)"
  by (simp add: sound_disk_def d_sync_dir_def)

text \<open>The rename is where it matters that all the bytes are on the card.\<close>

lemma sound_rename:
  assumes "sound_disk fs path c d" "path @ ''.tmp'' \<notin> set (d_dirty d)" "fs_files (d_fs d) (path @ ''.tmp'') = Some c"
  shows "sound_disk fs path c (d_rename (path @ ''.tmp'') path d)"
  using assms by (auto simp: sound_disk_def sound_image_def d_rename_def d_change_def)

lemmas sound_steps = sound_calm sound_create sound_write sound_fsync sound_unlink sound_sync_dir

text \<open>When every call succeeds, what is renamed is complete and on the card.\<close>

lemma written_out:
  assumes "length (take n content) = length content"
  shows "fs_files (d_fs (d_write p (drop k (take n content)) (d_write p (take k (take n content)) (d_create p d)))) p = Some content"
proof -
  have "take n content = content" using assms by simp
  then show ?thesis by (simp add: d_create_def d_write_def d_change_def)
qed

lemma fsync_clean: "p \<notin> set (d_dirty (d_fsync p d))" "fs_files (d_fs (d_fsync p d)) = fs_files (d_fs d)"
  by (simp_all add: d_fsync_def)

lemma d_write_Nil [simp]: "d_write p [] d = d"
  by (simp add: d_write_def)

lemma atomicWrite_sound:
  assumes "d \<in> set (fst (Lodor_atomicWrite wo fs path content))"
  shows "sound_disk fs path content d"
proof -
  let ?tmp = "path @ ''.tmp''" and ?t = "take (wo_fwrite wo) content"
  let ?d = "d_fsync ?tmp (d_write ?tmp (drop (wo_early wo) ?t) (d_write ?tmp (take (wo_early wo) ?t) (d_create ?tmp (calm fs))))"
  have "sound_disk fs path content (d_rename ?tmp path ?d)" if "length ?t = length content"
    using written_out [OF that, of ?tmp "wo_early wo" "calm fs"] fsync_clean [of ?tmp]
    by (intro sound_rename) (simp_all add: sound_steps)
  then show ?thesis
    using assms by (auto simp: Lodor_atomicWrite_def Let_def sound_steps split: if_splits prod.splits)
qed

lemma atomicWrite_states:
  assumes "d \<in> set (fst (Lodor_atomicWrite wo fs path content))" "q \<noteq> path @ ''.tmp''"
  shows "fs_files (after_cut n junk d) q = fs_files fs q \<or> q = path \<and> fs_files (after_cut n junk d) q = Some content"
  using sound_cut [OF atomicWrite_sound [OF assms(1)] assms(2)] .

lemma sound_live: "sound_disk fs path c d \<Longrightarrow> q \<noteq> path @ ''.tmp'' \<Longrightarrow>
    fs_files (d_fs d) q = fs_files fs q \<or> q = path \<and> fs_files (d_fs d) q = Some c"
  by (simp add: sound_disk_def sound_image_def)

lemma atomicWrite_final:
  assumes "Lodor_atomicWrite wo fs path content = (ss, ok)" "length path + 4 < MAX_PATH"
  shows "ss \<noteq> [] \<and> (ok \<longrightarrow> fs_files (live ss) path = Some content \<and> fs_files (live ss) (path @ ''.tmp'') = None)
    \<and> (\<not> ok \<longrightarrow> fs_files (live ss) path = fs_files fs path)"
proof -
  let ?tmp = "path @ ''.tmp''" and ?t = "take (wo_fwrite wo) content"
  let ?d = "d_write ?tmp (drop (wo_early wo) ?t) (d_write ?tmp (take (wo_early wo) ?t) (d_create ?tmp (calm fs)))"
  have new: "fs_files (d_fs ?d) ?tmp = Some content" if "length ?t = length content" using that by (rule written_out)
  show ?thesis
  proof (cases ok)
    case True
    then show ?thesis using assms new
      by (auto simp: Lodor_atomicWrite_def Let_def live_def d_rename_def d_change_def d_sync_dir_def fsync_clean
          split: if_splits)
  next
    case False
    then show ?thesis using assms
      by (auto simp: Lodor_atomicWrite_def Let_def live_def disk_defs split: if_splits)
  qed
qed

text \<open>What the running system sees of the other files.\<close>

lemma atomicWrite_frame:
  shows "fs_dirs (live (fst (Lodor_atomicWrite wo fs path c))) = fs_dirs fs"
    "q \<noteq> path \<Longrightarrow> q \<noteq> path @ ''.tmp'' \<Longrightarrow> fs_files (live (fst (Lodor_atomicWrite wo fs path c))) q = fs_files fs q"
proof -
  have "last (fst (Lodor_atomicWrite wo fs path c)) \<in> set (fst (Lodor_atomicWrite wo fs path c))"
    by (auto simp: Lodor_atomicWrite_def Let_def split: prod.splits)
  then show "q \<noteq> path \<Longrightarrow> q \<noteq> path @ ''.tmp'' \<Longrightarrow> fs_files (live (fst (Lodor_atomicWrite wo fs path c))) q = fs_files fs q"
    using sound_live [OF atomicWrite_sound, of _ wo fs path c q] unfolding live_def by blast
  show "fs_dirs (live (fst (Lodor_atomicWrite wo fs path c))) = fs_dirs fs"
    by (simp add: Lodor_atomicWrite_def Let_def live_def disk_defs)
qed

text \<open>Once the folder is on the card too, the new contents are there for good.\<close>

lemma atomicWrite_durable:
  assumes "Lodor_atomicWrite wo fs path content = (ss, True)" "CHR ''/'' \<in> set path" "wo_dirsync wo"
  shows "fs_files (after_cut n junk (last ss)) path = Some content"
proof -
  let ?tmp = "path @ ''.tmp''"
  let ?d = "d_write ?tmp (drop (wo_early wo) content) (d_write ?tmp (take (wo_early wo) content) (d_create ?tmp (calm fs)))"
  have "length (take (wo_fwrite wo) content) = length content"
    using assms(1) by (auto simp: Lodor_atomicWrite_def Let_def split: if_splits prod.splits)
  then have all: "take (wo_fwrite wo) content = content" by simp
  have ss: "last ss = d_sync_dir (d_rename ?tmp path (d_fsync ?tmp ?d))"
    using assms unfolding Lodor_atomicWrite_def Let_def all by (auto split: if_splits)
  have "fs_files (d_fs ?d) ?tmp = Some content" using written_out [of "length content" content ?tmp "wo_early wo" "calm fs"] by simp
  then have "fs_files (d_fs (last ss)) path = Some content"
    by (simp add: ss d_sync_dir_def d_rename_def d_change_def fsync_clean)
  moreover have "path \<notin> set (d_dirty (last ss))" by (auto simp: ss disk_defs)
  ultimately show ?thesis by (simp add: after_cut_def cut_off_def ss d_sync_dir_def)
qed

lemma sidecar_core_indep:
  "snd o1 = snd o2 \<Longrightarrow> snd (fold (sidecar_line p1 c) ls o1) = snd (fold (sidecar_line p2 c) ls o2)"
  by (induction ls arbitrary: o1 o2) (auto simp: sidecar_line_def Let_def split_beta)

lemma readEmuSidecar_core_indep:
  "Lodor_readEmuSidecar fs rom p1 c = Some (r, pak, core) \<Longrightarrow>
   \<exists>pak'. Lodor_readEmuSidecar fs rom p2 c = Some (r, pak', core)"
proof -
  assume a: "Lodor_readEmuSidecar fs rom p1 c = Some (r, pak, core)"
  obtain sc where sc: "Lodor_emuSidecarPath rom MAX_PATH = Some sc"
    using a by (auto simp: Lodor_readEmuSidecar_def elim: bind_Some_elim)
  show ?thesis
  proof (cases "sc = [] \<or> fs_files fs sc = None")
    case True
    then show ?thesis using a sc by (auto simp: Lodor_readEmuSidecar_def)
  next
    case False
    then obtain x where x: "fs_files fs sc = Some x" "sc \<noteq> []" by auto
    then show ?thesis
      using a sc sidecar_core_indep [of "([], [])" "([], [])" p1 c "fgets_all 256 x" p2]
      by (auto simp: Lodor_readEmuSidecar_def prod_eq_iff)
  qed
qed

definition wo_success :: "write_outcome \<Rightarrow> bool" where
  "wo_success wo \<longleftrightarrow> wo_fopen wo \<and> 512 \<le> wo_fwrite wo \<and> wo_fflush wo \<and> wo_fsync wo \<and> wo_fclose wo \<and> wo_rename wo"

lemma atomicWrite_ok:
  "wo_success wo \<Longrightarrow> length c \<le> 512 \<Longrightarrow> length path + 4 < MAX_PATH \<Longrightarrow>
   snd (Lodor_atomicWrite wo fs path c)"
  by (simp add: Lodor_atomicWrite_def wo_success_def Let_def)

lemma atomicWrite_result:
  "wo_success wo \<Longrightarrow> length c \<le> 512 \<Longrightarrow> length path + 4 < MAX_PATH \<Longrightarrow>
   fs_files (live (fst (Lodor_atomicWrite wo fs path c))) path = Some c"
  using atomicWrite_ok [of wo c path fs]
    atomicWrite_final [of wo fs path c "fst (Lodor_atomicWrite wo fs path c)" True]
  by (metis prod.collapse)

lemma marker_variants:
  assumes "Lodor_stripMarker f = f" "m \<in> set LODOR_MARKER_PREFS"
  shows "Lodor_stripMarker (m @ f) = f"
proof (cases "m = []")
  case True
  with assms(1) show ?thesis by simp
next
  case False
  with assms(2) show ?thesis
    by (auto simp: LODOR_MARKER_PREFS_def Lodor_stripMarker_def MARK_DEVICE_def MARK_CLOUD_def
        eval_nat_numeral)
qed

section \<open>Properties\<close>

text \<open>
  Whatever bytes the sidecar file holds, the pak name and core stem that a launch takes from
  it are empty or plain stems: at most 120 bytes, no slash, no control byte, no NUL, and at least
  one byte that is not a space. So an override can only name a component of the pak folders.
\<close>

theorem sidecar_values_validated:
  assumes "Lodor_readEmuSidecar fs rom 128 256 = Some (r, pak, core)" "v = pak \<or> v = core" "v \<noteq> []"
  shows "length v \<le> 120 \<and> CHR ''/'' \<notin> set v \<and> (\<forall>c \<in> set v. 32 \<le> byte c \<and> byte c \<noteq> 127)
    \<and> (\<exists>c \<in> set v. c \<noteq> CHR '' '')"
  using readEmuSidecar_valid [OF assms(1)] assms(2,3) by (auto simp: validStem_iff stem_char_def)

definition card_with :: "(string \<times> string) list \<Rightarrow> fsys" where
  "card_with fs = \<lparr>fs_files = map_of fs, fs_dirs = \<lambda>_. None, fs_writable = \<lambda>_. True\<rparr>"

theorem sidecar_values_validated_witness:
  "length ''MGBA'' \<le> 120 \<and> CHR ''/'' \<notin> set ''MGBA'' \<and> (\<exists>c \<in> set ''MGBA''. c \<noteq> CHR '' '')"
proof -
  have "Lodor_readEmuSidecar
      (card_with [(''/mnt/SDCARD/.userdata/shared/.minui/GBA/a.gba.emu.txt'', ''pak=../x'' @ [NL] @ ''pak=MGBA'' @ [CR, NL])])
      ''/mnt/SDCARD/Roms/GBA (GBA)/a.gba'' 128 256 = Some (True, ''MGBA'', [])"
    by code_simp
  from sidecar_values_validated [OF this] show ?thesis by simp
qed

text \<open>
  Choosing an emulator for a game is read back exactly: after a successful
  Lodor_writeEmuSidecar with a valid pak name, the reader returns that name and the core= value
  that was there before.
\<close>

theorem sidecar_roundtrip:
  assumes "wo_success wo" "Lodor_validStem pak"
    and "Lodor_emuSidecarPath rom MAX_PATH = Some sc" "sc \<noteq> []" "length sc + 4 < MAX_PATH"
    and "Lodor_readEmuSidecar fs rom 128 256 = Some (r, old, core)"
  shows "\<exists>fs'. Lodor_writeEmuSidecar wo fs rom (Some pak) = Some fs'
    \<and> Lodor_readEmuSidecar fs' rom 128 256 = Some (True, pak, core)"
proof -
  have core: "core = [] \<or> Lodor_validStem core" using readEmuSidecar_valid [OF assms(6)] by simp
  obtain old' where rd: "Lodor_readEmuSidecar fs rom 0 256 = Some (r, old', core)"
    using readEmuSidecar_core_indep [OF assms(6)] by blast
  let ?l1 = "''pak='' @ pak @ [NL]" and ?l2 = "if core = [] then [] else ''core='' @ core @ [NL]"
  let ?fs' = "live (fst (Lodor_atomicWrite wo fs sc (?l1 @ ?l2)))"
  have len: "length ?l1 \<le> 125" "length ?l2 \<le> 126" "pak \<noteq> []"
    using assms(2) core by (auto simp: validStem_iff)
  have wr: "Lodor_writeEmuSidecar wo fs rom (Some pak) = Some ?fs'"
    using assms(3,4) rd len by (cases pak) (auto simp: Lodor_writeEmuSidecar_def Let_def)
  have "fs_files ?fs' sc = Some (?l1 @ ?l2)"
    by (rule atomicWrite_result [OF assms(1) _ assms(5)]) (use len in simp)
  moreover have "fold (sidecar_line 128 256) (fgets_all 256 (?l1 @ ?l2)) ([], []) = (pak, core)"
    using sidecar_body_parsed [OF assms(2) core, of 128 256] by simp
  ultimately have "Lodor_readEmuSidecar ?fs' rom 128 256 = Some (True, pak, core)"
    using assms(3,4) by (simp add: Lodor_readEmuSidecar_def)
  with wr show ?thesis by blast
qed

definition all_ok :: write_outcome where
  "all_ok = \<lparr>wo_fopen = True, wo_fwrite = 512, wo_early = 0, wo_fflush = True, wo_fsync = True,
     wo_fclose = True, wo_rename = True, wo_dirsync = True\<rparr>"

theorem sidecar_roundtrip_witness:
  "\<exists>fs'. Lodor_writeEmuSidecar all_ok
      (card_with [(''/mnt/SDCARD/.userdata/shared/.minui/GBA/a.gba.emu.txt'', ''core=gpsp'')])
      ''/mnt/SDCARD/Roms/GBA (GBA)/a.gba'' (Some ''MGBA'') = Some fs'
    \<and> Lodor_readEmuSidecar fs' ''/mnt/SDCARD/Roms/GBA (GBA)/a.gba'' 128 256 = Some (True, ''MGBA'', ''gpsp'')"
  by (rule sidecar_roundtrip [of _ _ _ "''/mnt/SDCARD/.userdata/shared/.minui/GBA/a.gba.emu.txt''" _ True "[]"])
     code_simp+

text \<open>
  C5. Lodor_atomicWrite is safe against a power cut and against every failing system call. Wherever
  the power is cut, and whatever of the cached bytes and of the last changes of the folder had reached
  the card, every file other than the temporary one has its old contents, except that the target may
  already have all of the new ones. On success the target holds the new contents and the temporary
  file is gone, on failure the target is unchanged; and when the folder could be synchronised a
  success is final: no later power cut takes it back.
\<close>

theorem atomicWrite_never_torn:
  assumes "Lodor_atomicWrite wo fs path content = (ss, ok)" "length path + 4 < MAX_PATH"
  shows "(\<forall>d \<in> set ss. \<forall>n junk q. q \<noteq> path @ ''.tmp'' \<longrightarrow>
        fs_files (after_cut n junk d) q = fs_files fs q \<or> q = path \<and> fs_files (after_cut n junk d) q = Some content)
    \<and> (ok \<longrightarrow> fs_files (live ss) path = Some content \<and> fs_files (live ss) (path @ ''.tmp'') = None)
    \<and> (\<not> ok \<longrightarrow> fs_files (live ss) path = fs_files fs path)
    \<and> (ok \<and> CHR ''/'' \<in> set path \<and> wo_dirsync wo
        \<longrightarrow> (\<forall>n junk. fs_files (after_cut n junk (last ss)) path = Some content))"
proof (intro conjI)
  show "\<forall>d \<in> set ss. \<forall>n junk q. q \<noteq> path @ ''.tmp'' \<longrightarrow>
        fs_files (after_cut n junk d) q = fs_files fs q \<or> q = path \<and> fs_files (after_cut n junk d) q = Some content"
    using atomicWrite_states [of _ wo fs path content] unfolding assms(1) fst_conv by blast
  show "ok \<and> CHR ''/'' \<in> set path \<and> wo_dirsync wo \<longrightarrow> (\<forall>n junk. fs_files (after_cut n junk (last ss)) path = Some content)"
    using atomicWrite_durable [of wo fs path content ss] assms(1) by simp
qed (use atomicWrite_final [OF assms] in simp_all)

theorem atomicWrite_never_torn_witness:
  "fs_files (live (fst (Lodor_atomicWrite (all_ok\<lparr>wo_fsync := False\<rparr>) (card_with [(''/a'', ''old'')])
     ''/a'' ''new''))) ''/a'' = Some ''old''
   \<and> fs_files (after_cut 2 (\<lambda>_. Some ''n'') (last (fst (Lodor_atomicWrite all_ok (card_with [(''/a'', ''old'')]) ''/a'' ''new''))))
     ''/a'' = Some ''new''"
proof -
  let ?r = "Lodor_atomicWrite (all_ok\<lparr>wo_fsync := False\<rparr>) (card_with [(''/a'', ''old'')]) ''/a'' ''new''"
  let ?s = "Lodor_atomicWrite all_ok (card_with [(''/a'', ''old'')]) ''/a'' ''new''"
  have "?r = (fst ?r, False)" "?s = (fst ?s, True)" by (simp_all add: Lodor_atomicWrite_def all_ok_def Let_def MAX_PATH_def)
  from this [THEN atomicWrite_never_torn] show ?thesis by (simp add: card_with_def MAX_PATH_def all_ok_def)
qed

text \<open>
  The synchronisation is what it takes: a card whose file is renamed with its bytes in the cache
  can be left with anything under the target.
\<close>

lemma unsynced_rename_torn:
  "fs_files (after_cut 9 (\<lambda>_. Some ''ne'')
     (d_rename ''/a.tmp'' ''/a'' (d_write ''/a.tmp'' ''new'' (d_create ''/a.tmp'' (calm (card_with [(''/a'', ''old'')])))))) ''/a''
   = Some ''ne''"
  by (simp add: disk_defs after_cut_def cut_off_def)

text \<open>
  The sidecar of a game survives its marker flips: below a console folder, every marker
  variant of a file name has the same sidecar path.
\<close>

theorem sidecar_path_marker_agnostic:
  assumes "CHR ''/'' \<notin> set nm" "CHR ''/'' \<notin> set tag" "CHR ''('' \<notin> set tag" "CHR '')'' \<notin> set tag"
    and "CHR ''/'' \<notin> set f" "Lodor_stripMarker f = f" "f \<noteq> []" "m \<in> set LODOR_MARKER_PREFS"
    and "length (ROMS_PATH @ ''/'' @ nm @ ''('' @ tag @ '')/'' @ m @ f) < MAX_PATH"
  shows "Lodor_emuSidecarPath (ROMS_PATH @ ''/'' @ nm @ ''('' @ tag @ '')/'' @ m @ f) n
    = Lodor_emuSidecarPath (ROMS_PATH @ ''/'' @ nm @ ''('' @ tag @ '')/'' @ f) n"
proof -
  let ?d = "ROMS_PATH @ CHR ''/'' # nm @ CHR ''('' # tag @ CHR '')'' # []"
  have m: "CHR ''/'' \<notin> set m" using assms(8)
    by (auto simp: LODOR_MARKER_PREFS_def MARK_DEVICE_def MARK_CLOUD_def)
  have tag: "Lodor_romTag (?d @ CHR ''/'' # g) = Some tag" if "length g \<le> length (m @ f)" for g
    using folder_tag [of nm tag "[]" g MAX_PATH] assms that by (simp add: Lodor_romTag_def)
  have slash: "strrchr (?d @ CHR ''/'' # g) (CHR ''/'') = Some (length ?d)" if "CHR ''/'' \<notin> set g" for g
    by (rule strrchr_append [OF that])
  have "Lodor_emuSidecarPath (?d @ CHR ''/'' # m @ f) n = Lodor_emuSidecarPath (?d @ CHR ''/'' # f) n"
    unfolding Lodor_emuSidecarPath_def
    using m assms(5-8) tag [of "m @ f"] tag [of f] slash [of "m @ f"] slash [of f]
    by (simp add: marker_variants [OF assms(6,8)] del: append_assoc)
  then show ?thesis by simp
qed

theorem sidecar_path_marker_agnostic_witness:
  "Lodor_emuSidecarPath (ROMS_PATH @ ''/'' @ ''Game Boy '' @ ''('' @ ''GB'' @ '')/'' @ MARK_CLOUD @ ''a.gb'') 512
    = Lodor_emuSidecarPath (ROMS_PATH @ ''/'' @ ''Game Boy '' @ ''('' @ ''GB'' @ '')/'' @ ''a.gb'') 512"
  by (rule sidecar_path_marker_agnostic) code_simp+

text \<open>
  Lodor_resolveMarkedPath finds a game under whatever marker it now carries: the result
  exists and is the recorded path or a marker variant of it in the same folder, and whenever some
  marker variant exists, one is found.
\<close>

theorem resolveMarkedPath_spec:
  assumes "CHR ''/'' \<notin> set f" "Lodor_stripMarker f = g" "length dir < MAX_PATH"
    and "length dir + 5 + length f < MAX_PATH"
  shows "(\<forall>p. Lodor_resolveMarkedPath fs (dir @ ''/'' @ f) = Some p \<longrightarrow>
        exists fs p \<and> (p = dir @ ''/'' @ f \<or> (\<exists>m \<in> set LODOR_MARKER_PREFS. p = dir @ ''/'' @ m @ g)))
    \<and> ((\<exists>m \<in> set LODOR_MARKER_PREFS. exists fs (dir @ ''/'' @ m @ g)) \<longrightarrow>
        Lodor_resolveMarkedPath fs (dir @ ''/'' @ f) \<noteq> None)"
proof -
  have slash: "strrchr (dir @ CHR ''/'' # f) (CHR ''/'') = Some (length dir)"
    by (rule strrchr_append [OF assms(1)])
  have "length g \<le> length f"
    using assms(2) by (auto simp: Lodor_stripMarker_def split: option.splits)
  then have g: "c_trunc MAX_PATH g = g" "\<forall>m \<in> set LODOR_MARKER_PREFS. length (dir @ ''/'' @ m @ g) < MAX_PATH"
    using assms(4) by (auto simp: c_trunc_def LODOR_MARKER_PREFS_def MARK_DEVICE_def MARK_CLOUD_def)
  have eq: "Lodor_resolveMarkedPath fs (dir @ ''/'' @ f) =
      (if exists fs (dir @ ''/'' @ f) then Some (dir @ ''/'' @ f)
       else find (\<lambda>cand. length cand < MAX_PATH \<and> exists fs cand)
              (map (\<lambda>m. dir @ ''/'' @ m @ g) LODOR_MARKER_PREFS))"
    using slash assms(2,3) g(1) by (simp add: Lodor_resolveMarkedPath_def Let_def)
  let ?find = "find (\<lambda>cand. length cand < MAX_PATH \<and> exists fs cand)
      (map (\<lambda>m. dir @ ''/'' @ m @ g) LODOR_MARKER_PREFS)"
  have some: "?find = Some p \<Longrightarrow> exists fs p \<and> (\<exists>m \<in> set LODOR_MARKER_PREFS. p = dir @ ''/'' @ m @ g)" for p
    by (auto simp: find_Some_iff)
  have none: "?find = None \<Longrightarrow> m \<in> set LODOR_MARKER_PREFS \<Longrightarrow> \<not> exists fs (dir @ ''/'' @ m @ g)" for m
    using g(2) by (auto simp: find_None_iff)
  show ?thesis unfolding eq using some none by (auto split: if_splits)
qed

theorem resolveMarkedPath_spec_witness:
  "Lodor_resolveMarkedPath (card_with [(''/r/'' @ MARK_DEVICE @ ''a.gb'', ''x'')]) (''/r'' @ ''/'' @ MARK_CLOUD @ ''a.gb'') \<noteq> None"
  using resolveMarkedPath_spec [of "MARK_CLOUD @ ''a.gb''" "''a.gb''" "''/r''" "card_with [(''/r/'' @ MARK_DEVICE @ ''a.gb'', ''x'')]"]
  by (simp add: MARK_CLOUD_def MARK_DEVICE_def Lodor_stripMarker_def MAX_PATH_def card_with_def exists_def
      LODOR_MARKER_PREFS_def eval_nat_numeral)

end
