(* ===== verification/Recents.thy ===== *)
theory Recents
  imports Override
begin

text \<open>
  The launcher's state and its recently played list (workspace/all/minui/minui.c): Recent_new,
  addRecent and its bump to the top, saveRecents, and hasRecents, which reads the list back with
  the disc-change and multi-disc rules.
\<close>

section \<open>State\<close>

record recent =
  r_path :: string
  r_alias :: "string option"
  r_available :: bool

text \<open>
  The globals of minui.c that the launch and navigation code keeps. The pointer top always is the
  last directory of stack (openDirectory pushes the directory it assigns to top, closeDirectory
  reads top back from the stack), NULL while the stack is empty; so it is not a field.
\<close>

record minui =
  m_fs :: fsys
  m_stack :: "directory list"
  m_recents :: "recent list"
  m_quit :: bool
  m_can_resume :: bool
  m_should_resume :: bool
  m_simple_mode :: bool
  m_slot_path :: string
  m_restore_depth :: int
  m_restore_relative :: int
  m_restore_selected :: int
  m_restore_start :: int
  m_restore_end :: int
  m_recent_alias :: "string option"
  m_core_override :: string
  m_is_560p :: bool

definition m_top :: "minui \<Rightarrow> directory option" where
  "m_top m = (if m_stack m = [] then None else Some (last (m_stack m)))"

definition set_top :: "minui \<Rightarrow> directory \<Rightarrow> minui" where
  "set_top m d = m\<lparr>m_stack := butlast (m_stack m) @ [d]\<rparr>"

definition init_minui :: "fsys \<Rightarrow> minui" where
  "init_minui fs = \<lparr>m_fs = fs, m_stack = [], m_recents = [], m_quit = False, m_can_resume = False,
     m_should_resume = False, m_simple_mode = False, m_slot_path = [], m_restore_depth = -1,
     m_restore_relative = -1, m_restore_selected = 0, m_restore_start = 0, m_restore_end = 0,
     m_recent_alias = None, m_core_override = [], m_is_560p = False\<rparr>"

section \<open>Recent\<close>

text \<open>Looking up the emulator leaves its core stem in lodor_core_override.\<close>

definition Recent_new :: "fsys \<Rightarrow> string \<Rightarrow> string option \<Rightarrow> (recent \<times> string) option" where
  "Recent_new fs path alias = do {
     sd_path \<leftarrow> c_buf 256 (SDCARD_PATH @ path);
     (available, core) \<leftarrow> Lodor_hasEmuFor fs sd_path;
     Some (\<lparr>r_path = path, r_alias = alias, r_available = available\<rparr>, core)
   }"

definition RecentArray_indexOf :: "recent list \<Rightarrow> string \<Rightarrow> int" where
  "RecentArray_indexOf self str =
     (case find (\<lambda>i. exactMatch (Some (r_path (self ! i))) (Some str)) [0 ..< length self] of
        Some i \<Rightarrow> int i
      | None \<Rightarrow> -1)"

definition MAX_RECENTS :: nat where
  "MAX_RECENTS = 24"

definition recent_line :: "recent \<Rightarrow> string" where
  "recent_line r = r_path r @ (case r_alias r of None \<Rightarrow> [] | Some a \<Rightarrow> TAB # a) @ [NL]"

definition saveRecents :: "minui \<Rightarrow> minui" where
  "saveRecents m = m\<lparr>m_fs := putFile (m_fs m) RECENT_PATH (concat (map recent_line (m_recents m)))\<rparr>"

text \<open>The loop that swaps entry i with its left neighbour until it is on top.\<close>

fun bump_to_top :: "nat \<Rightarrow> 'a list \<Rightarrow> 'a list" where
  "bump_to_top 0 xs = xs"
| "bump_to_top (Suc i) xs = bump_to_top i (xs[i := xs ! Suc i, Suc i := xs ! i])"

text \<open>Popping while the list is full.\<close>

function drop_oldest :: "'a list \<Rightarrow> 'a list" where
  "drop_oldest xs = (if MAX_RECENTS \<le> length xs then drop_oldest (butlast xs) else xs)"
  by pat_completeness auto
termination
  by (relation "measure length") (auto simp: MAX_RECENTS_def)

declare drop_oldest.simps [simp del]

definition addRecent :: "minui \<Rightarrow> string \<Rightarrow> string option \<Rightarrow> minui option" where
  "addRecent m path alias = do {
     c_ok (length SDCARD_PATH \<le> length path);
     let path = drop (length SDCARD_PATH) path;
     let i = RecentArray_indexOf (m_recents m) path;
     m \<leftarrow>
       (if i = -1 then do {
          let rest = drop_oldest (m_recents m);
          (r, core) \<leftarrow> Recent_new (m_fs m) path alias;
          Some (m\<lparr>m_recents := r # rest, m_core_override := core\<rparr>)
        }
        else Some (m\<lparr>m_recents := bump_to_top (nat i) (m_recents m)\<rparr>));
     Some (saveRecents m)
   }"

section \<open>Emulators, cue sheets and playlists\<close>

definition hasEmu :: "fsys \<Rightarrow> string \<Rightarrow> bool option" where
  "hasEmu fs emu_name = do {
     pak_path \<leftarrow> c_buf 256 (PAKS_PATH @ ''/Emus/'' @ emu_name @ ''.pak/launch.sh'');
     (if exists fs pak_path then Some True
      else do {
        pak_path \<leftarrow> c_buf 256 (SDCARD_PATH @ ''/Emus/'' @ PLATFORM @ ''/'' @ emu_name @ ''.pak/launch.sh'');
        Some (exists fs pak_path)
      })
   }"

text \<open>Both fill the caller's path buffer and say whether that file exists.\<close>

definition hasCue :: "fsys \<Rightarrow> string \<Rightarrow> (bool \<times> string) option" where
  "hasCue fs dpath = do {
     tmp \<leftarrow> file_name dpath;
     cue_path \<leftarrow> c_buf 256 (dpath @ ''/'' @ tmp @ ''.cue'');
     Some (exists fs cue_path, cue_path)
   }"

definition hasM3u :: "fsys \<Rightarrow> string \<Rightarrow> (bool \<times> string) option" where
  "hasM3u fs rom_path = do {
     m3u_path \<leftarrow> c_buf 256 rom_path;
     i \<leftarrow> strrchr m3u_path (CHR ''/'');
     let m3u_path = take i m3u_path;
     j \<leftarrow> strrchr m3u_path (CHR ''/'');
     let dir_name = drop j m3u_path;
     m3u_path \<leftarrow> c_buf 256 (m3u_path @ dir_name @ ''.m3u'');
     Some (exists fs m3u_path, m3u_path)
   }"

section \<open>Reading the list back\<close>

text \<open>A path up to and with its last slash.\<close>

definition parent_of :: "string \<Rightarrow> string option" where
  "parent_of path = map_option (\<lambda>i. take (Suc i) path) (strrchr path (CHR ''/''))"

text \<open>One line of recent.txt; the accumulator is the state, parent_paths and the count has.\<close>

definition recents_line :: "string \<Rightarrow> minui \<times> string list \<times> int \<Rightarrow> (minui \<times> string list \<times> int) option" where
  "recents_line line acc =
     (case acc of (m, parent_paths, has) \<Rightarrow> do {
        let (path, alias) = (case strchr line TAB of
                               Some i \<Rightarrow> (take i line, Some (drop (Suc i) line))
                             | None \<Rightarrow> (line, None));
        sd_path \<leftarrow> c_buf 256 (SDCARD_PATH @ path);
        (if exists (m_fs m) sd_path \<and> length (m_recents m) < MAX_RECENTS then do {
           (has_m3u, _) \<leftarrow> hasM3u (m_fs m) sd_path;
           parent \<leftarrow> (if has_m3u then map_option Some (parent_of path) else Some None);
           (case parent of
              Some parent_path \<Rightarrow>
                if list_ex (\<lambda>p. prefixMatch p parent_path) parent_paths then Some (m, parent_paths, has)
                else do {
                  (r, core) \<leftarrow> Recent_new (m_fs m) path alias;
                  Some (m\<lparr>m_recents := m_recents m @ [r], m_core_override := core\<rparr>,
                        parent_paths @ [parent_path], has + (if r_available r then 1 else 0))
                }
            | None \<Rightarrow> do {
                (r, core) \<leftarrow> Recent_new (m_fs m) path alias;
                Some (m\<lparr>m_recents := m_recents m @ [r], m_core_override := core\<rparr>,
                      parent_paths, has + (if r_available r then 1 else 0))
              })
         }
         else Some (m, parent_paths, has))
      })"

text \<open>The disc that was just swapped in counts as the most recent one.\<close>

definition recents_disc :: "minui \<Rightarrow> (minui \<times> string list \<times> int) option" where
  "recents_disc m =
     (if exists (m_fs m) CHANGE_DISC_PATH then do {
        sd_path \<leftarrow> getFile (m_fs m) CHANGE_DISC_PATH 256;
        (m, parent_paths, has) \<leftarrow>
          (if exists (m_fs m) sd_path then do {
             c_ok (length SDCARD_PATH \<le> length sd_path);
             let disc_path = drop (length SDCARD_PATH) sd_path;
             (r, core) \<leftarrow> Recent_new (m_fs m) disc_path None;
             parent_path \<leftarrow> parent_of disc_path;
             Some (m\<lparr>m_recents := m_recents m @ [r], m_core_override := core\<rparr>, [parent_path],
                   if r_available r then 1 else 0)
           }
           else Some (m, [], 0));
        Some (m\<lparr>m_fs := unlink (m_fs m) CHANGE_DISC_PATH\<rparr>, parent_paths, has)
      }
      else Some (m, [], 0))"

definition hasRecents :: "minui \<Rightarrow> (bool \<times> minui) option" where
  "hasRecents m = do {
     (m, parent_paths, has) \<leftarrow> recents_disc m;
     (m, parent_paths, has) \<leftarrow>
       (case fs_files (m_fs m) RECENT_PATH of
          None \<Rightarrow> Some (m, parent_paths, has)
        | Some contents \<Rightarrow>
            fold_opt recents_line (read_lines 256 contents) (m, parent_paths, has));
     Some (0 < has, saveRecents m)
   }"

section \<open>Lemmas\<close>

lemma bump_to_top_eq:
  "i < length xs \<Longrightarrow> bump_to_top i xs = xs ! i # take i xs @ drop (Suc i) xs"
proof (induction i arbitrary: xs)
  case 0
  then show ?case by (simp add: Cons_nth_drop_Suc)
next
  case (Suc i)
  let ?ys = "xs[i := xs ! Suc i, Suc i := xs ! i]"
  have "take (Suc i) xs = take i xs @ [xs ! i]" using Suc.prems by (simp add: take_Suc_conv_app_nth)
  moreover have "drop (Suc i) ?ys = xs ! i # drop (Suc (Suc i)) xs"
  proof -
    have "Suc i < length ?ys" using Suc.prems by simp
    then have "drop (Suc i) ?ys = ?ys ! Suc i # drop (Suc (Suc i)) ?ys" by (rule Cons_nth_drop_Suc [symmetric])
    then show ?thesis using Suc.prems by simp
  qed
  ultimately show ?case using Suc.IH [of ?ys] Suc.prems by simp
qed

lemma drop_oldest_eq: "drop_oldest xs = take 23 xs"
proof (induction xs rule: drop_oldest.induct)
  case (1 xs)
  then show ?case
    by (subst drop_oldest.simps) (auto simp: MAX_RECENTS_def butlast_conv_take min_def)
qed

lemma RecentArray_indexOf_None:
  "RecentArray_indexOf rs p = -1 \<longleftrightarrow> p \<notin> r_path ` set rs"
proof -
  have "p \<in> r_path ` set rs \<longleftrightarrow> (\<exists>i < length rs. r_path (rs ! i) = p)"
    by (metis image_iff in_set_conv_nth)
  moreover have "find (\<lambda>i. exactMatch (Some (r_path (rs ! i))) (Some p)) [0 ..< length rs] = None
      \<longleftrightarrow> \<not> (\<exists>i < length rs. r_path (rs ! i) = p)"
    unfolding find_None_iff by auto
  ultimately show ?thesis
    unfolding RecentArray_indexOf_def by (auto split: option.split)
qed

lemma RecentArray_indexOf_Some:
  "p \<in> r_path ` set rs \<Longrightarrow> \<exists>i < length rs. RecentArray_indexOf rs p = int i \<and> r_path (rs ! i) = p"
  using RecentArray_indexOf_None [of rs p]
  by (auto simp: RecentArray_indexOf_def find_Some_iff split: option.splits)

text \<open>What the list holds: distinct paths, at most MAX_RECENTS of them.\<close>

definition recents_ok :: "recent list \<Rightarrow> bool" where
  "recents_ok rs \<longleftrightarrow> distinct (map r_path rs) \<and> length rs \<le> MAX_RECENTS"

lemma distinct_remove_nth:
  assumes "distinct (map f xs)" "i < length xs"
  shows "take i xs @ drop (Suc i) xs = filter (\<lambda>x. f x \<noteq> f (xs ! i)) xs"
proof -
  have xs: "xs = take i xs @ xs ! i # drop (Suc i) xs" using assms(2) by (rule id_take_nth_drop)
  have "distinct (map f (take i xs) @ f (xs ! i) # map f (drop (Suc i) xs))"
    using assms(1) by (metis xs list.simps(9) map_append)
  then have "f (xs ! i) \<notin> f ` set (take i xs)" "f (xs ! i) \<notin> f ` set (drop (Suc i) xs)" by auto
  then have "filter (\<lambda>x. f x \<noteq> f (xs ! i)) (take i xs) = take i xs"
    and "filter (\<lambda>x. f x \<noteq> f (xs ! i)) (drop (Suc i) xs) = drop (Suc i) xs"
    unfolding filter_id_conv by (metis imageI)+
  then have "filter (\<lambda>x. f x \<noteq> f (xs ! i)) (take i xs @ xs ! i # drop (Suc i) xs)
    = take i xs @ drop (Suc i) xs" by simp
  with xs show ?thesis by simp
qed

lemma addRecent_cases:
  assumes "addRecent m path alias = Some m'"
  shows "length SDCARD_PATH \<le> length path \<and>
    (if drop (length SDCARD_PATH) path \<in> r_path ` set (m_recents m)
     then \<exists>i < length (m_recents m). r_path (m_recents m ! i) = drop (length SDCARD_PATH) path
        \<and> m' = saveRecents (m\<lparr>m_recents := bump_to_top i (m_recents m)\<rparr>)
     else \<exists>r core. Recent_new (m_fs m) (drop (length SDCARD_PATH) path) alias = Some (r, core)
        \<and> m' = saveRecents (m\<lparr>m_recents := r # take 23 (m_recents m), m_core_override := core\<rparr>))"
proof -
  let ?p = "drop (length SDCARD_PATH) path"
  show ?thesis
  proof (cases "?p \<in> r_path ` set (m_recents m)")
    case True
    from RecentArray_indexOf_Some [OF True] obtain i where
      i: "i < length (m_recents m)" "RecentArray_indexOf (m_recents m) ?p = int i" "r_path (m_recents m ! i) = ?p"
      by blast
    then show ?thesis using assms True by (auto simp: addRecent_def Let_def split: if_splits)
  next
    case False
    then have "RecentArray_indexOf (m_recents m) ?p = -1" by (simp add: RecentArray_indexOf_None)
    then show ?thesis using assms False
      by (auto simp: addRecent_def Let_def drop_oldest_eq elim!: bind_Some_elim split: if_splits)
  qed
qed

lemma Recent_new_path: "Recent_new fs p a = Some (r, core) \<Longrightarrow> r_path r = p \<and> r_alias r = a"
  by (auto simp: Recent_new_def elim!: bind_Some_elim split: if_splits)

lemma saveRecents_simps [simp]:
  "m_recents (saveRecents m) = m_recents m" "m_stack (saveRecents m) = m_stack m"
  "m_core_override (saveRecents m) = m_core_override m" "m_quit (saveRecents m) = m_quit m"
  "m_slot_path (saveRecents m) = m_slot_path m" "m_should_resume (saveRecents m) = m_should_resume m"
  "fs_files (m_fs (saveRecents m)) RECENT_PATH =
     (if fs_writable (m_fs m) RECENT_PATH then Some (concat (map recent_line (m_recents m)))
      else fs_files (m_fs m) RECENT_PATH)"
  by (simp_all add: saveRecents_def fstore.rd_wr)

section \<open>Reading back\<close>

text \<open>A recent that saveRecents can write so that hasRecents reads it, on the given card.\<close>

definition recent_readable :: "fsys \<Rightarrow> recent \<Rightarrow> bool" where
  "recent_readable fs r \<longleftrightarrow>
     TAB \<notin> set (r_path r) \<and> line_ok 256 (r_path r @ (case r_alias r of None \<Rightarrow> [] | Some a \<Rightarrow> TAB # a))
     \<and> r_path r \<noteq> [] \<and> length (SDCARD_PATH @ r_path r) < 256 \<and> exists fs (SDCARD_PATH @ r_path r)
     \<and> (\<exists>p. hasM3u fs (SDCARD_PATH @ r_path r) = Some (False, p))
     \<and> (\<exists>core. Recent_new fs (r_path r) (r_alias r) = Some (r, core))"

lemma recent_line_split:
  assumes "TAB \<notin> set p"
  shows "(case strchr (p @ (case a of None \<Rightarrow> [] | Some a \<Rightarrow> TAB # a)) TAB of
      Some i \<Rightarrow> (take i (p @ (case a of None \<Rightarrow> [] | Some a \<Rightarrow> TAB # a)),
                 Some (drop (Suc i) (p @ (case a of None \<Rightarrow> [] | Some a \<Rightarrow> TAB # a))))
    | None \<Rightarrow> (p @ (case a of None \<Rightarrow> [] | Some a \<Rightarrow> TAB # a), None)) = (p, a)"
  using assms by (cases a) (simp_all add: strchr_append)

lemma recents_line_readable:
  assumes "recent_readable (m_fs m) r" "length (m_recents m) < MAX_RECENTS"
  shows "\<exists>core has'. recents_line (r_path r @ (case r_alias r of None \<Rightarrow> [] | Some a \<Rightarrow> TAB # a)) (m, pp, has)
    = Some (m\<lparr>m_recents := m_recents m @ [r], m_core_override := core\<rparr>, pp, has')"
proof -
  let ?line = "r_path r @ (case r_alias r of None \<Rightarrow> [] | Some a \<Rightarrow> TAB # a)"
  have sp: "(case strchr ?line TAB of Some i \<Rightarrow> (take i ?line, Some (drop (Suc i) ?line)) | None \<Rightarrow> (?line, None))
      = (r_path r, r_alias r)"
    using assms(1) by (intro recent_line_split) (simp add: recent_readable_def)
  show ?thesis
    using assms unfolding recents_line_def prod.case sp
    by (auto simp: recent_readable_def)
qed

lemma recents_fold_readable:
  assumes "\<forall>r \<in> set rs. recent_readable (m_fs m) r" "length (m_recents m) + length rs \<le> MAX_RECENTS"
  shows "\<exists>m' has'. fold_opt recents_line
      (map (\<lambda>r. r_path r @ (case r_alias r of None \<Rightarrow> [] | Some a \<Rightarrow> TAB # a)) rs) (m, pp, has) = Some (m', pp, has')
    \<and> m_recents m' = m_recents m @ rs \<and> m_fs m' = m_fs m"
  using assms
proof (induction rs arbitrary: m has)
  case Nil
  then show ?case by simp
next
  case (Cons r rs)
  then obtain core has2 where
    step: "recents_line (r_path r @ (case r_alias r of None \<Rightarrow> [] | Some a \<Rightarrow> TAB # a)) (m, pp, has)
      = Some (m\<lparr>m_recents := m_recents m @ [r], m_core_override := core\<rparr>, pp, has2)"
    using recents_line_readable [of m r pp has] by auto
  have "\<exists>m' has'. fold_opt recents_line
      (map (\<lambda>r. r_path r @ (case r_alias r of None \<Rightarrow> [] | Some a \<Rightarrow> TAB # a)) rs)
      (m\<lparr>m_recents := m_recents m @ [r], m_core_override := core\<rparr>, pp, has2) = Some (m', pp, has')
    \<and> m_recents m' = m_recents m @ r # rs \<and> m_fs m' = m_fs m"
    using Cons.IH [of "m\<lparr>m_recents := m_recents m @ [r], m_core_override := core\<rparr>" has2] Cons.prems by simp
  with step show ?case by simp
qed

lemma read_lines_saved:
  assumes "\<forall>r \<in> set rs. recent_readable fs r"
  shows "read_lines 256 (concat (map recent_line rs))
    = map (\<lambda>r. r_path r @ (case r_alias r of None \<Rightarrow> [] | Some a \<Rightarrow> TAB # a)) rs"
proof -
  let ?f = "\<lambda>r. r_path r @ (case r_alias r of None \<Rightarrow> [] | Some a \<Rightarrow> TAB # a)"
  have "concat (map recent_line rs) = concat (map (\<lambda>l. l @ [NL]) (map ?f rs))"
    by (simp add: comp_def recent_line_def [abs_def])
  moreover have "\<forall>l \<in> set (map ?f rs). line_ok 256 l" "\<forall>l \<in> set (map ?f rs). l \<noteq> []"
    using assms by (auto simp: recent_readable_def)
  ultimately show ?thesis
    using read_lines_written [of "map ?f rs" 256] by (simp add: filter_id_conv)
qed

section \<open>Properties\<close>

text \<open>
  C7. addRecent is move-to-front with a bound: an entry already in the list goes to the top and
  the others keep their order, a new one is put on top and only the oldest beyond 24 goes; the
  list keeps distinct paths and its bound, and recent.txt holds exactly the new list.
\<close>

theorem addRecent_move_to_front:
  assumes "addRecent m path alias = Some m'" "recents_ok (m_recents m)"
    and "fs_writable (m_fs m) RECENT_PATH" "p = drop (length SDCARD_PATH) path"
  shows "(if p \<in> r_path ` set (m_recents m)
      then \<exists>r \<in> set (m_recents m). r_path r = p \<and> m_recents m' = r # filter (\<lambda>q. r_path q \<noteq> p) (m_recents m)
      else \<exists>r. r_path r = p \<and> r_alias r = alias \<and> m_recents m' = r # take 23 (m_recents m))
    \<and> recents_ok (m_recents m')
    \<and> fs_files (m_fs m') RECENT_PATH = Some (concat (map recent_line (m_recents m')))"
proof (cases "p \<in> r_path ` set (m_recents m)")
  case True
  with addRecent_cases [OF assms(1)] assms(4) obtain i where
    i: "i < length (m_recents m)" "r_path (m_recents m ! i) = p"
    and m': "m' = saveRecents (m\<lparr>m_recents := bump_to_top i (m_recents m)\<rparr>)" by auto
  let ?r = "m_recents m ! i"
  have eq: "m_recents m' = ?r # filter (\<lambda>q. r_path q \<noteq> p) (m_recents m)"
    using i assms(2) distinct_remove_nth [of r_path "m_recents m" i] bump_to_top_eq [OF i(1)] m'
    by (simp add: recents_ok_def)
  have "length (m_recents m') = length (m_recents m)"
    using bump_to_top_eq [OF i(1)] i(1) m' by simp
  then have "recents_ok (m_recents m')"
    using assms(2) eq i(2) by (auto simp: recents_ok_def distinct_map_filter)
  with eq i m' True assms(3) show ?thesis by auto
next
  case False
  with addRecent_cases [OF assms(1)] assms(4) obtain r core where
    r: "Recent_new (m_fs m) p alias = Some (r, core)"
    and m': "m' = saveRecents (m\<lparr>m_recents := r # take 23 (m_recents m), m_core_override := core\<rparr>)" by auto
  have "p \<notin> set (map r_path (take 23 (m_recents m)))" using False by (auto dest: in_set_takeD)
  moreover have "distinct (map r_path (take 23 (m_recents m)))"
    using assms(2) by (simp add: recents_ok_def flip: take_map)
  ultimately have "recents_ok (m_recents m')"
    using Recent_new_path [OF r] m' by (simp add: recents_ok_def MAX_RECENTS_def)
  with Recent_new_path [OF r] m' False assms(3) show ?thesis by auto
qed

theorem addRecent_move_to_front_witness:
  "\<exists>m'. addRecent (init_minui empty_card) ''/mnt/SDCARD/Roms/GB (GB)/a.gb'' None = Some m'
    \<and> recents_ok (m_recents m')"
proof -
  have ex: "addRecent (init_minui empty_card) ''/mnt/SDCARD/Roms/GB (GB)/a.gb'' None \<noteq> None" by code_simp
  then obtain m' where m': "addRecent (init_minui empty_card) ''/mnt/SDCARD/Roms/GB (GB)/a.gb'' None = Some m'"
    by auto
  have "recents_ok (m_recents (init_minui empty_card))" by (simp add: recents_ok_def init_minui_def)
  moreover have "fs_writable (m_fs (init_minui empty_card)) RECENT_PATH"
    by (simp add: init_minui_def empty_card_def)
  ultimately show ?thesis using addRecent_move_to_front [OF m' _ _ refl] m' by blast
qed

text \<open>
  The recents list survives a restart: what saveRecents wrote, hasRecents reads back in the
  same order with the same paths and aliases, on a card where the games are still there, and the
  file it writes again has the same contents.
\<close>

theorem recents_roundtrip:
  assumes "fs_writable (m_fs m) RECENT_PATH" "length (m_recents m) \<le> MAX_RECENTS"
    and "fs = m_fs (saveRecents m)" "\<not> exists fs CHANGE_DISC_PATH"
    and "\<forall>r \<in> set (m_recents m). recent_readable fs r"
  shows "\<exists>has m'. hasRecents (init_minui fs) = Some (has, m') \<and> m_recents m' = m_recents m
    \<and> fs_files (m_fs m') RECENT_PATH = fs_files fs RECENT_PATH"
proof -
  let ?m0 = "init_minui fs"
  have contents: "fs_files fs RECENT_PATH = Some (concat (map recent_line (m_recents m)))"
    using assms(1,3) by simp
  have disc: "recents_disc ?m0 = Some (?m0, [], 0)"
    using assms(4) by (simp add: recents_disc_def init_minui_def)
  obtain m1 has1 where run: "fold_opt recents_line (read_lines 256 (concat (map recent_line (m_recents m))))
      (?m0, [], 0) = Some (m1, [], has1)" "m_recents m1 = m_recents m" "m_fs m1 = fs"
    using recents_fold_readable [of "m_recents m" ?m0 "[]" 0] read_lines_saved [OF assms(5)] assms(2,5)
    by (auto simp: init_minui_def)
  have "hasRecents ?m0 = Some (0 < has1, saveRecents m1)"
    using disc run(1) contents by (simp add: hasRecents_def init_minui_def)
  moreover have "fs_files (m_fs (saveRecents m1)) RECENT_PATH = fs_files fs RECENT_PATH"
    using run(2,3) contents by simp
  ultimately show ?thesis using run(2) by auto
qed

definition one_game :: minui where
  "one_game = (init_minui (card_with [(''/mnt/SDCARD/Roms/GB (GB)/a.gb'', [])]))
     \<lparr>m_recents := [\<lparr>r_path = ''/Roms/GB (GB)/a.gb'', r_alias = Some ''A'', r_available = False\<rparr>]\<rparr>"

theorem recents_roundtrip_witness:
  "\<exists>has m'. hasRecents (init_minui (m_fs (saveRecents one_game))) = Some (has, m')
    \<and> map r_path (m_recents m') = [''/Roms/GB (GB)/a.gb'']"
proof -
  let ?fs = "m_fs (saveRecents one_game)"
  let ?r = "\<lparr>r_path = ''/Roms/GB (GB)/a.gb'', r_alias = Some ''A'', r_available = False\<rparr>"
  have m3u: "hasM3u ?fs (SDCARD_PATH @ r_path ?r) = Some (False, ''/mnt/SDCARD/Roms/GB (GB)/GB (GB).m3u'')"
    and new: "Recent_new ?fs (r_path ?r) (r_alias ?r) = Some (?r, [])"
    and ok: "line_ok 256 (r_path ?r @ TAB # ''A'')" "exists ?fs (SDCARD_PATH @ r_path ?r)"
      "\<not> exists ?fs CHANGE_DISC_PATH" "fs_writable (m_fs one_game) RECENT_PATH"
      "length (m_recents one_game) \<le> MAX_RECENTS" "TAB \<notin> set (r_path ?r)"
      "length (SDCARD_PATH @ r_path ?r) < 256"
    by code_simp+
  have "recent_readable ?fs ?r"
    unfolding recent_readable_def using m3u new ok by (intro conjI) auto
  moreover have "m_recents one_game = [?r]" by (simp add: one_game_def)
  ultimately show ?thesis using recents_roundtrip [OF ok(4) ok(5) refl ok(3)] by auto
qed

end
