(* ===== verification/Listing.thy ===== *)
theory Listing
  imports Recents
begin

text \<open>
  What the launcher lists (workspace/all/minui/minui.c): the root menu with its Continue tile
  (getRoot, Lodor_recordLocalPlay, Lodor_readRecentLine, Lodor_continueChoice), recents,
  collections, multi-disc playlists and the test for games that are not downloaded, plain folders
  with their collation (addEntries, getEntries), and Directory_new, which picks the listing of a
  path and indexes it.
\<close>

section \<open>Collections and systems\<close>

text \<open>readdir of a directory that did not open is a fault.\<close>

definition hasCollections :: "fsys \<Rightarrow> bool option" where
  "hasCollections fs =
     (if \<not> exists fs COLLECTIONS_PATH then Some False
      else do {
        ds \<leftarrow> opendir fs COLLECTIONS_PATH;
        Some (list_ex (\<lambda>dp. \<not> hide (d_name dp)) ds)
      })"

definition hasRoms :: "fsys \<Rightarrow> string \<Rightarrow> bool option" where
  "hasRoms fs folder_name = do {
     emu_name \<leftarrow> getEmuName 256 folder_name;
     has_emu \<leftarrow> hasEmu fs emu_name;
     (if \<not> has_emu then Some False
      else do {
        rom_path \<leftarrow> c_buf 256 (ROMS_PATH @ ''/'' @ folder_name @ ''/'');
        Some (case opendir fs rom_path of
                None \<Rightarrow> False
              | Some ds \<Rightarrow> list_ex (\<lambda>dp. \<not> hide (d_name dp)) ds)
      })
   }"

section \<open>Continue\<close>

definition LODOR_PAK :: string where
  "LODOR_PAK = SDCARD_PATH @ ''/Tools/'' @ PLATFORM @ ''/Lodor.pak''"

text \<open>The black triangle, two blanks, Continue, a blank, the em dash and a blank, in UTF-8.\<close>

definition TRIANGLE :: string where
  "TRIANGLE = [CHR 0xE2, CHR 0x96, CHR 0xB6]"

definition CONT :: string where
  "CONT = TRIANGLE @ ''  Continue '' @ [CHR 0xE2, CHR 0x80, CHR 0x94] @ '' ''"

function strip_cont :: "string \<Rightarrow> string" where
  "strip_cont a = (if strncmp a CONT (length CONT) = 0 then strip_cont (drop (length CONT) a) else a)"
  by pat_completeness auto
termination
proof (relation "measure length", goal_cases)
  case 1
  then show ?case by simp
next
  case (2 a)
  then show ?case by (cases a) (simp_all add: CONT_def TRIANGLE_def)
qed

declare strip_cont.simps [simp del]

definition local_play_game :: "string \<Rightarrow> string option \<Rightarrow> string" where
  "local_play_game rompath alias =
     (case alias of
        Some (a # as) \<Rightarrow> c_trunc 256 (strip_cont (a # as))
      | _ \<Rightarrow>
          (let b = (case strrchr rompath (CHR ''/'') of Some i \<Rightarrow> drop (Suc i) rompath | None \<Rightarrow> rompath);
               game = c_trunc 256 b
           in (case strrchr game (CHR ''.'') of Some j \<Rightarrow> take j game | None \<Rightarrow> game)))"

text \<open>The argument when is the local time as strftime prints it.\<close>

definition Lodor_recordLocalPlay :: "fsys \<Rightarrow> string \<Rightarrow> string \<Rightarrow> string option \<Rightarrow> fsys" where
  "Lodor_recordLocalPlay fs when rompath alias =
     (if rompath = [] then fs
      else putFile fs (LODOR_PAK @ ''/last-play.txt'')
             (rompath @ TAB # local_play_game rompath alias @ TAB # when @ TAB # ''this device'' @ [NL]))"

text \<open>Path, game and time of the first line; None is the result 0.\<close>

definition Lodor_readRecentLine :: "fsys \<Rightarrow> string \<Rightarrow> (string \<times> string \<times> string) option" where
  "Lodor_readRecentLine fs file =
     (case fs_files fs file of
        None \<Rightarrow> None
      | Some contents \<Rightarrow>
          (case fgets_all 1024 contents of
             [] \<Rightarrow> None
           | raw # _ \<Rightarrow>
               (let line = takeWhile (\<lambda>c. c \<noteq> CR \<and> c \<noteq> NL) raw
                in case strchr line TAB of
                     None \<Rightarrow> None
                   | Some i \<Rightarrow>
                       (let path = take i line; t1 = drop (Suc i) line
                        in case strchr t1 TAB of
                             None \<Rightarrow> Some (c_trunc MAX_PATH path, c_trunc 256 t1, [])
                           | Some j \<Rightarrow>
                               (let t2 = drop (Suc j) t1;
                                    t2 = (case strchr t2 TAB of None \<Rightarrow> t2 | Some k \<Rightarrow> take k t2)
                                in Some (c_trunc MAX_PATH path, c_trunc 256 (take j t1), c_trunc 32 t2))))))"

definition Lodor_continueChoice :: "fsys \<Rightarrow> (string \<times> string) option" where
  "Lodor_continueChoice fs =
     (let haveS = Lodor_readRecentLine fs (LODOR_PAK @ ''/recent.txt'');
          haveL = Lodor_readRecentLine fs (LODOR_PAK @ ''/last-play.txt'')
      in case haveL of
           Some (cp, cg, _) \<Rightarrow> if cp = [] then None else Some (c_trunc MAX_PATH cp, c_trunc 256 cg)
         | None \<Rightarrow>
             (case haveS of
                Some (cp, cg, _) \<Rightarrow> if cp = [] then None else Some (c_trunc MAX_PATH cp, c_trunc 256 cg)
              | None \<Rightarrow> None))"

text \<open>The label of the tile, in its buffer of 320 bytes.\<close>

definition continue_title :: "string \<Rightarrow> string" where
  "continue_title cgame =
     c_trunc 320 (if cgame = [] then TRIANGLE @ ''  Continue'' else CONT @ cgame)"

definition continue_target :: "fsys \<Rightarrow> (string \<times> string) option" where
  "continue_target fs =
     (case Lodor_continueChoice fs of
        None \<Rightarrow> None
      | Some (cpath, cgame) \<Rightarrow> map_option (\<lambda>p. (p, cgame)) (Lodor_resolveMarkedPath fs cpath))"

section \<open>The root menu\<close>

definition Entry_named :: "string \<Rightarrow> entry_type \<Rightarrow> string \<Rightarrow> entry option" where
  "Entry_named path ty name = map_option (\<lambda>e. e\<lparr>e_name := name\<rparr>) (Entry_new path ty)"

definition root_emus :: "fsys \<Rightarrow> dirent list \<Rightarrow> entry list option" where
  "root_emus fs ds = fold_opt
     (\<lambda>dp emus.
        if hide (d_name dp) then Some emus
        else do {
          has \<leftarrow> hasRoms fs (d_name dp);
          (if has then do {
             full_path \<leftarrow> c_buf 256 (ROMS_PATH @ ''/'' @ d_name dp);
             e \<leftarrow> Entry_new full_path ENTRY_DIR;
             Some (emus @ [e])
           }
           else Some emus)
        }) ds []"

text \<open>Systems that show the same name are collated: only the first of a run is kept.\<close>

fun collate :: "entry option \<Rightarrow> entry list \<Rightarrow> entry list" where
  "collate prev [] = []"
| "collate prev (e # es) =
     (if (case prev of Some p \<Rightarrow> exactMatch (Some (e_name p)) (Some (e_name e)) | None \<Rightarrow> False)
      then collate prev es
      else e # collate (Some e) es)"

definition root_systems :: "fsys \<Rightarrow> entry list option" where
  "root_systems fs = do {
     entries \<leftarrow>
       (case opendir fs ROMS_PATH of
          None \<Rightarrow> Some []
        | Some ds \<Rightarrow> map_option (\<lambda>emus. collate None (EntryArray_sort emus)) (root_emus fs ds));
     let map_path = ROMS_PATH @ ''/map.txt'';
     (if entries \<noteq> [] \<and> exists fs map_path then
        (case fs_files fs map_path of
           None \<Rightarrow> Some entries
         | Some contents \<Rightarrow> do {
             (entries, resort, _) \<leftarrow> alias_loop (parse_map contents) entries False False;
             Some (if resort then EntryArray_sort entries else entries)
           })
      else Some entries)
   }"

definition root_collections :: "fsys \<Rightarrow> dirent list \<Rightarrow> entry list option" where
  "root_collections fs ds = fold_opt
     (\<lambda>dp collections.
        if hide (d_name dp) then Some collections
        else do {
          full_path \<leftarrow> c_buf 256 (COLLECTIONS_PATH @ ''/'' @ d_name dp);
          e \<leftarrow> Entry_new full_path ENTRY_DIR;
          Some (collections @ [e])
        }) ds []"

definition getRoot :: "minui \<Rightarrow> (entry list \<times> minui) option" where
  "getRoot m = do {
     entries \<leftarrow> root_systems (m_fs m);
     has_coll \<leftarrow> hasCollections (m_fs m);
     (root, entries) \<leftarrow>
       (if has_coll then
          if entries \<noteq> [] then do {
            e \<leftarrow> Entry_new COLLECTIONS_PATH ENTRY_DIR;
            Some ([e], entries)
          }
          else (case opendir (m_fs m) COLLECTIONS_PATH of
                  None \<Rightarrow> Some ([], entries)
                | Some ds \<Rightarrow> do {
                    collections \<leftarrow> root_collections (m_fs m) ds;
                    Some ([], entries @ EntryArray_sort collections)
                  })
        else Some ([], entries));
     (has_recents, m) \<leftarrow> hasRecents m;
     root \<leftarrow> (if has_recents then do {
                 e \<leftarrow> Entry_new FAUX_RECENT_PATH ENTRY_DIR;
                 Some (root @ [e])
               }
               else Some root);
     let root = root @ entries;
     let tools_path = SDCARD_PATH @ ''/Tools/'' @ PLATFORM;
     let sync_pak = tools_path @ ''/Lodor.pak'';
     let sync_pak_legacy = tools_path @ ''/Sync.pak'';
     root \<leftarrow>
       (if exists (m_fs m) sync_pak \<or> exists (m_fs m) sync_pak_legacy then do {
          e \<leftarrow> Entry_named (if exists (m_fs m) sync_pak then sync_pak else sync_pak_legacy) ENTRY_PAK ''Sync'';
          Some (root @ [e])
        }
        else Some root);
     root \<leftarrow>
       (if exists (m_fs m) tools_path \<and> \<not> m_simple_mode m then do {
          e \<leftarrow> Entry_new tools_path ENTRY_DIR;
          Some (root @ [e])
        }
        else Some root);
     root \<leftarrow>
       (case continue_target (m_fs m) of
          None \<Rightarrow> Some root
        | Some (cpath, cgame) \<Rightarrow> do {
            ce \<leftarrow> Entry_named cpath ENTRY_ROM (continue_title cgame);
            Some (ce # root)
          });
     Some (root, m)
   }"

section \<open>Recents and collections\<close>

definition getRecents :: "recent list \<Rightarrow> entry list option" where
  "getRecents recents = fold_opt
     (\<lambda>recent entries.
        if \<not> r_available recent then Some entries
        else do {
          sd_path \<leftarrow> c_buf 256 (SDCARD_PATH @ r_path recent);
          let ty = (if suffixMatch ''.pak'' sd_path then ENTRY_PAK else ENTRY_ROM);
          e \<leftarrow> Entry_new sd_path ty;
          Some (entries @ [case r_alias recent of None \<Rightarrow> e | Some alias \<Rightarrow> e\<lparr>e_name := alias\<rparr>])
        }) recents []"

definition getCollection :: "fsys \<Rightarrow> string \<Rightarrow> entry list option" where
  "getCollection fs path =
     (case fs_files fs path of
        None \<Rightarrow> Some []
      | Some contents \<Rightarrow> fold_opt
          (\<lambda>line entries. do {
             sd_path \<leftarrow> c_buf 256 (SDCARD_PATH @ line);
             (if exists fs sd_path then do {
                let ty = (if suffixMatch ''.pak'' sd_path then ENTRY_PAK else ENTRY_ROM);
                e \<leftarrow> Entry_new sd_path ty;
                Some (entries @ [e])
              }
              else Some entries)
           }) (read_lines 256 contents) [])"

section \<open>Playlists\<close>

text \<open>The playlist's directory, with its slash, in a buffer of 256 bytes.\<close>

definition base_path_of :: "string \<Rightarrow> string option" where
  "base_path_of path = do {
     base_path \<leftarrow> c_buf 256 path;
     i \<leftarrow> strrchr base_path (CHR ''/'');
     Some (take (Suc i) base_path)
   }"

definition getDiscs :: "fsys \<Rightarrow> string \<Rightarrow> entry list option" where
  "getDiscs fs path = do {
     base_path \<leftarrow> base_path_of path;
     (case fs_files fs path of
        None \<Rightarrow> Some []
      | Some contents \<Rightarrow> map_option fst (fold_opt
          (\<lambda>line (entries, disc :: int). do {
             disc_path \<leftarrow> c_buf 256 (base_path @ line);
             (if exists fs disc_path then do {
                name \<leftarrow> c_buf 16 (''Disc '' @ c_int (disc + 1));
                e \<leftarrow> Entry_named disc_path ENTRY_ROM name;
                Some (entries @ [e], disc + 1)
              }
              else Some (entries, disc))
           }) (read_lines 256 contents) ([], 0)))
   }"

text \<open>Whether the first disc is there, and the caller's buffer of 256 bytes afterwards.\<close>

definition getFirstDisc :: "fsys \<Rightarrow> string \<Rightarrow> string \<Rightarrow> (bool \<times> string) option" where
  "getFirstDisc fs m3u_path disc_path = do {
     base_path \<leftarrow> base_path_of m3u_path;
     (case fs_files fs m3u_path of
        None \<Rightarrow> Some (False, disc_path)
      | Some contents \<Rightarrow>
          (case read_lines 256 contents of
             [] \<Rightarrow> Some (False, disc_path)
           | line # _ \<Rightarrow> do {
               disc_path \<leftarrow> c_buf 256 (base_path @ line);
               Some (exists fs disc_path, disc_path)
             }))
   }"

text \<open>stat fails, or the size is 0 (a directory has a size).\<close>

definition missing_or_stub :: "fsys \<Rightarrow> string \<Rightarrow> bool" where
  "missing_or_stub fs p \<longleftrightarrow> \<not> exists fs p \<or> fs_files fs p = Some []"

text \<open>A directory opens for reading, and reads as empty.\<close>

definition fopen_r :: "fsys \<Rightarrow> string \<Rightarrow> string option" where
  "fopen_r fs p = (case fs_files fs p of
                     Some c \<Rightarrow> Some c
                   | None \<Rightarrow> if opendir fs p \<noteq> None then Some [] else None)"

definition Lodor_m3uMissingDiscs :: "fsys \<Rightarrow> string \<Rightarrow> bool" where
  "Lodor_m3uMissingDiscs fs path \<longleftrightarrow>
     (if \<not> suffixMatch ''.m3u'' path then False
      else
        (let base_path = c_trunc 256 path
         in case strrchr base_path (CHR ''/'') of
              None \<Rightarrow> False
            | Some i \<Rightarrow>
                (let base_path = take (Suc i) base_path
                 in case fopen_r fs path of
                      None \<Rightarrow> False
                    | Some contents \<Rightarrow>
                        (let lines = read_lines 256 contents
                         in lines = []
                            \<or> list_ex (\<lambda>line. missing_or_stub fs (c_trunc 512 (base_path @ line))) lines))))"

definition Lodor_needsFetch :: "fsys \<Rightarrow> string \<Rightarrow> bool" where
  "Lodor_needsFetch fs path \<longleftrightarrow> fs_files fs path = Some [] \<or> Lodor_m3uMissingDiscs fs path"

section \<open>Folders\<close>

definition addEntries :: "fsys \<Rightarrow> string \<Rightarrow> entry list \<Rightarrow> entry list option" where
  "addEntries fs path entries =
     (case opendir fs path of
        None \<Rightarrow> Some entries
      | Some ds \<Rightarrow> do {
          full_path \<leftarrow> c_buf 256 (path @ ''/'');
          fold_opt
            (\<lambda>dp entries.
               if hide (d_name dp) then Some entries
               else do {
                 full_path \<leftarrow> c_buf 256 (path @ ''/'' @ d_name dp);
                 let ty =
                   (if d_isdir dp then
                      if suffixMatch ''.pak'' (d_name dp) then ENTRY_PAK else ENTRY_DIR
                    else if prefixMatch COLLECTIONS_PATH full_path then ENTRY_DIR
                    else ENTRY_ROM);
                 e \<leftarrow> Entry_new full_path ty;
                 Some (entries @ [e])
               }) ds entries
        })"

definition isConsoleDir :: "string \<Rightarrow> bool option" where
  "isConsoleDir path = do {
     parent_dir \<leftarrow> c_buf 256 path;
     i \<leftarrow> strrchr parent_dir (CHR ''/'');
     Some (exactMatch (Some (take i parent_dir)) (Some ROMS_PATH))
   }"

text \<open>Everything up to and with the last opening parenthesis, or all of it.\<close>

definition collated_path_of :: "string \<Rightarrow> string option" where
  "collated_path_of path = do {
     collated_path \<leftarrow> c_buf 256 path;
     Some (case strrchr collated_path (CHR ''('') of
             None \<Rightarrow> collated_path
           | Some i \<Rightarrow> take (Suc i) collated_path)
   }"

text \<open>The scan for a usable rollback set: found, and the caller's buffer of n bytes.\<close>

fun revert_scan :: "fsys \<Rightarrow> nat \<Rightarrow> string \<Rightarrow> string \<Rightarrow> dirent list \<Rightarrow> bool \<times> string" where
  "revert_scan fs n rbdir out [] = (False, out)"
| "revert_scan fs n rbdir out (de # ds) =
     (if d_name de \<noteq> [] \<and> hd (d_name de) = CHR ''.'' then revert_scan fs n rbdir out ds
      else
        (let rf = c_trunc 1024 (rbdir @ ''/'' @ d_name de @ ''/rolled-from'');
             tr = c_trunc 1024 (rbdir @ ''/'' @ d_name de @ ''/tree'')
         in if \<not> exists fs rf \<or> \<not> exists fs tr then revert_scan fs n rbdir out ds
            else (case fs_files fs rf of
                    None \<Rightarrow> revert_scan fs n rbdir out ds
                  | Some contents \<Rightarrow>
                      (case fgets_all n contents of
                         [] \<Rightarrow> revert_scan fs n rbdir out ds
                       | raw # _ \<Rightarrow>
                           (let out = (case strchr raw NL of None \<Rightarrow> raw | Some i \<Rightarrow> take i raw)
                            in if out \<noteq> [] then (True, out) else revert_scan fs n rbdir out ds)))))"

definition lodorRevertTarget :: "fsys \<Rightarrow> nat \<Rightarrow> bool \<times> string" where
  "lodorRevertTarget fs n =
     (let rbdir = c_trunc 512 (LODOR_PAK @ ''/.update-rollback'')
      in case opendir fs rbdir of
           None \<Rightarrow> (False, [])
         | Some ds \<Rightarrow> revert_scan fs n rbdir [] ds)"

fun relabel_first :: "(entry \<Rightarrow> bool) \<Rightarrow> string \<Rightarrow> entry list \<Rightarrow> entry list" where
  "relabel_first P label [] = []"
| "relabel_first P label (e # es) =
     (if P e then e\<lparr>e_name := label\<rparr> # es else e # relabel_first P label es)"

definition getEntries :: "fsys \<Rightarrow> string \<Rightarrow> entry list option" where
  "getEntries fs path = do {
     console \<leftarrow> isConsoleDir path;
     entries \<leftarrow>
       (if console then do {
          collated_path \<leftarrow> collated_path_of path;
          (case opendir fs ROMS_PATH of
             None \<Rightarrow> Some []
           | Some ds \<Rightarrow> fold_opt
               (\<lambda>dp entries.
                  if hide (d_name dp) then Some entries
                  else if \<not> d_isdir dp then Some entries
                  else do {
                    full_path \<leftarrow> c_buf 256 (ROMS_PATH @ ''/'' @ d_name dp);
                    (if \<not> prefixMatch collated_path full_path then Some entries
                     else addEntries fs full_path entries)
                  }) ds [])
        }
        else addEntries fs path []);
     let tools_path = SDCARD_PATH @ ''/Tools/'' @ PLATFORM;
     entries \<leftarrow>
       (if exactMatch (Some path) (Some tools_path) then
          (let settings_pak = tools_path @ ''/Lodor.pak'';
               legacy = tools_path @ ''/Sync.pak'';
               use = (if exists fs settings_pak then Some settings_pak
                      else if exists fs legacy then Some legacy else None)
           in case use of
                None \<Rightarrow> Some entries
              | Some pak \<Rightarrow> do {
                  e \<leftarrow> Entry_named pak ENTRY_PAK ''Lodor Settings'';
                  Some (entries @ [e])
                })
        else Some entries);
     let entries =
       (if exactMatch (Some path) (Some tools_path) then
          (case lodorRevertTarget fs 64 of
             (found, rv) \<Rightarrow>
               if found then
                 relabel_first (\<lambda>e. strstr (e_path e) ''/Update Lodor.pak'' \<noteq> None)
                   (c_trunc 128 (''Update Lodor - revert to '' @ rv)) entries
               else entries)
        else entries);
     Some (EntryArray_sort entries)
   }"

section \<open>Directories\<close>

text \<open>The window is set by the callers: malloc leaves start and end open, here they are 0.\<close>

definition Directory_new :: "minui \<Rightarrow> string \<Rightarrow> int \<Rightarrow> (directory \<times> minui) option" where
  "Directory_new m path selected = do {
     display_name \<leftarrow> getDisplayName path;
     (entries, m) \<leftarrow>
       (if exactMatch (Some path) (Some SDCARD_PATH) then getRoot m
        else do {
          entries \<leftarrow>
            (if exactMatch (Some path) (Some FAUX_RECENT_PATH) then getRecents (m_recents m)
             else if \<not> exactMatch (Some path) (Some COLLECTIONS_PATH) \<and> prefixMatch COLLECTIONS_PATH path
                     \<and> suffixMatch ''.txt'' path then getCollection (m_fs m) path
             else if suffixMatch ''.m3u'' path then getDiscs (m_fs m) path
             else getEntries (m_fs m) path);
          Some (entries, m)
        });
     self \<leftarrow> Directory_index (m_fs m)
       \<lparr>dir_path = path, dir_name = display_name, dir_entries = entries, dir_alphas = IntArray_new,
        dir_selected = selected, dir_start = 0, dir_end = 0\<rparr>;
     Some (self, m)
   }"

section \<open>The Continue record\<close>

lemma CONT_props: "nul_free CONT" "length CONT = 18" "TAB \<notin> set CONT" "NL \<notin> set CONT"
  by (simp_all add: CONT_def TRIANGLE_def nul_free_def NUL_def TAB_def NL_def)

lemma strip_cont_replicate:
  assumes "nul_free g" "strncmp g CONT (length CONT) \<noteq> 0"
  shows "strip_cont (concat (replicate k CONT) @ g) = g"
proof (induction k)
  case 0
  then show ?case using assms(2) by (subst strip_cont.simps) simp
next
  case (Suc k)
  have "nul_free (concat (replicate k CONT))" using CONT_props(1) by (induction k) auto
  then have "strncmp (CONT @ concat (replicate k CONT) @ g) CONT (length CONT) = 0"
    using assms(1) CONT_props(1) by (simp add: strncmp_0_iff)
  then show ?case using Suc by (subst strip_cont.simps) simp
qed

text \<open>A field of the record: none of the bytes that structure the line.\<close>

definition record_field :: "string \<Rightarrow> bool" where
  "record_field s \<longleftrightarrow> TAB \<notin> set s \<and> NL \<notin> set s \<and> CR \<notin> set s \<and> nul_free s"

lemma takeWhile_line:
  "NL \<notin> set l \<Longrightarrow> CR \<notin> set l \<Longrightarrow> takeWhile (\<lambda>c. c \<noteq> CR \<and> c \<noteq> NL) (l @ NL # rest) = l"
  by (induction l) auto

lemma Lodor_readRecentLine_written:
  assumes "fs_files fs f = Some (path @ TAB # title @ TAB # when @ TAB # ''this device'' @ [NL])"
    and "record_field path" "record_field title" "record_field when"
    and "length path < MAX_PATH" "length title < 256" "length when < 32"
  shows "Lodor_readRecentLine fs f = Some (path, title, when)"
proof -
  let ?line = "path @ TAB # title @ TAB # when @ TAB # ''this device''"
  have plain: "NL \<notin> set ?line" "CR \<notin> set ?line" "nul_free ?line"
    using assms(2-4) by (auto simp: record_field_def nul_free_def NL_def CR_def TAB_def NUL_def)
  have "length ?line + 1 < 1024" using assms(5-7) by (simp add: MAX_PATH_def)
  then have "fgets_all 1024 (?line @ [NL]) = [?line @ [NL]]"
    using fgets_all_line [of ?line 1024 "[]"] plain by simp
  moreover have "takeWhile (\<lambda>c. c \<noteq> CR \<and> c \<noteq> NL) (?line @ [NL]) = ?line"
    using takeWhile_line [OF plain(1,2)] by simp
  ultimately show ?thesis
    using assms by (simp add: Lodor_readRecentLine_def Let_def strchr_append record_field_def c_trunc_id)
qed

section \<open>Playlists\<close>

lemma getFirstDisc_gate:
  assumes "suffixMatch ''.m3u'' path" "length path < 256" "strrchr path (CHR ''/'') = Some i"
    and "fs_files fs path = Some contents" "\<not> Lodor_needsFetch fs path"
  shows "read_lines 256 contents \<noteq> []
    \<and> (\<forall>line \<in> set (read_lines 256 contents). \<not> missing_or_stub fs (take (Suc i) path @ line))"
proof -
  have missing: "\<not> Lodor_m3uMissingDiscs fs path" using assms(5) by (simp add: Lodor_needsFetch_def)
  have cut: "c_trunc 512 (take (Suc i) path @ line) = take (Suc i) path @ line"
    if "line \<in> set (read_lines 256 contents)" for line
    using read_lines_member [OF that] assms(2) by (intro c_trunc_id) (simp add: min_def)
  show ?thesis
    using missing assms(1-4) cut
    by (auto simp: Lodor_m3uMissingDiscs_def Let_def c_trunc_id fopen_r_def list_ex_iff)
qed

section \<open>Folders\<close>

definition visible :: "dirent list \<Rightarrow> dirent list" where
  "visible ds = filter (\<lambda>dp. \<not> hide (d_name dp)) ds"

text \<open>What addEntries makes of one entry of a folder.\<close>

definition entry_kind :: "string \<Rightarrow> dirent \<Rightarrow> entry_type" where
  "entry_kind path dp =
     (if d_isdir dp then if suffixMatch ''.pak'' (d_name dp) then ENTRY_PAK else ENTRY_DIR
      else if prefixMatch COLLECTIONS_PATH (path @ ''/'' @ d_name dp) then ENTRY_DIR else ENTRY_ROM)"

definition listed :: "string \<Rightarrow> dirent \<Rightarrow> entry list option" where
  "listed path dp =
     (if hide (d_name dp) then Some []
      else do {
        full_path \<leftarrow> c_buf 256 (path @ ''/'' @ d_name dp);
        e \<leftarrow> Entry_new full_path (entry_kind path dp);
        Some [e]
      })"

lemma addEntries_eq:
  assumes "opendir fs path = Some ds" "length path + 1 < 256"
  shows "addEntries fs path acc = map_option (\<lambda>yss. acc @ concat yss) (those (map (listed path) ds))"
proof -
  have "addEntries fs path acc = fold_opt (\<lambda>dp entries.
      if hide (d_name dp) then Some entries
      else do {
        full_path \<leftarrow> c_buf 256 (path @ ''/'' @ d_name dp);
        let ty = (if d_isdir dp then if suffixMatch ''.pak'' (d_name dp) then ENTRY_PAK else ENTRY_DIR
                  else if prefixMatch COLLECTIONS_PATH full_path then ENTRY_DIR else ENTRY_ROM);
        e \<leftarrow> Entry_new full_path ty;
        Some (entries @ [e])
      }) ds acc"
    using assms by (simp add: addEntries_def)
  also have "\<dots> = map_option (\<lambda>yss. acc @ concat yss) (those (map (listed path) ds))"
    by (rule fold_opt_collect)
      (auto simp: listed_def entry_kind_def Let_def split: Option.bind_splits)
  finally show ?thesis .
qed

lemma Entry_new_fields: "Entry_new p ty = Some e \<Longrightarrow> e_path e = p \<and> e_type e = ty"
  by (auto simp: Entry_new_def elim!: bind_Some_elim)

lemma listed_entries:
  "those (map (listed path) ds) = Some yss \<Longrightarrow>
   map (\<lambda>e. (e_path e, e_type e)) (concat yss)
     = map (\<lambda>dp. (path @ ''/'' @ d_name dp, entry_kind path dp)) (visible ds)"
proof (induction ds arbitrary: yss)
  case Nil
  then show ?case by (simp add: visible_def)
next
  case (Cons dp ds)
  then obtain ys yss' where ys: "listed path dp = Some ys" "those (map (listed path) ds) = Some yss'" "yss = ys # yss'"
    by (auto simp: map_option_case split: option.splits)
  have "map (\<lambda>e. (e_path e, e_type e)) ys =
      map (\<lambda>dp. (path @ ''/'' @ d_name dp, entry_kind path dp)) (visible [dp])"
    using ys(1) by (auto simp: listed_def visible_def elim!: bind_Some_elim dest!: Entry_new_fields split: if_splits)
  with ys Cons.IH show ?case by (auto simp: visible_def)
qed

lemma set_strip_chain: "set (trim_tail (if strip_parens e = [] then e else strip_parens e)) \<subseteq> set e"
  using trim_tail_prefix strip_parens_prefix by (auto dest!: set_mono_prefix)

lemma getDisplayName_chars: "getDisplayName s = Some d \<Longrightarrow> set d \<subseteq> set s"
proof -
  assume d: "getDisplayName s = Some d"
  obtain b where b: "set b \<subseteq> set s" "d = trim_tail (if strip_parens (strip_extensions b) = []
      then strip_extensions b else strip_parens (strip_extensions b))"
    using d by (fastforce simp: getDisplayName_def Let_def elim!: bind_Some_elim split: if_splits option.splits
        dest: in_set_takeD in_set_dropD)
  have "set (strip_extensions b) \<subseteq> set b" by (rule set_mono_prefix [OF strip_extensions_prefix])
  with b set_strip_chain [of "strip_extensions b"] show ?thesis by blast
qed

lemma listed_ok:
  assumes "listed path dp = Some ys" "nul_free path" "nul_free (d_name dp)" "e \<in> set ys"
  shows "entry_ok e"
proof -
  obtain d where d: "getDisplayName (path @ ''/'' @ d_name dp) = Some d" "e_name e = d"
    "e_path e = path @ ''/'' @ d_name dp"
    using assms(1,4) by (auto simp: listed_def Entry_new_def elim!: bind_Some_elim split: if_splits)
  have "nul_free d" using getDisplayName_chars [OF d(1)] assms(2,3) by (auto simp: nul_free_def NUL_def)
  with d show ?thesis by (simp add: entry_ok_def)
qed

section \<open>Properties\<close>

text \<open>
  The Continue record survives its own tile: a game launched under its bare name, or from a
  Continue tile whose decoration has nested any number of times, is recorded so that the next
  Lodor_continueChoice offers exactly that path under the bare game name; a server record never
  outranks it.
\<close>

theorem continue_records_bare_name:
  assumes "fs_writable fs (LODOR_PAK @ ''/last-play.txt'')"
    and "record_field rompath" "record_field title" "record_field when"
    and "rompath \<noteq> []" "title \<noteq> []" "strncmp title CONT (length CONT) \<noteq> 0"
    and "length rompath < MAX_PATH" "length title < 256" "length when < 32"
  shows "Lodor_continueChoice (Lodor_recordLocalPlay fs when rompath (Some (concat (replicate k CONT) @ title)))
    = Some (rompath, title)"
proof -
  let ?shown = "concat (replicate k CONT) @ title"
  have "local_play_game rompath (Some ?shown) = title"
    using strip_cont_replicate [of title k] assms(3,6,7,9)
    by (cases ?shown) (auto simp: local_play_game_def record_field_def c_trunc_id)
  then have "fs_files (Lodor_recordLocalPlay fs when rompath (Some ?shown)) (LODOR_PAK @ ''/last-play.txt'')
      = Some (rompath @ TAB # title @ TAB # when @ TAB # ''this device'' @ [NL])"
    using assms(1,5) by (simp add: Lodor_recordLocalPlay_def fstore.rd_wr)
  from Lodor_readRecentLine_written [OF this assms(2-4,8-10)] show ?thesis
    using assms(5,8,9) by (simp add: Lodor_continueChoice_def c_trunc_id)
qed

text \<open>
  The launch gate is right for playlists: when Lodor_needsFetch lets an .m3u through, the
  playlist lists at least one disc, every listed disc is on the card and not a 0-byte stub, and
  getFirstDisc finds the first of them.
\<close>

theorem m3u_gate_complete:
  assumes "suffixMatch ''.m3u'' path" "length path < 256" "strrchr path (CHR ''/'') = Some i"
    and "fs_files fs path = Some contents" "\<not> Lodor_needsFetch fs path"
    and "getFirstDisc fs path buf = Some (found, disc)"
  shows "found \<and> disc = take (Suc i) path @ hd (read_lines 256 contents)
    \<and> (\<forall>line \<in> set (read_lines 256 contents).
        exists fs (take (Suc i) path @ line) \<and> fs_files fs (take (Suc i) path @ line) \<noteq> Some [])"
proof -
  from getFirstDisc_gate [OF assms(1-5)] obtain line rest where
    lines: "read_lines 256 contents = line # rest" and
    all: "\<forall>l \<in> set (read_lines 256 contents). \<not> missing_or_stub fs (take (Suc i) path @ l)"
    by (cases "read_lines 256 contents") auto
  then have "exists fs (take (Suc i) path @ line)" by (auto simp: missing_or_stub_def)
  then have "found \<and> disc = take (Suc i) path @ line"
    using assms(2-4,6) lines
    by (auto simp: getFirstDisc_def base_path_of_def split: if_splits)
  with lines all show ?thesis by (auto simp: missing_or_stub_def)
qed

text \<open>
  C8. Browsing a folder shows exactly its visible entries: apart from console and Tools
  folders, getEntries returns one entry per directory entry that hide lets through, with its full
  path and the type its kind gives, in case-insensitive order of the display names.
\<close>

theorem getEntries_shows_visible:
  assumes "getEntries fs path = Some es" "isConsoleDir path = Some False"
    and "path \<noteq> SDCARD_PATH @ ''/Tools/'' @ PLATFORM" "opendir fs path = Some ds"
    and "length path + 1 < 256" "nul_free path" "list_all (\<lambda>dp. nul_free (d_name dp)) ds"
  shows "mset (map (\<lambda>e. (e_path e, e_type e)) es)
      = mset (map (\<lambda>dp. (path @ ''/'' @ d_name dp, entry_kind path dp)) (visible ds))
    \<and> sorted (map (\<lambda>e. sort_key_of (e_name e)) es)"
proof -
  obtain yss where yss: "those (map (listed path) ds) = Some yss" "es = EntryArray_sort (concat yss)"
    using assms(1-3) addEntries_eq [OF assms(4,5)] by (auto simp: getEntries_def elim!: bind_Some_elim)
  have "\<forall>e \<in> set (concat yss). entry_ok e"
  proof
    fix e assume "e \<in> set (concat yss)"
    then obtain ys where ys: "ys \<in> set yss" "e \<in> set ys" by auto
    from those_map_Some(3) [OF yss(1) ys(1)] obtain dp where "dp \<in> set ds" "listed path dp = Some ys" by blast
    with assms(6,7) ys(2) show "entry_ok e" by (auto intro: listed_ok simp: list_all_iff)
  qed
  then have "sorted (map (\<lambda>e. sort_key_of (e_name e)) es)"
    unfolding yss(2) by (rule sorted_EntryArray_sort)
  moreover have "mset (map (\<lambda>e. (e_path e, e_type e)) es) = mset (map (\<lambda>e. (e_path e, e_type e)) (concat yss))"
    unfolding yss(2) EntryArray_sort_def mset_map mset_qsort ..
  ultimately show ?thesis unfolding listed_entries [OF yss(1)] by blast
qed

theorem continue_records_bare_name_witness:
  "Lodor_continueChoice (Lodor_recordLocalPlay empty_card ''2026-01-02 03:04'' ''/mnt/SDCARD/Roms/GB (GB)/a.gb''
      (Some (CONT @ CONT @ ''Tetris''))) = Some (''/mnt/SDCARD/Roms/GB (GB)/a.gb'', ''Tetris'')"
proof -
  have ok: "fs_writable empty_card (LODOR_PAK @ ''/last-play.txt'')"
    "record_field ''/mnt/SDCARD/Roms/GB (GB)/a.gb''" "record_field ''Tetris''" "record_field ''2026-01-02 03:04''"
    "strncmp ''Tetris'' CONT (length CONT) \<noteq> 0" "length ''/mnt/SDCARD/Roms/GB (GB)/a.gb'' < MAX_PATH"
    by code_simp+
  show ?thesis using continue_records_bare_name [OF ok(1-4) _ _ ok(5,6), of 2] by (simp add: numeral_2_eq_2)
qed

definition two_discs :: fsys where
  "two_discs = card_with [(''/g/FF.m3u'', ''1.chd'' @ [CR, NL] @ ''2.chd''), (''/g/1.chd'', ''x''), (''/g/2.chd'', ''y'')]"

theorem m3u_gate_complete_witness:
  "exists two_discs ''/g/1.chd'' \<and> exists two_discs ''/g/2.chd''"
proof -
  have run: "suffixMatch ''.m3u'' ''/g/FF.m3u''" "strrchr ''/g/FF.m3u'' (CHR ''/'') = Some 2"
    "fs_files two_discs ''/g/FF.m3u'' = Some (''1.chd'' @ [CR, NL] @ ''2.chd'')"
    "\<not> Lodor_needsFetch two_discs ''/g/FF.m3u''"
    "getFirstDisc two_discs ''/g/FF.m3u'' [] = Some (True, ''/g/1.chd'')"
    "read_lines 256 (''1.chd'' @ [CR, NL] @ ''2.chd'') = [''1.chd'', ''2.chd'']"
    by code_simp+
  from m3u_gate_complete [OF run(1) _ run(2-5)] show ?thesis unfolding run(6) by simp
qed

definition music_folder :: fsys where
  "music_folder = \<lparr>fs_files = map_of [],
     fs_dirs = map_of [(''/mnt/SDCARD/M'', [\<lparr>d_name = ''b.gb'', d_isdir = False\<rparr>,
       \<lparr>d_name = ''.x'', d_isdir = False\<rparr>, \<lparr>d_name = ''a.pak'', d_isdir = True\<rparr>])],
     fs_writable = \<lambda>_. True\<rparr>"

theorem getEntries_shows_visible_witness:
  "\<exists>es. getEntries music_folder ''/mnt/SDCARD/M'' = Some es
    \<and> mset (map (\<lambda>e. (e_path e, e_type e)) es)
      = {# (''/mnt/SDCARD/M/a.pak'', ENTRY_PAK), (''/mnt/SDCARD/M/b.gb'', ENTRY_ROM) #}"
proof -
  let ?ds = "[\<lparr>d_name = ''b.gb'', d_isdir = False\<rparr>, \<lparr>d_name = ''.x'', d_isdir = False\<rparr>,
    \<lparr>d_name = ''a.pak'', d_isdir = True\<rparr>]"
  have ok: "isConsoleDir ''/mnt/SDCARD/M'' = Some False" "''/mnt/SDCARD/M'' \<noteq> SDCARD_PATH @ ''/Tools/'' @ PLATFORM"
    "nul_free ''/mnt/SDCARD/M''" "list_all (\<lambda>dp. nul_free (d_name dp)) ?ds"
    by code_simp+
  have dir: "opendir music_folder ''/mnt/SDCARD/M'' = Some ?ds" by code_simp
  have shown: "map (\<lambda>dp. (''/mnt/SDCARD/M'' @ ''/'' @ d_name dp, entry_kind ''/mnt/SDCARD/M'' dp)) (visible ?ds)
    = [(''/mnt/SDCARD/M/b.gb'', ENTRY_ROM), (''/mnt/SDCARD/M/a.pak'', ENTRY_PAK)]" by code_simp
  have "getEntries music_folder ''/mnt/SDCARD/M'' \<noteq> None" by code_simp
  then obtain es where es: "getEntries music_folder ''/mnt/SDCARD/M'' = Some es" by blast
  from getEntries_shows_visible [OF es ok(1,2) dir _ ok(3,4), unfolded shown] es show ?thesis
    by (auto simp: add_mset_commute)
qed

end
