(* ===== verification/Launcher.thy ===== *)
theory Launcher
  imports Shell Listing
begin

text \<open>
  Opening what is selected (workspace/all/minui/minui.c): the resume slot (readyResumePath,
  autoResume), launching paks and games (openPak, openRom), the stack of open directories
  (openDirectory, closeDirectory, Lodor_rescanTop), Entry_open, and the restore of the last place
  after a game (saveLast, loadLast). /tmp/next, which queueNext writes, is the command the shell
  loop around the launcher runs when it quits.
\<close>

section \<open>Launching\<close>

definition NEXT_PATH :: string where
  "NEXT_PATH = ''/tmp/next''"

definition queueNext :: "minui \<Rightarrow> string \<Rightarrow> minui" where
  "queueNext m cmd = m\<lparr>m_fs := putFile (m_fs m) NEXT_PATH cmd, m_quit := True\<rparr>"

definition readyResumePath :: "minui \<Rightarrow> string \<Rightarrow> entry_type \<Rightarrow> minui option" where
  "readyResumePath m rom_path ty = do {
     let m = m\<lparr>m_can_resume := False\<rparr>;
     path \<leftarrow> c_buf 256 rom_path;
     (if \<not> prefixMatch ROMS_PATH path then Some m
      else do {
        launchable \<leftarrow>
          (if ty = ENTRY_DIR then do {
             (has_cue, auto_path) \<leftarrow> hasCue (m_fs m) path;
             (if has_cue then Some (Some auto_path)
              else do {
                i \<leftarrow> strrchr auto_path (CHR ''.'');
                let auto_path = take (Suc i) auto_path @ ''m3u'';
                Some (if exists (m_fs m) auto_path then Some auto_path else None)
              })
           }
           else Some (Some path));
        (case launchable of
           None \<Rightarrow> Some m
         | Some path \<Rightarrow> do {
             path \<leftarrow>
               (if suffixMatch ''.m3u'' path then Some path
                else do {
                  (has_m3u, m3u_path) \<leftarrow> hasM3u (m_fs m) path;
                  Some (if has_m3u then m3u_path else path)
                });
             emu_name \<leftarrow> Lodor_romTag path;
             rom_file \<leftarrow> file_name path;
             slot_path \<leftarrow> c_buf 256 (SHARED_USERDATA_PATH @ ''/.minui/'' @ emu_name @ ''/'' @ rom_file @ ''.txt'');
             Some (m\<lparr>m_slot_path := slot_path, m_can_resume := exists (m_fs m) slot_path\<rparr>)
           })
      })
   }"

definition readyResume :: "minui \<Rightarrow> entry \<Rightarrow> minui option" where
  "readyResume m e = readyResumePath m (e_path e) (e_type e)"

text \<open>top is followed: without an open directory this is a fault.\<close>

definition saveLast :: "minui \<Rightarrow> string \<Rightarrow> minui option" where
  "saveLast m path = do {
     top_dir \<leftarrow> m_top m;
     let path = (if exactMatch (Some (dir_path top_dir)) (Some FAUX_RECENT_PATH) then FAUX_RECENT_PATH else path);
     Some (m\<lparr>m_fs := putFile (m_fs m) LAST_PATH path\<rparr>)
   }"

definition autoResume :: "minui \<Rightarrow> (bool \<times> minui) option" where
  "autoResume m =
     (if \<not> exists (m_fs m) AUTO_RESUME_PATH then Some (False, m)
      else do {
        path \<leftarrow> getFile (m_fs m) AUTO_RESUME_PATH 256;
        let m = m\<lparr>m_fs := unlink (m_fs m) AUTO_RESUME_PATH\<rparr>;
        sd_path \<leftarrow> c_buf 256 (SDCARD_PATH @ path);
        (if \<not> exists (m_fs m) sd_path then Some (False, m)
         else do {
           emu_name \<leftarrow> Lodor_romTag sd_path;
           (emu_path, core) \<leftarrow> Lodor_resolveEmu (m_fs m) sd_path;
           let m = m\<lparr>m_core_override := core\<rparr>;
           (if \<not> exists (m_fs m) emu_path then Some (False, m)
            else (case launch_command emu_name emu_path sd_path core of
                    None \<Rightarrow> Some (False, m)
                  | Some cmd \<Rightarrow> do {
                      fs \<leftarrow> putInt (m_fs m) RESUME_SLOT_PATH AUTO_RESUME_SLOT;
                      Some (True, queueNext (m\<lparr>m_fs := fs\<rparr>) cmd)
                    }))
         })
      })"

definition openPak :: "minui \<Rightarrow> string \<Rightarrow> minui option" where
  "openPak m path = do {
     m \<leftarrow> (if prefixMatch ROMS_PATH path then addRecent m path None else Some m);
     m \<leftarrow> saveLast m path;
     Some (case pak_command path of None \<Rightarrow> m | Some cmd \<Rightarrow> queueNext m cmd)
   }"

text \<open>
  The disc that the state in the slot was saved with. An absolute path is taken as it is, a
  relative one is below the playlist's folder.
\<close>

definition slot_disc :: "fsys \<Rightarrow> string \<Rightarrow> string \<Rightarrow> string \<Rightarrow> string \<Rightarrow> string option" where
  "slot_disc fs emu_name m3u_path slot sd_path = do {
     rom_file \<leftarrow> file_name m3u_path;
     disc_path_path \<leftarrow> c_buf 256 (SHARED_USERDATA_PATH @ ''/.minui/'' @ emu_name @ ''/'' @ rom_file @ ''.''
                               @ slot @ ''.txt'');
     (if exists fs disc_path_path then do {
        disc_path \<leftarrow> getFile fs disc_path_path 256;
        (if disc_path \<noteq> [] \<and> hd disc_path = CHR ''/'' then Some disc_path
         else do {
           i \<leftarrow> strrchr m3u_path (CHR ''/'');
           c_buf 256 (take (Suc i) m3u_path @ disc_path)
         })
      }
      else Some sd_path)
   }"

text \<open>
  The argument when is the local time that Lodor_recordLocalPlay writes. The core that the command
  exports is the global lodor_core_override after addRecent, which may resolve again.
\<close>

definition openRom :: "string \<Rightarrow> minui \<Rightarrow> string \<Rightarrow> string option \<Rightarrow> minui option" where
  "openRom when m path last_dir = do {
     sd_path \<leftarrow> c_buf 256 path;
     (has_m3u, m3u_path) \<leftarrow> hasM3u (m_fs m) sd_path;
     let recent_path = (if has_m3u then m3u_path else sd_path);
     sd_path \<leftarrow>
       (if has_m3u \<and> suffixMatch ''.m3u'' sd_path
        then map_option snd (getFirstDisc (m_fs m) m3u_path sd_path)
        else Some sd_path);
     emu_name \<leftarrow> Lodor_romTag sd_path;
     (m, sd_path) \<leftarrow>
       (if m_should_resume m then do {
          slot \<leftarrow> getFile (m_fs m) (m_slot_path m) 16;
          let m = m\<lparr>m_fs := putFile (m_fs m) RESUME_SLOT_PATH slot, m_should_resume := False\<rparr>;
          sd_path \<leftarrow> (if has_m3u then slot_disc (m_fs m) emu_name m3u_path slot sd_path else Some sd_path);
          Some (m, sd_path)
        }
        else do {
          fs \<leftarrow> putInt (m_fs m) RESUME_SLOT_PATH 8;
          Some (m\<lparr>m_fs := fs\<rparr>, sd_path)
        });
     (emu_path, core) \<leftarrow> Lodor_resolveEmu (m_fs m) sd_path;
     let m = m\<lparr>m_core_override := core\<rparr>;
     m \<leftarrow> addRecent m recent_path (m_recent_alias m);
     let m = m\<lparr>m_fs := Lodor_recordLocalPlay (m_fs m) when recent_path (m_recent_alias m)\<rparr>;
     m \<leftarrow> saveLast m (case last_dir of None \<Rightarrow> sd_path | Some l \<Rightarrow> l);
     Some (case launch_command emu_name emu_path sd_path (m_core_override m) of
             None \<Rightarrow> m
           | Some cmd \<Rightarrow> queueNext m cmd)
   }"

section \<open>Directories\<close>

definition MAIN_ROW_COUNT :: "minui \<Rightarrow> int" where
  "MAIN_ROW_COUNT m = (if m_is_560p m then 8 else 6)"

abbreviation dir_count :: "directory \<Rightarrow> int" where
  "dir_count d \<equiv> int (length (dir_entries d))"

text \<open>The second half of openDirectory: push a new directory with its window.\<close>

definition push_directory :: "minui \<Rightarrow> string \<Rightarrow> minui option" where
  "push_directory m path = do {
     let (selected, start, bottom) =
       (case m_top m of
          None \<Rightarrow> (0, 0, 0)
        | Some top_dir \<Rightarrow>
            if 0 < dir_count top_dir \<and> m_restore_depth m = int (length (m_stack m))
               \<and> dir_selected top_dir = m_restore_relative m
            then (m_restore_selected m, m_restore_start m, m_restore_end m)
            else (0, 0, 0));
     (d, m) \<leftarrow> Directory_new m path selected;
     let d = d\<lparr>dir_start := start,
               dir_end := (if bottom \<noteq> 0 then bottom
                           else if dir_count d < MAIN_ROW_COUNT m then dir_count d else MAIN_ROW_COUNT m)\<rparr>;
     Some (m\<lparr>m_stack := m_stack m @ [d]\<rparr>)
   }"

definition openDirectory :: "string \<Rightarrow> minui \<Rightarrow> string \<Rightarrow> bool \<Rightarrow> minui option" where
  "openDirectory when m path auto_launch = do {
     (has_cue, auto_path) \<leftarrow> hasCue (m_fs m) path;
     (if has_cue \<and> auto_launch then openRom when m auto_path (Some path)
      else do {
        i \<leftarrow> strrchr auto_path (CHR ''.'');
        let m3u_path = take (Suc i) auto_path @ ''m3u'';
        (found, auto_path) \<leftarrow>
          (if exists (m_fs m) m3u_path \<and> auto_launch then getFirstDisc (m_fs m) m3u_path []
           else Some (False, auto_path));
        (if found then openRom when m auto_path (Some path) else push_directory m path)
      })
   }"

text \<open>Closing the last directory reads before the stack.\<close>

definition closeDirectory :: "minui \<Rightarrow> minui option" where
  "closeDirectory m = do {
     top_dir \<leftarrow> m_top m;
     let m = m\<lparr>m_restore_selected := dir_selected top_dir, m_restore_start := dir_start top_dir,
               m_restore_end := dir_end top_dir\<rparr>;
     let m = m\<lparr>m_stack := butlast (m_stack m)\<rparr>;
     let m = m\<lparr>m_restore_depth := int (length (m_stack m))\<rparr>;
     top_dir \<leftarrow> m_top m;
     Some (m\<lparr>m_restore_relative := dir_selected top_dir\<rparr>)
   }"

text \<open>The clamp of the selection and window that the in-place updates of a listing share.\<close>

definition clamp_window :: "int \<Rightarrow> directory \<Rightarrow> directory" where
  "clamp_window rows d =
     (let count = dir_count d;
          d = (if count \<le> dir_selected d then d\<lparr>dir_selected := (if 0 < count then count - 1 else 0)\<rparr> else d);
          d = (if dir_selected d < 0 then d\<lparr>dir_selected := 0\<rparr> else d);
          d = d\<lparr>dir_start := 0, dir_end := (if count < rows then count else rows)\<rparr>
      in if dir_end d \<le> dir_selected d then
           (let d = d\<lparr>dir_end := dir_selected d + 1\<rparr>;
                d = d\<lparr>dir_start := dir_end d - rows\<rparr>;
                d = (if dir_start d < 0 then d\<lparr>dir_start := 0\<rparr> else d)
            in d\<lparr>dir_end := (if dir_start d + rows < count then dir_start d + rows else count)\<rparr>)
         else d)"

definition Lodor_rescanTop :: "minui \<Rightarrow> minui option" where
  "Lodor_rescanTop m =
     (case m_top m of
        None \<Rightarrow> Some m
      | Some top_dir \<Rightarrow> do {
          let path = c_trunc MAX_PATH (dir_path top_dir);
          (fresh, m) \<leftarrow> Directory_new m path (dir_selected top_dir);
          Some (set_top m (clamp_window (MAIN_ROW_COUNT m) fresh))
        })"

definition Entry_open :: "string \<Rightarrow> minui \<Rightarrow> entry \<Rightarrow> minui option" where
  "Entry_open when m self = do {
     let m = m\<lparr>m_recent_alias := Some (e_name self)\<rparr>;
     (case e_type self of
        ENTRY_ROM \<Rightarrow> do {
          top_dir \<leftarrow> m_top m;
          last_dir \<leftarrow>
            (if prefixMatch COLLECTIONS_PATH (dir_path top_dir) then do {
               filename \<leftarrow> file_name (e_path self);
               filename \<leftarrow> c_buf 256 filename;
               map_option Some (c_buf 256 (dir_path top_dir @ ''/'' @ filename))
             }
             else Some None);
          openRom when m (e_path self) last_dir
        }
      | ENTRY_PAK \<Rightarrow> openPak m (e_path self)
      | ENTRY_DIR \<Rightarrow> openDirectory when m (e_path self) True)
   }"

section \<open>Restoring the last place\<close>

text \<open>The path, its parent, and so on up to the card's root; a path off the card is a fault.\<close>

function path_chain :: "string \<Rightarrow> string list option" where
  "path_chain last_path =
     (if exactMatch (Some last_path) (Some SDCARD_PATH) then Some []
      else (case strrchr last_path (CHR ''/'') of
              None \<Rightarrow> None
            | Some slash \<Rightarrow> map_option (Cons last_path) (path_chain (take slash last_path))))"
  by pat_completeness auto
termination
  by (relation "measure length") (auto dest: strrchr_less)

declare path_chain.simps [simp del]

text \<open>Select row i of the top directory and scroll to it when it is below the window.\<close>

definition select_row :: "int \<Rightarrow> int \<Rightarrow> directory \<Rightarrow> directory" where
  "select_row rows i d =
     (let d = d\<lparr>dir_selected := i\<rparr>
      in if dir_end d \<le> i then
           (let d = d\<lparr>dir_start := i, dir_end := i + rows\<rparr>
            in if dir_count d < dir_end d then d\<lparr>dir_end := dir_count d, dir_start := dir_count d - rows\<rparr> else d)
         else d)"

definition restore_matches :: "string \<Rightarrow> string \<Rightarrow> string \<Rightarrow> string \<Rightarrow> entry \<Rightarrow> bool" where
  "restore_matches path collated_path full_path filename e \<longleftrightarrow>
     exactMatch (Some (e_path e)) (Some path)
     \<or> (collated_path \<noteq> [] \<and> prefixMatch collated_path (e_path e))
     \<or> (prefixMatch COLLECTIONS_PATH full_path \<and> suffixMatch filename (e_path e))"

text \<open>The scan of the entries of top for one path of the chain.\<close>

fun restore_scan ::
    "string \<Rightarrow> bool \<Rightarrow> (entry \<Rightarrow> bool) \<Rightarrow> int \<Rightarrow> entry list \<Rightarrow> minui \<Rightarrow> minui option" where
  "restore_scan when is_last matches i [] m = Some m"
| "restore_scan when is_last matches i (e # es) m =
     (if \<not> matches e then restore_scan when is_last matches (i + 1) es m
      else do {
        top_dir \<leftarrow> m_top m;
        let m = set_top m (select_row (MAIN_ROW_COUNT m) i top_dir);
        (if is_last \<and> \<not> exactMatch (Some (e_path e)) (Some FAUX_RECENT_PATH)
            \<and> \<not> (\<not> exactMatch (Some (e_path e)) (Some COLLECTIONS_PATH)
                 \<and> prefixMatch COLLECTIONS_PATH (e_path e))
         then Some m
         else if e_type e = ENTRY_DIR then openDirectory when m (e_path e) False
         else restore_scan when is_last matches (i + 1) es m)
      })"

text \<open>The paths, shortest first; the last one is the path that was saved.\<close>

fun restore_paths :: "string \<Rightarrow> string \<Rightarrow> string \<Rightarrow> string list \<Rightarrow> minui \<Rightarrow> minui option" where
  "restore_paths when full_path filename [] m = Some m"
| "restore_paths when full_path filename (path # paths) m = do {
     m \<leftarrow>
       (if exactMatch (Some path) (Some ROMS_PATH) then Some m
        else do {
          console \<leftarrow> (if suffixMatch '')'' path then isConsoleDir path else Some False);
          collated_path \<leftarrow> (if console then collated_path_of path else Some []);
          top_dir \<leftarrow> m_top m;
          restore_scan when (paths = []) (restore_matches path collated_path full_path filename) 0
            (dir_entries top_dir) m
        });
     restore_paths when full_path filename paths m
   }"

definition loadLast :: "string \<Rightarrow> minui \<Rightarrow> minui option" where
  "loadLast when m =
     (if \<not> exists (m_fs m) LAST_PATH then Some m
      else do {
        last_path \<leftarrow> getFile (m_fs m) LAST_PATH 256;
        let filename = (case strrchr last_path (CHR ''/'') of None \<Rightarrow> [] | Some i \<Rightarrow> drop i last_path);
        chain \<leftarrow> path_chain last_path;
        restore_paths when last_path filename (rev chain) m
      })"

definition Menu_init :: "string \<Rightarrow> minui \<Rightarrow> minui option" where
  "Menu_init when m = do {
     let m = m\<lparr>m_stack := [], m_recents := []\<rparr>;
     m \<leftarrow> openDirectory when m SDCARD_PATH False;
     loadLast when m
   }"

section \<open>The window of a listing\<close>

text \<open>
  A window of a listing on a screen of the given number of rows: it lies within the entries, shows
  as many of them as fit, and holds the selected one.
\<close>

definition window_ok :: "int \<Rightarrow> directory \<Rightarrow> bool" where
  "window_ok rows d \<longleftrightarrow>
     0 \<le> dir_start d \<and> dir_end d \<le> dir_count d \<and> dir_end d - dir_start d = min rows (dir_count d)
     \<and> (if dir_entries d = [] then dir_selected d = 0
        else dir_start d \<le> dir_selected d \<and> dir_selected d < dir_end d)"

lemma clamp_window_ok: "0 < rows \<Longrightarrow> window_ok rows (clamp_window rows d)"
  by (cases "dir_entries d = []") (auto simp: clamp_window_def window_ok_def Let_def)

lemma clamp_window_entries [simp]:
  "dir_entries (clamp_window rows d) = dir_entries d" "dir_path (clamp_window rows d) = dir_path d"
  by (simp_all add: clamp_window_def Let_def)

text \<open>The selection moves only when it is past the end.\<close>

lemma clamp_window_selected:
  "0 \<le> dir_selected d \<Longrightarrow> dir_selected d < dir_count d \<Longrightarrow> dir_selected (clamp_window rows d) = dir_selected d"
  by (auto simp: clamp_window_def Let_def)

lemma MAIN_ROW_COUNT_pos: "0 < MAIN_ROW_COUNT m"
  by (simp add: MAIN_ROW_COUNT_def)

lemma m_top_set_top [simp]: "m_top (set_top m d) = Some d"
  by (simp add: m_top_def set_top_def)

section \<open>What directories keep\<close>

lemma hasRecents_frame:
  assumes "hasRecents m = Some (b, m')"
  shows "m_stack m' = m_stack m \<and> m_restore_depth m' = m_restore_depth m \<and> m_is_560p m' = m_is_560p m"
proof -
  let ?P = "\<lambda>(x, pp :: string list, h :: int). m_stack x = m_stack m
    \<and> m_restore_depth x = m_restore_depth m \<and> m_is_560p x = m_is_560p m"
  obtain a where a: "recents_disc m = Some a" "?P a"
    using assms by (auto simp: hasRecents_def recents_disc_def Let_def elim!: bind_Some_elim split: if_splits)
  obtain c where c: "(case fs_files (m_fs (fst a)) RECENT_PATH of None \<Rightarrow> Some a
      | Some contents \<Rightarrow> fold_opt recents_line (read_lines 256 contents) a) = Some c" "m' = saveRecents (fst c)"
    using assms a(1) by (cases a) (auto simp: hasRecents_def elim!: bind_Some_elim split: option.splits)
  have "?P s'" if "?P s" "recents_line line s = Some s'" for line s s'
    using that by (auto simp: recents_line_def Let_def elim!: bind_Some_elim split: if_splits option.splits prod.splits)
  then have "?P c" using a(2) c(1) fold_opt_invariant [of recents_line _ a c ?P]
    by (auto split: option.splits)
  then show ?thesis using c(2) by (auto simp: saveRecents_def)
qed

lemma Directory_index_frame:
  "Directory_index fs d = Some d' \<Longrightarrow> dir_path d' = dir_path d \<and> dir_selected d' = dir_selected d"
  by (auto simp: Directory_index_def Let_def elim!: bind_Some_elim split: if_splits)

lemma Directory_new_frame:
  assumes "Directory_new m path selected = Some (d, m')"
  shows "dir_path d = path \<and> dir_selected d = selected \<and> m_stack m' = m_stack m"
proof -
  obtain name es m1 where m1: "(if exactMatch (Some path) (Some SDCARD_PATH) then getRoot m = Some (es, m1) else m1 = m)"
    and d: "Directory_index (m_fs m1) \<lparr>dir_path = path, dir_name = name, dir_entries = es, dir_alphas = IntArray_new,
        dir_selected = selected, dir_start = 0, dir_end = 0\<rparr> = Some d" "m' = m1"
    using assms by (auto simp: Directory_new_def elim!: bind_Some_elim split: if_splits)
  have "m_stack m1 = m_stack m"
  proof (cases "exactMatch (Some path) (Some SDCARD_PATH)")
    case True
    then have "getRoot m = Some (es, m1)" using m1 by simp
    then obtain b where "hasRecents m = Some (b, m1)"
      by (fastforce simp: getRoot_def Let_def elim!: bind_Some_elim split: if_splits option.splits prod.splits)
    then show ?thesis by (simp add: hasRecents_frame)
  next
    case False
    then show ?thesis using m1 by simp
  qed
  then show ?thesis using Directory_index_frame [OF d(1)] d(2) by simp
qed

lemma openDirectory_no_launch:
  "openDirectory when m path False = Some m' \<Longrightarrow> push_directory m path = Some m'"
  by (auto simp: openDirectory_def Let_def elim!: bind_Some_elim split: if_splits)

section \<open>What a launch leaves behind\<close>

lemma queueNext_simps [simp]:
  "m_quit (queueNext m cmd)" "m_recents (queueNext m cmd) = m_recents m"
  "fs_writable (m_fs m) NEXT_PATH \<Longrightarrow> fs_files (m_fs (queueNext m cmd)) NEXT_PATH = Some cmd"
  "p \<noteq> NEXT_PATH \<Longrightarrow> fs_files (m_fs (queueNext m cmd)) p = fs_files (m_fs m) p"
  by (simp_all add: queueNext_def putFile_def)

lemma putFile_writable [simp]: "fs_writable (putFile fs p c) = fs_writable fs"
  by (simp add: putFile_def)

lemma putInt_frame: "putInt fs p v = Some fs' \<Longrightarrow> fs_writable fs' = fs_writable fs"
  by (auto simp: putInt_def split: if_splits)

lemma recordLocalPlay_writable [simp]:
  "fs_writable (Lodor_recordLocalPlay fs when p a) = fs_writable fs"
  by (simp add: Lodor_recordLocalPlay_def)

lemma saveLast_frame:
  "saveLast m p = Some m' \<Longrightarrow> m_recents m' = m_recents m \<and> m_quit m' = m_quit m
    \<and> m_core_override m' = m_core_override m \<and> fs_writable (m_fs m') = fs_writable (m_fs m)"
  by (auto simp: saveLast_def Let_def elim!: bind_Some_elim)

text \<open>
  A game that is put on top of the recents is resolved once more when it is new, so the core of
  the launch survives exactly because it is the same file that is resolved.
\<close>

lemma addRecent_frame:
  assumes "addRecent m path alias = Some m'"
  shows "m_quit m' = m_quit m \<and> fs_writable (m_fs m') = fs_writable (m_fs m)
    \<and> r_path (hd (m_recents m')) = drop (length SDCARD_PATH) path"
  using addRecent_cases [OF assms]
  by (auto simp: bump_to_top_eq saveRecents_def split: if_splits dest: Recent_new_path)

lemma addRecent_core:
  assumes "addRecent m path alias = Some m'" "prefix SDCARD_PATH path"
    and "Lodor_resolveEmu (m_fs m) path = Some (pak, m_core_override m)"
  shows "m_core_override m' = m_core_override m"
proof -
  have "SDCARD_PATH @ drop (length SDCARD_PATH) path = path" using assms(2) by (auto simp: prefix_def)
  then show ?thesis
    using addRecent_cases [OF assms(1)] assms(3)
    by (auto simp: Recent_new_def Lodor_hasEmuFor_def elim!: bind_Some_elim split: if_splits)
qed

text \<open>The last three steps of openRom: the bookkeeping, then the command.\<close>

lemma launch_tail:
  assumes "addRecent m rp alias = Some m1"
    and "saveLast (m1\<lparr>m_fs := Lodor_recordLocalPlay (m_fs m1) when rp alias\<rparr>) l = Some m2"
    and "m' = (case launch_command tag pak sd (m_core_override m2) of None \<Rightarrow> m2 | Some cmd \<Rightarrow> queueNext m2 cmd)"
    and "fs_writable (m_fs m) NEXT_PATH" "\<not> m_quit m" "m_quit m'"
  shows "\<exists>cmd. fs_files (m_fs m') NEXT_PATH = Some cmd
    \<and> launch_command tag pak sd (m_core_override m1) = Some cmd \<and> m_recents m' = m_recents m1"
  using assms(3-6) addRecent_frame [OF assms(1)] saveLast_frame [OF assms(2)]
  by (auto split: option.splits)

lemma openRom_plain:
  assumes "openRom when m path last_dir = Some m'" "hasM3u (m_fs m) path = Some (False, m3u)"
    and "\<not> m_should_resume m"
  shows "\<exists>tag fs pak core m1 m2. Lodor_romTag path = Some tag
    \<and> putInt (m_fs m) RESUME_SLOT_PATH 8 = Some fs \<and> Lodor_resolveEmu fs path = Some (pak, core)
    \<and> addRecent (m\<lparr>m_fs := fs, m_core_override := core\<rparr>) path (m_recent_alias m) = Some m1
    \<and> saveLast (m1\<lparr>m_fs := Lodor_recordLocalPlay (m_fs m1) when path (m_recent_alias m)\<rparr>)
        (case last_dir of None \<Rightarrow> path | Some l \<Rightarrow> l) = Some m2
    \<and> m' = (case launch_command tag pak path (m_core_override m2) of None \<Rightarrow> m2 | Some cmd \<Rightarrow> queueNext m2 cmd)"
proof -
  obtain tag fs pak core m1 m2 where run: "Lodor_romTag path = Some tag"
      "putInt (m_fs m) RESUME_SLOT_PATH 8 = Some fs" "Lodor_resolveEmu fs path = Some (pak, core)"
    and add: "addRecent (m\<lparr>m_fs := fs, m_core_override := core\<rparr>) path (m_recent_alias m) = Some m1"
    and tl: "saveLast (m1\<lparr>m_fs := Lodor_recordLocalPlay (m_fs m1) when path (m_recent_alias m1)\<rparr>)
        (case last_dir of None \<Rightarrow> path | Some l \<Rightarrow> l) = Some m2"
      "m' = (case launch_command tag pak path (m_core_override m2) of None \<Rightarrow> m2 | Some cmd \<Rightarrow> queueNext m2 cmd)"
    using assms by (auto simp: openRom_def Let_def elim!: bind_Some_elim split: if_splits)
  have "m_recent_alias m1 = m_recent_alias m"
    using addRecent_cases [OF add] by (auto simp: saveRecents_def split: if_splits)
  with run add tl show ?thesis by metis
qed

section \<open>Properties\<close>

text \<open>
  C1. Launching a game queues the right command: for a ROM without a playlist, when openRom
  decides to quit the launcher, /tmp/next holds a command whose shell words are the folder tag of
  the ROM, the core of its override when there is one, the pak the override or the tag resolves
  to, and the ROM itself; and the game heads the recents.
\<close>

theorem openRom_queues_launch:
  assumes "openRom when m path last_dir = Some m'" "hasM3u (m_fs m) path = Some (False, m3u)"
    and "\<not> m_should_resume m" "prefix SDCARD_PATH path"
    and "fs_writable (m_fs m) NEXT_PATH" "\<not> m_quit m" "m_quit m'"
  shows "\<exists>tag fs pak core cmd. Lodor_romTag path = Some tag
    \<and> putInt (m_fs m) RESUME_SLOT_PATH 8 = Some fs \<and> Lodor_resolveEmu fs path = Some (pak, core)
    \<and> fs_files (m_fs m') NEXT_PATH = Some cmd
    \<and> sh_words cmd = Some ([''LODOR_ROM_TAG='' @ tag]
        @ (if core = [] then [] else [''LODOR_CORE_OVERRIDE='' @ core]) @ [pak, path])
    \<and> r_path (hd (m_recents m')) = drop (length SDCARD_PATH) path"
proof -
  from openRom_plain [OF assms(1-3)] obtain tag fs pak core m1 m2 where
    run: "Lodor_romTag path = Some tag" "putInt (m_fs m) RESUME_SLOT_PATH 8 = Some fs"
      "Lodor_resolveEmu fs path = Some (pak, core)"
    and add: "addRecent (m\<lparr>m_fs := fs, m_core_override := core\<rparr>) path (m_recent_alias m) = Some m1"
    and tl: "saveLast (m1\<lparr>m_fs := Lodor_recordLocalPlay (m_fs m1) when path (m_recent_alias m)\<rparr>)
        (case last_dir of None \<Rightarrow> path | Some l \<Rightarrow> l) = Some m2"
      "m' = (case launch_command tag pak path (m_core_override m2) of None \<Rightarrow> m2 | Some cmd \<Rightarrow> queueNext m2 cmd)"
    by blast
  have "m_core_override m1 = core" using addRecent_core [OF add assms(4)] run(3) by simp
  moreover obtain cmd where "fs_files (m_fs m') NEXT_PATH = Some cmd"
    "launch_command tag pak path (m_core_override m1) = Some cmd" "m_recents m' = m_recents m1"
    using launch_tail [OF add tl] assms(5-7) putInt_frame [OF run(2)] by auto
  ultimately show ?thesis
    using run launch_words addRecent_frame [OF add] by metis
qed

text \<open>
  Going back into a folder restores the view: closing a directory and opening the same path
  again from an unchanged parent gives back the selected row and the scroll window, on a stack
  that is otherwise unchanged.
\<close>

theorem reopen_restores_view:
  assumes "m_top m = Some d" "closeDirectory m = Some m1" "m_top m1 = Some parent"
    and "dir_entries parent \<noteq> []" "dir_end d \<noteq> 0"
    and "openDirectory when m1 (dir_path d) False = Some m2"
  shows "\<exists>d'. m_top m2 = Some d' \<and> dir_path d' = dir_path d \<and> dir_selected d' = dir_selected d
    \<and> dir_start d' = dir_start d \<and> dir_end d' = dir_end d \<and> butlast (m_stack m2) = butlast (m_stack m)"
proof -
  have m1: "m_restore_selected m1 = dir_selected d" "m_restore_start m1 = dir_start d"
    "m_restore_end m1 = dir_end d" "m_stack m1 = butlast (m_stack m)"
    "m_restore_depth m1 = int (length (m_stack m1))" "m_restore_relative m1 = dir_selected parent"
    using assms(1-3) by (auto simp: closeDirectory_def Let_def m_top_def elim!: bind_Some_elim split: if_splits)
  have "push_directory m1 (dir_path d) = Some m2" using assms(6) by (rule openDirectory_no_launch)
  then obtain d0 m3 where "Directory_new m1 (dir_path d) (dir_selected d) = Some (d0, m3)"
    "m2 = m3\<lparr>m_stack := m_stack m3 @ [d0\<lparr>dir_start := dir_start d, dir_end := dir_end d\<rparr>]\<rparr>"
    using assms(3-5) m1 by (auto simp: push_directory_def Let_def elim!: bind_Some_elim)
  then show ?thesis using m1(4) Directory_new_frame by (auto simp: m_top_def)
qed

definition one_rom :: minui where
  "one_rom = (init_minui (card_with [(''/mnt/SDCARD/Roms/GB (GB)/a.gb'', ''x''),
       (''/mnt/SDCARD/.system/miyoomini/paks/Emus/GB.pak/launch.sh'', [])]))\<lparr>m_stack := [folder [], folder []]\<rparr>"

theorem openRom_queues_launch_witness:
  "\<exists>m' cmd. openRom ''now'' one_rom ''/mnt/SDCARD/Roms/GB (GB)/a.gb'' None = Some m'
    \<and> fs_files (m_fs m') NEXT_PATH = Some cmd
    \<and> sh_words cmd = Some [''LODOR_ROM_TAG=GB'', ''/mnt/SDCARD/.system/miyoomini/paks/Emus/GB.pak/launch.sh'',
        ''/mnt/SDCARD/Roms/GB (GB)/a.gb'']"
proof -
  let ?p = "''/mnt/SDCARD/Roms/GB (GB)/a.gb''"
  have "map_option m_quit (openRom ''now'' one_rom ?p None) = Some True" by code_simp
  then obtain m' where m': "openRom ''now'' one_rom ?p None = Some m'" "m_quit m'" by auto
  have ok: "hasM3u (m_fs one_rom) ?p = Some (False, ''/mnt/SDCARD/Roms/GB (GB)/GB (GB).m3u'')"
    "\<not> m_should_resume one_rom" "prefix SDCARD_PATH ?p" "fs_writable (m_fs one_rom) NEXT_PATH"
    "\<not> m_quit one_rom"
    by code_simp+
  have tag: "Lodor_romTag ?p = Some ''GB''" by code_simp
  have "Option.bind (putInt (m_fs one_rom) RESUME_SLOT_PATH 8) (\<lambda>fs. Lodor_resolveEmu fs ?p)
      = Some (''/mnt/SDCARD/.system/miyoomini/paks/Emus/GB.pak/launch.sh'', [])" by code_simp
  then show ?thesis using openRom_queues_launch [OF m'(1) ok m'(2)] tag m'(1) by auto
qed

theorem reopen_restores_view_witness:
  "\<exists>m1 m2 d'. closeDirectory (one_rom\<lparr>m_stack := [folder [game ''a''], (folder [])\<lparr>dir_end := 6, dir_selected := 3\<rparr>]\<rparr>) = Some m1
    \<and> openDirectory ''now'' m1 ''/mnt/SDCARD/Roms/Game Boy (GB)'' False = Some m2 \<and> m_top m2 = Some d' \<and> dir_selected d' = 3"
proof -
  let ?m = "one_rom\<lparr>m_stack := [folder [game ''a''], (folder [])\<lparr>dir_end := 6, dir_selected := 3\<rparr>]\<rparr>"
  have path: "dir_path (folder []) = ''/mnt/SDCARD/Roms/Game Boy (GB)''" by code_simp
  have "Option.bind (closeDirectory ?m) (\<lambda>m1. openDirectory ''now'' m1 ''/mnt/SDCARD/Roms/Game Boy (GB)'' False) \<noteq> None"
    by code_simp
  then obtain m1 m2 where run: "closeDirectory ?m = Some m1"
    "openDirectory ''now'' m1 ''/mnt/SDCARD/Roms/Game Boy (GB)'' False = Some m2"
    by (auto elim!: bind_Some_elim)
  have "m_top m1 = Some (folder [game ''a''])"
    using run(1) by (auto simp: closeDirectory_def m_top_def Let_def)
  moreover have "m_top ?m = Some ((folder [])\<lparr>dir_end := 6, dir_selected := 3\<rparr>)" by (simp add: m_top_def)
  ultimately show ?thesis
    using run reopen_restores_view [of ?m "(folder [])\<lparr>dir_end := 6, dir_selected := 3\<rparr>" m1
        "folder [game ''a'']" "''now''" m2] by (auto simp: folder_def)
qed

text \<open>
  C4. Auto-resume runs at most once and launches what the request names: autoResume removes the
  request before anything else, so no later start repeats it. It launches exactly when the requested
  game is on the card and the pak that Lodor_resolveEmu gives for it, the override of its sidecar
  included, is there and the command fits; then /tmp/next runs that pak with that core on that
  game, with the folder tag and the hidden slot 9. Otherwise the launcher stays open and queues
  nothing.
\<close>

theorem autoResume_once:
  assumes "autoResume m = Some (launched, m')" "fs_files (m_fs m) AUTO_RESUME_PATH = Some req"
    and "fs_writable (m_fs m) NEXT_PATH" "fs_writable (m_fs m) RESUME_SLOT_PATH"
    and "fs = unlink (m_fs m) AUTO_RESUME_PATH" "sd = SDCARD_PATH @ c_str (c_trunc 256 req)"
  shows "fs_files (m_fs m') AUTO_RESUME_PATH = None
    \<and> (launched \<longleftrightarrow> exists fs sd \<and> (\<exists>tag pak core. Lodor_romTag sd = Some tag
        \<and> Lodor_resolveEmu fs sd = Some (pak, core) \<and> exists fs pak \<and> launch_command tag pak sd core \<noteq> None))
    \<and> (if launched then
         m_quit m' \<and> fs_files (m_fs m') RESUME_SLOT_PATH = Some ''9''
         \<and> (\<exists>cmd tag pak core. Lodor_romTag sd = Some tag \<and> Lodor_resolveEmu fs sd = Some (pak, core)
            \<and> fs_files (m_fs m') NEXT_PATH = Some cmd
            \<and> sh_words cmd = Some ([''LODOR_ROM_TAG='' @ tag]
                @ (if core = [] then [] else [''LODOR_CORE_OVERRIDE='' @ core]) @ [pak, sd]))
       else m_quit m' = m_quit m \<and> fs_files (m_fs m') NEXT_PATH = fs_files (m_fs m) NEXT_PATH)"
proof -
  have paths: "AUTO_RESUME_PATH \<noteq> RESUME_SLOT_PATH" "AUTO_RESUME_PATH \<noteq> NEXT_PATH" "RESUME_SLOT_PATH \<noteq> NEXT_PATH"
    by (simp_all add: path_defs NEXT_PATH_def)
  have slot: "putInt fs RESUME_SLOT_PATH AUTO_RESUME_SLOT = Some (putFile fs RESUME_SLOT_PATH ''9'')"
  proof -
    have "c_int AUTO_RESUME_SLOT = ''9''" by code_simp
    then show ?thesis by (simp add: putInt_def)
  qed
  have ex: "exists (m_fs m) AUTO_RESUME_PATH" "getFile (m_fs m) AUTO_RESUME_PATH 256 = Some (c_str (c_trunc 256 req))"
    using assms(2) by (simp_all add: exists_def getFile_def)
  note run = assms(1) [unfolded autoResume_def, simplified ex Let_def, simplified assms(5,6) [symmetric]]
  show ?thesis
  proof (cases launched)
    case True
    then obtain tag pak core cmd where c: "Lodor_romTag sd = Some tag" "Lodor_resolveEmu fs sd = Some (pak, core)"
      "exists fs pak" "exists fs sd" "launch_command tag pak sd core = Some cmd"
      "m' = queueNext (m\<lparr>m_core_override := core, m_fs := putFile fs RESUME_SLOT_PATH ''9''\<rparr>) cmd"
      using run ex slot assms(5,6) by (auto elim!: bind_Some_elim split: if_splits option.splits)
    have files: "fs_files (m_fs m') AUTO_RESUME_PATH = None" "fs_files (m_fs m') RESUME_SLOT_PATH = Some ''9''"
      "fs_files (m_fs m') NEXT_PATH = Some cmd"
      using c(6) assms(3-5) paths by (auto simp: queueNext_def putFile_def unlink_def)
    show ?thesis using True c files launch_words [OF c(5)] by (auto simp: queueNext_def)
  next
    case False
    then have "\<exists>core. m' = m\<lparr>m_fs := fs, m_core_override := core\<rparr>"
      using run ex slot assms(5,6) by (auto elim!: bind_Some_elim split: if_splits option.splits intro: exI [of _ "m_core_override m"])
    moreover have "\<not> (exists fs sd \<and> (\<exists>tag pak core. Lodor_romTag sd = Some tag
        \<and> Lodor_resolveEmu fs sd = Some (pak, core) \<and> exists fs pak \<and> launch_command tag pak sd core \<noteq> None))"
      using False run ex slot assms(5,6) by (auto elim!: bind_Some_elim split: if_splits option.splits)
    ultimately show ?thesis using False paths by (auto simp: unlink_def assms(5))
  qed
qed

theorem autoResume_once_witness:
  "\<exists>m' cmd. autoResume (one_rom\<lparr>m_fs := putFile (m_fs one_rom) AUTO_RESUME_PATH ''/Roms/GB (GB)/a.gb''\<rparr>) = Some (True, m')
    \<and> fs_files (m_fs m') AUTO_RESUME_PATH = None \<and> fs_files (m_fs m') RESUME_SLOT_PATH = Some ''9''
    \<and> fs_files (m_fs m') NEXT_PATH = Some cmd
    \<and> sh_words cmd = Some [''LODOR_ROM_TAG=GB'', ''/mnt/SDCARD/.system/miyoomini/paks/Emus/GB.pak/launch.sh'',
        ''/mnt/SDCARD/Roms/GB (GB)/a.gb'']"
proof -
  let ?m = "one_rom\<lparr>m_fs := putFile (m_fs one_rom) AUTO_RESUME_PATH ''/Roms/GB (GB)/a.gb''\<rparr>"
  let ?sd = "SDCARD_PATH @ c_str (c_trunc 256 ''/Roms/GB (GB)/a.gb'')"
  have "map_option fst (autoResume ?m) = Some True" by code_simp
  then obtain m' where run: "autoResume ?m = Some (True, m')" by auto
  have req: "fs_files (m_fs ?m) AUTO_RESUME_PATH = Some ''/Roms/GB (GB)/a.gb''" "fs_writable (m_fs ?m) NEXT_PATH"
    "fs_writable (m_fs ?m) RESUME_SLOT_PATH"
    by code_simp+
  have "Lodor_romTag ?sd = Some ''GB''" "?sd = ''/mnt/SDCARD/Roms/GB (GB)/a.gb''"
    "Lodor_resolveEmu (unlink (m_fs ?m) AUTO_RESUME_PATH) ?sd
      = Some (''/mnt/SDCARD/.system/miyoomini/paks/Emus/GB.pak/launch.sh'', [])" by code_simp+
  then show ?thesis using autoResume_once [OF run req refl refl] run by auto
qed

section \<open>Two flaws\<close>

text \<open>
  Lodor_rescanTop at the root calls getRoot again, and with it hasRecents, which appends to the
  recents it already holds: the list then holds every game twice, and so does recent.txt.
\<close>

definition root_view :: minui where
  "root_view = (case Menu_init ''now'' (one_rom\<lparr>m_fs := putFile (m_fs one_rom) RECENT_PATH (''/Roms/GB (GB)/a.gb'' @ [NL])\<rparr>) of
     Some m \<Rightarrow> m)"

theorem rescanTop_duplicates_recents:
  "map r_path (m_recents root_view) = [''/Roms/GB (GB)/a.gb''] \<and>
   map_option (\<lambda>m. map r_path (m_recents m)) (Lodor_rescanTop root_view)
     = Some [''/Roms/GB (GB)/a.gb'', ''/Roms/GB (GB)/a.gb'']"
  by code_simp

text \<open>
  A disc of a playlist whose sidecar names a core is launched with that core when the playlist is
  already among the recents, and without it when it is new, because addRecent resolves the
  playlist and overwrites lodor_core_override before the command is built.
\<close>

definition disc_game :: fsys where
  "disc_game = card_with [(''/mnt/SDCARD/Roms/PS (PS)/G/G.m3u'', ''1.cue''), (''/mnt/SDCARD/Roms/PS (PS)/G/1.cue'', ''x''),
     (''/mnt/SDCARD/.system/miyoomini/paks/Emus/PS.pak/launch.sh'', []),
     (''/mnt/SDCARD/.userdata/shared/.minui/PS/1.cue.emu.txt'', ''core=pcsx'')]"

definition disc_view :: "recent list \<Rightarrow> minui" where
  "disc_view rs = (init_minui disc_game)\<lparr>m_stack := [folder []], m_recents := rs\<rparr>"

theorem openRom_core_depends_on_recents:
  "let open_disc = (\<lambda>rs. map_option (\<lambda>m. Option.bind (fs_files (m_fs m) NEXT_PATH) sh_words)
        (openRom ''now'' (disc_view rs) ''/mnt/SDCARD/Roms/PS (PS)/G/1.cue'' None));
      pak = ''/mnt/SDCARD/.system/miyoomini/paks/Emus/PS.pak/launch.sh'';
      disc = ''/mnt/SDCARD/Roms/PS (PS)/G/1.cue''
   in open_disc [\<lparr>r_path = ''/Roms/PS (PS)/G/G.m3u'', r_alias = None, r_available = True\<rparr>]
        = Some (Some [''LODOR_ROM_TAG=PS'', ''LODOR_CORE_OVERRIDE=pcsx'', pak, disc])
    \<and> open_disc [] = Some (Some [''LODOR_ROM_TAG=PS'', pak, disc])"
  by code_simp

end
