(* ===== verification/Nav.thy ===== *)
theory Nav
  imports Launcher
begin

text \<open>
  Moving through a listing: the navigation part of the input loop in main() and the in-place
  updates of the root menu, Lodor_pendingCount, Lodor_refreshBanner and Lodor_refreshContinue
  (workspace/all/minui/minui.c).
\<close>

section \<open>The buttons of a frame\<close>

text \<open>
  What the pad reports in one frame: justRepeated for the directions, with justPressed for UP and
  DOWN, and the L1 and R1 conditions as a whole (repeated, the other one not held, and the press
  is not a settings shortcut).
\<close>

record pad =
  pad_up :: bool
  pad_up_pressed :: bool
  pad_down :: bool
  pad_down_pressed :: bool
  pad_left :: bool
  pad_right :: bool
  pad_l1 :: bool
  pad_r1 :: bool

definition nav_up :: "int \<Rightarrow> bool \<Rightarrow> directory \<Rightarrow> directory" where
  "nav_up rows pressed d =
     (let total = dir_count d; selected = dir_selected d
      in if selected = 0 \<and> \<not> pressed then d
         else
           (let selected = selected - 1
            in if selected < 0 then
                 (let selected = total - 1; start = total - rows
                  in d\<lparr>dir_selected := selected, dir_start := (if start < 0 then 0 else start), dir_end := total\<rparr>)
               else if selected < dir_start d then
                 d\<lparr>dir_selected := selected, dir_start := dir_start d - 1, dir_end := dir_end d - 1\<rparr>
               else d\<lparr>dir_selected := selected\<rparr>))"

definition nav_down :: "int \<Rightarrow> bool \<Rightarrow> directory \<Rightarrow> directory" where
  "nav_down rows pressed d =
     (let total = dir_count d; selected = dir_selected d
      in if selected = total - 1 \<and> \<not> pressed then d
         else
           (let selected = selected + 1
            in if total \<le> selected then
                 d\<lparr>dir_selected := 0, dir_start := 0, dir_end := (if total < rows then total else rows)\<rparr>
               else if dir_end d \<le> selected then
                 d\<lparr>dir_selected := selected, dir_start := dir_start d + 1, dir_end := dir_end d + 1\<rparr>
               else d\<lparr>dir_selected := selected\<rparr>))"

definition nav_left :: "int \<Rightarrow> directory \<Rightarrow> directory" where
  "nav_left rows d =
     (let total = dir_count d; selected = dir_selected d - rows
      in if selected < 0 then
           d\<lparr>dir_selected := 0, dir_start := 0, dir_end := (if total < rows then total else rows)\<rparr>
         else if selected < dir_start d then
           (let start = (if dir_start d - rows < 0 then 0 else dir_start d - rows)
            in d\<lparr>dir_selected := selected, dir_start := start, dir_end := start + rows\<rparr>)
         else d\<lparr>dir_selected := selected\<rparr>)"

definition nav_right :: "int \<Rightarrow> directory \<Rightarrow> directory" where
  "nav_right rows d =
     (let total = dir_count d; selected = dir_selected d + rows
      in if total \<le> selected then
           (let start = total - rows
            in d\<lparr>dir_selected := total - 1, dir_start := (if start < 0 then 0 else start), dir_end := total\<rparr>)
         else if dir_end d \<le> selected then
           (let bottom = (if total < dir_end d + rows then total else dir_end d + rows)
            in d\<lparr>dir_selected := selected, dir_end := bottom, dir_start := bottom - rows\<rparr>)
         else d\<lparr>dir_selected := selected\<rparr>)"

text \<open>Jump to the first row of group i and scroll there.\<close>

definition nav_jump :: "int \<Rightarrow> int \<Rightarrow> directory \<Rightarrow> directory" where
  "nav_jump rows i d =
     (let total = dir_count d; selected = ia_items (dir_alphas d) ! nat i
      in if rows < total then
           (let bottom = (if total < selected + rows then total else selected + rows)
            in d\<lparr>dir_selected := selected, dir_end := bottom, dir_start := bottom - rows\<rparr>)
         else d\<lparr>dir_selected := selected\<rparr>)"

text \<open>The selected entry is read before anything else: in an empty listing this is a fault.\<close>

definition selected_entry :: "directory \<Rightarrow> entry option" where
  "selected_entry d =
     (if 0 \<le> dir_selected d \<and> dir_selected d < dir_count d
      then Some (dir_entries d ! nat (dir_selected d)) else None)"

definition nav_alpha :: "int \<Rightarrow> bool \<Rightarrow> directory \<Rightarrow> directory option" where
  "nav_alpha rows next_group d = do {
     e \<leftarrow> selected_entry d;
     let i = (if next_group then e_alpha e + 1 else e_alpha e - 1);
     (if (if next_group then i < int (ia_count (dir_alphas d)) else 0 \<le> i) then do {
        c_ok (0 \<le> i \<and> i < int (length (ia_items (dir_alphas d))));
        Some (nav_jump rows i d)
      }
      else Some d)
   }"

text \<open>
  One frame without another overlay: lodor_np is the number of pending saves. The result holds the
  directory and whether the badge now has the focus.
\<close>

definition nav_step :: "int \<Rightarrow> int \<Rightarrow> pad \<Rightarrow> directory \<Rightarrow> (directory \<times> bool) option" where
  "nav_step rows lodor_np p d =
     (let (d, focused) =
        (if 0 < dir_count d then
           (let d = (if pad_up p then nav_up rows (pad_up_pressed p) d
                     else if pad_down p then nav_down rows (pad_down_pressed p) d
                     else d)
            in if pad_left p then (nav_left rows d, False)
               else if pad_right p \<and> 0 < lodor_np then (d, True)
               else if pad_right p then (nav_right rows d, False)
               else (d, False))
         else (d, False))
      in if \<not> focused \<and> pad_l1 p then map_option (\<lambda>d. (d, focused)) (nav_alpha rows False d)
         else if \<not> focused \<and> pad_r1 p then map_option (\<lambda>d. (d, focused)) (nav_alpha rows True d)
         else Some (d, focused))"

section \<open>Updates of the root menu in place\<close>

definition pending_line :: "string \<Rightarrow> bool" where
  "pending_line pl =
     (case dropWhile (\<lambda>c. c = CHR '' '' \<or> c = TAB) pl of
        [] \<Rightarrow> False
      | h # _ \<Rightarrow> h \<noteq> NL \<and> h \<noteq> CR)"

definition Lodor_pendingCount :: "fsys \<Rightarrow> int" where
  "Lodor_pendingCount fs =
     (case fs_files fs (LODOR_PAK @ ''/pending-saves.txt'') of
        None \<Rightarrow> 0
      | Some contents \<Rightarrow> int (length (filter pending_line (fgets_all 512 contents))))"

text \<open>The first entry with a property, as the scans with break find it.\<close>

definition find_entry :: "(entry \<Rightarrow> bool) \<Rightarrow> entry list \<Rightarrow> nat option" where
  "find_entry P es = find (\<lambda>i. P (es ! i)) [0 ..< length es]"

definition remove_entry :: "nat \<Rightarrow> entry list \<Rightarrow> entry list" where
  "remove_entry i es = take i es @ drop (Suc i) es"

definition is_banner :: "entry \<Rightarrow> bool" where
  "is_banner e \<longleftrightarrow> e_type e = ENTRY_PAK
     \<and> (strncmp (e_name e) ''There are '' 10 = 0 \<or> strncmp (e_name e) ''There is '' 9 = 0)"

definition Lodor_refreshBanner :: "minui \<Rightarrow> minui option" where
  "Lodor_refreshBanner m =
     (case m_top m of
        None \<Rightarrow> Some m
      | Some d \<Rightarrow>
          if \<not> exactMatch (Some (dir_path d)) (Some SDCARD_PATH) then Some m
          else
            (let np = Lodor_pendingCount (m_fs m); es = dir_entries d
             in case find_entry is_banner es of
                  None \<Rightarrow> Some m
                | Some bi \<Rightarrow>
                    if np = 0 then
                      Some (set_top m (clamp_window (MAIN_ROW_COUNT m) (d\<lparr>dir_entries := remove_entry bi es\<rparr>)))
                    else do {
                      title \<leftarrow> (if np = 1 then Some ''There is 1 Save Pending''
                                else c_buf 64 (''There are '' @ c_int np @ '' Saves Pending''));
                      Some (set_top m (d\<lparr>dir_entries := es[bi := (es ! bi)\<lparr>e_name := title\<rparr>]\<rparr>))
                    }))"

definition Lodor_refreshContinue :: "minui \<Rightarrow> minui option" where
  "Lodor_refreshContinue m =
     (case m_top m of
        None \<Rightarrow> Some m
      | Some d \<Rightarrow>
          if \<not> exactMatch (Some (dir_path d)) (Some SDCARD_PATH) then Some m
          else
            (let es = dir_entries d; ci = find_entry (\<lambda>e. strncmp (e_name e) TRIANGLE 3 = 0) es
             in case continue_target (m_fs m) of
                  Some (cpath, cgame) \<Rightarrow>
                    (let ct = continue_title cgame
                     in case ci of
                          Some i \<Rightarrow>
                            Some (set_top m (d\<lparr>dir_entries := es[i := (es ! i)\<lparr>e_path := cpath, e_name := ct\<rparr>]\<rparr>))
                        | None \<Rightarrow> do {
                            e \<leftarrow> Entry_named cpath ENTRY_ROM ct;
                            let d = d\<lparr>dir_entries := e # es\<rparr>;
                            let d = d\<lparr>dir_selected := dir_selected d + 1\<rparr>;
                            Some (set_top m (d\<lparr>dir_end := (if dir_count d < MAIN_ROW_COUNT m then dir_count d
                                                              else MAIN_ROW_COUNT m)\<rparr>))
                          })
                | None \<Rightarrow>
                    (case ci of
                       None \<Rightarrow> Some m
                     | Some i \<Rightarrow>
                         Some (set_top m (clamp_window (MAIN_ROW_COUNT m) (d\<lparr>dir_entries := remove_entry i es\<rparr>))))))"

section \<open>Invariants\<close>

text \<open>What navigation relies on: the window, and an alphabetical index into the listing.\<close>

definition view_ok :: "int \<Rightarrow> directory \<Rightarrow> bool" where
  "view_ok rows d \<longleftrightarrow> window_ok rows d \<and> IntArray_ok (dir_alphas d)
     \<and> (\<forall>a \<in> set (IntArray_list (dir_alphas d)). 0 \<le> a \<and> a < dir_count d)
     \<and> (\<forall>e \<in> set (dir_entries d). 0 \<le> e_alpha e \<and> e_alpha e \<le> int (ia_count (dir_alphas d)))"

lemma view_ok_indexed:
  assumes "window_ok rows d" "index_ok (letters (dir_entries d)) (IntArray_list (dir_alphas d))"
    and "IntArray_ok (dir_alphas d)"
  shows "view_ok rows d"
proof -
  have "0 \<le> e_alpha e \<and> e_alpha e \<le> int (ia_count (dir_alphas d))" if e: "e \<in> set (dir_entries d)" for e
  proof -
    obtain j where j: "j < length (dir_entries d)" "e = dir_entries d ! j"
      using e by (auto simp: in_set_conv_nth)
    then have "group_ok (letters (dir_entries d)) (IntArray_list (dir_alphas d)) j"
      using assms(2) unfolding index_ok_def letters_simps by blast
    then show ?thesis
      using j length_IntArray_list [OF assms(3)] by (simp add: group_ok_def Let_def letters_def)
  qed
  then show ?thesis using assms by (auto simp: view_ok_def index_ok_def)
qed

text \<open>The rows and the index are the listing's; only the view moves.\<close>

definition same_listing :: "directory \<Rightarrow> directory \<Rightarrow> bool" where
  "same_listing d d' \<longleftrightarrow> dir_entries d' = dir_entries d \<and> dir_alphas d' = dir_alphas d \<and> dir_path d' = dir_path d"

lemma same_listing_refl [simp]: "same_listing d d"
  by (simp add: same_listing_def)

lemma same_listing_trans: "same_listing a b \<Longrightarrow> same_listing b c \<Longrightarrow> same_listing a c"
  by (simp add: same_listing_def)

lemma view_ok_moved:
  "view_ok rows d \<Longrightarrow> same_listing d d' \<Longrightarrow> window_ok rows d' \<Longrightarrow> view_ok rows d'"
  by (simp add: view_ok_def same_listing_def)

lemma nav_same_listing [simp]:
  "same_listing d (nav_up rows b d)" "same_listing d (nav_down rows b d)"
  "same_listing d (nav_left rows d)" "same_listing d (nav_right rows d)" "same_listing d (nav_jump rows i d)"
  by (simp_all add: same_listing_def nav_up_def nav_down_def nav_left_def nav_right_def nav_jump_def Let_def)

lemma nav_up_window:
  assumes "0 < rows" "window_ok rows d" "dir_entries d \<noteq> []"
  shows "window_ok rows (nav_up rows b d) \<and> (dir_selected d \<noteq> 0 \<or> b \<longrightarrow>
     dir_selected (nav_up rows b d) = (dir_selected d - 1) mod dir_count d)"
proof -
  have "(-1) mod dir_count d = dir_count d - 1" using assms(3) by (intro zmod_minus1) simp
  then show ?thesis
    using assms by (cases "dir_selected d = 0") (auto simp: window_ok_def nav_up_def Let_def)
qed

lemma nav_down_window:
  assumes "0 < rows" "window_ok rows d" "dir_entries d \<noteq> []"
  shows "window_ok rows (nav_down rows b d) \<and> (dir_selected d \<noteq> dir_count d - 1 \<or> b \<longrightarrow>
     dir_selected (nav_down rows b d) = (dir_selected d + 1) mod dir_count d)"
  using assms by (cases "dir_selected d = dir_count d - 1") (auto simp: window_ok_def nav_down_def Let_def)

lemma nav_left_window:
  assumes "0 < rows" "window_ok rows d" "dir_entries d \<noteq> []"
  shows "window_ok rows (nav_left rows d) \<and> dir_selected (nav_left rows d) = max 0 (dir_selected d - rows)"
  using assms by (auto simp: window_ok_def nav_left_def Let_def)

lemma nav_right_window:
  assumes "0 < rows" "window_ok rows d" "dir_entries d \<noteq> []"
  shows "window_ok rows (nav_right rows d) \<and> dir_selected (nav_right rows d) = min (dir_count d - 1) (dir_selected d + rows)"
  using assms by (auto simp: window_ok_def nav_right_def Let_def)

lemma nav_jump_window:
  assumes "0 < rows" "window_ok rows d" "dir_entries d \<noteq> []"
    and "0 \<le> ia_items (dir_alphas d) ! nat i" "ia_items (dir_alphas d) ! nat i < dir_count d"
  shows "window_ok rows (nav_jump rows i d)"
  using assms by (auto simp: window_ok_def nav_jump_def Let_def)


lemma nav_alpha_ok:
  assumes "0 < rows" "view_ok rows d" "dir_entries d \<noteq> []"
  shows "\<exists>d'. nav_alpha rows b d = Some d' \<and> same_listing d d' \<and> window_ok rows d'"
proof -
  have w: "window_ok rows d" using assms(2) by (simp add: view_ok_def)
  then have sel: "0 \<le> dir_selected d" "dir_selected d < dir_count d"
    using assms(3) by (auto simp: window_ok_def)
  let ?e = "dir_entries d ! nat (dir_selected d)"
  let ?i = "if b then e_alpha ?e + 1 else e_alpha ?e - 1"
  have "?e \<in> set (dir_entries d)" using sel by (intro nth_mem) linarith
  then have alpha: "0 \<le> e_alpha ?e" "e_alpha ?e \<le> int (ia_count (dir_alphas d))"
    using assms(2) by (auto simp: view_ok_def)
  show ?thesis
  proof (cases "if b then ?i < int (ia_count (dir_alphas d)) else 0 \<le> ?i")
    case True
    then have i: "0 \<le> ?i" "?i < int (ia_count (dir_alphas d))" using alpha by (auto split: if_splits)
    have iok: "IntArray_ok (dir_alphas d)" using assms(2) by (simp add: view_ok_def)
    have "IntArray_list (dir_alphas d) ! nat ?i \<in> set (IntArray_list (dir_alphas d))"
      using i iok by (intro nth_mem) (simp add: length_IntArray_list nat_less_iff)
    then have "ia_items (dir_alphas d) ! nat ?i \<in> set (IntArray_list (dir_alphas d))"
      using i iok by (simp add: IntArray_list_def nat_less_iff)
    then have "window_ok rows (nav_jump rows ?i d)"
      using assms(2) by (intro nav_jump_window [OF assms(1) w assms(3)]) (auto simp: view_ok_def)
    moreover have "?i < int (length (ia_items (dir_alphas d)))"
      using i iok by (auto simp: IntArray_ok_def)
    moreover have "nav_alpha rows b d = Some (nav_jump rows ?i d)"
      using True sel i calculation(2) by (cases b) (simp_all add: nav_alpha_def selected_entry_def Let_def)
    ultimately show ?thesis by simp
  next
    case False
    then have "nav_alpha rows b d = Some d"
      using sel by (simp add: nav_alpha_def selected_entry_def Let_def)
    then show ?thesis using w by simp
  qed
qed

lemma nav_step_ok:
  assumes "0 < rows" "view_ok rows d" "dir_entries d \<noteq> []"
  shows "\<exists>d' f. nav_step rows np p d = Some (d', f) \<and> same_listing d d' \<and> view_ok rows d'"
proof -
  define d1 where "d1 = (if pad_up p then nav_up rows (pad_up_pressed p) d
    else if pad_down p then nav_down rows (pad_down_pressed p) d else d)"
  define d2 where "d2 = (if pad_left p then nav_left rows d1
    else if pad_right p \<and> 0 < np then d1 else if pad_right p then nav_right rows d1 else d1)"
  define f where "f \<longleftrightarrow> \<not> pad_left p \<and> pad_right p \<and> 0 < np"
  have w: "window_ok rows d" using assms(2) by (simp add: view_ok_def)
  have d1: "same_listing d d1" "window_ok rows d1"
    using nav_up_window [OF assms(1) w assms(3)] nav_down_window [OF assms(1) w assms(3)] w by (auto simp: d1_def)
  then have ne: "dir_entries d1 \<noteq> []" using assms(3) by (simp add: same_listing_def)
  have "same_listing d1 d2" "window_ok rows d2"
    using nav_left_window [OF assms(1) d1(2) ne] nav_right_window [OF assms(1) d1(2) ne] d1(2) by (auto simp: d2_def)
  then have d2: "same_listing d d2" "view_ok rows d2" "dir_entries d2 \<noteq> []"
    using d1 ne same_listing_trans view_ok_moved [OF assms(2)] by (auto simp: same_listing_def)
  have "nav_step rows np p d = (if \<not> f \<and> pad_l1 p then map_option (\<lambda>d. (d, f)) (nav_alpha rows False d2)
      else if \<not> f \<and> pad_r1 p then map_option (\<lambda>d. (d, f)) (nav_alpha rows True d2) else Some (d2, f))"
    using assms(3) by (simp add: nav_step_def d1_def d2_def f_def Let_def)
  moreover obtain x y where "nav_alpha rows False d2 = Some x" "same_listing d2 x" "window_ok rows x"
    "nav_alpha rows True d2 = Some y" "same_listing d2 y" "window_ok rows y"
    using nav_alpha_ok [OF assms(1) d2(2,3)] by metis
  ultimately have "\<exists>d'. nav_step rows np p d = Some (d', f) \<and> same_listing d2 d' \<and> window_ok rows d'"
    using d2(2) by (auto simp: view_ok_def)
  then obtain d' where d': "nav_step rows np p d = Some (d', f)" "same_listing d2 d'" "window_ok rows d'" by blast
  have "view_ok rows d'" using view_ok_moved [OF d2(2) d'(2,3)] .
  with d'(1) same_listing_trans [OF d2(1) d'(2)] show ?thesis by blast
qed

section \<open>Browsing\<close>

text \<open>Every directory that frames of input lead to.\<close>

inductive browsing :: "int \<Rightarrow> directory \<Rightarrow> directory \<Rightarrow> bool" for rows d where
  browsing_start: "browsing rows d d"
| browsing_frame: "browsing rows d d1 \<Longrightarrow> nav_step rows np p d1 = Some (d2, f) \<Longrightarrow> browsing rows d d2"

lemma browsing_ok:
  assumes "browsing rows d d'" "0 < rows" "view_ok rows d" "dir_entries d \<noteq> []"
  shows "same_listing d d' \<and> view_ok rows d'"
  using assms(1)
proof (induction rule: browsing.induct)
  case browsing_start
  then show ?case using assms(3) by simp
next
  case (browsing_frame d1 np p d2 f)
  then have "dir_entries d1 \<noteq> []" using assms(4) by (simp add: same_listing_def)
  then show ?case
    using browsing_frame nav_step_ok [OF assms(2), of d1 np p] same_listing_trans by auto
qed

section \<open>Properties\<close>

text \<open>
  C3. Browsing never leaves the listing: from any directory that Directory_index built, with its
  window in order, no sequence of frames of button presses can fault, change the entries, put the
  selection outside the entries or outside the visible window, or show fewer rows than fit; and
  every further frame is again defined.
\<close>

theorem browsing_stays_inside:
  assumes "Directory_index fs d0 = Some d1" "dir_alphas d0 = IntArray_new"
    and "dir_path d0 \<noteq> FAUX_RECENT_PATH" "\<not> prefixMatch COLLECTIONS_PATH (dir_path d0)"
    and "d = d1\<lparr>dir_selected := s, dir_start := a, dir_end := b\<rparr>" "window_ok rows d"
    and "0 < rows" "dir_entries d \<noteq> []" "browsing rows d d'"
  shows "dir_entries d' = dir_entries d \<and> window_ok rows d'
    \<and> 0 \<le> dir_selected d' \<and> dir_selected d' < dir_count d'
    \<and> (\<exists>d2 f. nav_step rows np p d' = Some (d2, f) \<and> window_ok rows d2)"
proof -
  have "index_ok (letters (dir_entries d)) (IntArray_list (dir_alphas d))" "IntArray_ok (dir_alphas d)"
    using Directory_index_index_ok [OF assms(1-4)] assms(5) by simp_all
  then have "view_ok rows d" using assms(6) by (intro view_ok_indexed)
  from browsing_ok [OF assms(9,7) this assms(8)] have d': "same_listing d d'" "view_ok rows d'" by simp_all
  then have ne: "dir_entries d' \<noteq> []" using assms(8) by (simp add: same_listing_def)
  then show ?thesis
    using d' nav_step_ok [OF assms(7) d'(2) ne, of np p] by (auto simp: same_listing_def view_ok_def window_ok_def)
qed

text \<open>
  The arrows select the row they promise: with a press, UP and DOWN move by one row and wrap
  around at both ends; LEFT and RIGHT move by a page and stop at the first and the last row.
\<close>

theorem arrows_select:
  assumes "0 < rows" "window_ok rows d" "dir_entries d \<noteq> []"
  shows "dir_selected (nav_up rows True d) = (dir_selected d - 1) mod dir_count d
    \<and> dir_selected (nav_down rows True d) = (dir_selected d + 1) mod dir_count d
    \<and> dir_selected (nav_left rows d) = max 0 (dir_selected d - rows)
    \<and> dir_selected (nav_right rows d) = min (dir_count d - 1) (dir_selected d + rows)"
  using nav_up_window [OF assms] nav_down_window [OF assms] nav_left_window [OF assms]
    nav_right_window [OF assms] by simp

definition no_buttons :: pad where
  "no_buttons = \<lparr>pad_up = False, pad_up_pressed = False, pad_down = False, pad_down_pressed = False,
     pad_left = False, pad_right = False, pad_l1 = False, pad_r1 = False\<rparr>"

theorem browsing_stays_inside_witness:
  "\<exists>d1 d2. Directory_index empty_card (folder [game ''Tetris'', game ''Zelda'']) = Some d1
    \<and> nav_step 6 0 (no_buttons\<lparr>pad_r1 := True\<rparr>) (d1\<lparr>dir_selected := 0, dir_start := 0, dir_end := 2\<rparr>) = Some (d2, False)
    \<and> dir_selected d2 = 1 \<and> window_ok 6 d2"
proof -
  let ?d0 = "folder [game ''Tetris'', game ''Zelda'']"
  have "map_option (\<lambda>d1. window_ok 6 (d1\<lparr>dir_selected := 0, dir_start := 0, dir_end := 2\<rparr>) \<and> dir_entries d1 \<noteq> []
      \<and> map_option (\<lambda>(d, f). (dir_selected d, f))
          (nav_step 6 0 (no_buttons\<lparr>pad_r1 := True\<rparr>) (d1\<lparr>dir_selected := 0, dir_start := 0, dir_end := 2\<rparr>))
          = Some (1, False)) (Directory_index empty_card ?d0) = Some True" by code_simp
  then obtain d1 d2 where d1: "Directory_index empty_card ?d0 = Some d1"
    "window_ok 6 (d1\<lparr>dir_selected := 0, dir_start := 0, dir_end := 2\<rparr>)" "dir_entries d1 \<noteq> []"
    and d2: "nav_step 6 0 (no_buttons\<lparr>pad_r1 := True\<rparr>) (d1\<lparr>dir_selected := 0, dir_start := 0, dir_end := 2\<rparr>)
      = Some (d2, False)" "dir_selected d2 = 1" by auto
  have ok: "dir_alphas ?d0 = IntArray_new" "dir_path ?d0 \<noteq> FAUX_RECENT_PATH"
    "\<not> prefixMatch COLLECTIONS_PATH (dir_path ?d0)" by code_simp+
  from browsing_stays_inside [OF d1(1) ok refl d1(2) _ _ browsing_frame [OF browsing_start d2(1)]] d1 d2
  show ?thesis by auto
qed

theorem arrows_select_witness:
  "let d = (folder (map game [''a'', ''b'', ''c'']))\<lparr>dir_end := 2\<rparr>
   in dir_selected (nav_up 2 True d) = 2 \<and> dir_selected (nav_down 2 True d) = 1
      \<and> dir_selected (nav_left 2 d) = 0 \<and> dir_selected (nav_right 2 d) = 2"
proof -
  let ?d = "(folder (map game [''a'', ''b'', ''c'']))\<lparr>dir_end := 2\<rparr>"
  have "window_ok 2 ?d" "dir_entries ?d \<noteq> []" "dir_selected ?d = 0" "dir_count ?d = 3" by code_simp+
  with arrows_select [of 2 ?d] show ?thesis by (simp add: Let_def)
qed

section \<open>Three flaws\<close>

text \<open>L1 and R1 read the selected entry without the test that there is one.\<close>

theorem L1_faults_on_empty_folder: "nav_step 6 0 (no_buttons\<lparr>pad_l1 := True\<rparr>) (folder []) = None"
  by code_simp

text \<open>
  Inserting the Continue tile moves the selection but not the start of the window, so the selected
  row can lie below the visible ones.
\<close>

definition root_dir :: "string list \<Rightarrow> directory" where
  "root_dir names = (folder (map game names))\<lparr>dir_path := SDCARD_PATH\<rparr>"

definition played_card :: fsys where
  "played_card = Lodor_recordLocalPlay (card_with [(''/mnt/SDCARD/Roms/GB (GB)/a.gb'', ''x'')]) ''2026-01-02 03:04''
     ''/mnt/SDCARD/Roms/GB (GB)/a.gb'' (Some ''A'')"

theorem refreshContinue_hides_selection:
  "let d = (root_dir [''a'', ''b'', ''c'', ''d'', ''e'', ''f'', ''g''])\<lparr>dir_selected := 5, dir_end := 6\<rparr>
   in window_ok 6 d
      \<and> map_option (map_option (\<lambda>d. (dir_selected d, dir_start d, dir_end d)) \<circ> m_top)
          (Lodor_refreshContinue ((init_minui played_card)\<lparr>m_stack := [d]\<rparr>)) = Some (Some (6, 0, 6))"
  by code_simp

text \<open>
  Removing the Continue tile keeps the old alphabetical index, so R1 can select a row past the end.
\<close>

theorem refreshContinue_stale_index:
  "let d = the (Directory_index empty_card (root_dir [continue_title ''A'', ''a'', ''b'']));
       m = (init_minui empty_card)\<lparr>m_stack := [d\<lparr>dir_selected := 0, dir_end := 3\<rparr>]\<rparr>
   in map_option (\<lambda>m. map_option (\<lambda>d. (dir_count d,
          map_option (dir_selected \<circ> fst) (nav_step 6 0 (no_buttons\<lparr>pad_r1 := True\<rparr>) d))) (m_top m))
        (Lodor_refreshContinue m) = Some (Some (2, Some 2))"
  by code_simp

end
