(* ===== verification/Scaler.thy ===== *)
theory Scaler
  imports Prelude
begin

unbundle bit_operations_syntax

text \<open>
  The portable software scalers of workspace/all/common/scaler.c: integer upscaling of 16 and 32
  bit images (scale1x_c16 to scale6x_c32 with their dispatch tables), which works on two 16 bit
  pixels at a time. The NEON versions are inline assembly and are not modelled.

  A pixel buffer is a function from the index of a pixel to its value; the source and the
  destination are restrict pointers, so they are two buffers. Pitches are in bytes as in the C
  code and must be multiples of the pixel size, which the casts to pixel pointers need as well;
  sizes are natural numbers, so the buffers are below the 4 GB where the C arithmetic would wrap.
\<close>

section \<open>Buffers\<close>

text \<open>The buffer behind a pointer that was moved by b pixels, and work done through it.\<close>

definition at :: "nat \<Rightarrow> (nat \<Rightarrow> 'p) \<Rightarrow> nat \<Rightarrow> 'p" where
  "at b m = (\<lambda>i. m (b + i))"

definition within :: "nat \<Rightarrow> ((nat \<Rightarrow> 'p) \<Rightarrow> (nat \<Rightarrow> 'p)) \<Rightarrow> (nat \<Rightarrow> 'p) \<Rightarrow> nat \<Rightarrow> 'p" where
  "within b f m = (\<lambda>a. if a < b then m a else f (at b m) (a - b))"

text \<open>memcpy of n pixels, within one buffer and between two.\<close>

definition memcpy :: "nat \<Rightarrow> nat \<Rightarrow> nat \<Rightarrow> (nat \<Rightarrow> 'p) \<Rightarrow> nat \<Rightarrow> 'p" where
  "memcpy dst src n m = (\<lambda>a. if dst \<le> a \<and> a < dst + n then m (src + (a - dst)) else m a)"

definition memcpy_from :: "(nat \<Rightarrow> 'p) \<Rightarrow> nat \<Rightarrow> (nat \<Rightarrow> 'p) \<Rightarrow> nat \<Rightarrow> 'p" where
  "memcpy_from s n d = (\<lambda>a. if a < n then s a else d a)"

text \<open>A uint32_t access to 16 bit pixels: the machine is little endian.\<close>

definition rd32 :: "(nat \<Rightarrow> 16 word) \<Rightarrow> nat \<Rightarrow> 32 word" where
  "rd32 m i = ucast (m (2 * i)) OR push_bit 16 (ucast (m (2 * i + 1)))"

definition lo16 :: "32 word \<Rightarrow> 16 word" where
  "lo16 v = ucast v"

definition hi16 :: "32 word \<Rightarrow> 16 word" where
  "hi16 v = ucast (drop_bit 16 v)"

definition wr32 :: "nat \<Rightarrow> 32 word \<Rightarrow> (nat \<Rightarrow> 16 word) \<Rightarrow> nat \<Rightarrow> 16 word" where
  "wr32 i v m = m(2 * i := lo16 v, 2 * i + 1 := hi16 v)"

definition dpix1 :: "32 word \<Rightarrow> 32 word" where
  "dpix1 pix = (pix AND 0x0000FFFF) OR push_bit 16 pix"

definition dpix2 :: "32 word \<Rightarrow> 32 word" where
  "dpix2 pix = (pix AND 0xFFFF0000) OR drop_bit 16 pix"

definition dpix16 :: "16 word \<Rightarrow> 32 word" where
  "dpix16 pix16 = ucast pix16 OR push_bit 16 (ucast pix16)"

section \<open>Rows\<close>

text \<open>for (x=dx=0; x<n; x++, dx+=step) body\<close>

definition for_x :: "nat \<Rightarrow> nat \<Rightarrow> (nat \<Rightarrow> nat \<Rightarrow> 'd \<Rightarrow> 'd) \<Rightarrow> 'd \<Rightarrow> 'd" where
  "for_x n step body d = fold (\<lambda>x. body x (step * x)) [0 ..< n] d"

definition row2_c16 :: "nat \<Rightarrow> (nat \<Rightarrow> 16 word) \<Rightarrow> (nat \<Rightarrow> 16 word) \<Rightarrow> nat \<Rightarrow> 16 word" where
  "row2_c16 sw s d =
     (let d = for_x (sw div 2) 2
            (\<lambda>x dx d. let pix = rd32 s x
              in wr32 (dx + 1) (dpix2 pix) (wr32 dx (dpix1 pix) d)) d;
          x = sw div 2; dx = 2 * x
      in if odd sw then wr32 dx (dpix16 (s (x * 2))) d else d)"

definition row3_c16 :: "nat \<Rightarrow> (nat \<Rightarrow> 16 word) \<Rightarrow> (nat \<Rightarrow> 16 word) \<Rightarrow> nat \<Rightarrow> 16 word" where
  "row3_c16 sw s d =
     (let d = for_x (sw div 2) 3
            (\<lambda>x dx d. let pix = rd32 s x
              in wr32 (dx + 2) (dpix2 pix) (wr32 (dx + 1) pix (wr32 dx (dpix1 pix) d))) d;
          x = sw div 2; dx = 3 * x
      in if odd sw then (wr32 dx (dpix16 (s (x * 2))) d)((dx + 1) * 2 := s (x * 2)) else d)"

definition row4_c16 :: "nat \<Rightarrow> (nat \<Rightarrow> 16 word) \<Rightarrow> (nat \<Rightarrow> 16 word) \<Rightarrow> nat \<Rightarrow> 16 word" where
  "row4_c16 sw s d =
     (let d = for_x (sw div 2) 4
            (\<lambda>x dx d. let pix = rd32 s x
              in wr32 (dx + 3) (dpix2 pix) (wr32 (dx + 2) (dpix2 pix)
                  (wr32 (dx + 1) (dpix1 pix) (wr32 dx (dpix1 pix) d)))) d;
          x = sw div 2; dx = 4 * x
      in if odd sw then wr32 (dx + 1) (dpix16 (s (x * 2))) (wr32 dx (dpix16 (s (x * 2))) d) else d)"

definition row5_c16 :: "nat \<Rightarrow> (nat \<Rightarrow> 16 word) \<Rightarrow> (nat \<Rightarrow> 16 word) \<Rightarrow> nat \<Rightarrow> 16 word" where
  "row5_c16 sw s d =
     (let d = for_x (sw div 2) 5
            (\<lambda>x dx d. let pix = rd32 s x
              in wr32 (dx + 4) (dpix2 pix) (wr32 (dx + 3) (dpix2 pix) (wr32 (dx + 2) pix
                  (wr32 (dx + 1) (dpix1 pix) (wr32 dx (dpix1 pix) d))))) d;
          x = sw div 2; dx = 5 * x
      in if odd sw then
           (wr32 (dx + 1) (dpix16 (s (x * 2))) (wr32 dx (dpix16 (s (x * 2))) d))((dx + 2) * 2 := s (x * 2))
         else d)"

definition row6_c16 :: "nat \<Rightarrow> (nat \<Rightarrow> 16 word) \<Rightarrow> (nat \<Rightarrow> 16 word) \<Rightarrow> nat \<Rightarrow> 16 word" where
  "row6_c16 sw s d =
     (let d = for_x (sw div 2) 6
            (\<lambda>x dx d. let pix = rd32 s x
              in wr32 (dx + 5) (dpix2 pix) (wr32 (dx + 4) (dpix2 pix) (wr32 (dx + 3) (dpix2 pix)
                  (wr32 (dx + 2) (dpix1 pix) (wr32 (dx + 1) (dpix1 pix) (wr32 dx (dpix1 pix) d)))))) d;
          x = sw div 2; dx = 6 * x
      in if odd sw then
           wr32 (dx + 2) (dpix16 (s (x * 2))) (wr32 (dx + 1) (dpix16 (s (x * 2)))
             (wr32 dx (dpix16 (s (x * 2))) d))
         else d)"

definition row2_c32 :: "nat \<Rightarrow> (nat \<Rightarrow> 32 word) \<Rightarrow> (nat \<Rightarrow> 32 word) \<Rightarrow> nat \<Rightarrow> 32 word" where
  "row2_c32 sw s d = for_x sw 2 (\<lambda>x dx d. let pix = s x in d(dx := pix, dx + 1 := pix)) d"

definition row3_c32 :: "nat \<Rightarrow> (nat \<Rightarrow> 32 word) \<Rightarrow> (nat \<Rightarrow> 32 word) \<Rightarrow> nat \<Rightarrow> 32 word" where
  "row3_c32 sw s d = for_x sw 3 (\<lambda>x dx d. let pix = s x in d(dx := pix, dx + 1 := pix, dx + 2 := pix)) d"

definition row4_c32 :: "nat \<Rightarrow> (nat \<Rightarrow> 32 word) \<Rightarrow> (nat \<Rightarrow> 32 word) \<Rightarrow> nat \<Rightarrow> 32 word" where
  "row4_c32 sw s d = for_x sw 4 (\<lambda>x dx d. let pix = s x
     in d(dx := pix, dx + 1 := pix, dx + 2 := pix, dx + 3 := pix)) d"

definition row5_c32 :: "nat \<Rightarrow> (nat \<Rightarrow> 32 word) \<Rightarrow> (nat \<Rightarrow> 32 word) \<Rightarrow> nat \<Rightarrow> 32 word" where
  "row5_c32 sw s d = for_x sw 5 (\<lambda>x dx d. let pix = s x
     in d(dx := pix, dx + 1 := pix, dx + 2 := pix, dx + 3 := pix, dx + 4 := pix)) d"

definition row6_c32 :: "nat \<Rightarrow> (nat \<Rightarrow> 32 word) \<Rightarrow> (nat \<Rightarrow> 32 word) \<Rightarrow> nat \<Rightarrow> 32 word" where
  "row6_c32 sw s d = for_x sw 6 (\<lambda>x dx d. let pix = s x
     in d(dx := pix, dx + 1 := pix, dx + 2 := pix, dx + 3 := pix, dx + 4 := pix, dx + 5 := pix)) d"

section \<open>Images\<close>

text \<open>
  The loop of ymul - 1 copies of the row at dstsrc, and the loop over the source rows; offsets,
  pitches and the row length swl are in pixels here.
\<close>

fun copy_rows :: "nat \<Rightarrow> nat \<Rightarrow> nat \<Rightarrow> nat \<Rightarrow> nat \<Rightarrow> (nat \<Rightarrow> 'p) \<Rightarrow> nat \<times> (nat \<Rightarrow> 'p)" where
  "copy_rows 0 dstsrc swl dp dst d = (dst, d)"
| "copy_rows (Suc i) dstsrc swl dp dst d = copy_rows i dstsrc swl dp (dst + dp) (memcpy dst dstsrc swl d)"

fun scale_rows ::
    "((nat \<Rightarrow> 's) \<Rightarrow> (nat \<Rightarrow> 'p) \<Rightarrow> nat \<Rightarrow> 'p) \<Rightarrow> nat \<Rightarrow> nat \<Rightarrow> nat \<Rightarrow> nat \<Rightarrow> nat \<Rightarrow> nat \<Rightarrow> nat \<Rightarrow>
      (nat \<Rightarrow> 's) \<Rightarrow> (nat \<Rightarrow> 'p) \<Rightarrow> nat \<Rightarrow> 'p" where
  "scale_rows row ymul swl 0 sp dp src dst s d = d"
| "scale_rows row ymul swl (Suc sh) sp dp src dst s d =
     (let d = within dst (row (at src s)) d;
          dstsrc = dst;
          (dst, d) = copy_rows (ymul - 1) dstsrc swl dp (dst + dp) d
      in scale_rows row ymul swl sh sp dp (src + sp) dst s d)"

text \<open>The common frame of the scalers 2x to 6x for pixels of the given number of bytes.\<close>

definition scale_image ::
    "nat \<Rightarrow> nat \<Rightarrow> (nat \<Rightarrow> (nat \<Rightarrow> 'p) \<Rightarrow> (nat \<Rightarrow> 'p) \<Rightarrow> nat \<Rightarrow> 'p) \<Rightarrow>
      (nat \<Rightarrow> 'p) \<Rightarrow> (nat \<Rightarrow> 'p) \<Rightarrow> nat \<Rightarrow> nat \<Rightarrow> nat \<Rightarrow> nat \<Rightarrow> nat \<Rightarrow> nat \<Rightarrow> 'p" where
  "scale_image bytes k row s d sw sh sp dp ymul =
     (if sw = 0 \<or> sh = 0 \<or> ymul = 0 then d
      else
        (let swl = sw * bytes;
             sp = (if sp = 0 then swl else sp);
             swl = swl * k;
             dp = (if dp = 0 then swl else dp)
         in scale_rows (row sw) ymul (swl div bytes) sh (sp div bytes) (dp div bytes) 0 0 s d))"

text \<open>The scalers 1x: rows are copied, or the whole image at once.\<close>

fun copy_image ::
    "nat \<Rightarrow> nat \<Rightarrow> nat \<Rightarrow> nat \<Rightarrow> nat \<Rightarrow> nat \<Rightarrow> nat \<Rightarrow> (nat \<Rightarrow> 'p) \<Rightarrow> (nat \<Rightarrow> 'p) \<Rightarrow> nat \<Rightarrow> 'p" where
  "copy_image ymul swl 0 sp dp src dst s d = d"
| "copy_image ymul swl (Suc sh) sp dp src dst s d =
     copy_image ymul swl sh sp dp (src + sp) (dst + ymul * dp) s
       (fold (\<lambda>i. within (dst + i * dp) (memcpy_from (at src s) swl)) [0 ..< ymul] d)"

definition scale1x_c16 ::
    "(nat \<Rightarrow> 16 word) \<Rightarrow> (nat \<Rightarrow> 16 word) \<Rightarrow> nat \<Rightarrow> nat \<Rightarrow> nat \<Rightarrow> nat \<Rightarrow> nat \<Rightarrow> nat \<Rightarrow> 16 word" where
  "scale1x_c16 s d sw sh sp dp ymul =
     (if sw = 0 \<or> sh = 0 \<or> ymul = 0 then d
      else
        (let swl = sw * 2;
             sp = (if sp = 0 then swl else sp);
             dp = (if dp = 0 then swl * 1 else dp)
         in if ymul = 1 \<and> swl = sp \<and> sp = dp then memcpy_from s (sp * sh div 2) d
            else
              (let swl = (if dp < swl then dp else swl)
               in copy_image ymul (swl div 2) sh (sp div 2) (dp div 2) 0 0 s d)))"

definition scale1x_c32 ::
    "(nat \<Rightarrow> 32 word) \<Rightarrow> (nat \<Rightarrow> 32 word) \<Rightarrow> nat \<Rightarrow> nat \<Rightarrow> nat \<Rightarrow> nat \<Rightarrow> nat \<Rightarrow> nat \<Rightarrow> 32 word" where
  "scale1x_c32 s d sw sh sp dp ymul =
     (if sw = 0 \<or> sh = 0 \<or> ymul = 0 then d
      else
        (let swl = sw * 4;
             sp = (if sp = 0 then swl else sp);
             dp = (if dp = 0 then swl * 1 else dp)
         in if ymul = 1 \<and> swl = sp \<and> sp = dp then memcpy_from s (sp * sh div 4) d
            else copy_image ymul (swl div 4) sh (sp div 4) (dp div 4) 0 0 s d))"

definition scale2x_c16 ::
    "(nat \<Rightarrow> 16 word) \<Rightarrow> (nat \<Rightarrow> 16 word) \<Rightarrow> nat \<Rightarrow> nat \<Rightarrow> nat \<Rightarrow> nat \<Rightarrow> nat \<Rightarrow> nat \<Rightarrow> 16 word" where
  "scale2x_c16 = scale_image 2 2 row2_c16"

definition scale3x_c16 ::
    "(nat \<Rightarrow> 16 word) \<Rightarrow> (nat \<Rightarrow> 16 word) \<Rightarrow> nat \<Rightarrow> nat \<Rightarrow> nat \<Rightarrow> nat \<Rightarrow> nat \<Rightarrow> nat \<Rightarrow> 16 word" where
  "scale3x_c16 = scale_image 2 3 row3_c16"

definition scale4x_c16 ::
    "(nat \<Rightarrow> 16 word) \<Rightarrow> (nat \<Rightarrow> 16 word) \<Rightarrow> nat \<Rightarrow> nat \<Rightarrow> nat \<Rightarrow> nat \<Rightarrow> nat \<Rightarrow> nat \<Rightarrow> 16 word" where
  "scale4x_c16 = scale_image 2 4 row4_c16"

definition scale5x_c16 ::
    "(nat \<Rightarrow> 16 word) \<Rightarrow> (nat \<Rightarrow> 16 word) \<Rightarrow> nat \<Rightarrow> nat \<Rightarrow> nat \<Rightarrow> nat \<Rightarrow> nat \<Rightarrow> nat \<Rightarrow> 16 word" where
  "scale5x_c16 = scale_image 2 5 row5_c16"

definition scale6x_c16 ::
    "(nat \<Rightarrow> 16 word) \<Rightarrow> (nat \<Rightarrow> 16 word) \<Rightarrow> nat \<Rightarrow> nat \<Rightarrow> nat \<Rightarrow> nat \<Rightarrow> nat \<Rightarrow> nat \<Rightarrow> 16 word" where
  "scale6x_c16 = scale_image 2 6 row6_c16"

definition scale2x_c32 ::
    "(nat \<Rightarrow> 32 word) \<Rightarrow> (nat \<Rightarrow> 32 word) \<Rightarrow> nat \<Rightarrow> nat \<Rightarrow> nat \<Rightarrow> nat \<Rightarrow> nat \<Rightarrow> nat \<Rightarrow> 32 word" where
  "scale2x_c32 = scale_image 4 2 row2_c32"

definition scale3x_c32 ::
    "(nat \<Rightarrow> 32 word) \<Rightarrow> (nat \<Rightarrow> 32 word) \<Rightarrow> nat \<Rightarrow> nat \<Rightarrow> nat \<Rightarrow> nat \<Rightarrow> nat \<Rightarrow> nat \<Rightarrow> 32 word" where
  "scale3x_c32 = scale_image 4 3 row3_c32"

definition scale4x_c32 ::
    "(nat \<Rightarrow> 32 word) \<Rightarrow> (nat \<Rightarrow> 32 word) \<Rightarrow> nat \<Rightarrow> nat \<Rightarrow> nat \<Rightarrow> nat \<Rightarrow> nat \<Rightarrow> nat \<Rightarrow> 32 word" where
  "scale4x_c32 = scale_image 4 4 row4_c32"

definition scale5x_c32 ::
    "(nat \<Rightarrow> 32 word) \<Rightarrow> (nat \<Rightarrow> 32 word) \<Rightarrow> nat \<Rightarrow> nat \<Rightarrow> nat \<Rightarrow> nat \<Rightarrow> nat \<Rightarrow> nat \<Rightarrow> 32 word" where
  "scale5x_c32 = scale_image 4 5 row5_c32"

definition scale6x_c32 ::
    "(nat \<Rightarrow> 32 word) \<Rightarrow> (nat \<Rightarrow> 32 word) \<Rightarrow> nat \<Rightarrow> nat \<Rightarrow> nat \<Rightarrow> nat \<Rightarrow> nat \<Rightarrow> nat \<Rightarrow> 32 word" where
  "scale6x_c32 = scale_image 4 6 row6_c32"


text \<open>
  The dispatch tables: row xmul of the table holds the scaler and the number of heights that are
  not dummy. xmul and ymul are decremented as unsigned numbers, so 0 is out of range.
\<close>

definition scaler_c16 ::
    "nat \<Rightarrow> nat \<Rightarrow> (nat \<Rightarrow> 16 word) \<Rightarrow> (nat \<Rightarrow> 16 word) \<Rightarrow> nat \<Rightarrow> nat \<Rightarrow> nat \<Rightarrow> nat \<Rightarrow> nat \<Rightarrow> 16 word" where
  "scaler_c16 xmul ymul s d sw sh sp dp =
     (let func = [(scale1x_c16, 4), (scale2x_c16, 4), (scale3x_c16, 4), (scale4x_c16, 4),
                  (scale5x_c16, 5), (scale6x_c16, 6 :: nat)]
      in if 0 < xmul \<and> xmul - 1 < 6 \<and> 0 < ymul \<and> ymul - 1 < 6 then
           (case func ! (xmul - 1) of
              (scale, heights) \<Rightarrow> if ymul \<le> heights then scale s d sw sh sp dp ymul else d)
         else d)"

definition scaler_c32 ::
    "nat \<Rightarrow> nat \<Rightarrow> (nat \<Rightarrow> 32 word) \<Rightarrow> (nat \<Rightarrow> 32 word) \<Rightarrow> nat \<Rightarrow> nat \<Rightarrow> nat \<Rightarrow> nat \<Rightarrow> nat \<Rightarrow> 32 word" where
  "scaler_c32 xmul ymul s d sw sh sp dp =
     (let func = [(scale1x_c32, 4), (scale2x_c32, 4), (scale3x_c32, 4), (scale4x_c32, 4),
                  (scale5x_c32, 5), (scale6x_c32, 6 :: nat)]
      in if 0 < xmul \<and> xmul - 1 < 6 \<and> 0 < ymul \<and> ymul - 1 < 6 then
           (case func ! (xmul - 1) of
              (scale, heights) \<Rightarrow> if ymul \<le> heights then scale s d sw sh sp dp ymul else d)
         else d)"

section \<open>Reference: pixel replication\<close>

text \<open>
  What upscaling means: in the destination's sw * k by sh * ymul pixels, every pixel is the source
  pixel it covers; everything else in the buffer, the padding of the rows included, is untouched.
\<close>

definition upscaled ::
    "nat \<Rightarrow> nat \<Rightarrow> (nat \<Rightarrow> 'p) \<Rightarrow> (nat \<Rightarrow> 'p) \<Rightarrow> nat \<Rightarrow> nat \<Rightarrow> nat \<Rightarrow> nat \<Rightarrow> nat \<Rightarrow> 'p" where
  "upscaled k ymul s d sw sh sp dp =
     (\<lambda>a. if a mod dp < k * sw \<and> a div dp < ymul * sh
          then s (a div dp div ymul * sp + a mod dp div k) else d a)"

section \<open>Pairs of pixels\<close>

lemma rd32_halves [simp]: "lo16 (rd32 m i) = m (2 * i)" "hi16 (rd32 m i) = m (2 * i + 1)"
  by (rule bit_word_eqI; auto simp: lo16_def hi16_def rd32_def bit_simps dest: bit_imp_le_length)+

lemma halves: "(0x0000FFFF :: 32 word) = mask 16" "(0xFFFF0000 :: 32 word) = push_bit 16 (mask 16)"
  by (simp_all add: mask_eq_exp_minus_1 push_bit_eq_mult)

lemma dpix_simps [simp]:
  "lo16 (dpix1 v) = lo16 v" "hi16 (dpix1 v) = lo16 v" "lo16 (dpix2 v) = hi16 v" "hi16 (dpix2 v) = hi16 v"
  "lo16 (dpix16 p) = p" "hi16 (dpix16 p) = p"
  by (rule bit_word_eqI; auto simp: lo16_def hi16_def dpix1_def dpix2_def dpix16_def halves bit_simps dest: bit_imp_le_length)+

text \<open>A run of pixels written from index b on.\<close>

definition writes :: "nat \<Rightarrow> 'p list \<Rightarrow> (nat \<Rightarrow> 'p) \<Rightarrow> nat \<Rightarrow> 'p" where
  "writes b vs d = (\<lambda>i. if b \<le> i \<and> i < b + length vs then vs ! (i - b) else d i)"

lemma writes_Nil: "writes b [] d = d"
  by (rule ext) (auto simp: writes_def)

lemma writes_snoc: "i = b + length vs \<Longrightarrow> (writes b vs d)(i := v) = writes b (vs @ [v]) d"
  by (rule ext) (auto simp: writes_def nth_append)

lemma wr32_writes:
  "2 * i = b + length vs \<Longrightarrow> wr32 i v (writes b vs d) = writes b (vs @ [lo16 v, hi16 v]) d"
  by (rule ext) (auto simp: writes_def wr32_def nth_append)

lemma writes_writes: "i = b + length vs \<Longrightarrow> writes i ws (writes b vs d) = writes b (vs @ ws) d"
  by (rule ext) (auto simp: writes_def nth_append)

lemma wr32_run: "wr32 i v d = writes (2 * i) [lo16 v, hi16 v] d"
  using wr32_writes [of i "2 * i" "[]" v d] by (simp add: writes_Nil)

lemma upd_run: "d(i := v) = writes i [v] d"
  using writes_snoc [of i i "[]" d v] by (simp add: writes_Nil)

section \<open>Rows\<close>

text \<open>A loop whose step x writes the k-fold copies of b source pixels replicates the row.\<close>

lemma for_x_replicates:
  assumes "0 < k"
    and "\<And>x d. x < n \<Longrightarrow> body x (k * x) d = writes (b * (k * x)) (concat (map (\<lambda>j. replicate k (s (b * x + j))) [0 ..< b])) d"
  shows "for_x n k body d = (\<lambda>i. if i < b * (k * n) then s (i div k) else d i)"
  using assms(2)
proof (induction n)
  case 0
  then show ?case by (simp add: for_x_def)
next
  case (Suc n)
  have len: "length (concat (map (\<lambda>j. replicate k (s (b * n + j))) [0 ..< m])) = m * k" for m
    by (induction m) simp_all
  have nth: "concat (map (\<lambda>j. replicate k (s (b * n + j))) [0 ..< m]) ! i = s (b * n + i div k)" if "i < m * k" for m i
    using that
  proof (induction m)
    case 0
    then show ?case by simp
  next
    case (Suc m)
    show ?case
    proof (cases "i < m * k")
      case True
      then show ?thesis using Suc.IH len [of m] by (simp add: nth_append)
    next
      case False
      then have "i div k = m" using Suc.prems assms(1) by (intro div_nat_eqI) (auto simp: algebra_simps)
      then show ?thesis using False Suc.prems len [of m] by (simp add: nth_append)
    qed
  qed
  have "for_x (Suc n) k body d = body n (k * n) (for_x n k body d)" by (simp add: for_x_def)
  also have "\<dots> = writes (b * (k * n)) (concat (map (\<lambda>j. replicate k (s (b * n + j))) [0 ..< b]))
      (\<lambda>i. if i < b * (k * n) then s (i div k) else d i)"
    using Suc by simp
  also have "\<dots> = (\<lambda>i. if i < b * (k * Suc n) then s (i div k) else d i)"
  proof
    fix i
    have sum: "b * (k * n) + b * k = b * (k * Suc n)" by (simp add: algebra_simps)
    have quot: "b * n + (i - b * (k * n)) div k = i div k" if "b * (k * n) \<le> i"
    proof -
      have "i = (i - b * (k * n)) + k * (b * n)" using that by (simp add: algebra_simps)
      then have "i div k = ((i - b * (k * n)) + k * (b * n)) div k" by metis
      also have "\<dots> = b * n + (i - b * (k * n)) div k" using assms(1) by simp
      finally show ?thesis by simp
    qed
    show "writes (b * (k * n)) (concat (map (\<lambda>j. replicate k (s (b * n + j))) [0 ..< b]))
      (\<lambda>i. if i < b * (k * n) then s (i div k) else d i) i = (if i < b * (k * Suc n) then s (i div k) else d i)"
      using len [of b] nth [of "i - b * (k * n)" b] quot sum by (auto simp: writes_def)
  qed
  finally show ?case .
qed

definition row_replicates :: "nat \<Rightarrow> (nat \<Rightarrow> (nat \<Rightarrow> 'p) \<Rightarrow> (nat \<Rightarrow> 'p) \<Rightarrow> nat \<Rightarrow> 'p) \<Rightarrow> bool" where
  "row_replicates k row \<longleftrightarrow> (\<forall>sw s d. row sw s d = (\<lambda>i. if i < k * sw then s (i div k) else d i))"

text \<open>The odd last pixel of a 16 bit row.\<close>

lemma odd_tail:
  assumes "odd sw" "0 < k"
  shows "writes (2 * (k * (sw div 2))) (replicate k (s (2 * (sw div 2)))) (\<lambda>i. if i < 2 * (k * (sw div 2)) then s (i div k) else d i)
    = (\<lambda>i. if i < k * sw then s (i div k) else d i)"
proof
  fix i
  have sw: "k * sw = 2 * (k * (sw div 2)) + k"
    using assms(1) by (elim oddE) (simp add: algebra_simps)
  have "i div k = 2 * (sw div 2)" if "2 * (k * (sw div 2)) \<le> i" "i < 2 * (k * (sw div 2)) + k"
    using that assms(2) by (intro div_nat_eqI) (auto simp: algebra_simps)
  then show "writes (2 * (k * (sw div 2))) (replicate k (s (2 * (sw div 2))))
      (\<lambda>i. if i < 2 * (k * (sw div 2)) then s (i div k) else d i) i = (if i < k * sw then s (i div k) else d i)"
    using sw by (auto simp: writes_def)
qed

lemma even_row: "even sw \<Longrightarrow> 2 * (k * (sw div 2)) = k * (sw :: nat)"
  by (metis dvd_mult_div_cancel mult.left_commute)

text \<open>A 16 bit row: the pairs of pixels, then the odd last one.\<close>

lemma pair_row:
  assumes "0 < k"
    and step: "\<And>x d. body x (k * x) d = writes (2 * (k * x)) (replicate k (s (2 * x)) @ replicate k (s (2 * x + 1))) d"
    and tail: "\<And>d. odd sw \<Longrightarrow> last_pixel d = writes (2 * (k * (sw div 2))) (replicate k (s (2 * (sw div 2)))) d"
  shows "(if odd sw then last_pixel (for_x (sw div 2) k body d) else for_x (sw div 2) k body d)
    = (\<lambda>i. if i < k * sw then s (i div k) else d i)"
proof -
  have loop: "for_x (sw div 2) k body d = (\<lambda>i. if i < 2 * (k * (sw div 2)) then s (i div k) else d i)"
    using assms(1) by (rule for_x_replicates) (simp add: step numeral_2_eq_2)
  show ?thesis
  proof (cases "odd sw")
    case True
    then show ?thesis using odd_tail [OF True assms(1), of s d] by (simp add: loop tail)
  next
    case False
    then show ?thesis by (simp add: loop even_row)
  qed
qed

lemma run32_row:
  assumes "0 < k" "\<And>x d. body x (k * x) d = writes (k * x) (replicate k (s x)) d"
  shows "for_x sw k body d = (\<lambda>i. if i < k * sw then s (i div k) else d i)"
  using for_x_replicates [of k sw body 1 s d] assms by simp

lemma row2_c16_replicates: "row_replicates 2 row2_c16"
  unfolding row_replicates_def row2_c16_def Let_def
proof (intro allI, rule pair_row)
  fix x sw :: nat and s d :: "nat \<Rightarrow> 16 word"
  show "wr32 (2 * x + 1) (dpix2 (rd32 s x)) (wr32 (2 * x) (dpix1 (rd32 s x)) d)
      = writes (2 * (2 * x)) (replicate 2 (s (2 * x)) @ replicate 2 (s (2 * x + 1))) d"
    using wr32_run [of "2 * x" _ d] by (simp add: wr32_writes numeral_eq_Suc)
qed (simp_all add: wr32_run upd_run writes_writes numeral_eq_Suc)

lemma row3_c16_replicates: "row_replicates 3 row3_c16"
  unfolding row_replicates_def row3_c16_def Let_def
proof (intro allI, rule pair_row)
  fix x sw :: nat and s d :: "nat \<Rightarrow> 16 word"
  show "wr32 (3 * x + 2) (dpix2 (rd32 s x)) (wr32 (3 * x + 1) (rd32 s x) (wr32 (3 * x) (dpix1 (rd32 s x)) d))
      = writes (2 * (3 * x)) (replicate 3 (s (2 * x)) @ replicate 3 (s (2 * x + 1))) d"
    using wr32_run [of "3 * x" _ d] by (simp add: wr32_writes numeral_eq_Suc)
qed (simp_all add: wr32_run upd_run writes_writes numeral_eq_Suc)

lemma row4_c16_replicates: "row_replicates 4 row4_c16"
  unfolding row_replicates_def row4_c16_def Let_def
proof (intro allI, rule pair_row)
  fix x sw :: nat and s d :: "nat \<Rightarrow> 16 word"
  show "wr32 (4 * x + 3) (dpix2 (rd32 s x)) (wr32 (4 * x + 2) (dpix2 (rd32 s x))
      (wr32 (4 * x + 1) (dpix1 (rd32 s x)) (wr32 (4 * x) (dpix1 (rd32 s x)) d)))
      = writes (2 * (4 * x)) (replicate 4 (s (2 * x)) @ replicate 4 (s (2 * x + 1))) d"
    using wr32_run [of "4 * x" _ d] by (simp add: wr32_writes numeral_eq_Suc)
qed (simp_all add: wr32_run upd_run writes_writes numeral_eq_Suc)

lemma row5_c16_replicates: "row_replicates 5 row5_c16"
  unfolding row_replicates_def row5_c16_def Let_def
proof (intro allI, rule pair_row)
  fix x sw :: nat and s d :: "nat \<Rightarrow> 16 word"
  show "wr32 (5 * x + 4) (dpix2 (rd32 s x)) (wr32 (5 * x + 3) (dpix2 (rd32 s x)) (wr32 (5 * x + 2) (rd32 s x)
      (wr32 (5 * x + 1) (dpix1 (rd32 s x)) (wr32 (5 * x) (dpix1 (rd32 s x)) d))))
      = writes (2 * (5 * x)) (replicate 5 (s (2 * x)) @ replicate 5 (s (2 * x + 1))) d"
    using wr32_run [of "5 * x" _ d] by (simp add: wr32_writes numeral_eq_Suc)
qed (simp_all add: wr32_run upd_run writes_writes numeral_eq_Suc)

lemma row6_c16_replicates: "row_replicates 6 row6_c16"
  unfolding row_replicates_def row6_c16_def Let_def
proof (intro allI, rule pair_row)
  fix x sw :: nat and s d :: "nat \<Rightarrow> 16 word"
  show "wr32 (6 * x + 5) (dpix2 (rd32 s x)) (wr32 (6 * x + 4) (dpix2 (rd32 s x)) (wr32 (6 * x + 3) (dpix2 (rd32 s x))
      (wr32 (6 * x + 2) (dpix1 (rd32 s x)) (wr32 (6 * x + 1) (dpix1 (rd32 s x)) (wr32 (6 * x) (dpix1 (rd32 s x)) d)))))
      = writes (2 * (6 * x)) (replicate 6 (s (2 * x)) @ replicate 6 (s (2 * x + 1))) d"
    using wr32_run [of "6 * x" _ d] by (simp add: wr32_writes numeral_eq_Suc)
qed (simp_all add: wr32_run upd_run writes_writes numeral_eq_Suc)

lemma row2_c32_replicates: "row_replicates 2 row2_c32"
  unfolding row_replicates_def row2_c32_def Let_def
proof (intro allI, rule run32_row)
  fix x :: nat and s d :: "nat \<Rightarrow> 32 word"
  show "d(2 * x := s x, 2 * x + 1 := s x)
      = writes (2 * x) (replicate 2 (s x)) d"
    using upd_run [of d "2 * x"] by (simp add: writes_snoc numeral_eq_Suc)
qed simp

lemma row3_c32_replicates: "row_replicates 3 row3_c32"
  unfolding row_replicates_def row3_c32_def Let_def
proof (intro allI, rule run32_row)
  fix x :: nat and s d :: "nat \<Rightarrow> 32 word"
  show "d(3 * x := s x, 3 * x + 1 := s x, 3 * x + 2 := s x)
      = writes (3 * x) (replicate 3 (s x)) d"
    using upd_run [of d "3 * x"] by (simp add: writes_snoc numeral_eq_Suc)
qed simp

lemma row4_c32_replicates: "row_replicates 4 row4_c32"
  unfolding row_replicates_def row4_c32_def Let_def
proof (intro allI, rule run32_row)
  fix x :: nat and s d :: "nat \<Rightarrow> 32 word"
  show "d(4 * x := s x, 4 * x + 1 := s x, 4 * x + 2 := s x, 4 * x + 3 := s x)
      = writes (4 * x) (replicate 4 (s x)) d"
    using upd_run [of d "4 * x"] by (simp add: writes_snoc numeral_eq_Suc)
qed simp

lemma row5_c32_replicates: "row_replicates 5 row5_c32"
  unfolding row_replicates_def row5_c32_def Let_def
proof (intro allI, rule run32_row)
  fix x :: nat and s d :: "nat \<Rightarrow> 32 word"
  show "d(5 * x := s x, 5 * x + 1 := s x, 5 * x + 2 := s x, 5 * x + 3 := s x, 5 * x + 4 := s x)
      = writes (5 * x) (replicate 5 (s x)) d"
    using upd_run [of d "5 * x"] by (simp add: writes_snoc numeral_eq_Suc)
qed simp

lemma row6_c32_replicates: "row_replicates 6 row6_c32"
  unfolding row_replicates_def row6_c32_def Let_def
proof (intro allI, rule run32_row)
  fix x :: nat and s d :: "nat \<Rightarrow> 32 word"
  show "d(6 * x := s x, 6 * x + 1 := s x, 6 * x + 2 := s x, 6 * x + 3 := s x, 6 * x + 4 := s x, 6 * x + 5 := s x)
      = writes (6 * x) (replicate 6 (s x)) d"
    using upd_run [of d "6 * x"] by (simp add: writes_snoc numeral_eq_Suc)
qed simp

section \<open>Images\<close>

text \<open>Row and column of an address, seen from n rows further down.\<close>

lemma rowcol_shift:
  fixes a b n dp :: nat
  assumes "0 < dp" "b + n * dp \<le> a"
  shows "(a - b) mod dp = (a - (b + n * dp)) mod dp" "(a - b) div dp = (a - (b + n * dp)) div dp + n"
proof -
  have "a - b = (a - (b + n * dp)) + n * dp" using assms(2) by simp
  then show "(a - b) mod dp = (a - (b + n * dp)) mod dp" "(a - b) div dp = (a - (b + n * dp)) div dp + n"
    using assms(1) by (metis mod_mult_self1, metis add.commute div_mult_self1 less_numeral_extra(3))
qed

lemma rowcol_first:
  fixes a b dp :: nat
  assumes "b \<le> a" "a < b + dp"
  shows "(a - b) mod dp = a - b" "(a - b) div dp = 0"
  using assms by simp_all

lemma copy_rows_fst: "fst (copy_rows n dstsrc swl dp dst d) = dst + n * dp"
  by (induction n arbitrary: dst d) (simp_all add: algebra_simps)

text \<open>Copies of the row at address 0 of the block that starts at base, into the rows after it.\<close>

lemma copy_rows_snd:
  assumes "w \<le> dp" "0 < dp" "base + dp \<le> dst"
  shows "snd (copy_rows n base w dp dst d) =
    (\<lambda>a. if dst \<le> a \<and> (a - dst) mod dp < w \<and> (a - dst) div dp < n then d (base + (a - dst) mod dp) else d a)"
  using assms(3)
proof (induction n arbitrary: dst d)
  case 0
  then show ?case by simp
next
  case (Suc n)
  have "snd (copy_rows (Suc n) base w dp dst d) = snd (copy_rows n base w dp (dst + dp) (memcpy dst base w d))"
    by simp
  also have "\<dots> = (\<lambda>a. if dst + dp \<le> a \<and> (a - (dst + dp)) mod dp < w \<and> (a - (dst + dp)) div dp < n
      then memcpy dst base w d (base + (a - (dst + dp)) mod dp) else memcpy dst base w d a)"
    using Suc.prems by (intro Suc.IH) simp
  also have "\<dots> = (\<lambda>a. if dst \<le> a \<and> (a - dst) mod dp < w \<and> (a - dst) div dp < Suc n
      then d (base + (a - dst) mod dp) else d a)"
  proof
    fix a
    have inner: "memcpy dst base w d (base + k) = d (base + k)" if "k < w" for k
      using that assms(1) Suc.prems by (auto simp: memcpy_def)
    show "(if dst + dp \<le> a \<and> (a - (dst + dp)) mod dp < w \<and> (a - (dst + dp)) div dp < n
        then memcpy dst base w d (base + (a - (dst + dp)) mod dp) else memcpy dst base w d a)
      = (if dst \<le> a \<and> (a - dst) mod dp < w \<and> (a - dst) div dp < Suc n then d (base + (a - dst) mod dp) else d a)"
    proof (cases "dst + dp \<le> a")
      case True
      note rc = rowcol_shift [OF assms(2), of dst 1 a, simplified, OF True]
      have old: "memcpy dst base w d a = d a" using True assms(1) by (simp add: memcpy_def)
      show ?thesis
      proof (cases "(a - (dst + dp)) mod dp < w")
        case col: True
        then show ?thesis using True rc inner [OF col] old by simp
      next
        case False
        then show ?thesis using True rc old by simp
      qed
    next
      case False
      show ?thesis
      proof (cases "dst \<le> a")
        case True
        then show ?thesis using False rowcol_first [of dst a dp] by (auto simp: memcpy_def)
      next
        case below: False
        then show ?thesis using False by (simp add: memcpy_def)
      qed
    qed
  qed
  finally show ?case .
qed

text \<open>One source row: its row of the destination and the copies below it.\<close>

lemma row_block:
  assumes "row_replicates k row" "0 < dp" "k * sw \<le> dp" "0 < ymul"
  shows "copy_rows (ymul - 1) dst (k * sw) dp (dst + dp) (within dst (row sw (at src s)) d)
    = (dst + ymul * dp, \<lambda>a. if dst \<le> a \<and> (a - dst) mod dp < k * sw \<and> (a - dst) div dp < ymul
        then s (src + (a - dst) mod dp div k) else d a)"
proof -
  obtain n where n: "ymul = Suc n" using assms(4) by (cases ymul) auto
  let ?d = "within dst (row sw (at src s)) d"
  have first: "?d a = (if dst \<le> a \<and> a < dst + k * sw then s (src + (a - dst) div k) else d a)" for a
    using assms(1) by (auto simp: within_def row_replicates_def at_def)
  have "snd (copy_rows n dst (k * sw) dp (dst + dp) ?d) a =
      (if dst \<le> a \<and> (a - dst) mod dp < k * sw \<and> (a - dst) div dp < ymul then s (src + (a - dst) mod dp div k) else d a)" for a
  proof (cases "dst + dp \<le> a")
    case True
    note rc = rowcol_shift [OF assms(2), of dst 1 a, simplified, OF True]
    have "?d (dst + (a - (dst + dp)) mod dp) = s (src + (a - (dst + dp)) mod dp div k)"
      if "(a - (dst + dp)) mod dp < k * sw" using that by (simp add: first)
    moreover have "?d a = d a" using True assms(3) by (simp add: first)
    ultimately show ?thesis
      using True rc n by (simp add: copy_rows_snd [OF assms(3,2)])
  next
    case False
    show ?thesis
    proof (cases "dst \<le> a")
      case True
      then show ?thesis using False n rowcol_first [of dst a dp] by (simp add: copy_rows_snd [OF assms(3,2)] first less_diff_conv2 add.commute)
    next
      case below: False
      then show ?thesis using False by (simp add: copy_rows_snd [OF assms(3,2)] first)
    qed
  qed
  then show ?thesis using copy_rows_fst [of n dst "k * sw" dp "dst + dp" ?d] n
    by (intro prod_eqI) (auto simp: fun_eq_iff)
qed

lemma scale_rows_eq:
  assumes "row_replicates k row" "0 < dp" "k * sw \<le> dp" "0 < ymul"
  shows "scale_rows (row sw) ymul (k * sw) sh sp dp src dst s d
    = (\<lambda>a. if dst \<le> a \<and> (a - dst) mod dp < k * sw \<and> (a - dst) div dp < ymul * sh
        then s (src + (a - dst) div dp div ymul * sp + (a - dst) mod dp div k) else d a)"
proof (induction sh arbitrary: src dst d)
  case 0
  then show ?case by simp
next
  case (Suc sh)
  let ?b = "\<lambda>a. if dst \<le> a \<and> (a - dst) mod dp < k * sw \<and> (a - dst) div dp < ymul
        then s (src + (a - dst) mod dp div k) else d a"
  have "scale_rows (row sw) ymul (k * sw) (Suc sh) sp dp src dst s d
      = scale_rows (row sw) ymul (k * sw) sh sp dp (src + sp) (dst + ymul * dp) s ?b"
    using row_block [OF assms, of dst src s d] by simp
  also have "\<dots> = (\<lambda>a. if dst \<le> a \<and> (a - dst) mod dp < k * sw \<and> (a - dst) div dp < ymul * Suc sh
        then s (src + (a - dst) div dp div ymul * sp + (a - dst) mod dp div k) else d a)"
    (is "_ = ?r")
  proof
    fix a
    show "scale_rows (row sw) ymul (k * sw) sh sp dp (src + sp) (dst + ymul * dp) s ?b a = ?r a"
    proof (cases "dst + ymul * dp \<le> a")
      case True
      note rc = rowcol_shift [OF assms(2) True]
      have "((a - (dst + ymul * dp)) div dp + ymul) div ymul = Suc ((a - (dst + ymul * dp)) div dp div ymul)"
        using assms(4) by (simp add: div_add_self2)
      then show ?thesis
        using True by (simp add: Suc.IH rc algebra_simps)
    next
      case False
      then have "a - dst < ymul * dp" using assms(2,4) by (cases "dst \<le> a") auto
      then have "(a - dst) div dp < ymul" by (rule less_mult_imp_div_less)
      then show ?thesis using False by (simp add: Suc.IH trans_less_add1)
    qed
  qed
  finally show ?case .
qed

text \<open>Pitches that make sense for a row of the given width, 0 standing for a packed image.\<close>

definition pitch_ok :: "nat \<Rightarrow> nat \<Rightarrow> nat \<Rightarrow> bool" where
  "pitch_ok bytes width pitch \<longleftrightarrow> pitch = 0 \<or> (bytes dvd pitch \<and> bytes * width \<le> pitch)"

definition pitch_px :: "nat \<Rightarrow> nat \<Rightarrow> nat \<Rightarrow> nat" where
  "pitch_px bytes width pitch = (if pitch = 0 then width else pitch div bytes)"

lemma pitch_px_ge: "0 < bytes \<Longrightarrow> pitch_ok bytes width pitch \<Longrightarrow> width \<le> pitch_px bytes width pitch"
  by (auto simp: pitch_ok_def pitch_px_def)

lemma upscaled_empty: "k * sw = 0 \<or> ymul * sh = 0 \<Longrightarrow> upscaled k ymul s d sw sh sp dp = d"
  by (auto simp: upscaled_def)

lemma scale_image_eq:
  assumes "row_replicates k row" "0 < bytes" "0 < k" "pitch_ok bytes (k * sw) dp"
  shows "scale_image bytes k row s d sw sh sp dp ymul
    = upscaled k ymul s d sw sh (pitch_px bytes sw sp) (pitch_px bytes (k * sw) dp)"
proof (cases "sw = 0 \<or> sh = 0 \<or> ymul = 0")
  case True
  then show ?thesis by (auto simp: scale_image_def upscaled_empty)
next
  case False
  have sw: "sw * bytes * k div bytes = k * sw" using assms(2) by (simp add: ac_simps)
  have px: "(if sp = 0 then sw * bytes else sp) div bytes = pitch_px bytes sw sp"
    "(if dp = 0 then sw * bytes * k else dp) div bytes = pitch_px bytes (k * sw) dp"
    using assms(2) sw by (simp_all add: pitch_px_def)
  have le: "k * sw \<le> pitch_px bytes (k * sw) dp" by (rule pitch_px_ge [OF assms(2,4)])
  then have "0 < pitch_px bytes (k * sw) dp" using False assms(3) by (metis gr0I le_zero_eq mult_eq_0_iff)
  from scale_rows_eq [OF assms(1) this le, of ymul sh "pitch_px bytes sw sp" 0 0 s d] False show ?thesis
    unfolding scale_image_def Let_def sw px by (simp add: upscaled_def cong: if_cong)
qed

section \<open>The scalers 1x\<close>

lemma row1_replicates: "row_replicates 1 (\<lambda>sw s d. memcpy_from s sw d)"
  by (simp add: row_replicates_def memcpy_from_def cong: if_cong)

lemma within_memcpy:
  "within b (memcpy_from (at src s) w) m a = (if b \<le> a \<and> a < b + w then s (src + (a - b)) else m a)"
  by (auto simp: within_def memcpy_from_def at_def)

lemma copy_block:
  assumes "0 < dp" "w \<le> dp"
  shows "fold (\<lambda>i. within (dst + i * dp) (memcpy_from (at src s) w)) [0 ..< n] d
    = (\<lambda>a. if dst \<le> a \<and> (a - dst) mod dp < w \<and> (a - dst) div dp < n then s (src + (a - dst) mod dp) else d a)"
proof (induction n)
  case 0
  then show ?case by simp
next
  case (Suc n)
  have step: "fold (\<lambda>i. within (dst + i * dp) (memcpy_from (at src s) w)) [0 ..< Suc n] d a =
      (if dst + n * dp \<le> a \<and> a < dst + n * dp + w then s (src + (a - (dst + n * dp)))
       else if dst \<le> a \<and> (a - dst) mod dp < w \<and> (a - dst) div dp < n then s (src + (a - dst) mod dp) else d a)" for a
    by (simp add: Suc within_memcpy)
  have "(if dst + n * dp \<le> a \<and> a < dst + n * dp + w then s (src + (a - (dst + n * dp)))
       else if dst \<le> a \<and> (a - dst) mod dp < w \<and> (a - dst) div dp < n then s (src + (a - dst) mod dp) else d a)
    = (if dst \<le> a \<and> (a - dst) mod dp < w \<and> (a - dst) div dp < Suc n then s (src + (a - dst) mod dp) else d a)" for a
  proof (cases "dst + n * dp \<le> a")
    case True
    note rc = rowcol_shift [OF assms(1) True]
    show ?thesis
    proof (cases "a < dst + n * dp + dp")
      case near: True
      have "a - (dst + n * dp) < w \<longleftrightarrow> a < dst + n * dp + w" using True by linarith
      then show ?thesis using True rowcol_first [OF True near] rc by (simp cong: if_cong)
    next
      case False
      then have "0 < (a - (dst + n * dp)) div dp" using assms(1) by (simp add: div_greater_zero_iff)
      moreover have "\<not> a < dst + n * dp + w" using False assms(2) by linarith
      ultimately show ?thesis using True rc(2) by simp
    qed
  next
    case False
    have "dst \<le> a \<longrightarrow> (a - dst) div dp < n" using False by (auto intro!: less_mult_imp_div_less)
    then show ?thesis using False by auto
  qed
  with step have "fold (\<lambda>i. within (dst + i * dp) (memcpy_from (at src s) w)) [0 ..< Suc n] d a =
      (if dst \<le> a \<and> (a - dst) mod dp < w \<and> (a - dst) div dp < Suc n then s (src + (a - dst) mod dp) else d a)" for a
    by (rule trans)
  then show ?case by blast
qed

lemma copy_image_eq:
  assumes "0 < dp" "w \<le> dp" "0 < ymul"
  shows "copy_image ymul w sh sp dp src dst s d
    = scale_rows (\<lambda>s d. memcpy_from s w d) ymul w sh sp dp src dst s d"
proof (induction sh arbitrary: src dst d)
  case 0
  then show ?case by simp
next
  case (Suc sh)
  have "copy_rows (ymul - 1) dst w dp (dst + dp) (within dst (memcpy_from (at src s) w) d)
      = (dst + ymul * dp, fold (\<lambda>i. within (dst + i * dp) (memcpy_from (at src s) w)) [0 ..< ymul] d)"
    using row_block [OF row1_replicates assms(1), of w ymul dst src s d] assms(2,3)
    by (simp add: copy_block [OF assms(1,2)] cong: if_cong)
  then show ?case by (simp add: Suc)
qed

lemma memcpy_whole:
  "0 < sw \<Longrightarrow> memcpy_from s (sw * sh) d = upscaled 1 1 s d sw sh sw sw"
proof
  fix a assume "0 < sw"
  then have "a < sw * sh \<longleftrightarrow> a div sw < sh" by (simp add: less_mult_imp_div_less div_less_iff_less_mult mult.commute)
  then show "memcpy_from s (sw * sh) d a = upscaled 1 1 s d sw sh sw sw a"
    using \<open>0 < sw\<close> by (simp add: memcpy_from_def upscaled_def)
qed

lemma copy_upscaled:
  assumes "0 < dp" "sw \<le> dp" "0 < ymul"
  shows "copy_image ymul sw sh sp dp 0 0 s d = upscaled 1 ymul s d sw sh sp dp"
  using scale_rows_eq [OF row1_replicates assms(1), of sw ymul sh sp 0 0 s d] assms
  by (simp add: copy_image_eq upscaled_def cong: if_cong)

lemma scale1x_c16_eq:
  assumes "pitch_ok 2 sw dp"
  shows "scale1x_c16 s d sw sh sp dp ymul = upscaled 1 ymul s d sw sh (pitch_px 2 sw sp) (pitch_px 2 sw dp)"
proof (cases "sw = 0 \<or> sh = 0 \<or> ymul = 0")
  case True
  then show ?thesis by (auto simp: scale1x_c16_def upscaled_empty)
next
  case False
  define sp' dp' where "sp' = (if sp = 0 then sw * 2 else sp)" and "dp' = (if dp = 0 then sw * 2 else dp)"
  have le: "sw \<le> pitch_px 2 sw dp" by (rule pitch_px_ge [OF _ assms]) simp
  have px: "sw * 2 div 2 = sw" "sp' div 2 = pitch_px 2 sw sp" "dp' div 2 = pitch_px 2 sw dp"
    "\<not> dp' < sw * 2"
    using assms by (auto simp: sp'_def dp'_def pitch_px_def pitch_ok_def)
  have copy: "copy_image ymul sw sh (pitch_px 2 sw sp) (pitch_px 2 sw dp) 0 0 s d
      = upscaled 1 ymul s d sw sh (pitch_px 2 sw sp) (pitch_px 2 sw dp)"
    using False le by (intro copy_upscaled) auto
  have eq: "scale1x_c16 s d sw sh sp dp ymul =
      (if ymul = 1 \<and> sw * 2 = sp' \<and> sp' = dp' then memcpy_from s (sp' * sh div 2) d
       else copy_image ymul ((if dp' < sw * 2 then dp' else sw * 2) div 2) sh (sp' div 2) (dp' div 2) 0 0 s d)"
    unfolding scale1x_c16_def Let_def sp'_def dp'_def by (simp only: False if_False mult_1_right)
  show ?thesis
  proof (cases "ymul = 1 \<and> sw * 2 = sp' \<and> sp' = dp'")
    case True
    then have "pitch_px 2 sw sp = sw" "pitch_px 2 sw dp = sw" using px by auto
    moreover have "sp' * sh = 2 * (sw * sh)" using True by (metis mult.assoc mult.commute)
    then have "sp' * sh div 2 = sw * sh" by (metis nonzero_mult_div_cancel_left zero_neq_numeral)
    ultimately have "pitch_px 2 sw sp = sw" "pitch_px 2 sw dp = sw" "sp' * sh div 2 = sw * sh" by blast+
    then show ?thesis
      unfolding eq using False True memcpy_whole [of sw s sh d] by simp
  next
    case no: False
    have "\<not> dp' < sw * 2" "sw * 2 div 2 = sw" using px by simp_all
    then show ?thesis unfolding eq if_not_P [OF no] using copy px by simp
  qed
qed

lemma scale1x_c32_eq:
  assumes "pitch_ok 4 sw dp"
  shows "scale1x_c32 s d sw sh sp dp ymul = upscaled 1 ymul s d sw sh (pitch_px 4 sw sp) (pitch_px 4 sw dp)"
proof (cases "sw = 0 \<or> sh = 0 \<or> ymul = 0")
  case True
  then show ?thesis by (auto simp: scale1x_c32_def upscaled_empty)
next
  case False
  define sp' dp' where "sp' = (if sp = 0 then sw * 4 else sp)" and "dp' = (if dp = 0 then sw * 4 else dp)"
  have le: "sw \<le> pitch_px 4 sw dp" by (rule pitch_px_ge [OF _ assms]) simp
  have px: "sw * 4 div 4 = sw" "sp' div 4 = pitch_px 4 sw sp" "dp' div 4 = pitch_px 4 sw dp"
    "\<not> dp' < sw * 4"
    using assms by (auto simp: sp'_def dp'_def pitch_px_def pitch_ok_def)
  have copy: "copy_image ymul sw sh (pitch_px 4 sw sp) (pitch_px 4 sw dp) 0 0 s d
      = upscaled 1 ymul s d sw sh (pitch_px 4 sw sp) (pitch_px 4 sw dp)"
    using False le by (intro copy_upscaled) auto
  have eq: "scale1x_c32 s d sw sh sp dp ymul =
      (if ymul = 1 \<and> sw * 4 = sp' \<and> sp' = dp' then memcpy_from s (sp' * sh div 4) d
       else copy_image ymul ((sw * 4) div 4) sh (sp' div 4) (dp' div 4) 0 0 s d)"
    unfolding scale1x_c32_def Let_def sp'_def dp'_def by (simp only: False if_False mult_1_right)
  show ?thesis
  proof (cases "ymul = 1 \<and> sw * 4 = sp' \<and> sp' = dp'")
    case True
    then have "pitch_px 4 sw sp = sw" "pitch_px 4 sw dp = sw" using px by auto
    moreover have "sp' * sh = 4 * (sw * sh)" using True by (metis mult.assoc mult.commute)
    then have "sp' * sh div 4 = sw * sh" by (metis nonzero_mult_div_cancel_left zero_neq_numeral)
    ultimately have "pitch_px 4 sw sp = sw" "pitch_px 4 sw dp = sw" "sp' * sh div 4 = sw * sh" by blast+
    then show ?thesis
      unfolding eq using False True memcpy_whole [of sw s sh d] by simp
  next
    case no: False
    have "\<not> dp' < sw * 4" "sw * 4 div 4 = sw" using px by simp_all
    then show ?thesis unfolding eq if_not_P [OF no] using copy px by simp
  qed
qed

section \<open>Properties\<close>

definition scale_supported :: "nat \<Rightarrow> nat \<Rightarrow> bool" where
  "scale_supported xmul ymul \<longleftrightarrow>
     (1 \<le> xmul \<and> xmul \<le> 4 \<and> 1 \<le> ymul \<and> ymul \<le> 4) \<or> (xmul = 5 \<and> 1 \<le> ymul \<and> ymul \<le> 5)
     \<or> (xmul = 6 \<and> 1 \<le> ymul \<and> ymul \<le> 6)"

lemmas scale_image_defs = scale2x_c16_def scale3x_c16_def scale4x_c16_def scale5x_c16_def scale6x_c16_def
  scale2x_c32_def scale3x_c32_def scale4x_c32_def scale5x_c32_def scale6x_c32_def

lemma scaler_c16_upscaled:
  assumes "pitch_ok 2 (xmul * sw) dp"
  shows "scaler_c16 xmul ymul s d sw sh sp dp =
    (if scale_supported xmul ymul
     then upscaled xmul ymul s d sw sh (pitch_px 2 sw sp) (pitch_px 2 (xmul * sw) dp) else d)"
proof (cases "1 \<le> xmul \<and> xmul \<le> 6")
  case True
  then consider "xmul = 1" | "xmul = 2" | "xmul = 3" | "xmul = 4" | "xmul = 5" | "xmul = 6" by linarith
  then show ?thesis
    using assms
    by cases (auto simp: scaler_c16_def scale_supported_def scale_image_defs scale1x_c16_eq scale_image_eq
      row2_c16_replicates row3_c16_replicates row4_c16_replicates row5_c16_replicates row6_c16_replicates)
next
  case False
  then show ?thesis by (auto simp: scaler_c16_def scale_supported_def)
qed

text \<open>
  C9. The 16 bit scalers, which handle two pixels per access, are pixel replication: for every
  factor in the table, every size, odd widths included, and every pitch that holds a row,
  scaler_c16 computes the reference upscaling and touches nothing else; for every other factor it
  leaves the destination alone.
\<close>

theorem scaler_c16_replicates:
  assumes "pitch_ok 2 (xmul * sw) dp"
  shows "scaler_c16 xmul ymul s d sw sh sp dp =
    (if scale_supported xmul ymul
     then upscaled xmul ymul s d sw sh (pitch_px 2 sw sp) (pitch_px 2 (xmul * sw) dp) else d)"
  by (rule scaler_c16_upscaled [OF assms])

text \<open>
  The 32 bit scalers are pixel replication as well, for the same factors, every size and
  every pitch that holds a row, and leave the destination alone for any other factor.
\<close>

theorem scaler_c32_replicates:
  assumes "pitch_ok 4 (xmul * sw) dp"
  shows "scaler_c32 xmul ymul s d sw sh sp dp =
    (if scale_supported xmul ymul
     then upscaled xmul ymul s d sw sh (pitch_px 4 sw sp) (pitch_px 4 (xmul * sw) dp) else d)"
proof (cases "1 \<le> xmul \<and> xmul \<le> 6")
  case True
  then consider "xmul = 1" | "xmul = 2" | "xmul = 3" | "xmul = 4" | "xmul = 5" | "xmul = 6" by linarith
  then show ?thesis
    using assms
    by cases (auto simp: scaler_c32_def scale_supported_def scale_image_defs scale1x_c32_eq scale_image_eq
      row2_c32_replicates row3_c32_replicates row4_c32_replicates row5_c32_replicates row6_c32_replicates)
next
  case False
  then show ?thesis by (auto simp: scaler_c32_def scale_supported_def)
qed

theorem scaler_c16_replicates_witness:
  "map (scaler_c16 3 2 (\<lambda>i. of_nat i) (\<lambda>_. 99) 3 1 0 20) [0 ..< 20]
    = [0, 0, 0, 1, 1, 1, 2, 2, 2, 99, 0, 0, 0, 1, 1, 1, 2, 2, 2, 99]"
proof -
  have "pitch_ok 2 (3 * 3) 20" "scale_supported 3 2" by (simp_all add: pitch_ok_def scale_supported_def)
  then show ?thesis
    using scaler_c16_replicates [of 3 3 20 2 "\<lambda>i. of_nat i" "\<lambda>_. 99" 1 0]
    by (simp add: upscaled_def pitch_px_def upt_rec)
qed

theorem scaler_c32_replicates_witness:
  "map (scaler_c32 2 1 (\<lambda>i. of_nat i) (\<lambda>_. 99) 3 1 0 0) [0 ..< 7] = [0, 0, 1, 1, 2, 2, 99]"
proof -
  have "pitch_ok 4 (2 * 3) 0" "scale_supported 2 1" by (simp_all add: pitch_ok_def scale_supported_def)
  then show ?thesis
    using scaler_c32_replicates [of 2 3 0 1 "\<lambda>i. of_nat i" "\<lambda>_. 99" 1 0]
    by (simp add: upscaled_def pitch_px_def upt_rec)
qed

end
