(* ===== verification/Effects.thy ===== *)
theory Effects
  imports Scaler
begin

text \<open>
  The screen effects and the 16 to 32 bit scalers of workspace/all/common/scaler.c: the weights on
  RGB565 pixels, the scanline effects scale1x_line to scale4x_line, the pixel grids scale2x_grid
  and scale3x_grid, and scale1x_c16to32 and scale2x_c16to32. Buffers are as in theory Scaler;
  k, the second colour of every weight, is black in all of them.
\<close>

section \<open>RGB565\<close>

definition cR :: "16 word \<Rightarrow> nat" where
  "cR A = drop_bit 11 (unat A AND 0xf800)"

definition cG :: "16 word \<Rightarrow> nat" where
  "cG A = drop_bit 5 (unat A AND 0x7e0)"

definition cB :: "16 word \<Rightarrow> nat" where
  "cB A = unat A AND 0x1f"

text \<open>The common shape of the three weight macros, stored into a uint16_t.\<close>

definition rgb565 :: "nat \<Rightarrow> nat \<Rightarrow> nat \<Rightarrow> 16 word" where
  "rgb565 r g b = of_nat (push_bit 11 (r AND 0x1f) OR push_bit 5 (g AND 0x3f) OR (b AND 0x1f))"

definition Weight2_3 :: "16 word \<Rightarrow> 16 word \<Rightarrow> 16 word" where
  "Weight2_3 A B = rgb565 ((push_bit 1 (cR A) + cR B * 3) div 5) ((push_bit 1 (cG A) + cG B * 3) div 5)
     ((push_bit 1 (cB A) + cB B * 3) div 5)"

definition Weight3_1 :: "16 word \<Rightarrow> 16 word \<Rightarrow> 16 word" where
  "Weight3_1 A B = rgb565 (drop_bit 2 (cR B + cR A * 3)) (drop_bit 2 (cG B + cG A * 3)) (drop_bit 2 (cB B + cB A * 3))"

definition Weight3_2 :: "16 word \<Rightarrow> 16 word \<Rightarrow> 16 word" where
  "Weight3_2 A B = rgb565 ((push_bit 1 (cR B) + cR A * 3) div 5) ((push_bit 1 (cG B) + cG A * 3) div 5)
     ((push_bit 1 (cB B) + cB A * 3) div 5)"

section \<open>Effects\<close>

text \<open>
  The two loops of the effects: body gets the destination pixel and the source colour; rows of
  the destination are n * dw pixels apart, and dst_row advances by n pixels per source pixel.
\<close>

definition fx_rows ::
    "nat \<Rightarrow> (nat \<Rightarrow> 16 word \<Rightarrow> (nat \<Rightarrow> 16 word) \<Rightarrow> nat \<Rightarrow> 16 word) \<Rightarrow> (nat \<Rightarrow> 16 word) \<Rightarrow>
      (nat \<Rightarrow> 16 word) \<Rightarrow> nat \<Rightarrow> nat \<Rightarrow> nat \<Rightarrow> nat \<Rightarrow> nat \<Rightarrow> 16 word" where
  "fx_rows n body s d sw sh sp dw =
     fold (\<lambda>y d.
        let src_row = y * sp; dst_row = y * dw * n
        in fold (\<lambda>x. body (dst_row + n * x) (s (src_row + x))) [0 ..< sw] d) [0 ..< sh] d"

definition scale2x_line :: "(nat \<Rightarrow> 16 word) \<Rightarrow> (nat \<Rightarrow> 16 word) \<Rightarrow> nat \<Rightarrow> nat \<Rightarrow> nat \<Rightarrow> nat \<Rightarrow> nat \<Rightarrow> 16 word" where
  "scale2x_line s d sw sh sp dp =
     (let dw = dp div 2; k = 0x0000
      in fx_rows 2 (\<lambda>dst_row c1 d.
           let c2 = Weight3_2 c1 k
           in d(dst_row := c1, dst_row + 1 := c1, dst_row + dw := c2, dst_row + dw + 1 := c2))
         s d sw sh (sp div 2) dw)"

definition scale3x_line :: "(nat \<Rightarrow> 16 word) \<Rightarrow> (nat \<Rightarrow> 16 word) \<Rightarrow> nat \<Rightarrow> nat \<Rightarrow> nat \<Rightarrow> nat \<Rightarrow> nat \<Rightarrow> 16 word" where
  "scale3x_line s d sw sh sp dp =
     (let dw = dp div 2; k = 0x0000
      in fx_rows 3 (\<lambda>dst_row c1 d.
           let c2 = Weight3_2 c1 k
           in d(dst_row := c2, dst_row + 1 := c2, dst_row + 2 := c2,
                dst_row + dw * 1 := c1, dst_row + dw * 1 + 1 := c1, dst_row + dw * 1 + 2 := c1,
                dst_row + dw * 2 := c1, dst_row + dw * 2 + 1 := c1, dst_row + dw * 2 + 2 := c1))
         s d sw sh (sp div 2) dw)"

definition scale4x_line :: "(nat \<Rightarrow> 16 word) \<Rightarrow> (nat \<Rightarrow> 16 word) \<Rightarrow> nat \<Rightarrow> nat \<Rightarrow> nat \<Rightarrow> nat \<Rightarrow> nat \<Rightarrow> 16 word" where
  "scale4x_line s d sw sh sp dp =
     (let dw = dp div 2; row3 = dw * 2; row4 = dw * 3; k = 0x0000
      in fx_rows 4 (\<lambda>dst_row c1 d.
           let c2 = Weight3_2 c1 k
           in d(dst_row := c1, dst_row + 1 := c1, dst_row + 2 := c1, dst_row + 3 := c1,
                dst_row + dw := c2, dst_row + dw + 1 := c2, dst_row + dw + 2 := c2, dst_row + dw + 3 := c2,
                dst_row + row3 := c1, dst_row + row3 + 1 := c1, dst_row + row3 + 2 := c1, dst_row + row3 + 3 := c1,
                dst_row + row4 := c2, dst_row + row4 + 1 := c2, dst_row + row4 + 2 := c2, dst_row + row4 + 3 := c2))
         s d sw sh (sp div 2) dw)"

definition scale2x_grid :: "(nat \<Rightarrow> 16 word) \<Rightarrow> (nat \<Rightarrow> 16 word) \<Rightarrow> nat \<Rightarrow> nat \<Rightarrow> nat \<Rightarrow> nat \<Rightarrow> nat \<Rightarrow> 16 word" where
  "scale2x_grid s d sw sh sp dp =
     (let dw = dp div 2; k = 0x0000
      in fx_rows 2 (\<lambda>dst_row c1 d.
           let c2 = Weight3_1 c1 k
           in d(dst_row := c2, dst_row + 1 := c2, dst_row + dw := c2, dst_row + dw + 1 := c1))
         s d sw sh (sp div 2) dw)"

definition scale3x_grid :: "(nat \<Rightarrow> 16 word) \<Rightarrow> (nat \<Rightarrow> 16 word) \<Rightarrow> nat \<Rightarrow> nat \<Rightarrow> nat \<Rightarrow> nat \<Rightarrow> nat \<Rightarrow> 16 word" where
  "scale3x_grid s d sw sh sp dp =
     (let dw = dp div 2; k = 0x0000
      in fx_rows 3 (\<lambda>dst_row c1 d.
           let c2 = Weight3_2 c1 k; c3 = Weight2_3 c1 k
           in d(dst_row := c2, dst_row + 1 := c1, dst_row + 2 := c1,
                dst_row + dw * 1 := c2, dst_row + dw * 1 + 1 := c1, dst_row + dw * 1 + 2 := c1,
                dst_row + dw * 2 := c3, dst_row + dw * 2 + 1 := c2, dst_row + dw * 2 + 2 := c2))
         s d sw sh (sp div 2) dw)"

text \<open>
  Rows are taken in steps of two, strides are two rows, and the pointers advance once per step.
  FIXED_BPP is 2 on the platforms that use the effect.
\<close>

definition FIXED_BPP :: nat where
  "FIXED_BPP = 2"

definition scale1x_line :: "(nat \<Rightarrow> 16 word) \<Rightarrow> (nat \<Rightarrow> 16 word) \<Rightarrow> nat \<Rightarrow> nat \<Rightarrow> nat \<Rightarrow> nat \<Rightarrow> nat \<Rightarrow> 16 word" where
  "scale1x_line s d sw sh sp dp =
     (let ip = sw * FIXED_BPP;
          src_stride = 2 * sp div FIXED_BPP;
          dst_stride = 2 * dp div FIXED_BPP;
          cpy_pitch = (if ip < dp then ip else dp);
          k = 0x0000
      in snd (snd (fold
           (\<lambda>y (src_row, dst_row, d).
              let d = within dst_row (memcpy_from (at src_row s) (cpy_pitch div 2)) d;
                  dst_row = dst_row + dst_stride;
                  src_row = src_row + src_stride;
                  d = fold (\<lambda>x d. d(dst_row + x := Weight3_1 (s (src_row + x)) k)) [0 ..< sw] d
              in (src_row, dst_row, d)) [0 ..< (sh + 1) div 2] (0, 0, d))))"

section \<open>From 16 to 32 bits\<close>

definition dpix1_32 :: "32 word \<Rightarrow> 32 word" where
  "dpix1_32 pix = 0xFF000000 OR push_bit 8 (pix AND 0xF800) OR push_bit 5 (pix AND 0x07E0) OR push_bit 3 (pix AND 0x001F)"

definition dpix2_32 :: "32 word \<Rightarrow> 32 word" where
  "dpix2_32 pix = 0xFF000000 OR drop_bit 8 (pix AND 0xF8000000) OR drop_bit 11 (pix AND 0x07E00000)
     OR drop_bit 13 (pix AND 0x001F0000)"

text \<open>The odd last pixel goes through a uint16_t.\<close>

definition last_pixel32 :: "16 word \<Rightarrow> 32 word" where
  "last_pixel32 pix16 = ucast (ucast (dpix1_32 (ucast pix16)) :: 16 word)"

definition row1_c16to32 :: "nat \<Rightarrow> (nat \<Rightarrow> 16 word) \<Rightarrow> (nat \<Rightarrow> 32 word) \<Rightarrow> nat \<Rightarrow> 32 word" where
  "row1_c16to32 sw s d =
     (let d = for_x (sw div 2) 2
            (\<lambda>x dx d. let pix = rd32 s x; dpix1 = dpix1_32 pix; dpix2 = dpix2_32 pix
              in d(dx := dpix1, dx + 1 := dpix1, dx := dpix1, dx + 1 := dpix2)) d;
          x = sw div 2; dx = 2 * x
      in if odd sw then d(dx := last_pixel32 (s (x * 2)), dx + 1 := last_pixel32 (s (x * 2))) else d)"

definition row2_c16to32 :: "nat \<Rightarrow> (nat \<Rightarrow> 16 word) \<Rightarrow> (nat \<Rightarrow> 32 word) \<Rightarrow> nat \<Rightarrow> 32 word" where
  "row2_c16to32 sw s d =
     (let d = for_x (sw div 2) 4
            (\<lambda>x dx d. let pix = rd32 s x; dpix1 = dpix1_32 pix; dpix2 = dpix2_32 pix
              in d(dx := dpix1, dx + 1 := dpix1, dx + 2 := dpix2, dx + 3 := dpix2)) d;
          x = sw div 2; dx = 4 * x
      in if odd sw then d(dx := last_pixel32 (s (x * 2)), dx + 1 := last_pixel32 (s (x * 2))) else d)"

definition scale1x_c16to32 :: "(nat \<Rightarrow> 16 word) \<Rightarrow> (nat \<Rightarrow> 32 word) \<Rightarrow> nat \<Rightarrow> nat \<Rightarrow> nat \<Rightarrow> nat \<Rightarrow> nat \<Rightarrow> 32 word" where
  "scale1x_c16to32 s d sw sh sp dp =
     (if sw = 0 \<or> sh = 0 then d
      else
        (let swl = sw * 4;
             sp = (if sp = 0 then swl else sp);
             swl = swl * 2;
             dp = (if dp = 0 then swl else dp)
         in scale_rows (row1_c16to32 sw) 1 (swl div 4) sh (sp div 2) (dp div 4) 0 0 s d))"

definition scale2x_c16to32 :: "(nat \<Rightarrow> 16 word) \<Rightarrow> (nat \<Rightarrow> 32 word) \<Rightarrow> nat \<Rightarrow> nat \<Rightarrow> nat \<Rightarrow> nat \<Rightarrow> nat \<Rightarrow> 32 word" where
  "scale2x_c16to32 s d sw sh sp dp =
     (if sw = 0 \<or> sh = 0 then d
      else
        (let swl = sw * 4;
             sp = (if sp = 0 then swl else sp);
             swl = swl * 2;
             dp = (if dp = 0 then swl else dp)
         in scale_rows (row2_c16to32 sw) 2 (swl div 4) sh (sp div 2) (dp div 4) 0 0 s d))"

section \<open>The weights\<close>

lemma masks565:
  "(0x1f :: nat) = mask 5" "(0x3f :: nat) = mask 6" "(0x7e0 :: nat) = push_bit 5 (mask 6)"
  "(0xf800 :: nat) = push_bit 11 (mask 5)"
  by (simp_all add: mask_eq_exp_minus_1 push_bit_eq_mult)

text \<open>Packing and unpacking are inverse on channels of 5, 6 and 5 bits.\<close>

lemma channels_rgb565 [simp]:
  "cR (rgb565 r g b) = take_bit 5 r" "cG (rgb565 r g b) = take_bit 6 g" "cB (rgb565 r g b) = take_bit 5 b"
  by (rule bit_eqI; auto simp: cR_def cG_def cB_def rgb565_def masks565 bit_simps)+

lemma channels_less: "cR A < 32" "cG A < 64" "cB A < 32"
proof -
  have "take_bit 5 (cR A) = cR A" "take_bit 6 (cG A) = cG A" "take_bit 5 (cB A) = cB A"
    by (rule bit_eqI; auto simp: cR_def cG_def cB_def masks565 bit_simps)+
  then show "cR A < 32" "cG A < 64" "cB A < 32"
    using take_bit_nat_less_exp [of 5 "cR A"] take_bit_nat_less_exp [of 6 "cG A"] take_bit_nat_less_exp [of 5 "cB A"]
    by simp_all
qed

lemma take_bit_small: "(x :: nat) < 32 \<Longrightarrow> take_bit 5 x = x" "(x :: nat) < 64 \<Longrightarrow> take_bit 6 x = x"
  by (simp_all add: take_bit_nat_eq_self)

lemma channels_0 [simp]: "cR 0 = 0" "cG 0 = 0" "cB 0 = 0"
  by (simp_all add: cR_def cG_def cB_def)

section \<open>Cells\<close>

text \<open>
  A loop in which every step rewrites one cell of the destination, and does not read it, leaves
  every cell that was visited rewritten.
\<close>

lemma fold_cells:
  assumes "\<And>k d. k \<in> set ks \<Longrightarrow> body k d a = (if k = key then val else d a)"
  shows "fold body ks d a = (if key \<in> set ks then val else d a)"
  using assms by (induction ks arbitrary: d) auto

text \<open>Rows and columns of the destination are unique below the pitch.\<close>

lemma rowcol_eq:
  fixes R R' C C' dw :: nat
  assumes "C < dw" "C' < dw"
  shows "R * dw + C = R' * dw + C' \<longleftrightarrow> R = R' \<and> C = C'"
proof
  assume eq: "R * dw + C = R' * dw + C'"
  have "(R * dw + C) div dw = R" "(R' * dw + C') div dw = R'"
    "(R * dw + C) mod dw = C" "(R' * dw + C') mod dw = C'"
    using assms by simp_all
  with eq show "R = R' \<and> C = C'" by metis
qed simp

text \<open>
  The reference for an effect with cells of n by n pixels: pat i j c is the colour of the pixel in
  row i and column j of the cell of a source pixel with colour c.
\<close>

definition effect ::
    "nat \<Rightarrow> (nat \<Rightarrow> nat \<Rightarrow> 16 word \<Rightarrow> 16 word) \<Rightarrow> (nat \<Rightarrow> 16 word) \<Rightarrow> (nat \<Rightarrow> 16 word) \<Rightarrow> nat \<Rightarrow> nat \<Rightarrow> nat \<Rightarrow> nat \<Rightarrow> nat \<Rightarrow> 16 word" where
  "effect n pat s d sw sh sp dw =
     (\<lambda>a. let R = a div dw; C = a mod dw
          in if R div n < sh \<and> C div n < sw
             then pat (R mod n) (C mod n) (s (R div n * sp + C div n)) else d a)"

definition paints_cell :: "nat \<Rightarrow> nat \<Rightarrow> (nat \<Rightarrow> nat \<Rightarrow> 16 word \<Rightarrow> 16 word) \<Rightarrow> (nat \<Rightarrow> 16 word \<Rightarrow> (nat \<Rightarrow> 16 word) \<Rightarrow> nat \<Rightarrow> 16 word) \<Rightarrow> bool" where
  "paints_cell n dw pat body \<longleftrightarrow>
     (\<forall>y x c d a. n * x + n \<le> dw \<longrightarrow> body (y * dw * n + n * x) c d a =
        (if a div dw div n = y \<and> a mod dw div n = x
         then pat (a div dw mod n) (a mod dw mod n) c else d a))"

lemma fx_rows_effect:
  assumes "paints_cell n dw pat body" "n * sw \<le> dw" "0 < n"
  shows "fx_rows n body s d sw sh sp dw = effect n pat s d sw sh sp dw"
proof
  fix a
  let ?R = "a div dw" and ?C = "a mod dw"
  let ?v = "pat (?R mod n) (?C mod n) (s (?R div n * sp + ?C div n))"
  have cell: "body (y * dw * n + n * x) (s (y * sp + x)) d' a = (if ?R div n = y \<and> ?C div n = x then ?v else d' a)"
    if "x < sw" for x y d'
  proof -
    have "n * x + n \<le> n * sw" using that by (metis Suc_leI mult_Suc_right mult_le_mono2 add.commute)
    then have "n * x + n \<le> dw" using assms(2) by linarith
    then show ?thesis using assms(1) by (auto simp: paints_cell_def)
  qed
  have row: "fold (\<lambda>x. body (y * dw * n + n * x) (s (y * sp + x))) [0 ..< sw] d' a =
      (if y = ?R div n then (if ?C div n < sw then ?v else d' a) else d' a)" for y d'
  proof (cases "y = ?R div n")
    case True
    have "fold (\<lambda>x. body (y * dw * n + n * x) (s (y * sp + x))) [0 ..< sw] d' a =
        (if ?C div n \<in> set [0 ..< sw] then ?v else d' a)"
      by (rule fold_cells) (use cell True in auto)
    then show ?thesis using True by simp
  next
    case False
    have "fold (\<lambda>x. body (y * dw * n + n * x) (s (y * sp + x))) ks d' a = d' a" if "set ks \<subseteq> {0 ..< sw}" for ks
      using that cell False by (induction ks arbitrary: d') auto
    then show ?thesis using False by simp
  qed
  show "fx_rows n body s d sw sh sp dw a = effect n pat s d sw sh sp dw a"
  proof (cases "?C div n < sw")
    case True
    have "fx_rows n body s d sw sh sp dw a = (if ?R div n \<in> set [0 ..< sh] then ?v else d a)"
      unfolding fx_rows_def Let_def by (rule fold_cells) (use row True in auto)
    then show ?thesis using True by (simp add: effect_def Let_def)
  next
    case False
    have "fold (\<lambda>y. fold (\<lambda>x. body (y * dw * n + n * x) (s (y * sp + x))) [0 ..< sw]) ks d' a = d' a" for ks d'
      using row False by (induction ks arbitrary: d') auto
    then show ?thesis using False by (simp add: fx_rows_def effect_def Let_def)
  qed
qed

text \<open>Where the pixel (i, j) of the cell of source pixel (x, y) lies.\<close>

lemma cell_addr:
  fixes a y x n dw i j :: nat
  assumes "n * x + n \<le> dw" "i < n" "j < n"
  shows "a = y * dw * n + n * x + dw * i + j \<longleftrightarrow>
    a div dw div n = y \<and> a div dw mod n = i \<and> a mod dw div n = x \<and> a mod dw mod n = j"
proof -
  have dw: "n * x + j < dw" "0 < dw" "0 < n" using assms by linarith+
  have "y * dw * n + n * x + dw * i + j = (n * y + i) * dw + (n * x + j)" (is "?addr = _") by (simp add: algebra_simps)
  moreover have "a = a div dw * dw + a mod dw" by simp
  ultimately have "a = ?addr \<longleftrightarrow> a div dw * dw + a mod dw = (n * y + i) * dw + (n * x + j)" by metis
  then have "a = y * dw * n + n * x + dw * i + j \<longleftrightarrow> a div dw = n * y + i \<and> a mod dw = n * x + j"
    using rowcol_eq [of "a mod dw" dw "n * x + j" "a div dw" "n * y + i"] dw by simp
  moreover have "q = n * y + i \<longleftrightarrow> q div n = y \<and> q mod n = i" for q
    using assms(2) mult_div_mod_eq [of n q] by (metis add.commute div_mult_self4 div_less add_0 mod_mult_self4 mod_less less_nat_zero_code)
  moreover have "q = n * x + j \<longleftrightarrow> q div n = x \<and> q mod n = j" for q
    using assms(3) mult_div_mod_eq [of n q] by (metis add.commute div_mult_self4 div_less add_0 mod_mult_self4 mod_less less_nat_zero_code)
  ultimately show ?thesis by blast
qed

text \<open>The writes into the cell at m, one (row, column, colour) after the other.\<close>

definition paint :: "nat \<Rightarrow> nat \<Rightarrow> (nat \<times> nat \<times> 16 word) list \<Rightarrow> (nat \<Rightarrow> 16 word) \<Rightarrow> nat \<Rightarrow> 16 word" where
  "paint m dw cells d = fold (\<lambda>(i, j, v) d. d(m + dw * i + j := v)) cells d"

definition cells_of :: "nat \<Rightarrow> (nat \<Rightarrow> nat \<Rightarrow> 16 word) \<Rightarrow> (nat \<times> nat \<times> 16 word) list" where
  "cells_of n pat = concat (map (\<lambda>i. map (\<lambda>j. (i, j, pat i j)) [0 ..< n]) [0 ..< n])"

lemma paint_at:
  fixes a y x n dw m :: nat
  assumes "n * x + n \<le> dw" "m = y * dw * n + n * x"
    and "\<forall>(i, j, v) \<in> set cells. i < n \<and> j < n \<and> v = pat i j"
  shows "paint m dw cells d a =
    (if a div dw div n = y \<and> a mod dw div n = x \<and> (\<exists>v. (a div dw mod n, a mod dw mod n, v) \<in> set cells)
     then pat (a div dw mod n) (a mod dw mod n) else d a)"
  using assms(3)
proof (induction cells arbitrary: d)
  case Nil
  then show ?case by (simp add: paint_def)
next
  case (Cons e cells)
  obtain i j v where e: "e = (i, j, v)" by (cases e) auto
  then have ij: "i < n" "j < n" "v = pat i j" using Cons.prems by auto
  have "paint m dw (e # cells) d a = paint m dw cells (d(m + dw * i + j := v)) a"
    by (simp add: paint_def e)
  also have "\<dots> = (if a div dw div n = y \<and> a mod dw div n = x \<and> (\<exists>v. (a div dw mod n, a mod dw mod n, v) \<in> set cells)
     then pat (a div dw mod n) (a mod dw mod n) else (d(m + dw * i + j := v)) a)"
    using Cons by simp
  also have "(d(m + dw * i + j := v)) a = (if a div dw div n = y \<and> a div dw mod n = i \<and> a mod dw div n = x \<and> a mod dw mod n = j
      then v else d a)"
    unfolding fun_upd_apply assms(2) cell_addr [OF assms(1) ij(1,2)] ..
  finally show ?case using ij(3) by (auto simp: e)
qed

lemma cells_of_set: "set (cells_of n pat) = {(i, j, v). i < n \<and> j < n \<and> v = pat i j}"
  by (auto simp: cells_of_def image_iff)

lemma paints_cell_cells:
  assumes "0 < n" "\<And>m c d. body m c d = paint m dw (cells_of n (\<lambda>i j. pat i j c)) d"
  shows "paints_cell n dw pat body"
  unfolding paints_cell_def
proof (intro allI impI)
  fix y x c d a assume le: "n * x + n \<le> dw"
  have "a div dw mod n < n" "a mod dw mod n < n" using assms(1) by auto
  then show "body (y * dw * n + n * x) c d a = (if a div dw div n = y \<and> a mod dw div n = x
      then pat (a div dw mod n) (a mod dw mod n) c else d a)"
    unfolding assms(2) by (subst paint_at [OF le refl, of _ "\<lambda>i j. pat i j c"]) (auto simp: cells_of_set)
qed

definition line2 :: "nat \<Rightarrow> nat \<Rightarrow> 16 word \<Rightarrow> 16 word" where
  "line2 i j c = (if i = 0 then c else Weight3_2 c 0)"

definition line3 :: "nat \<Rightarrow> nat \<Rightarrow> 16 word \<Rightarrow> 16 word" where
  "line3 i j c = (if i = 0 then Weight3_2 c 0 else c)"

definition line4 :: "nat \<Rightarrow> nat \<Rightarrow> 16 word \<Rightarrow> 16 word" where
  "line4 i j c = (if i = 0 \<or> i = 2 then c else Weight3_2 c 0)"

definition grid2 :: "nat \<Rightarrow> nat \<Rightarrow> 16 word \<Rightarrow> 16 word" where
  "grid2 i j c = (if i = 1 \<and> j = 1 then c else Weight3_1 c 0)"

definition grid3 :: "nat \<Rightarrow> nat \<Rightarrow> 16 word \<Rightarrow> 16 word" where
  "grid3 i j c = (if i = 2 then if j = 0 then Weight2_3 c 0 else Weight3_2 c 0
     else if j = 0 then Weight3_2 c 0 else c)"

lemmas cell_writes = paint_def cells_of_def Let_def numeral_eq_Suc upt_conv_Cons

lemma paints_line2: "paints_cell 2 dw line2 (\<lambda>dst_row c1 d.
    let c2 = Weight3_2 c1 0
    in d(dst_row := c1, dst_row + 1 := c1, dst_row + dw := c2, dst_row + dw + 1 := c2))"
  by (rule paints_cell_cells) (simp_all add: cell_writes line2_def)

lemma paints_line3: "paints_cell 3 dw line3 (\<lambda>dst_row c1 d.
    let c2 = Weight3_2 c1 0
    in d(dst_row := c2, dst_row + 1 := c2, dst_row + 2 := c2, dst_row + dw * 1 := c1, dst_row + dw * 1 + 1 := c1, dst_row + dw * 1 + 2 := c1, dst_row + dw * 2 := c1, dst_row + dw * 2 + 1 := c1, dst_row + dw * 2 + 2 := c1))"
  by (rule paints_cell_cells) (simp_all add: cell_writes line3_def)

lemma paints_line4: "paints_cell 4 dw line4 (\<lambda>dst_row c1 d.
    let c2 = Weight3_2 c1 0
    in d(dst_row := c1, dst_row + 1 := c1, dst_row + 2 := c1, dst_row + 3 := c1, dst_row + dw := c2, dst_row + dw + 1 := c2, dst_row + dw + 2 := c2, dst_row + dw + 3 := c2, dst_row + dw * 2 := c1, dst_row + dw * 2 + 1 := c1, dst_row + dw * 2 + 2 := c1, dst_row + dw * 2 + 3 := c1, dst_row + dw * 3 := c2, dst_row + dw * 3 + 1 := c2, dst_row + dw * 3 + 2 := c2, dst_row + dw * 3 + 3 := c2))"
  by (rule paints_cell_cells) (simp_all add: cell_writes line4_def)

lemma paints_grid2: "paints_cell 2 dw grid2 (\<lambda>dst_row c1 d.
    let c2 = Weight3_1 c1 0
    in d(dst_row := c2, dst_row + 1 := c2, dst_row + dw := c2, dst_row + dw + 1 := c1))"
  by (rule paints_cell_cells) (simp_all add: cell_writes grid2_def)

lemma paints_grid3: "paints_cell 3 dw grid3 (\<lambda>dst_row c1 d.
    let c2 = Weight3_2 c1 0; c3 = Weight2_3 c1 0
    in d(dst_row := c2, dst_row + 1 := c1, dst_row + 2 := c1, dst_row + dw * 1 := c2, dst_row + dw * 1 + 1 := c1, dst_row + dw * 1 + 2 := c1, dst_row + dw * 2 := c3, dst_row + dw * 2 + 1 := c2, dst_row + dw * 2 + 2 := c2))"
  by (rule paints_cell_cells) (simp_all add: cell_writes grid3_def)

section \<open>16 to 32 bits: replication\<close>

text \<open>A 565 pixel in 8888, with full alpha and the low bits of every channel 0.\<close>

definition expand565 :: "16 word \<Rightarrow> 32 word" where
  "expand565 p = 0xFF000000 OR push_bit 19 (of_nat (cR p)) OR push_bit 10 (of_nat (cG p)) OR push_bit 3 (of_nat (cB p))"

lemma masks32:
  "(0xFF000000 :: 32 word) = push_bit 24 (mask 8)" "(0xF800 :: 32 word) = push_bit 11 (mask 5)"
  "(0x07E0 :: 32 word) = push_bit 5 (mask 6)" "(0x001F :: 32 word) = mask 5"
  "(0xF8000000 :: 32 word) = push_bit 27 (mask 5)" "(0x07E00000 :: 32 word) = push_bit 21 (mask 6)"
  "(0x001F0000 :: 32 word) = push_bit 16 (mask 5)"
  by (simp_all add: mask_eq_exp_minus_1 push_bit_eq_mult)

text \<open>Only its own half of the pair of pixels enters each result.\<close>

lemma low_half:
  "rd32 s x AND push_bit 11 (mask 5) = ucast (s (2 * x)) AND push_bit 11 (mask 5)"
  "rd32 s x AND push_bit 5 (mask 6) = ucast (s (2 * x)) AND push_bit 5 (mask 6)"
  "rd32 s x AND mask 5 = ucast (s (2 * x)) AND mask 5"
  by (rule bit_word_eqI; auto simp: rd32_def bit_simps)+

lemma high_half:
  "drop_bit 8 (rd32 s x AND push_bit 27 (mask 5)) = push_bit 8 (ucast (s (2 * x + 1)) AND push_bit 11 (mask 5))"
  "drop_bit 11 (rd32 s x AND push_bit 21 (mask 6)) = push_bit 5 (ucast (s (2 * x + 1)) AND push_bit 5 (mask 6))"
  "drop_bit 13 (rd32 s x AND push_bit 16 (mask 5)) = push_bit 3 (ucast (s (2 * x + 1)) AND mask 5)"
  by (rule bit_word_eqI; auto simp: rd32_def bit_simps dest: bit_imp_le_length)+

lemma dpix32_halves:
  "dpix1_32 (rd32 s x) = dpix1_32 (ucast (s (2 * x)))" "dpix2_32 (rd32 s x) = dpix1_32 (ucast (s (2 * x + 1)))"
  unfolding dpix1_32_def dpix2_32_def masks32 low_half high_half by (rule refl)+

definition perfect_row :: "nat \<Rightarrow> nat \<Rightarrow> (nat \<Rightarrow> 'p) \<Rightarrow> (nat \<Rightarrow> 'p) \<Rightarrow> nat \<Rightarrow> 'p" where
  "perfect_row k sw s d = (\<lambda>i. if i < k * sw then s (i div k) else d i)"

lemma perfect_row_replicates: "row_replicates k (perfect_row k)"
  by (simp add: row_replicates_def perfect_row_def)

lemma scale_rows_conv:
  assumes "\<And>s d. row s d = row' (\<lambda>i. f (s i)) d"
  shows "scale_rows row ymul swl sh sp dp src dst s d = scale_rows row' ymul swl sh sp dp src dst (\<lambda>i. f (s i)) d"
proof (induction sh arbitrary: src dst d)
  case 0
  then show ?case by simp
next
  case (Suc sh)
  have "row (at src s) = row' (at src (\<lambda>i. f (s i)))" by (rule ext) (simp add: assms at_def)
  then show ?case by (simp add: Suc split: prod.split)
qed

lemma row_c16to32:
  assumes "even sw"
  shows "row1_c16to32 sw s d = perfect_row 1 sw (\<lambda>i. dpix1_32 (ucast (s i))) d"
    and "row2_c16to32 sw s d = perfect_row 2 sw (\<lambda>i. dpix1_32 (ucast (s i))) d"
proof -
  have n: "2 * (sw div 2) = sw" using assms by simp
  let ?f = "\<lambda>i. dpix1_32 (ucast (s i))"
  let ?b1 = "\<lambda>x dx d. let pix = rd32 s x; dpix1 = dpix1_32 pix; dpix2 = dpix2_32 pix
    in d(dx := dpix1, dx + 1 := dpix1, dx := dpix1, dx + 1 := dpix2)"
  let ?b2 = "\<lambda>x dx d. let pix = rd32 s x; dpix1 = dpix1_32 pix; dpix2 = dpix2_32 pix
    in d(dx := dpix1, dx + 1 := dpix1, dx + 2 := dpix2, dx + 3 := dpix2)"
  have b1: "?b1 x dx d = d(dx := ?f (2 * x), dx + 1 := ?f (2 * x + 1))" for x dx and d :: "nat \<Rightarrow> 32 word"
    by (rule ext) (simp add: Let_def dpix32_halves)
  have "for_x (sw div 2) 1 (\<lambda>x _. ?b1 x (2 * x)) d = (\<lambda>i. if i < 2 * (1 * (sw div 2)) then ?f (i div 1) else d i)"
    unfolding b1 by (rule for_x_replicates) (simp_all add: upd_run writes_writes numeral_2_eq_2)
  then show "row1_c16to32 sw s d = perfect_row 1 sw ?f d"
    using assms n by (simp add: row1_c16to32_def for_x_def perfect_row_def cong: if_cong)
  have "for_x (sw div 2) 2 (\<lambda>x _. ?b2 x (4 * x)) d = (\<lambda>i. if i < 2 * (2 * (sw div 2)) then ?f (i div 2) else d i)"
    by (rule for_x_replicates) (simp_all add: Let_def dpix32_halves upd_run writes_writes numeral_eq_Suc add.assoc)
  then show "row2_c16to32 sw s d = perfect_row 2 sw ?f d"
    using assms n by (simp add: row2_c16to32_def for_x_def perfect_row_def cong: if_cong)
qed

lemma dpix1_32_expand: "dpix1_32 (ucast p) = expand565 p"
proof -
  have "push_bit 8 (ucast p AND push_bit 11 (mask 5)) = push_bit 19 (of_nat (cR p) :: 32 word)"
    "push_bit 5 (ucast p AND push_bit 5 (mask 6)) = push_bit 10 (of_nat (cG p) :: 32 word)"
    "push_bit 3 (ucast p AND mask 5) = push_bit 3 (of_nat (cB p) :: 32 word)"
    by (rule bit_word_eqI; auto simp: cR_def cG_def cB_def masks565 bit_simps)+
  then show ?thesis by (simp only: dpix1_32_def expand565_def masks32)
qed

lemma scale_rows_one: "scale_rows row 1 swl sh sp dp src dst s d = scale_rows row 1 swl' sh sp dp src dst s d"
  by (induction sh arbitrary: src dst d) simp_all

lemma perfect_scale:
  assumes "0 < dp" "k * sw \<le> dp" "0 < ymul"
  shows "scale_rows (perfect_row k sw) ymul (k * sw) sh sp dp 0 0 s d = upscaled k ymul s d sw sh sp dp"
  using scale_rows_eq [OF perfect_row_replicates assms, of sh sp 0 0 s d] by (simp add: upscaled_def cong: if_cong)

section \<open>Properties\<close>

text \<open>
  The weights of the effects are exact: on every two pixels, each of the three macros
  computes the weighted mean of every channel, rounded down, and no channel spills into another.
\<close>

theorem weights_exact:
  "cR (Weight3_1 A B) = (3 * cR A + cR B) div 4 \<and> cG (Weight3_1 A B) = (3 * cG A + cG B) div 4
   \<and> cB (Weight3_1 A B) = (3 * cB A + cB B) div 4
   \<and> cR (Weight3_2 A B) = (3 * cR A + 2 * cR B) div 5 \<and> cG (Weight3_2 A B) = (3 * cG A + 2 * cG B) div 5
   \<and> cB (Weight3_2 A B) = (3 * cB A + 2 * cB B) div 5
   \<and> cR (Weight2_3 A B) = (2 * cR A + 3 * cR B) div 5 \<and> cG (Weight2_3 A B) = (2 * cG A + 3 * cG B) div 5
   \<and> cB (Weight2_3 A B) = (2 * cB A + 3 * cB B) div 5"
  using channels_less [of A] channels_less [of B]
  by (simp add: Weight3_1_def Weight3_2_def Weight2_3_def drop_bit_eq_div push_bit_eq_mult take_bit_small ac_simps)

text \<open>
  C10. Every effect from 2x up paints the cell of every source pixel with its pattern and leaves
  the rest of the destination alone, as long as a row of cells fits the pitch: lines darken the
  second of two rows, the first of three, and every other of four; grids keep one bright pixel of
  four, or four of nine.
\<close>

theorem effects_paint_cells:
  assumes "(n, fx, pat) \<in> {(2, scale2x_line, line2), (3, scale3x_line, line3), (4, scale4x_line, line4),
      (2, scale2x_grid, grid2), (3, scale3x_grid, grid3)}"
    and "n * sw \<le> dp div 2"
  shows "fx s d sw sh sp dp = effect n pat s d sw sh (sp div 2) (dp div 2)"
  using assms fx_rows_effect [OF paints_line2, of sw "dp div 2" s d sh "sp div 2"]
    fx_rows_effect [OF paints_line3, of sw "dp div 2" s d sh "sp div 2"]
    fx_rows_effect [OF paints_line4, of sw "dp div 2" s d sh "sp div 2"]
    fx_rows_effect [OF paints_grid2, of sw "dp div 2" s d sh "sp div 2"]
    fx_rows_effect [OF paints_grid3, of sw "dp div 2" s d sh "sp div 2"]
  by (auto simp: scale2x_line_def scale3x_line_def scale4x_line_def scale2x_grid_def scale3x_grid_def Let_def)

text \<open>
  For images of even width with their pitches given, the 16 to 32 bit scalers replicate the
  pixels expanded to 8888, the three channels in their places with full alpha, and touch nothing
  else.
\<close>

theorem c16to32_expands:
  assumes "even sw" "0 < sp" "4 * sw \<le> dp" "0 < dp"
  shows "scale1x_c16to32 s d sw sh sp dp = upscaled 1 1 (\<lambda>i. expand565 (s i)) d sw sh (sp div 2) (dp div 4)
    \<and> (8 * sw \<le> dp \<longrightarrow>
        scale2x_c16to32 s d sw sh sp dp = upscaled 2 2 (\<lambda>i. expand565 (s i)) d sw sh (sp div 2) (dp div 4))"
proof (cases "sw = 0 \<or> sh = 0")
  case True
  then show ?thesis by (auto simp: scale1x_c16to32_def scale2x_c16to32_def upscaled_empty)
next
  case False
  have px: "sw * 4 * 2 div 4 = 2 * sw" by simp
  have "scale1x_c16to32 s d sw sh sp dp = scale_rows (row1_c16to32 sw) 1 (1 * sw) sh (sp div 2) (dp div 4) 0 0 s d"
    using False assms(2,4) scale_rows_one by (simp add: scale1x_c16to32_def Let_def) blast
  also have "\<dots> = scale_rows (perfect_row 1 sw) 1 (1 * sw) sh (sp div 2) (dp div 4) 0 0 (\<lambda>i. expand565 (s i)) d"
    by (rule scale_rows_conv) (simp add: row_c16to32 [OF assms(1)] dpix1_32_expand)
  also have "\<dots> = upscaled 1 1 (\<lambda>i. expand565 (s i)) d sw sh (sp div 2) (dp div 4)"
    using False assms(3) by (intro perfect_scale) auto
  finally have one: "scale1x_c16to32 s d sw sh sp dp = upscaled 1 1 (\<lambda>i. expand565 (s i)) d sw sh (sp div 2) (dp div 4)" .
  have "scale2x_c16to32 s d sw sh sp dp = upscaled 2 2 (\<lambda>i. expand565 (s i)) d sw sh (sp div 2) (dp div 4)" if "8 * sw \<le> dp"
  proof -
    have "scale2x_c16to32 s d sw sh sp dp = scale_rows (row2_c16to32 sw) 2 (2 * sw) sh (sp div 2) (dp div 4) 0 0 s d"
      using False assms(2,4) by (simp add: scale2x_c16to32_def Let_def px)
    also have "\<dots> = scale_rows (perfect_row 2 sw) 2 (2 * sw) sh (sp div 2) (dp div 4) 0 0 (\<lambda>i. expand565 (s i)) d"
      by (rule scale_rows_conv) (simp add: row_c16to32 [OF assms(1)] dpix1_32_expand)
    also have "\<dots> = upscaled 2 2 (\<lambda>i. expand565 (s i)) d sw sh (sp div 2) (dp div 4)"
      using False that by (intro perfect_scale) auto
    finally show ?thesis .
  qed
  with one show ?thesis by blast
qed

theorem effects_paint_cells_witness:
  "map (scale2x_grid (\<lambda>_. 0xFFFF) (\<lambda>_. 0) 1 1 2 4) [0 ..< 5] = [0xBDF7, 0xBDF7, 0xBDF7, 0xFFFF, 0]"
proof -
  have "Weight3_1 0xFFFF 0 = 0xBDF7"
    by (simp add: Weight3_1_def cR_def cG_def cB_def rgb565_def drop_bit_eq_div push_bit_eq_mult)
  then show ?thesis
    using effects_paint_cells [of 2 scale2x_grid grid2 1 4 "\<lambda>_. 0xFFFF" "\<lambda>_. 0" 1 2]
    by (simp add: effect_def grid2_def Let_def upt_rec)
qed

theorem c16to32_expands_witness:
  "map (scale2x_c16to32 (\<lambda>i. if i = 0 then 0xF800 else 0x001F) (\<lambda>_. 0) 2 1 4 16) [0 ..< 5]
    = [0xFFF80000, 0xFFF80000, 0xFF0000F8, 0xFF0000F8, 0xFFF80000]"
proof -
  have "expand565 0xF800 = 0xFFF80000" "expand565 0x001F = 0xFF0000F8"
    by (simp_all add: expand565_def cR_def cG_def cB_def drop_bit_eq_div push_bit_eq_mult)
  then show ?thesis
    using c16to32_expands [of 2 4 16 "\<lambda>i. if i = 0 then 0xF800 else 0x001F" "\<lambda>_. 0" 1]
    by (simp add: upscaled_def upt_rec)
qed

section \<open>Two flaws\<close>

text \<open>
  scale1x_line advances its rows once per two source rows, before it darkens: every darkened row is
  overwritten by the next copy, except the last one, which lies below an image of even height.
\<close>

theorem scale1x_line_leaves_image:
  "let d = scale1x_line (\<lambda>_. 0xFFFF) (\<lambda>_. 0) 1 4 2 2 in map d [0 ..< 6] = [0xFFFF, 0, 0xFFFF, 0, 0xBDF7, 0]"
proof -
  have "Weight3_1 0xFFFF 0 = 0xBDF7"
    by (simp add: Weight3_1_def cR_def cG_def cB_def rgb565_def drop_bit_eq_div push_bit_eq_mult)
  then show ?thesis
    by (simp add: scale1x_line_def Let_def FIXED_BPP_def within_memcpy upt_rec)
qed

text \<open>The last pixel of an odd row loses its alpha and red, and the pixel after the row is written too.\<close>

theorem c16to32_odd_width:
  "let d = scale1x_c16to32 (\<lambda>_. 0xFFFF) (\<lambda>_. 0) 1 1 2 4 in map d [0, 1] = [0xFCF8, 0xFCF8]"
proof -
  have "last_pixel32 0xFFFF = 0xFCF8"
    by (simp add: last_pixel32_def dpix1_32_def push_bit_eq_mult)
  then show ?thesis
    by (simp add: scale1x_c16to32_def row1_c16to32_def Let_def for_x_def within_def at_def)
qed

end
