(* ===== verification/Sound.thy ===== *)
theory Sound
  imports Prelude
begin

text \<open>
  Audio output (common/api.c, SND_*): a ring buffer that the emulator fills through a resampler
  and that the SDL audio callback empties. The emulator holds the audio lock while it writes and
  lets go of it only while it waits for room, so the callback runs between whole batches or
  inside those waits: the schedule gives, for every millisecond waited, how many frames the
  callback asks for then (0 when it does not run).

  None stands for an access outside the buffer and for a wait that never ends; the theorems
  about a batch show that it is Some, so neither happens.
\<close>

section \<open>Bounded queues\<close>

text \<open>The contract of a bounded first-in first-out buffer, and what its clients rely on.\<close>

locale bounded_fifo =
  fixes put :: "'a \<Rightarrow> 's \<Rightarrow> 's option"
    and get :: "'s \<Rightarrow> ('a \<times> 's) option"
    and items :: "'s \<Rightarrow> 'a list"
    and room :: "'s \<Rightarrow> nat"
    and good :: "'s \<Rightarrow> bool"
  assumes put_ok: "good s \<Longrightarrow> 0 < room s \<Longrightarrow>
      \<exists>t. put x s = Some t \<and> good t \<and> items t = items s @ [x] \<and> Suc (room t) = room s"
    and get_ok: "good s \<Longrightarrow> items s \<noteq> [] \<Longrightarrow>
      \<exists>t. get s = Some (hd (items s), t) \<and> good t \<and> items t = tl (items s) \<and> room t = Suc (room s)"
begin

lemma put_cases:
  assumes "good s" "0 < room s"
  obtains t where "put x s = Some t" "good t" "items t = items s @ [x]" "Suc (room t) = room s"
  using put_ok [OF assms] by blast

lemma get_cases:
  assumes "good s" "items s = x # xs"
  obtains t where "get s = Some (x, t)" "good t" "items t = xs" "room t = Suc (room s)"
  using get_ok [OF assms(1)] assms(2) by auto

lemma put_all:
  "good s \<Longrightarrow> length xs \<le> room s \<Longrightarrow>
   \<exists>t. fold_opt put xs s = Some t \<and> good t \<and> items t = items s @ xs \<and> room t + length xs = room s"
proof (induction xs arbitrary: s)
  case (Cons x xs)
  then obtain u where u: "put x s = Some u" "good u" "items u = items s @ [x]" "Suc (room u) = room s"
    using put_cases [of s x] by auto
  then have "length xs \<le> room u" using Cons.prems(2) by simp
  from Cons.IH [OF u(2) this] u Cons.prems(2) show ?case by auto
qed simp

text \<open>Capacity never changes: what is queued plus the room left.\<close>

lemma put_capacity:
  "good s \<Longrightarrow> 0 < room s \<Longrightarrow> put x s = Some t \<Longrightarrow> length (items t) + room t = length (items s) + room s"
  using put_ok [of s x] by auto

lemma get_capacity:
  "good s \<Longrightarrow> items s \<noteq> [] \<Longrightarrow> get s = Some (x, t) \<Longrightarrow> length (items t) + room t = length (items s) + room s"
  using get_ok [of s] by (cases "items s") auto

end

section \<open>The context\<close>

text \<open>SND_Frame: a left and a right sample of 16 bits.\<close>

type_synonym SND_Frame = "16 word \<times> 16 word"

datatype SND_Resampler = SND_None | SND_Near

record snd_context =
  sample_rate_in :: int
  sample_rate_out :: int
  buffer :: "SND_Frame list"
  frame_count :: nat
  frame_in :: nat
  frame_out :: nat
  frame_filled :: nat
  resample :: SND_Resampler
  near_diff :: int

definition SAMPLES :: nat where "SAMPLES = 512"
definition BATCH_SIZE :: nat where "BATCH_SIZE = 100"

definition SND_selectResampler :: "snd_context \<Rightarrow> snd_context" where
  "SND_selectResampler s =
    s\<lparr>resample := (if sample_rate_in s = sample_rate_out s then SND_None else SND_Near)\<rparr>"

text \<open>
  n is the number of frames of \<open>buffer_seconds\<close> seconds at the input rate over the frame rate,
  a floating point quotient that the code truncates.
\<close>

definition SND_resizeBuffer :: "nat \<Rightarrow> snd_context \<Rightarrow> snd_context" where
  "SND_resizeBuffer n s =
    (if n = 0 then s\<lparr>frame_count := 0\<rparr>
     else s\<lparr>frame_count := n, buffer := replicate n (0, 0), frame_in := 0, frame_out := 0,
            frame_filled := n - 1\<rparr>)"

text \<open>SND_init: the driver gives the output rate; the context starts zeroed.\<close>

definition SND_init :: "int \<Rightarrow> int \<Rightarrow> nat \<Rightarrow> int \<Rightarrow> snd_context" where
  "SND_init sample_rate freq n diff =
    SND_resizeBuffer n (SND_selectResampler
      \<lparr>sample_rate_in = sample_rate, sample_rate_out = freq, buffer = [], frame_count = 0,
       frame_in = 0, frame_out = 0, frame_filled = 0, resample = SND_None, near_diff = diff\<rparr>)"

section \<open>The producer\<close>

definition put_frame :: "SND_Frame \<Rightarrow> snd_context \<Rightarrow> snd_context option" where
  "put_frame f s = do {
     c_ok (frame_in s < length (buffer s));
     let i = frame_in s + 1;
     Some (s\<lparr>buffer := (buffer s)[frame_in s := f], frame_in := (if frame_count s \<le> i then 0 else i)\<rparr>)
   }"

definition SND_resampleNone :: "SND_Frame \<Rightarrow> snd_context \<Rightarrow> (nat \<times> snd_context) option" where
  "SND_resampleNone f s = do { t \<leftarrow> put_frame f s; Some (1, t) }"

text \<open>Nearest neighbour: \<open>near_diff\<close> is the function's static counter.\<close>

definition SND_resampleNear :: "SND_Frame \<Rightarrow> snd_context \<Rightarrow> (nat \<times> snd_context) option" where
  "SND_resampleNear f s = do {
     t \<leftarrow> (if near_diff s < sample_rate_out s
           then do { u \<leftarrow> put_frame f s; Some (u\<lparr>near_diff := near_diff s + sample_rate_in s\<rparr>) }
           else Some s);
     Some (if sample_rate_out s \<le> near_diff t
           then (1, t\<lparr>near_diff := near_diff t - sample_rate_out s\<rparr>) else (0, t))
   }"

definition resample_frame :: "SND_Frame \<Rightarrow> snd_context \<Rightarrow> (nat \<times> snd_context) option" where
  "resample_frame f s =
    (case resample s of SND_None \<Rightarrow> SND_resampleNone f s | SND_Near \<Rightarrow> SND_resampleNear f s)"

section \<open>The consumer\<close>

definition get_frame :: "snd_context \<Rightarrow> (SND_Frame \<times> snd_context) option" where
  "get_frame s = do {
     c_ok (frame_out s < length (buffer s));
     let i = frame_out s + 1;
     Some (buffer s ! frame_out s,
           s\<lparr>frame_filled := frame_out s, frame_out := (if frame_count s \<le> i then 0 else i)\<rparr>)
   }"

text \<open>The first loop of the callback: the frames taken and how many were wanted beyond them.\<close>

fun take_frames :: "nat \<Rightarrow> snd_context \<Rightarrow> (SND_Frame list \<times> nat \<times> snd_context) option" where
  "take_frames 0 s = Some ([], 0, s)"
| "take_frames (Suc len) s =
    (if frame_out s = frame_in s then Some ([], Suc len, s)
     else do {
       (f, t) \<leftarrow> get_frame s;
       (fs, missing, u) \<leftarrow> take_frames len t;
       Some (f # fs, missing, u)
     })"

text \<open>
  The last loop: what is missing is made of the samples already written, read backwards from the
  last but one, then of zeros. at is the index of \<open>in\<close> in the stream; -1 is one before its start.
\<close>

fun fill_back :: "nat \<Rightarrow> int \<Rightarrow> 16 word list \<Rightarrow> 16 word list" where
  "fill_back 0 at stream = stream"
| "fill_back (Suc k) at stream =
    (if 0 < at then fill_back k (at - 1) (stream @ [stream ! nat (at - 1)])
     else fill_back k at (stream @ [0]))"

definition SND_audioCallback ::
  "nat \<Rightarrow> snd_context \<Rightarrow> (16 word list \<times> SND_Frame list \<times> snd_context) option" where
  "SND_audioCallback len s =
    (if frame_count s = 0 then Some ([], [], s)
     else do {
       (fs, missing, t) \<leftarrow> take_frames len s;
       let stream = concat (map (\<lambda>(l, r). [l, r]) fs);
       Some (if 0 < missing \<and> missing = SAMPLES then stream @ replicate (2 * missing) 0
             else fill_back (2 * missing) (int (length stream) - 1) stream, fs, t)
     })"

section \<open>A batch\<close>

text \<open>The ten tries of one millisecond; \<open>now\<close> counts the milliseconds waited.\<close>

fun wait_room :: "(nat \<Rightarrow> nat) \<Rightarrow> nat \<Rightarrow> nat \<Rightarrow> snd_context \<Rightarrow> (SND_Frame list \<times> nat \<times> snd_context) option" where
  "wait_room sched 0 now s = Some ([], now, s)"
| "wait_room sched (Suc tries) now s =
    (if frame_in s = frame_filled s
     then do {
       (stream, fs, t) \<leftarrow> SND_audioCallback (sched now) s;
       (gs, now', u) \<leftarrow> wait_room sched tries (now + 1) t;
       Some (fs @ gs, now', u)
     }
     else Some ([], now, s))"

partial_function (option) write_some ::
  "nat \<Rightarrow> SND_Frame list \<Rightarrow> snd_context \<Rightarrow> (SND_Frame list \<times> nat \<times> snd_context) option" where
  "write_some amount frames s =
    (if amount = 0 \<or> frame_in s = frame_filled s then Some (frames, 0, s)
     else do {
       (c, t) \<leftarrow> resample_frame (hd frames) s;
       (rest, n, u) \<leftarrow> write_some (amount - c) (drop c frames) t;
       Some (rest, c + n, u)
     })"

partial_function (option) batch_loop ::
  "(nat \<Rightarrow> nat) \<Rightarrow> nat \<Rightarrow> SND_Frame list \<Rightarrow> snd_context
   \<Rightarrow> (SND_Frame list \<times> nat \<times> nat \<times> snd_context) option" where
  "batch_loop sched now frames s =
    (if frames = [] then Some ([], 0, now, s)
     else do {
       (fs, now', t) \<leftarrow> wait_room sched 10 now s;
       (rest, c, u) \<leftarrow> write_some (min BATCH_SIZE (length frames)) frames t;
       (gs, n, now'', v) \<leftarrow> batch_loop sched now' rest u;
       Some (fs @ gs, c + n, now'', v)
     })"

text \<open>SND_batchSamples: what was played meanwhile, and how many frames it consumed.\<close>

definition SND_batchSamples ::
  "(nat \<Rightarrow> nat) \<Rightarrow> nat \<Rightarrow> SND_Frame list \<Rightarrow> snd_context
   \<Rightarrow> (SND_Frame list \<times> nat \<times> nat \<times> snd_context) option" where
  "SND_batchSamples sched now frames s =
    (if frame_count s = 0 then Some ([], 0, now, s) else batch_loop sched now frames s)"

section \<open>The ring as a queue\<close>

definition ring_items :: "snd_context \<Rightarrow> SND_Frame list" where
  "ring_items s =
    (if frame_out s \<le> frame_in s then take (frame_in s - frame_out s) (drop (frame_out s) (buffer s))
     else drop (frame_out s) (buffer s) @ take (frame_in s) (buffer s))"

definition ring_good :: "snd_context \<Rightarrow> bool" where
  "ring_good s \<longleftrightarrow> 0 < frame_count s \<and> length (buffer s) = frame_count s
     \<and> frame_in s < frame_count s \<and> frame_out s < frame_count s
     \<and> frame_filled s = (if frame_out s = 0 then frame_count s - 1 else frame_out s - 1)"

definition ring_room :: "snd_context \<Rightarrow> nat" where
  "ring_room s = frame_count s - 1 - length (ring_items s)"

lemma length_ring_items:
  "ring_good s \<Longrightarrow> length (ring_items s)
    = (if frame_out s \<le> frame_in s then frame_in s - frame_out s
       else frame_count s - frame_out s + frame_in s)"
  by (auto simp: ring_items_def ring_good_def)

lemma ring_full: "ring_good s \<Longrightarrow> ring_room s = 0 \<longleftrightarrow> frame_in s = frame_filled s"
  by (auto simp: ring_room_def length_ring_items) (auto simp: ring_good_def split: if_splits)

lemma ring_empty: "ring_good s \<Longrightarrow> ring_items s = [] \<longleftrightarrow> frame_out s = frame_in s"
  by (subst length_0_conv [symmetric], subst length_ring_items) (auto simp: ring_good_def)

lemma take_Suc_update:
  "i < length xs \<Longrightarrow> k \<le> i \<Longrightarrow> take (Suc i - k) (drop k (xs[i := x])) = take (i - k) (drop k xs) @ [x]"
  by (simp add: Suc_diff_le take_Suc_conv_app_nth drop_update_swap)

lemma put_frame_ring:
  assumes "ring_good s" "0 < ring_room s"
  shows "\<exists>t. put_frame f s = Some t \<and> ring_good t \<and> ring_items t = ring_items s @ [f]
    \<and> Suc (ring_room t) = ring_room s"
proof -
  define t where "t = s\<lparr>buffer := (buffer s)[frame_in s := f],
    frame_in := (if frame_count s \<le> frame_in s + 1 then 0 else frame_in s + 1)\<rparr>"
  have notfull: "frame_in s \<noteq> frame_filled s" using ring_full [OF assms(1)] assms(2) by simp
  have put: "put_frame f s = Some t" using assms(1) by (simp add: put_frame_def t_def ring_good_def Let_def)
  have good: "ring_good t" using assms(1) by (auto simp: ring_good_def t_def)
  have items: "ring_items t = ring_items s @ [f]"
  proof (cases "frame_out s \<le> frame_in s")
    case True
    show ?thesis
    proof (cases "frame_in s + 1 < frame_count s")
      case True
      with \<open>frame_out s \<le> frame_in s\<close> assms(1) show ?thesis
        using take_Suc_update [of "frame_in s" "buffer s" "frame_out s" f]
        by (simp add: ring_items_def t_def ring_good_def)
    next
      case False
      with assms(1) have len: "length (buffer s) = Suc (frame_in s)" by (simp add: ring_good_def)
      moreover have "frame_count s - 1 = frame_in s" using len assms(1) unfolding ring_good_def by linarith
      ultimately have "frame_out s \<noteq> 0" using assms(1) notfull by (intro notI) (simp add: ring_good_def)
      note len = len this
      then show ?thesis
        using \<open>frame_out s \<le> frame_in s\<close> take_Suc_update [of "frame_in s" "buffer s" "frame_out s" f] assms(1)
        by (simp add: ring_items_def t_def ring_good_def Suc_diff_le)
    qed
  next
    case False
    with assms(1) have "Suc (frame_in s) < frame_out s" using notfull by (auto simp: ring_good_def)
    then show ?thesis
      using take_Suc_update [of "frame_in s" "buffer s" 0 f] assms(1)
      by (simp add: ring_items_def t_def ring_good_def)
  qed
  have "frame_count t = frame_count s" by (simp add: t_def)
  with put good items assms(2) show ?thesis by (auto simp: ring_room_def)
qed

lemma get_frame_ring:
  assumes "ring_good s" "ring_items s \<noteq> []"
  shows "\<exists>t. get_frame s = Some (hd (ring_items s), t) \<and> ring_good t
    \<and> ring_items t = tl (ring_items s) \<and> ring_room t = Suc (ring_room s)"
proof -
  define t where "t = s\<lparr>frame_filled := frame_out s,
    frame_out := (if frame_count s \<le> frame_out s + 1 then 0 else frame_out s + 1)\<rparr>"
  have ne: "frame_out s \<noteq> frame_in s" using ring_empty [OF assms(1)] assms(2) by simp
  have at: "frame_out s < length (buffer s)" using assms(1) by (simp add: ring_good_def)
  have drop: "drop (frame_out s) (buffer s) = buffer s ! frame_out s # drop (Suc (frame_out s)) (buffer s)"
    using at by (simp add: Cons_nth_drop_Suc)
  have good: "ring_good t" using assms(1) by (auto simp: ring_good_def t_def)
  have items: "ring_items s = buffer s ! frame_out s # ring_items t"
  proof (cases "frame_out s \<le> frame_in s")
    case True
    then obtain m where "frame_in s - frame_out s = Suc m" "frame_in s - Suc (frame_out s) = m"
      using ne by (metis Suc_diff_Suc diff_Suc_Suc le_neq_implies_less)
    with True assms(1) ne show ?thesis by (auto simp: ring_items_def drop t_def ring_good_def)
  next
    case False
    with assms(1) show ?thesis by (auto simp: ring_items_def drop t_def ring_good_def)
  qed
  have "get_frame s = Some (buffer s ! frame_out s, t)" using at by (simp add: get_frame_def t_def Let_def)
  moreover have "frame_count t = frame_count s" by (simp add: t_def)
  moreover have "length (ring_items s) < frame_count s"
    using assms(1) by (simp add: length_ring_items) (auto simp: ring_good_def)
  ultimately show ?thesis using good items by (auto simp: ring_room_def)
qed

interpretation ring: bounded_fifo put_frame get_frame ring_items ring_room ring_good
  by unfold_locales (rule put_frame_ring get_frame_ring; assumption)+

section \<open>The loops over the queue\<close>

text \<open>Writing and reading keep the rates and the resampler.\<close>

lemma put_frame_rates:
  "put_frame f s = Some t \<Longrightarrow> resample t = resample s \<and> sample_rate_in t = sample_rate_in s
    \<and> sample_rate_out t = sample_rate_out s \<and> near_diff t = near_diff s \<and> frame_count t = frame_count s"
  by (auto simp: put_frame_def Let_def split: if_splits)

lemma get_frame_rates:
  "get_frame s = Some (f, t) \<Longrightarrow> resample t = resample s \<and> sample_rate_in t = sample_rate_in s
    \<and> sample_rate_out t = sample_rate_out s \<and> near_diff t = near_diff s \<and> frame_count t = frame_count s"
  by (auto simp: get_frame_def Let_def split: if_splits)

definition same_rates :: "snd_context \<Rightarrow> snd_context \<Rightarrow> bool" where
  "same_rates s t \<longleftrightarrow> resample t = resample s \<and> sample_rate_in t = sample_rate_in s
    \<and> sample_rate_out t = sample_rate_out s \<and> near_diff t = near_diff s \<and> frame_count t = frame_count s"

lemma same_rates_refl [simp]: "same_rates s s"
  by (simp add: same_rates_def)

lemma same_rates_trans: "same_rates s t \<Longrightarrow> same_rates t u \<Longrightarrow> same_rates s u"
  by (simp add: same_rates_def)

lemma take_frames_ring:
  assumes "ring_good s"
  shows "\<exists>t. take_frames len s = Some (take len (ring_items s), len - length (ring_items s), t)
    \<and> ring_good t \<and> ring_items t = drop len (ring_items s) \<and> same_rates s t"
  using assms
proof (induction len arbitrary: s)
  case (Suc len)
  show ?case
  proof (cases "ring_items s")
    case Nil
    with ring_empty [OF Suc.prems] Suc.prems show ?thesis by simp
  next
    case (Cons f fs)
    with ring_empty [OF Suc.prems] have ne: "frame_out s \<noteq> frame_in s" by simp
    from ring.get_cases [OF Suc.prems Cons] obtain t where t: "get_frame s = Some (f, t)" "ring_good t" "ring_items t = fs"
      by blast
    from Suc.IH [OF t(2)] obtain u where "take_frames len t = Some (take len fs, len - length fs, u)"
      "ring_good u" "ring_items u = drop len fs" "same_rates t u" unfolding t(3) by blast
    moreover have "same_rates s t" using get_frame_rates [OF t(1)] by (simp add: same_rates_def)
    ultimately show ?thesis using ne t(1) Cons by (auto intro: same_rates_trans)
  qed
qed simp

lemma callback_ring:
  assumes "ring_good s"
  shows "\<exists>stream t. SND_audioCallback len s = Some (stream, take len (ring_items s), t)
    \<and> ring_good t \<and> ring_items t = drop len (ring_items s) \<and> same_rates s t"
proof -
  have "frame_count s \<noteq> 0" using assms by (simp add: ring_good_def)
  with take_frames_ring [OF assms, of len] show ?thesis by (auto simp: SND_audioCallback_def Let_def)
qed

text \<open>Waiting for room plays a prefix of the queue, and ends at once when there is room.\<close>

lemma wait_room_ring:
  assumes "ring_good s" "2 \<le> frame_count s"
  shows "\<exists>fs now' t. wait_room sched tries now s = Some (fs, now', t) \<and> ring_good t
    \<and> ring_items s = fs @ ring_items t \<and> same_rates s t
    \<and> (0 < ring_room t \<or> now' = now + tries \<and> ring_items t = ring_items s \<and> (\<forall>k<tries. sched (now + k) = 0))"
  using assms
proof (induction tries arbitrary: now s)
  case (Suc tries)
  show ?case
  proof (cases "frame_in s = frame_filled s")
    case False
    then show ?thesis using Suc.prems(1) ring_full [OF Suc.prems(1)] by auto
  next
    case True
    obtain stream t where t: "SND_audioCallback (sched now) s = Some (stream, take (sched now) (ring_items s), t)"
      "ring_good t" "ring_items t = drop (sched now) (ring_items s)" "same_rates s t"
      using callback_ring [OF Suc.prems(1)] by blast
    have "2 \<le> frame_count t" using t(4) Suc.prems(2) by (simp add: same_rates_def)
    from Suc.IH [OF t(2) this, of "now + 1"] obtain gs now' u where u:
      "wait_room sched tries (now + 1) t = Some (gs, now', u)" "ring_good u" "ring_items t = gs @ ring_items u"
      "same_rates t u" "0 < ring_room u \<or> now' = now + 1 + tries \<and> ring_items u = ring_items t
         \<and> (\<forall>k<tries. sched (now + 1 + k) = 0)"
      by blast
    have run: "wait_room sched (Suc tries) now s = Some (take (sched now) (ring_items s) @ gs, now', u)"
      using True t(1) u(1) by simp
    have split: "ring_items s = (take (sched now) (ring_items s) @ gs) @ ring_items u"
      using t(3) u(3) append_take_drop_id [of "sched now" "ring_items s"] by simp
    have "0 < ring_room u \<or> sched now = 0"
    proof (rule disjCI)
      assume "sched now \<noteq> 0"
      moreover have "length (ring_items s) = frame_count s - 1"
        using True ring_full [OF Suc.prems(1)] length_ring_items [OF Suc.prems(1)] Suc.prems(1)
        by (auto simp: ring_room_def ring_good_def)
      moreover have "length (ring_items u) \<le> length (ring_items s) - sched now"
        using arg_cong [OF u(3), of length] arg_cong [OF t(3), of length] by simp
      ultimately have "length (ring_items u) < frame_count u - 1"
        using t(4) u(4) Suc.prems(2) by (simp add: same_rates_def)
      then show "0 < ring_room u" by (simp add: ring_room_def)
    qed
    then have "0 < ring_room u \<or> now' = now + Suc tries \<and> ring_items u = ring_items s
        \<and> (\<forall>k<Suc tries. sched (now + k) = 0)"
      using u(5) t(3) by (auto simp: less_Suc_eq_0_disj)
    with run split u(2) same_rates_trans [OF t(4) u(4)] show ?thesis by blast
  qed
qed simp

text \<open>One call of the resampler: what it writes and whether the frame is consumed.\<close>

definition rates_ok :: "snd_context \<Rightarrow> bool" where
  "rates_ok s \<longleftrightarrow> (case resample s of SND_None \<Rightarrow> True
     | SND_Near \<Rightarrow> 0 < sample_rate_in s \<and> 0 < sample_rate_out s \<and> 0 \<le> near_diff s
         \<and> near_diff s < sample_rate_out s + sample_rate_in s)"

lemma resample_ring:
  assumes "ring_good s" "0 < ring_room s" "rates_ok s"
  shows "\<exists>c t ws. resample_frame f s = Some (c, t) \<and> ring_good t \<and> ring_items t = ring_items s @ ws
    \<and> ring_room t + length ws = ring_room s \<and> set ws \<subseteq> {f} \<and> c \<le> 1 \<and> (0 < c \<or> ws \<noteq> [])
    \<and> rates_ok t \<and> resample t = resample s \<and> sample_rate_in t = sample_rate_in s
    \<and> sample_rate_out t = sample_rate_out s \<and> frame_count t = frame_count s
    \<and> (resample s = SND_None \<longrightarrow> ws = [f] \<and> c = 1)
    \<and> (resample s = SND_Near \<longrightarrow> near_diff t
        = near_diff s + sample_rate_in s * int (length ws) - sample_rate_out s * int c)"
proof -
  obtain u where u: "put_frame f s = Some u" "ring_good u" "ring_items u = ring_items s @ [f]"
    "Suc (ring_room u) = ring_room s"
    using ring.put_cases [OF assms(1,2)] by blast
  note rates = put_frame_rates [OF u(1)]
  have frame: "ring_good (u\<lparr>near_diff := d\<rparr>) = ring_good u" "ring_items (u\<lparr>near_diff := d\<rparr>) = ring_items u"
    "ring_room (u\<lparr>near_diff := d\<rparr>) = ring_room u" for u d
    by (simp_all add: ring_good_def ring_items_def ring_room_def)
  show ?thesis
  proof (cases "resample s")
    case SND_None
    with u rates assms(3) show ?thesis
      by (auto simp: resample_frame_def SND_resampleNone_def rates_ok_def)
  next
    case SND_Near
    show ?thesis
    proof (cases "near_diff s < sample_rate_out s")
      case True
      with SND_Near u rates assms(3) show ?thesis
        by (auto simp: resample_frame_def SND_resampleNear_def rates_ok_def frame)
    next
      case False
      with SND_Near assms show ?thesis
        by (auto simp: resample_frame_def SND_resampleNear_def rates_ok_def frame)
    qed
  qed
qed

text \<open>
  The inner loop: some prefix of the frames is consumed, what was written is queued behind the
  rest, and the loop ends with the buffer full or the amount consumed.
\<close>

definition wrote ::
  "SND_Frame list \<Rightarrow> nat \<Rightarrow> SND_Frame list \<Rightarrow> snd_context \<Rightarrow> snd_context \<Rightarrow> bool" where
  "wrote frames c ws s t \<longleftrightarrow> c \<le> length frames \<and> rates_ok t \<and> resample t = resample s
    \<and> sample_rate_in t = sample_rate_in s \<and> sample_rate_out t = sample_rate_out s
    \<and> frame_count t = frame_count s \<and> set ws \<subseteq> set frames
    \<and> (resample s = SND_None \<longrightarrow> ws = take c frames)
    \<and> (resample s = SND_Near \<longrightarrow> near_diff t
        = near_diff s + sample_rate_in s * int (length ws) - sample_rate_out s * int c)"

lemma wrote_none: "rates_ok s \<Longrightarrow> wrote frames 0 [] s s"
  by (simp add: wrote_def)

lemma wrote_step:
  assumes "wrote fs c ws s t" "wrote (drop c fs) d vs t u"
  shows "wrote fs (c + d) (ws @ vs) s u"
  using assms set_drop_subset [of c fs] by (auto simp: wrote_def take_add algebra_simps)

lemma wrote_frame:
  "near_diff s' = near_diff s \<Longrightarrow> resample s' = resample s \<Longrightarrow> sample_rate_in s' = sample_rate_in s
   \<Longrightarrow> sample_rate_out s' = sample_rate_out s \<Longrightarrow> frame_count s' = frame_count s
   \<Longrightarrow> wrote fs c ws s' t = wrote fs c ws s t"
  by (simp add: wrote_def)

lemma resample_wrote:
  assumes "ring_good s" "0 < ring_room s" "rates_ok s"
  shows "\<exists>c t ws. resample_frame f s = Some (c, t) \<and> ring_good t \<and> ring_items t = ring_items s @ ws
    \<and> ring_room t + length ws = ring_room s \<and> c \<le> 1 \<and> (0 < c \<or> ws \<noteq> []) \<and> rates_ok t
    \<and> wrote (f # fs) c ws s t"
proof -
  from resample_ring [OF assms, of f] obtain c t ws where t: "resample_frame f s = Some (c, t)"
    "ring_good t" "ring_items t = ring_items s @ ws" "ring_room t + length ws = ring_room s"
    "c \<le> 1" "0 < c \<or> ws \<noteq> []" "rates_ok t"
    and w: "set ws \<subseteq> {f}" "resample t = resample s" "sample_rate_in t = sample_rate_in s"
      "sample_rate_out t = sample_rate_out s" "frame_count t = frame_count s"
      "resample s = SND_None \<longrightarrow> ws = [f] \<and> c = 1"
      "resample s = SND_Near \<longrightarrow> near_diff t
        = near_diff s + sample_rate_in s * int (length ws) - sample_rate_out s * int c"
    by blast
  have "wrote (f # fs) c ws s t" using t(5,7) w by (auto simp: wrote_def)
  with t show ?thesis by blast
qed

lemma write_some_ring:
  assumes "ring_good s" "rates_ok s" "amount \<le> length frames"
  shows "\<exists>c t ws. write_some amount frames s = Some (drop c frames, c, t) \<and> ring_good t
    \<and> ring_items t = ring_items s @ ws \<and> wrote frames c ws s t \<and> c \<le> amount
    \<and> (c = amount \<or> ring_room t = 0) \<and> ring_room t + length ws = ring_room s"
  using assms
proof (induction "amount + ring_room s" arbitrary: amount frames s rule: less_induct)
  case less
  show ?case
  proof (cases "amount = 0 \<or> ring_room s = 0")
    case True
    then show ?thesis
      using less.prems wrote_none [OF less.prems(2)] ring_full [OF less.prems(1)]
      by (subst write_some.simps) auto
  next
    case False
    then obtain f fs where frames: "frames = f # fs" using less.prems(3) by (cases frames) auto
    have notfull: "frame_in s \<noteq> frame_filled s" using False ring_full [OF less.prems(1)] by simp
    obtain c t ws where t: "resample_frame f s = Some (c, t)" "ring_good t" "ring_items t = ring_items s @ ws"
      "ring_room t + length ws = ring_room s" "c \<le> 1" "0 < c \<or> ws \<noteq> []" "rates_ok t" "wrote frames c ws s t"
      using resample_wrote [OF less.prems(1) _ less.prems(2), of f fs] False frames by blast
    have measure: "amount - c + ring_room t < amount + ring_room s"
      using t(4-6) False by (cases ws) auto
    have left: "amount - c \<le> length (drop c frames)" using less.prems(3) by simp
    from less.hyps [OF measure t(2) t(7) left] obtain d u vs where u:
      "write_some (amount - c) (drop c frames) t = Some (drop d (drop c frames), d, u)" "ring_good u"
      "ring_items u = ring_items t @ vs" "wrote (drop c frames) d vs t u" "d \<le> amount - c"
      "d = amount - c \<or> ring_room u = 0" "ring_room u + length vs = ring_room t"
      by blast
    have "write_some amount frames s = Some (drop (c + d) frames, c + d, u)"
      using False notfull t(1) u(1) frames by (subst write_some.simps) (simp add: add.commute)
    moreover have "c \<le> amount" using t(5) False by simp
    ultimately show ?thesis
      using t(3,4) u(2,3,5-7) wrote_step [OF t(8) u(4)]
      by (intro exI [of _ "c + d"] exI [of _ u] exI [of _ "ws @ vs"]) auto
  qed
qed

text \<open>The callback runs again and again: from every moment on, it will ask for a frame.\<close>

definition fair :: "(nat \<Rightarrow> nat) \<Rightarrow> bool" where
  "fair sched \<longleftrightarrow> (\<forall>now. \<exists>k. 0 < sched (now + k))"

definition gap :: "(nat \<Rightarrow> nat) \<Rightarrow> nat \<Rightarrow> nat" where
  "gap sched now = (LEAST k. 0 < sched (now + k))"

lemma gap_shrinks:
  assumes "fair sched" "\<forall>k<n. sched (now + k) = 0" "0 < n"
  shows "gap sched (now + n) < gap sched now"
proof -
  from assms(1) have g: "0 < sched (now + gap sched now)" unfolding gap_def fair_def
    by (intro LeastI_ex [of "\<lambda>k. 0 < sched (now + k)"]) simp
  then have "n \<le> gap sched now" using assms(2) by (metis less_irrefl not_less)
  then have "0 < sched (now + n + (gap sched now - n))" using g by simp
  then have "gap sched (now + n) \<le> gap sched now - n" unfolding gap_def by (rule Least_le)
  then show ?thesis using \<open>n \<le> gap sched now\<close> assms(3) by linarith
qed

text \<open>How far the nearest neighbour resampler is from consuming a frame.\<close>

definition slack :: "snd_context \<Rightarrow> nat" where
  "slack s = (case resample s of SND_None \<Rightarrow> 0
     | SND_Near \<Rightarrow> nat (sample_rate_out s + sample_rate_in s - near_diff s))"

lemma slack_same: "same_rates s t \<Longrightarrow> slack t = slack s"
  by (cases "resample s") (simp_all add: same_rates_def slack_def)

lemma rates_same: "same_rates s t \<Longrightarrow> rates_ok t = rates_ok s"
  by (cases "resample s") (simp_all add: same_rates_def rates_ok_def)

lemma wrote_same: "same_rates s t \<Longrightarrow> wrote frames c ws t u = wrote frames c ws s u"
  by (simp add: same_rates_def wrote_def)

lemma slack_wrote:
  assumes "wrote frames 0 ws s t" "rates_ok s"
  shows "ws \<noteq> [] \<Longrightarrow> slack t < slack s" "ws = [] \<Longrightarrow> slack t = slack s"
proof -
  show "slack t < slack s" if "ws \<noteq> []"
  proof (cases "resample s")
    case SND_None
    with that assms(1) show ?thesis by (simp add: wrote_def)
  next
    case SND_Near
    with assms have "0 < sample_rate_in s" "near_diff t < sample_rate_out s + sample_rate_in s"
      "near_diff t = near_diff s + sample_rate_in s * int (length ws)"
      by (auto simp: wrote_def rates_ok_def split: SND_Resampler.splits)
    moreover have "0 < sample_rate_in s * int (length ws)" using that calculation(1) by simp
    ultimately show ?thesis using SND_Near assms(1) by (simp add: slack_def wrote_def)
  qed
  show "slack t = slack s" if "ws = []"
    using that assms(1) by (cases "resample s") (simp_all add: slack_def wrote_def)
qed

lemma batch_loop_ring:
  assumes "fair sched" "ring_good s" "rates_ok s" "2 \<le> frame_count s"
  shows "\<exists>played now' t ws. batch_loop sched now frames s = Some (played, length frames, now', t)
    \<and> ring_good t \<and> ring_items s @ ws = played @ ring_items t \<and> wrote frames (length frames) ws s t"
  using assms(2-)
proof (induction "(frames, s, now)" arbitrary: frames s now rule: wf_induct_rule
    [OF wf_measures [of "[\<lambda>(f, s, n). length f, \<lambda>(f, s, n). slack s, \<lambda>(f, s, n). gap sched n]"]])
  case 1
  note IH = 1(1)
  show ?case
  proof (cases "frames = []")
    case True
    with 1(2,3) wrote_none [OF 1(3)] show ?thesis by (subst batch_loop.simps) auto
  next
    case False
    let ?amount = "min BATCH_SIZE (length frames)"
    obtain fs now' t where t: "wait_room sched 10 now s = Some (fs, now', t)" "ring_good t"
      "ring_items s = fs @ ring_items t" "same_rates s t"
      "0 < ring_room t \<or> now' = now + 10 \<and> (\<forall>k<10. sched (now + k) = 0)"
      using wait_room_ring [OF 1(2,4), of sched 10 now] by blast
    have ok: "rates_ok t" using rates_same [OF t(4)] 1(3) by simp
    obtain c u ws where u: "write_some ?amount frames t = Some (drop c frames, c, u)" "ring_good u"
      "ring_items u = ring_items t @ ws" "wrote frames c ws t u" "c \<le> ?amount"
      "c = ?amount \<or> ring_room u = 0" "ring_room u + length ws = ring_room t"
      using write_some_ring [OF t(2) ok, of ?amount frames] by auto
    have less: "((drop c frames, u, now'), (frames, s, now)) \<in> measures
        [\<lambda>(f, s, n). length f, \<lambda>(f, s, n). slack s, \<lambda>(f, s, n). gap sched n]"
    proof (cases "c = 0")
      case True
      then have "ring_room u = 0" using u(6) False by (cases frames) (auto simp: BATCH_SIZE_def)
      then show ?thesis
        using slack_wrote [OF _ ok] u(4,7) True t(5) slack_same [OF t(4)] gap_shrinks [OF assms(1), of 10 now]
        by (cases "ws = []") auto
    next
      case False
      with u(5) have "0 < c" "c \<le> length frames" by simp_all
      then have "length frames - c < length frames" by linarith
      then show ?thesis by simp
    qed
    have prems: "rates_ok u" "2 \<le> frame_count u"
      using u(4) t(4) 1(4) by (simp_all add: wrote_def same_rates_def)
    obtain gs now'' v vs where v: "batch_loop sched now' (drop c frames) u
        = Some (gs, length (drop c frames), now'', v)" "ring_good v"
      "ring_items u @ vs = gs @ ring_items v" "wrote (drop c frames) (length (drop c frames)) vs u v"
      using IH [OF less u(2) prems] by blast
    have len: "c + length (drop c frames) = length frames" using u(5) by simp
    have "batch_loop sched now frames s = Some (fs @ gs, length frames, now'', v)"
      using False t(1) u(1) v(1) len by (subst batch_loop.simps) simp
    moreover have "ring_items s @ ws @ vs = (fs @ gs) @ ring_items v"
      using t(3) u(3) v(3) by simp
    moreover have "wrote frames (length frames) (ws @ vs) s v"
      using wrote_step [OF u(4) v(4)] wrote_same [OF t(4)] len by simp
    ultimately show ?thesis using v(2) by blast
  qed
qed

section \<open>Properties\<close>

lemma ring_good_init: "2 \<le> n \<Longrightarrow> ring_good (SND_init rate freq n d) \<and> ring_items (SND_init rate freq n d) = []"
  by (simp add: SND_init_def SND_resizeBuffer_def ring_good_def ring_items_def)

text \<open>
  C12. A batch is delivered whole: as long as the audio callback keeps running, and whatever it
  takes during each wait, SND_batchSamples returns, consumes every frame it was given, never
  reads or writes outside the buffer, and what the callback played meanwhile followed by what
  the buffer holds at the end is what the buffer held before followed by what was written; at
  equal rates that is exactly the given frames, in order.
\<close>

theorem batch_delivers:
  assumes "fair sched" "ring_good s" "rates_ok s" "2 \<le> frame_count s"
  shows "\<exists>played now' t ws. SND_batchSamples sched now frames s = Some (played, length frames, now', t)
    \<and> ring_good t \<and> ring_items s @ ws = played @ ring_items t \<and> set ws \<subseteq> set frames
    \<and> (resample s = SND_None \<longrightarrow> ws = frames)"
proof -
  have "frame_count s \<noteq> 0" using assms(4) by simp
  with batch_loop_ring [OF assms, of now frames] show ?thesis
    by (auto simp: SND_batchSamples_def wrote_def)
qed

text \<open>
  The nearest neighbour resampler keeps the ratio of the rates: over a batch of any size
  the number of frames written times the input rate differs from the number of frames consumed
  times the output rate by less than one step of the two rates, so the error never accumulates.
\<close>

theorem near_resampler_ratio:
  assumes "fair sched" "ring_good s" "rates_ok s" "2 \<le> frame_count s" "resample s = SND_Near"
    and "SND_batchSamples sched now frames s = Some (played, n, now', t)"
  shows "\<bar>(int (length played) + int (length (ring_items t)) - int (length (ring_items s))) * sample_rate_in s
      - int (length frames) * sample_rate_out s\<bar> < sample_rate_in s + sample_rate_out s"
proof -
  have "frame_count s \<noteq> 0" using assms(4) by simp
  then obtain ws where w: "ring_items s @ ws = played @ ring_items t" "wrote frames (length frames) ws s t"
    using batch_loop_ring [OF assms(1-4), of now frames] assms(6) by (auto simp: SND_batchSamples_def)
  have "int (length ws) = int (length played) + int (length (ring_items t)) - int (length (ring_items s))"
    using arg_cong [OF w(1), of length] by simp
  then have diff: "(int (length played) + int (length (ring_items t)) - int (length (ring_items s))) * sample_rate_in s
      - int (length frames) * sample_rate_out s = near_diff t - near_diff s"
    using w(2) assms(5) by (simp add: wrote_def mult.commute)
  have "0 \<le> near_diff s" "near_diff s < sample_rate_in s + sample_rate_out s"
    "0 \<le> near_diff t" "near_diff t < sample_rate_in s + sample_rate_out s"
    using assms(3,5) w(2) by (auto simp: wrote_def rates_ok_def split: SND_Resampler.splits)
  then show ?thesis unfolding diff by linarith
qed

lemma length_fill_back: "length (fill_back k at stream) = length stream + k"
  by (induction k at stream rule: fill_back.induct) auto

lemma prefix_fill_back: "prefix stream (fill_back k at stream)"
proof (induction k at stream rule: fill_back.induct)
  case (2 k at stream)
  then show ?case by (auto simp: prefix_def)
qed simp

lemma length_interleave: "length (concat (map (\<lambda>(l, r). [l, r]) fs)) = 2 * length fs"
  by (induction fs) auto

text \<open>
  C13. The callback plays the queue in order: it takes the oldest frames, at most as many as
  asked for, and puts exactly the asked number of samples in the stream, which begins with the
  frames taken; the rest is filled from samples already written in this stream or with zeros.
\<close>

theorem callback_plays_queue:
  assumes "ring_good s" "SND_audioCallback len s = Some (stream, fs, t)"
  shows "fs = take len (ring_items s) \<and> ring_items t = drop len (ring_items s)
    \<and> length stream = 2 * len \<and> prefix (concat (map (\<lambda>(l, r). [l, r]) fs)) stream"
proof -
  have n: "frame_count s \<noteq> 0" using assms(1) by (simp add: ring_good_def)
  have fs: "fs = take len (ring_items s) \<and> ring_items t = drop len (ring_items s)"
    using callback_ring [OF assms(1), of len] assms(2) by auto
  have stream: "stream = (let missing = len - length (ring_items s); played = concat (map (\<lambda>(l, r). [l, r]) fs) in
      if 0 < missing \<and> missing = SAMPLES then played @ replicate (2 * missing) 0
      else fill_back (2 * missing) (int (length played) - 1) played)"
    using take_frames_ring [OF assms(1), of len] assms(2) n by (auto simp: SND_audioCallback_def Let_def)
  show ?thesis
    unfolding stream using fs
    by (auto simp: Let_def length_fill_back prefix_fill_back length_interleave)
qed

theorem batch_delivers_witness:
  "\<exists>played now' t. SND_batchSamples (\<lambda>_. 1) 0 [(1, 2), (3, 4), (5, 6)] (SND_init 44100 44100 3 0)
      = Some (played, 3, now', t) \<and> played @ ring_items t = [(1, 2), (3, 4), (5, 6)]"
  using batch_delivers [of "\<lambda>_. 1" "SND_init 44100 44100 3 0" 0 "[(1, 2), (3, 4), (5, 6)]"]
    ring_good_init [of 3 44100 44100 0]
  by (auto simp: fair_def rates_ok_def SND_init_def SND_resizeBuffer_def SND_selectResampler_def)

theorem near_resampler_ratio_witness:
  "\<exists>played now' t. SND_batchSamples (\<lambda>_. 1) 0 [(1, 2), (3, 4)] (SND_init 22050 44100 3 0) = Some (played, 2, now', t)
    \<and> \<bar>(int (length played) + int (length (ring_items t))) * 22050 - 2 * 44100\<bar> < 22050 + 44100"
proof -
  let ?s = "SND_init 22050 44100 3 0"
  have s: "fair (\<lambda>_. 1)" "ring_good ?s" "rates_ok ?s" "2 \<le> frame_count ?s" "resample ?s = SND_Near"
    "ring_items ?s = []" "sample_rate_in ?s = 22050" "sample_rate_out ?s = 44100" "frame_count ?s \<noteq> 0"
    using ring_good_init [of 3 22050 44100 0]
    by (simp_all add: fair_def rates_ok_def SND_init_def SND_resizeBuffer_def SND_selectResampler_def)
  obtain played now' t where b: "SND_batchSamples (\<lambda>_. 1) 0 [(1, 2), (3, 4)] ?s = Some (played, 2, now', t)"
    using batch_loop_ring [OF s(1-4), of 0 "[(1, 2), (3, 4)]"] s(9) by (auto simp: SND_batchSamples_def)
  from near_resampler_ratio [OF s(1-5) b] b s(6-8) show ?thesis by auto
qed

theorem callback_plays_queue_witness:
  "\<exists>stream t. SND_audioCallback 2 (SND_init 44100 44100 3 0) = Some (stream, [], t) \<and> length stream = 4"
proof -
  obtain stream t where "SND_audioCallback 2 (SND_init 44100 44100 3 0) = Some (stream, [], t)"
    using callback_ring [of "SND_init 44100 44100 3 0" 2] ring_good_init [of 3 44100 44100 0] by auto
  with callback_plays_queue [OF _ this] ring_good_init [of 3 44100 44100 0] show ?thesis by auto
qed

end
