(* ===== verification/ArtCache.thy ===== *)
theory ArtCache
  imports Scaler Override
begin

text \<open>
  The artwork cache of the launcher (minui.c, Lodor_art* and Lodor_mediaPath): one worker thread
  decodes pictures, the UI thread asks for them, and a byte-bounded list in most-recently-used
  order sits between them. Every access to the shared state holds one mutex, so a run is a
  sequence of whole operations: requests, prefetches and polls of the UI, and the worker taking
  a request and, later, delivering the decoded picture.

  What SDL and SDL_image do is a parameter (\<open>sdl\<close>): whether an allocation succeeds, the pitch
  of a fresh 16 bit surface and the pixels of a conversion to it.
\<close>

section \<open>Where a cover is stored\<close>

definition Lodor_mediaPath :: "string \<Rightarrow> nat \<Rightarrow> string option" where
  "Lodor_mediaPath rompath outsz =
    (if rompath = [] then None
     else let d = c_trunc MAX_PATH rompath in
       case strrchr d (CHR ''/'') of
         None \<Rightarrow> None
       | Some i \<Rightarrow>
           (let base = drop (i + 1) d;
                stem = (case strrchr base (CHR ''.'') of None \<Rightarrow> base | Some j \<Rightarrow> take j base);
                out = take i d @ ''/.media/'' @ stem @ ''.png''
            in if stem = [] then None else if length out < outsz then Some out else None))"

section \<open>Surfaces\<close>

record surface =
  surf_w :: nat
  surf_h :: nat
  surf_pitch :: nat
  pixels :: "nat \<Rightarrow> 16 word"

record sdl =
  alloc_ok :: bool
  pitch_for :: "nat \<Rightarrow> nat"
  blit_565 :: "surface \<Rightarrow> nat \<Rightarrow> 16 word"

text \<open>The size a picture gets in a max_w by max_h slot, None when it stays as it is.\<close>

definition fit_size :: "nat \<Rightarrow> nat \<Rightarrow> nat \<Rightarrow> nat \<Rightarrow> bool \<Rightarrow> (nat \<times> nat) option" where
  "fit_size w h max_w max_h grow =
    (if w = 0 \<or> h = 0 \<or> max_w = 0 \<or> max_h = 0 then None
     else if max_w < w \<or> max_h < h then
       (let th = h * max_w div w;
            (tw, th) = (if max_h < th then (w * max_h div h, max_h) else (max_w, th))
        in Some (max 1 tw, max 1 th))
     else if grow \<and> w * 2 \<le> max_w \<and> h * 2 \<le> max_h then
       (let k = min (min (max_w div w) (max_h div h)) 6
        in if 2 \<le> k then Some (w * k, h * k) else None)
     else None)"

text \<open>The fixed point walk of the downscaler: 32 bit words, 16 bits of fraction.\<close>

definition walk_step :: "nat \<Rightarrow> nat \<Rightarrow> 32 word" where
  "walk_step w tw = push_bit 16 (of_nat w) div of_nat tw"

fun walk_row :: "nat \<Rightarrow> nat \<Rightarrow> 32 word \<Rightarrow> 32 word \<Rightarrow> (nat \<Rightarrow> 16 word) \<Rightarrow> nat \<Rightarrow> (nat \<Rightarrow> 16 word) \<Rightarrow> nat \<Rightarrow> 16 word" where
  "walk_row 0 x sx mx srow drow d = d"
| "walk_row (Suc n) x sx mx srow drow d =
     walk_row n (x + 1) (sx + mx) mx srow drow (d(drow + x := srow (unat (drop_bit 16 sx))))"

fun walk_rows ::
  "nat \<Rightarrow> nat \<Rightarrow> 32 word \<Rightarrow> 32 word \<Rightarrow> 32 word \<Rightarrow> nat \<Rightarrow> (nat \<Rightarrow> 16 word) \<Rightarrow> nat \<Rightarrow> nat
   \<Rightarrow> (nat \<Rightarrow> 16 word) \<Rightarrow> nat \<Rightarrow> 16 word" where
  "walk_rows 0 y sy my mx tw sp spitch dpitch d = d"
| "walk_rows (Suc n) y sy my mx tw sp spitch dpitch d =
     walk_rows n (y + 1) (sy + my) my mx tw sp spitch dpitch
       (walk_row tw 0 0 mx (\<lambda>x. sp (unat (drop_bit 16 sy) * (spitch div 2) + x)) (y * (dpitch div 2)) d)"

definition Lodor_artFit :: "sdl \<Rightarrow> surface \<Rightarrow> nat \<Rightarrow> nat \<Rightarrow> bool \<Rightarrow> surface" where
  "Lodor_artFit S img max_w max_h grow =
    (case fit_size (surf_w img) (surf_h img) max_w max_h grow of
       None \<Rightarrow> img
     | Some (tw, th) \<Rightarrow>
         if \<not> alloc_ok S then img
         else (let sp = pitch_for S (surf_w img); dp = pitch_for S tw; conv = blit_565 S img
           in \<lparr>surf_w = tw, surf_h = th, surf_pitch = dp, pixels =
             (if surf_w img < tw
              then scaler_c16 (tw div surf_w img) (th div surf_h img) conv (\<lambda>_. 0) (surf_w img) (surf_h img) sp dp
              else walk_rows th 0 0 (walk_step (surf_h img) th) (walk_step (surf_w img) tw) tw conv sp dp
                     (\<lambda>_. 0))\<rparr>))"

section \<open>The cache\<close>

record art_entry =
  ae_surf :: surface
  ae_bytes :: nat
  ae_path :: string

record art_req =
  rq_path :: string
  rq_max_w :: nat
  rq_max_h :: nat
  rq_grow :: bool
  rq_seq :: int

text \<open>The list is most recently used first. A request slot with an empty path is free.\<close>

record art =
  art_list :: "art_entry list"
  art_bytes :: nat
  art_budget :: nat
  art_queue :: "art_req list"
  art_seq :: int
  art_pin :: string
  art_ready :: bool

definition LODOR_ART_QUEUE :: nat where "LODOR_ART_QUEUE = 3"

definition empty_req :: art_req where
  "empty_req = \<lparr>rq_path = [], rq_max_w = 0, rq_max_h = 0, rq_grow = False, rq_seq = 0\<rparr>"

definition Lodor_artInit :: "string \<Rightarrow> art" where
  "Lodor_artInit platform_name =
    \<lparr>art_list = [], art_bytes = 0,
     art_budget = (if platform_name = ''miyoomini'' then 4 * 1024 * 1024 else 8 * 1024 * 1024),
     art_queue = replicate LODOR_ART_QUEUE empty_req, art_seq = 0, art_pin = [], art_ready = False\<rparr>"

text \<open>A hit moves the entry to the front.\<close>

fun find_bump :: "string \<Rightarrow> art_entry list \<Rightarrow> art_entry list \<Rightarrow> (art_entry \<times> art_entry list) option" where
  "find_bump path prev [] = None"
| "find_bump path prev (e # es) =
    (if ae_path e = path then Some (e, e # prev @ es) else find_bump path (prev @ [e]) es)"

definition Lodor_artFind :: "string \<Rightarrow> art \<Rightarrow> art_entry option \<times> art" where
  "Lodor_artFind path a =
    (case find_bump path [] (art_list a) of None \<Rightarrow> (None, a) | Some (e, es) \<Rightarrow> (Some e, a\<lparr>art_list := es\<rparr>))"

text \<open>The victim is the last entry that is neither the head nor the pinned one.\<close>

fun scan_victim :: "string \<Rightarrow> nat \<Rightarrow> nat option \<Rightarrow> art_entry list \<Rightarrow> nat option" where
  "scan_victim pin i victim [] = victim"
| "scan_victim pin i victim (e # es) =
    scan_victim pin (i + 1) (if ae_path e \<noteq> pin then Some i else victim) es"

definition remove_at :: "nat \<Rightarrow> 'a list \<Rightarrow> 'a list" where
  "remove_at i xs = take i xs @ drop (i + 1) xs"

function evict :: "nat \<Rightarrow> string \<Rightarrow> art_entry list \<Rightarrow> nat \<Rightarrow> art_entry list \<times> nat" where
  "evict budget pin es bytes =
    (if bytes \<le> budget then (es, bytes)
     else case scan_victim pin 1 None (drop 1 es) of
       None \<Rightarrow> (es, bytes)
     | Some i \<Rightarrow> if i < length es then evict budget pin (remove_at i es) (bytes - ae_bytes (es ! i)) else (es, bytes))"
  by auto
termination
  by (relation "measure (\<lambda>(budget, pin, es, bytes). length es)") (auto simp: remove_at_def)

definition Lodor_artInsert :: "bool \<Rightarrow> surface \<Rightarrow> string \<Rightarrow> art \<Rightarrow> art" where
  "Lodor_artInsert calloc_ok surf path a =
    (if \<not> calloc_ok then a
     else let e = \<lparr>ae_surf = surf, ae_bytes = surf_h surf * surf_pitch surf, ae_path = c_trunc MAX_PATH path\<rparr>;
              (es, bytes) = evict (art_budget a) (art_pin a) (e # art_list a) (art_bytes a + ae_bytes e)
          in a\<lparr>art_list := es, art_bytes := bytes\<rparr>)"

section \<open>The UI's operations\<close>

definition Lodor_artRequest ::
  "string \<Rightarrow> nat \<Rightarrow> nat \<Rightarrow> bool \<Rightarrow> art \<Rightarrow> surface option \<times> art" where
  "Lodor_artRequest path max_w max_h grow a =
    (if path = [] then (None, a)
     else case Lodor_artFind path a of
       (Some e, b) \<Rightarrow> (Some (ae_surf e), b\<lparr>art_pin := c_trunc MAX_PATH path\<rparr>)
     | (None, b) \<Rightarrow>
         if rq_path (art_queue b ! 0) \<noteq> path
         then (None, b\<lparr>art_seq := art_seq b + 1,
                 art_queue := (art_queue b)[0 := \<lparr>rq_path = c_trunc MAX_PATH path, rq_max_w = max_w,
                   rq_max_h = max_h, rq_grow = grow, rq_seq = art_seq b + 1\<rparr>]\<rparr>)
         else (None, b))"

definition Lodor_artPrefetch :: "string \<Rightarrow> nat \<Rightarrow> nat \<Rightarrow> bool \<Rightarrow> art \<Rightarrow> art" where
  "Lodor_artPrefetch path max_w max_h grow a =
    (if path = [] then a
     else case Lodor_artFind path a of
       (Some e, b) \<Rightarrow> b
     | (None, b) \<Rightarrow>
         if rq_path (art_queue b ! 0) = path \<or> path \<in> set (map rq_path (drop 1 (art_queue b))) then b
         else (case find (\<lambda>i. rq_path (art_queue b ! i) = []) [1..<LODOR_ART_QUEUE] of
             None \<Rightarrow> b
           | Some i \<Rightarrow> b\<lparr>art_queue := (art_queue b)[i := \<lparr>rq_path = c_trunc MAX_PATH path, rq_max_w = max_w,
                 rq_max_h = max_h, rq_grow = grow, rq_seq = - 1\<rparr>]\<rparr>))"

definition Lodor_artPollReady :: "art \<Rightarrow> bool \<times> art" where
  "Lodor_artPollReady a = (art_ready a, a\<lparr>art_ready := False\<rparr>)"

section \<open>The worker's operations\<close>

text \<open>Dequeue: the current request first, then the prefetches.\<close>

definition worker_take :: "art \<Rightarrow> art_req option \<times> art" where
  "worker_take a =
    (case find (\<lambda>i. rq_path (art_queue a ! i) \<noteq> []) [0..<LODOR_ART_QUEUE] of
       None \<Rightarrow> (None, a)
     | Some i \<Rightarrow> (Some (art_queue a ! i),
         a\<lparr>art_queue := (art_queue a)[i := (art_queue a ! i)\<lparr>rq_path := []\<rparr>]\<rparr>))"

text \<open>
  Between taking and delivering, the lock is free and the picture is loaded and fitted: img is
  the loaded picture, None when the file is missing or cannot be decoded.
\<close>

definition worker_deliver :: "sdl \<Rightarrow> bool \<Rightarrow> art_req \<Rightarrow> surface option \<Rightarrow> art \<Rightarrow> art" where
  "worker_deliver S calloc_ok req img a =
    (case img of
       None \<Rightarrow> a
     | Some pic \<Rightarrow>
         (let surf = Lodor_artFit S pic (rq_max_w req) (rq_max_h req) (rq_grow req) in
          if 0 \<le> rq_seq req \<and> rq_seq req \<noteq> art_seq a then a
          else case Lodor_artFind (rq_path req) a of
            (Some e, b) \<Rightarrow> b
          | (None, b) \<Rightarrow> (Lodor_artInsert calloc_ok surf (rq_path req) b)\<lparr>art_ready := True\<rparr>))"

section \<open>Runs\<close>

text \<open>A state is the shared state with the request the worker is decoding, if any.\<close>

inductive art_next :: "art \<times> art_req option \<Rightarrow> art \<times> art_req option \<Rightarrow> bool" where
  request: "art_next (a, f) (snd (Lodor_artRequest path w h g a), f)"
| prefetch: "art_next (a, f) (Lodor_artPrefetch path w h g a, f)"
| poll: "art_next (a, f) (snd (Lodor_artPollReady a), f)"
| worker_takes: "worker_take a = (Some r, b) \<Longrightarrow> art_next (a, None) (b, Some r)"
| worker_delivers: "art_next (a, Some r) (worker_deliver S ok r img a, None)"

inductive_cases art_nextE: "art_next s t"

inductive art_reachable :: "string \<Rightarrow> art \<times> art_req option \<Rightarrow> bool" for name where
  art_start: "art_reachable name (Lodor_artInit name, None)"
| art_step: "art_reachable name s \<Longrightarrow> art_next s t \<Longrightarrow> art_reachable name t"

section \<open>Accounting\<close>

text \<open>The byte count is exact, no path is cached twice, and the budget is kept unless at most two
  entries are left.\<close>

definition art_ok :: "art \<Rightarrow> bool" where
  "art_ok a \<longleftrightarrow> art_bytes a = sum_list (map ae_bytes (art_list a))
     \<and> distinct (map ae_path (art_list a))
     \<and> (art_bytes a \<le> art_budget a \<or> length (art_list a) \<le> 2)
     \<and> length (art_queue a) = LODOR_ART_QUEUE"

lemma find_bump_Some:
  "find_bump path prev es = Some (e, xs) \<Longrightarrow> \<exists>us vs. es = us @ e # vs \<and> ae_path e = path \<and> xs = e # prev @ us @ vs"
proof (induction path prev es rule: find_bump.induct)
  case (2 path prev x es)
  show ?case
  proof (cases "ae_path x = path")
    case True
    with 2(2) show ?thesis by (intro exI [of _ "[]"] exI [of _ es]) auto
  next
    case False
    with 2 obtain us vs where "es = us @ e # vs" "ae_path e = path" "xs = e # (prev @ [x]) @ us @ vs"
      by auto
    then show ?thesis by (intro exI [of _ "x # us"] exI [of _ vs]) simp
  qed
qed simp

lemma find_bump_None: "find_bump path prev es = None \<longleftrightarrow> path \<notin> ae_path ` set es"
  by (induction path prev es rule: find_bump.induct) auto

lemma artFind_cases:
  obtains (hit) e us vs where "art_list a = us @ e # vs" "ae_path e = path"
    "Lodor_artFind path a = (Some e, a\<lparr>art_list := e # us @ vs\<rparr>)"
  | (miss) "path \<notin> ae_path ` set (art_list a)" "Lodor_artFind path a = (None, a)"
proof (cases "find_bump path [] (art_list a)")
  case None
  then have "Lodor_artFind path a = (None, a)" by (simp add: Lodor_artFind_def)
  with None show ?thesis using miss by (simp add: find_bump_None)
next
  case (Some r)
  then obtain e xs where r: "find_bump path [] (art_list a) = Some (e, xs)" by (cases r) auto
  from find_bump_Some [OF this] r show ?thesis by (auto simp: Lodor_artFind_def intro: hit)
qed

lemma art_ok_bump:
  "art_ok a \<Longrightarrow> art_list a = us @ e # vs \<Longrightarrow> art_ok (a\<lparr>art_list := e # us @ vs\<rparr>)"
  by (auto simp: art_ok_def)

subsection \<open>Eviction\<close>

lemma scan_victim_append:
  "scan_victim pin i v (xs @ ys) = scan_victim pin (i + length xs) (scan_victim pin i v xs) ys"
  by (induction pin i v xs rule: scan_victim.induct) auto

lemma scan_victim_pinned: "\<forall>e\<in>set es. ae_path e = pin \<Longrightarrow> scan_victim pin i v es = v"
  by (induction pin i v es rule: scan_victim.induct) auto

lemma evict_cases:
  obtains (fits) "bytes \<le> budget" "evict budget pin (h # t) bytes = (h # t, bytes)"
  | (stuck) "budget < bytes" "\<forall>e\<in>set t. ae_path e = pin" "evict budget pin (h # t) bytes = (h # t, bytes)"
  | (victim) us v ps where "budget < bytes" "t = us @ v # ps" "ae_path v \<noteq> pin"
      "\<forall>e\<in>set ps. ae_path e = pin"
      "evict budget pin (h # t) bytes = evict budget pin (h # us @ ps) (bytes - ae_bytes v)"
proof (cases "bytes \<le> budget")
  case True
  then show ?thesis using fits by simp
next
  case over: False
  show ?thesis
  proof (cases "\<forall>e\<in>set t. ae_path e = pin")
    case True
    then show ?thesis using over stuck by (simp add: scan_victim_pinned)
  next
    case False
    then obtain us v ps where t: "t = us @ v # ps" "ae_path v \<noteq> pin" "\<forall>e\<in>set ps. ae_path e = pin"
      using split_list_last_prop [of t "\<lambda>e. ae_path e \<noteq> pin"] by auto
    then have "scan_victim pin 1 None t = Some (Suc (length us))"
      by (simp add: scan_victim_append scan_victim_pinned)
    then have "evict budget pin (h # t) bytes = evict budget pin (h # us @ ps) (bytes - ae_bytes v)"
      using over by (subst evict.simps) (simp add: t(1) remove_at_def nth_append)
    with over t victim show ?thesis by auto
  qed
qed

declare evict.simps [simp del]

text \<open>What eviction keeps.\<close>

lemma evict_keeps:
  assumes "evict budget pin (h # t) bytes = (es, n)" "bytes = sum_list (map ae_bytes (h # t))"
    and "distinct (map ae_path (h # t))"
  shows "n = sum_list (map ae_bytes es) \<and> distinct (map ae_path es) \<and> set es \<subseteq> set (h # t)
    \<and> (n \<le> budget \<or> length es \<le> 2) \<and> h \<in> set es \<and> (\<forall>e\<in>set t. ae_path e = pin \<longrightarrow> e \<in> set es)"
  using assms
proof (induction "length t" arbitrary: t bytes rule: less_induct)
  case less
  show ?case
  proof (cases rule: evict_cases [of bytes budget pin h t])
    case fits
    with less.prems show ?thesis by auto
  next
    case stuck
    have "length t \<le> 1"
    proof (rule ccontr)
      assume "\<not> length t \<le> 1"
      then obtain x y zs where "t = x # y # zs" by (cases t; cases "tl t") auto
      with stuck(2) less.prems(3) show False by auto
    qed
    with stuck less.prems show ?thesis by auto
  next
    case (victim us v ps)
    have "length (us @ ps) < length t" using victim(2) by simp
    moreover have "evict budget pin (h # us @ ps) (bytes - ae_bytes v) = (es, n)"
      using victim(5) less.prems(1) by simp
    moreover have "bytes - ae_bytes v = sum_list (map ae_bytes (h # us @ ps))"
      using less.prems(2) victim(2) by simp
    moreover have "distinct (map ae_path (h # us @ ps))"
      using less.prems(3) victim(2) by auto
    ultimately have IH: "n = sum_list (map ae_bytes es) \<and> distinct (map ae_path es) \<and> set es \<subseteq> set (h # us @ ps)
      \<and> (n \<le> budget \<or> length es \<le> 2) \<and> h \<in> set es \<and> (\<forall>e\<in>set (us @ ps). ae_path e = pin \<longrightarrow> e \<in> set es)"
      by (rule less.hyps)
    then show ?thesis using victim(2,3) by auto
  qed
qed

lemma artInsert_keeps:
  assumes "art_ok a" "c_trunc MAX_PATH path \<notin> ae_path ` set (art_list a)"
  shows "art_ok (Lodor_artInsert ok surf path a)"
    and "e \<in> set (art_list a) \<Longrightarrow> ae_path e = art_pin a \<Longrightarrow> e \<in> set (art_list (Lodor_artInsert ok surf path a))"
    and "art_pin (Lodor_artInsert ok surf path a) = art_pin a"
proof -
  let ?e = "\<lparr>ae_surf = surf, ae_bytes = surf_h surf * surf_pitch surf, ae_path = c_trunc MAX_PATH path\<rparr>"
  obtain es n where e: "evict (art_budget a) (art_pin a) (?e # art_list a) (art_bytes a + ae_bytes ?e) = (es, n)"
    by (metis surj_pair)
  have keeps: "n = sum_list (map ae_bytes es) \<and> distinct (map ae_path es) \<and> set es \<subseteq> set (?e # art_list a)
      \<and> (n \<le> art_budget a \<or> length es \<le> 2) \<and> ?e \<in> set es
      \<and> (\<forall>e\<in>set (art_list a). ae_path e = art_pin a \<longrightarrow> e \<in> set es)"
    using assms by (intro evict_keeps [OF e]) (auto simp: art_ok_def)
  then show "art_ok (Lodor_artInsert ok surf path a)" using assms(1) e by (auto simp: Lodor_artInsert_def art_ok_def)
  show "e \<in> set (art_list a) \<Longrightarrow> ae_path e = art_pin a \<Longrightarrow> e \<in> set (art_list (Lodor_artInsert ok surf path a))"
    using keeps e by (auto simp: Lodor_artInsert_def)
  show "art_pin (Lodor_artInsert ok surf path a) = art_pin a"
    using e by (simp add: Lodor_artInsert_def)
qed

subsection \<open>Every step\<close>

definition reqs_short :: "art_req list \<Rightarrow> bool" where
  "reqs_short qs \<longleftrightarrow> (\<forall>r\<in>set qs. length (rq_path r) < MAX_PATH)"

lemma reqs_short_update [simp]:
  "reqs_short qs \<Longrightarrow> length (rq_path q) < MAX_PATH \<Longrightarrow> reqs_short (qs[i := q])"
  using set_update_subset_insert [of qs i q] by (auto simp: reqs_short_def)

definition sys_ok :: "art \<times> art_req option \<Rightarrow> bool" where
  "sys_ok s \<longleftrightarrow> art_ok (fst s) \<and> reqs_short (art_queue (fst s))
     \<and> (case snd s of None \<Rightarrow> True | Some r \<Rightarrow> length (rq_path r) < MAX_PATH)"

text \<open>Cached surfaces that a step may not lose: those under the pinned path.\<close>

definition pins_kept :: "art \<Rightarrow> art \<Rightarrow> bool" where
  "pins_kept a b \<longleftrightarrow> (\<forall>e\<in>set (art_list a). ae_path e = art_pin a \<longrightarrow> e \<in> set (art_list b))"

lemma pins_kept_same [simp]: "art_list b = art_list a \<Longrightarrow> pins_kept a b"
  by (simp add: pins_kept_def)

lemma c_trunc_path [simp]: "length (c_trunc MAX_PATH path) < MAX_PATH"
  by (simp add: c_trunc_def MAX_PATH_def)

lemma c_trunc_short: "length path < MAX_PATH \<Longrightarrow> c_trunc MAX_PATH path = path"
  by (simp add: c_trunc_def MAX_PATH_def)

lemma art_ok_frame:
  "art_ok (a\<lparr>art_pin := p\<rparr>) = art_ok a" "art_ok (a\<lparr>art_ready := r\<rparr>) = art_ok a"
  "art_ok (a\<lparr>art_seq := q\<rparr>) = art_ok a"
  "length qs = length (art_queue a) \<Longrightarrow> art_ok (a\<lparr>art_queue := qs\<rparr>) = art_ok a"
  by (simp_all add: art_ok_def)

lemma request_step:
  assumes "sys_ok (a, f)"
  shows "sys_ok (snd (Lodor_artRequest path w h g a), f) \<and> pins_kept a (snd (Lodor_artRequest path w h g a))"
proof (cases rule: artFind_cases [of a path])
  case (hit e us vs)
  then show ?thesis using assms art_ok_bump [of a us e vs]
    by (auto simp: Lodor_artRequest_def sys_ok_def art_ok_frame pins_kept_def)
next
  case miss
  with assms show ?thesis
    by (auto simp: Lodor_artRequest_def sys_ok_def art_ok_frame)
qed

lemma prefetch_step:
  assumes "sys_ok (a, f)"
  shows "sys_ok (Lodor_artPrefetch path w h g a, f) \<and> pins_kept a (Lodor_artPrefetch path w h g a)"
proof (cases rule: artFind_cases [of a path])
  case (hit e us vs)
  then show ?thesis using assms art_ok_bump [of a us e vs]
    by (auto simp: Lodor_artPrefetch_def sys_ok_def pins_kept_def)
next
  case miss
  with assms show ?thesis
    by (auto simp: Lodor_artPrefetch_def sys_ok_def art_ok_frame split: option.split)
qed

lemma take_step:
  assumes "sys_ok (a, None)" "worker_take a = (Some r, b)"
  shows "sys_ok (b, Some r) \<and> pins_kept a b \<and> art_pin b = art_pin a"
proof -
  obtain i where i: "find (\<lambda>i. rq_path (art_queue a ! i) \<noteq> []) [0..<LODOR_ART_QUEUE] = Some i"
    "r = art_queue a ! i" "b = a\<lparr>art_queue := (art_queue a)[i := r\<lparr>rq_path := []\<rparr>]\<rparr>"
    using assms(2) by (auto simp: worker_take_def split: option.splits)
  have "i < length (art_queue a)" using i(1) assms(1) by (auto simp: find_Some_iff sys_ok_def art_ok_def)
  then have "length (rq_path r) < MAX_PATH" using assms(1) i(2) by (auto simp: sys_ok_def reqs_short_def)
  then show ?thesis using assms(1) i(3) by (simp add: sys_ok_def art_ok_frame MAX_PATH_def [symmetric])
qed

lemma deliver_step:
  assumes "sys_ok (a, Some r)"
  shows "sys_ok (worker_deliver S ok r img a, None) \<and> pins_kept a (worker_deliver S ok r img a)"
proof -
  have inv: "art_ok a" and len: "length (rq_path r) < MAX_PATH" using assms by (simp_all add: sys_ok_def)
  have queue: "art_queue (Lodor_artInsert ok surf path a) = art_queue a" for surf path
    by (simp add: Lodor_artInsert_def split: prod.split)
  show ?thesis
  proof (cases rule: artFind_cases [of a "rq_path r"])
    case (hit e us vs)
    then show ?thesis using assms art_ok_bump [of a us e vs]
      by (auto simp: worker_deliver_def sys_ok_def pins_kept_def Let_def split: option.split)
  next
    case miss
    then have new: "c_trunc MAX_PATH (rq_path r) \<notin> ae_path ` set (art_list a)"
      by (simp add: c_trunc_short [OF len])
    show ?thesis
      using miss assms artInsert_keeps [OF inv new, where ok = ok]
      by (auto simp: worker_deliver_def sys_ok_def pins_kept_def Let_def queue art_ok_frame split: option.split)
  qed
qed

lemma art_next_ok: "art_next s t \<Longrightarrow> sys_ok s \<Longrightarrow> sys_ok t \<and> pins_kept (fst s) (fst t)"
proof (induction rule: art_next.induct)
  case (poll a f)
  then show ?case by (simp add: Lodor_artPollReady_def sys_ok_def art_ok_frame)
qed (simp_all add: request_step prefetch_step take_step deliver_step)

lemma reachable_sys_ok: "art_reachable name s \<Longrightarrow> sys_ok s"
proof (induction rule: art_reachable.induct)
  case art_start
  show ?case by (simp add: sys_ok_def art_ok_def Lodor_artInit_def empty_req_def MAX_PATH_def LODOR_ART_QUEUE_def reqs_short_def)
qed (simp add: art_next_ok)

lemma prefetch_pin: "art_pin (Lodor_artPrefetch path w h g a) = art_pin a"
  by (cases rule: artFind_cases [of a path]) (auto simp: Lodor_artPrefetch_def split: option.split)

text \<open>Steps that leave the pin alone: everything but a request that hits another picture.\<close>

definition pinned_step :: "art \<times> art_req option \<Rightarrow> art \<times> art_req option \<Rightarrow> bool" where
  "pinned_step s t \<longleftrightarrow> art_next s t \<and> art_pin (fst t) = art_pin (fst s)"

lemma pinned_steps:
  assumes "pinned_step\<^sup>*\<^sup>* s t" "sys_ok s" "e \<in> set (art_list (fst s))" "ae_path e = art_pin (fst s)"
  shows "sys_ok t \<and> art_pin (fst t) = art_pin (fst s) \<and> e \<in> set (art_list (fst t))"
  using assms
proof (induction rule: rtranclp_induct)
  case (step t u)
  then have "sys_ok t" "art_pin (fst t) = art_pin (fst s)" "e \<in> set (art_list (fst t))" by simp_all
  moreover have "sys_ok u" "pins_kept (fst t) (fst u)" "art_pin (fst u) = art_pin (fst t)"
    using art_next_ok [of t u] step(2) calculation(1) by (auto simp: pinned_step_def)
  ultimately show ?case using step.prems(3) by (simp add: pins_kept_def)
qed simp

section \<open>Eviction as one pass\<close>

text \<open>
  Reference: walk the list once from its least recently used end, dropping what is not pinned
  for as long as the bytes used are over the budget.
\<close>

fun shed :: "nat \<Rightarrow> string \<Rightarrow> nat \<Rightarrow> art_entry list \<Rightarrow> art_entry list" where
  "shed budget pin used [] = []"
| "shed budget pin used (e # es) =
    (if used \<le> budget then e # es
     else if ae_path e = pin then e # shed budget pin used es
     else shed budget pin (used - ae_bytes e) es)"

lemma shed_fits: "used \<le> budget \<Longrightarrow> shed budget pin used es = es"
  by (cases es) simp_all

lemma shed_pinned:
  "\<forall>e\<in>set ps. ae_path e = pin \<Longrightarrow> shed budget pin used (ps @ es)
    = (if used \<le> budget then ps @ es else ps @ shed budget pin used es)"
  by (induction ps) (auto simp: shed_fits)

lemma evict_shed: "fst (evict budget pin (h # t) bytes) = h # rev (shed budget pin bytes (rev t))"
proof (induction "length t" arbitrary: t bytes rule: less_induct)
  case less
  show ?case
  proof (cases rule: evict_cases [of bytes budget pin h t])
    case fits
    then show ?thesis by (simp add: shed_fits)
  next
    case stuck
    then show ?thesis using shed_pinned [of "rev t" pin budget bytes "[]"] by simp
  next
    case (victim us v ps)
    have "fst (evict budget pin (h # us @ ps) (bytes - ae_bytes v))
        = h # rev (shed budget pin (bytes - ae_bytes v) (rev (us @ ps)))"
      using victim(2) by (intro less.hyps) simp
    moreover have "shed budget pin bytes (rev t) = shed budget pin (bytes - ae_bytes v) (rev (us @ ps))"
      using victim shed_pinned [of "rev ps" pin budget bytes "v # rev us"]
        shed_pinned [of "rev ps" pin budget "bytes - ae_bytes v" "rev us"]
      by (simp add: shed_fits)
    ultimately show ?thesis using victim(5) by simp
  qed
qed

section \<open>Fitting a picture\<close>

lemma less_div_mult: "(a::nat) < b div c \<Longrightarrow> 0 < c \<Longrightarrow> a * c < b"
  by (metis div_le_mono leD le_less_linear nonzero_mult_div_cancel_right not_less0)

lemma div_le_of_mult: "(a::nat) \<le> b * c \<Longrightarrow> a div c \<le> b"
  by (cases "c = 0") (auto dest: div_le_mono [where k = c])

lemma scaled_axis:
  fixes w h mw mh :: nat
  assumes "0 < w" "0 < h" "mw < w \<or> mh < h" "w \<noteq> 0 \<Longrightarrow> \<not> mh < h * mw div w"
  shows "h * mw div w \<le> mh" "mw \<le> w"
proof -
  show "h * mw div w \<le> mh" using assms(1,4) by simp
  show "mw \<le> w"
  proof (rule ccontr)
    assume "\<not> mw \<le> w"
    then have "h * w div w \<le> h * mw div w" by (intro div_le_mono mult_le_mono2) simp
    with assms show False using \<open>\<not> mw \<le> w\<close> by simp
  qed
qed

lemma fit_size_spec:
  assumes "fit_size w h max_w max_h grow = Some (tw, th)"
  shows "0 < w \<and> 0 < h \<and> 0 < tw \<and> tw \<le> max_w \<and> 0 < th \<and> th \<le> max_h
    \<and> ((tw \<le> w \<and> th \<le> h) \<or> (\<exists>k. 2 \<le> k \<and> k \<le> 6 \<and> tw = w * k \<and> th = h * k))"
proof -
  from assms have pos: "0 < w" "0 < h" "0 < max_w" "0 < max_h"
    by (auto simp: fit_size_def split: if_splits)
  show ?thesis
  proof (cases "max_w < w \<or> max_h < h")
    case True
    show ?thesis
    proof (cases "max_h < h * max_w div w")
      case high: True
      from assms pos True high have t: "tw = max 1 (w * max_h div h)" "th = max 1 max_h"
        by (auto simp: fit_size_def Let_def)
      have "max_h * w < h * max_w"
        using less_div_mult [OF high pos(1)] by simp
      then have "w * max_h div h \<le> max_w" by (intro div_le_of_mult) (simp add: mult.commute)
      moreover have "max_h < h"
      proof (rule ccontr)
        assume "\<not> max_h < h"
        with True have "h * max_w div w \<le> h * w div w" by (intro div_le_mono mult_le_mono2) simp
        with high pos(1) \<open>\<not> max_h < h\<close> show False by simp
      qed
      moreover have "w * max_h div h \<le> w"
        using calculation(2) by (intro div_le_of_mult) (simp add: mult.commute)
      ultimately show ?thesis using t pos by auto
    next
      case low: False
      from assms pos True low have t: "tw = max 1 max_w" "th = max 1 (h * max_w div w)"
        by (auto simp: fit_size_def Let_def)
      have "h * max_w div w \<le> max_h" "max_w \<le> w" using scaled_axis [OF pos(1,2) True] low by auto
      moreover have "h * max_w div w \<le> h"
        using calculation(2) by (intro div_le_of_mult) simp
      ultimately show ?thesis using t pos by auto
    qed
  next
    case False
    let ?k = "min (min (max_w div w) (max_h div h)) 6"
    from assms pos False have k: "2 \<le> ?k" "tw = w * ?k" "th = h * ?k"
      by (auto simp: fit_size_def Let_def split: if_splits)
    have "w * ?k \<le> w * (max_w div w)" "h * ?k \<le> h * (max_h div h)" by (auto intro: mult_le_mono2)
    moreover have "w * (max_w div w) \<le> max_w" "h * (max_h div h) \<le> max_h" by simp_all
    ultimately have "tw \<le> max_w" "th \<le> max_h" unfolding k(2,3) by linarith+
    moreover have "0 < tw" "0 < th" unfolding k(2,3) using pos k(1) by auto
    moreover have "?k \<le> 6" by simp
    ultimately show ?thesis using pos k by blast
  qed
qed

text \<open>Where the walk reads: pixel x of tw comes from x * (w * 65536 / tw) / 65536, inside the row.\<close>

definition walk_index :: "nat \<Rightarrow> nat \<Rightarrow> nat \<Rightarrow> nat" where
  "walk_index w tw x = x * (w * 65536 div tw) div 65536"

lemma walk_word:
  assumes "w < 2 ^ 16" "x < tw" "tw \<le> w"
  shows "unat (drop_bit 16 (of_nat x * walk_step w tw)) = walk_index w tw x" "walk_index w tw x < w"
proof -
  have le: "x * (w * 65536 div tw) < w * 65536"
  proof -
    have "x * (w * 65536 div tw) < tw * (w * 65536 div tw)" using assms by (simp add: div_greater_zero_iff)
    also have "\<dots> \<le> w * 65536" by simp
    finally show ?thesis .
  qed
  then show "walk_index w tw x < w" by (simp add: walk_index_def less_mult_imp_div_less)
  have w: "unat (of_nat w :: 32 word) = w" "unat (of_nat tw :: 32 word) = tw" "unat (of_nat x :: 32 word) = x"
    using assms by (simp_all add: unat_of_nat)
  have small: "w * 65536 < 2 ^ 32" using assms(1) by simp
  have push: "unat (push_bit 16 (of_nat w) :: 32 word) = w * 65536"
    using small w(1) by (simp add: push_bit_eq_mult unat_word_ariths)
  have step: "unat (walk_step w tw) = w * 65536 div tw"
    by (simp add: walk_step_def unat_div push w(2))
  have "unat (of_nat x * walk_step w tw :: 32 word) = x * (w * 65536 div tw)"
    using le small by (simp add: unat_word_ariths step w(3))
  then show "unat (drop_bit 16 (of_nat x * walk_step w tw)) = walk_index w tw x"
    by (simp only: walk_index_def unat_drop_bit_eq) (simp add: drop_bit_eq_div)
qed

lemma walk_row_at:
  "walk_row n x sx mx srow drow d a
    = (if drow + x \<le> a \<and> a < drow + x + n
       then srow (unat (drop_bit 16 (sx + of_nat (a - drow - x) * mx))) else d a)"
proof (induction n arbitrary: a x sx d)
  case (Suc n)
  show ?case
  proof (cases "a = drow + x")
    case True
    then show ?thesis by (simp add: Suc)
  next
    case False
    have "sx + mx + of_nat (a - drow - (x + 1)) * mx = sx + of_nat (a - drow - x) * mx"
      if "drow + x + 1 \<le> a"
    proof -
      have "a - drow - x = Suc (a - drow - (x + 1))" using that by linarith
      then show ?thesis by (simp only: of_nat_Suc) (simp add: algebra_simps)
    qed
    then have step: "drow + x + 1 \<le> a \<Longrightarrow> sx + mx + of_nat (a - drow - (x + 1)) * mx = sx + of_nat (a - drow - x) * mx"
      by blast
    have eq: "walk_row (Suc n) x sx mx srow drow d a
      = (if drow + (x + 1) \<le> a \<and> a < drow + (x + 1) + n
         then srow (unat (drop_bit 16 (sx + mx + of_nat (a - drow - (x + 1)) * mx)))
         else (d(drow + x := srow (unat (drop_bit 16 sx)))) a)"
      by (simp only: walk_row.simps Suc.IH)
    show ?thesis
    proof (cases "drow + x + 1 \<le> a")
      case True
      show ?thesis unfolding eq step [OF True] using False True by auto
    next
      case less: False
      then show ?thesis unfolding eq using False by simp
    qed
  qed
qed auto

lemma walk_rows_before: "a < y * (dp div 2) \<Longrightarrow> walk_rows n y sy my mx tw sp sq dp d a = d a"
proof (induction n arbitrary: y sy d)
  case (Suc n)
  have "a < (y + 1) * (dp div 2)" using Suc.prems by simp
  from Suc.IH [OF this] Suc.prems show ?case by (simp add: walk_row_at)
qed simp

lemma walk_rows_at:
  assumes "tw \<le> dp div 2" "x < tw" "j < n"
  shows "walk_rows n y sy my mx tw sp sq dp d ((y + j) * (dp div 2) + x)
    = sp (unat (drop_bit 16 (sy + of_nat j * my)) * (sq div 2) + unat (drop_bit 16 (of_nat x * mx)))"
  using assms(3)
proof (induction n arbitrary: y sy d j)
  case (Suc n)
  show ?case
  proof (cases j)
    case 0
    have "y * (dp div 2) + x < (y + 1) * (dp div 2)" using assms(1,2) by simp
    then show ?thesis using 0 assms(2) by (simp add: walk_rows_before walk_row_at)
  next
    case (Suc i)
    with Suc.prems have "i < n" by simp
    from Suc.IH [OF this, of "y + 1"] Suc show ?thesis by (simp add: algebra_simps)
  qed
qed simp

section \<open>Properties\<close>

text \<open>
  C14. No picture the screen is about to draw is freed: once Lodor_artRequest has handed out the
  surface of a path, its entry stays in the cache through every step of the worker and every
  request, prefetch or poll of the UI, until a request hands out another picture.
\<close>

theorem art_no_use_after_free:
  assumes "art_reachable name (a, f)" "length path < MAX_PATH"
    and "Lodor_artRequest path w h g a = (Some surf, b)" "pinned_step\<^sup>*\<^sup>* (b, f) (c, f')"
  shows "\<exists>e\<in>set (art_list c). ae_path e = path \<and> ae_surf e = surf"
proof -
  have ok: "sys_ok (a, f)" by (rule reachable_sys_ok [OF assms(1)])
  then have b: "sys_ok (b, f)" using request_step [OF ok, of path w h g] assms(3) by simp
  show ?thesis
  proof (cases rule: artFind_cases [of a path])
    case (hit e us vs)
    then have e: "e \<in> set (art_list b)" "ae_path e = path" "art_pin b = path" "ae_surf e = surf"
      using assms(2,3) by (auto simp: Lodor_artRequest_def c_trunc_short split: if_splits)
    with pinned_steps [OF assms(4) b, of e] show ?thesis by auto
  next
    case miss
    then show ?thesis using assms(3) by (auto simp: Lodor_artRequest_def Let_def split: if_splits)
  qed
qed

text \<open>
  C15. The cache is bounded: in every reachable state the byte count is the sum over the cached
  pictures, no path is cached twice, at most three requests wait, and the count exceeds the
  budget only if at most two pictures are left.
\<close>

theorem art_cache_bounded:
  assumes "art_reachable name (a, f)"
  shows "art_bytes a = sum_list (map ae_bytes (art_list a)) \<and> distinct (map ae_path (art_list a))
    \<and> length (art_queue a) = 3 \<and> (art_bytes a \<le> art_budget a \<or> length (art_list a) \<le> 2)"
  using reachable_sys_ok [OF assms] by (auto simp: sys_ok_def art_ok_def LODOR_ART_QUEUE_def)

text \<open>
  Eviction is least recently used: the repeated search for a victim gives what one pass
  from the old end of the list gives, which drops the unpinned pictures one after the other for
  as long as the total is over the budget, and never the new one.
\<close>

theorem artInsert_evicts_lru:
  "art_list (Lodor_artInsert True surf path a) =
    (let e = \<lparr>ae_surf = surf, ae_bytes = surf_h surf * surf_pitch surf, ae_path = c_trunc MAX_PATH path\<rparr>
     in e # rev (shed (art_budget a) (art_pin a) (art_bytes a + ae_bytes e) (rev (art_list a))))"
  using evict_shed [of "art_budget a" "art_pin a"]
  by (auto simp: Lodor_artInsert_def Let_def split: prod.split) (metis fst_conv)

text \<open>
  C16. A fitted picture fits its slot and is made of pixels of the original: every pixel of the
  result comes from inside the source, for the integer upscale and the fixed point downscale
  alike (pictures below 65536 pixels a side, surfaces with an even pitch of at least a row).
\<close>

theorem artFit_reads_inside:
  assumes "surf_w img < 2 ^ 16" "surf_h img < 2 ^ 16" "alloc_ok S"
    and "\<forall>n. even (pitch_for S n) \<and> 2 * n \<le> pitch_for S n"
    and "fit_size (surf_w img) (surf_h img) max_w max_h grow = Some (tw, th)"
    and "f = Lodor_artFit S img max_w max_h grow" "x < tw" "y < th"
  shows "surf_w f = tw \<and> surf_h f = th \<and> tw \<le> max_w \<and> th \<le> max_h
    \<and> (\<exists>sx < surf_w img. \<exists>sy < surf_h img. pixels f (y * (surf_pitch f div 2) + x)
        = blit_565 S img (sy * (pitch_for S (surf_w img) div 2) + sx))"
proof -
  note fit = fit_size_spec [OF assms(5)]
  let ?w = "surf_w img" and ?h = "surf_h img"
  let ?sp = "pitch_for S ?w" and ?dp = "pitch_for S tw"
  have size: "surf_w f = tw" "surf_h f = th" "surf_pitch f = ?dp"
    using assms(3,5,6) by (simp_all add: Lodor_artFit_def Let_def)
  have tw: "tw \<le> ?dp div 2" using spec [OF assms(4), of tw] by linarith
  have "\<exists>sx < ?w. \<exists>sy < ?h. pixels f (y * (?dp div 2) + x) = blit_565 S img (sy * (?sp div 2) + sx)"
  proof (cases "?w < tw")
    case True
    then obtain k where k: "2 \<le> k" "k \<le> 6" "tw = ?w * k" "th = ?h * k" using fit by auto
    have ok: "pitch_ok 2 (k * ?w) ?dp" using spec [OF assms(4), of tw] k(3) by (simp add: pitch_ok_def mult.commute)
    have pos: "?sp \<noteq> 0" "?dp \<noteq> 0" using spec [OF assms(4), of tw] spec [OF assms(4), of ?w] fit by auto
    have sup: "scale_supported k k" using k(1,2) by (auto simp: scale_supported_def)
    have "pixels f = upscaled k k (blit_565 S img) (\<lambda>_. 0) ?w ?h (?sp div 2) (?dp div 2)"
      using True assms(3,5,6) fit k(3,4) pos sup scaler_c16_replicates [OF ok, of k "blit_565 S img" "\<lambda>_. 0" ?h ?sp]
      by (simp add: Lodor_artFit_def Let_def pitch_px_def)
    moreover have "x div k < ?w" "y div k < ?h"
      using assms(7,8) k(3,4) by (simp_all add: less_mult_imp_div_less)
    moreover have "(y * (?dp div 2) + x) mod (?dp div 2) = x" "(y * (?dp div 2) + x) div (?dp div 2) = y"
      using tw assms(7) by simp_all
    ultimately show ?thesis using assms(7,8) k(3,4)
      by (intro exI [of _ "x div k"] conjI exI [of _ "y div k"]) (simp_all add: upscaled_def mult.commute)
  next
    case False
    then have le: "tw \<le> ?w" "th \<le> ?h"
      using fit by (auto dest: order_trans) 
    have "pixels f (y * (?dp div 2) + x) = blit_565 S img
        (walk_index ?h th y * (?sp div 2) + walk_index ?w tw x)"
      using False assms(3,5,6) walk_rows_at [OF tw assms(7,8), of 0 0 "walk_step ?h th" "walk_step ?w tw"]
        walk_word [OF assms(1,7) le(1)] walk_word [OF assms(2,8) le(2)]
      by (simp add: Lodor_artFit_def Let_def)
    then show ?thesis using walk_word(2) [OF assms(1,7) le(1)] walk_word(2) [OF assms(2,8) le(2)] by blast
  qed
  with size fit show ?thesis by simp
qed

text \<open>A small run: a picture is decoded, handed out, and stays when the next one arrives.\<close>

definition demo_sdl :: sdl where
  "demo_sdl = \<lparr>alloc_ok = True, pitch_for = (\<lambda>n. 2 * n), blit_565 = pixels\<rparr>"

definition demo_pic :: surface where
  "demo_pic = \<lparr>surf_w = 4, surf_h = 2, surf_pitch = 8, pixels = of_nat\<rparr>"

definition demo_req :: art_req where
  "demo_req = \<lparr>rq_path = ''a'', rq_max_w = 8, rq_max_h = 8, rq_grow = False, rq_seq = 1\<rparr>"

definition demo_art :: art where
  "demo_art = \<lparr>art_list = [\<lparr>ae_surf = demo_pic, ae_bytes = 16, ae_path = ''a''\<rparr>], art_bytes = 16,
     art_budget = 4 * 1024 * 1024, art_queue = [demo_req\<lparr>rq_path := []\<rparr>, empty_req, empty_req],
     art_seq = 1, art_pin = [], art_ready = True\<rparr>"

lemma demo_request: "Lodor_artRequest ''a'' 8 8 False (Lodor_artInit ''miyoomini'')
  = (None, demo_art\<lparr>art_list := [], art_bytes := 0, art_queue := [demo_req, empty_req, empty_req], art_ready := False\<rparr>)"
  by (simp add: Lodor_artRequest_def Lodor_artFind_def Lodor_artInit_def demo_req_def demo_art_def empty_req_def
      c_trunc_def MAX_PATH_def LODOR_ART_QUEUE_def numeral_3_eq_3)

lemma demo_take: "worker_take (demo_art\<lparr>art_list := [], art_bytes := 0, art_queue := [demo_req, empty_req, empty_req], art_ready := False\<rparr>)
  = (Some demo_req, demo_art\<lparr>art_list := [], art_bytes := 0, art_ready := False\<rparr>)"
  by (simp add: worker_take_def demo_art_def demo_req_def LODOR_ART_QUEUE_def upt_rec)

lemma demo_deliver: "worker_deliver demo_sdl True demo_req (Some demo_pic)
    (demo_art\<lparr>art_list := [], art_bytes := 0, art_ready := False\<rparr>) = demo_art"
  by (simp add: worker_deliver_def Lodor_artFind_def Lodor_artInsert_def Lodor_artFit_def fit_size_def demo_req_def
      demo_pic_def demo_art_def evict.simps c_trunc_def MAX_PATH_def)

lemma demo_reachable: "art_reachable ''miyoomini'' (demo_art, None)"
proof -
  have "art_reachable ''miyoomini'' (snd (Lodor_artRequest ''a'' 8 8 False (Lodor_artInit ''miyoomini'')), None)"
    by (rule art_step [OF art_start request])
  then have "art_reachable ''miyoomini'' (demo_art\<lparr>art_list := [], art_bytes := 0, art_ready := False\<rparr>, Some demo_req)"
    unfolding demo_request snd_conv by (rule art_step) (rule worker_takes [OF demo_take])
  then have "art_reachable ''miyoomini'' (worker_deliver demo_sdl True demo_req (Some demo_pic)
      (demo_art\<lparr>art_list := [], art_bytes := 0, art_ready := False\<rparr>), None)"
    by (rule art_step) (rule worker_delivers)
  then show ?thesis unfolding demo_deliver .
qed

lemma demo_list: "art_list demo_art = [\<lparr>ae_surf = demo_pic, ae_bytes = 16, ae_path = ''a''\<rparr>]"
  by (simp add: demo_art_def)

theorem art_no_use_after_free_witness:
  "\<exists>e\<in>set (art_list (Lodor_artPrefetch ''b'' 8 8 False (snd (Lodor_artRequest ''a'' 8 8 False demo_art)))).
     ae_path e = ''a'' \<and> ae_surf e = demo_pic"
proof (rule art_no_use_after_free [OF demo_reachable])
  show "Lodor_artRequest ''a'' 8 8 False demo_art = (Some demo_pic, snd (Lodor_artRequest ''a'' 8 8 False demo_art))"
    by (simp add: Lodor_artRequest_def Lodor_artFind_def demo_list)
  show "pinned_step\<^sup>*\<^sup>* (snd (Lodor_artRequest ''a'' 8 8 False demo_art), None)
     (Lodor_artPrefetch ''b'' 8 8 False (snd (Lodor_artRequest ''a'' 8 8 False demo_art)), None)"
    by (rule r_into_rtranclp) (simp add: pinned_step_def prefetch_pin prefetch)
qed (simp add: MAX_PATH_def)

theorem art_cache_bounded_witness: "art_bytes demo_art = 16"
  using art_cache_bounded [OF demo_reachable] demo_list by simp

theorem artFit_reads_inside_witness:
  "\<exists>sx < 4. \<exists>sy < 2. pixels (Lodor_artFit demo_sdl demo_pic 2 2 False) 1 = of_nat (sy * 4 + sx)"
  using artFit_reads_inside [of demo_pic demo_sdl 2 2 False 2 1 _ 1 0, OF _ _ _ _ _ refl]
  by (simp add: demo_sdl_def demo_pic_def fit_size_def Lodor_artFit_def Let_def)

text \<open>
  Asking again for a picture that is being decoded bumps the sequence number, so the decode under
  way is dropped as stale when it arrives and the picture is queued to be decoded once more.
\<close>

theorem repeat_request_drops_decode:
  "let a = snd (Lodor_artRequest ''a'' 8 8 False (demo_art\<lparr>art_list := [], art_bytes := 0, art_ready := False\<rparr>))
   in worker_deliver demo_sdl True demo_req (Some demo_pic) a = a \<and> art_list a = []
      \<and> rq_path (art_queue a ! 0) = ''a''"
  by (simp add: Let_def worker_deliver_def Lodor_artRequest_def Lodor_artFind_def demo_art_def demo_req_def
      c_trunc_def MAX_PATH_def)

text \<open>Where covers live: beside the game, under the game's name without its extension.\<close>

lemma mediaPath_cover:
  assumes "d @ ''/'' @ name @ ''.'' @ ext = rompath" "CHR ''/'' \<notin> set name" "CHR ''/'' \<notin> set ext"
    and "CHR ''.'' \<notin> set ext" "name \<noteq> []" "length rompath + 11 < MAX_PATH"
  shows "Lodor_mediaPath rompath MAX_PATH = Some (d @ ''/.media/'' @ name @ ''.png'')"
proof -
  have "c_trunc MAX_PATH rompath = d @ CHR ''/'' # (name @ CHR ''.'' # ext)"
    using assms(1,6) by (auto simp: c_trunc_def)
  moreover have "strrchr (d @ CHR ''/'' # (name @ CHR ''.'' # ext)) (CHR ''/'') = Some (length d)"
    using assms(2,3) by (simp add: strrchr_append strrchr_absent)
  moreover have "strrchr (name @ CHR ''.'' # ext) (CHR ''.'') = Some (length name)"
    using assms(4) by (simp add: strrchr_append strrchr_absent)
  ultimately show ?thesis
    using assms(1,5,6) by (auto simp: Lodor_mediaPath_def Let_def)
qed

end
