(* ===== verification/Options.thy ===== *)
theory Options
  imports Utils
begin

text \<open>
  The options of the emulator player (minarch.c, Option_* and OptionList_*): a list of options,
  each with a current value that is an index into its list of values. The frontend's options are
  a static table; a core reports its own with option definitions or with the older variables.

  \<open>ol_options\<close> is the pointer to the options: None once OptionList_reset has freed them. The desc
  and full texts, which only the menu shows, are left out, and so are the labels' own copies.
  None as a result is undefined behaviour of the C code.
\<close>

section \<open>Options\<close>

record opt =
  opt_key :: string
  opt_name :: "string option"
  opt_default :: nat
  opt_value :: nat
  opt_count :: nat
  opt_lock :: bool
  opt_values :: "string list"
  opt_labels :: "string list"

record opt_list =
  ol_count :: nat
  ol_changed :: bool
  ol_options :: "opt list option"

definition Option_getValueIndex :: "opt \<Rightarrow> string option \<Rightarrow> nat option" where
  "Option_getValueIndex item v =
    (case v of
       None \<Rightarrow> Some 0
     | Some s \<Rightarrow> do {
         c_ok (opt_count item \<le> length (opt_values item));
         Some (case find (\<lambda>i. opt_values item ! i = s) [0..<opt_count item] of None \<Rightarrow> 0 | Some i \<Rightarrow> i)
       })"

definition Option_setValue :: "opt \<Rightarrow> string option \<Rightarrow> opt option" where
  "Option_setValue item v = do { i \<leftarrow> Option_getValueIndex item v; Some (item\<lparr>opt_value := i\<rparr>) }"

definition option_key_name :: "(string \<times> string) list" where
  "option_key_name = [(''pcsx_rearmed_analog_combo'', ''DualShock Toggle Combo'')]"

definition getOptionNameFromKey :: "string \<Rightarrow> string \<Rightarrow> string" where
  "getOptionNameFromKey key nm = (case map_of option_key_name key of None \<Rightarrow> nm | Some renamed \<Rightarrow> renamed)"

section \<open>Lists of options\<close>

text \<open>The position of an option, None when the list does not have it.\<close>

definition OptionList_getOption :: "opt_list \<Rightarrow> string \<Rightarrow> nat option option" where
  "OptionList_getOption l key =
    (if ol_count l = 0 then Some None
     else case ol_options l of
       None \<Rightarrow> None
     | Some os \<Rightarrow> do {
         c_ok (ol_count l \<le> length os);
         Some (find (\<lambda>i. opt_key (os ! i) = key) [0..<ol_count l])
       })"

text \<open>The array of values ends with a null pointer.\<close>

definition OptionList_getOptionValue :: "opt_list \<Rightarrow> string \<Rightarrow> string option option" where
  "OptionList_getOptionValue l key = do {
     found \<leftarrow> OptionList_getOption l key;
     case found of
       None \<Rightarrow> Some None
     | Some i \<Rightarrow> do {
         os \<leftarrow> ol_options l;
         let item = os ! i;
         c_ok (opt_value item \<le> length (opt_values item));
         Some (if opt_value item = length (opt_values item) then None else Some (opt_values item ! opt_value item))
       }
   }"

text \<open>
  Both setters mark the list as changed; on a Game Boy core a palette option also schedules a
  refresh of the effect colour, in the given number of frames (0 for none).
\<close>

definition palette_frames :: "string \<Rightarrow> string \<Rightarrow> nat \<Rightarrow> nat" where
  "palette_frames core_tag key frames =
    (if core_tag = ''GB'' \<and> containsString key ''palette'' then frames else 0)"

definition OptionList_setOptionRawValue ::
  "string \<Rightarrow> opt_list \<Rightarrow> string \<Rightarrow> nat \<Rightarrow> (opt_list \<times> nat) option" where
  "OptionList_setOptionRawValue core_tag l key v = do {
     found \<leftarrow> OptionList_getOption l key;
     case found of
       None \<Rightarrow> Some (l, 0)
     | Some i \<Rightarrow> do {
         os \<leftarrow> ol_options l;
         Some (l\<lparr>ol_options := Some (os[i := (os ! i)\<lparr>opt_value := v\<rparr>]), ol_changed := True\<rparr>,
               palette_frames core_tag (opt_key (os ! i)) 3)
       }
   }"

definition OptionList_setOptionValue ::
  "string \<Rightarrow> opt_list \<Rightarrow> string \<Rightarrow> string option \<Rightarrow> (opt_list \<times> nat) option" where
  "OptionList_setOptionValue core_tag l key v = do {
     found \<leftarrow> OptionList_getOption l key;
     case found of
       None \<Rightarrow> Some (l, 0)
     | Some i \<Rightarrow> do {
         os \<leftarrow> ol_options l;
         item \<leftarrow> Option_setValue (os ! i) v;
         Some (l\<lparr>ol_options := Some (os[i := item]), ol_changed := True\<rparr>,
               palette_frames core_tag (opt_key (os ! i)) 2)
       }
   }"

definition OptionList_reset :: "opt_list \<Rightarrow> opt_list" where
  "OptionList_reset l = (if ol_count l = 0 then l else l\<lparr>ol_options := None\<rparr>)"

section \<open>What a core reports\<close>

record core_option_definition =
  def_key :: string
  def_desc :: string
  def_values :: "(string \<times> string option) list"
  def_default :: "string option"

text \<open>
  The name is copied into a buffer of the length of the description, also when it is replaced
  by a name of our own.
\<close>

definition option_of_definition :: "core_option_definition \<Rightarrow> opt option" where
  "option_of_definition d = do {
     nm \<leftarrow> c_buf (length (def_desc d) + 1) (getOptionNameFromKey (def_key d) (def_desc d));
     let item = \<lparr>opt_key = def_key d, opt_name = Some nm, opt_default = 0, opt_value = 0,
       opt_count = length (def_values d), opt_lock = False, opt_values = map fst (def_values d),
       opt_labels = map (\<lambda>(v, label). case label of None \<Rightarrow> v | Some s \<Rightarrow> s) (def_values d)\<rparr>;
     i \<leftarrow> Option_getValueIndex item (def_default d);
     Some (item\<lparr>opt_value := i, opt_default := i\<rparr>)
   }"

definition OptionList_init :: "core_option_definition list \<Rightarrow> opt_list \<Rightarrow> opt_list option" where
  "OptionList_init defs l =
    (if defs = [] then Some (l\<lparr>ol_count := 0\<rparr>)
     else do {
       os \<leftarrow> those (map option_of_definition defs);
       Some (l\<lparr>ol_count := length defs, ol_options := Some os\<rparr>)
     })"

text \<open>The values of a variable: the pieces between the bars.\<close>

fun split_bars :: "string \<Rightarrow> string \<Rightarrow> string list" where
  "split_bars piece [] = [piece]"
| "split_bars piece (c # cs) =
    (if c = CHR ''|'' then piece # split_bars [] cs else split_bars (piece @ [c]) cs)"

text \<open>
  A variable is "Name; value|value|...". Without a semicolon the code searches from a null
  pointer; with one that no blank follows, the search starts at the semicolon and there is no name.
\<close>

definition option_of_variable :: "string \<times> string \<Rightarrow> opt option" where
  "option_of_variable var = do {
     let (key, text) = var;
     i \<leftarrow> strchr text (CHR '';'');
     let (nm, vs) = (if take 1 (drop (i + 1) text) = '' '' then (Some (take i text), drop (i + 2) text)
                     else (None, drop i text));
     let values = split_bars [] vs;
     Some \<lparr>opt_key = key, opt_name = nm, opt_default = 0, opt_value = 0, opt_count = length values,
       opt_lock = False, opt_values = values, opt_labels = values\<rparr>
   }"

definition OptionList_vars :: "(string \<times> string) list \<Rightarrow> opt_list \<Rightarrow> opt_list option" where
  "OptionList_vars vars l =
    (if vars = [] then Some (l\<lparr>ol_count := 0\<rparr>)
     else do {
       os \<leftarrow> those (map option_of_variable vars);
       Some (l\<lparr>ol_count := length vars, ol_options := Some os\<rparr>)
     })"

section \<open>Well-formed lists\<close>

definition opt_ok :: "opt \<Rightarrow> bool" where
  "opt_ok item \<longleftrightarrow> opt_count item = length (opt_values item) \<and> length (opt_labels item) = opt_count item
     \<and> (opt_value item < opt_count item \<or> opt_count item = 0 \<and> opt_value item = 0)"

definition list_ok :: "opt_list \<Rightarrow> bool" where
  "list_ok l \<longleftrightarrow> (case ol_options l of None \<Rightarrow> False
     | Some os \<Rightarrow> ol_count l = length os \<and> list_all opt_ok os)"

text \<open>The options by key: the first one with the key.\<close>

definition opt_of :: "opt_list \<Rightarrow> string \<Rightarrow> opt option" where
  "opt_of l key = (case ol_options l of None \<Rightarrow> None | Some os \<Rightarrow> find (\<lambda>o'. opt_key o' = key) os)"

lemma find_index_find:
  "find P xs = map_option (\<lambda>i. xs ! i) (find (\<lambda>i. P (xs ! i)) [0..<length xs])"
proof (cases "find (\<lambda>i. P (xs ! i)) [0..<length xs]")
  case None
  then have "find P xs = None" by (auto simp: find_None_iff in_set_conv_nth)
  with None show ?thesis by simp
next
  case (Some i)
  then have "find P xs = Some (xs ! i)" by (auto simp: find_Some_iff)
  with Some show ?thesis by simp
qed

lemma getOption_ok:
  assumes "list_ok l"
  obtains os where "ol_options l = Some os" "list_all opt_ok os" "ol_count l = length os"
    "OptionList_getOption l key = Some (find (\<lambda>i. opt_key (os ! i) = key) [0..<length os])"
  using assms by (auto simp: list_ok_def OptionList_getOption_def split: option.splits)

lemma getOption_cases [consumes 1, case_names missing found]:
  assumes "list_ok l"
  obtains (missing) "OptionList_getOption l key = Some None" "opt_of l key = None"
  | (found) os i where "ol_options l = Some os" "OptionList_getOption l key = Some (Some i)" "i < length os"
      "opt_key (os ! i) = key" "opt_of l key = Some (os ! i)" "list_all opt_ok os" "ol_count l = length os"
      "\<forall>j<i. opt_key (os ! j) \<noteq> key"
proof -
  obtain os where os: "ol_options l = Some os" "list_all opt_ok os" "ol_count l = length os"
    "OptionList_getOption l key = Some (find (\<lambda>i. opt_key (os ! i) = key) [0..<length os])"
    using getOption_ok [OF assms] by blast
  have of: "opt_of l key = map_option (\<lambda>i. os ! i) (find (\<lambda>i. opt_key (os ! i) = key) [0..<length os])"
    using os(1) find_index_find [of "\<lambda>o'. opt_key o' = key" os] by (simp add: opt_of_def)
  show thesis
  proof (cases "find (\<lambda>i. opt_key (os ! i) = key) [0..<length os]")
    case None
    then show ?thesis using os(4) of missing by simp
  next
    case (Some i)
    then have "i < length os" "opt_key (os ! i) = key" "\<forall>j<i. opt_key (os ! j) \<noteq> key"
      by (auto simp: find_Some_iff)
    with Some os of found show ?thesis by simp
  qed
qed

text \<open>The value that a text selects.\<close>

definition selects :: "opt \<Rightarrow> string option \<Rightarrow> nat" where
  "selects item v = (case v of None \<Rightarrow> 0
     | Some s \<Rightarrow> (case find (\<lambda>i. opt_values item ! i = s) [0..<opt_count item] of None \<Rightarrow> 0 | Some i \<Rightarrow> i))"

lemma getValueIndex_ok: "opt_ok item \<Longrightarrow> Option_getValueIndex item v = Some (selects item v)"
  by (cases v) (simp_all add: Option_getValueIndex_def selects_def opt_ok_def)

lemma selects_range: "opt_ok item \<Longrightarrow> selects item v < opt_count item \<or> opt_count item = 0 \<and> selects item v = 0"
  by (auto simp: selects_def opt_ok_def find_Some_iff split: option.split)

lemma selects_value: "opt_ok item \<Longrightarrow> s \<in> set (opt_values item) \<Longrightarrow>
  selects item (Some s) < length (opt_values item) \<and> opt_values item ! selects item (Some s) = s"
  by (auto simp: selects_def opt_ok_def in_set_conv_nth find_None_iff find_Some_iff split: option.split)

lemma selects_other: "s \<notin> set (opt_values item) \<Longrightarrow> opt_ok item \<Longrightarrow> selects item (Some s) = 0"
  by (auto simp: selects_def opt_ok_def find_Some_iff split: option.split)

lemma getOptionValue_ok:
  assumes "list_ok l"
  shows "OptionList_getOptionValue l key = Some (case opt_of l key of None \<Rightarrow> None
     | Some item \<Rightarrow> if opt_value item < length (opt_values item) then Some (opt_values item ! opt_value item) else None)"
  using assms
proof (cases rule: getOption_cases [where key = key])
  case (found os i)
  then have "opt_ok (os ! i)" by (simp add: list_all_length)
  then show ?thesis using found by (auto simp: OptionList_getOptionValue_def Let_def opt_ok_def)
qed (auto simp: OptionList_getOptionValue_def)

text \<open>The first option with a key is replaced by another one with it.\<close>

lemma replace_option:
  assumes "ol_options l = Some os" "ol_count l = length os" "list_all opt_ok os" "i < length os"
    and "opt_key (os ! i) = key" "\<forall>j<i. opt_key (os ! j) \<noteq> key" "opt_ok item" "opt_key item = key"
  shows "list_ok (l\<lparr>ol_options := Some (os[i := item]), ol_changed := True\<rparr>)"
    "opt_of (l\<lparr>ol_options := Some (os[i := item]), ol_changed := True\<rparr>) k = (if k = key then Some item else opt_of l k)"
proof -
  show "list_ok (l\<lparr>ol_options := Some (os[i := item]), ol_changed := True\<rparr>)"
    using assms by (simp add: list_ok_def list_all_length nth_list_update)
  show "opt_of (l\<lparr>ol_options := Some (os[i := item]), ol_changed := True\<rparr>) k = (if k = key then Some item else opt_of l k)"
  proof (cases "k = key")
    case True
    then show ?thesis
      unfolding opt_of_def using assms(4-8)
      by (simp add: find_Some_iff) (rule exI [of _ i], simp add: nth_list_update)
  next
    case False
    have eq: "(\<lambda>j. opt_key (os[i := item] ! j) = k) = (\<lambda>j. opt_key (os ! j) = k)"
      using assms(4,5,8) by (auto simp: nth_list_update fun_eq_iff)
    have "find (\<lambda>o'. opt_key o' = k) (os[i := item]) = find (\<lambda>o'. opt_key o' = k) os"
    proof (cases "find (\<lambda>j. opt_key (os ! j) = k) [0..<length os]")
      case None
      then show ?thesis unfolding find_index_find [of _ "os[i := item]"] find_index_find [of _ os] eq by simp
    next
      case (Some j)
      then have "opt_key (os ! j) = k" by (auto simp: find_Some_iff)
      with False assms(5) have "j \<noteq> i" by auto
      then show ?thesis
        unfolding find_index_find [of _ "os[i := item]"] find_index_find [of _ os] eq Some using Some by simp
    qed
    with False assms(1) show ?thesis by (simp add: opt_of_def)
  qed
qed

lemma setOptionValue_ok:
  assumes "list_ok l"
  shows "\<exists>l' frames. OptionList_setOptionValue core_tag l key v = Some (l', frames) \<and> list_ok l'
    \<and> ol_count l' = ol_count l \<and> ol_changed l' = (ol_changed l \<or> opt_of l key \<noteq> None)
    \<and> (\<forall>k. opt_of l' k = (if k = key then map_option (\<lambda>item. item\<lparr>opt_value := selects item v\<rparr>) (opt_of l k) else opt_of l k))"
  using assms
proof (cases rule: getOption_cases [where key = key])
  case missing
  then show ?thesis using assms by (intro exI [of _ l] exI [of _ 0]) (simp add: OptionList_setOptionValue_def)
next
  case (found os i)
  let ?item = "(os ! i)\<lparr>opt_value := selects (os ! i) v\<rparr>"
  let ?l = "l\<lparr>ol_options := Some (os[i := ?item]), ol_changed := True\<rparr>"
  have item: "opt_ok (os ! i)" using found by (simp add: list_all_length)
  then have "opt_ok ?item" using selects_range [OF item, of v] by (auto simp: opt_ok_def)
  note replaced = replace_option [OF found(1,7,6,3,4,8) this, simplified, OF found(4)]
  have "OptionList_setOptionValue core_tag l key v = Some (?l, palette_frames core_tag key 2)"
    using found item by (simp add: OptionList_setOptionValue_def Option_setValue_def getValueIndex_ok)
  then show ?thesis using replaced found(5) by (intro exI [of _ ?l] exI) simp
qed

lemma setOptionRawValue_ok:
  assumes "list_ok l" "\<And>item. opt_of l key = Some item \<Longrightarrow> v < length (opt_values item)"
  shows "\<exists>l' frames. OptionList_setOptionRawValue core_tag l key v = Some (l', frames) \<and> list_ok l'
    \<and> ol_count l' = ol_count l \<and> ol_changed l' = (ol_changed l \<or> opt_of l key \<noteq> None)
    \<and> (\<forall>k. opt_of l' k = (if k = key then map_option (\<lambda>item. item\<lparr>opt_value := v\<rparr>) (opt_of l k) else opt_of l k))"
  using assms(1)
proof (cases rule: getOption_cases [where key = key])
  case missing
  then show ?thesis using assms by (intro exI [of _ l] exI [of _ 0]) (simp add: OptionList_setOptionRawValue_def)
next
  case (found os i)
  let ?item = "(os ! i)\<lparr>opt_value := v\<rparr>"
  let ?l = "l\<lparr>ol_options := Some (os[i := ?item]), ol_changed := True\<rparr>"
  have item: "opt_ok (os ! i)" using found by (simp add: list_all_length)
  then have "opt_ok ?item" using assms(2) [OF found(5)] by (auto simp: opt_ok_def)
  note replaced = replace_option [OF found(1,7,6,3,4,8) this, simplified, OF found(4)]
  have "OptionList_setOptionRawValue core_tag l key v = Some (?l, palette_frames core_tag key 3)"
    using found by (simp add: OptionList_setOptionRawValue_def)
  then show ?thesis using replaced found(5) by (intro exI [of _ ?l] exI) simp
qed

section \<open>Variables\<close>

fun join_bars :: "string list \<Rightarrow> string" where
  "join_bars [] = []"
| "join_bars [v] = v"
| "join_bars (v # vs) = v @ CHR ''|'' # join_bars vs"

lemma split_bars_piece: "CHR ''|'' \<notin> set v \<Longrightarrow> split_bars p v = [p @ v]"
  by (induction v arbitrary: p) auto

lemma split_bars_bar: "CHR ''|'' \<notin> set v \<Longrightarrow> split_bars p (v @ CHR ''|'' # rest) = (p @ v) # split_bars [] rest"
  by (induction v arbitrary: p) auto

lemma split_join_bars: "vs \<noteq> [] \<Longrightarrow> \<forall>v\<in>set vs. CHR ''|'' \<notin> set v \<Longrightarrow> split_bars [] (join_bars vs) = vs"
  by (induction vs rule: join_bars.induct) (simp_all add: split_bars_piece split_bars_bar)

lemma option_of_definition_ok:
  assumes "length (getOptionNameFromKey (def_key d) (def_desc d)) \<le> length (def_desc d)"
  shows "\<exists>item. option_of_definition d = Some item \<and> opt_ok item \<and> opt_key item = def_key d \<and> \<not> opt_lock item
    \<and> opt_values item = map fst (def_values d) \<and> opt_value item = opt_default item
    \<and> (\<forall>s. def_default d = Some s \<longrightarrow> s \<in> set (opt_values item) \<longrightarrow> opt_values item ! opt_value item = s)"
proof -
  let ?item = "\<lparr>opt_key = def_key d, opt_name = Some (getOptionNameFromKey (def_key d) (def_desc d)),
    opt_default = 0, opt_value = 0, opt_count = length (def_values d), opt_lock = False,
    opt_values = map fst (def_values d),
    opt_labels = map (\<lambda>(v, label). case label of None \<Rightarrow> v | Some s \<Rightarrow> s) (def_values d)\<rparr>"
  have ok: "opt_ok ?item" by (auto simp: opt_ok_def)
  let ?i = "selects ?item (def_default d)"
  have "option_of_definition d = Some (?item\<lparr>opt_value := ?i, opt_default := ?i\<rparr>)"
    using assms getValueIndex_ok [OF ok] by (simp add: option_of_definition_def Let_def)
  moreover have "opt_ok (?item\<lparr>opt_value := ?i, opt_default := ?i\<rparr>)"
    using selects_range [OF ok, of "def_default d"] ok by (auto simp: opt_ok_def)
  moreover have "map fst (def_values d) ! selects ?item (Some a) = a" if "(a, b) \<in> set (def_values d)" for a b
    using selects_value [OF ok, of a] that by force
  ultimately show ?thesis by auto
qed

section \<open>Properties\<close>

text \<open>
  Setting an option works and stays inside its values: in a well-formed list
  OptionList_setOptionValue never faults, keeps the list well formed, makes
  OptionList_getOptionValue return the value when it is one of the option's values and the first
  value otherwise, and leaves every other option alone.
\<close>

theorem option_set_get:
  assumes "list_ok l" "opt_of l key = Some item" "opt_values item \<noteq> []"
  shows "\<exists>l' frames. OptionList_setOptionValue core_tag l key (Some v) = Some (l', frames) \<and> list_ok l'
    \<and> OptionList_getOptionValue l' key = Some (Some (if v \<in> set (opt_values item) then v else hd (opt_values item)))
    \<and> (\<forall>k. k \<noteq> key \<longrightarrow> OptionList_getOptionValue l' k = OptionList_getOptionValue l k)"
proof -
  obtain l' frames where l': "OptionList_setOptionValue core_tag l key (Some v) = Some (l', frames)" "list_ok l'"
    and upd: "\<And>k. opt_of l' k = (if k = key then map_option (\<lambda>item. item\<lparr>opt_value := selects item (Some v)\<rparr>) (opt_of l k) else opt_of l k)"
    using setOptionValue_ok [OF assms(1), of core_tag key "Some v"] by metis
  have ok: "opt_ok item" using assms(1,2)
    by (auto simp: list_ok_def opt_of_def list_all_iff find_Some_iff split: option.splits)
  have "OptionList_getOptionValue l' key = Some (Some (if v \<in> set (opt_values item) then v else hd (opt_values item)))"
    using selects_value [OF ok, of v] selects_other [of v item] ok assms(2,3)
    by (auto simp: getOptionValue_ok [OF l'(2)] upd hd_conv_nth)
  moreover have "OptionList_getOptionValue l' k = OptionList_getOptionValue l k" if "k \<noteq> key" for k
    using that by (simp add: getOptionValue_ok [OF l'(2)] getOptionValue_ok [OF assms(1)] upd)
  ultimately show ?thesis using l' by blast
qed

text \<open>
  A core's variables are read back as they were written: "name; v1|...|vn" gives an option
  with that name and exactly those values, the first one selected.
\<close>

theorem variable_roundtrip:
  assumes "CHR '';'' \<notin> set nm" "vs \<noteq> []" "\<forall>v\<in>set vs. CHR ''|'' \<notin> set v"
  shows "option_of_variable (key, nm @ ''; '' @ join_bars vs) = Some \<lparr>opt_key = key, opt_name = Some nm,
    opt_default = 0, opt_value = 0, opt_count = length vs, opt_lock = False, opt_values = vs, opt_labels = vs\<rparr>"
  using assms by (simp add: option_of_variable_def Let_def strchr_append split_join_bars)

definition demo_options :: opt_list where
  "demo_options = \<lparr>ol_count = 1, ol_changed = False, ol_options = Some [\<lparr>opt_key = ''fx'', opt_name = None,
     opt_default = 0, opt_value = 1, opt_count = 2, opt_lock = False, opt_values = [''Off'', ''On''],
     opt_labels = [''Off'', ''On'']\<rparr>]\<rparr>"

theorem option_set_get_witness:
  "\<exists>l' frames. OptionList_setOptionValue ''GB'' demo_options ''fx'' (Some ''Max'') = Some (l', frames)
    \<and> OptionList_getOptionValue l' ''fx'' = Some (Some ''Off'')"
proof -
  have "list_ok demo_options" by (simp add: list_ok_def demo_options_def opt_ok_def)
  from option_set_get [OF this, of "''fx''" _ "''GB''" "''Max''"] show ?thesis
    by (auto simp: opt_of_def demo_options_def)
qed

theorem variable_roundtrip_witness:
  "option_of_variable (''k'', ''Speed; slow|fast'') = Some \<lparr>opt_key = ''k'', opt_name = Some ''Speed'',
    opt_default = 0, opt_value = 0, opt_count = 2, opt_lock = False, opt_values = [''slow'', ''fast''],
    opt_labels = [''slow'', ''fast'']\<rparr>"
  using variable_roundtrip [of "''Speed''" "[''slow'', ''fast'']" "''k''"] by simp

text \<open>
  The name of a definition is copied into a buffer sized for its description: the replacement
  name of the analog combo overflows it when the core's description is shorter.
\<close>

theorem option_name_overflow:
  "option_of_definition \<lparr>def_key = ''pcsx_rearmed_analog_combo'', def_desc = ''Analog Combo'',
     def_values = [], def_default = None\<rparr> = None"
  by (simp add: option_of_definition_def getOptionNameFromKey_def option_key_name_def)

end
