(* ===== verification/PlayerConfig.thy ===== *)
theory PlayerConfig
  imports Options
begin

text \<open>
  The configuration of the emulator player (minarch.c, Config_*): three text files, read one over
  the other, give values to the frontend's and the core's options and bind the controls and
  shortcuts to buttons; Config_write saves all of it.

  The environment variable DEVICE and whether the display supports overscan are parameters. None
  as a result is undefined behaviour of the C code (a buffer overrun, an index outside a table), or
  a search for an empty key, which never ends. Numbers are read with a 32-bit long.
\<close>

section \<open>Reading one value\<close>

text \<open>
  The scan of Config_getValue: before is the character in front of the text left. A minus in front
  of any occurrence of the key that is looked at, matching or not, sets the lock.
\<close>

lemma strstr_bound: "strstr s n = Some i \<Longrightarrow> i + length n \<le> length s"
  by (induction s n arbitrary: i rule: strstr.induct) (auto split: if_splits dest: prefix_length_le)

lemma strstr_shorter: "strstr s n = Some i \<Longrightarrow> n \<noteq> [] \<Longrightarrow> length (drop (i + length n) s) < length s"
  using strstr_bound [of s n i] by (cases n) auto

function getValue_loop :: "string \<Rightarrow> char option \<Rightarrow> bool \<Rightarrow> string \<Rightarrow> (string option \<times> bool) option" where
  "getValue_loop key before lock tmp =
    (case strstr tmp key of
       None \<Rightarrow> Some (None, lock)
     | Some i \<Rightarrow>
         (let at = (if i = 0 then before else Some (tmp ! (i - 1)));
              lock' = (lock \<or> at = Some (CHR ''-''));
              rest = drop (i + length key) tmp
          in if prefix '' = '' rest then Some (Some (drop 3 rest), lock')
             else if key = [] then None
             else getValue_loop key (Some (last key)) lock' rest))"
  by auto
termination
  by (relation "measure (\<lambda>(key, before, lock, tmp). length tmp)") (auto simp del: length_drop intro: strstr_shorter)

declare getValue_loop.simps [simp del]

definition cut_line :: "string \<Rightarrow> string" where
  "cut_line s = (case strchr s NL of Some i \<Rightarrow> take i s
     | None \<Rightarrow> (case strchr s CR of Some i \<Rightarrow> take i s | None \<Rightarrow> s))"

definition Config_getValue :: "string \<Rightarrow> string \<Rightarrow> bool \<Rightarrow> (string option \<times> bool) option" where
  "Config_getValue cfg key lock = do {
     (found, lock') \<leftarrow> getValue_loop key None lock cfg;
     Some (map_option (\<lambda>v. cut_line (c_trunc 256 v)) found, lock')
   }"

section \<open>State\<close>

record mapping =
  mp_name :: string
  mp_retro :: int
  mp_local :: int
  mp_mod :: bool
  mp_default :: int
  mp_ignore :: bool

text \<open>The player's globals that the frontend options drive.\<close>

record frontend =
  screen_scaling :: nat
  screen_effect :: nat
  screen_sharpness :: nat
  gfx_sharpness :: nat
  gfx_effect :: nat
  prevent_tearing :: nat
  overclock :: nat
  thread_video :: bool
  was_threaded :: bool
  toggle_thread :: bool
  show_debug :: nat
  max_ff_speed :: nat
  dst_p :: nat

datatype config_loaded = CONFIG_NONE | CONFIG_CONSOLE | CONFIG_GAME

record player =
  fe_list :: opt_list
  core_list :: opt_list
  controls :: "mapping list"
  shortcuts :: "mapping list"
  core_buttons :: "mapping list"
  system_cfg :: "string option"
  default_cfg :: "string option"
  user_cfg :: "string option"
  device_tag :: "string option"
  cfg_loaded :: config_loaded
  cfg_initialized :: bool
  globals :: frontend
  has_custom_controllers :: bool
  gamepad_type :: int
  port_device :: int
  palette_updated :: nat
  core_tag :: string
  config_dir :: string
  game_name :: string

definition LOCAL_BUTTON_COUNT :: nat where "LOCAL_BUTTON_COUNT = 16"

definition button_labels :: "string list" where
  "button_labels =
    [''NONE'', ''UP'', ''DOWN'', ''LEFT'', ''RIGHT'', ''A'', ''B'', ''X'', ''Y'', ''START'', ''SELECT'',
     ''L1'', ''R1'', ''L2'', ''R2'', ''L3'', ''R3'', ''MENU+UP'', ''MENU+DOWN'', ''MENU+LEFT'',
     ''MENU+RIGHT'', ''MENU+A'', ''MENU+B'', ''MENU+X'', ''MENU+Y'', ''MENU+START'', ''MENU+SELECT'',
     ''MENU+L1'', ''MENU+R1'', ''MENU+L2'', ''MENU+R2'', ''MENU+L3'', ''MENU+R3'']"

definition gamepad_values :: "string list" where
  "gamepad_values = [''1'', ''517'']"

text \<open>Names of buttons with their libretro id and their own id.\<close>

definition button_label_mapping :: "(string \<times> int \<times> int) list" where
  "button_label_mapping =
    [(''NONE'', - 1, - 1), (''UP'', 4, 0), (''DOWN'', 5, 1), (''LEFT'', 6, 2), (''RIGHT'', 7, 3), (''A'', 8, 4),
     (''B'', 0, 5), (''X'', 9, 6), (''Y'', 1, 7), (''START'', 3, 8), (''SELECT'', 2, 9), (''L1'', 10, 10),
     (''R1'', 11, 11), (''L2'', 12, 12), (''R2'', 13, 13), (''L3'', 14, 14), (''R3'', 15, 15)]"

definition default_button_mapping :: "mapping list" where
  "default_button_mapping = map (\<lambda>(nm, retro, l). \<lparr>mp_name = nm, mp_retro = retro, mp_local = l,
       mp_mod = False, mp_default = 0, mp_ignore = False\<rparr>)
    [(''Up'', 4, 0), (''Down'', 5, 1), (''Left'', 6, 2), (''Right'', 7, 3), (''A Button'', 8, 4), (''B Button'', 0, 5),
     (''X Button'', 9, 6), (''Y Button'', 1, 7), (''Start'', 3, 8), (''Select'', 2, 9), (''L1 Button'', 10, 10),
     (''R1 Button'', 11, 11), (''L2 Button'', 12, 12), (''R2 Button'', 13, 13), (''L3 Button'', 14, 14),
     (''R3 Button'', 15, 15)]"

definition default_shortcuts :: "mapping list" where
  "default_shortcuts = map (\<lambda>nm. \<lparr>mp_name = nm, mp_retro = - 1, mp_local = - 1, mp_mod = False,
       mp_default = 0, mp_ignore = False\<rparr>)
    [''Save State'', ''Load State'', ''Reset Game'', ''Save & Quit'', ''Cycle Scaling'', ''Cycle Effect'',
     ''Toggle FF'', ''Hold FF'']"

text \<open>
  The frontend's options before any file is read. The screen has the fourth way of scaling when it
  supports overscan, which Config_load settles.
\<close>

definition frontend_options :: "bool \<Rightarrow> opt_list" where
  "frontend_options overscan = \<lparr>ol_count = 8, ol_changed = False, ol_options = Some (map (\<lambda>(key, nm, d, vs).
       \<lparr>opt_key = key, opt_name = Some nm, opt_default = d, opt_value = d, opt_count = length vs,
        opt_lock = False, opt_values = vs, opt_labels = vs\<rparr>)
    [(''minarch_screen_scaling'', ''Screen Scaling'', 1,
        [''Native'', ''Aspect'', ''Fullscreen''] @ (if overscan then [''Cropped''] else [])),
     (''minarch_screen_effect'', ''Screen Effect'', 0, [''None'', ''Line'', ''Grid'']),
     (''minarch_screen_sharpness'', ''Screen Sharpness'', 2, [''Sharp'', ''Crisp'', ''Soft'']),
     (''minarch_prevent_tearing'', ''Prevent Tearing'', 1, [''Off'', ''Lenient'', ''Strict'']),
     (''minarch_cpu_speed'', ''CPU Speed'', 1, [''Powersave'', ''Normal'', ''Performance'']),
     (''minarch_thread_video'', ''Prioritize Audio'', 0, [''Off'', ''On'']),
     (''minarch_debug_hud'', ''Debug HUD'', 0, [''Off'', ''On'']),
     (''minarch_max_ff_speed'', ''Max FF Speed'', 3, [''None'', ''2x'', ''3x'', ''4x'', ''5x'', ''6x'', ''7x'', ''8x''])])\<rparr>"

section \<open>Options\<close>

text \<open>The frontend's table has eight options in a fixed order.\<close>

definition set_fe_value :: "nat \<Rightarrow> nat \<Rightarrow> player \<Rightarrow> player option" where
  "set_fe_value i v p = do {
     os \<leftarrow> ol_options (fe_list p);
     c_ok (i < length os);
     Some (p\<lparr>fe_list := (fe_list p)\<lparr>ol_options := Some (os[i := (os ! i)\<lparr>opt_value := v\<rparr>])\<rparr>\<rparr>)
   }"

definition sync_global :: "nat \<Rightarrow> nat \<Rightarrow> frontend \<Rightarrow> frontend" where
  "sync_global i v g =
    (if i = 0 then (let h = g\<lparr>screen_scaling := v\<rparr>
                    in h\<lparr>gfx_sharpness := (if v = 0 then 0 else screen_sharpness h), dst_p := 0\<rparr>)
     else if i = 1 then g\<lparr>screen_effect := v, gfx_effect := v, dst_p := 0\<rparr>
     else if i = 2 then (let h = g\<lparr>screen_sharpness := v\<rparr>
                    in h\<lparr>gfx_sharpness := (if screen_scaling h = 0 then 0 else v), dst_p := 0\<rparr>)
     else if i = 3 then g\<lparr>prevent_tearing := v\<rparr>
     else if i = 4 then g\<lparr>overclock := v\<rparr>
     else if i = 5 then g\<lparr>toggle_thread := ((if thread_video g \<or> was_threaded g then 1 else 0) \<noteq> v)\<rparr>
     else if i = 6 then g\<lparr>show_debug := v\<rparr>
     else g\<lparr>max_ff_speed := v\<rparr>)"

definition Config_syncFrontend :: "string \<Rightarrow> nat \<Rightarrow> player \<Rightarrow> player option" where
  "Config_syncFrontend key v p = do {
     os \<leftarrow> ol_options (fe_list p);
     c_ok (8 \<le> length os);
     (case find (\<lambda>i. opt_key (os ! i) = key) [0, 1, 2, 3, 5, 4, 6, 7] of
        None \<Rightarrow> Some p
      | Some i \<Rightarrow> set_fe_value i v (p\<lparr>globals := sync_global i v (globals p)\<rparr>))
   }"

definition set_lock :: "opt_list \<Rightarrow> nat \<Rightarrow> bool \<Rightarrow> opt_list" where
  "set_lock l i lock = (case ol_options l of None \<Rightarrow> l
     | Some os \<Rightarrow> l\<lparr>ol_options := Some (os[i := (os ! i)\<lparr>opt_lock := lock\<rparr>])\<rparr>)"

definition refresh_palette :: "nat \<Rightarrow> player \<Rightarrow> player" where
  "refresh_palette frames p = (if frames = 0 then p else p\<lparr>palette_updated := frames\<rparr>)"

text \<open>One turn of the loop over the frontend options, then over the core's.\<close>

definition read_fe_option :: "string \<Rightarrow> nat \<Rightarrow> player \<Rightarrow> player option" where
  "read_fe_option cfg i p = do {
     os \<leftarrow> ol_options (fe_list p);
     let item = os ! i;
     (found, lock) \<leftarrow> Config_getValue cfg (opt_key item) (opt_lock item);
     let p = p\<lparr>fe_list := set_lock (fe_list p) i lock\<rparr>;
     (case found of
        None \<Rightarrow> Some p
      | Some v \<Rightarrow> do {
          (l, frames) \<leftarrow> OptionList_setOptionValue (core_tag p) (fe_list p) (opt_key item) (Some v);
          let q = refresh_palette frames (p\<lparr>fe_list := l\<rparr>);
          qs \<leftarrow> ol_options (fe_list q);
          Config_syncFrontend (opt_key item) (opt_value (qs ! i)) q
        })
   }"

definition read_core_option :: "string \<Rightarrow> nat \<Rightarrow> player \<Rightarrow> player option" where
  "read_core_option cfg i p = do {
     os \<leftarrow> ol_options (core_list p);
     let item = os ! i;
     (found, lock) \<leftarrow> Config_getValue cfg (opt_key item) (opt_lock item);
     let p = p\<lparr>core_list := set_lock (core_list p) i lock\<rparr>;
     (case found of
        None \<Rightarrow> Some p
      | Some v \<Rightarrow> do {
          (l, frames) \<leftarrow> OptionList_setOptionValue (core_tag p) (core_list p) (opt_key item) (Some v);
          Some (refresh_palette frames (p\<lparr>core_list := l\<rparr>))
        })
   }"

text \<open>The gamepad type indexes gamepad_values, whatever number the file has.\<close>

definition read_gamepad :: "string \<Rightarrow> player \<Rightarrow> player option" where
  "read_gamepad cfg p =
    (if \<not> has_custom_controllers p then Some p
     else do {
       (found, _) \<leftarrow> Config_getValue cfg ''minarch_gamepad_type'' False;
       (case found of
          None \<Rightarrow> Some p
        | Some v \<Rightarrow> do {
            let t = scan_i v;
            c_ok (0 \<le> t \<and> nat t < length gamepad_values);
            Some (p\<lparr>gamepad_type := t, port_device := scan_i (gamepad_values ! nat t)\<rparr>)
          })
     })"

definition Config_readOptionsString :: "string option \<Rightarrow> player \<Rightarrow> player option" where
  "Config_readOptionsString cfg p =
    (case cfg of
       None \<Rightarrow> Some p
     | Some text \<Rightarrow> do {
         os \<leftarrow> ol_options (fe_list p);
         p \<leftarrow> fold_opt (read_fe_option text) [0..<length os] p;
         p \<leftarrow> read_gamepad text p;
         cs \<leftarrow> ol_options (core_list p);
         fold_opt (read_core_option text) [0..<length cs] p
       })"

section \<open>Controls\<close>

definition binding_of :: "string \<Rightarrow> int \<times> bool" where
  "binding_of v =
    (let i = (case find (\<lambda>j. button_labels ! j = v) [0..<length button_labels] of
                None \<Rightarrow> - 1 | Some j \<Rightarrow> int j - 1)
     in if int LOCAL_BUTTON_COUNT \<le> i then (i - int LOCAL_BUTTON_COUNT, True) else (i, False))"

definition set_binding :: "string \<Rightarrow> mapping \<Rightarrow> mapping" where
  "set_binding v m = m\<lparr>mp_local := fst (binding_of v), mp_mod := snd (binding_of v)\<rparr>"

definition read_control :: "string \<Rightarrow> mapping \<Rightarrow> mapping option" where
  "read_control cfg m = do {
     key \<leftarrow> c_buf 256 (''bind '' @ mp_name m);
     (found, _) \<leftarrow> Config_getValue cfg key False;
     Some (case found of None \<Rightarrow> m
       | Some v \<Rightarrow> set_binding (case strrchr v (CHR '':'') of None \<Rightarrow> v | Some i \<Rightarrow> take i v) m)
   }"

definition read_shortcut :: "string \<Rightarrow> mapping \<Rightarrow> mapping option" where
  "read_shortcut cfg m = do {
     key \<leftarrow> c_buf 256 (''bind '' @ mp_name m);
     (found, _) \<leftarrow> Config_getValue cfg key False;
     Some (case found of None \<Rightarrow> m | Some v \<Rightarrow> set_binding v m)
   }"

definition Config_readControlsString :: "string option \<Rightarrow> player \<Rightarrow> player option" where
  "Config_readControlsString cfg p =
    (case cfg of
       None \<Rightarrow> Some p
     | Some text \<Rightarrow> do {
         cs \<leftarrow> those (map (read_control text) (controls p));
         ss \<leftarrow> those (map (read_shortcut text) (shortcuts p));
         Some (p\<lparr>controls := cs, shortcuts := ss\<rparr>)
       })"

text \<open>
  The bindings that the default configuration gives the core: "bind NAME = BUTTON" or, for a button
  that plays another one's part, "bind NAME = BUTTON:RETRO". Name and button are copied into
  buffers of 128 bytes; strchr then looks for the end of the line in the button's buffer, which
  has no end of its own when a longer line fills it. The table has a place for 16 buttons and its
  end mark.
\<close>

definition button_id_of :: "string \<Rightarrow> string option" where
  "button_id_of rest = do {
     let buf = take 128 rest;
     c_ok (length rest < 128 \<or> strchr buf NL \<noteq> None);
     Some (cut_line buf)
   }"

definition button_ids :: "string \<Rightarrow> (int \<times> int) option" where
  "button_ids nm = map_option snd (find (\<lambda>b. fst b = nm) button_label_mapping)"

definition binding_entry :: "string \<Rightarrow> string \<Rightarrow> mapping" where
  "binding_entry nm button_id =
    (let (id, remap) = (case strrchr button_id (CHR '':'') of None \<Rightarrow> (button_id, None)
           | Some i \<Rightarrow> (take i button_id, map_option fst (button_ids (drop (i + 1) button_id))));
         retro = (case remap of Some r \<Rightarrow> r | None \<Rightarrow> - 1);
         own = button_ids id
     in \<lparr>mp_name = nm, mp_retro = (if retro = - 1 then (case own of Some (r, _) \<Rightarrow> r | None \<Rightarrow> - 1) else retro),
         mp_local = (case own of Some (_, l) \<Rightarrow> l | None \<Rightarrow> - 1),
         mp_mod = False, mp_default = 0, mp_ignore = False\<rparr>)"

function init_loop :: "string \<Rightarrow> mapping list \<Rightarrow> mapping list option" where
  "init_loop tmp acc =
    (case strstr tmp ''bind '' of
       None \<Rightarrow> Some acc
     | Some i \<Rightarrow>
         (let key = drop (i + length ''bind '') tmp in
          case strstr key '' = '' of
            None \<Rightarrow> Some acc
          | Some n \<Rightarrow>
              (let rest = drop (n + 3) key in
               if n < 128 \<and> button_id_of rest \<noteq> None \<and> length acc < 17
               then (let id = the (button_id_of rest); used = (case strrchr id (CHR '':'') of None \<Rightarrow> length id | Some j \<Rightarrow> j)
                     in init_loop (drop used rest) (acc @ [binding_entry (take n key) id]))
               else None)))"
  by auto
termination
proof (relation "measure (\<lambda>(tmp, acc). length tmp)", goal_cases)
  case (2 tmp acc i key n rest id used)
  have "length (drop (i + length ''bind '') tmp) < length tmp"
    using 2(1) by (intro strstr_shorter) simp_all
  with 2 show ?case by simp
qed simp

declare init_loop.simps [simp del]

definition Config_init :: "player \<Rightarrow> player option" where
  "Config_init p =
    (case default_cfg p of
       None \<Rightarrow> Some p
     | Some text \<Rightarrow>
         if cfg_initialized p then Some p
         else do {
           ms \<leftarrow> init_loop text [];
           Some (p\<lparr>core_buttons := ms, cfg_initialized := True\<rparr>)
         })"

definition Config_readOptions :: "player \<Rightarrow> player option" where
  "Config_readOptions p = do {
     p \<leftarrow> Config_readOptionsString (system_cfg p) p;
     p \<leftarrow> Config_readOptionsString (default_cfg p) p;
     Config_readOptionsString (user_cfg p) p
   }"

definition Config_readControls :: "player \<Rightarrow> player option" where
  "Config_readControls p = do {
     p \<leftarrow> Config_readControlsString (default_cfg p) p;
     Config_readControlsString (user_cfg p) p
   }"

section \<open>Files\<close>

definition Config_getPath :: "player \<Rightarrow> bool \<Rightarrow> string option" where
  "Config_getPath p override = do {
     tag \<leftarrow> (case device_tag p of None \<Rightarrow> Some [] | Some t \<Rightarrow> c_buf 64 (CHR ''-'' # t));
     c_buf 512 (config_dir p @ ''/'' @ (if override then game_name p else ''minarch'') @ tag @ ''.cfg'')
   }"

text \<open>Replacing the last component of the launch script's path.\<close>

definition beside_emu :: "fsys \<Rightarrow> string \<Rightarrow> string \<Rightarrow> string option" where
  "beside_emu fs tag nm = do {
     path \<leftarrow> getEmuPath fs tag;
     i \<leftarrow> strrchr path (CHR ''/'');
     c_buf 512 (take i path @ nm)
   }"

definition Config_load :: "string option \<Rightarrow> bool \<Rightarrow> fsys \<Rightarrow> player \<Rightarrow> player option" where
  "Config_load env_device overscan fs p = do {
     let p = p\<lparr>device_tag := env_device\<rparr>;
     os \<leftarrow> ol_options (fe_list p);
     c_ok (0 < length os);
     let scaling = (os ! 0)\<lparr>opt_count := (if overscan then 4 else 3),
       opt_values := (if overscan then opt_values (os ! 0) else take 3 (opt_values (os ! 0))),
       opt_labels := (if overscan then opt_labels (os ! 0) else take 3 (opt_labels (os ! 0)))\<rparr>;
     let p = p\<lparr>fe_list := (fe_list p)\<lparr>ol_options := Some (os[0 := scaling])\<rparr>\<rparr>;
     device_system \<leftarrow> (case env_device of None \<Rightarrow> Some []
       | Some t \<Rightarrow> c_buf 512 (SYSTEM_PATH @ ''/system-'' @ t @ ''.cfg''));
     let system_path = SYSTEM_PATH @ ''/system.cfg'';
     let p = p\<lparr>system_cfg :=
       (if env_device \<noteq> None \<and> exists fs device_system then allocFile fs device_system
        else if exists fs system_path then allocFile fs system_path else None)\<rparr>;
     default_path \<leftarrow> beside_emu fs (core_tag p) ''/default.cfg'';
     device_default \<leftarrow> (case env_device of None \<Rightarrow> Some []
       | Some t \<Rightarrow> do { nm \<leftarrow> c_buf 64 (''/default-'' @ t @ ''.cfg''); beside_emu fs (core_tag p) nm });
     let p = p\<lparr>default_cfg :=
       (if env_device \<noteq> None \<and> exists fs device_default then allocFile fs device_default
        else if exists fs default_path then allocFile fs default_path else None)\<rparr>;
     game_path \<leftarrow> Config_getPath p True;
     console_path \<leftarrow> (if exists fs game_path then Some [] else Config_getPath p False);
     let user = allocFile fs (if exists fs game_path then game_path else console_path);
     Some (p\<lparr>user_cfg := user,
       cfg_loaded := (if user = None then CONFIG_NONE
                      else if exists fs game_path then CONFIG_GAME else CONFIG_CONSOLE)\<rparr>)
   }"

text \<open>One line per option and per binding.\<close>

definition cfg_line :: "string \<Rightarrow> string \<Rightarrow> string" where
  "cfg_line key v = key @ '' = '' @ v @ [NL]"

definition option_line :: "opt \<Rightarrow> string option" where
  "option_line item = do {
     c_ok (opt_value item < length (opt_values item));
     Some (cfg_line (opt_key item) (opt_values item ! opt_value item))
   }"

definition binding_line :: "mapping \<Rightarrow> string option" where
  "binding_line m = do {
     let j = mp_local m + 1 + (if mp_mod m then int LOCAL_BUTTON_COUNT else 0);
     c_ok (0 \<le> j \<and> nat j < length button_labels);
     Some (cfg_line (''bind '' @ mp_name m) (button_labels ! nat j))
   }"

definition config_text :: "player \<Rightarrow> string option" where
  "config_text p = do {
     os \<leftarrow> ol_options (fe_list p);
     fl \<leftarrow> those (map option_line os);
     cs \<leftarrow> ol_options (core_list p);
     cl \<leftarrow> those (map option_line cs);
     ml \<leftarrow> those (map binding_line (controls p));
     sl \<leftarrow> those (map binding_line (shortcuts p));
     Some (concat (fl @ cl)
       @ (if has_custom_controllers p then cfg_line ''minarch_gamepad_type'' (c_int (gamepad_type p)) else [])
       @ concat (ml @ sl))
   }"

definition Config_write :: "bool \<Rightarrow> fsys \<Rightarrow> player \<Rightarrow> (fsys \<times> player) option" where
  "Config_write override fs p = do {
     game_path \<leftarrow> Config_getPath p True;
     console_path \<leftarrow> (if override then Some [] else Config_getPath p False);
     let fs = (if \<not> override \<and> cfg_loaded p = CONFIG_GAME then unlink fs game_path else fs);
     let path = (if override then game_path else console_path);
     let p = p\<lparr>cfg_loaded := (if override then CONFIG_GAME else CONFIG_CONSOLE)\<rparr>;
     (if fs_writable fs path then do { text \<leftarrow> config_text p; Some (putFile fs path text, p) }
      else Some (fs, p))
   }"

definition restore_binding :: "bool \<Rightarrow> mapping \<Rightarrow> mapping" where
  "restore_binding shortcut m = m\<lparr>mp_local := (if shortcut then - 1 else mp_default m), mp_mod := False\<rparr>"

definition restore_fe_option :: "nat \<Rightarrow> player \<Rightarrow> player option" where
  "restore_fe_option i p = do {
     os \<leftarrow> ol_options (fe_list p);
     p \<leftarrow> set_fe_value i (opt_default (os ! i)) p;
     Config_syncFrontend (opt_key (os ! i)) (opt_default (os ! i)) p
   }"

definition Config_restore :: "string option \<Rightarrow> bool \<Rightarrow> fsys \<Rightarrow> player \<Rightarrow> (fsys \<times> player) option" where
  "Config_restore env_device overscan fs p = do {
     let tag = (case device_tag p of None \<Rightarrow> [] | Some t \<Rightarrow> CHR ''-'' # t);
     fs \<leftarrow> (case cfg_loaded p of
         CONFIG_GAME \<Rightarrow> do {
           path \<leftarrow> c_buf 512 (config_dir p @ ''/'' @ game_name p @ tag @ ''.cfg'');
           Some (unlink fs path) }
       | CONFIG_CONSOLE \<Rightarrow> do {
           path \<leftarrow> c_buf 512 (config_dir p @ ''/minarch'' @ tag @ ''.cfg'');
           Some (unlink fs path) }
       | CONFIG_NONE \<Rightarrow> Some fs);
     let p = p\<lparr>cfg_loaded := CONFIG_NONE\<rparr>;
     os \<leftarrow> ol_options (fe_list p);
     p \<leftarrow> fold_opt restore_fe_option [0..<length os] p;
     cs \<leftarrow> ol_options (core_list p);
     let p = p\<lparr>core_list := (core_list p)\<lparr>ol_options := Some (map (\<lambda>c. c\<lparr>opt_value := opt_default c\<rparr>) cs),
       ol_changed := True\<rparr>\<rparr>;
     let p = (if has_custom_controllers p then p\<lparr>gamepad_type := 0, port_device := 1\<rparr> else p);
     let p = p\<lparr>controls := map (restore_binding False) (controls p),
       shortcuts := map (restore_binding True) (shortcuts p)\<rparr>;
     p \<leftarrow> Config_load env_device overscan fs p;
     p \<leftarrow> Config_readOptions p;
     p \<leftarrow> Config_readControls p;
     Some (fs, p\<lparr>globals := (globals p)\<lparr>dst_p := 0\<rparr>\<rparr>)
   }"

text \<open>A player with the default tables, to evaluate on.\<close>

definition demo_player :: player where
  "demo_player = \<lparr>fe_list = frontend_options False,
     core_list = \<lparr>ol_count = 1, ol_changed = False, ol_options = Some [\<lparr>opt_key = ''gb_colors'', opt_name = None,
       opt_default = 0, opt_value = 1, opt_count = 2, opt_lock = False, opt_values = [''auto'', ''GBC''],
       opt_labels = [''Auto'', ''Color'']\<rparr>]\<rparr>,
     controls = default_button_mapping, shortcuts = default_shortcuts, core_buttons = [],
     system_cfg = None, default_cfg = Some ''bind A Button = B'', user_cfg = None, device_tag = None,
     cfg_loaded = CONFIG_NONE, cfg_initialized = True,
     globals = \<lparr>screen_scaling = 1, screen_effect = 0, screen_sharpness = 2, gfx_sharpness = 2, gfx_effect = 0,
       prevent_tearing = 1, overclock = 1, thread_video = False, was_threaded = False, toggle_thread = False,
       show_debug = 0, max_ff_speed = 3, dst_p = 0\<rparr>,
     has_custom_controllers = True, gamepad_type = 1, port_device = 517, palette_updated = 0,
     core_tag = ''GB'', config_dir = ''/mnt/SDCARD/.userdata/GB'', game_name = ''Tetris.gb''\<rparr>"

end
