(* ===== verification/SavedConfig.thy ===== *)
theory SavedConfig
  imports PlayerConfig
begin

text \<open>
  Saving the player's configuration and reading it back: what Config_getValue finds in a text of
  lines, then the round trip of the options and of the bindings through the saved text.
\<close>

section \<open>Searching a text\<close>

lemma strstr_Some:
  "strstr s n = Some i \<Longrightarrow> i \<le> length s \<and> prefix n (drop i s) \<and> (\<forall>j<i. \<not> prefix n (drop j s))"
proof (induction s n arbitrary: i rule: strstr.induct)
  case (2 x xs n)
  show ?case
  proof (cases "prefix n (x # xs)")
    case False
    with 2 obtain j where "i = Suc j" "strstr xs n = Some j" by auto
    with 2 False show ?thesis by (auto simp: less_Suc_eq_0_disj)
  qed (use 2 in auto)
qed (auto split: if_splits)

lemma strstr_found: "prefix n (drop i s) \<Longrightarrow> i \<le> length s \<Longrightarrow> \<exists>j\<le>i. strstr s n = Some j"
proof (induction s arbitrary: i)
  case (Cons x xs)
  then show ?case
    by (cases i) (auto simp: less_Suc_eq_le dest!: Cons.IH)
qed auto

lemma strstr_sublist: "strstr s n = Some i \<Longrightarrow> sublist n s"
  by (meson strstr_Some prefix_imp_sublist sublist_drop sublist_order.order_trans)

lemma sublist_lines: "c \<notin> set w \<Longrightarrow> sublist w (a @ c # b) \<Longrightarrow> sublist w a \<or> sublist w b"
proof (induction a)
  case Nil
  then show ?case by (cases w) (auto simp: sublist_Cons_right)
next
  case (Cons y ys)
  then show ?case using prefix_before [of c w "y # ys" b] by (auto simp: sublist_Cons_right)
qed

text \<open>
  A key that stands at the start of a line is found there, when nothing before the line reads like
  the key with an equals sign.
\<close>

lemma getValue_loop_line:
  assumes key: "key \<noteq> []" "NL \<notin> set key"
    and "pre = [] \<or> (\<exists>p. pre = p @ [NL])" "\<not> sublist (key @ '' = '') pre"
  shows "\<exists>lock'. getValue_loop key before lock (pre @ key @ '' = '' @ rest) = Some (Some rest, lock')"
  using assms(3,4)
proof (induction "length pre" arbitrary: pre before lock rule: less_induct)
  case less
  let ?text = "pre @ key @ '' = '' @ rest"
  obtain i where i: "strstr ?text key = Some i" "i \<le> length pre"
    using strstr_found [of key "length pre" ?text] by auto
  show ?case
  proof (cases "i = length pre")
    case True
    with i show ?thesis by (subst getValue_loop.simps) (simp add: Let_def)
  next
    case False
    with i(2) less.prems(1) obtain p where p: "pre = p @ [NL]" "i \<le> length p" by auto
    have "prefix key (drop i p @ NL # key @ '' = '' @ rest)"
      using strstr_Some [OF i(1)] p by simp
    then obtain r where r: "drop i p = key @ r"
      using prefix_before key(2) by (metis prefixE)
    have pre: "pre = take i p @ key @ r @ [NL]"
      using p r by (metis append.assoc append_take_drop_id)
    have rest: "drop (i + length key) ?text = (r @ [NL]) @ key @ '' = '' @ rest"
      using p(2) by (simp add: pre min_def)
    have no: "\<not> prefix '' = '' ((r @ [NL]) @ key @ '' = '' @ rest)"
    proof
      assume "prefix '' = '' ((r @ [NL]) @ key @ '' = '' @ rest)"
      then have "prefix '' = '' r" using prefix_before [of NL "'' = ''" r] by (simp add: NL_def)
      then obtain s where "r = '' = '' @ s" by (auto elim!: prefixE)
      then have "pre = take i p @ (key @ '' = '') @ s @ [NL]" using pre by simp
      with less.prems(2) show False by (metis sublist_appendI)
    qed
    have "sublist (r @ [NL]) pre" by (metis pre append.assoc sublist_append_leftI)
    with less.prems(2) have "\<not> sublist (key @ '' = '') (r @ [NL])"
      using sublist_order.order_trans by blast
    moreover have "length (r @ [NL]) < length pre" using key(1) by (simp add: pre)
    ultimately show ?thesis
      using less.hyps [of "r @ [NL]"] key(1) i(1) rest no
      by (subst getValue_loop.simps) (simp add: Let_def)
  qed
qed

lemma getValue_loop_none:
  assumes "key \<noteq> []" "\<not> sublist (key @ '' = '') t"
  shows "\<exists>lock'. getValue_loop key before lock t = Some (None, lock')"
  using assms(2)
proof (induction "length t" arbitrary: t before lock rule: less_induct)
  case less
  show ?case
  proof (cases "strstr t key")
    case None
    then show ?thesis by (subst getValue_loop.simps) simp
  next
    case (Some i)
    then obtain r where r: "drop i t = key @ r" "i \<le> length t"
      using strstr_Some [OF Some] by (auto elim: prefixE)
    then have t: "t = take i t @ key @ r" by (metis append_take_drop_id)
    have rest: "drop (i + length key) t = r" using r by (metis append_eq_conv_conj drop_drop add.commute)
    have "\<not> prefix '' = '' r"
    proof
      assume "prefix '' = '' r"
      then obtain s where "t = take i t @ (key @ '' = '') @ s" using t by (auto elim!: prefixE)
      with less.prems show False by (metis sublist_appendI)
    qed
    moreover have "\<not> sublist (key @ '' = '') r"
      using less.prems t by (metis sublist_appendI append.assoc append_Nil2 sublist_order.order_trans)
    moreover have "length r < length t" using assms(1) by (subst t) simp
    ultimately show ?thesis
      using less.hyps [of r] assms(1) Some rest by (subst getValue_loop.simps) (simp add: Let_def)
  qed
qed

lemma cut_line_NL:
  assumes "NL \<notin> set v" "length v < 255"
  shows "cut_line (c_trunc 256 (v @ NL # rest)) = v"
proof -
  have "c_trunc 256 (v @ NL # rest) = v @ NL # take (254 - length v) rest"
    using assms(2) by (simp add: c_trunc_def take_Cons')
  then show ?thesis using assms(1) by (simp add: cut_line_def strchr_append)
qed

lemma getValue_line:
  assumes "key \<noteq> []" "NL \<notin> set key" "pre = [] \<or> (\<exists>p. pre = p @ [NL])" "\<not> sublist (key @ '' = '') pre"
    and "NL \<notin> set v" "length v < 255"
  shows "\<exists>lock'. Config_getValue (pre @ cfg_line key v @ rest) key lock = Some (Some v, lock')"
  using getValue_loop_line [OF assms(1-4), of None lock "v @ NL # rest"] assms(5,6)
  by (auto simp: Config_getValue_def cfg_line_def cut_line_NL c_trunc_id)

lemma getValue_loop_total: "key \<noteq> [] \<Longrightarrow> \<exists>found lock'. getValue_loop key before lock t = Some (found, lock')"
  by (induction key before lock t rule: getValue_loop.induct)
    (subst getValue_loop.simps, auto simp: Let_def split: option.split)

lemma getValue_total:
  assumes "key \<noteq> []"
  shows "\<exists>found lock'. Config_getValue t key lock = Some (found, lock')"
  using getValue_loop_total [OF assms, of None lock t] by (auto simp: Config_getValue_def)

section \<open>Reading options\<close>

text \<open>What a text does to one option.\<close>

definition read_option :: "string \<Rightarrow> opt \<Rightarrow> opt" where
  "read_option t item =
    (case Config_getValue t (opt_key item) (opt_lock item) of
       Some (found, lock) \<Rightarrow> item\<lparr>opt_lock := lock,
         opt_value := (case found of None \<Rightarrow> opt_value item | Some v \<Rightarrow> selects item (Some v))\<rparr>
     | None \<Rightarrow> item)"

definition options_ok :: "opt_list \<Rightarrow> bool" where
  "options_ok l \<longleftrightarrow> (case ol_options l of None \<Rightarrow> False
     | Some os \<Rightarrow> ol_count l = length os \<and> list_all opt_ok os \<and> distinct (map opt_key os)
         \<and> [] \<notin> opt_key ` set os)"

lemma options_okE:
  assumes "options_ok l"
  obtains os where "ol_options l = Some os" "ol_count l = length os" "list_all opt_ok os"
    "distinct (map opt_key os)" "[] \<notin> opt_key ` set os" "list_ok l"
  using assms by (auto simp: options_ok_def list_ok_def split: option.splits)

lemma read_option_same [simp]:
  "opt_key (read_option t item) = opt_key item" "opt_values (read_option t item) = opt_values item"
  by (auto simp: read_option_def split: option.splits)

lemma opt_ok_lock [simp]:
  "opt_ok (item\<lparr>opt_lock := b\<rparr>) \<longleftrightarrow> opt_ok item"
  "opt_ok (item\<lparr>opt_lock := b, opt_value := v\<rparr>) \<longleftrightarrow> opt_ok (item\<lparr>opt_value := v\<rparr>)"
  by (simp_all add: opt_ok_def)

lemma opt_ok_selects: "opt_ok item \<Longrightarrow> opt_ok (item\<lparr>opt_value := selects item v\<rparr>)"
  using selects_range [of item v] by (auto simp: opt_ok_def)

lemma read_option_ok: "opt_ok item \<Longrightarrow> opt_ok (read_option t item)"
  by (auto simp: read_option_def opt_ok_selects split: option.splits)

lemma options_ok_update:
  assumes "options_ok l" "ol_options l = Some os" "i < length os"
    "opt_ok item" "opt_key item = opt_key (os ! i)"
  shows "options_ok (l\<lparr>ol_options := Some (os[i := item]), ol_changed := c\<rparr>)"
    "options_ok (l\<lparr>ol_options := Some (os[i := item])\<rparr>)"
proof -
  have keys: "map opt_key (os[i := item]) = map opt_key os"
    using assms(5) by (simp add: map_update list_update_same_conv assms(3))
  then have "opt_key ` set (os[i := item]) = opt_key ` set os" by (metis list.set_map)
  moreover have "list_all opt_ok (os[i := item])"
    using assms by (auto simp: options_ok_def list_all_length nth_list_update)
  ultimately show "options_ok (l\<lparr>ol_options := Some (os[i := item]), ol_changed := c\<rparr>)"
    "options_ok (l\<lparr>ol_options := Some (os[i := item])\<rparr>)"
    using assms keys by (simp_all add: options_ok_def)
qed

lemma setOptionValue_at:
  assumes "options_ok l" "ol_options l = Some os" "i < length os"
  shows "\<exists>frames. OptionList_setOptionValue tag l (opt_key (os ! i)) (Some v) =
    Some (l\<lparr>ol_options := Some (os[i := (os ! i)\<lparr>opt_value := selects (os ! i) (Some v)\<rparr>]), ol_changed := True\<rparr>, frames)"
proof -
  have l: "ol_count l = length os" "list_all opt_ok os" "distinct (map opt_key os)"
    using assms(1,2) by (auto simp: options_ok_def)
  have "find (\<lambda>j. opt_key (os ! j) = opt_key (os ! i)) [0..<length os] = Some i"
    using assms(3) l(3) by (auto simp: find_Some_iff distinct_conv_nth intro!: exI [of _ i])
  then have "OptionList_getOption l (opt_key (os ! i)) = Some (Some i)"
    using assms l by (auto simp: OptionList_getOption_def)
  then show ?thesis using assms l getValueIndex_ok [of "os ! i" "Some v"]
    by (simp add: OptionList_setOptionValue_def Option_setValue_def list_all_length)
qed

lemma syncFrontend_at:
  assumes "ol_options (fe_list p) = Some os" "distinct (map opt_key os)" "8 \<le> length os" "i < length os"
  shows "\<exists>g. Config_syncFrontend (opt_key (os ! i)) (opt_value (os ! i)) p = Some (p\<lparr>globals := g\<rparr>)"
proof (cases "find (\<lambda>j. opt_key (os ! j) = opt_key (os ! i)) [0, 1, 2, 3, 5, 4, 6, 7]")
  case None
  then show ?thesis using assms by (intro exI [of _ "globals p"]) (simp add: Config_syncFrontend_def)
next
  case (Some j)
  then have "opt_key (os ! j) = opt_key (os ! i)" "j < 8"
    by (auto simp: find_Some_iff less_Suc_eq_0_disj nth_Cons' split: if_splits)
  then have "map opt_key os ! j = map opt_key os ! i" "j < length os" using assms(3,4) by simp_all
  then have "j = i" using assms(2,4) by (metis distinct_conv_nth length_map)
  have "(fe_list p)\<lparr>ol_options := Some os\<rparr> = fe_list p" using assms(1) by simp
  then show ?thesis using assms Some \<open>j = i\<close>
    by (intro exI [of _ "sync_global i (opt_value (os ! i)) (globals p)"])
      (simp add: Config_syncFrontend_def set_fe_value_def)
qed

lemma options_ok_item:
  assumes "options_ok l" "ol_options l = Some os" "i < length os"
  shows "opt_ok (os ! i)" "opt_key (os ! i) \<noteq> []" "distinct (map opt_key os)"
proof -
  have mem: "os ! i \<in> set os" using assms(3) by simp
  show "opt_ok (os ! i)" "distinct (map opt_key os)" using assms mem by (auto simp: options_ok_def list_all_iff)
  show "opt_key (os ! i) \<noteq> []"
  proof
    assume "opt_key (os ! i) = []"
    then have "[] \<in> opt_key ` set os" using mem by (metis image_eqI)
    with assms show False by (simp add: options_ok_def)
  qed
qed

lemma frames:
  "p' = p\<lparr>fe_list := fe_list p', globals := globals p', palette_updated := palette_updated p'\<rparr> \<Longrightarrow>
    \<exists>l g n. p' = p\<lparr>fe_list := l, globals := g, palette_updated := n\<rparr>"
  "p' = p\<lparr>core_list := core_list p', palette_updated := palette_updated p'\<rparr> \<Longrightarrow>
    \<exists>l n. p' = p\<lparr>core_list := l, palette_updated := n\<rparr>"
  by blast+

text \<open>One turn of each loop sets the option in place.\<close>

lemma read_fe_option_at:
  assumes "options_ok (fe_list p)" "ol_options (fe_list p) = Some os" "8 \<le> length os" "i < length os"
  shows "\<exists>p'. read_fe_option t i p = Some p' \<and> options_ok (fe_list p')
    \<and> ol_options (fe_list p') = Some (os[i := read_option t (os ! i)])
    \<and> (\<exists>l g n. p' = p\<lparr>fe_list := l, globals := g, palette_updated := n\<rparr>)"
proof -
  let ?item = "os ! i"
  note ok = options_ok_item [OF assms(1,2,4)]
  obtain found b where val: "Config_getValue t (opt_key ?item) (opt_lock ?item) = Some (found, b)"
    using getValue_total [OF ok(2)] by blast
  let ?locked = "os[i := ?item\<lparr>opt_lock := b\<rparr>]"
  let ?p = "p\<lparr>fe_list := (fe_list p)\<lparr>ol_options := Some ?locked\<rparr>\<rparr>"
  have ok': "options_ok (fe_list ?p)" using options_ok_update(2) [OF assms(1,2,4)] ok(1) by simp
  have keys: "map opt_key (os[i := ?item\<lparr>opt_lock := b, opt_value := v\<rparr>]) = map opt_key os" for v
    using assms(4) by (simp add: map_update list_update_same_conv)
  show ?thesis
  proof (cases found)
    case None
    then show ?thesis using val assms ok' ok
      by (intro exI [of _ ?p]) (auto simp: read_fe_option_def set_lock_def read_option_def intro!: frames)
  next
    case (Some v)
    let ?new = "os[i := ?item\<lparr>opt_lock := b, opt_value := selects ?item (Some v)\<rparr>]"
    let ?l = "(fe_list p)\<lparr>ol_options := Some ?new, ol_changed := True\<rparr>"
    have sel: "selects (?item\<lparr>opt_lock := b\<rparr>) (Some v) = selects ?item (Some v)" by (simp add: selects_def)
    obtain frames where set: "OptionList_setOptionValue (core_tag p) (fe_list ?p) (opt_key ?item) (Some v) = Some (?l, frames)"
      using setOptionValue_at [OF ok', of ?locked i "core_tag p" v] assms(4) sel by auto
    let ?q = "refresh_palette frames (?p\<lparr>fe_list := ?l\<rparr>)"
    have q: "fe_list ?q = ?l" by (simp add: refresh_palette_def)
    obtain g where "Config_syncFrontend (opt_key (?new ! i)) (opt_value (?new ! i)) ?q = Some (?q\<lparr>globals := g\<rparr>)"
      using syncFrontend_at [of ?q ?new i] q keys ok(3) assms(3,4) by auto
    then have "read_fe_option t i p = Some (?q\<lparr>globals := g\<rparr>)"
      using val assms Some set q by (simp add: read_fe_option_def set_lock_def Let_def)
    moreover have "options_ok ?l"
      using options_ok_update(1) [OF assms(1,2,4)] opt_ok_selects [OF ok(1)] by simp
    ultimately show ?thesis
      using val Some by (intro exI [of _ "?q\<lparr>globals := g\<rparr>"])
        (auto simp: read_option_def refresh_palette_def intro!: frames)
  qed
qed

lemma read_core_option_at:
  assumes "options_ok (core_list p)" "ol_options (core_list p) = Some os" "i < length os"
  shows "\<exists>p'. read_core_option t i p = Some p' \<and> options_ok (core_list p')
    \<and> ol_options (core_list p') = Some (os[i := read_option t (os ! i)])
    \<and> (\<exists>l n. p' = p\<lparr>core_list := l, palette_updated := n\<rparr>)"
proof -
  let ?item = "os ! i"
  note ok = options_ok_item [OF assms]
  obtain found b where val: "Config_getValue t (opt_key ?item) (opt_lock ?item) = Some (found, b)"
    using getValue_total [OF ok(2)] by blast
  let ?locked = "os[i := ?item\<lparr>opt_lock := b\<rparr>]"
  let ?p = "p\<lparr>core_list := (core_list p)\<lparr>ol_options := Some ?locked\<rparr>\<rparr>"
  have ok': "options_ok (core_list ?p)" using options_ok_update(2) [OF assms] ok(1) by simp
  show ?thesis
  proof (cases found)
    case None
    then show ?thesis using val assms ok' ok
      by (intro exI [of _ ?p]) (auto simp: read_core_option_def set_lock_def read_option_def intro!: frames)
  next
    case (Some v)
    let ?new = "os[i := ?item\<lparr>opt_lock := b, opt_value := selects ?item (Some v)\<rparr>]"
    let ?l = "(core_list p)\<lparr>ol_options := Some ?new, ol_changed := True\<rparr>"
    have sel: "selects (?item\<lparr>opt_lock := b\<rparr>) (Some v) = selects ?item (Some v)" by (simp add: selects_def)
    obtain frames where set: "OptionList_setOptionValue (core_tag p) (core_list ?p) (opt_key ?item) (Some v) = Some (?l, frames)"
      using setOptionValue_at [OF ok', of ?locked i "core_tag p" v] assms(3) sel by auto
    let ?q = "refresh_palette frames (?p\<lparr>core_list := ?l\<rparr>)"
    have "read_core_option t i p = Some ?q"
      using val assms Some set by (simp add: read_core_option_def set_lock_def Let_def)
    moreover have "options_ok ?l"
      using options_ok_update(1) [OF assms] opt_ok_selects [OF ok(1)] by simp
    ultimately show ?thesis
      using val Some by (intro exI [of _ ?q]) (auto simp: read_option_def refresh_palette_def intro!: frames)
  qed
qed

text \<open>A loop whose turns each replace one item of a list maps the list.\<close>

lemma fold_indices:
  assumes "\<And>i s ys. get s = Some ys \<Longrightarrow> i < length ys \<Longrightarrow> length ys = length xs \<Longrightarrow> I s \<Longrightarrow>
      \<exists>s'. step i s = Some s' \<and> get s' = Some (ys[i := f (ys ! i)]) \<and> I s'"
    and "get s = Some xs" "I s" "n \<le> length xs"
  shows "\<exists>s'. fold_opt step [0..<n] s = Some s' \<and> get s' = Some (map f (take n xs) @ drop n xs) \<and> I s'"
  using assms(4)
proof (induction n)
  case 0
  then show ?case using assms(2,3) by simp
next
  case (Suc n)
  then obtain s' where s': "fold_opt step [0..<n] s = Some s'"
    "get s' = Some (map f (take n xs) @ drop n xs)" "I s'" by auto
  from assms(1) [OF s'(2) _ _ s'(3), of n] Suc.prems obtain s'' where
    "step n s' = Some s''" "I s''"
    "get s'' = Some ((map f (take n xs) @ drop n xs)[n := f ((map f (take n xs) @ drop n xs) ! n)])"
    by auto
  moreover have "(map f (take n xs) @ drop n xs)[n := f ((map f (take n xs) @ drop n xs) ! n)]
    = map f (take (Suc n) xs) @ drop (Suc n) xs"
    using Suc.prems by (simp add: list_update_append nth_append take_Suc_conv_app_nth Cons_nth_drop_Suc [symmetric])
  ultimately show ?case using s'(1) by (simp add: fold_opt_append)
qed

definition gamepad_ok :: "string \<Rightarrow> player \<Rightarrow> bool" where
  "gamepad_ok t p \<longleftrightarrow> (has_custom_controllers p \<longrightarrow>
    (case Config_getValue t ''minarch_gamepad_type'' False of
       Some (Some v, b) \<Rightarrow> scan_i v = 0 \<or> scan_i v = 1 | _ \<Rightarrow> True))"

definition gamepad_read :: "string \<Rightarrow> player \<Rightarrow> int" where
  "gamepad_read t p =
    (case Config_getValue t ''minarch_gamepad_type'' False of
       Some (Some v, b) \<Rightarrow> if has_custom_controllers p then scan_i v else gamepad_type p
     | _ \<Rightarrow> gamepad_type p)"

lemma read_gamepad_ok:
  assumes "gamepad_ok t p"
  shows "\<exists>c. read_gamepad t p = Some (p\<lparr>gamepad_type := gamepad_read t p, port_device := c\<rparr>)"
proof -
  obtain found b where found: "Config_getValue t ''minarch_gamepad_type'' False = Some (found, b)"
    using getValue_total [of "''minarch_gamepad_type''" t False] by auto
  show ?thesis
  proof (cases "has_custom_controllers p \<and> found \<noteq> None")
    case True
    then obtain v where v: "found = Some v" by blast
    then have "0 \<le> scan_i v \<and> nat (scan_i v) < length gamepad_values"
      using assms True found by (auto simp: gamepad_ok_def gamepad_values_def)
    with True found v show ?thesis
      by (simp add: read_gamepad_def gamepad_read_def Let_def) (intro exI, rule refl)
  next
    case False
    with found show ?thesis
      by (intro exI [of _ "port_device p"]) (auto simp: read_gamepad_def gamepad_read_def split: option.splits)
  qed
qed

text \<open>Reading a text is reading every option from it.\<close>

lemma readOptionsString_eq:
  assumes "options_ok (fe_list p)" "ol_options (fe_list p) = Some os" "8 \<le> length os"
    and "options_ok (core_list p)" "ol_options (core_list p) = Some cs" "gamepad_ok t p"
  shows "\<exists>p'. Config_readOptionsString (Some t) p = Some p'
    \<and> options_ok (fe_list p') \<and> ol_options (fe_list p') = Some (map (read_option t) os)
    \<and> options_ok (core_list p') \<and> ol_options (core_list p') = Some (map (read_option t) cs)
    \<and> gamepad_type p' = gamepad_read t p
    \<and> (\<exists>l g n d c k. p' = p\<lparr>fe_list := l, globals := g, palette_updated := n, gamepad_type := d, port_device := c, core_list := k\<rparr>)"
proof -
  let ?I = "\<lambda>s. options_ok (fe_list s) \<and> (\<exists>l g n. s = p\<lparr>fe_list := l, globals := g, palette_updated := n\<rparr>)"
  have "\<exists>s'. fold_opt (read_fe_option t) [0..<length os] p = Some s'
    \<and> ol_options (fe_list s') = Some (map (read_option t) (take (length os) os) @ drop (length os) os) \<and> ?I s'"
  proof (rule fold_indices [where get = "\<lambda>s. ol_options (fe_list s)"])
    fix i s ys
    assume ys: "ol_options (fe_list s) = Some ys" "i < length ys" "length ys = length os" and s: "?I s"
    obtain s' where s': "read_fe_option t i s = Some s'" "options_ok (fe_list s')"
      "ol_options (fe_list s') = Some (ys[i := read_option t (ys ! i)])"
      "\<exists>l g n. s' = s\<lparr>fe_list := l, globals := g, palette_updated := n\<rparr>"
      using read_fe_option_at [of s ys i t] s ys assms(3) by auto
    then have "\<exists>l g n. s' = p\<lparr>fe_list := l, globals := g, palette_updated := n\<rparr>"
      using s by (elim exE conjE) (simp, blast)
    with s' show "\<exists>s'. read_fe_option t i s = Some s'
        \<and> ol_options (fe_list s') = Some (ys[i := read_option t (ys ! i)]) \<and> ?I s'" by blast
  qed (use assms in \<open>auto intro!: frames\<close>)
  then obtain p1 l g n where p1: "fold_opt (read_fe_option t) [0..<length os] p = Some p1"
    "ol_options (fe_list p1) = Some (map (read_option t) os)" "options_ok (fe_list p1)"
    "p1 = p\<lparr>fe_list := l, globals := g, palette_updated := n\<rparr>" by auto
  define d where "d = gamepad_read t p"
  have d: "d = gamepad_read t p1" by (simp add: d_def gamepad_read_def p1(4) split: option.split)
  have "\<exists>c. read_gamepad t p1 = Some (p1\<lparr>gamepad_type := d, port_device := c\<rparr>)"
    using assms(6) p1(4) unfolding d by (intro read_gamepad_ok) (simp add: gamepad_ok_def)
  then obtain c where p2: "read_gamepad t p1 = Some (p1\<lparr>gamepad_type := d, port_device := c\<rparr>)" by blast
  let ?p2 = "p1\<lparr>gamepad_type := d, port_device := c\<rparr>"
  let ?I = "\<lambda>s. options_ok (core_list s) \<and> (\<exists>k n. s = ?p2\<lparr>core_list := k, palette_updated := n\<rparr>)"
  have "\<exists>s'. fold_opt (read_core_option t) [0..<length cs] ?p2 = Some s'
    \<and> ol_options (core_list s') = Some (map (read_option t) (take (length cs) cs) @ drop (length cs) cs) \<and> ?I s'"
  proof (rule fold_indices [where get = "\<lambda>s. ol_options (core_list s)"])
    fix i s ys
    assume ys: "ol_options (core_list s) = Some ys" "i < length ys" "length ys = length cs" and s: "?I s"
    obtain s' where s': "read_core_option t i s = Some s'" "options_ok (core_list s')"
      "ol_options (core_list s') = Some (ys[i := read_option t (ys ! i)])"
      "\<exists>l n. s' = s\<lparr>core_list := l, palette_updated := n\<rparr>"
      using read_core_option_at [of s ys i t] s ys by auto
    then have "\<exists>k n. s' = ?p2\<lparr>core_list := k, palette_updated := n\<rparr>"
      using s by (elim exE conjE) (simp, blast)
    with s' show "\<exists>s'. read_core_option t i s = Some s'
        \<and> ol_options (core_list s') = Some (ys[i := read_option t (ys ! i)]) \<and> ?I s'" by blast
  qed (use assms p1(4) in \<open>auto intro!: frames\<close>)
  then obtain p3 k n' where p3: "fold_opt (read_core_option t) [0..<length cs] ?p2 = Some p3"
    "ol_options (core_list p3) = Some (map (read_option t) cs)" "options_ok (core_list p3)"
    "p3 = ?p2\<lparr>core_list := k, palette_updated := n'\<rparr>" by auto
  have "Config_readOptionsString (Some t) p = Some p3"
    using assms(2,5) p1(1,4) p2 p3(1) by (simp add: Config_readOptionsString_def)
  moreover have "fe_list p3 = fe_list p1" "gamepad_type p3 = gamepad_read t p" by (simp_all add: p3(4) d_def)
  moreover have "\<exists>l g n d c k. p3 = p\<lparr>fe_list := l, globals := g, palette_updated := n, gamepad_type := d,
      port_device := c, core_list := k\<rparr>"
    by (rule exI [of _ l], rule exI [of _ g], rule exI [of _ n'], rule exI [of _ d], rule exI [of _ c],
        rule exI [of _ k]) (simp add: p3(4) p1(4))
  ultimately show ?thesis using p1 p3 by auto
qed

section \<open>The default bindings\<close>

definition binding_text :: "(string \<times> string) list \<Rightarrow> string" where
  "binding_text bs = concat (map (\<lambda>(nm, v). ''bind '' @ nm @ '' = '' @ v @ [NL]) bs)"

definition plain_binding :: "string \<times> string \<Rightarrow> bool" where
  "plain_binding b \<longleftrightarrow> CHR ''='' \<notin> set (fst b) \<and> length (fst b) < 128 \<and> NL \<notin> set (snd b)
    \<and> length (snd b) < 128 \<and> \<not> sublist ''bind '' (snd b)"

lemma strstr_line:
  assumes "NL \<notin> set w" "w \<noteq> []" "pre = [] \<or> (\<exists>p. pre = p @ [NL])" "\<not> sublist w pre"
  shows "strstr (pre @ w @ rest) w = Some (length pre)"
proof -
  obtain i where i: "strstr (pre @ w @ rest) w = Some i" "i \<le> length pre"
    using strstr_found [of w "length pre" "pre @ w @ rest"] by auto
  moreover have "\<not> i < length pre"
  proof
    assume "i < length pre"
    then obtain p where p: "pre = p @ [NL]" "i \<le> length p" using assms(3) by auto
    have "prefix w (drop i p @ NL # w @ rest)" using strstr_Some [OF i(1)] p by simp
    then have "sublist w p"
      using prefix_before assms(1) by (metis prefix_imp_sublist sublist_drop sublist_order.order_trans)
    then show False using assms(4) p(1) by (metis sublist_append_rightI sublist_order.order_trans)
  qed
  ultimately show ?thesis by simp
qed

lemma strstr_equals:
  assumes "CHR ''='' \<notin> set nm"
  shows "strstr (nm @ '' = '' @ rest) '' = '' = Some (length nm)"
proof -
  obtain i where i: "strstr (nm @ '' = '' @ rest) '' = '' = Some i" "i \<le> length nm"
    using strstr_found [of "'' = ''" "length nm" "nm @ '' = '' @ rest"] by auto
  moreover have "\<not> i < length nm"
  proof
    assume "i < length nm"
    then obtain c cs where cs: "drop i nm = c # cs" by (cases "drop i nm") auto
    have "prefix '' = '' (drop i nm @ '' = '' @ rest)" using strstr_Some [OF i(1)] i(2) by simp
    then have "hd (cs @ '' = '' @ rest) = CHR ''=''" using cs by (cases cs) auto
    then have "CHR ''='' \<in> set cs" by (cases cs) auto
    then show False using assms cs by (metis in_set_dropD list.set_intros(2))
  qed
  ultimately show ?thesis by simp
qed

lemma button_id_of_line:
  assumes "NL \<notin> set v" "length v < 128"
  shows "button_id_of (v @ NL # rest) = Some v"
proof -
  have "take 128 (v @ NL # rest) = v @ NL # take (127 - length v) rest"
    using assms(2) by (simp add: take_Cons')
  then show ?thesis using assms(1) by (simp add: button_id_of_def cut_line_def strchr_append)
qed

lemma init_loop_bindings:
  assumes "list_all plain_binding bs" "length acc + length bs \<le> 17"
    and "pre = [] \<or> (\<exists>p. pre = p @ [NL])" "\<not> sublist ''bind '' pre"
  shows "init_loop (pre @ binding_text bs) acc = Some (acc @ map (\<lambda>(nm, v). binding_entry nm v) bs)"
  using assms
proof (induction bs arbitrary: pre acc)
  case Nil
  then have "strstr pre ''bind '' = None" using strstr_sublist [of pre "''bind ''"] by (cases "strstr pre ''bind ''") auto
  then show ?case by (subst init_loop.simps) (simp add: binding_text_def)
next
  case (Cons b bs)
  obtain nm v where b: "b = (nm, v)" by (cases b)
  have v: "CHR ''='' \<notin> set nm" "length nm < 128" "NL \<notin> set v" "length v < 128" "\<not> sublist ''bind '' v"
    using Cons.prems(1) b by (simp_all add: plain_binding_def)
  let ?rest = "v @ NL # binding_text bs"
  define used where "used = (case strrchr v (CHR '':'') of None \<Rightarrow> length v | Some j \<Rightarrow> j)"
  have used: "used \<le> length v" by (auto simp: used_def dest: strrchr_less split: option.split)
  have split: "pre @ binding_text (b # bs) = pre @ ''bind '' @ nm @ '' = '' @ ?rest"
    by (simp add: binding_text_def b)
  have "strstr (pre @ ''bind '' @ nm @ '' = '' @ ?rest) ''bind '' = Some (length pre)"
    using Cons.prems(3,4) by (intro strstr_line) (auto simp: NL_def)
  then have "init_loop (pre @ binding_text (b # bs)) acc = init_loop (drop used ?rest) (acc @ [binding_entry nm v])"
    unfolding split
    using strstr_equals [OF v(1), of ?rest] button_id_of_line [OF v(3,4)] v(2) Cons.prems(2)
    by (subst init_loop.simps) (simp add: used_def Let_def)
  also have "drop used ?rest = (drop used v @ [NL]) @ binding_text bs" using used by simp
  also have "init_loop \<dots> (acc @ [binding_entry nm v]) = Some ((acc @ [binding_entry nm v]) @ map (\<lambda>(nm, v). binding_entry nm v) bs)"
  proof (rule Cons.IH)
    show "\<not> sublist ''bind '' (drop used v @ [NL])"
    proof
      assume "sublist ''bind '' (drop used v @ [NL])"
      then have "sublist ''bind '' (drop used v) \<or> sublist ''bind '' []"
        using sublist_lines [of NL "''bind ''" "drop used v" "[]"] by (simp add: NL_def)
      then show False using v(5) sublist_drop [of used v] sublist_order.order_trans by auto
    qed
  qed (use Cons.prems in auto)
  finally show ?case using b by simp
qed

text \<open>
  The default bindings are read as they are written: from a text of lines "bind NAME = BUTTON"
  or "bind NAME = BUTTON:OTHER", as many as the table holds, Config_init makes one control per line,
  in order, with that name and button, and reads the text once.
\<close>

theorem default_bindings_read:
  assumes "default_cfg p = Some (binding_text bs)" "list_all plain_binding bs" "length bs \<le> 17" "\<not> cfg_initialized p"
  shows "\<exists>q. Config_init p = Some q \<and> core_buttons q = map (\<lambda>(nm, v). binding_entry nm v) bs
    \<and> Config_init q = Some q"
  using init_loop_bindings [of bs "[]" "[]"] assms by (simp add: Config_init_def sublist_code split: option.split)

section \<open>Bindings\<close>

definition binding :: "mapping \<Rightarrow> int \<times> bool" where
  "binding m = (mp_local m, mp_mod m)"

definition binding_ok :: "mapping \<Rightarrow> bool" where
  "binding_ok m \<longleftrightarrow> (if mp_mod m then 0 else - 1) \<le> mp_local m \<and> mp_local m < 16
    \<and> length (mp_name m) < 251"

definition binding_label :: "mapping \<Rightarrow> string" where
  "binding_label m = button_labels ! nat (mp_local m + 1 + (if mp_mod m then int LOCAL_BUTTON_COUNT else 0))"

lemma length_button_labels [simp]: "length button_labels = 33"
  by (simp add: button_labels_def)

lemma distinct_button_labels: "distinct button_labels"
  by code_simp

lemma button_labels_plain: "\<forall>v\<in>set button_labels. CHR '':'' \<notin> set v \<and> NL \<notin> set v \<and> length v < 255"
  by code_simp

lemma binding_of_label:
  assumes "binding_ok m"
  shows "binding_of (binding_label m) = binding m" "binding_label m \<in> set button_labels"
proof -
  define j where "j = nat (mp_local m + 1 + (if mp_mod m then int LOCAL_BUTTON_COUNT else 0))"
  have j: "j < 33" "int j = mp_local m + 1 + (if mp_mod m then 16 else 0)"
    using assms by (auto simp: j_def binding_ok_def LOCAL_BUTTON_COUNT_def split: if_splits)
  have "find (\<lambda>i. button_labels ! i = button_labels ! j) [0..<length button_labels] = Some j"
    using j(1) distinct_button_labels by (auto simp: find_Some_iff distinct_conv_nth intro!: exI [of _ j])
  moreover have label: "binding_label m = button_labels ! j" by (simp add: binding_label_def j_def)
  ultimately show "binding_of (binding_label m) = binding m"
    using j assms by (auto simp: binding_of_def binding_def binding_ok_def LOCAL_BUTTON_COUNT_def split: if_splits)
  show "binding_label m \<in> set button_labels"
    using j(1) label by simp
qed

lemma binding_line_label:
  assumes "binding_ok m"
  shows "binding_line m = Some (cfg_line (''bind '' @ mp_name m) (binding_label m))"
  using assms by (auto simp: binding_line_def binding_label_def binding_ok_def LOCAL_BUTTON_COUNT_def Let_def)

lemma read_binding:
  assumes "Config_getValue t (''bind '' @ mp_name m) False = Some (Some (binding_label k), b)"
    "binding_ok k" "mp_name m = mp_name k"
  shows "read_control t m = Some (m\<lparr>mp_local := mp_local k, mp_mod := mp_mod k\<rparr>)"
    "read_shortcut t m = Some (m\<lparr>mp_local := mp_local k, mp_mod := mp_mod k\<rparr>)"
proof -
  have "CHR '':'' \<notin> set (binding_label k)"
    using binding_of_label(2) [OF assms(2)] button_labels_plain by blast
  moreover have "length (''bind '' @ mp_name m) < 256"
    using assms(2,3) by (simp add: binding_ok_def)
  ultimately show "read_control t m = Some (m\<lparr>mp_local := mp_local k, mp_mod := mp_mod k\<rparr>)"
    "read_shortcut t m = Some (m\<lparr>mp_local := mp_local k, mp_mod := mp_mod k\<rparr>)"
    using assms binding_of_label(1) [OF assms(2)]
    by (simp_all add: read_control_def read_shortcut_def set_binding_def binding_def)
qed

section \<open>The saved text\<close>

definition saved_entries :: "player \<Rightarrow> opt list \<Rightarrow> opt list \<Rightarrow> (string \<times> string) list" where
  "saved_entries p os cs =
    map (\<lambda>item. (opt_key item, opt_values item ! opt_value item)) (os @ cs)
    @ (if has_custom_controllers p then [(''minarch_gamepad_type'', c_int (gamepad_type p))] else [])
    @ map (\<lambda>m. (''bind '' @ mp_name m, binding_label m)) (controls p @ shortcuts p)"

text \<open>
  A text can be read back when its lines are lines and no line reads like the key of a later one.
\<close>

fun readable :: "(string \<times> string) list \<Rightarrow> bool" where
  "readable [] = True"
| "readable ((k, v) # es) = (k \<noteq> [] \<and> NL \<notin> set k \<and> NL \<notin> set v \<and> length v < 255
     \<and> list_all (\<lambda>(k', v'). \<not> sublist (k' @ '' = '') (k @ '' = '' @ v)) es \<and> readable es)"

definition entries_text :: "(string \<times> string) list \<Rightarrow> string" where
  "entries_text es = concat (map (\<lambda>(k, v). cfg_line k v) es)"

lemma getValue_entries:
  assumes "readable es" "(k, v) \<in> set es" "pre = [] \<or> (\<exists>p. pre = p @ [NL])"
    "\<forall>(k', v')\<in>set es. \<not> sublist (k' @ '' = '') pre"
  shows "\<exists>b. Config_getValue (pre @ entries_text es) k lock = Some (Some v, b)"
  using assms
proof (induction es arbitrary: pre)
  case Nil
  then show ?case by simp
next
  case (Cons e es)
  obtain k' v' where e: "e = (k', v')" by (cases e)
  show ?case
  proof (cases "(k, v) = e")
    case True
    then show ?thesis
      using getValue_line [of k pre v "entries_text es" lock] Cons.prems e by (auto simp: entries_text_def)
  next
    case False
    have "\<not> sublist (k2 @ '' = '') (pre @ cfg_line k' v')" if "(k2, v2) \<in> set es" for k2 v2
    proof
      assume s: "sublist (k2 @ '' = '') (pre @ cfg_line k' v')"
      have nl: "NL \<notin> set (k2 @ '' = '')"
        using Cons.prems(1) that e by (induction es) (auto simp: NL_def)
      have one: "\<not> sublist (k2 @ '' = '') pre" "\<not> sublist (k2 @ '' = '') (k' @ '' = '' @ v')"
        using Cons.prems(1,4) that e by (auto simp: list_all_iff)
      have line: "sublist (k2 @ '' = '') ((k' @ '' = '' @ v') @ NL # []) \<Longrightarrow> False"
        using sublist_lines [OF nl, of "k' @ '' = '' @ v'" "[]"] one(2) by auto
      show False
      proof (cases "pre = []")
        case True
        with s line show ?thesis by (simp add: cfg_line_def)
      next
        case False
        then obtain p0 where p0: "pre = p0 @ [NL]" using Cons.prems(3) by auto
        then have "\<not> sublist (k2 @ '' = '') p0"
          using one(1) by (metis sublist_append_rightI sublist_order.order_trans)
        with p0 s sublist_lines [OF nl, of p0 "cfg_line k' v'"] one(1) line show ?thesis
          by (auto simp: cfg_line_def)
      qed
    qed
    then show ?thesis
      using Cons.IH [of "pre @ cfg_line k' v'"] Cons.prems False e
      by (auto simp: entries_text_def cfg_line_def)
  qed
qed

definition same_options :: "opt list \<Rightarrow> opt list \<Rightarrow> bool" where
  "same_options os os' \<longleftrightarrow> map (\<lambda>item. (opt_key item, opt_values item)) os = map (\<lambda>item. (opt_key item, opt_values item)) os'"

definition shown_value :: "opt \<Rightarrow> string" where
  "shown_value item = opt_values item ! opt_value item"

lemma read_option_entry:
  assumes "Config_getValue t (opt_key item) (opt_lock item) = Some (Some v, b)" "opt_ok item" "v \<in> set (opt_values item)"
  shows "shown_value (read_option t item) = v" "opt_value (read_option t item) < length (opt_values item)"
  using assms selects_value [of item v] by (simp_all add: read_option_def shown_value_def)

lemma read_options_entries:
  assumes "list_all opt_ok qs" "same_options qs os" "readable es"
    and "\<forall>item\<in>set os. opt_value item < length (opt_values item)"
    and "\<forall>item\<in>set os. (opt_key item, shown_value item) \<in> set es"
  shows "map shown_value (map (read_option (entries_text es)) qs) = map shown_value os"
proof (rule nth_equalityI)
  have len: "length qs = length os" using assms(2) unfolding same_options_def by (metis length_map)
  then show "length (map shown_value (map (read_option (entries_text es)) qs)) = length (map shown_value os)"
    by simp
  fix i
  assume "i < length (map shown_value (map (read_option (entries_text es)) qs))"
  then have i: "i < length qs" "i < length os" using len by simp_all
  have "map (\<lambda>item. (opt_key item, opt_values item)) qs ! i = map (\<lambda>item. (opt_key item, opt_values item)) os ! i"
    using assms(2) by (simp add: same_options_def)
  then have same: "opt_key (qs ! i) = opt_key (os ! i)" "opt_values (qs ! i) = opt_values (os ! i)"
    using i by simp_all
  have "(opt_key (os ! i), shown_value (os ! i)) \<in> set es" using assms(5) i(2) by simp
  then obtain b where "Config_getValue (entries_text es) (opt_key (qs ! i)) (opt_lock (qs ! i)) = Some (Some (shown_value (os ! i)), b)"
    using getValue_entries [OF assms(3), of _ _ "[]" "opt_lock (qs ! i)"] same(1) by (auto simp: sublist_code)
  moreover have "shown_value (os ! i) \<in> set (opt_values (qs ! i))"
    using assms(4) i(2) same(2) by (simp add: shown_value_def)
  moreover have "opt_ok (qs ! i)" using assms(1) i(1) by (simp add: list_all_length)
  ultimately have "shown_value (read_option (entries_text es) (qs ! i)) = shown_value (os ! i)"
    using read_option_entry(1) by blast
  then show "map shown_value (map (read_option (entries_text es)) qs) ! i = map shown_value os ! i" using i by simp
qed

lemma read_controls_entries:
  assumes "map mp_name ms = map mp_name ks" "readable es" "\<forall>k\<in>set ks. binding_ok k"
    and "\<forall>k\<in>set ks. (''bind '' @ mp_name k, binding_label k) \<in> set es"
    and "f = read_control \<or> f = read_shortcut"
  shows "\<exists>ms'. those (map (f (entries_text es)) ms) = Some ms' \<and> map binding ms' = map binding ks
    \<and> map mp_name ms' = map mp_name ms"
  using assms(1,3,4)
proof (induction ms ks rule: list_induct2')
  case (4 m ms k ks)
  obtain b where "Config_getValue (entries_text es) (''bind '' @ mp_name m) False = Some (Some (binding_label k), b)"
    using getValue_entries [OF assms(2), of "''bind '' @ mp_name k" "binding_label k" "[]" False] "4.prems"
    by (auto simp: sublist_code)
  then have "f (entries_text es) m = Some (m\<lparr>mp_local := mp_local k, mp_mod := mp_mod k\<rparr>)"
    using read_binding [of "entries_text es" m k b] "4.prems" assms(5) by auto
  with 4 show ?case by (auto simp: binding_def)
qed auto

section \<open>The round trip\<close>

definition opts :: "opt_list \<Rightarrow> opt list" where
  "opts l = (case ol_options l of None \<Rightarrow> [] | Some os \<Rightarrow> os)"

definition config_ok :: "player \<Rightarrow> bool" where
  "config_ok p \<longleftrightarrow> options_ok (fe_list p) \<and> options_ok (core_list p) \<and> 8 \<le> ol_count (fe_list p)
    \<and> list_all (\<lambda>item. opt_values item \<noteq> []) (opts (fe_list p) @ opts (core_list p))
    \<and> list_all binding_ok (controls p @ shortcuts p)
    \<and> (has_custom_controllers p \<longrightarrow> gamepad_type p = 0 \<or> gamepad_type p = 1)
    \<and> readable (saved_entries p (opts (fe_list p)) (opts (core_list p)))"

text \<open>Another run of the same game: the same tables, whatever the values.\<close>

definition same_setup :: "player \<Rightarrow> player \<Rightarrow> bool" where
  "same_setup q p \<longleftrightarrow> options_ok (fe_list q) \<and> options_ok (core_list q)
    \<and> same_options (opts (fe_list q)) (opts (fe_list p)) \<and> same_options (opts (core_list q)) (opts (core_list p))
    \<and> has_custom_controllers q = has_custom_controllers p
    \<and> map mp_name (controls q) = map mp_name (controls p) \<and> map mp_name (shortcuts q) = map mp_name (shortcuts p)"

lemma config_text_entries:
  assumes "config_ok p"
  shows "config_text p = Some (entries_text (saved_entries p (opts (fe_list p)) (opts (core_list p))))"
proof -
  obtain os cs where os: "ol_options (fe_list p) = Some os" "ol_options (core_list p) = Some cs"
    using assms by (auto simp: config_ok_def elim!: options_okE)
  have range: "opt_value item < length (opt_values item)" if "item \<in> set (os @ cs)" for item
    using assms os that by (auto simp: config_ok_def opts_def options_ok_def list_all_iff opt_ok_def)
  have line: "option_line item = Some (cfg_line (opt_key item) (shown_value item))" if "item \<in> set (os @ cs)" for item
    using range [OF that] by (simp add: option_line_def shown_value_def)
  have opt: "those (map option_line xs) = Some (map (\<lambda>item. cfg_line (opt_key item) (shown_value item)) xs)"
    if "set xs \<subseteq> set (os @ cs)" for xs
    using that line by (simp add: those_Some subset_iff)
  have bind: "those (map binding_line xs) = Some (map (\<lambda>m. cfg_line (''bind '' @ mp_name m) (binding_label m)) xs)"
    if "set xs \<subseteq> set (controls p @ shortcuts p)" for xs
  proof -
    have "binding_line m = Some (cfg_line (''bind '' @ mp_name m) (binding_label m))" if "m \<in> set xs" for m
      using assms that \<open>set xs \<subseteq> _\<close> by (intro binding_line_label) (auto simp: config_ok_def list_all_iff)
    then show ?thesis by (simp add: those_Some)
  qed
  show ?thesis
    using os opt [of os] opt [of cs] bind [of "controls p"] bind [of "shortcuts p"]
    by (simp add: config_text_def opts_def entries_text_def saved_entries_def comp_def shown_value_def)
qed

lemma same_setup_keys:
  assumes "same_setup q p"
  shows "length (opts (fe_list q)) = length (opts (fe_list p))"
  using assms unfolding same_setup_def same_options_def by (metis length_map)

lemma same_options_read: "same_options (map (read_option t) os) os' \<longleftrightarrow> same_options os os'"
  by (simp add: same_options_def comp_def)

text \<open>Reading any text keeps the setup.\<close>

lemma readOptions_setup:
  assumes "same_setup q p" "config_ok p" "gamepad_ok t q"
  obtains q' where "Config_readOptionsString (Some t) q = Some q'" "same_setup q' p"
    "opts (fe_list q') = map (read_option t) (opts (fe_list q))"
    "opts (core_list q') = map (read_option t) (opts (core_list q))"
    "controls q' = controls q" "shortcuts q' = shortcuts q"
    "system_cfg q' = system_cfg q" "default_cfg q' = default_cfg q" "user_cfg q' = user_cfg q"
    "has_custom_controllers q' = has_custom_controllers q" "gamepad_type q' = gamepad_read t q"
proof -
  have ok: "options_ok (fe_list q)" "options_ok (core_list q)" using assms(1) by (simp_all add: same_setup_def)
  obtain os cs where os: "ol_options (fe_list q) = Some os" "ol_options (core_list q) = Some cs"
    using ok by (auto elim!: options_okE)
  obtain ps where "ol_options (fe_list p) = Some ps" "ol_count (fe_list p) = length ps"
    using assms(2) by (auto simp: config_ok_def elim!: options_okE)
  then have len: "8 \<le> length os"
    using same_setup_keys [OF assms(1)] assms(2) os by (simp add: opts_def config_ok_def)
  obtain q' where q': "Config_readOptionsString (Some t) q = Some q'"
    "options_ok (fe_list q')" "ol_options (fe_list q') = Some (map (read_option t) os)"
    "options_ok (core_list q')" "ol_options (core_list q') = Some (map (read_option t) cs)"
    "gamepad_type q' = gamepad_read t q"
    "\<exists>l g n d c k. q' = q\<lparr>fe_list := l, globals := g, palette_updated := n, gamepad_type := d, port_device := c, core_list := k\<rparr>"
    using readOptionsString_eq [OF ok(1) os(1) len ok(2) os(2) assms(3)] by blast
  have same: "controls q' = controls q" "shortcuts q' = shortcuts q"
    "system_cfg q' = system_cfg q" "default_cfg q' = default_cfg q" "user_cfg q' = user_cfg q"
    "has_custom_controllers q' = has_custom_controllers q"
    using q'(7) by auto
  have opts: "opts (fe_list q') = map (read_option t) (opts (fe_list q))"
    "opts (core_list q') = map (read_option t) (opts (core_list q))"
    using q'(3,5) os by (simp_all add: opts_def)
  have "same_setup q' p"
    using assms(1) q'(2,4) same opts by (simp add: same_setup_def same_options_read)
  with that [OF q'(1)] opts same q'(6) show thesis by blast
qed

lemma read_controls_ok:
  assumes "\<forall>m\<in>set ms. length (mp_name m) < 251" "f = read_control \<or> f = read_shortcut"
  shows "\<exists>ms'. those (map (f t) ms) = Some ms' \<and> map mp_name ms' = map mp_name ms"
  using assms(1)
proof (induction ms)
  case (Cons m ms)
  obtain found b where "Config_getValue t (''bind '' @ mp_name m) False = Some (found, b)"
    using getValue_total [of "''bind '' @ mp_name m" t False] by auto
  then have "\<exists>m'. f t m = Some m' \<and> mp_name m' = mp_name m"
    using Cons.prems assms(2)
    by (auto simp: read_control_def read_shortcut_def set_binding_def split: option.split)
  with Cons show ?case by auto
qed simp

lemma names_short:
  assumes "map mp_name ms = map mp_name ks" "\<forall>k\<in>set ks. length (mp_name k) < 251"
  shows "\<forall>m\<in>set ms. length (mp_name m) < 251"
  using assms by (induction ms ks rule: list_induct2') auto

lemma setup_names:
  assumes "same_setup q p" "config_ok p"
  shows "\<forall>m\<in>set (controls q). length (mp_name m) < 251" "\<forall>m\<in>set (shortcuts q). length (mp_name m) < 251"
  using assms names_short [of "controls q" "controls p"] names_short [of "shortcuts q" "shortcuts p"]
  by (simp_all add: same_setup_def config_ok_def list_all_iff binding_ok_def)

lemma readControls_setup:
  assumes "same_setup q p" "config_ok p"
  obtains q' where "Config_readControlsString (Some t) q = Some q'" "same_setup q' p"
    "\<exists>cs ss. q' = q\<lparr>controls := cs, shortcuts := ss\<rparr>"
proof -
  obtain cs ss where "those (map (read_control t) (controls q)) = Some cs" "map mp_name cs = map mp_name (controls q)"
    "those (map (read_shortcut t) (shortcuts q)) = Some ss" "map mp_name ss = map mp_name (shortcuts q)"
    using read_controls_ok [OF setup_names(1) [OF assms], of read_control t]
      read_controls_ok [OF setup_names(2) [OF assms], of read_shortcut t] by auto
  with assms(1) show thesis
    by (intro that [of "q\<lparr>controls := cs, shortcuts := ss\<rparr>"])
      (auto simp: Config_readControlsString_def same_setup_def intro!: exI)
qed

text \<open>The user's text, read last, has the last word.\<close>

lemma readOptions_saved:
  assumes p: "config_ok p" "config_text p = Some t" and q: "same_setup q p" "gamepad_ok t q"
  obtains q' where "Config_readOptionsString (Some t) q = Some q'" "same_setup q' p"
    "map shown_value (opts (fe_list q')) = map shown_value (opts (fe_list p))"
    "map shown_value (opts (core_list q')) = map shown_value (opts (core_list p))"
    "has_custom_controllers p \<Longrightarrow> gamepad_type q' = gamepad_type p"
    "controls q' = controls q" "shortcuts q' = shortcuts q"
proof -
  define es where "es = saved_entries p (opts (fe_list p)) (opts (core_list p))"
  have es: "readable es" "t = entries_text es"
    using p config_text_entries [OF p(1)] by (simp_all add: config_ok_def es_def)
  obtain q' where q': "Config_readOptionsString (Some t) q = Some q'" "same_setup q' p"
    "opts (fe_list q') = map (read_option t) (opts (fe_list q))"
    "opts (core_list q') = map (read_option t) (opts (core_list q))"
    "controls q' = controls q" "shortcuts q' = shortcuts q" "gamepad_type q' = gamepad_read t q"
    using readOptions_setup [OF q(1) p(1) q(2)] by metis
  have items: "list_all opt_ok (opts (fe_list q))" "list_all opt_ok (opts (core_list q))"
    "same_options (opts (fe_list q)) (opts (fe_list p))" "same_options (opts (core_list q)) (opts (core_list p))"
    using q(1) by (auto simp: same_setup_def opts_def elim!: options_okE)
  have "opt_value item < length (opt_values item)" "(opt_key item, shown_value item) \<in> set es"
    if "item \<in> set (opts (fe_list p)) \<union> set (opts (core_list p))" for item
    using p(1) that
    by (auto simp: config_ok_def list_all_iff opts_def options_ok_def opt_ok_def es_def saved_entries_def
        shown_value_def split: option.splits)
  then have "map shown_value (opts (fe_list q')) = map shown_value (opts (fe_list p))"
    "map shown_value (opts (core_list q')) = map shown_value (opts (core_list p))"
    unfolding q'(3,4) es(2)
    using read_options_entries [OF items(1,3) es(1)] read_options_entries [OF items(2,4) es(1)] by auto
  moreover have "gamepad_type q' = gamepad_type p" if "has_custom_controllers p"
  proof -
    have "(''minarch_gamepad_type'', c_int (gamepad_type p)) \<in> set es"
      using that by (simp add: es_def saved_entries_def)
    then obtain b where "Config_getValue t ''minarch_gamepad_type'' False = Some (Some (c_int (gamepad_type p)), b)"
      using getValue_entries [OF es(1), of _ _ "[]" False] es(2) by (auto simp: sublist_code)
    then show ?thesis
      using that q' p(1) q(1) scan_i_c_int [of "gamepad_type p"]
      by (auto simp: gamepad_read_def same_setup_def config_ok_def)
  qed
  ultimately show thesis using that [OF q'(1,2)] q'(5,6) by blast
qed

lemma readControls_saved:
  assumes p: "config_ok p" "config_text p = Some t" and q: "same_setup q p"
  obtains q' where "Config_readControlsString (Some t) q = Some q'"
    "map binding (controls q') = map binding (controls p)" "map binding (shortcuts q') = map binding (shortcuts p)"
    "\<exists>cs ss. q' = q\<lparr>controls := cs, shortcuts := ss\<rparr>"
proof -
  define es where "es = saved_entries p (opts (fe_list p)) (opts (core_list p))"
  have es: "readable es" "t = entries_text es"
    using p config_text_entries [OF p(1)] by (simp_all add: config_ok_def es_def)
  have mem: "\<forall>k\<in>set (controls p) \<union> set (shortcuts p). (''bind '' @ mp_name k, binding_label k) \<in> set es"
    by (auto simp: es_def saved_entries_def)
  have ok: "\<forall>k\<in>set (controls p) \<union> set (shortcuts p). binding_ok k"
    using p(1) by (auto simp: config_ok_def list_all_iff)
  obtain cs where cs: "those (map (read_control t) (controls q)) = Some cs" "map binding cs = map binding (controls p)"
    using read_controls_entries [of "controls q" "controls p" es read_control] q es mem ok
    by (auto simp: same_setup_def)
  obtain ss where ss: "those (map (read_shortcut t) (shortcuts q)) = Some ss" "map binding ss = map binding (shortcuts p)"
    using read_controls_entries [of "shortcuts q" "shortcuts p" es read_shortcut] q es mem ok
    by (auto simp: same_setup_def)
  show thesis using cs ss
    by (intro that [of "q\<lparr>controls := cs, shortcuts := ss\<rparr>"])
      (auto simp: Config_readControlsString_def intro!: exI)
qed

text \<open>
  C17. What Config_write saves is what the next run of the game gets. Whatever the system and
  default configurations say, Config_readOptions and Config_readControls on a player with the same
  options and bindings, whose user file is the saved text, restore every option of the frontend
  and of the core, the gamepad type, and every binding and shortcut.
\<close>

theorem saved_config_restored:
  assumes "config_ok p" "config_text p = Some t" "same_setup q p" "user_cfg q = Some t"
    and "\<forall>c. Some c \<in> {system_cfg q, default_cfg q, user_cfg q} \<longrightarrow> gamepad_ok c q"
  shows "\<exists>q1 q2. Config_readOptions q = Some q1 \<and> Config_readControls q1 = Some q2
    \<and> map shown_value (opts (fe_list q2)) = map shown_value (opts (fe_list p))
    \<and> map shown_value (opts (core_list q2)) = map shown_value (opts (core_list p))
    \<and> (has_custom_controllers p \<longrightarrow> gamepad_type q2 = gamepad_type p)
    \<and> map binding (controls q2) = map binding (controls p)
    \<and> map binding (shortcuts q2) = map binding (shortcuts p)"
proof -
  have read: "\<exists>q'. Config_readOptionsString c s = Some q' \<and> same_setup q' p \<and> default_cfg q' = default_cfg s
      \<and> user_cfg q' = user_cfg s \<and> has_custom_controllers q' = has_custom_controllers s"
    if "same_setup s p" "has_custom_controllers s = has_custom_controllers q" "c \<in> {system_cfg q, default_cfg q}" for c s
  proof (cases c)
    case None
    with that show ?thesis by (auto simp: Config_readOptionsString_def)
  next
    case (Some t')
    then have "gamepad_ok t' s" using that assms(5) by (auto simp: gamepad_ok_def)
    from readOptions_setup [OF that(1) assms(1) this] Some show ?thesis by metis
  qed
  obtain s1 where s1: "Config_readOptionsString (system_cfg q) q = Some s1" "same_setup s1 p"
    "default_cfg s1 = default_cfg q" "user_cfg s1 = Some t" "has_custom_controllers s1 = has_custom_controllers q"
    using read [of q "system_cfg q"] assms(3,4) by auto
  obtain s2 where s2: "Config_readOptionsString (default_cfg s1) s1 = Some s2" "same_setup s2 p"
    "user_cfg s2 = Some t" "has_custom_controllers s2 = has_custom_controllers q"
    using read [of s1 "default_cfg q"] s1 by auto
  have "gamepad_ok t s2" using assms(4,5) s2(4) by (auto simp: gamepad_ok_def)
  then obtain s3 where s3: "Config_readOptionsString (Some t) s2 = Some s3" "same_setup s3 p"
    "map shown_value (opts (fe_list s3)) = map shown_value (opts (fe_list p))"
    "map shown_value (opts (core_list s3)) = map shown_value (opts (core_list p))"
    "has_custom_controllers p \<Longrightarrow> gamepad_type s3 = gamepad_type p"
    using readOptions_saved [OF assms(1,2) s2(2)] by metis
  have opts: "Config_readOptions q = Some s3" using s1(1) s2 s3(1) by (simp add: Config_readOptions_def)
  have user: "user_cfg s3 = Some t"
    using readOptions_setup [OF s2(2) assms(1) \<open>gamepad_ok t s2\<close>] s3(1) s2(3) by (metis option.inject)
  obtain s4 where s4: "Config_readControlsString (default_cfg s3) s3 = Some s4" "same_setup s4 p"
    "\<exists>cs ss. s4 = s3\<lparr>controls := cs, shortcuts := ss\<rparr>"
  proof (cases "default_cfg s3")
    case None
    have "s3 = s3\<lparr>controls := controls s3, shortcuts := shortcuts s3\<rparr>" by simp
    then have "\<exists>cs ss. s3 = s3\<lparr>controls := cs, shortcuts := ss\<rparr>" by blast
    with None s3(2) show ?thesis by (intro that [of s3]) (simp_all add: Config_readControlsString_def)
  next
    case (Some c)
    then show ?thesis using readControls_setup [OF s3(2) assms(1), of c] that by metis
  qed
  obtain s5 where s5: "Config_readControlsString (Some t) s4 = Some s5"
    "map binding (controls s5) = map binding (controls p)" "map binding (shortcuts s5) = map binding (shortcuts p)"
    "\<exists>cs ss. s5 = s4\<lparr>controls := cs, shortcuts := ss\<rparr>"
    using readControls_saved [OF assms(1,2) s4(2)] by metis
  have "Config_readControls s3 = Some s5" using s4 s5(1) user by (auto simp: Config_readControls_def)
  with opts s3 s4(3) s5 show ?thesis by auto
qed

lemma config_text_loaded [simp]: "config_text (p\<lparr>cfg_loaded := c\<rparr>) = config_text p"
  by (simp add: config_text_def)

text \<open>
  The file that Config_write leaves is the one that the next Config_load reads as the
  user's, whether it was saved for the game or for the console, and a game's file that is in the way
  is gone: the loaded text is the saved one, and the level it was loaded from is the level it was
  saved for.
\<close>

theorem written_config_loaded:
  assumes "Config_write override fs p = Some (fs', p')" "config_text p = Some t" "nul_free t"
    and "\<forall>f. fs_writable fs f" "\<forall>f. opendir fs f = None"
    and "Config_load (device_tag p) overscan fs' q = Some q'"
    and "config_dir q = config_dir p" "game_name q = game_name p" "game_name p \<noteq> ''minarch''"
    and "\<forall>path. Config_getPath p True = Some path \<longrightarrow> fs_files fs path \<noteq> None \<longrightarrow> cfg_loaded p = CONFIG_GAME"
  shows "user_cfg q' = Some t \<and> cfg_loaded q' = (if override then CONFIG_GAME else CONFIG_CONSOLE)"
proof -
  have paths: "Config_getPath (q\<lparr>device_tag := device_tag p, fe_list := l, system_cfg := s, default_cfg := d\<rparr>) b
      = Config_getPath p b" for l s d b
    using assms(7,8) by (simp add: Config_getPath_def)
  obtain gp where gp: "Config_getPath p True = Some gp"
    using assms(1) by (auto simp: Config_write_def elim: bind_Some_elim)
  have files: "exists fs' f \<longleftrightarrow> fs_files fs' f \<noteq> None" for f
    using assms(1,4,5) gp by (auto simp: Config_write_def exists_def opendir_def unlink_def putFile_def Let_def
        split: if_splits elim!: bind_Some_elim)
  have load: "user_cfg q' = allocFile fs' (if exists fs' gp then gp else cp) \<and>
      (allocFile fs' (if exists fs' gp then gp else cp) \<noteq> None \<longrightarrow>
        cfg_loaded q' = (if exists fs' gp then CONFIG_GAME else CONFIG_CONSOLE))"
    if "Config_getPath p False = Some cp \<or> exists fs' gp" for cp
    using assms(6) gp that paths
    by (auto simp: Config_load_def Let_def split: if_splits elim!: bind_Some_elim)
  show ?thesis
  proof (cases override)
    case True
    then have "fs_files fs' gp = Some t"
      using assms(1,2,4) gp by (auto simp: Config_write_def Let_def fstore.rd_wr elim!: bind_Some_elim)
    with True load [of gp] files show ?thesis using assms(3) by (simp add: allocFile_def c_str_id)
  next
    case False
    then obtain cp where cp: "Config_getPath p False = Some cp"
      using assms(1) by (auto simp: Config_write_def elim!: bind_Some_elim)
    have ne: "gp \<noteq> cp"
      using gp cp assms(9) by (auto simp: Config_getPath_def elim!: bind_Some_elim)
    have "fs_files fs' cp = Some t" "fs_files fs' gp = None"
      using assms(1,2,4,10) gp cp False ne
      by (auto simp: Config_write_def Let_def fstore.rd_wr unlink_def elim!: bind_Some_elim split: if_splits)
    with False load [of cp] cp files show ?thesis using assms(3) by (simp add: allocFile_def c_str_id)
  qed
qed

lemma demo_config_ok: "config_ok demo_player"
  by code_simp

theorem default_bindings_read_witness:
  "\<exists>q. Config_init (demo_player\<lparr>default_cfg := Some (''bind Jump = A'' @ [NL] @ ''bind C Up = X:R3'' @ [NL]),
      cfg_initialized := False\<rparr>) = Some q \<and> map mp_name (core_buttons q) = [''Jump'', ''C Up'']
    \<and> map mp_local (core_buttons q) = [4, 6] \<and> map mp_retro (core_buttons q) = [8, 15]"
proof -
  let ?bs = "[(''Jump'', ''A''), (''C Up'', ''X:R3'')]"
  let ?p = "demo_player\<lparr>default_cfg := Some (''bind Jump = A'' @ [NL] @ ''bind C Up = X:R3'' @ [NL]), cfg_initialized := False\<rparr>"
  have "list_all plain_binding ?bs" by code_simp
  then obtain q where "Config_init ?p = Some q" "core_buttons q = map (\<lambda>(nm, v). binding_entry nm v) ?bs"
    using default_bindings_read [of ?p ?bs] by (auto simp: binding_text_def)
  moreover have "map mp_name (map (\<lambda>(nm, v). binding_entry nm v) ?bs) = [''Jump'', ''C Up'']"
    "map mp_local (map (\<lambda>(nm, v). binding_entry nm v) ?bs) = [4, 6]"
    "map mp_retro (map (\<lambda>(nm, v). binding_entry nm v) ?bs) = [8, 15]" by code_simp+
  ultimately show ?thesis by auto
qed

definition demo_next_run :: player where
  "demo_next_run = demo_player\<lparr>user_cfg := config_text demo_player, gamepad_type := 0,
     controls := map (\<lambda>m. m\<lparr>mp_local := - 1\<rparr>) default_button_mapping\<rparr>"

theorem saved_config_restored_witness:
  "\<exists>q1 q2. Config_readOptions demo_next_run = Some q1 \<and> Config_readControls q1 = Some q2
    \<and> gamepad_type q2 = 1 \<and> map binding (controls q2) = map binding default_button_mapping"
proof -
  have t: "config_text demo_player = Some (the (config_text demo_player))"
    using config_text_entries [OF demo_config_ok] by simp
  have same: "same_setup demo_next_run demo_player"
    using demo_config_ok by (simp add: config_ok_def same_setup_def demo_next_run_def demo_player_def same_options_def comp_def)
  have "\<forall>c. Some c \<in> {system_cfg demo_next_run, default_cfg demo_next_run, user_cfg demo_next_run} \<longrightarrow>
      gamepad_ok c demo_next_run"
  proof -
    have "gamepad_ok ''bind A Button = B'' demo_next_run" by code_simp
    moreover have "gamepad_ok (the (config_text demo_player)) demo_next_run" by code_simp
    moreover have "system_cfg demo_next_run = None" "default_cfg demo_next_run = Some ''bind A Button = B''"
      "user_cfg demo_next_run = Some (the (config_text demo_player))"
      using t by (simp_all add: demo_next_run_def) (simp_all add: demo_player_def)
    ultimately show ?thesis by simp
  qed
  moreover have "user_cfg demo_next_run = Some (the (config_text demo_player))"
    using t by (simp add: demo_next_run_def)
  moreover have "gamepad_type demo_player = 1" "controls demo_player = default_button_mapping"
    "has_custom_controllers demo_player" by (simp_all add: demo_player_def)
  ultimately show ?thesis using saved_config_restored [OF demo_config_ok t same] by metis
qed

definition demo_files :: fsys where
  "demo_files = \<lparr>fs_files = [PAKS_PATH @ ''/Emus/GB.pak/launch.sh'' \<mapsto> [], ''/mnt/SDCARD/.userdata/GB/Tetris.gb.cfg'' \<mapsto> []],
     fs_dirs = Map.empty, fs_writable = \<lambda>_. True\<rparr>"

lemma demo_write_load:
  "case Config_write False demo_files (demo_player\<lparr>cfg_loaded := CONFIG_GAME\<rparr>) of None \<Rightarrow> False
   | Some (fs', p') \<Rightarrow> \<not> Option.is_none (Config_load None False fs' demo_player)"
  by code_simp

theorem written_config_loaded_witness:
  "\<exists>fs' p' q'. Config_write False demo_files (demo_player\<lparr>cfg_loaded := CONFIG_GAME\<rparr>) = Some (fs', p')
    \<and> Config_load None False fs' demo_player = Some q' \<and> user_cfg q' = config_text demo_player
    \<and> cfg_loaded q' = CONFIG_CONSOLE"
proof -
  let ?p = "demo_player\<lparr>cfg_loaded := CONFIG_GAME\<rparr>"
  obtain fs' p' q' where w: "Config_write False demo_files ?p = Some (fs', p')" "Config_load None False fs' demo_player = Some q'"
    using demo_write_load by (auto simp: Option.is_none_def split: option.splits)
  have "nul_free (the (config_text demo_player))" by code_simp
  moreover have "config_text ?p = Some (the (config_text demo_player))"
    using config_text_entries [OF demo_config_ok] by simp
  moreover have "device_tag ?p = None" "game_name ?p = ''Tetris.gb''" by (simp_all add: demo_player_def)
  moreover have "\<forall>f. fs_writable demo_files f" "\<forall>f. opendir demo_files f = None"
    by (simp_all add: demo_files_def opendir_def)
  ultimately have "user_cfg q' = Some (the (config_text demo_player)) \<and> cfg_loaded q' = (if False then CONFIG_GAME else CONFIG_CONSOLE)"
    using written_config_loaded [OF w(1), of _ False demo_player q'] w(2) by simp
  with w \<open>config_text ?p = _\<close> show ?thesis by auto
qed

text \<open>
  A file with lines that end in CR NL: the value keeps the CR, and no option has such a value, so
  every option that the file sets falls to its first value.
\<close>

theorem crlf_value_unknown:
  assumes "key \<noteq> []" "NL \<notin> set key" "NL \<notin> set v" "length v < 254"
    and "opt_ok item" "opt_key item = key" "\<forall>w\<in>set (opt_values item). CR \<notin> set w"
  shows "opt_value (read_option (key @ '' = '' @ v @ [CR, NL]) item) = 0"
proof -
  have "\<exists>b. Config_getValue ([] @ cfg_line key (v @ [CR]) @ []) key (opt_lock item) = Some (Some (v @ [CR]), b)"
    using assms(1-4) by (intro getValue_line) (auto simp: CR_def NL_def sublist_code)
  moreover have "v @ [CR] \<notin> set (opt_values item)" using assms(7) by auto
  ultimately show ?thesis using selects_other assms(5,6) by (auto simp: read_option_def cfg_line_def)
qed

theorem crlf_value_unknown_witness:
  "opt_value (read_option (''minarch_screen_effect = Grid'' @ [CR, NL]) (opts (frontend_options False) ! 1)) = 0"
  using crlf_value_unknown [of "''minarch_screen_effect''" "''Grid''" "opts (frontend_options False) ! 1"]
  by (simp add: frontend_options_def opts_def opt_ok_def NL_def CR_def)

text \<open>The gamepad type of a file is an index that nothing checks.\<close>

theorem gamepad_type_out_of_table:
  "Config_readOptionsString (Some ''minarch_gamepad_type = 5'') demo_player = None"
  by code_simp

end
