(* ===== verification/Input.thy ===== *)
theory Input
  imports Prelude
begin

unbundle bit_operations_syntax

text \<open>
  Button input (common/api.c, PAD_* and the default PLAT_pollInput).

  The pad keeps four bit masks, one bit per button id, and the tick at which each held button
  repeats next. A poll clears the transient masks, lets the held buttons repeat, then applies
  the events SDL has queued. The key, joystick and axis codes differ per platform: they are the
  parameter \<open>platform\<close>, with the Miyoo Mini's constants as the concrete instance.
\<close>

section \<open>Buttons and platform codes\<close>

datatype key_name = K_UP | K_DOWN | K_LEFT | K_RIGHT | K_A | K_B | K_X | K_Y | K_START | K_SELECT
  | K_MENU | K_MENU_ALT | K_MENU_ALT2 | K_L1 | K_L2 | K_L3 | K_R1 | K_R2 | K_R3 | K_PLUS | K_MINUS
  | K_POWER | K_POWEROFF

datatype axis_name = A_L2 | A_R2 | A_LX | A_LY | A_RX | A_RY

text \<open>The constants of a platform.h; CODE_NA, JOY_NA and AXIS_NA are -1 and match no event.\<close>

record platform =
  CODE :: "key_name \<Rightarrow> int"
  JOY :: "key_name \<Rightarrow> int"
  AXIS :: "axis_name \<Rightarrow> int"
  BTN_SLEEP :: "32 word"
  BTN_WAKE :: "32 word"
  BTN_MOD_BRIGHTNESS :: "32 word"
  BTN_MOD_VOLUME :: "32 word"
  BTN_MOD_PLUS :: "32 word"
  BTN_MOD_MINUS :: "32 word"

text \<open>Button ids, in the order of the enum in defines.h.\<close>

definition BTN_ID_MENU :: nat where "BTN_ID_MENU = 16"
definition BTN_ID_PLUS :: nat where "BTN_ID_PLUS = 17"
definition BTN_ID_MINUS :: nat where "BTN_ID_MINUS = 18"
definition BTN_ID_POWER :: nat where "BTN_ID_POWER = 19"
definition BTN_ID_ANALOG_UP :: nat where "BTN_ID_ANALOG_UP = 21"
definition BTN_ID_ANALOG_DOWN :: nat where "BTN_ID_ANALOG_DOWN = 22"
definition BTN_ID_ANALOG_LEFT :: nat where "BTN_ID_ANALOG_LEFT = 23"
definition BTN_ID_ANALOG_RIGHT :: nat where "BTN_ID_ANALOG_RIGHT = 24"
definition BTN_ID_COUNT :: nat where "BTN_ID_COUNT = 25"

lemmas btn_ids = BTN_ID_MENU_def BTN_ID_PLUS_def BTN_ID_MINUS_def BTN_ID_POWER_def
  BTN_ID_ANALOG_UP_def BTN_ID_ANALOG_DOWN_def BTN_ID_ANALOG_LEFT_def BTN_ID_ANALOG_RIGHT_def
  BTN_ID_COUNT_def

definition key_chain :: "(key_name \<times> nat) list" where
  "key_chain =
    [(K_UP, 0), (K_DOWN, 1), (K_LEFT, 2), (K_RIGHT, 3), (K_A, 4), (K_B, 5), (K_X, 6), (K_Y, 7),
     (K_START, 8), (K_SELECT, 9), (K_MENU, 16), (K_MENU_ALT, 16), (K_L1, 10), (K_L2, 12),
     (K_L3, 14), (K_R1, 11), (K_R2, 13), (K_R3, 15), (K_PLUS, 17), (K_MINUS, 18), (K_POWER, 19),
     (K_POWEROFF, 20)]"

definition joy_chain :: "(key_name \<times> nat) list" where
  "joy_chain =
    [(K_UP, 0), (K_DOWN, 1), (K_LEFT, 2), (K_RIGHT, 3), (K_A, 4), (K_B, 5), (K_X, 6), (K_Y, 7),
     (K_START, 8), (K_SELECT, 9), (K_MENU, 16), (K_MENU_ALT, 16), (K_MENU_ALT2, 16), (K_L1, 10),
     (K_L2, 12), (K_L3, 14), (K_R1, 11), (K_R2, 13), (K_R3, 15), (K_PLUS, 17), (K_MINUS, 18),
     (K_POWER, 19)]"

text \<open>The if-else chains over the codes: the first entry whose constant matches gives the button.\<close>

fun decode :: "(key_name \<Rightarrow> int) \<Rightarrow> (key_name \<times> nat) list \<Rightarrow> int \<Rightarrow> nat option" where
  "decode code [] c = None"
| "decode code ((k, i) # chain) c = (if c = code k then Some i else decode code chain c)"

definition btn :: "nat \<Rightarrow> 32 word" where
  "btn i = push_bit i 1"

section \<open>The pad\<close>

record pad_state =
  is_pressed :: "32 word"
  just_pressed :: "32 word"
  just_released :: "32 word"
  just_repeated :: "32 word"
  repeat_at :: "32 word list"
  laxis :: "int \<times> int"
  raxis :: "int \<times> int"

definition PAD_REPEAT_DELAY :: "32 word" where "PAD_REPEAT_DELAY = 300"
definition PAD_REPEAT_INTERVAL :: "32 word" where "PAD_REPEAT_INTERVAL = 100"
definition AXIS_DEADZONE :: int where "AXIS_DEADZONE = 0x4000"

definition pad_zero :: pad_state where
  "pad_zero = \<lparr>is_pressed = 0, just_pressed = 0, just_released = 0, just_repeated = 0,
     repeat_at = replicate BTN_ID_COUNT 0, laxis = (0, 0), raxis = (0, 0)\<rparr>"

definition PAD_reset :: "pad_state \<Rightarrow> pad_state" where
  "PAD_reset p = p\<lparr>just_pressed := 0, is_pressed := 0, just_released := 0, just_repeated := 0\<rparr>"

text \<open>The two branches of a button event: a release, and a press of a button that is not held.\<close>

definition pad_release :: "nat \<Rightarrow> pad_state \<Rightarrow> pad_state" where
  "pad_release i p = p\<lparr>is_pressed := is_pressed p AND NOT (btn i),
     just_repeated := just_repeated p AND NOT (btn i), just_released := just_released p OR btn i\<rparr>"

definition pad_press :: "nat \<Rightarrow> 32 word \<Rightarrow> pad_state \<Rightarrow> pad_state" where
  "pad_press i at p =
    (if is_pressed p AND btn i = 0
     then p\<lparr>just_pressed := just_pressed p OR btn i, just_repeated := just_repeated p OR btn i,
            is_pressed := is_pressed p OR btn i, repeat_at := (repeat_at p)[i := at]\<rparr>
     else p)"

text \<open>
  PAD_setAnalog, one half of a stick axis at a time: pushing one way presses its button and lets
  go of the opposite one. In the dead zone both are let go, and there the source masks
  just_repeated with the bit itself and not with its complement.
\<close>

definition analog_push :: "nat \<Rightarrow> nat \<Rightarrow> 32 word \<Rightarrow> pad_state \<Rightarrow> pad_state" where
  "analog_push i opposite at p =
    (if is_pressed p AND btn i = 0
     then (let q = p\<lparr>is_pressed := is_pressed p OR btn i, just_pressed := just_pressed p OR btn i,
                     just_repeated := just_repeated p OR btn i, repeat_at := (repeat_at p)[i := at]\<rparr>
           in if is_pressed q AND btn opposite \<noteq> 0 then pad_release opposite q else q)
     else p)"

definition analog_centre :: "nat \<Rightarrow> pad_state \<Rightarrow> pad_state" where
  "analog_centre i p =
    (if is_pressed p AND btn i \<noteq> 0
     then p\<lparr>is_pressed := is_pressed p AND NOT (btn i), just_repeated := just_repeated p AND btn i,
            just_released := just_released p OR btn i\<rparr>
     else p)"

definition PAD_setAnalog :: "nat \<Rightarrow> nat \<Rightarrow> int \<Rightarrow> 32 word \<Rightarrow> pad_state \<Rightarrow> pad_state" where
  "PAD_setAnalog neg pos v at p =
    (if AXIS_DEADZONE < v then analog_push pos neg at p
     else if v < - AXIS_DEADZONE then analog_push neg pos at p
     else analog_centre pos (analog_centre neg p))"

section \<open>Polling\<close>

datatype sdl_event = KeyDown int | KeyUp int | JoyDown int | JoyUp int | HatMotion int
  | AxisMotion int int | OtherEvent

text \<open>SDL_JOYHATMOTION: for up, down, left, right, 1 pressed, 0 released, -1 no change.\<close>

definition hats :: "int \<Rightarrow> int list" where
  "hats v =
    (if v = 1 then [1, 0, 0, 0] else if v = 4 then [0, 1, 0, 0]
     else if v = 8 then [0, 0, 1, 0] else if v = 2 then [0, 0, 0, 1]
     else if v = 9 then [1, 0, 1, 0] else if v = 12 then [0, 1, 1, 0]
     else if v = 3 then [1, 0, 0, 1] else if v = 6 then [0, 1, 0, 1]
     else if v = 0 then [0, 0, 0, 0] else [-1, -1, -1, -1])"

definition hat_step :: "32 word \<Rightarrow> int list \<Rightarrow> nat \<Rightarrow> pad_state \<Rightarrow> pad_state" where
  "hat_step tick hs i p =
    (if hs ! i = 0 then pad_release i p
     else if hs ! i = 1 then pad_press i (tick + PAD_REPEAT_DELAY) p else p)"

definition uint8 :: "int \<Rightarrow> int" where
  "uint8 x = x mod 256"

definition button_event :: "32 word \<Rightarrow> bool \<Rightarrow> nat option \<Rightarrow> pad_state \<Rightarrow> pad_state" where
  "button_event tick pressed b p =
    (case b of None \<Rightarrow> p
     | Some i \<Rightarrow> if pressed then pad_press i (tick + PAD_REPEAT_DELAY) p else pad_release i p)"

text \<open>A trigger reports a release before its first press; that release is cancelled.\<close>

definition trigger_event :: "32 word \<Rightarrow> nat \<Rightarrow> int \<Rightarrow> pad_state \<Rightarrow> pad_state" where
  "trigger_event tick i v p =
    (if \<not> 0 < v \<and> is_pressed p AND btn i = 0 then p else button_event tick (0 < v) (Some i) p)"

definition axis_event :: "platform \<Rightarrow> 32 word \<Rightarrow> int \<Rightarrow> int \<Rightarrow> pad_state \<Rightarrow> pad_state" where
  "axis_event pl tick a v p =
    (if a = AXIS pl A_L2 then trigger_event tick 12 v p
     else if a = AXIS pl A_R2 then trigger_event tick 13 v p
     else if a = AXIS pl A_LX
       then PAD_setAnalog BTN_ID_ANALOG_LEFT BTN_ID_ANALOG_RIGHT v (tick + PAD_REPEAT_DELAY)
              (p\<lparr>laxis := (v, snd (laxis p))\<rparr>)
     else if a = AXIS pl A_LY
       then PAD_setAnalog BTN_ID_ANALOG_UP BTN_ID_ANALOG_DOWN v (tick + PAD_REPEAT_DELAY)
              (p\<lparr>laxis := (fst (laxis p), v)\<rparr>)
     else if a = AXIS pl A_RX then p\<lparr>raxis := (v, snd (raxis p))\<rparr>
     else if a = AXIS pl A_RY then p\<lparr>raxis := (fst (raxis p), v)\<rparr> else p)"

fun pad_event :: "platform \<Rightarrow> 32 word \<Rightarrow> sdl_event \<Rightarrow> pad_state \<Rightarrow> pad_state" where
  "pad_event pl tick (KeyDown c) p = button_event tick True (decode (CODE pl) key_chain (uint8 c)) p"
| "pad_event pl tick (KeyUp c) p = button_event tick False (decode (CODE pl) key_chain (uint8 c)) p"
| "pad_event pl tick (JoyDown c) p = button_event tick True (decode (JOY pl) joy_chain (uint8 c)) p"
| "pad_event pl tick (JoyUp c) p = button_event tick False (decode (JOY pl) joy_chain (uint8 c)) p"
| "pad_event pl tick (HatMotion v) p = fold (hat_step tick (hats v)) [0..<4] p"
| "pad_event pl tick (AxisMotion a v) p = axis_event pl tick a v p"
| "pad_event pl tick OtherEvent p = p"

definition repeat_step :: "32 word \<Rightarrow> nat \<Rightarrow> pad_state \<Rightarrow> pad_state" where
  "repeat_step tick i p =
    (if is_pressed p AND btn i \<noteq> 0 \<and> repeat_at p ! i \<le> tick
     then p\<lparr>just_repeated := just_repeated p OR btn i,
            repeat_at := (repeat_at p)[i := repeat_at p ! i + PAD_REPEAT_INTERVAL]\<rparr>
     else p)"

definition clear_transient :: "pad_state \<Rightarrow> pad_state" where
  "clear_transient p = p\<lparr>just_pressed := 0, just_released := 0, just_repeated := 0\<rparr>"

definition PLAT_pollInput ::
  "platform \<Rightarrow> 32 word \<Rightarrow> sdl_event list \<Rightarrow> bool \<Rightarrow> pad_state \<Rightarrow> pad_state" where
  "PLAT_pollInput pl tick events lid_changed p =
    (let q = fold (pad_event pl tick) events
               (fold (repeat_step tick) [0..<BTN_ID_COUNT] (clear_transient p))
     in if lid_changed then q\<lparr>just_released := just_released q OR BTN_SLEEP pl\<rparr> else q)"

text \<open>PLAT_shouldWake eats the events up to the release it looks for.\<close>

definition wake_key :: "platform \<Rightarrow> sdl_event \<Rightarrow> bool" where
  "wake_key pl e =
    (case e of
       KeyUp c \<Rightarrow> (BTN_WAKE pl = btn BTN_ID_POWER \<and> uint8 c = CODE pl K_POWER)
         \<or> (BTN_WAKE pl = btn BTN_ID_MENU \<and> (uint8 c = CODE pl K_MENU \<or> uint8 c = CODE pl K_MENU_ALT))
     | JoyUp c \<Rightarrow> (BTN_WAKE pl = btn BTN_ID_POWER \<and> uint8 c = JOY pl K_POWER)
         \<or> (BTN_WAKE pl = btn BTN_ID_MENU \<and> (uint8 c = JOY pl K_MENU \<or> uint8 c = JOY pl K_MENU_ALT))
     | _ \<Rightarrow> False)"

record lid_state =
  has_lid :: bool
  is_open :: bool

fun wake_scan :: "platform \<Rightarrow> lid_state \<Rightarrow> sdl_event list \<Rightarrow> bool \<times> sdl_event list" where
  "wake_scan pl lid [] = (False, [])"
| "wake_scan pl lid (e # es) =
    (if wake_key pl e then (\<not> (has_lid lid \<and> \<not> is_open lid), es) else wake_scan pl lid es)"

definition PLAT_shouldWake ::
  "platform \<Rightarrow> lid_state \<Rightarrow> bool \<Rightarrow> bool \<Rightarrow> sdl_event list \<Rightarrow> bool \<times> sdl_event list" where
  "PLAT_shouldWake pl lid lid_changed lid_now_open es =
    (if has_lid lid \<and> lid_changed \<and> lid_now_open then (True, es) else wake_scan pl lid es)"

section \<open>Queries\<close>

definition PAD_anyJustPressed :: "pad_state \<Rightarrow> bool" where
  "PAD_anyJustPressed p = (just_pressed p \<noteq> 0)"

definition PAD_anyPressed :: "pad_state \<Rightarrow> bool" where
  "PAD_anyPressed p = (is_pressed p \<noteq> 0)"

definition PAD_anyJustReleased :: "pad_state \<Rightarrow> bool" where
  "PAD_anyJustReleased p = (just_released p \<noteq> 0)"

definition PAD_justPressed :: "32 word \<Rightarrow> pad_state \<Rightarrow> bool" where
  "PAD_justPressed b p = (just_pressed p AND b \<noteq> 0)"

definition PAD_isPressed :: "32 word \<Rightarrow> pad_state \<Rightarrow> bool" where
  "PAD_isPressed b p = (is_pressed p AND b \<noteq> 0)"

definition PAD_justReleased :: "32 word \<Rightarrow> pad_state \<Rightarrow> bool" where
  "PAD_justReleased b p = (just_released p AND b \<noteq> 0)"

definition PAD_justRepeated :: "32 word \<Rightarrow> pad_state \<Rightarrow> bool" where
  "PAD_justRepeated b p = (just_repeated p AND b \<noteq> 0)"

text \<open>PAD_tappedMenu keeps when MENU went down, and whether the press was used as a modifier.\<close>

record menu_tap =
  menu_start :: "32 word"
  ignore_menu :: bool

definition MENU_DELAY :: "32 word" where "MENU_DELAY = 250"

definition PAD_tappedMenu :: "platform \<Rightarrow> 32 word \<Rightarrow> pad_state \<Rightarrow> menu_tap \<Rightarrow> bool \<times> menu_tap" where
  "PAD_tappedMenu pl now p m =
    (let m' = if PAD_justPressed (btn BTN_ID_MENU) p then \<lparr>menu_start = now, ignore_menu = False\<rparr>
              else if PAD_isPressed (btn BTN_ID_MENU) p \<and> BTN_MOD_BRIGHTNESS pl = btn BTN_ID_MENU
                      \<and> (PAD_justPressed (BTN_MOD_PLUS pl) p \<or> PAD_justPressed (BTN_MOD_MINUS pl) p)
                then m\<lparr>ignore_menu := True\<rparr> else m
     in (\<not> ignore_menu m' \<and> PAD_justReleased (btn BTN_ID_MENU) p \<and> now - menu_start m' < MENU_DELAY, m'))"

text \<open>The Miyoo Mini (the plain model, not the Plus).\<close>

fun miyoomini_code :: "key_name \<Rightarrow> int" where
  "miyoomini_code K_UP = 103" | "miyoomini_code K_DOWN = 108" | "miyoomini_code K_LEFT = 105"
| "miyoomini_code K_RIGHT = 106" | "miyoomini_code K_SELECT = 97" | "miyoomini_code K_START = 28"
| "miyoomini_code K_A = 57" | "miyoomini_code K_B = 29" | "miyoomini_code K_X = 42"
| "miyoomini_code K_Y = 56" | "miyoomini_code K_L1 = 18" | "miyoomini_code K_R1 = 20"
| "miyoomini_code K_L2 = 15" | "miyoomini_code K_R2 = 14" | "miyoomini_code K_MENU = 1"
| "miyoomini_code K_POWER = 116" | "miyoomini_code K_PLUS = 115" | "miyoomini_code K_MINUS = 114"
| "miyoomini_code K_L3 = - 1" | "miyoomini_code K_R3 = - 1" | "miyoomini_code K_MENU_ALT = - 1"
| "miyoomini_code K_MENU_ALT2 = - 1" | "miyoomini_code K_POWEROFF = - 1"

definition miyoomini :: platform where
  "miyoomini = \<lparr>CODE = miyoomini_code, JOY = (\<lambda>_. - 1), AXIS = (\<lambda>_. - 1),
     BTN_SLEEP = btn BTN_ID_POWER, BTN_WAKE = btn BTN_ID_POWER, BTN_MOD_BRIGHTNESS = btn 8,
     BTN_MOD_VOLUME = btn 9, BTN_MOD_PLUS = btn 11, BTN_MOD_MINUS = btn 10\<rparr>"

section \<open>Masks as sets of buttons\<close>

lemma bit_btn [simp]: "bit (btn i) j \<longleftrightarrow> j = i \<and> j < 32"
  by (auto simp: btn_def bit_simps possible_bit_word)

lemma bit_less_32: "bit (w :: 32 word) j \<Longrightarrow> j < 32"
  by (drule bit_imp_le_length) simp

lemma bit_and_not_btn [simp]: "bit (w AND NOT (btn i)) j \<longleftrightarrow> bit w j \<and> j \<noteq> i"
  using bit_less_32 [of w j] by (auto simp: bit_simps)

lemma bit_or_btn [simp]: "bit (w OR btn i) j \<longleftrightarrow> bit w j \<or> (j = i \<and> i < 32)"
  by (auto simp: bit_simps)

lemma bit_and_btn [simp]: "bit (w AND btn i) j \<longleftrightarrow> bit w j \<and> j = i"
  using bit_less_32 [of w j] by (auto simp: bit_simps)

lemma and_btn_0 [simp]: "i < 32 \<Longrightarrow> w AND btn i = 0 \<longleftrightarrow> \<not> bit w i"
  unfolding bit_eq_iff [of "w AND btn i" 0] by auto

lemma decode_range: "decode code chain c = Some i \<Longrightarrow> i \<in> snd ` set chain"
  by (induction code chain c rule: decode.induct) (auto split: if_splits)

lemma decode_key_less: "decode code key_chain c = Some i \<Longrightarrow> i < 21"
  by (drule decode_range) (simp add: key_chain_def, elim disjE; simp)

lemma decode_joy_less: "decode code joy_chain c = Some i \<Longrightarrow> i < 21"
  by (drule decode_range) (simp add: joy_chain_def, elim disjE; simp)

lemma decode_in_range [simp]:
  "pred_option (\<lambda>i. i < 32) (decode code key_chain c)" "pred_option (\<lambda>i. i < 32) (decode code joy_chain c)"
  by (auto simp: option.pred_set dest: decode_key_less decode_joy_less)

lemma decode_digital [simp]:
  "21 \<le> i \<Longrightarrow> decode code key_chain c \<noteq> Some i" "21 \<le> i \<Longrightarrow> decode code joy_chain c \<noteq> Some i"
  by (auto dest: decode_key_less decode_joy_less)

lemma fold_hat: "fold (hat_step tick hs) [0..<4] p
  = hat_step tick hs 3 (hat_step tick hs 2 (hat_step tick hs 1 (hat_step tick hs 0 p)))"
proof -
  have "[0..<4] = [0, 1, 2, 3::nat]" by code_simp
  then show ?thesis by simp
qed

section \<open>What an event says about a button\<close>

definition analog_says :: "nat \<Rightarrow> nat \<Rightarrow> int \<Rightarrow> nat \<Rightarrow> bool option" where
  "analog_says neg pos v i =
    (if i = pos then Some (AXIS_DEADZONE < v)
     else if i = neg then Some (v < - AXIS_DEADZONE) else None)"

definition hat_says :: "int \<Rightarrow> bool option" where
  "hat_says h = (if h = 0 then Some False else if h = 1 then Some True else None)"

definition axis_says :: "platform \<Rightarrow> int \<Rightarrow> int \<Rightarrow> nat \<Rightarrow> bool option" where
  "axis_says pl a v i =
    (if a = AXIS pl A_L2 then (if i = 12 then Some (0 < v) else None)
     else if a = AXIS pl A_R2 then (if i = 13 then Some (0 < v) else None)
     else if a = AXIS pl A_LX then analog_says BTN_ID_ANALOG_LEFT BTN_ID_ANALOG_RIGHT v i
     else if a = AXIS pl A_LY then analog_says BTN_ID_ANALOG_UP BTN_ID_ANALOG_DOWN v i else None)"

fun says :: "platform \<Rightarrow> sdl_event \<Rightarrow> nat \<Rightarrow> bool option" where
  "says pl (KeyDown c) i = (if decode (CODE pl) key_chain (uint8 c) = Some i then Some True else None)"
| "says pl (KeyUp c) i = (if decode (CODE pl) key_chain (uint8 c) = Some i then Some False else None)"
| "says pl (JoyDown c) i = (if decode (JOY pl) joy_chain (uint8 c) = Some i then Some True else None)"
| "says pl (JoyUp c) i = (if decode (JOY pl) joy_chain (uint8 c) = Some i then Some False else None)"
| "says pl (HatMotion v) i = (if i < 4 then hat_says (hats v ! i) else None)"
| "says pl (AxisMotion a v) i = axis_says pl a v i"
| "says pl OtherEvent i = None"

definition obey :: "bool option \<Rightarrow> bool \<Rightarrow> bool" where
  "obey s b = (case s of None \<Rightarrow> b | Some v \<Rightarrow> v)"

lemma obey_simps [simp]: "obey None b = b" "obey (Some v) b = v"
  by (simp_all add: obey_def)

text \<open>Opposite directions of a stick are never both held.\<close>

definition opposed :: "32 word \<Rightarrow> bool" where
  "opposed w \<longleftrightarrow> \<not> (bit w BTN_ID_ANALOG_UP \<and> bit w BTN_ID_ANALOG_DOWN)
     \<and> \<not> (bit w BTN_ID_ANALOG_LEFT \<and> bit w BTN_ID_ANALOG_RIGHT)"

lemma pressed_release [simp]:
  "bit (is_pressed (pad_release i p)) j \<longleftrightarrow> bit (is_pressed p) j \<and> j \<noteq> i"
  by (simp add: pad_release_def)

lemma pressed_press [simp]:
  "i < 32 \<Longrightarrow> bit (is_pressed (pad_press i at p)) j \<longleftrightarrow> bit (is_pressed p) j \<or> j = i"
  by (auto simp: pad_press_def)

lemma pressed_push:
  "i < 32 \<Longrightarrow> k < 32 \<Longrightarrow> i \<noteq> k \<Longrightarrow> \<not> (bit (is_pressed p) i \<and> bit (is_pressed p) k) \<Longrightarrow>
   bit (is_pressed (analog_push i k at p)) j \<longleftrightarrow> j = i \<or> (bit (is_pressed p) j \<and> j \<noteq> k)"
  by (auto simp: analog_push_def Let_def)

lemma pressed_centre [simp]:
  "i < 32 \<Longrightarrow> bit (is_pressed (analog_centre i p)) j \<longleftrightarrow> bit (is_pressed p) j \<and> j \<noteq> i"
  by (auto simp: analog_centre_def)

lemma pressed_analog:
  assumes "neg < 32" "pos < 32" "neg \<noteq> pos" "\<not> (bit (is_pressed p) neg \<and> bit (is_pressed p) pos)"
  shows "bit (is_pressed (PAD_setAnalog neg pos v at p)) j
    = obey (analog_says neg pos v j) (bit (is_pressed p) j)"
  using assms pressed_push [of pos neg p at j] pressed_push [of neg pos p at j]
  by (auto simp: PAD_setAnalog_def analog_says_def AXIS_DEADZONE_def)

lemma pressed_button [simp]:
  "pred_option (\<lambda>i. i < 32) b \<Longrightarrow> bit (is_pressed (button_event tick d b p)) j
    = (if b = Some j then d else bit (is_pressed p) j)"
  by (auto simp: button_event_def split: option.split)

lemma pressed_trigger [simp]:
  "i < 32 \<Longrightarrow> bit (is_pressed (trigger_event tick i v p)) j
    = (if i = j then 0 < v else bit (is_pressed p) j)"
  by (auto simp: trigger_event_def)

lemma pressed_hat [simp]:
  "k < 4 \<Longrightarrow> bit (is_pressed (hat_step tick hs k p)) j
    = (if j = k then obey (hat_says (hs ! k)) (bit (is_pressed p) j) else bit (is_pressed p) j)"
  by (simp add: hat_step_def hat_says_def)

lemma pad_event_pressed:
  assumes "opposed (is_pressed p)"
  shows "bit (is_pressed (pad_event pl tick e p)) i = obey (says pl e i) (bit (is_pressed p) i)"
proof (cases e)
  case (AxisMotion a v)
  with assms show ?thesis
    by (simp add: axis_event_def axis_says_def pressed_analog opposed_def btn_ids)
next
  case (HatMotion v)
  have "i < 4 \<longleftrightarrow> i = 0 \<or> i = 1 \<or> i = 2 \<or> i = 3" by auto
  then show ?thesis unfolding HatMotion by (auto simp: fold_hat)
qed simp_all

lemma opposed_event:
  assumes "opposed (is_pressed p)"
  shows "opposed (is_pressed (pad_event pl tick e p))"
proof (cases "\<exists>a v. e = AxisMotion a v")
  case True
  then obtain a v where "e = AxisMotion a v" by blast
  with assms show ?thesis
    unfolding opposed_def pad_event_pressed [OF assms]
    by (cases "a = AXIS pl A_L2"; cases "a = AXIS pl A_R2"; cases "a = AXIS pl A_LX"; cases "a = AXIS pl A_LY")
      (auto simp: axis_says_def analog_says_def btn_ids AXIS_DEADZONE_def)
next
  case False
  then have "says pl e i = None" if "21 \<le> i" for i using that by (cases e) auto
  with assms show ?thesis
    unfolding opposed_def pad_event_pressed [OF assms] by (simp add: btn_ids)
qed

text \<open>The state of button i after the events es, when b is its state before.\<close>

definition held_after :: "platform \<Rightarrow> sdl_event list \<Rightarrow> nat \<Rightarrow> bool \<Rightarrow> bool" where
  "held_after pl es i b = fold (\<lambda>e. obey (says pl e i)) es b"

lemma events_pressed:
  "opposed (is_pressed p) \<Longrightarrow> opposed (is_pressed (fold (pad_event pl tick) es p))
    \<and> bit (is_pressed (fold (pad_event pl tick) es p)) i = held_after pl es i (bit (is_pressed p) i)"
  by (induction es arbitrary: p) (auto simp: held_after_def opposed_event pad_event_pressed)

lemma repeat_step_simps [simp]:
  "is_pressed (repeat_step tick i p) = is_pressed p"
  "just_pressed (repeat_step tick i p) = just_pressed p"
  "just_released (repeat_step tick i p) = just_released p"
  by (simp_all add: repeat_step_def)

lemma repeat_steps_simps [simp]:
  "is_pressed (fold (repeat_step tick) ids p) = is_pressed p"
  "just_pressed (fold (repeat_step tick) ids p) = just_pressed p"
  "just_released (fold (repeat_step tick) ids p) = just_released p"
  by (induction ids arbitrary: p) simp_all

lemma clear_simps [simp]:
  "is_pressed (clear_transient p) = is_pressed p" "just_pressed (clear_transient p) = 0"
  "just_released (clear_transient p) = 0" "just_repeated (clear_transient p) = 0"
  "repeat_at (clear_transient p) = repeat_at p"
  by (simp_all add: clear_transient_def)

lemma poll_pressed:
  assumes "opposed (is_pressed p)"
  shows "opposed (is_pressed (PLAT_pollInput pl tick es lid p))"
    and "bit (is_pressed (PLAT_pollInput pl tick es lid p)) i = held_after pl es i (bit (is_pressed p) i)"
  using events_pressed [of "fold (repeat_step tick) [0..<BTN_ID_COUNT] (clear_transient p)" pl tick es i] assms
  by (simp_all add: PLAT_pollInput_def Let_def)

text \<open>The states a pad goes through: polls and resets, from the zeroed structure.\<close>

inductive polled :: "platform \<Rightarrow> pad_state \<Rightarrow> bool" for pl where
  polled_init: "polled pl pad_zero"
| polled_reset: "polled pl p \<Longrightarrow> polled pl (PAD_reset p)"
| polled_poll: "polled pl p \<Longrightarrow> polled pl (PLAT_pollInput pl tick es lid p)"

lemma polled_opposed: "polled pl p \<Longrightarrow> opposed (is_pressed p)"
  by (induction rule: polled.induct)
    (simp_all add: poll_pressed(1), simp_all add: opposed_def pad_zero_def PAD_reset_def)

section \<open>Edges and repeats\<close>

text \<open>
  q is a state later in a poll that started with the buttons w held: every change of a button
  is flagged, and a flag means a change.
\<close>

definition edges :: "32 word \<Rightarrow> pad_state \<Rightarrow> bool" where
  "edges w q \<longleftrightarrow> (\<forall>j.
     (bit (is_pressed q) j \<and> \<not> bit w j \<longrightarrow> bit (just_pressed q) j)
   \<and> (\<not> bit (is_pressed q) j \<and> bit w j \<longrightarrow> bit (just_released q) j)
   \<and> (bit (just_pressed q) j \<longrightarrow> bit (is_pressed q) j \<or> bit (just_released q) j)
   \<and> (bit (just_pressed q) j \<longrightarrow> \<not> bit w j \<or> bit (just_released q) j))"

definition repeats_held :: "pad_state \<Rightarrow> bool" where
  "repeats_held q \<longleftrightarrow> (\<forall>j. bit (just_repeated q) j \<longrightarrow> bit (is_pressed q) j)"

lemma edges_release [simp]: "i < 32 \<Longrightarrow> edges w p \<Longrightarrow> edges w (pad_release i p)"
  unfolding edges_def by (auto simp: pad_release_def)

lemma edges_press [simp]: "i < 32 \<Longrightarrow> edges w p \<Longrightarrow> edges w (pad_press i at p)"
  unfolding edges_def by (simp add: pad_press_def) blast

lemma repeats_release [simp]: "repeats_held p \<Longrightarrow> repeats_held (pad_release i p)"
  unfolding repeats_held_def by (auto simp: pad_release_def)

lemma repeats_press [simp]: "i < 32 \<Longrightarrow> repeats_held p \<Longrightarrow> repeats_held (pad_press i at p)"
  unfolding repeats_held_def by (auto simp: pad_press_def)

lemma edges_centre [simp]: "i < 32 \<Longrightarrow> edges w p \<Longrightarrow> edges w (analog_centre i p)"
  unfolding edges_def by (auto simp: analog_centre_def)

text \<open>Pushing a stick is a press of one direction, then a release of the other.\<close>

lemma analog_push_eq: "i < 32 \<Longrightarrow> analog_push i k at p =
  (if bit (is_pressed p) i then p
   else let q = pad_press i at p in if is_pressed q AND btn k \<noteq> 0 then pad_release k q else q)"
  by (cases p) (simp add: analog_push_def pad_press_def Let_def)

lemma edges_analog [simp]:
  "neg < 32 \<Longrightarrow> pos < 32 \<Longrightarrow> edges w p \<Longrightarrow> edges w (PAD_setAnalog neg pos v at p)"
  by (simp add: PAD_setAnalog_def analog_push_eq Let_def)

lemma edges_button [simp]:
  "pred_option (\<lambda>i. i < 32) b \<Longrightarrow> edges w p \<Longrightarrow> edges w (button_event tick d b p)"
  by (auto simp: button_event_def split: option.split)

lemma repeats_button [simp]:
  "pred_option (\<lambda>i. i < 32) b \<Longrightarrow> repeats_held p \<Longrightarrow> repeats_held (button_event tick d b p)"
  by (auto simp: button_event_def split: option.split)

lemma edges_frame [simp]: "edges w (p\<lparr>laxis := x\<rparr>) = edges w p" "edges w (p\<lparr>raxis := x\<rparr>) = edges w p"
  by (simp_all add: edges_def)

lemma repeats_frame [simp]:
  "repeats_held (p\<lparr>laxis := x\<rparr>) = repeats_held p" "repeats_held (p\<lparr>raxis := x\<rparr>) = repeats_held p"
  by (simp_all add: repeats_held_def)

lemma edges_event: "edges w p \<Longrightarrow> edges w (pad_event pl tick e p)"
  by (cases e) (simp_all add: fold_hat hat_step_def axis_event_def trigger_event_def btn_ids)

text \<open>A stick that moves: the only events whose release can leave a repeat behind.\<close>

definition stick_event :: "platform \<Rightarrow> sdl_event \<Rightarrow> bool" where
  "stick_event pl e = (case e of AxisMotion a v \<Rightarrow> a = AXIS pl A_LX \<or> a = AXIS pl A_LY | _ \<Rightarrow> False)"

lemma repeats_event: "repeats_held p \<Longrightarrow> \<not> stick_event pl e \<Longrightarrow> repeats_held (pad_event pl tick e p)"
  by (cases e) (simp_all add: fold_hat hat_step_def axis_event_def trigger_event_def stick_event_def)

lemma repeats_step [simp]: "i < 32 \<Longrightarrow> repeats_held p \<Longrightarrow> repeats_held (repeat_step tick i p)"
  unfolding repeats_held_def by (auto simp: repeat_step_def)

lemma repeats_steps: "\<forall>i\<in>set ids. i < 32 \<Longrightarrow> repeats_held p \<Longrightarrow> repeats_held (fold (repeat_step tick) ids p)"
  by (induction ids arbitrary: p) simp_all

lemma edges_steps:
  "edges w (fold (repeat_step tick) ids p) = edges w p"
  by (simp add: edges_def)

lemma edges_events: "edges w p \<Longrightarrow> edges w (fold (pad_event pl tick) es p)"
  by (induction es arbitrary: p) (simp_all add: edges_event)

lemma repeats_events:
  "repeats_held p \<Longrightarrow> \<not> (\<exists>e\<in>set es. stick_event pl e) \<Longrightarrow> repeats_held (fold (pad_event pl tick) es p)"
  by (induction es arbitrary: p) (simp_all add: repeats_event)

lemma poll_edges:
  "edges (is_pressed p) (PLAT_pollInput pl tick es False p)"
  using edges_events [of "is_pressed p" "fold (repeat_step tick) [0..<BTN_ID_COUNT] (clear_transient p)" pl tick es]
  by (simp add: PLAT_pollInput_def edges_steps) (simp add: edges_def)

lemma poll_repeats:
  "\<not> (\<exists>e\<in>set es. stick_event pl e) \<Longrightarrow> repeats_held (PLAT_pollInput pl tick es lid p)"
  using repeats_events [of "fold (repeat_step tick) [0..<BTN_ID_COUNT] (clear_transient p)" es pl tick]
    repeats_steps [of "[0..<BTN_ID_COUNT]" "clear_transient p" tick]
  by (simp add: PLAT_pollInput_def btn_ids Let_def) (simp add: repeats_held_def)

section \<open>When a held button repeats\<close>

text \<open>A poll is quiet for button i when none of its events is about it.\<close>

definition quiet :: "platform \<Rightarrow> nat \<Rightarrow> sdl_event list \<Rightarrow> bool" where
  "quiet pl i es \<longleftrightarrow> list_all (\<lambda>e. says pl e i = None) es"

definition unchanged :: "nat \<Rightarrow> pad_state \<Rightarrow> pad_state \<Rightarrow> bool" where
  "unchanged i p q \<longleftrightarrow> repeat_at q ! i = repeat_at p ! i \<and> length (repeat_at q) = length (repeat_at p)
     \<and> (bit (just_repeated q) i \<longrightarrow> bit (just_repeated p) i)"

lemma unchanged_refl [simp]: "unchanged i p p"
  by (simp add: unchanged_def)

lemma unchanged_trans: "unchanged i p q \<Longrightarrow> unchanged i q r \<Longrightarrow> unchanged i p r"
  by (simp add: unchanged_def)

lemma unchanged_ops:
  "unchanged i p (pad_release k p)" "k \<noteq> i \<Longrightarrow> unchanged i p (pad_press k at p)"
  "unchanged i p (analog_centre k p)" "unchanged i p (p\<lparr>laxis := x\<rparr>)" "unchanged i p (p\<lparr>raxis := x\<rparr>)"
  by (auto simp: unchanged_def pad_release_def pad_press_def analog_centre_def)

lemma unchanged_push: "k < 32 \<Longrightarrow> k \<noteq> i \<Longrightarrow> unchanged i p (analog_push k m at p)"
  by (auto simp: analog_push_eq Let_def intro: unchanged_ops unchanged_trans [OF unchanged_ops(2) unchanged_ops(1)])

lemma unchanged_analog:
  "neg < 32 \<Longrightarrow> pos < 32 \<Longrightarrow> neg \<noteq> i \<Longrightarrow> pos \<noteq> i \<Longrightarrow> unchanged i p (PAD_setAnalog neg pos v at p)"
  by (auto simp: PAD_setAnalog_def intro: unchanged_push unchanged_trans [OF unchanged_ops(3) unchanged_ops(3)])

lemma unchanged_button: "b \<noteq> Some i \<Longrightarrow> unchanged i p (button_event tick d b p)"
  by (auto simp: button_event_def split: option.split intro: unchanged_ops)

lemma unchanged_hat: "k \<noteq> i \<or> hat_says (hs ! k) = None \<Longrightarrow> unchanged i p (hat_step tick hs k p)"
  by (cases "k = i") (auto simp: hat_step_def hat_says_def intro: unchanged_ops split: if_splits)

lemma quiet_event: "says pl e i = None \<Longrightarrow> unchanged i p (pad_event pl tick e p)"
proof (cases e)
  case (HatMotion v)
  assume "says pl e i = None"
  then have "k \<noteq> i \<or> hat_says (hats v ! k) = None" if "k < 4" for k
    using that HatMotion by auto
  then have step: "k < 4 \<Longrightarrow> unchanged i q (hat_step tick (hats v) k q)" for k q
    using unchanged_hat by blast
  show ?thesis unfolding HatMotion
    using unchanged_trans [OF unchanged_trans [OF unchanged_trans [OF step [of 0 p] step [of 1]] step [of 2]] step [of 3]]
    by (simp add: fold_hat)
next
  case (AxisMotion a v)
  assume "says pl e i = None"
  then show ?thesis unfolding AxisMotion
    by (cases "a = AXIS pl A_L2"; cases "a = AXIS pl A_R2"; cases "a = AXIS pl A_LX"; cases "a = AXIS pl A_LY")
      (auto simp: axis_event_def axis_says_def trigger_event_def analog_says_def btn_ids split: if_splits
        intro: unchanged_ops unchanged_button unchanged_trans [OF unchanged_ops(4) unchanged_analog])
qed (auto simp: unchanged_button split: if_splits)

lemma quiet_events: "quiet pl i es \<Longrightarrow> unchanged i p (fold (pad_event pl tick) es p)"
  by (induction es arbitrary: p) (auto simp: quiet_def intro: unchanged_trans quiet_event)

lemma repeat_step_other: "k \<noteq> i \<Longrightarrow> repeat_at (repeat_step tick k p) ! i = repeat_at p ! i
   \<and> bit (just_repeated (repeat_step tick k p)) i = bit (just_repeated p) i"
  by (simp add: repeat_step_def)

lemma repeat_steps_other: "i \<notin> set ids \<Longrightarrow> repeat_at (fold (repeat_step tick) ids p) ! i = repeat_at p ! i
   \<and> bit (just_repeated (fold (repeat_step tick) ids p)) i = bit (just_repeated p) i"
  by (induction ids arbitrary: p) (simp_all add: repeat_step_other)

lemma length_repeat_steps [simp]: "length (repeat_at (fold (repeat_step tick) ids p)) = length (repeat_at p)"
  by (induction ids arbitrary: p) (simp_all add: repeat_step_def)

definition due :: "32 word \<Rightarrow> nat \<Rightarrow> pad_state \<Rightarrow> bool" where
  "due tick i p \<longleftrightarrow> bit (is_pressed p) i \<and> repeat_at p ! i \<le> tick"

lemma repeat_steps_one:
  assumes "i \<in> set ids" "distinct ids" "i < 32" "i < length (repeat_at p)"
  shows "repeat_at (fold (repeat_step tick) ids p) ! i
      = (if due tick i p then repeat_at p ! i + PAD_REPEAT_INTERVAL else repeat_at p ! i)
    \<and> bit (just_repeated (fold (repeat_step tick) ids p)) i = (bit (just_repeated p) i \<or> due tick i p)"
  using assms
proof (induction ids arbitrary: p)
  case (Cons k ids)
  show ?case
  proof (cases "k = i")
    case True
    with Cons.prems show ?thesis
      by (simp add: repeat_steps_other) (auto simp: repeat_step_def due_def)
  next
    case False
    have "due tick i (repeat_step tick k p) = due tick i p" "length (repeat_at (repeat_step tick k p)) = length (repeat_at p)"
      using False by (simp_all add: due_def repeat_step_other) (simp add: repeat_step_def)
    with False Cons show ?thesis by (simp add: repeat_step_other)
  qed
qed simp

lemma length_ops [simp]:
  "length (repeat_at (pad_release k p)) = length (repeat_at p)"
  "length (repeat_at (pad_press k at p)) = length (repeat_at p)"
  "length (repeat_at (analog_centre k p)) = length (repeat_at p)"
  by (simp_all add: pad_release_def pad_press_def analog_centre_def)

lemma length_push [simp]: "length (repeat_at (analog_push k m at p)) = length (repeat_at p)"
  by (simp add: analog_push_def Let_def)

lemma length_button [simp]: "length (repeat_at (button_event tick d b p)) = length (repeat_at p)"
  by (simp add: button_event_def split: option.split)

lemma length_event: "length (repeat_at (pad_event pl tick e p)) = length (repeat_at p)"
  by (cases e) (simp_all add: fold_hat hat_step_def axis_event_def trigger_event_def PAD_setAnalog_def)

lemma length_events: "length (repeat_at (fold (pad_event pl tick) es p)) = length (repeat_at p)"
  by (induction es arbitrary: p) (simp_all add: length_event)

lemma length_poll: "length (repeat_at (PLAT_pollInput pl tick es lid p)) = length (repeat_at p)"
  by (simp add: PLAT_pollInput_def Let_def length_events)

lemma polled_length: "polled pl p \<Longrightarrow> length (repeat_at p) = 25"
  by (induction rule: polled.induct) (simp_all add: length_poll pad_zero_def PAD_reset_def btn_ids)

text \<open>One quiet poll: the button repeats when it is due, and only then.\<close>

lemma quiet_poll:
  assumes "quiet pl i es" "i < 25" "length (repeat_at p) = 25"
  shows "repeat_at (PLAT_pollInput pl tick es lid p) ! i
      = (if due tick i p then repeat_at p ! i + PAD_REPEAT_INTERVAL else repeat_at p ! i)
    \<and> (bit (just_repeated (PLAT_pollInput pl tick es lid p)) i \<longrightarrow> due tick i p)"
proof -
  let ?q = "fold (repeat_step tick) [0..<BTN_ID_COUNT] (clear_transient p)"
  have "due tick i (clear_transient p) = due tick i p" by (simp add: due_def)
  then show ?thesis
    using repeat_steps_one [of i "[0..<BTN_ID_COUNT]" "clear_transient p" tick]
      quiet_events [OF assms(1), of ?q tick] assms(2,3)
    by (auto simp: PLAT_pollInput_def Let_def unchanged_def btn_ids)
qed

fun repeats_in ::
  "platform \<Rightarrow> nat \<Rightarrow> (32 word \<times> sdl_event list \<times> bool) list \<Rightarrow> pad_state \<Rightarrow> nat" where
  "repeats_in pl i [] p = 0"
| "repeats_in pl i ((tick, es, lid) # polls) p =
    (let q = PLAT_pollInput pl tick es lid p
     in (if bit (just_repeated q) i then 1 else 0) + repeats_in pl i polls q)"

lemma repeats_bound:
  assumes "list_all (\<lambda>(tick, es, lid). quiet pl i es \<and> unat tick \<le> T) polls"
    and "i < 25" "length (repeat_at p) = 25" "T + 100 < 2 ^ 32" "unat (repeat_at p ! i) \<le> T + 100"
  shows "0 < repeats_in pl i polls p
    \<Longrightarrow> unat (repeat_at p ! i) + 100 * (repeats_in pl i polls p - 1) \<le> T"
  using assms(1,3,5)
proof (induction polls arbitrary: p)
  case (Cons x polls)
  obtain tick es lid where x: "x = (tick, es, lid)" by (cases x)
  define q where "q = PLAT_pollInput pl tick es lid p"
  have quiet: "quiet pl i es" "unat tick \<le> T" using Cons.prems(2) x by simp_all
  note poll = quiet_poll [OF quiet(1) assms(2) Cons.prems(3), of tick lid, folded q_def]
  have due: "unat (repeat_at q ! i) = unat (repeat_at p ! i) + 100 \<and> unat (repeat_at p ! i) \<le> T"
    if "due tick i p"
  proof -
    have le: "unat (repeat_at p ! i) \<le> T" using that quiet(2) by (simp add: due_def word_le_nat_alt)
    then have "unat (repeat_at p ! i + PAD_REPEAT_INTERVAL) = unat (repeat_at p ! i) + 100"
      using assms(4) unat_add_lem [of "repeat_at p ! i" PAD_REPEAT_INTERVAL]
      by (simp add: PAD_REPEAT_INTERVAL_def)
    with poll that le show ?thesis by simp
  qed
  have len: "length (repeat_at q) = 25" using Cons.prems(3) by (simp add: q_def length_poll)
  have bound: "unat (repeat_at q ! i) \<le> T + 100" using due poll Cons.prems(4) by (cases "due tick i p") auto
  have IH: "0 < repeats_in pl i polls q \<Longrightarrow> unat (repeat_at q ! i) + 100 * (repeats_in pl i polls q - 1) \<le> T"
    using Cons.IH [OF _ _ len bound] Cons.prems(2) by simp
  show ?case
    using Cons.prems(1) IH due poll
    by (cases "due tick i p"; cases "repeats_in pl i polls q")
      (auto simp: x Let_def q_def [symmetric] split: if_splits)
qed simp

section \<open>Properties\<close>

text \<open>
  C11. The pad tracks every button: whatever the poll history and whatever keys, joystick
  buttons, hats, triggers and sticks report, after a poll button i counts as held exactly if the
  last event about it in this poll said so, or no event was about it and it was held before.
\<close>

theorem poll_tracks_buttons:
  assumes "polled pl p"
  shows "bit (is_pressed (PLAT_pollInput pl tick es lid p)) i
    = held_after pl es i (bit (is_pressed p) i)"
  by (rule poll_pressed(2) [OF polled_opposed [OF assms]])

text \<open>
  No edge is lost or invented: a button that became held during a poll is flagged
  just-pressed, one that stopped being held is flagged just-released, a just-pressed flag is for
  a button that is held or was let go again in the same poll, and a button held all along gets
  no press flag. As long as no stick moves, only held buttons are flagged as repeating.
\<close>

theorem poll_reports_edges:
  assumes "q = PLAT_pollInput pl tick es False p"
  shows "(bit (is_pressed q) j \<and> \<not> bit (is_pressed p) j \<longrightarrow> bit (just_pressed q) j)
    \<and> (\<not> bit (is_pressed q) j \<and> bit (is_pressed p) j \<longrightarrow> bit (just_released q) j)
    \<and> (bit (just_pressed q) j \<longrightarrow> bit (is_pressed q) j \<or> bit (just_released q) j)
    \<and> (bit (just_pressed q) j \<longrightarrow> \<not> bit (is_pressed p) j \<or> bit (just_released q) j)
    \<and> (\<not> (\<exists>e\<in>set es. stick_event pl e) \<longrightarrow> bit (just_repeated q) j \<longrightarrow> bit (is_pressed q) j)"
  using poll_edges [of p pl tick es] poll_repeats [of es pl tick False p] assms
  unfolding edges_def repeats_held_def by blast

text \<open>
  Auto-repeat rate: a button pressed at tick t0 and reported by no event in the polls
  that follow, none of them later than T, repeats first 300 ms after the press and then no more
  than once per 100 ms, however often the pad is polled (ticks below the 32 bit wrap).
\<close>

theorem held_button_repeats:
  assumes "polled pl p" "\<not> bit (is_pressed p) i" "i < 21"
    and "decode (CODE pl) key_chain (uint8 c) = Some i"
    and "list_all (\<lambda>(tick, es, lid). quiet pl i es \<and> unat tick \<le> T) polls"
    and "unat t0 + 300 \<le> T + 100" "T + 100 < 2 ^ 32"
    and "n = repeats_in pl i polls (PLAT_pollInput pl t0 [KeyDown c] lid p)"
  shows "n = 0 \<or> unat t0 + 300 + 100 * (n - 1) \<le> T"
proof -
  define q where "q = PLAT_pollInput pl t0 [KeyDown c] lid p"
  let ?r = "fold (repeat_step t0) [0..<BTN_ID_COUNT] (clear_transient p)"
  have len: "length (repeat_at ?r) = 25" "length (repeat_at q) = 25"
    using polled_length [OF assms(1)] by (simp_all add: q_def length_poll)
  have "repeat_at q ! i = t0 + PAD_REPEAT_DELAY"
    using assms(2-4) len(1) by (simp add: q_def PLAT_pollInput_def Let_def button_event_def pad_press_def)
  moreover have "unat (t0 + PAD_REPEAT_DELAY) = unat t0 + 300"
    using assms(6,7) unat_add_lem [of t0 PAD_REPEAT_DELAY] by (simp add: PAD_REPEAT_DELAY_def)
  ultimately show ?thesis
    using repeats_bound [OF assms(5) _ len(2) assms(7)] assms(3,6,8) by (auto simp: q_def [symmetric])
qed

theorem poll_tracks_buttons_witness:
  "bit (is_pressed (PLAT_pollInput miyoomini 5 [KeyDown 57, KeyUp 57, KeyDown 29] False pad_zero)) 5
   \<and> \<not> bit (is_pressed (PLAT_pollInput miyoomini 5 [KeyDown 57, KeyUp 57, KeyDown 29] False pad_zero)) 4"
  unfolding poll_tracks_buttons [OF polled_init]
  by (simp add: held_after_def key_chain_def miyoomini_def uint8_def pad_zero_def)

theorem poll_reports_edges_witness:
  "bit (just_pressed (PLAT_pollInput miyoomini 5 [KeyDown 57] False pad_zero)) 4"
  using poll_reports_edges [OF refl, of miyoomini 5 "[KeyDown 57]" pad_zero 4]
    poll_pressed(2) [OF polled_opposed [OF polled_init], of miyoomini 5 "[KeyDown 57]" False 4]
  by (simp add: held_after_def key_chain_def miyoomini_def uint8_def pad_zero_def)

theorem held_button_repeats_witness:
  "repeats_in miyoomini 4 [(400, [], False), (420, [], False), (650, [], False)]
     (PLAT_pollInput miyoomini 50 [KeyDown 57] False pad_zero) \<le> 4"
proof -
  have "decode (CODE miyoomini) key_chain (uint8 57) = Some 4"
    by (simp add: key_chain_def miyoomini_def uint8_def)
  then show ?thesis
    using held_button_repeats [OF polled_init, where i = 4 and pl = miyoomini and c = 57 and T = 650
        and polls = "[(400, [], False), (420, [], False), (650, [], False)]" and ?t0.0 = 50 and lid = False,
        OF _ _ _ _ _ _ refl]
    by (simp add: pad_zero_def quiet_def) linarith
qed

text \<open>
  Letting a stick go masks just_repeated with the bit of the direction instead of its complement:
  the released direction keeps its repeat flag, and every other button's is dropped.
\<close>

theorem analog_release_keeps_repeat:
  "let p = pad_zero\<lparr>is_pressed := btn 0 OR btn 24, just_repeated := btn 0 OR btn 24\<rparr>;
       q = PAD_setAnalog 23 24 0 0 p
   in \<not> bit (is_pressed q) 24 \<and> bit (just_repeated q) 24
      \<and> bit (is_pressed q) 0 \<and> \<not> bit (just_repeated q) 0"
  by (simp add: Let_def PAD_setAnalog_def analog_centre_def AXIS_DEADZONE_def)

text \<open>A hat that moves reports the release of directions that were never pressed.\<close>

theorem hat_releases_unpressed:
  "bit (just_released (PLAT_pollInput miyoomini 5 [HatMotion 1] False pad_zero)) 1"
  by (simp add: PLAT_pollInput_def fold_hat hats_def hat_step_def pad_release_def pad_press_def Let_def pad_zero_def)

end
