(* ===== verification/Controls.thy ===== *)
theory Controls
  imports PlayerConfig Input
begin

text \<open>
  The controls while a game runs (minarch.c, Input_init, setFastForward, input_poll_callback,
  input_state_callback) and the switch between the threaded and the plain main loop.

  The pad is taken as PAD_poll and PWR_update leave it. Saving and loading states and resetting the
  core are other parts: the poll only asks for them, in order. A shift by the -1 of an unbound
  button is undefined in C; the code relies on it giving 0, and the model takes that.
\<close>

section \<open>State\<close>

datatype request = Save_state | Load_state | Reset_core

record ctl =
  ct_player :: player
  fast_forward :: bool
  toggled_ff_on :: bool
  skip_menu :: bool
  show_menu :: bool
  should_run_core :: bool
  quitting :: bool
  retro_buttons :: "32 word"
  requests :: "request list"

definition mask_of :: "int \<Rightarrow> 32 word" where
  "mask_of l = (if l < 0 then 0 else btn (nat l))"

abbreviation on_globals :: "(frontend \<Rightarrow> frontend) \<Rightarrow> ctl \<Rightarrow> ctl" where
  "on_globals f c \<equiv> c\<lparr>ct_player := (ct_player c)\<lparr>globals := f (globals (ct_player c))\<rparr>\<rparr>"

definition leave_thread :: "frontend \<Rightarrow> frontend" where
  "leave_thread g = g\<lparr>was_threaded := True, toggle_thread := True\<rparr>"

definition rejoin_thread :: "frontend \<Rightarrow> frontend" where
  "rejoin_thread g = g\<lparr>was_threaded := False, toggle_thread := True\<rparr>"

definition setFastForward :: "bool \<Rightarrow> ctl \<Rightarrow> ctl" where
  "setFastForward enable c =
    (let g = globals (ct_player c);
         c' = (if \<not> fast_forward c \<and> enable \<and> thread_video g then on_globals leave_thread c
               else if fast_forward c \<and> \<not> enable \<and> \<not> thread_video g \<and> was_threaded g then on_globals rejoin_thread c
               else c)
     in c'\<lparr>fast_forward := enable\<rparr>)"

section \<open>Shortcuts\<close>

definition SHORTCUT_COUNT :: nat where "SHORTCUT_COUNT = 8"
definition EFFECT_COUNT :: nat where "EFFECT_COUNT = 3"

text \<open>What a shortcut that is neither of the two fast-forward ones does when it is pressed.\<close>

definition run_shortcut :: "nat \<Rightarrow> ctl \<Rightarrow> ctl option" where
  "run_shortcut i c =
    (let p = ct_player c in
     if i = 0 then Some (c\<lparr>requests := requests c @ [Save_state]\<rparr>)
     else if i = 1 then Some (c\<lparr>requests := requests c @ [Load_state]\<rparr>)
     else if i = 2 then Some (c\<lparr>requests := requests c @ [Reset_core]\<rparr>)
     else if i = 3 then Some (c\<lparr>requests := requests c @ [Save_state], quitting := True\<rparr>)
     else if i = 4 then do {
       os \<leftarrow> ol_options (fe_list p);
       c_ok (0 < length os);
       let v = screen_scaling (globals p) + 1;
       let v = (if opt_count (os ! 0) \<le> v then v - opt_count (os ! 0) else v);
       p \<leftarrow> Config_syncFrontend (opt_key (os ! 0)) v (p\<lparr>globals := (globals p)\<lparr>screen_scaling := v\<rparr>\<rparr>);
       Some (c\<lparr>ct_player := p\<rparr>) }
     else if i = 5 then do {
       os \<leftarrow> ol_options (fe_list p);
       c_ok (1 < length os);
       let v = screen_effect (globals p) + 1;
       let v = (if EFFECT_COUNT \<le> v then v - EFFECT_COUNT else v);
       p \<leftarrow> Config_syncFrontend (opt_key (os ! 1)) v (p\<lparr>globals := (globals p)\<lparr>screen_effect := v\<rparr>\<rparr>);
       Some (c\<lparr>ct_player := p\<rparr>) }
     else Some c)"

text \<open>One turn of the loop, with whether it breaks.\<close>

definition shortcut_step :: "pad_state \<Rightarrow> nat \<Rightarrow> mapping \<Rightarrow> ctl \<Rightarrow> (bool \<times> ctl) option" where
  "shortcut_step pad i m c =
    (let b = mask_of (mp_local m);
         used = (\<lambda>c. if mp_mod m then c\<lparr>skip_menu := True\<rparr> else c)
     in if b = 0 \<or> mp_mod m \<and> \<not> PAD_isPressed (btn BTN_ID_MENU) pad then Some (False, c)
        else if i = 6 then
          (if PAD_justPressed b pad
           then (let c' = setFastForward (\<not> fast_forward c) c
                 in Some (True, used (c'\<lparr>toggled_ff_on := fast_forward c'\<rparr>)))
           else if PAD_justReleased b pad then Some (True, used c)
           else Some (False, c))
        else if i = 7 then
          (if PAD_justPressed b pad \<or> \<not> toggled_ff_on c \<and> PAD_justReleased b pad
           then Some (False, used (setFastForward (PAD_isPressed b pad) c))
           else Some (False, c))
        else if PAD_justPressed b pad
          then map_option (\<lambda>c. (False, used c)) (run_shortcut i c)
        else Some (False, c))"

fun shortcut_loop :: "pad_state \<Rightarrow> (nat \<times> mapping) list \<Rightarrow> ctl \<Rightarrow> ctl option" where
  "shortcut_loop pad [] c = Some c"
| "shortcut_loop pad ((i, m) # ms) c = do {
     (stop, c) \<leftarrow> shortcut_step pad i m c;
     (if stop then Some c else shortcut_loop pad ms c)
   }"

section \<open>Buttons of the core\<close>

text \<open>On the standard gamepad a direction is the pad's or the stick's.\<close>

definition control_mask :: "int \<Rightarrow> int \<Rightarrow> 32 word" where
  "control_mask gamepad l =
    (let b = mask_of l in
     if gamepad = 0 \<and> 0 \<le> l \<and> l < 4 then b OR btn (BTN_ID_ANALOG_UP + nat l) else b)"

definition control_step :: "pad_state \<Rightarrow> mapping \<Rightarrow> ctl \<Rightarrow> ctl" where
  "control_step pad m c =
    (let b = control_mask (gamepad_type (ct_player c)) (mp_local m) in
     if mask_of (mp_local m) \<noteq> 0 \<and> PAD_isPressed b pad \<and> (\<not> mp_mod m \<or> PAD_isPressed (btn BTN_ID_MENU) pad)
     then c\<lparr>retro_buttons := retro_buttons c OR mask_of (mp_retro m),
            skip_menu := (skip_menu c \<or> mp_mod m)\<rparr>
     else c)"

definition menu_keys :: "pad_state \<Rightarrow> ctl \<Rightarrow> ctl" where
  "menu_keys pad c =
    (let c = (if PAD_justPressed (btn BTN_ID_MENU) pad then c\<lparr>skip_menu := False\<rparr> else c)
     in if PAD_isPressed (btn BTN_ID_MENU) pad
           \<and> (PAD_isPressed (btn BTN_ID_PLUS) pad \<or> PAD_isPressed (btn BTN_ID_MINUS) pad)
        then c\<lparr>skip_menu := True\<rparr> else c)"

definition power_keys :: "pad_state \<Rightarrow> ctl \<Rightarrow> ctl" where
  "power_keys pad c =
    (let g = globals (ct_player c) in
     if PAD_justPressed (btn BTN_ID_POWER) pad
     then (if thread_video g then on_globals leave_thread c else c)
     else if PAD_justReleased (btn BTN_ID_POWER) pad
     then (if \<not> thread_video g \<and> was_threaded g then on_globals rejoin_thread c else c)
     else c)"

definition open_menu :: "pad_state \<Rightarrow> ctl \<Rightarrow> ctl" where
  "open_menu pad c =
    (if \<not> skip_menu c \<and> PAD_justReleased (btn BTN_ID_MENU) pad
     then c\<lparr>show_menu := True,
            should_run_core := (should_run_core c \<and> \<not> thread_video (globals (ct_player c)))\<rparr>
     else c)"

definition input_poll_callback :: "pad_state \<Rightarrow> ctl \<Rightarrow> ctl option" where
  "input_poll_callback pad c = do {
     let c = power_keys pad (menu_keys pad c);
     let ms = shortcuts (ct_player c);
     c_ok (SHORTCUT_COUNT \<le> length ms);
     c \<leftarrow> shortcut_loop pad (zip [0..<SHORTCUT_COUNT] ms) c;
     let c = open_menu pad c;
     Some (fold (control_step pad) (controls (ct_player c)) (c\<lparr>retro_buttons := 0\<rparr>))
   }"

definition input_state_callback :: "pad_state \<Rightarrow> ctl \<Rightarrow> nat \<Rightarrow> nat \<Rightarrow> nat \<Rightarrow> nat \<Rightarrow> 16 word" where
  "input_state_callback pad c port device index btn_id =
    (if port = 0 \<and> device = 1 \<and> index = 0
     then (if btn_id = 256 then ucast (retro_buttons c) else ucast (drop_bit btn_id (retro_buttons c) AND 1))
     else if port = 0 \<and> device = 5
     then (if index = 0 then (if btn_id = 0 then word_of_int (fst (laxis pad)) else if btn_id = 1 then word_of_int (snd (laxis pad)) else 0)
           else if index = 1 then (if btn_id = 0 then word_of_int (fst (raxis pad)) else if btn_id = 1 then word_of_int (snd (raxis pad)) else 0)
           else 0)
     else 0)"

section \<open>Threads\<close>

text \<open>The main loop's part: a pending toggle is carried out at the end of the frame.\<close>

definition carry_out_toggle :: "ctl \<Rightarrow> ctl" where
  "carry_out_toggle c =
    (if toggle_thread (globals (ct_player c))
     then on_globals (\<lambda>g. let g = g\<lparr>toggle_thread := False\<rparr>;
            g = (if was_threaded g \<and> \<not> thread_video g then g\<lparr>was_threaded := False, thread_video := True\<rparr> else g)
          in g\<lparr>thread_video := \<not> thread_video g\<rparr>) c
     else c)"

section \<open>The core's buttons\<close>

record input_descriptor =
  id_port :: nat
  id_device :: nat
  id_index :: nat
  id_id :: nat
  id_description :: string

definition RETRO_BUTTON_COUNT :: nat where "RETRO_BUTTON_COUNT = 16"

definition usable :: "input_descriptor \<Rightarrow> bool" where
  "usable d \<longleftrightarrow> id_port d = 0 \<and> id_device d = 1 \<and> id_index d = 0 \<and> id_id d < RETRO_BUTTON_COUNT"

text \<open>
  The array that tells which buttons the core has is never cleared: \<open>junk\<close> is what it holds before.
\<close>

definition present_buttons :: "input_descriptor list \<Rightarrow> (nat \<Rightarrow> bool) \<Rightarrow> nat \<Rightarrow> bool" where
  "present_buttons vars junk = fold (\<lambda>d f. if usable d then f(id_id d := True) else f) vars junk"

definition core_button_names :: "input_descriptor list \<Rightarrow> nat \<Rightarrow> string option" where
  "core_button_names vars = fold (\<lambda>d f. if usable d then f(id_id d \<mapsto> id_description d) else f) vars Map.empty"

definition init_control :: "bool \<Rightarrow> (nat \<Rightarrow> bool) \<Rightarrow> mapping \<Rightarrow> mapping option" where
  "init_control mapped present m = do {
     let m = m\<lparr>mp_default := mp_local m\<rparr>;
     c_ok (\<not> mapped \<or> 0 \<le> mp_retro m \<and> nat (mp_retro m) < RETRO_BUTTON_COUNT);
     Some (if mapped \<and> \<not> present (nat (mp_retro m)) then m\<lparr>mp_ignore := True\<rparr> else m)
   }"

text \<open>The first call counts: \<open>initialized\<close> is its static flag.\<close>

definition Input_init :: "bool \<Rightarrow> input_descriptor list option \<Rightarrow> (nat \<Rightarrow> bool) \<Rightarrow> player \<Rightarrow> player option" where
  "Input_init initialized vars junk p =
    (if initialized then Some p
     else let names = core_button_names (case vars of None \<Rightarrow> [] | Some vs \<Rightarrow> vs);
         defaults = map (\<lambda>m. case names (nat (mp_retro m)) of None \<Rightarrow> m | Some d \<Rightarrow> m\<lparr>mp_name := d\<rparr>) default_button_mapping;
         ms = (if core_buttons p = [] then defaults else core_buttons p);
         present = present_buttons (case vars of None \<Rightarrow> [] | Some vs \<Rightarrow> vs) junk
     in do {
       ms \<leftarrow> those (map (init_control (vars \<noteq> None) present) ms);
       Some (p\<lparr>controls := ms\<rparr>)
     })"

section \<open>What a poll leaves alone\<close>

text \<open>The tables a poll relies on, and does not change.\<close>

definition ctl_ok :: "ctl \<Rightarrow> bool" where
  "ctl_ok c \<longleftrightarrow> SHORTCUT_COUNT \<le> length (shortcuts (ct_player c))
    \<and> (case ol_options (fe_list (ct_player c)) of None \<Rightarrow> False
       | Some os \<Rightarrow> 8 \<le> length os \<and> distinct (map opt_key os))"

lemma ctl_okE:
  assumes "ctl_ok c"
  obtains os where "ol_options (fe_list (ct_player c)) = Some os" "8 \<le> length os" "distinct (map opt_key os)"
    "8 \<le> length (shortcuts (ct_player c))"
  using assms by (auto simp: ctl_ok_def SHORTCUT_COUNT_def split: option.splits)

definition threads :: "ctl \<Rightarrow> bool \<times> bool \<times> bool" where
  "threads c = (let g = globals (ct_player c) in (thread_video g, was_threaded g, toggle_thread g))"

text \<open>Everything but options, globals and what the poll is for.\<close>

definition same_tables :: "ctl \<Rightarrow> ctl \<Rightarrow> bool" where
  "same_tables c d \<longleftrightarrow> ctl_ok d \<and> controls (ct_player d) = controls (ct_player c)
    \<and> shortcuts (ct_player d) = shortcuts (ct_player c) \<and> gamepad_type (ct_player d) = gamepad_type (ct_player c)"

lemma same_tables_refl: "ctl_ok c \<Longrightarrow> same_tables c c"
  by (simp add: same_tables_def)

lemma same_tables_trans: "same_tables c d \<Longrightarrow> same_tables d e \<Longrightarrow> same_tables c e"
  by (simp add: same_tables_def)

lemma same_tables_frame [simp]:
  "same_tables c (d\<lparr>skip_menu := b1\<rparr>) = same_tables c d" "same_tables c (d\<lparr>toggled_ff_on := b2\<rparr>) = same_tables c d"
  "same_tables c (d\<lparr>fast_forward := b3\<rparr>) = same_tables c d" "same_tables c (d\<lparr>requests := rs\<rparr>) = same_tables c d"
  "same_tables c (d\<lparr>quitting := b4\<rparr>) = same_tables c d" "same_tables c (on_globals f d) = same_tables c d"
  "same_tables c (d\<lparr>show_menu := b5\<rparr>) = same_tables c d" "same_tables c (d\<lparr>should_run_core := b6\<rparr>) = same_tables c d"
  "same_tables c (d\<lparr>retro_buttons := w\<rparr>) = same_tables c d"
  by (simp_all add: same_tables_def ctl_ok_def)

lemma threads_frame [simp]:
  "threads (d\<lparr>skip_menu := b1\<rparr>) = threads d" "threads (d\<lparr>toggled_ff_on := b2\<rparr>) = threads d"
  "threads (d\<lparr>fast_forward := b3\<rparr>) = threads d" "threads (d\<lparr>requests := rs\<rparr>) = threads d"
  "threads (d\<lparr>quitting := b4\<rparr>) = threads d" "threads (d\<lparr>show_menu := b5\<rparr>) = threads d"
  "threads (d\<lparr>should_run_core := b6\<rparr>) = threads d" "threads (d\<lparr>retro_buttons := w\<rparr>) = threads d"
  by (simp_all add: threads_def)

lemma sync_first:
  assumes "ol_options (fe_list p) = Some os" "8 \<le> length os" "distinct (map opt_key os)" "i < 2"
  shows "Config_syncFrontend (opt_key (os ! i)) v p =
    Some (p\<lparr>globals := sync_global i v (globals p),
            fe_list := (fe_list p)\<lparr>ol_options := Some (os[i := (os ! i)\<lparr>opt_value := v\<rparr>])\<rparr>\<rparr>)"
proof -
  have "0 < length os" "1 < length os" using assms(2) by linarith+
  note len = this
  then have "opt_key (os ! 0) \<noteq> opt_key (os ! 1)"
    using nth_eq_iff_index_eq [OF assms(3), of 0 1] by simp
  moreover from assms(4) have "i = 0 \<or> i = 1" by linarith
  ultimately show ?thesis
    using assms(1,2) len by (elim disjE) (simp_all add: Config_syncFrontend_def set_fe_value_def)
qed

lemma keys_update: "i < length os \<Longrightarrow> map opt_key (os[i := (os ! i)\<lparr>opt_value := v\<rparr>]) = map opt_key os"
  by (simp add: map_update list_update_same_conv)

lemma run_shortcut_ok:
  assumes "ctl_ok c"
  shows "\<exists>d. run_shortcut i c = Some d \<and> same_tables c d \<and> threads d = threads c
    \<and> fast_forward d = fast_forward c \<and> toggled_ff_on d = toggled_ff_on c"
proof -
  obtain os where os: "ol_options (fe_list (ct_player c)) = Some os" "8 \<le> length os" "distinct (map opt_key os)"
    "8 \<le> length (shortcuts (ct_player c))"
    using ctl_okE [OF assms] .
  have sync: "\<exists>q. Config_syncFrontend (opt_key (os ! j)) v ((ct_player c)\<lparr>globals := f (globals (ct_player c))\<rparr>) = Some q
      \<and> same_tables c (c\<lparr>ct_player := q\<rparr>) \<and> threads (c\<lparr>ct_player := q\<rparr>) = threads (on_globals f c)"
    if "j < 2" for j v f
    using os that keys_update [of j os v, OF less_le_trans [OF that, of "length os"]] sync_first [of "(ct_player c)\<lparr>globals := f (globals (ct_player c))\<rparr>" os j v]
    by (auto simp: same_tables_def ctl_ok_def SHORTCUT_COUNT_def threads_def sync_global_def Let_def less_2_cases_iff)
  have same: "threads (on_globals (\<lambda>g. g\<lparr>screen_scaling := v\<rparr>) c) = threads c"
    "threads (on_globals (\<lambda>g. g\<lparr>screen_effect := v\<rparr>) c) = threads c" for v
    by (simp_all add: threads_def Let_def)
  consider "i \<noteq> 4" "i \<noteq> 5" | "i = 4" | "i = 5" by blast
  then show ?thesis
  proof cases
    case 1
    then show ?thesis using assms by (auto simp: run_shortcut_def Let_def same_tables_refl)
  next
    case 2
    define v where "v = (let v = screen_scaling (globals (ct_player c)) + 1
      in if opt_count (os ! 0) \<le> v then v - opt_count (os ! 0) else v)"
    have "0 < length os" using os(2) by linarith
    then show ?thesis using 2 os(1) same sync [of 0 v "\<lambda>g. g\<lparr>screen_scaling := v\<rparr>"]
      by (auto simp: run_shortcut_def Let_def v_def)
  next
    case 3
    define v where "v = (let v = screen_effect (globals (ct_player c)) + 1
      in if EFFECT_COUNT \<le> v then v - EFFECT_COUNT else v)"
    have "1 < length os" using os(2) by linarith
    then show ?thesis using 3 os(1) same sync [of 1 v "\<lambda>g. g\<lparr>screen_effect := v\<rparr>"]
      by (auto simp: run_shortcut_def Let_def v_def)
  qed
qed

section \<open>Threads\<close>

text \<open>
  The four ways the threads can stand while the setting is on, and the one while it is off: plain
  threading, leaving it, having left it, and coming back to it.
\<close>

definition setting_of :: "bool \<times> bool \<times> bool \<Rightarrow> bool option" where
  "setting_of t =
    (if t \<in> {(True, False, False), (True, True, True), (False, True, False), (False, False, True)} then Some True
     else if t = (False, False, False) then Some False else None)"

definition thread_setting :: "ctl \<Rightarrow> bool option" where
  "thread_setting c = setting_of (threads c)"

lemma setting_leave: "thread_setting c \<noteq> None \<Longrightarrow> thread_video (globals (ct_player c)) \<Longrightarrow>
  thread_setting (on_globals leave_thread c) = thread_setting c"
  by (auto simp: thread_setting_def setting_of_def threads_def leave_thread_def Let_def split: if_splits)

lemma setting_rejoin: "thread_setting c \<noteq> None \<Longrightarrow> \<not> thread_video (globals (ct_player c)) \<Longrightarrow>
  was_threaded (globals (ct_player c)) \<Longrightarrow> thread_setting (on_globals rejoin_thread c) = thread_setting c"
  by (auto simp: thread_setting_def setting_of_def threads_def rejoin_thread_def Let_def split: if_splits)

lemma setting_setFastForward:
  assumes "thread_setting c \<noteq> None"
  shows "thread_setting (setFastForward b c) = thread_setting c"
  using setting_leave [OF assms] setting_rejoin [OF assms]
  by (auto simp: setFastForward_def Let_def thread_setting_def)

lemma setting_power: "thread_setting c \<noteq> None \<Longrightarrow> thread_setting (power_keys pad c) = thread_setting c"
  using setting_leave [of c] setting_rejoin [of c] by (auto simp: power_keys_def Let_def)

lemma setting_toggle:
  "thread_setting c \<noteq> None \<Longrightarrow> thread_setting (carry_out_toggle c) = thread_setting c"
  by (auto simp: carry_out_toggle_def thread_setting_def setting_of_def threads_def Let_def split: if_splits)

lemma tables_setFastForward: "same_tables c d \<Longrightarrow> same_tables c (setFastForward b d)"
  by (simp add: setFastForward_def Let_def)

lemma shortcut_step_ok:
  assumes "ctl_ok c"
  shows "\<exists>stop d. shortcut_step pad i m c = Some (stop, d) \<and> same_tables c d
    \<and> (thread_setting c \<noteq> None \<longrightarrow> thread_setting d = thread_setting c)"
proof -
  obtain d where "run_shortcut i c = Some d" "same_tables c d" "threads d = threads c"
    using run_shortcut_ok [OF assms] by blast
  then show ?thesis
    using tables_setFastForward [OF same_tables_refl [OF assms]] same_tables_refl [OF assms]
      setting_setFastForward [of c]
    by (auto simp: shortcut_step_def Let_def thread_setting_def)
qed

lemma shortcut_loop_ok:
  assumes "ctl_ok c"
  shows "\<exists>d. shortcut_loop pad ms c = Some d \<and> same_tables c d
    \<and> (thread_setting c \<noteq> None \<longrightarrow> thread_setting d = thread_setting c)"
  using assms
proof (induction pad ms c rule: shortcut_loop.induct)
  case (1 pad c)
  then show ?case by (simp add: same_tables_refl)
next
  case (2 pad i m ms c)
  obtain stop d where d: "shortcut_step pad i m c = Some (stop, d)" "same_tables c d"
    "thread_setting c \<noteq> None \<Longrightarrow> thread_setting d = thread_setting c"
    using shortcut_step_ok [OF "2.prems"] by blast
  show ?case
  proof (cases stop)
    case True
    with d show ?thesis by auto
  next
    case False
    from d(2) have "ctl_ok d" by (simp add: same_tables_def)
    then obtain e where e: "shortcut_loop pad ms d = Some e" "same_tables d e"
      "thread_setting d \<noteq> None \<Longrightarrow> thread_setting e = thread_setting d"
      using "2.IH" [OF d(1) refl False] by blast
    have "shortcut_loop pad ((i, m) # ms) c = Some e" using d(1) e(1) False by simp
    moreover have "same_tables c e" using d(2) e(2) by (rule same_tables_trans)
    moreover have "thread_setting e = thread_setting c" if "thread_setting c \<noteq> None" using d(3) e(3) that by simp
    ultimately show ?thesis by blast
  qed
qed

lemma tables_keys [simp]:
  "same_tables c (menu_keys pad d) = same_tables c d" "same_tables c (power_keys pad d) = same_tables c d"
  by (simp_all add: menu_keys_def power_keys_def Let_def)

lemma ctl_ok_keys: "ctl_ok c \<Longrightarrow> same_tables c (power_keys pad (menu_keys pad c))"
  by (simp add: same_tables_refl)

lemma control_steps_tables:
  "same_tables c d \<Longrightarrow> same_tables c (fold (control_step pad) ms d)"
  "threads (fold (control_step pad) ms d) = threads d"
  by (induction ms arbitrary: d) (simp_all add: control_step_def Let_def)

lemma poll_ok:
  assumes "ctl_ok c"
  obtains d where "input_poll_callback pad c = Some (fold (control_step pad) (controls (ct_player c)) (d\<lparr>retro_buttons := 0\<rparr>))"
    "same_tables c d" "thread_setting c \<noteq> None \<Longrightarrow> thread_setting d = thread_setting c"
proof -
  let ?c = "power_keys pad (menu_keys pad c)"
  have c: "same_tables c ?c" using ctl_ok_keys [OF assms] .
  then have ok: "ctl_ok ?c" by (simp add: same_tables_def)
  obtain d where d: "shortcut_loop pad (zip [0..<SHORTCUT_COUNT] (shortcuts (ct_player ?c))) ?c = Some d" "same_tables ?c d"
    "thread_setting ?c \<noteq> None \<Longrightarrow> thread_setting d = thread_setting ?c"
    using shortcut_loop_ok [of ?c pad] ok by blast
  have m: "threads (menu_keys pad c) = threads c" by (simp add: menu_keys_def Let_def)
  have s: "thread_setting (menu_keys pad c) = thread_setting c" using m by (simp add: thread_setting_def)
  have o: "same_tables c (open_menu pad d)" "threads (open_menu pad d) = threads d"
    using same_tables_trans [OF c d(2)] by (simp_all add: open_menu_def)
  have n: "SHORTCUT_COUNT \<le> length (shortcuts (ct_player ?c))" using ok by (simp add: ctl_ok_def)
  have "input_poll_callback pad c
      = Some (fold (control_step pad) (controls (ct_player (open_menu pad d))) ((open_menu pad d)\<lparr>retro_buttons := 0\<rparr>))"
    using d(1) n by (simp only: input_poll_callback_def Let_def c_ok_bind if_True bind.bind_lunit)
  moreover have "controls (ct_player (open_menu pad d)) = controls (ct_player c)"
    using o(1) by (simp add: same_tables_def)
  moreover have "thread_setting (open_menu pad d) = thread_setting c" if "thread_setting c \<noteq> None"
    using setting_power [of "menu_keys pad c" pad] d(3) o(2) s that by (simp add: thread_setting_def)
  ultimately show thesis using that [of "open_menu pad d"] o(1) by metis
qed

section \<open>Properties\<close>

text \<open>A binding is held: its button (or, on the standard gamepad, the stick) and MENU when it needs it.\<close>

definition held :: "pad_state \<Rightarrow> int \<Rightarrow> mapping \<Rightarrow> bool" where
  "held pad gamepad m \<longleftrightarrow> 0 \<le> mp_local m
    \<and> (bit (is_pressed pad) (nat (mp_local m))
       \<or> gamepad = 0 \<and> mp_local m < 4 \<and> bit (is_pressed pad) (BTN_ID_ANALOG_UP + nat (mp_local m)))
    \<and> (mp_mod m \<longrightarrow> bit (is_pressed pad) BTN_ID_MENU)"

lemma isPressed_btn [simp]: "i < 32 \<Longrightarrow> PAD_isPressed (btn i) pad \<longleftrightarrow> bit (is_pressed pad) i"
  by (simp add: PAD_isPressed_def)

lemma and_or_0: "w AND (u OR v) = 0 \<longleftrightarrow> w AND u = 0 \<and> w AND v = 0" for u v w :: "32 word"
  by (auto simp: bit_eq_iff bit_and_iff bit_or_iff)

lemma isPressed_or: "PAD_isPressed (v OR w) pad \<longleftrightarrow> PAD_isPressed v pad \<or> PAD_isPressed w pad"
  by (simp add: PAD_isPressed_def and_or_0)

lemma btn_not_0: "i < 32 \<Longrightarrow> btn i \<noteq> 0"
  using bit_btn [of i i] by (metis bit_0_eq bot_apply bot_bool_def)

lemma control_step_held:
  assumes "- 1 \<le> mp_local m" "mp_local m < 16"
  shows "control_step pad m c = (if held pad (gamepad_type (ct_player c)) m
    then c\<lparr>retro_buttons := retro_buttons c OR mask_of (mp_retro m), skip_menu := (skip_menu c \<or> mp_mod m)\<rparr> else c)"
proof (cases "mp_local m < 0")
  case True
  then show ?thesis by (simp add: control_step_def mask_of_def held_def)
next
  case False
  then obtain i where i: "mp_local m = int i" "i < 16" using assms(2) by (metis int_nat_eq linorder_not_le nat_less_iff of_nat_less_iff of_nat_numeral zero_le_imp_eq_int)
  then have "mask_of (mp_local m) = btn i" "btn i \<noteq> 0" using btn_not_0 [of i] by (simp_all add: mask_of_def)
  with i show ?thesis
    by (auto simp: control_step_def control_mask_def held_def btn_ids isPressed_or Let_def)
qed

lemma control_steps_buttons:
  assumes "\<forall>m\<in>set ms. - 1 \<le> mp_local m \<and> mp_local m < 16 \<and> 0 \<le> mp_retro m" "r < 32"
  shows "bit (retro_buttons (fold (control_step pad) ms c)) r \<longleftrightarrow>
    bit (retro_buttons c) r \<or> (\<exists>m\<in>set ms. held pad (gamepad_type (ct_player c)) m \<and> mp_retro m = int r)"
  using assms(1)
proof (induction ms arbitrary: c)
  case (Cons m ms)
  have "gamepad_type (ct_player (control_step pad m c)) = gamepad_type (ct_player c)"
    by (simp add: control_step_def Let_def)
  moreover have "bit (retro_buttons (control_step pad m c)) r \<longleftrightarrow>
      bit (retro_buttons c) r \<or> held pad (gamepad_type (ct_player c)) m \<and> mp_retro m = int r"
    using Cons.prems assms(2) by (auto simp: control_step_held mask_of_def)
  ultimately show ?case using Cons by auto
qed simp

lemma poll_sees_controls:
  assumes "ctl_ok c" "r < 16"
    and "\<forall>m\<in>set (controls (ct_player c)). - 1 \<le> mp_local m \<and> mp_local m < 16 \<and> 0 \<le> mp_retro m"
  shows "\<exists>d. input_poll_callback pad c = Some d
    \<and> input_state_callback pad d 0 1 0 r =
        (if \<exists>m\<in>set (controls (ct_player c)). held pad (gamepad_type (ct_player c)) m \<and> mp_retro m = int r then 1 else 0)"
proof -
  obtain d where d: "input_poll_callback pad c
      = Some (fold (control_step pad) (controls (ct_player c)) (d\<lparr>retro_buttons := 0\<rparr>))" "same_tables c d"
    using poll_ok [OF assms(1)] by metis
  let ?e = "fold (control_step pad) (controls (ct_player c)) (d\<lparr>retro_buttons := 0\<rparr>)"
  have "bit (retro_buttons ?e) r \<longleftrightarrow>
      (\<exists>m\<in>set (controls (ct_player c)). held pad (gamepad_type (ct_player c)) m \<and> mp_retro m = int r)"
    using control_steps_buttons [OF assms(3), of r pad "d\<lparr>retro_buttons := 0\<rparr>"] assms(2) d(2)
    by (simp add: same_tables_def)
  moreover have "drop_bit r w AND 1 = of_bool (bit w r)" for w :: "32 word"
    by (simp add: and_one_eq mod_2_eq_odd bit_iff_odd_drop_bit)
  ultimately show ?thesis using d(1) assms(2) by (simp add: input_state_callback_def)
qed

text \<open>
  C18. The core sees exactly the buttons that are held. A poll never faults, and after it the core,
  asking for a button of its first gamepad, gets 1 when a control bound to that button is held (with
  the stick counting as the direction pad on the standard gamepad, and with MENU held when the
  binding needs it) and 0 otherwise.
\<close>

theorem core_sees_held_buttons:
  assumes "ctl_ok c" "r < 16"
    and "\<forall>m\<in>set (controls (ct_player c)). - 1 \<le> mp_local m \<and> mp_local m < 16 \<and> 0 \<le> mp_retro m"
  shows "\<exists>d. input_poll_callback pad c = Some d
    \<and> input_state_callback pad d 0 1 0 r =
        (if \<exists>m\<in>set (controls (ct_player c)). held pad (gamepad_type (ct_player c)) m \<and> mp_retro m = int r then 1 else 0)"
  by (rule poll_sees_controls [OF assms])

text \<open>Polls and ends of frames in any order.\<close>

inductive plays :: "ctl \<Rightarrow> ctl \<Rightarrow> bool" for c where
  start: "plays c c"
| poll: "plays c d \<Longrightarrow> input_poll_callback pad d = Some e \<Longrightarrow> plays c e"
| frame: "plays c d \<Longrightarrow> plays c (carry_out_toggle d)"

lemma plays_setting:
  assumes "plays c d" "ctl_ok c" "thread_setting c = Some b"
  shows "ctl_ok d \<and> thread_setting d = Some b"
  using assms
proof (induction rule: plays.induct)
  case (poll d pad e)
  then have d: "ctl_ok d" "thread_setting d = Some b" by blast+
  obtain d' where d': "input_poll_callback pad d = Some (fold (control_step pad) (controls (ct_player d)) (d'\<lparr>retro_buttons := 0\<rparr>))"
    "same_tables d d'" "thread_setting d' = Some b"
    using poll_ok [OF d(1), of pad] d(2) by (metis option.distinct(1))
  have "same_tables d e" "threads e = threads d'"
    using control_steps_tables(1) [of d "d'\<lparr>retro_buttons := 0\<rparr>" pad "controls (ct_player d)"]
      d'(1,2) poll.hyps(2) by (auto simp: control_steps_tables(2))
  with d'(3) show ?case by (simp add: same_tables_def thread_setting_def)
next
  case (frame d)
  then show ?case using setting_toggle [of d]
    by (auto simp: carry_out_toggle_def ctl_ok_def Let_def)
qed simp

text \<open>
  Fast forward and the power button never lose the player's choice of threading. Starting with
  no change pending, whatever polls and ends of frames follow, a pending change is carried out to a
  state in which the game runs threaded, or has been threaded and will be again, exactly if it was
  threaded at the start; it never ends up threaded when it was not.
\<close>

theorem threading_choice_kept:
  assumes "plays c d" "ctl_ok c"
    and "\<not> toggle_thread (globals (ct_player c))" "\<not> was_threaded (globals (ct_player c))"
  shows "let g = globals (ct_player (carry_out_toggle d)) in
    \<not> toggle_thread g \<and> (thread_video g \<or> was_threaded g) = thread_video (globals (ct_player c))
    \<and> \<not> (thread_video g \<and> was_threaded g)"
proof -
  have "thread_setting c = Some (thread_video (globals (ct_player c)))"
    using assms(3,4) by (auto simp: thread_setting_def setting_of_def threads_def Let_def)
  then have "thread_setting (carry_out_toggle d) = Some (thread_video (globals (ct_player c)))"
    using plays_setting [OF plays.frame [OF assms(1)] assms(2)] by blast
  moreover have "\<not> toggle_thread (globals (ct_player (carry_out_toggle d)))"
    by (simp add: carry_out_toggle_def Let_def)
  ultimately show ?thesis
    by (auto simp: thread_setting_def setting_of_def threads_def Let_def split: if_splits)
qed

definition demo_ctl :: ctl where
  "demo_ctl = \<lparr>ct_player = demo_player\<lparr>globals := (globals demo_player)\<lparr>thread_video := True\<rparr>\<rparr>,
     fast_forward = False, toggled_ff_on = False, skip_menu = False, show_menu = False, should_run_core = True,
     quitting = False, retro_buttons = 0, requests = []\<rparr>"

lemma demo_ctl_ok: "ctl_ok demo_ctl"
  by code_simp

theorem core_sees_held_buttons_witness:
  "\<exists>d. input_poll_callback (pad_zero\<lparr>is_pressed := btn 4\<rparr>) demo_ctl = Some d
    \<and> input_state_callback (pad_zero\<lparr>is_pressed := btn 4\<rparr>) d 0 1 0 8 = 1"
proof -
  let ?pad = "pad_zero\<lparr>is_pressed := btn 4\<rparr>"
  have "\<forall>m\<in>set (controls (ct_player demo_ctl)). - 1 \<le> mp_local m \<and> mp_local m < 16 \<and> 0 \<le> mp_retro m"
    by code_simp
  moreover have "\<exists>m\<in>set (controls (ct_player demo_ctl)). held ?pad (gamepad_type (ct_player demo_ctl)) m \<and> mp_retro m = int 8"
    by code_simp
  ultimately show ?thesis using core_sees_held_buttons [OF demo_ctl_ok, of 8 ?pad] by auto
qed

theorem threading_choice_kept_witness:
  "\<exists>d. input_poll_callback (pad_zero\<lparr>just_pressed := btn BTN_ID_POWER\<rparr>) demo_ctl = Some d
    \<and> (let g = globals (ct_player (carry_out_toggle d)) in thread_video g \<or> was_threaded g)"
proof -
  let ?pad = "pad_zero\<lparr>just_pressed := btn BTN_ID_POWER\<rparr>"
  obtain d where d: "input_poll_callback ?pad demo_ctl = Some d"
    using poll_ok [OF demo_ctl_ok] by metis
  have "\<not> toggle_thread (globals (ct_player demo_ctl))" "\<not> was_threaded (globals (ct_player demo_ctl))"
    "thread_video (globals (ct_player demo_ctl))"
    by (simp_all add: demo_ctl_def demo_player_def)
  with threading_choice_kept [OF plays.poll [OF plays.start d] demo_ctl_ok] d show ?thesis
    by (auto simp: Let_def)
qed

text \<open>
  What the uninitialised array holds decides: a core that reports none of the buttons has all of them
  when the memory was not zero.
\<close>

theorem Input_init_uses_junk:
  "map_option (\<lambda>p. list_all (\<lambda>m. mp_ignore m) (controls p)) (Input_init False (Some []) (\<lambda>_. False) demo_player) = Some True"
  "map_option (\<lambda>p. list_ex (\<lambda>m. mp_ignore m) (controls p)) (Input_init False (Some []) (\<lambda>_. True) demo_player) = Some False"
  by code_simp+

end
