(* ===== verification/Connect.thy ===== *)
theory Connect
  imports Utils
begin

text \<open>
  What the launcher reads of the engine's config.json (minui.c, the onboarding gate and the server
  form): scans of the text for a key, without a JSON parser, on the first object of the array of
  hosts. The gate lets a device into the library when that object has the address, the token and the
  device id.

  Pointers into the text are the rest of the text. The keys and buffers are the code's; the wizard's
  steps and the keyboard are other parts.
\<close>

section \<open>Scanning\<close>

definition LODOR_CONFIG_FILE :: string where
  "LODOR_CONFIG_FILE = SDCARD_PATH @ ''/Tools/'' @ PLATFORM @ ''/Lodor.pak/config.json''"

definition DQUOTE :: char where "DQUOTE = CHR 0x22"
definition BSLASH :: char where "BSLASH = CHR 0x5C"

definition is_gap :: "char \<Rightarrow> bool" where
  "is_gap c \<longleftrightarrow> c = CHR '' '' \<or> c = TAB"

definition is_ws :: "char \<Rightarrow> bool" where
  "is_ws c \<longleftrightarrow> c = CHR '' '' \<or> c = TAB \<or> c = NL \<or> c = CR"

definition needle :: "string \<Rightarrow> string" where
  "needle key = c_trunc 64 (DQUOTE # key @ [DQUOTE])"

text \<open>The common front of the scans: the text of the value of the first occurrence of the key.\<close>

definition value_of :: "string \<Rightarrow> string \<Rightarrow> string option" where
  "value_of json key =
    (case strstr json (needle key) of
       None \<Rightarrow> None
     | Some i \<Rightarrow>
         (case dropWhile is_gap (drop (i + length (needle key)) json) of
            c # rest \<Rightarrow> if c = CHR '':'' then Some (dropWhile is_ws rest) else None
          | [] \<Rightarrow> None))"

definition has_value :: "string \<Rightarrow> bool" where
  "has_value p \<longleftrightarrow>
    (if take 1 p = [DQUOTE] then take 1 (drop 1 p) \<noteq> [DQUOTE]
     else if strncmp p ''null'' 4 = 0 then False
     else take 1 p \<notin> {[], '','', ''}'', '']''})"

definition Lodor_keyHasValue :: "string \<Rightarrow> string \<Rightarrow> bool" where
  "Lodor_keyHasValue json key \<longleftrightarrow> (case value_of json key of None \<Rightarrow> False | Some p \<Rightarrow> has_value p)"

text \<open>The object that starts at the text: how far it goes.\<close>

fun object_end :: "nat \<Rightarrow> bool \<Rightarrow> bool \<Rightarrow> string \<Rightarrow> nat option" where
  "object_end depth instr esc [] = (if depth = 0 then Some 0 else None)"
| "object_end depth instr esc (c # cs) =
    (if instr then
       (if esc then map_option Suc (object_end depth True False cs)
        else if c = BSLASH then map_option Suc (object_end depth True True cs)
        else map_option Suc (object_end depth (c \<noteq> DQUOTE) False cs))
     else if c = DQUOTE then map_option Suc (object_end depth True esc cs)
     else if c = CHR ''{'' then map_option Suc (object_end (depth + 1) False esc cs)
     else if c = CHR ''}'' then
       (if depth = 1 then Some 1 else map_option Suc (object_end (depth - 1) False esc cs))
     else map_option Suc (object_end depth False esc cs))"

definition Lodor_firstHost :: "string \<Rightarrow> nat \<Rightarrow> string option" where
  "Lodor_firstHost json cap =
    (case strstr json (needle ''hosts'') of
       None \<Rightarrow> None
     | Some i \<Rightarrow>
         (let p = dropWhile (\<lambda>c. c \<notin> {CHR ''['', CHR ''{'', CHR ''}''}) (drop (i + 7) json)
          in if take 1 p \<noteq> ''['' then None
             else (let start = dropWhile is_ws (drop 1 p)
                   in if take 1 start \<noteq> ''{'' then None
                      else map_option (\<lambda>n. c_trunc cap (take n start)) (object_end 0 False False start))))"

definition read_config :: "fsys \<Rightarrow> string option" where
  "read_config fs = map_option (\<lambda>c. c_str (take 16383 c)) (fs_files fs LODOR_CONFIG_FILE)"

definition Lodor_isConnected :: "fsys \<Rightarrow> bool" where
  "Lodor_isConnected fs \<longleftrightarrow>
    (case read_config fs of
       None \<Rightarrow> False
     | Some buf \<Rightarrow>
         (case Lodor_firstHost buf 4096 of
            None \<Rightarrow> False
          | Some host \<Rightarrow> Lodor_keyHasValue host ''root_uri'' \<and> Lodor_keyHasValue host ''token''
              \<and> Lodor_keyHasValue host ''device_id''))"

text \<open>One level of unescaping, up to the closing quote or the end of the buffer.\<close>

fun unescape :: "nat \<Rightarrow> string \<Rightarrow> string" where
  "unescape 0 p = []"
| "unescape (Suc n) [] = []"
| "unescape (Suc n) (c # cs) =
    (if c = DQUOTE then []
     else if c = BSLASH then (case cs of [] \<Rightarrow> [c] | d # ds \<Rightarrow> d # unescape n ds)
     else c # unescape n cs)"

definition Lodor_readRAUser :: "fsys \<Rightarrow> nat \<Rightarrow> string option" where
  "Lodor_readRAUser fs cap =
    (case read_config fs of
       None \<Rightarrow> None
     | Some buf \<Rightarrow>
         (case value_of buf ''ra_username'' of
            Some (c # p) \<Rightarrow>
              if c = DQUOTE \<and> unescape (cap - 1) p \<noteq> [] then Some (unescape (cap - 1) p) else None
          | _ \<Rightarrow> None))"

definition Lodor_obReadStr :: "string \<Rightarrow> string \<Rightarrow> nat \<Rightarrow> string option" where
  "Lodor_obReadStr json key cap =
    (case value_of json key of
       Some (c # p) \<Rightarrow>
         (let v = take (cap - 1) (takeWhile (\<lambda>c. c \<noteq> DQUOTE) p) in
          if c = DQUOTE \<and> v \<noteq> [] then Some v else None)
     | _ \<Rightarrow> None)"

definition Lodor_obReadInt :: "string \<Rightarrow> string \<Rightarrow> int" where
  "Lodor_obReadInt json key = (case value_of json key of None \<Rightarrow> 0 | Some p \<Rightarrow> atoi p)"

definition Lodor_obReadBool :: "string \<Rightarrow> string \<Rightarrow> bool" where
  "Lodor_obReadBool json key \<longleftrightarrow> (case value_of json key of None \<Rightarrow> False | Some p \<Rightarrow> strncmp p ''true'' 4 = 0)"

section \<open>The server form\<close>

definition LODOR_OB_HOST_MAX :: nat where "LODOR_OB_HOST_MAX = 128"
definition LODOR_OB_PORT_MAX :: nat where "LODOR_OB_PORT_MAX = 8"

record onboard =
  ob_step :: nat
  ob_field :: nat
  ob_mode :: nat
  ob_mode_sel :: nat
  ob_https :: bool
  ob_insecure :: bool
  ob_host :: string
  ob_port :: string
  ob_code :: string
  ob_name :: string
  ob_kb_active :: bool
  ob_wifi_phase :: nat
  ob_wifi_window :: "nat \<times> nat \<times> nat"
  ob_wifi_ssid :: string
  ob_wifi_psk :: string
  ob_wifi_open :: bool

definition Lodor_resetOnboard :: onboard where
  "Lodor_resetOnboard = \<lparr>ob_step = 0, ob_field = 1, ob_mode = 0, ob_mode_sel = 0, ob_https = True,
     ob_insecure = False, ob_host = [], ob_port = [], ob_code = [], ob_name = ''Mini Flip'',
     ob_kb_active = False, ob_wifi_phase = 0, ob_wifi_window = (0, 0, 0), ob_wifi_ssid = [],
     ob_wifi_psk = [], ob_wifi_open = False\<rparr>"

definition split_scheme :: "string \<Rightarrow> onboard \<Rightarrow> string \<times> onboard" where
  "split_scheme root ob =
    (if strncasecmp root ''https://'' 8 = 0 then (drop 8 root, ob\<lparr>ob_https := True\<rparr>)
     else if strncasecmp root ''http://'' 7 = 0 then (drop 7 root, ob\<lparr>ob_https := False\<rparr>)
     else (root, ob))"

definition Lodor_prefillOnboard :: "fsys \<Rightarrow> onboard" where
  "Lodor_prefillOnboard fs =
    (let ob = Lodor_resetOnboard in
     case read_config fs of
       None \<Rightarrow> ob
     | Some buf \<Rightarrow>
         (case Lodor_firstHost buf 4096 of
            None \<Rightarrow> ob
          | Some host \<Rightarrow>
              (let ob = (case Lodor_obReadStr host ''root_uri'' LODOR_OB_HOST_MAX of
                       None \<Rightarrow> ob
                     | Some root \<Rightarrow> (let (rest, ob) = split_scheme root ob in ob\<lparr>ob_host := c_trunc LODOR_OB_HOST_MAX rest\<rparr>));
                   port = Lodor_obReadInt host ''port'';
                   ob = (if 0 < port then ob\<lparr>ob_port := c_trunc LODOR_OB_PORT_MAX (c_int port)\<rparr> else ob)
               in ob\<lparr>ob_insecure := Lodor_obReadBool host ''insecure_skip_verify''\<rparr>)))"

definition strip_typed_scheme :: "string \<Rightarrow> string" where
  "strip_typed_scheme h =
    (if strncasecmp h ''https://'' 8 = 0 then drop 8 h
     else if strncasecmp h ''http://'' 7 = 0 then drop 7 h else h)"

definition trim_host :: "string \<Rightarrow> string" where
  "trim_host h =
    (let host = rev (dropWhile is_gap (rev (take (LODOR_OB_HOST_MAX - 1) h)))
     in if host \<noteq> [] \<and> last host = CHR ''/'' then butlast host else host)"

definition Lodor_obBuildURL :: "onboard \<Rightarrow> nat \<Rightarrow> string" where
  "Lodor_obBuildURL ob cap =
    c_trunc cap ((if ob_https ob then ''https://'' else ''http://'')
      @ trim_host (strip_typed_scheme (dropWhile is_gap (ob_host ob))))"

section \<open>JSON texts\<close>

datatype json = JNull | JBool bool | JNum int | JStr string | JArr "json list" | JObj "(string \<times> json) list"

definition blank :: "string \<Rightarrow> bool" where
  "blank w \<longleftrightarrow> list_all is_ws w"

text \<open>
  The inside of a string as it stands in the text: a quote or a backslash only after a backslash.
  A \<open>JStr\<close> and a key carry this encoded form.
\<close>

inductive encoded :: "string \<Rightarrow> bool" where
  empty: "encoded []"
| plain: "encoded s \<Longrightarrow> c \<noteq> DQUOTE \<Longrightarrow> c \<noteq> BSLASH \<Longrightarrow> encoded (c # s)"
| escaped: "encoded s \<Longrightarrow> encoded (BSLASH # c # s)"

definition quoted :: "string \<Rightarrow> string" where
  "quoted s = DQUOTE # s @ [DQUOTE]"

text \<open>The texts of a value, with any white space between the tokens.\<close>

inductive json_text :: "json \<Rightarrow> string \<Rightarrow> bool"
  and members_text :: "(string \<times> json) list \<Rightarrow> string \<Rightarrow> bool"
  and items_text :: "json list \<Rightarrow> string \<Rightarrow> bool" where
  null: "json_text JNull ''null''"
| true: "json_text (JBool True) ''true''"
| false: "json_text (JBool False) ''false''"
| num: "json_text (JNum i) (c_int i)"
| str: "encoded s \<Longrightarrow> json_text (JStr s) (quoted s)"
| obj0: "blank w \<Longrightarrow> json_text (JObj []) (''{'' @ w @ ''}'')"
| obj: "members_text kvs t \<Longrightarrow> json_text (JObj kvs) (''{'' @ t @ ''}'')"
| arr0: "blank w \<Longrightarrow> json_text (JArr []) (''['' @ w @ '']'')"
| arr: "items_text js t \<Longrightarrow> json_text (JArr js) (''['' @ t @ '']'')"
| member: "blank w1 \<Longrightarrow> blank w2 \<Longrightarrow> blank w3 \<Longrightarrow> blank w4 \<Longrightarrow> encoded k \<Longrightarrow> json_text j t \<Longrightarrow>
    members_text [(k, j)] (w1 @ quoted k @ w2 @ '':'' @ w3 @ t @ w4)"
| members: "members_text [(k, j)] t \<Longrightarrow> members_text kvs u \<Longrightarrow> members_text ((k, j) # kvs) (t @ '','' @ u)"
| item: "blank w1 \<Longrightarrow> blank w2 \<Longrightarrow> json_text j t \<Longrightarrow> items_text [j] (w1 @ t @ w2)"
| items: "items_text [j] t \<Longrightarrow> items_text js u \<Longrightarrow> items_text (j # js) (t @ '','' @ u)"

text \<open>A text that the brace matching passes over at the same depth, outside strings.\<close>

definition skip :: "nat \<Rightarrow> nat option \<Rightarrow> nat option" where
  "skip k x = map_option (\<lambda>n. n + k) x"

lemma skip_simps [simp]:
  "skip 0 x = x" "map_option Suc (skip k x) = skip (Suc k) x" "skip j (skip k x) = skip (j + k) x"
  "skip k (Some n) = Some (n + k)"
  by (cases x; simp add: skip_def)+

lemma map_Suc_skip: "map_option Suc x = skip 1 x"
  by (cases x) (simp_all add: skip_def)

definition neutral :: "string \<Rightarrow> bool" where
  "neutral t \<longleftrightarrow> (\<forall>d rest. 0 < d \<longrightarrow>
    object_end d False False (t @ rest) = skip (length t) (object_end d False False rest))"

lemma neutral_append: "neutral t \<Longrightarrow> neutral u \<Longrightarrow> neutral (t @ u)"
  by (simp add: neutral_def)

lemma neutral_plain: "list_all (\<lambda>c. c \<notin> {DQUOTE, CHR ''{'', CHR ''}''}) t \<Longrightarrow> neutral t"
  by (induction t) (simp_all add: neutral_def)

lemma ws_plain: "is_ws c \<Longrightarrow> c \<notin> {DQUOTE, CHR ''{'', CHR ''}''}"
  by (auto simp: is_ws_def DQUOTE_def TAB_def NL_def CR_def)

lemma neutral_blank: "blank w \<Longrightarrow> neutral w"
  using ws_plain by (intro neutral_plain) (auto simp only: blank_def elim!: list.pred_mono_strong)

lemma in_string:
  "encoded s \<Longrightarrow> object_end d True False (s @ DQUOTE # rest) = skip (Suc (length s)) (object_end d False False rest)"
  by (induction rule: encoded.induct) (simp_all add: DQUOTE_def BSLASH_def map_Suc_skip)

lemma neutral_quoted: "encoded s \<Longrightarrow> neutral (quoted s)"
  by (simp add: neutral_def quoted_def in_string)

lemma neutral_braces: "neutral t \<Longrightarrow> neutral (''{'' @ t @ ''}'')"
  by (simp add: neutral_def DQUOTE_def map_Suc_skip add.commute)

lemma neutral_num: "neutral (c_int i)"
proof (rule neutral_plain)
  have "list_all (\<lambda>c. c \<notin> {DQUOTE, CHR ''{'', CHR ''}''}) (c_digits n)" for n
    using c_digits_isdigit [of n] by (auto simp: list_all_iff c_isdigit_def DQUOTE_def)
  then show "list_all (\<lambda>c. c \<notin> {DQUOTE, CHR ''{'', CHR ''}''}) (c_int i)"
    by (simp add: c_int_def DQUOTE_def)
qed

lemma neutral_tokens:
  "neutral '':''" "neutral '',''" "neutral ''null''" "neutral ''true''" "neutral ''false''"
  "neutral t \<Longrightarrow> neutral (''['' @ t @ '']'')"
proof -
  have "neutral ''[''" "neutral '']''" by (simp_all add: neutral_plain DQUOTE_def)
  then show "neutral t \<Longrightarrow> neutral (''['' @ t @ '']'')" by (intro neutral_append)
qed (simp_all add: neutral_plain DQUOTE_def)

lemma json_neutral:
  "json_text j t \<Longrightarrow> neutral t" "members_text kvs t \<Longrightarrow> neutral t" "items_text js t \<Longrightarrow> neutral t"
  by (induction rule: json_text_members_text_items_text.inducts)
    (simp_all only: neutral_append neutral_braces neutral_num neutral_quoted neutral_blank neutral_tokens)

section \<open>The first host\<close>

lemma object_end_text:
  assumes "json_text (JObj kvs) t"
  shows "take 1 t = ''{''" "object_end 0 False False (t @ rest) = Some (length t)"
proof -
  obtain u where u: "t = ''{'' @ u @ ''}''" "neutral u"
    using assms by (cases rule: json_text.cases) (auto intro: neutral_blank json_neutral)
  then show "take 1 t = ''{''" "object_end 0 False False (t @ rest) = Some (length t)"
    by (simp_all add: neutral_def DQUOTE_def)
qed

lemma needle_quoted: "length key < 62 \<Longrightarrow> needle key = quoted key"
  by (simp add: needle_def quoted_def c_trunc_def)

lemma dropWhile_blank: "blank w \<Longrightarrow> \<not> is_ws (hd t) \<Longrightarrow> t \<noteq> [] \<Longrightarrow> dropWhile is_ws (w @ t) = t"
  by (cases t) (auto simp: blank_def dropWhile_append list_all_iff)

lemma firstHost_extracts:
  assumes "strstr json (quoted ''hosts'') = Some (length pre)"
    and "json = pre @ quoted ''hosts'' @ gap @ ''['' @ w @ host @ rest"
    and "set gap \<inter> {CHR ''['', CHR ''{'', CHR ''}''} = {}" "blank w" "json_text (JObj kvs) host"
  shows "Lodor_firstHost json cap = Some (c_trunc cap host)"
proof -
  have h: "take 1 host = ''{''" "object_end 0 False False (host @ rest) = Some (length host)"
    using object_end_text [OF assms(5)] .
  then obtain hs where hs: "host = CHR ''{'' # hs" by (cases host) auto
  have "drop (length pre + 7) json = gap @ ''['' @ w @ host @ rest"
    by (simp add: assms(2) quoted_def)
  moreover have "dropWhile (\<lambda>c. c \<notin> {CHR ''['', CHR ''{'', CHR ''}''}) (gap @ ''['' @ w @ host @ rest)
      = ''['' @ w @ host @ rest"
    using assms(3) by (auto simp: dropWhile_append)
  moreover have "dropWhile is_ws (w @ host @ rest) = host @ rest"
    using dropWhile_blank [OF assms(4), of "host @ rest"] hs by (simp add: is_ws_def TAB_def NL_def CR_def)
  ultimately show ?thesis
    using assms(1) h hs by (simp add: Lodor_firstHost_def needle_quoted Let_def)
qed

text \<open>The first member with a key, or none.\<close>

definition host_value :: "string \<Rightarrow> string \<Rightarrow> json option \<Rightarrow> bool" where
  "host_value host k jo \<longleftrightarrow>
    (case jo of
       None \<Rightarrow> strstr host (quoted k) = None
     | Some j \<Rightarrow> \<exists>a w w' v rest. host = a @ quoted k @ w @ '':'' @ w' @ v @ rest
         \<and> strstr host (quoted k) = Some (length a) \<and> list_all is_gap w \<and> blank w' \<and> json_text j v)"

definition usable :: "json option \<Rightarrow> bool" where
  "usable jo \<longleftrightarrow> (case jo of None \<Rightarrow> False | Some j \<Rightarrow> j \<noteq> JNull \<and> j \<noteq> JStr [])"

lemma c_int_hd: "c_int i \<noteq> [] \<and> (c_isdigit (hd (c_int i)) \<or> hd (c_int i) = CHR ''-'')"
  using c_digits_isdigit [of "nat i"] by (cases "c_digits (nat i)") (auto simp: c_int_def)

lemma strncmp_first: "c \<noteq> d \<Longrightarrow> strncmp (c # a) (d # b) (Suc n) \<noteq> 0"
  by simp

lemma other_token:
  assumes "c \<notin> {DQUOTE, CHR ''n'', CHR '','', CHR ''}'', CHR '']''}"
  shows "has_value (c # p)"
  using assms strncmp_first [of c "CHR ''n''" p "''ull''" 3]
  by (simp add: has_value_def)

lemma digit_token: "c_isdigit c \<or> c = CHR ''-'' \<Longrightarrow>
  c \<notin> {DQUOTE, CHR ''n'', CHR '','', CHR ''}'', CHR '']''} \<and> \<not> is_ws c"
  by (auto simp: c_isdigit_def DQUOTE_def is_ws_def TAB_def NL_def CR_def)

lemma json_text_value:
  assumes "json_text j t"
  shows "t \<noteq> [] \<and> \<not> is_ws (hd t) \<and> has_value (t @ rest) = (j \<noteq> JNull \<and> j \<noteq> JStr [])"
  using assms
proof (cases rule: json_text.cases)
  case null
  then show ?thesis by (simp add: has_value_def is_ws_def DQUOTE_def TAB_def NL_def CR_def eval_nat_numeral)
next
  case (num i)
  obtain c cs where c: "c_int i = c # cs" "c_isdigit c \<or> c = CHR ''-''"
    using c_int_hd [of i] by (cases "c_int i") auto
  then show ?thesis using num digit_token [OF c(2)] other_token [of c "cs @ rest"] by simp
next
  case (str s)
  from str(3) have "take 1 (s @ [DQUOTE]) \<noteq> [DQUOTE] \<longleftrightarrow> s \<noteq> []"
    by (cases rule: encoded.cases) (auto simp: DQUOTE_def BSLASH_def)
  with str show ?thesis
    by (cases s) (auto simp: has_value_def quoted_def is_ws_def DQUOTE_def TAB_def NL_def CR_def)
qed (simp_all add: other_token DQUOTE_def is_ws_def TAB_def NL_def CR_def)

lemma keyHasValue_host:
  assumes "host_value host key jo" "length key < 62"
  shows "Lodor_keyHasValue host key \<longleftrightarrow> usable jo"
proof (cases jo)
  case None
  with assms show ?thesis
    by (simp add: Lodor_keyHasValue_def value_of_def host_value_def usable_def needle_quoted)
next
  case (Some j)
  then obtain a w w' v rest where host: "host = a @ quoted key @ w @ '':'' @ w' @ v @ rest"
    "strstr host (quoted key) = Some (length a)" "list_all is_gap w" "blank w'" "json_text j v"
    using assms(1) by (auto simp: host_value_def)
  have "dropWhile is_gap (w @ '':'' @ w' @ v @ rest) = '':'' @ w' @ v @ rest"
    using host(3) by (simp add: dropWhile_append list_all_iff is_gap_def TAB_def)
  moreover have "dropWhile is_ws (w' @ v @ rest) = v @ rest"
    using dropWhile_blank [OF host(4), of "v @ rest"] json_text_value [OF host(5)] by (cases v) auto
  moreover have "drop (length a + length (quoted key)) host = w @ '':'' @ w' @ v @ rest"
    by (simp add: host(1))
  ultimately have "value_of host key = Some (v @ rest)"
    using host(2) assms(2) by (simp add: value_of_def needle_quoted)
  then show ?thesis
    using json_text_value [OF host(5), of rest] Some by (simp add: Lodor_keyHasValue_def usable_def)
qed

text \<open>
  C19. The boot gate reads what the configuration says. For every config.json that fits its
  buffer, whatever precedes the array of hosts and however the file is laid out, the device counts as
  connected exactly if the first host object has an address, a token and a device id that are neither
  null nor empty; braces and quotes inside its strings do not end it early.
\<close>

theorem gate_reads_first_host:
  assumes "fs_files fs LODOR_CONFIG_FILE = Some json" "nul_free json" "length json < 16384"
    and "json = pre @ quoted ''hosts'' @ gap @ ''['' @ w @ host @ rest"
    and "strstr json (quoted ''hosts'') = Some (length pre)"
    and "set gap \<inter> {CHR ''['', CHR ''{'', CHR ''}''} = {}" "blank w"
    and "json_text (JObj kvs) host" "length host < 4096"
    and "host_value host ''root_uri'' uri" "host_value host ''token'' token" "host_value host ''device_id'' device"
  shows "Lodor_isConnected fs \<longleftrightarrow> usable uri \<and> usable token \<and> usable device"
proof -
  have "read_config fs = Some json" using assms(1-3) by (simp add: read_config_def c_str_id)
  moreover have "Lodor_firstHost json 4096 = Some host"
    using firstHost_extracts [OF assms(5,4,6,7,8)] assms(9) by (simp add: c_trunc_id)
  ultimately show ?thesis
    using keyHasValue_host [OF assms(10)] keyHasValue_host [OF assms(11)] keyHasValue_host [OF assms(12)]
    by (simp add: Lodor_isConnected_def)
qed

lemma value_of_member:
  assumes "host_value host key (Some (JStr v))" "length key < 62"
  shows "\<exists>rest. value_of host key = Some (quoted v @ rest)"
proof -
  obtain a w w' t rest where host: "host = a @ quoted key @ w @ '':'' @ w' @ t @ rest"
    "strstr host (quoted key) = Some (length a)" "list_all is_gap w" "blank w'" "json_text (JStr v) t"
    using assms(1) by (auto simp: host_value_def)
  have t: "t = quoted v" using host(5) by (cases rule: json_text.cases) auto
  have "dropWhile is_gap (w @ '':'' @ w' @ t @ rest) = '':'' @ w' @ t @ rest"
    using host(3) by (simp add: dropWhile_append list_all_iff is_gap_def TAB_def)
  moreover have "dropWhile is_ws (w' @ t @ rest) = t @ rest"
    using dropWhile_blank [OF host(4), of "t @ rest"] json_text_value [OF host(5)] by (cases t) auto
  moreover have "drop (length a + length (quoted key)) host = w @ '':'' @ w' @ t @ rest"
    by (simp add: host(1))
  ultimately show ?thesis
    using host(2) assms(2) t by (simp add: value_of_def needle_quoted)
qed

text \<open>An address whose part after the scheme is typed the way the form keeps it.\<close>

definition plain_host :: "string \<Rightarrow> bool" where
  "plain_host h \<longleftrightarrow> h \<noteq> [] \<and> \<not> is_gap (hd h) \<and> \<not> is_gap (last h) \<and> last h \<noteq> CHR ''/''
    \<and> strncasecmp h ''https://'' 8 \<noteq> 0 \<and> strncasecmp h ''http://'' 7 \<noteq> 0"

lemma trim_plain_host:
  assumes "plain_host h" "length h < 128"
  shows "trim_host (strip_typed_scheme (dropWhile is_gap h)) = h"
proof -
  have "dropWhile is_gap h = h" using assms(1) by (cases h) (auto simp: plain_host_def)
  moreover have "dropWhile is_gap (rev h) = rev h"
    using assms(1) by (cases "rev h") (auto simp: plain_host_def last_conv_nth hd_conv_nth hd_rev simp flip: hd_rev)
  ultimately show ?thesis
    using assms by (simp add: strip_typed_scheme_def plain_host_def trim_host_def LODOR_OB_HOST_MAX_def Let_def)
qed

text \<open>
  Reconnecting is an edit: the server form filled from an existing configuration builds the
  very address the configuration holds, https or http, whatever path follows the host name.
\<close>

theorem reconnect_keeps_url:
  assumes "read_config fs = Some json" "Lodor_firstHost json 4096 = Some host"
    and "host_value host ''root_uri'' (Some (JStr url))" "DQUOTE \<notin> set url" "length url < 128"
    and "url = (if https then ''https://'' else ''http://'') @ h" "plain_host h" "length url < cap"
  shows "Lodor_obBuildURL (Lodor_prefillOnboard fs) cap = url"
proof -
  obtain rest where "value_of host ''root_uri'' = Some (quoted url @ rest)"
    using value_of_member [OF assms(3)] by auto
  moreover have "url \<noteq> []" using assms(6) by auto
  moreover have "takeWhile (\<lambda>c. c \<noteq> DQUOTE) (url @ DQUOTE # rest') = url" for rest'
    using assms(4) by (auto simp: takeWhile_append takeWhile_eq_self)
  ultimately have root: "Lodor_obReadStr host ''root_uri'' LODOR_OB_HOST_MAX = Some url"
    using assms(5) by (simp add: Lodor_obReadStr_def quoted_def LODOR_OB_HOST_MAX_def Let_def)
  have split: "split_scheme url ob = (h, ob\<lparr>ob_https := https\<rparr>)" for ob
    using assms(6) by (cases https) (simp_all add: split_scheme_def eval_nat_numeral c_tolower_def)
  have len: "length h < 128" using assms(5,6) by simp
  have "ob_host (Lodor_prefillOnboard fs) = h \<and> ob_https (Lodor_prefillOnboard fs) = https"
    using assms(1,2) root split len
    by (simp add: Lodor_prefillOnboard_def Let_def c_trunc_id LODOR_OB_HOST_MAX_def)
  then show ?thesis
    using trim_plain_host [OF assms(7) len] assms(6,8) by (simp add: Lodor_obBuildURL_def c_trunc_id)
qed

section \<open>A device\<close>

definition demo_host :: "string \<Rightarrow> string" where
  "demo_host uri = ''{'' @ ((quoted ''root_uri'' @ '':'' @ quoted uri) @ '','' @
     ((quoted ''note'' @ '':'' @ quoted ''a}b'') @ '','' @ ((quoted ''token'' @ '':'' @ quoted ''t1'') @ '','' @
      (quoted ''device_id'' @ '':'' @ ''null'')))) @ ''}''"

definition demo_json :: "string \<Rightarrow> string" where
  "demo_json uri = (''{'' @ quoted ''theme'' @ '':'' @ quoted ''dark'' @ '','') @ quoted ''hosts'' @ '': '' @ ''['' @ '' ''
     @ demo_host uri @ '']}''"

definition demo_device :: "string \<Rightarrow> fsys" where
  "demo_device uri = \<lparr>fs_files = [LODOR_CONFIG_FILE \<mapsto> demo_json uri], fs_dirs = Map.empty, fs_writable = \<lambda>_. True\<rparr>"

lemma encoded_plain: "DQUOTE \<notin> set s \<Longrightarrow> BSLASH \<notin> set s \<Longrightarrow> encoded s"
  by (induction s) (auto intro: encoded.intros)

lemma member_compact: "encoded k \<Longrightarrow> json_text j t \<Longrightarrow> members_text [(k, j)] (quoted k @ '':'' @ t)"
  using member [of "[]" "[]" "[]" "[]" k j t] by (simp add: blank_def)

lemma demo_host_text:
  "json_text (JObj [(''root_uri'', JStr ''https://r.io/x''), (''note'', JStr ''a}b''), (''token'', JStr ''t1''),
    (''device_id'', JNull)]) (demo_host ''https://r.io/x'')"
  unfolding demo_host_def
  by (intro obj members member_compact str null encoded_plain) (simp_all add: DQUOTE_def BSLASH_def)

lemma demo_values:
  "host_value (demo_host ''https://r.io/x'') ''root_uri'' (Some (JStr ''https://r.io/x''))"
  "host_value (demo_host ''https://r.io/x'') ''token'' (Some (JStr ''t1''))"
  "host_value (demo_host ''https://r.io/x'') ''device_id'' (Some JNull)"
proof -
  have str: "json_text (JStr ''https://r.io/x'') (quoted ''https://r.io/x'')" "json_text (JStr ''t1'') (quoted ''t1'')"
    by (intro str encoded_plain; simp add: DQUOTE_def BSLASH_def)+
  have "strstr (demo_host ''https://r.io/x'') (quoted ''root_uri'') = Some 1"
    "strstr (demo_host ''https://r.io/x'') (quoted ''token'') = Some 42"
    "strstr (demo_host ''https://r.io/x'') (quoted ''device_id'') = Some 55"
    by code_simp+
  note at = this
  show "host_value (demo_host ''https://r.io/x'') ''root_uri'' (Some (JStr ''https://r.io/x''))"
    unfolding host_value_def option.case
    by (rule exI [of _ "''{''"], rule exI [of _ "[]"], rule exI [of _ "[]"], rule exI [of _ "quoted ''https://r.io/x''"],
        rule exI [of _ "drop 28 (demo_host ''https://r.io/x'')"])
      (use at str in \<open>simp add: blank_def demo_host_def quoted_def\<close>)
  show "host_value (demo_host ''https://r.io/x'') ''token'' (Some (JStr ''t1''))"
    unfolding host_value_def option.case
    by (rule exI [of _ "take 42 (demo_host ''https://r.io/x'')"], rule exI [of _ "[]"], rule exI [of _ "[]"],
        rule exI [of _ "quoted ''t1''"], rule exI [of _ "drop 54 (demo_host ''https://r.io/x'')"])
      (use at str in \<open>simp add: blank_def demo_host_def quoted_def\<close>)
  show "host_value (demo_host ''https://r.io/x'') ''device_id'' (Some JNull)"
    unfolding host_value_def option.case
    by (rule exI [of _ "take 55 (demo_host ''https://r.io/x'')"], rule exI [of _ "[]"], rule exI [of _ "[]"],
        rule exI [of _ "''null''"], rule exI [of _ "''}''"])
      (use at null in \<open>simp add: blank_def demo_host_def quoted_def\<close>)
qed

theorem gate_reads_first_host_witness: "\<not> Lodor_isConnected (demo_device ''https://r.io/x'')"
proof -
  have "strstr (demo_json ''https://r.io/x'') (quoted ''hosts'') = Some (length (''{'' @ quoted ''theme'' @ '':'' @ quoted ''dark'' @ '',''))"
    "nul_free (demo_json ''https://r.io/x'')" "length (demo_json ''https://r.io/x'') < 16384"
    by code_simp+
  moreover have "demo_json ''https://r.io/x'' = (''{'' @ quoted ''theme'' @ '':'' @ quoted ''dark'' @ '','') @ quoted ''hosts'' @ '': '' @ ''['' @ '' ''
     @ demo_host ''https://r.io/x'' @ '']}''"
    by (simp only: demo_json_def append_assoc)
  moreover have "blank '' ''" "length (demo_host ''https://r.io/x'') < 4096" by code_simp+
  ultimately show ?thesis
    using gate_reads_first_host [of "demo_device ''https://r.io/x''" "demo_json ''https://r.io/x''" _ "'': ''" "'' ''"
        "demo_host ''https://r.io/x''" "'']}''", OF _ _ _ _ _ _ _ demo_host_text _ demo_values]
    by (simp add: demo_device_def usable_def)
qed

theorem reconnect_keeps_url_witness:
  "Lodor_obBuildURL (Lodor_prefillOnboard (demo_device ''https://r.io/x'')) 144 = ''https://r.io/x''"
proof -
  have "nul_free (demo_json ''https://r.io/x'')" "length (demo_json ''https://r.io/x'') \<le> 16383" by code_simp+
  then have "read_config (demo_device ''https://r.io/x'') = Some (demo_json ''https://r.io/x'')"
    by (simp add: read_config_def demo_device_def c_str_id)
  moreover have "Lodor_firstHost (demo_json ''https://r.io/x'') 4096 = Some (demo_host ''https://r.io/x'')" by code_simp
  ultimately show ?thesis
    by (rule reconnect_keeps_url [OF _ _ demo_values(1), where https = True and h = "''r.io/x''"])
      (simp_all add: DQUOTE_def, code_simp)
qed

text \<open>
  A value that reads like a key hides the key: a host whose device name is "token" is never connected.
\<close>

theorem key_hidden_by_value:
  "\<not> Lodor_keyHasValue (''{'' @ quoted ''device_name'' @ '':'' @ quoted ''token'' @ '','' @ quoted ''token'' @ '':'' @ quoted ''t1'' @ ''}'') ''token''"
  by code_simp

end
