(* ===== verification/Keyboard.thy ===== *)
theory Keyboard
  imports CString
begin

text \<open>
  The on-screen keyboard (minui.c, Lodor_obKbOpen, Lodor_kbSnapSpecial, Lodor_kbInput, and the
  keyboard of the library search in main()): a grid of four rows of ten keys in three layers, a row
  of three special keys below it, and in the address form a row of shortcuts above it.

  A call of the handler is one frame: the buttons are what the pad reports, repeats for the
  directions and presses for the others, and the handler takes the first one in its order. A read
  outside a table or a write outside the buffer is None. Titles, masking and drawing are left out.
\<close>

section \<open>The keys\<close>

definition LODOR_KB_ROWS :: int where "LODOR_KB_ROWS = 5"
definition LODOR_KB_COLS :: nat where "LODOR_KB_COLS = 10"
definition LODOR_KB_LAYERS :: nat where "LODOR_KB_LAYERS = 3"
definition LODOR_KB_SPACE_COL :: nat where "LODOR_KB_SPACE_COL = 0"
definition LODOR_KB_DEL_COL :: nat where "LODOR_KB_DEL_COL = 4"
definition LODOR_KB_GO_COL :: nat where "LODOR_KB_GO_COL = 8"
definition LODOR_OB_URL_SC_COUNT :: nat where "LODOR_OB_URL_SC_COUNT = 5"

lemmas kb_consts = LODOR_KB_ROWS_def LODOR_KB_COLS_def LODOR_KB_LAYERS_def LODOR_KB_SPACE_COL_def
  LODOR_KB_DEL_COL_def LODOR_KB_GO_COL_def LODOR_OB_URL_SC_COUNT_def

definition lodor_kb_layers :: "string list list" where
  "lodor_kb_layers =
    [[''abcdefghij'', ''klmnopqrst'', ''uvwxyz0123'', ''456789-./_''],
     [''ABCDEFGHIJ'', ''KLMNOPQRST'', ''UVWXYZ0123'', ''456789-./_''],
     [''1234567890'', ''!@#$%^&*()'', ''-_=+[]{}<>'', [CHR ''.'', CHR '','', CHR ''?'', CHR '':'', CHR '';'',
       CHR 0x27, CHR 0x22, CHR ''/'', CHR 0x5C, CHR ''~'']]]"

definition lodor_ob_url_shortcuts :: "string list" where
  "lodor_ob_url_shortcuts = [''romm.'', ''.com'', ''.net'', ''.org'', ''.ts.net'']"

section \<open>State\<close>

text \<open>
  Whether the buffer is the one of the pairing code, and the flags and the capacity that
  Lodor_obKbOpen is given, come with the buffer.
\<close>

record keyboard =
  kb_row :: int
  kb_col :: nat
  kb_layer :: nat
  kb_buf :: string
  kb_cap :: nat
  kb_url :: bool
  kb_numeric :: bool
  kb_code :: bool
  kb_active :: bool
  kb_cancelled :: bool
  sc_sel :: nat

record kb_pad =
  k_up :: bool
  k_down :: bool
  k_left :: bool
  k_right :: bool
  k_l1 :: bool
  k_r1 :: bool
  k_a :: bool
  k_start :: bool
  k_b :: bool

definition Lodor_obKbOpen :: "string \<Rightarrow> nat \<Rightarrow> bool \<Rightarrow> bool \<Rightarrow> bool \<Rightarrow> keyboard \<Rightarrow> keyboard" where
  "Lodor_obKbOpen buf cap url numeric code k =
    k\<lparr>kb_active := True, kb_buf := buf, kb_cap := cap, kb_url := url, kb_numeric := numeric, kb_code := code,
      kb_row := 0, kb_col := 0, kb_layer := 0\<rparr>"

text \<open>The nearest of the three special columns, the first one of two as near.\<close>

definition snap_col :: "nat \<Rightarrow> nat" where
  "snap_col c =
    (if c \<in> {LODOR_KB_SPACE_COL, LODOR_KB_DEL_COL, LODOR_KB_GO_COL} then c
     else fst (fold (\<lambda>v (best, bestd).
         let d = abs (int c - int v) in if d < bestd then (v, d) else (best, bestd))
       [LODOR_KB_SPACE_COL, LODOR_KB_DEL_COL, LODOR_KB_GO_COL] (LODOR_KB_SPACE_COL, int LODOR_KB_COLS)))"

definition Lodor_kbSnapSpecial :: "keyboard \<Rightarrow> keyboard" where
  "Lodor_kbSnapSpecial k = k\<lparr>kb_col := snap_col (kb_col k)\<rparr>"

text \<open>On the row of special keys left and right go round the three columns.\<close>

definition next_special :: "nat list \<Rightarrow> nat \<Rightarrow> nat" where
  "next_special order c =
    (case find (\<lambda>i. order ! i = c) [0..<3] of None \<Rightarrow> c | Some i \<Rightarrow> order ! ((i + 1) mod 3))"

section \<open>The handler\<close>

definition snap_if_special :: "keyboard \<Rightarrow> keyboard" where
  "snap_if_special k = (if kb_row k = LODOR_KB_ROWS - 1 then Lodor_kbSnapSpecial k else k)"

definition kb_left :: "keyboard \<Rightarrow> keyboard" where
  "kb_left k =
    (if kb_row k = - 1 then k\<lparr>sc_sel := (sc_sel k + LODOR_OB_URL_SC_COUNT - 1) mod LODOR_OB_URL_SC_COUNT\<rparr>
     else if kb_row k = LODOR_KB_ROWS - 1
       then k\<lparr>kb_col := next_special [LODOR_KB_GO_COL, LODOR_KB_DEL_COL, LODOR_KB_SPACE_COL] (kb_col k)\<rparr>
     else k\<lparr>kb_col := (kb_col k + LODOR_KB_COLS - 1) mod LODOR_KB_COLS\<rparr>)"

definition kb_right :: "keyboard \<Rightarrow> keyboard" where
  "kb_right k =
    (if kb_row k = - 1 then k\<lparr>sc_sel := (sc_sel k + 1) mod LODOR_OB_URL_SC_COUNT\<rparr>
     else if kb_row k = LODOR_KB_ROWS - 1
       then k\<lparr>kb_col := next_special [LODOR_KB_SPACE_COL, LODOR_KB_DEL_COL, LODOR_KB_GO_COL] (kb_col k)\<rparr>
     else k\<lparr>kb_col := (kb_col k + 1) mod LODOR_KB_COLS\<rparr>)"

definition kb_key :: "keyboard \<Rightarrow> char option" where
  "kb_key k = do {
     c_ok (kb_layer k < length lodor_kb_layers \<and> 0 \<le> kb_row k \<and> nat (kb_row k) < 4 \<and> kb_col k < LODOR_KB_COLS);
     Some (lodor_kb_layers ! kb_layer k ! nat (kb_row k) ! kb_col k)
   }"

text \<open>Appending writes the terminating NUL as well.\<close>

definition append_buf :: "string \<Rightarrow> keyboard \<Rightarrow> keyboard option" where
  "append_buf s k = do {
     c_ok (length (kb_buf k) + length s < kb_cap k);
     Some (k\<lparr>kb_buf := kb_buf k @ s\<rparr>)
   }"

definition url_lower :: "char \<Rightarrow> char" where
  "url_lower ch = (if byte CHR ''A'' \<le> byte ch \<and> byte ch \<le> byte CHR ''Z'' then c_tolower ch else ch)"

definition kb_press :: "keyboard \<Rightarrow> keyboard option" where
  "kb_press k =
    (let len = length (kb_buf k) in
     if kb_row k = - 1 then do {
       c_ok (sc_sel k < length lodor_ob_url_shortcuts);
       let sc = lodor_ob_url_shortcuts ! sc_sel k;
       (if len + length sc < kb_cap k - 1 then append_buf sc k else Some k) }
     else if kb_row k < 4 then do {
       ch \<leftarrow> kb_key k;
       let allow = (\<not> kb_numeric k \<or> c_isdigit ch);
       (if allow \<and> len < kb_cap k - 1 then append_buf [if kb_url k then url_lower ch else ch] k else Some k) }
     else if kb_col k = LODOR_KB_SPACE_COL then
       (if \<not> kb_url k \<and> \<not> kb_numeric k \<and> \<not> kb_code k \<and> len < kb_cap k - 1 then append_buf '' '' k else Some k)
     else if kb_col k = LODOR_KB_DEL_COL then Some (k\<lparr>kb_buf := butlast (kb_buf k)\<rparr>)
     else if kb_col k = LODOR_KB_GO_COL then Some (k\<lparr>kb_active := False, kb_cancelled := False\<rparr>)
     else Some k)"

definition Lodor_kbInput :: "kb_pad \<Rightarrow> keyboard \<Rightarrow> keyboard option" where
  "Lodor_kbInput p k =
    (if k_up p then
       Some (if kb_url k \<and> kb_row k = 0 then k\<lparr>kb_row := - 1\<rparr>
             else if kb_row k = - 1 then Lodor_kbSnapSpecial (k\<lparr>kb_row := LODOR_KB_ROWS - 1\<rparr>)
             else snap_if_special (k\<lparr>kb_row := (kb_row k - 1 + LODOR_KB_ROWS) mod LODOR_KB_ROWS\<rparr>))
     else if k_down p then
       Some (if kb_row k = - 1 then k\<lparr>kb_row := 0\<rparr>
             else snap_if_special (k\<lparr>kb_row := (kb_row k + 1) mod LODOR_KB_ROWS\<rparr>))
     else if k_left p then Some (kb_left k)
     else if k_right p then Some (kb_right k)
     else if k_l1 p then Some (k\<lparr>kb_layer := (kb_layer k + LODOR_KB_LAYERS - 1) mod LODOR_KB_LAYERS\<rparr>)
     else if k_r1 p then Some (k\<lparr>kb_layer := (kb_layer k + 1) mod LODOR_KB_LAYERS\<rparr>)
     else if k_a p then kb_press k
     else if k_start p then Some (k\<lparr>kb_active := False, kb_cancelled := False\<rparr>)
     else if k_b p then Some (k\<lparr>kb_active := False, kb_cancelled := True\<rparr>)
     else Some k)"

text \<open>Frames of input while the keyboard is open.\<close>

fun kb_run :: "kb_pad list \<Rightarrow> keyboard \<Rightarrow> keyboard option" where
  "kb_run [] k = Some k"
| "kb_run (p # ps) k = (if kb_active k then Option.bind (Lodor_kbInput p k) (kb_run ps) else Some k)"

section \<open>The search keyboard\<close>

definition LODOR_SEARCH_QMAX :: nat where "LODOR_SEARCH_QMAX = 64"

text \<open>
  The search has the grid and the special keys, no shortcuts and no flags. The result tells what the
  press asks for: a scan for the query, or to close the search.
\<close>

datatype search_event = Nothing | Scan | Close

definition search_press :: "keyboard \<Rightarrow> (search_event \<times> keyboard) option" where
  "search_press k =
    (let len = length (kb_buf k) in
     if kb_row k < 4 then do {
       ch \<leftarrow> kb_key k;
       k \<leftarrow> (if len < LODOR_SEARCH_QMAX - 1 then append_buf [ch] k else Some k);
       Some (Nothing, k) }
     else if kb_col k = LODOR_KB_SPACE_COL then do {
       k \<leftarrow> (if len < LODOR_SEARCH_QMAX - 1 then append_buf '' '' k else Some k);
       Some (Nothing, k) }
     else if kb_col k = LODOR_KB_DEL_COL then Some (Nothing, k\<lparr>kb_buf := butlast (kb_buf k)\<rparr>)
     else if kb_col k = LODOR_KB_GO_COL then Some (if 1 \<le> len then Scan else Nothing, k)
     else Some (Nothing, k))"

definition search_input :: "kb_pad \<Rightarrow> keyboard \<Rightarrow> (search_event \<times> keyboard) option" where
  "search_input p k =
    (if k_up p then Some (Nothing, snap_if_special (k\<lparr>kb_row := (kb_row k - 1 + LODOR_KB_ROWS) mod LODOR_KB_ROWS\<rparr>))
     else if k_down p then Some (Nothing, snap_if_special (k\<lparr>kb_row := (kb_row k + 1) mod LODOR_KB_ROWS\<rparr>))
     else if k_left p then
       Some (Nothing, if kb_row k = LODOR_KB_ROWS - 1
         then k\<lparr>kb_col := next_special [LODOR_KB_GO_COL, LODOR_KB_DEL_COL, LODOR_KB_SPACE_COL] (kb_col k)\<rparr>
         else k\<lparr>kb_col := (kb_col k + LODOR_KB_COLS - 1) mod LODOR_KB_COLS\<rparr>)
     else if k_right p then
       Some (Nothing, if kb_row k = LODOR_KB_ROWS - 1
         then k\<lparr>kb_col := next_special [LODOR_KB_SPACE_COL, LODOR_KB_DEL_COL, LODOR_KB_GO_COL] (kb_col k)\<rparr>
         else k\<lparr>kb_col := (kb_col k + 1) mod LODOR_KB_COLS\<rparr>)
     else if k_l1 p then Some (Nothing, k\<lparr>kb_layer := (kb_layer k + LODOR_KB_LAYERS - 1) mod LODOR_KB_LAYERS\<rparr>)
     else if k_r1 p then Some (Nothing, k\<lparr>kb_layer := (kb_layer k + 1) mod LODOR_KB_LAYERS\<rparr>)
     else if k_a p then search_press k
     else if k_start p then Some (if 1 \<le> length (kb_buf k) then Scan else Nothing, k)
     else if k_b p then Some (Close, k)
     else Some (Nothing, k))"

section \<open>The keyboard stays in its bounds\<close>

definition special :: "nat \<Rightarrow> bool" where
  "special c \<longleftrightarrow> c \<in> {0, 4, 8}"

definition kb_ok :: "keyboard \<Rightarrow> bool" where
  "kb_ok k \<longleftrightarrow> (if kb_url k then - 1 else 0) \<le> kb_row k \<and> kb_row k < 5 \<and> kb_col k < 10
    \<and> (kb_row k = 4 \<longrightarrow> special (kb_col k)) \<and> kb_layer k < 3 \<and> sc_sel k < 5
    \<and> length (kb_buf k) < kb_cap k"

lemma snap_col_special: "c < 10 \<Longrightarrow> special (snap_col c)"
proof -
  have "list_all (\<lambda>c. special (snap_col c)) [0..<10]" by code_simp
  then show "c < 10 \<Longrightarrow> special (snap_col c)" by (simp add: list_all_iff)
qed

lemma next_special_cols:
  assumes "special c"
  shows "special (next_special [8, 4, 0] c)" "special (next_special [0, 4, 8] c)"
proof -
  have "list_all (\<lambda>c. special (next_special [8, 4, 0] c) \<and> special (next_special [0, 4, 8] c)) [0, 4, 8]"
    by code_simp
  with assms show "special (next_special [8, 4, 0] c)" "special (next_special [0, 4, 8] c)"
    by (auto simp: special_def [of c])
qed

lemma special_less: "special c \<Longrightarrow> c < 10"
  by (auto simp: special_def)

lemma snap_ok:
  assumes "kb_ok (k\<lparr>kb_row := 0\<rparr>)" "0 \<le> r" "r < 5"
  shows "kb_ok (snap_if_special (k\<lparr>kb_row := r\<rparr>))"
  using assms snap_col_special [of "kb_col k"] special_less [of "snap_col (kb_col k)"]
  by (auto simp: kb_ok_def snap_if_special_def Lodor_kbSnapSpecial_def kb_consts)

lemma row_0_ok: "kb_ok k \<Longrightarrow> kb_ok (k\<lparr>kb_row := 0\<rparr>)"
  by (auto simp: kb_ok_def split: if_splits)

lemma sides_ok:
  assumes "kb_ok k"
  shows "kb_ok (kb_left k)" "kb_ok (kb_right k)"
  using assms next_special_cols [of "kb_col k"] special_less
  by (cases "kb_url k"; simp add: kb_ok_def kb_left_def kb_right_def kb_consts)+

lemma press_ok:
  assumes "kb_ok k"
  shows "\<exists>l. kb_press k = Some l \<and> kb_ok l"
proof -
  have "kb_ok (k\<lparr>kb_buf := butlast (kb_buf k)\<rparr>)" "kb_ok (k\<lparr>kb_active := a, kb_cancelled := b\<rparr>)" for a b
    using assms by (auto simp: kb_ok_def)
  moreover have "length (kb_buf k) + length s < kb_cap k \<Longrightarrow> append_buf s k = Some (k\<lparr>kb_buf := kb_buf k @ s\<rparr>)
      \<and> kb_ok (k\<lparr>kb_buf := kb_buf k @ s\<rparr>)" for s
    using assms by (auto simp: append_buf_def kb_ok_def)
  moreover have "kb_row k \<noteq> - 1 \<Longrightarrow> kb_row k < 4 \<Longrightarrow> kb_key k \<noteq> None"
    using assms by (auto simp: kb_key_def kb_ok_def lodor_kb_layers_def kb_consts split: if_splits)
  moreover have "sc_sel k < length lodor_ob_url_shortcuts" using assms by (simp add: kb_ok_def lodor_ob_url_shortcuts_def)
  ultimately show ?thesis
    using assms by (auto simp: kb_press_def Let_def)
qed

lemma kbInput_ok:
  assumes "kb_ok k"
  shows "\<exists>l. Lodor_kbInput p k = Some l \<and> kb_ok l"
proof -
  have rows: "kb_row k \<noteq> - 1 \<Longrightarrow> 0 \<le> kb_row k \<and> kb_row k < 5" using assms by (auto simp: kb_ok_def split: if_splits)
  have "kb_ok (snap_if_special (k\<lparr>kb_row := 4\<rparr>))" using snap_ok [OF row_0_ok [OF assms]] by simp
  then have top: "kb_ok (Lodor_kbSnapSpecial (k\<lparr>kb_row := 4\<rparr>))" by (simp add: snap_if_special_def kb_consts)
  have "kb_url k \<Longrightarrow> kb_ok (k\<lparr>kb_row := - 1\<rparr>)" using assms by (auto simp: kb_ok_def)
  moreover have "kb_ok (k\<lparr>kb_layer := l mod 3\<rparr>)" "kb_ok (k\<lparr>kb_active := a, kb_cancelled := b\<rparr>)" for l a b
    using assms by (auto simp: kb_ok_def)
  ultimately show ?thesis
    using assms rows top snap_ok [OF row_0_ok [OF assms]] row_0_ok [OF assms] sides_ok [OF assms] press_ok [OF assms]
    by (simp add: Lodor_kbInput_def kb_consts)
qed

lemma kb_run_ok: "kb_ok k \<Longrightarrow> \<exists>l. kb_run ps k = Some l \<and> kb_ok l"
proof (induction ps arbitrary: k)
  case (Cons p ps)
  obtain l where "Lodor_kbInput p k = Some l" "kb_ok l" using kbInput_ok [OF Cons.prems] by blast
  with Cons show ?case by auto
qed simp

section \<open>Every key can be reached\<close>

definition no_keys :: kb_pad where
  "no_keys = \<lparr>k_up = False, k_down = False, k_left = False, k_right = False, k_l1 = False, k_r1 = False,
     k_a = False, k_start = False, k_b = False\<rparr>"

abbreviation "down \<equiv> no_keys\<lparr>k_down := True\<rparr>"
abbreviation "right \<equiv> no_keys\<lparr>k_right := True\<rparr>"
abbreviation "layer \<equiv> no_keys\<lparr>k_r1 := True\<rparr>"

lemma kb_run_append: "kb_run (ps @ qs) k = Option.bind (kb_run ps k) (kb_run qs)"
proof (induction ps arbitrary: k)
  case (Cons p ps)
  show ?case
  proof (cases "kb_active k")
    case True
    then show ?thesis using Cons by (cases "Lodor_kbInput p k") auto
  next
    case False
    then show ?thesis by (cases qs) auto
  qed
qed simp

definition reaches :: "keyboard \<Rightarrow> keyboard \<Rightarrow> bool" where
  "reaches k l \<longleftrightarrow> (\<exists>ps. kb_run ps k = Some l)"

lemma reaches_refl: "reaches k k"
  unfolding reaches_def by (rule exI [of _ "[]"]) simp

lemma reaches_trans: "reaches k l \<Longrightarrow> reaches l m \<Longrightarrow> reaches k m"
  unfolding reaches_def by (metis kb_run_append bind.bind_lunit)

lemma reaches_step: "kb_active k \<Longrightarrow> Lodor_kbInput p k = Some l \<Longrightarrow> reaches k l"
  unfolding reaches_def by (rule exI [of _ "[p]"]) simp

lemma reach_row:
  assumes "kb_active k" "0 \<le> kb_row k" "kb_col k < 10"
  shows "\<exists>c. c < 10 \<and> ((kb_row k + int n) mod 5 = 4 \<longrightarrow> n = 0 \<or> special c)
    \<and> reaches k (k\<lparr>kb_row := (if n = 0 then kb_row k else (kb_row k + int n) mod 5), kb_col := c\<rparr>)"
proof (induction n)
  case 0
  have "k\<lparr>kb_row := kb_row k, kb_col := kb_col k\<rparr> = k" by simp
  then show ?case using assms(3) reaches_refl [of k] by (intro exI [of _ "kb_col k"]) simp
next
  case (Suc n)
  define r where "r = (if n = 0 then kb_row k else (kb_row k + int n) mod 5)"
  obtain c where c: "c < 10" "reaches k (k\<lparr>kb_row := r, kb_col := c\<rparr>)"
    using Suc unfolding r_def by auto
  let ?l = "k\<lparr>kb_row := r, kb_col := c\<rparr>"
  have r: "0 \<le> r" "(r + 1) mod 5 = (kb_row k + int (Suc n)) mod 5"
    using assms(2) by (simp_all add: r_def mod_add_left_eq add.assoc add.commute [of 1])
  define c' where "c' = (if (r + 1) mod 5 = 4 then snap_col c else c)"
  have "Lodor_kbInput down ?l = Some (k\<lparr>kb_row := (r + 1) mod 5, kb_col := c'\<rparr>)"
    using r(1) by (simp add: Lodor_kbInput_def no_keys_def snap_if_special_def Lodor_kbSnapSpecial_def kb_consts c'_def)
  then have "reaches k (k\<lparr>kb_row := (r + 1) mod 5, kb_col := c'\<rparr>)"
    using reaches_trans [OF c(2)] reaches_step [of ?l down] assms(1) by simp
  moreover have "c' < 10" "(r + 1) mod 5 = 4 \<longrightarrow> special c'"
    using c(1) snap_col_special [OF c(1)] special_less by (simp_all add: c'_def)
  ultimately show ?case using r(2) by (intro exI [of _ c']) simp
qed

lemma reach_col:
  assumes "kb_active k" "0 \<le> kb_row k" "kb_row k < 4" "kb_col k < 10"
  shows "reaches k (k\<lparr>kb_col := (kb_col k + n) mod 10\<rparr>)"
proof (induction n)
  case 0
  then show ?case using assms(4) reaches_refl [of k] by simp
next
  case (Suc n)
  let ?l = "k\<lparr>kb_col := (kb_col k + n) mod 10\<rparr>"
  have "Lodor_kbInput right ?l = Some (k\<lparr>kb_col := (kb_col k + Suc n) mod 10\<rparr>)"
    using assms(2,3) by (simp add: Lodor_kbInput_def no_keys_def kb_right_def kb_consts mod_Suc_eq)
  then show ?case using reaches_trans [OF Suc] reaches_step [of ?l right] assms(1) by simp
qed

lemma reach_layer:
  assumes "kb_active k" "kb_layer k < 3"
  shows "reaches k (k\<lparr>kb_layer := (kb_layer k + n) mod 3\<rparr>)"
proof (induction n)
  case 0
  then show ?case using assms(2) reaches_refl [of k] by simp
next
  case (Suc n)
  let ?l = "k\<lparr>kb_layer := (kb_layer k + n) mod 3\<rparr>"
  have "Lodor_kbInput layer ?l = Some (k\<lparr>kb_layer := (kb_layer k + Suc n) mod 3\<rparr>)"
    by (simp add: Lodor_kbInput_def no_keys_def kb_consts mod_Suc_eq)
  then show ?case using reaches_trans [OF Suc] reaches_step [of ?l layer] assms(1) by simp
qed

text \<open>From anywhere to any cell of the grid, and to the space key.\<close>

lemma reach_cell:
  assumes "kb_active k" "kb_ok k" "\<not> kb_url k" "r < 4" "c < 10" "l < 3"
  shows "reaches k (k\<lparr>kb_row := int r, kb_col := c, kb_layer := l\<rparr>)"
proof -
  have k: "0 \<le> kb_row k" "kb_col k < 10" "kb_layer k < 3" using assms(2,3) by (simp_all add: kb_ok_def)
  have "(kb_row k + int (nat (int r - kb_row k + 5))) mod 5 = int r" "nat (int r - kb_row k + 5) \<noteq> 0"
    using assms(2,4) by (simp_all add: kb_ok_def)
  then obtain c0 where c0: "c0 < 10" "reaches k (k\<lparr>kb_row := int r, kb_col := c0\<rparr>)"
    using reach_row [OF assms(1) k(1,2), of "nat (int r - kb_row k + 5)"] by auto
  have "(c0 + (c + 10 - c0)) mod 10 = c" using c0(1) assms(5) by simp
  then have "reaches k (k\<lparr>kb_row := int r, kb_col := c\<rparr>)"
    using reaches_trans [OF c0(2)] reach_col [of "k\<lparr>kb_row := int r, kb_col := c0\<rparr>" "c + 10 - c0"] c0(1) assms(1,4) by simp
  moreover have "(kb_layer k + (l + 3 - kb_layer k)) mod 3 = l" using k(3) assms(6) by simp
  ultimately show ?thesis
    using reaches_trans reach_layer [of "k\<lparr>kb_row := int r, kb_col := c\<rparr>" "l + 3 - kb_layer k"] assms(1) k(3) by simp
qed

lemma reach_space:
  assumes "kb_active k" "kb_ok k" "\<not> kb_url k"
  shows "reaches k (k\<lparr>kb_row := 4, kb_col := 0\<rparr>)"
proof -
  have k: "0 \<le> kb_row k" "kb_col k < 10" using assms(2,3) by (simp_all add: kb_ok_def)
  have "(kb_row k + int (nat (9 - kb_row k))) mod 5 = 4" "nat (9 - kb_row k) \<noteq> 0"
    using assms(2) by (simp_all add: kb_ok_def)
  then obtain c where c: "special c" "reaches k (k\<lparr>kb_row := 4, kb_col := c\<rparr>)"
    using reach_row [OF assms(1) k, of "nat (9 - kb_row k)"] by auto
  let ?s = "\<lambda>c. k\<lparr>kb_row := 4, kb_col := c\<rparr>"
  have step: "reaches (?s c) (?s (next_special [0, 4, 8] c))" for c
    using assms(1) by (intro reaches_step [where p = right])
      (simp_all add: Lodor_kbInput_def no_keys_def kb_right_def kb_consts)
  have "next_special [0, 4, 8] 4 = 8" "next_special [0, 4, 8] 8 = 0" by code_simp+
  with step [of 4] step [of 8] have s: "reaches (?s 4) (?s 8)" "reaches (?s 8) (?s 0)" by simp_all
  from c(1) consider "c = 0" | "c = 4" | "c = 8" by (auto simp: special_def)
  then have "reaches (?s c) (?s 0)"
  proof cases
    case 1
    then show ?thesis using reaches_refl by simp
  next
    case 2
    then show ?thesis using reaches_trans [OF s] by simp
  next
    case 3
    then show ?thesis using s(2) by simp
  qed
  then show ?thesis by (rule reaches_trans [OF c(2)])
qed

text \<open>The characters that a key of the keyboard gives, and the fields of the form that take text.\<close>

definition typeable :: "char \<Rightarrow> bool" where
  "typeable ch \<longleftrightarrow> ch = CHR '' '' \<or> ch \<in> set (concat (concat lodor_kb_layers))"

definition text_field :: "keyboard \<Rightarrow> bool" where
  "text_field k \<longleftrightarrow> kb_active k \<and> kb_ok k \<and> \<not> kb_url k \<and> \<not> kb_numeric k \<and> \<not> kb_code k"

lemma typeable_cell:
  assumes "ch \<in> set (concat (concat lodor_kb_layers))"
  obtains l r c where "l < 3" "r < 4" "c < 10" "lodor_kb_layers ! l ! r ! c = ch"
proof -
  have shape: "length lodor_kb_layers = 3" "list_all (\<lambda>ys. length ys = 4) lodor_kb_layers"
    "list_all (list_all (\<lambda>row. length row = 10)) lodor_kb_layers"
    by (simp_all add: lodor_kb_layers_def)
  from assms obtain ys row where ys: "ys \<in> set lodor_kb_layers" "row \<in> set ys" "ch \<in> set row" by auto
  then have len: "length ys = 4" "length row = 10" using shape by (auto simp: list_all_iff)
  obtain l where l: "l < 3" "ys = lodor_kb_layers ! l" using ys(1) shape(1) by (metis in_set_conv_nth)
  obtain r where r: "r < 4" "row = ys ! r" using ys(2) len(1) by (metis in_set_conv_nth)
  obtain c where c: "c < 10" "ch = row ! c" using ys(3) len(2) by (metis in_set_conv_nth)
  show ?thesis using that [of l r c] l r c by simp
qed

lemma reach_char:
  assumes "text_field k" "typeable ch" "length (kb_buf k) + 1 < kb_cap k"
  shows "\<exists>l. reaches k l \<and> text_field l \<and> kb_buf l = kb_buf k @ [ch] \<and> kb_cap l = kb_cap k"
proof -
  let ?a = "no_keys\<lparr>k_a := True\<rparr>"
  have k: "kb_active k" "kb_ok k" "\<not> kb_url k" "\<not> kb_numeric k" "\<not> kb_code k"
    using assms(1) by (simp_all add: text_field_def)
  have field: "text_field (k\<lparr>kb_row := r, kb_col := c, kb_layer := l, kb_buf := b\<rparr>)"
    if "0 \<le> r" "r < 5" "c < 10" "r = 4 \<longrightarrow> special c" "l < 3" "length b < kb_cap k" for r c l b
    using k that by (simp add: text_field_def kb_ok_def)
  show ?thesis
  proof (cases "ch = CHR '' ''")
    case True
    let ?l = "k\<lparr>kb_row := 4, kb_col := 0\<rparr>"
    have "Lodor_kbInput ?a ?l = Some (?l\<lparr>kb_buf := kb_buf k @ '' ''\<rparr>)"
      using k assms(3) by (simp add: Lodor_kbInput_def no_keys_def kb_press_def append_buf_def kb_consts Let_def)
    then have "reaches k (?l\<lparr>kb_buf := kb_buf k @ '' ''\<rparr>)"
      using reaches_trans [OF reach_space reaches_step] k by simp
    moreover have "text_field (?l\<lparr>kb_buf := kb_buf k @ '' ''\<rparr>)"
      using field [of 4 0 "kb_layer k" "kb_buf k @ '' ''"] k assms(3) by (simp add: kb_ok_def special_def)
    ultimately show ?thesis using True by (intro exI [of _ "?l\<lparr>kb_buf := kb_buf k @ '' ''\<rparr>"]) simp
  next
    case False
    then have "ch \<in> set (concat (concat lodor_kb_layers))" using assms(2) unfolding typeable_def by blast
    then obtain l r c where cell: "l < 3" "r < 4" "c < 10" "lodor_kb_layers ! l ! r ! c = ch"
      by (rule typeable_cell)
    let ?l = "k\<lparr>kb_row := int r, kb_col := c, kb_layer := l\<rparr>"
    have "kb_key ?l = Some ch"
      using cell by (simp add: kb_key_def kb_consts lodor_kb_layers_def)
    then have "Lodor_kbInput ?a ?l = Some (?l\<lparr>kb_buf := kb_buf k @ [ch]\<rparr>)"
      using k cell assms(3) by (simp add: Lodor_kbInput_def no_keys_def kb_press_def append_buf_def Let_def)
    then have "reaches k (?l\<lparr>kb_buf := kb_buf k @ [ch]\<rparr>)"
      using reaches_trans [OF reach_cell reaches_step] k cell by simp
    moreover have "text_field (?l\<lparr>kb_buf := kb_buf k @ [ch]\<rparr>)"
      using field [of "int r" c l "kb_buf k @ [ch]"] cell assms(3) by simp
    ultimately show ?thesis by (intro exI [of _ "?l\<lparr>kb_buf := kb_buf k @ [ch]\<rparr>"]) simp
  qed
qed

lemma reach_string:
  assumes "text_field k" "list_all typeable s" "length (kb_buf k) + length s < kb_cap k"
  shows "\<exists>l. reaches k l \<and> text_field l \<and> kb_buf l = kb_buf k @ s"
  using assms
proof (induction s arbitrary: k)
  case Nil
  then show ?case using reaches_refl by auto
next
  case (Cons ch s)
  then obtain l where l: "reaches k l" "text_field l" "kb_buf l = kb_buf k @ [ch]" "kb_cap l = kb_cap k"
    using reach_char [of k ch] by auto
  then obtain m where m: "reaches l m" "text_field m" "kb_buf m = kb_buf l @ s"
    using Cons.IH [of l] Cons.prems by auto
  show ?case using reaches_trans [OF l(1) m(1)] m(2,3) l(3) by (intro exI [of _ m]) simp
qed

section \<open>Properties\<close>

text \<open>
  Whatever the player presses after the keyboard opened on a field, for any kind of field, the
  handler reads inside its tables and writes inside the buffer of the field: every sequence of frames
  runs through, the cursor stays on a key, and what was typed fits the field with its NUL.
\<close>

theorem keyboard_in_bounds:
  assumes "sc_sel k < LODOR_OB_URL_SC_COUNT" "length buf < cap"
  shows "\<exists>l. kb_run ps (Lodor_obKbOpen buf cap url numeric code k) = Some l \<and> kb_ok l"
  by (rule kb_run_ok) (use assms in \<open>simp add: kb_ok_def Lodor_obKbOpen_def kb_consts\<close>)

definition demo_kb :: keyboard where
  "demo_kb = \<lparr>kb_row = 3, kb_col = 7, kb_layer = 2, kb_buf = '''', kb_cap = 0, kb_url = False, kb_numeric = False,
     kb_code = False, kb_active = False, kb_cancelled = False, sc_sel = 1\<rparr>"

theorem keyboard_in_bounds_witness:
  "\<exists>l. kb_run [no_keys\<lparr>k_up := True\<rparr>, no_keys\<lparr>k_a := True\<rparr>, no_keys\<lparr>k_up := True\<rparr>]
      (Lodor_obKbOpen ''http'' 8 True False False demo_kb) = Some l \<and> kb_ok l"
  by (rule keyboard_in_bounds) (simp_all add: demo_kb_def kb_consts)

text \<open>
  Every text made of the characters on the keys and the space, that fits the field, can be
  typed: from the opened keyboard of a text field there is a sequence of frames after which the keyboard
  has closed, not cancelled, with that text behind what the field held.
\<close>

theorem every_text_typeable:
  assumes "sc_sel k < LODOR_OB_URL_SC_COUNT" "list_all typeable s" "length buf + length s < cap"
  shows "\<exists>ps l. kb_run ps (Lodor_obKbOpen buf cap False False False k) = Some l
    \<and> \<not> kb_active l \<and> \<not> kb_cancelled l \<and> kb_buf l = buf @ s"
proof -
  let ?k = "Lodor_obKbOpen buf cap False False False k"
  have "text_field ?k" using assms(1,3) by (simp add: text_field_def kb_ok_def Lodor_obKbOpen_def kb_consts)
  moreover have "kb_buf ?k = buf" "kb_cap ?k = cap" by (simp_all add: Lodor_obKbOpen_def)
  ultimately obtain l where l: "reaches ?k l" "text_field l" "kb_buf l = buf @ s"
    using reach_string [of ?k s] assms(2,3) by auto
  have "reaches l (l\<lparr>kb_active := False, kb_cancelled := False\<rparr>)"
    using l(2) by (intro reaches_step [where p = "no_keys\<lparr>k_start := True\<rparr>"])
      (simp_all add: Lodor_kbInput_def no_keys_def text_field_def)
  with l have "reaches ?k (l\<lparr>kb_active := False, kb_cancelled := False\<rparr>)" using reaches_trans by blast
  then obtain ps where "kb_run ps ?k = Some (l\<lparr>kb_active := False, kb_cancelled := False\<rparr>)"
    by (auto simp: reaches_def)
  with l(3) show ?thesis by (intro exI [of _ ps] exI [of _ "l\<lparr>kb_active := False, kb_cancelled := False\<rparr>"]) simp
qed

theorem every_text_typeable_witness:
  "\<exists>ps l. kb_run ps (Lodor_obKbOpen ''me'' 64 False False False demo_kb) = Some l
    \<and> \<not> kb_active l \<and> \<not> kb_cancelled l \<and> kb_buf l = ''me'' @ ''@home, Z~9''"
  by (rule every_text_typeable) (simp_all add: demo_kb_def kb_consts typeable_def lodor_kb_layers_def)

text \<open>A password with a bar or a backquote cannot be entered: no key gives them.\<close>

theorem bar_not_typeable: "\<not> typeable CHR ''|'' \<and> \<not> typeable (CHR 0x60)"
  by (simp add: typeable_def lodor_kb_layers_def)

end
