(* ===== verification/Search.thy ===== *)
theory Search
  imports Listing Keyboard "HOL-Library.Sublist"
begin

text \<open>
  The library search of minui.c: the case-insensitive match (Lodor_ciContains), the scan of the
  mirrored library (Lodor_runScan), and a frame of the overlay in main(), from the keyboard of theory
  Keyboard to the result list with the slice that is drawn. What A and Y do with the selected result
  is reported as an event.
\<close>

section \<open>Matching\<close>

fun ci_prefix :: "string \<Rightarrow> string \<Rightarrow> bool" where
  "ci_prefix h [] = True"
| "ci_prefix [] (n # ns) = False"
| "ci_prefix (c # h) (n # ns) = (c_tolower c = n \<and> ci_prefix h ns)"

fun ci_scan :: "string \<Rightarrow> string \<Rightarrow> bool" where
  "ci_scan [] lc_needle = False"
| "ci_scan (c # h) lc_needle = (ci_prefix (c # h) lc_needle \<or> ci_scan h lc_needle)"

definition Lodor_ciContains :: "string \<Rightarrow> string \<Rightarrow> bool" where
  "Lodor_ciContains haystack lc_needle \<longleftrightarrow> lc_needle \<noteq> [] \<and> ci_scan haystack lc_needle"

section \<open>The scan\<close>

definition LODOR_SEARCH_CAP :: nat where "LODOR_SEARCH_CAP = 100"

record search =
  s_kb :: keyboard
  s_show :: bool
  s_phase :: nat
  s_sel :: int
  s_start :: int
  s_end :: int
  s_capped :: bool
  s_results :: "entry list option"

definition Lodor_resetSearch :: "search \<Rightarrow> search" where
  "Lodor_resetSearch s =
    s\<lparr>s_results := None, s_kb := (s_kb s)\<lparr>kb_buf := '''', kb_row := 0, kb_col := 0, kb_layer := 0\<rparr>,
      s_phase := 0, s_sel := 0, s_start := 0, s_end := 0, s_capped := False\<rparr>"

definition Lodor_closeSearch :: "search \<Rightarrow> search" where
  "Lodor_closeSearch s = s\<lparr>s_show := False, s_results := None\<rparr>"

text \<open>One folder of the library, up to the cap, and the folders in turn.\<close>

fun scan_folder :: "string \<Rightarrow> string \<Rightarrow> string \<Rightarrow> dirent list \<Rightarrow> entry list \<Rightarrow> (entry list \<times> bool) option" where
  "scan_folder subpath sub needle [] results = Some (results, False)"
| "scan_folder subpath sub needle (fp # fps) results =
    (if d_name fp \<noteq> [] \<and> hd (d_name fp) = CHR ''.'' \<or> hide (d_name fp) \<or> \<not> Lodor_ciContains (d_name fp) needle
     then scan_folder subpath sub needle fps results
     else do {
       let full_path = c_trunc MAX_PATH (subpath @ ''/'' @ d_name fp);
       e \<leftarrow> Entry_new full_path ENTRY_ROM;
       let results = results @ [e\<lparr>e_name := c_trunc 320 (e_name e @ '' ('' @ sub @ '')'')\<rparr>];
       (if LODOR_SEARCH_CAP \<le> length results then Some (results, True)
        else scan_folder subpath sub needle fps results)
     })"

fun scan_library :: "fsys \<Rightarrow> string \<Rightarrow> dirent list \<Rightarrow> entry list \<Rightarrow> (entry list \<times> bool) option" where
  "scan_library fs needle [] results = Some (results, False)"
| "scan_library fs needle (sub # subs) results =
    (if hide (d_name sub) then scan_library fs needle subs results
     else
       let subpath = c_trunc MAX_PATH (ROMS_PATH @ ''/'' @ d_name sub) in
       case opendir fs subpath of
         None \<Rightarrow> scan_library fs needle subs results
       | Some fps \<Rightarrow> do {
           (results, capped) \<leftarrow> scan_folder subpath (d_name sub) needle fps results;
           (if capped then Some (results, True) else scan_library fs needle subs results)
         })"

definition Lodor_runScan :: "fsys \<Rightarrow> search \<Rightarrow> search option" where
  "Lodor_runScan fs s =
    (let q = kb_buf (s_kb s);
         s = s\<lparr>s_results := Some [], s_sel := 0, s_start := 0, s_end := 0, s_capped := False\<rparr> in
     if length q < 1 then Some s
     else
       let needle = map c_tolower (take (LODOR_SEARCH_QMAX - 1) q) in
       case opendir fs ROMS_PATH of
         None \<Rightarrow> Some s
       | Some ds \<Rightarrow> do {
           (results, capped) \<leftarrow> scan_library fs needle ds [];
           Some (s\<lparr>s_results := Some (EntryArray_sort results), s_capped := capped\<rparr>)
         })"

section \<open>The overlay\<close>

definition result_count :: "search \<Rightarrow> int" where
  "result_count s = (case s_results s of None \<Rightarrow> 0 | Some es \<Rightarrow> int (length es))"

definition results_up :: "int \<Rightarrow> search \<Rightarrow> search" where
  "results_up rows s =
    (let rc = result_count s; sel = s_sel s - 1 in
     if rc \<le> 0 then s
     else if sel < 0 then
       s\<lparr>s_sel := rc - 1, s_start := (if rc - (rows - 1) < 0 then 0 else rc - (rows - 1)), s_end := rc\<rparr>
     else if sel < s_start s then s\<lparr>s_sel := sel, s_start := s_start s - 1, s_end := s_end s - 1\<rparr>
     else s\<lparr>s_sel := sel\<rparr>)"

definition results_down :: "int \<Rightarrow> search \<Rightarrow> search" where
  "results_down rows s =
    (let rc = result_count s; sel = s_sel s + 1 in
     if rc \<le> 0 then s
     else if rc \<le> sel then s\<lparr>s_sel := 0, s_start := 0, s_end := (if rc < rows - 1 then rc else rows - 1)\<rparr>
     else if s_end s \<le> sel then s\<lparr>s_sel := sel, s_start := s_start s + 1, s_end := s_end s + 1\<rparr>
     else s\<lparr>s_sel := sel\<rparr>)"

text \<open>What a frame asks of the rest of the launcher: launch this result, or its action menu.\<close>

datatype search_request = No_Request | Launch_Result entry | Result_Actions entry

definition selected_result :: "search \<Rightarrow> entry option" where
  "selected_result s =
    (case s_results s of None \<Rightarrow> None
     | Some es \<Rightarrow> if 0 \<le> s_sel s \<and> s_sel s < int (length es) then Some (es ! nat (s_sel s)) else None)"

definition results_input :: "int \<Rightarrow> kb_pad \<Rightarrow> bool \<Rightarrow> search \<Rightarrow> search_request \<times> search" where
  "results_input rows p y s =
    (if k_up p then (No_Request, results_up rows s)
     else if k_down p then (No_Request, results_down rows s)
     else case (if k_a p then selected_result s else None, if y then selected_result s else None) of
       (Some e, _) \<Rightarrow> (Launch_Result e, Lodor_closeSearch s)
     | (None, Some e) \<Rightarrow> (Result_Actions e, s)
     | (None, None) \<Rightarrow> (No_Request, if k_b p then s\<lparr>s_phase := 0\<rparr> else s))"

text \<open>
  Drawing the results first mends an empty window, and shows the rows from the first to before the
  last; the result is the slice and the highlighted row in it.
\<close>

definition mend_window :: "int \<Rightarrow> search \<Rightarrow> search" where
  "mend_window rows s =
    (let rc = result_count s in
     if s_phase s = 0 \<or> rc = 0 then s
     else if s_end s \<le> s_start s
       then s\<lparr>s_start := 0, s_end := (if rc < rows - 1 then rc else rows - 1)\<rparr>
     else s)"

definition drawn_rows :: "search \<Rightarrow> int list" where
  "drawn_rows s = [s_start s .. min (s_end s) (result_count s) - 1]"

definition view_sel :: "search \<Rightarrow> nat" where
  "view_sel s = fst (fold (\<lambda>i (sel, n). (if i = s_sel s then n else sel, n + 1)) (drawn_rows s) (0, 0::nat))"

text \<open>One frame: the keyboard or the results, then the drawing.\<close>

definition search_frame :: "fsys \<Rightarrow> int \<Rightarrow> kb_pad \<times> bool \<Rightarrow> search \<Rightarrow> (search_request \<times> search) option" where
  "search_frame fs rows py s =
    (if s_phase s = 0 then do {
       (ev, kb) \<leftarrow> search_input (fst py) (s_kb s);
       let s = s\<lparr>s_kb := kb\<rparr>;
       (case ev of
          Nothing \<Rightarrow> Some (No_Request, s)
        | Scan \<Rightarrow> do {
            s \<leftarrow> Lodor_runScan fs s;
            Some (No_Request, mend_window rows (s\<lparr>s_phase := 1\<rparr>)) }
        | Close \<Rightarrow> Some (No_Request, Lodor_closeSearch s)) }
     else
       let (rq, s) = results_input rows (fst py) (snd py) s in Some (rq, mend_window rows s))"

text \<open>The overlay runs while it is shown.\<close>

fun search_run :: "fsys \<Rightarrow> int \<Rightarrow> (kb_pad \<times> bool) list \<Rightarrow> search \<Rightarrow> search option" where
  "search_run fs rows [] s = Some s"
| "search_run fs rows (p # ps) s =
    (if s_show s then Option.bind (search_frame fs rows p s) (\<lambda>(rq, s). search_run fs rows ps s) else Some s)"

section \<open>Matching is substring search\<close>

lemma ci_prefix_iff: "ci_prefix h n \<longleftrightarrow> prefix n (map c_tolower h)"
  by (induction h n rule: ci_prefix.induct) auto

lemma ciContains_sublist: "Lodor_ciContains h n \<longleftrightarrow> n \<noteq> [] \<and> sublist n (map c_tolower h)"
proof -
  have "n \<noteq> [] \<Longrightarrow> ci_scan h n \<longleftrightarrow> sublist n (map c_tolower h)"
    by (induction h) (auto simp: ci_prefix_iff sublist_Cons_right)
  then show ?thesis by (auto simp: Lodor_ciContains_def)
qed

section \<open>What the scan finds\<close>

definition sub_path :: "dirent \<Rightarrow> string" where
  "sub_path sub = ROMS_PATH @ ''/'' @ d_name sub"

definition matches :: "string \<Rightarrow> dirent \<Rightarrow> bool" where
  "matches q fp \<longleftrightarrow> \<not> hide (d_name fp) \<and> sublist (map c_tolower q) (map c_tolower (d_name fp))"

text \<open>The files that match a query, as the scan comes to them.\<close>

definition library_matches :: "fsys \<Rightarrow> string \<Rightarrow> dirent list \<Rightarrow> string list" where
  "library_matches fs q ds = concat (map
    (\<lambda>sub. case opendir fs (sub_path sub) of None \<Rightarrow> []
       | Some fps \<Rightarrow> map (\<lambda>fp. sub_path sub @ ''/'' @ d_name fp) (filter (matches q) fps))
    (filter (\<lambda>sub. \<not> hide (d_name sub)) ds))"

text \<open>Names as the file system has them, short enough for the buffer of getDisplayName.\<close>

definition folder_ok :: "fsys \<Rightarrow> dirent \<Rightarrow> bool" where
  "folder_ok fs sub \<longleftrightarrow> nul_free (d_name sub) \<and> length (sub_path sub) < 255
    \<and> (case opendir fs (sub_path sub) of None \<Rightarrow> True
       | Some fps \<Rightarrow> list_all (\<lambda>fp. nul_free (d_name fp) \<and> length (sub_path sub @ ''/'' @ d_name fp) < 256) fps)"

definition library_ok :: "fsys \<Rightarrow> bool" where
  "library_ok fs \<longleftrightarrow> (case opendir fs ROMS_PATH of None \<Rightarrow> True | Some ds \<Rightarrow> list_all (folder_ok fs) ds)"

lemma hide_dot: "s \<noteq> [] \<Longrightarrow> hd s = CHR ''.'' \<Longrightarrow> hide s"
  by (simp add: hide_def)

lemma skipped_iff:
  assumes "q \<noteq> []"
  shows "(d_name fp \<noteq> [] \<and> hd (d_name fp) = CHR ''.'' \<or> hide (d_name fp) \<or> \<not> Lodor_ciContains (d_name fp) (map c_tolower q))
    \<longleftrightarrow> \<not> matches q fp"
  using assms hide_dot by (auto simp: matches_def ciContains_sublist)

lemma nul_free_append: "nul_free (s @ t) \<longleftrightarrow> nul_free s \<and> nul_free t"
  by (auto simp: nul_free_def)

lemma new_result:
  assumes "nul_free (p @ ''/'' @ n)" "length (p @ ''/'' @ n) < 256" "nul_free sub"
  shows "\<exists>e. Entry_new (c_trunc MAX_PATH (p @ ''/'' @ n)) ENTRY_ROM = Some e \<and> e_path e = p @ ''/'' @ n
    \<and> entry_ok (e\<lparr>e_name := c_trunc 320 (e_name e @ '' ('' @ sub @ '')'')\<rparr>)"
proof -
  let ?p = "p @ ''/'' @ n"
  have t: "c_trunc MAX_PATH ?p = ?p" using assms(2) by (intro c_trunc_id) (simp add: MAX_PATH_def)
  obtain d where d: "getDisplayName ?p = Some d" using getDisplayName_total [OF assms(2,1)] by blast
  have "nul_free d" using getDisplayName_chars [OF d] assms(1) by (auto simp: nul_free_def)
  then have "nul_free (c_trunc 320 (d @ '' ('' @ sub @ '')''))"
    using assms(3) by (auto simp: c_trunc_def nul_free_def NUL_def dest!: in_set_takeD)
  with d show ?thesis unfolding t by (simp add: Entry_new_def entry_ok_def)
qed

lemma scan_folder_finds:
  assumes "list_all (\<lambda>fp. nul_free (d_name fp) \<and> length (p @ ''/'' @ d_name fp) < 256) fps"
    and "nul_free p" "nul_free sub" "q \<noteq> []" "length res < 100" "\<forall>e \<in> set res. entry_ok e"
  shows "\<exists>res'. scan_folder p sub (map c_tolower q) fps res
        = Some (res', 100 \<le> length res + length (filter (matches q) fps))
      \<and> map e_path res' = take 100 (map e_path res @ map (\<lambda>fp. p @ ''/'' @ d_name fp) (filter (matches q) fps))
      \<and> (\<forall>e \<in> set res'. entry_ok e)"
  using assms(1,5,6)
proof (induction fps arbitrary: res)
  case Nil
  then show ?case by simp
next
  case (Cons fp fps)
  show ?case
  proof (cases "matches q fp")
    case False
    then show ?thesis using Cons by (simp add: skipped_iff [OF assms(4)] del: disj_not1)
  next
    case True
    have n: "nul_free (p @ ''/'' @ d_name fp)" "length (p @ ''/'' @ d_name fp) < 256"
      using Cons.prems(1) assms(2) by (auto simp: nul_free_def NUL_def)
    obtain e where e: "Entry_new (c_trunc MAX_PATH (p @ ''/'' @ d_name fp)) ENTRY_ROM = Some e"
      "e_path e = p @ ''/'' @ d_name fp" "entry_ok (e\<lparr>e_name := c_trunc 320 (e_name e @ '' ('' @ sub @ '')'')\<rparr>)"
      using new_result [OF n assms(3)] by blast
    define r where "r = res @ [e\<lparr>e_name := c_trunc 320 (e_name e @ '' ('' @ sub @ '')'')\<rparr>]"
    have r: "map e_path r = map e_path res @ [p @ ''/'' @ d_name fp]" "\<forall>e \<in> set r. entry_ok e" "length r = Suc (length res)"
      using e Cons.prems(3) by (auto simp: r_def)
    have step: "scan_folder p sub (map c_tolower q) (fp # fps) res
        = (if 100 \<le> length r then Some (r, True) else scan_folder p sub (map c_tolower q) fps r)"
      using True e(1) skipped_iff [OF assms(4), of fp] by (auto simp: r_def LODOR_SEARCH_CAP_def Let_def)
    show ?thesis
    proof (cases "100 \<le> length r")
      case True
      then have "length res = 99" using r(3) Cons.prems(2) by simp
      with True step r \<open>matches q fp\<close> show ?thesis by simp
    next
      case False
      with Cons.IH [of r] Cons.prems(1) r obtain res' where
        "scan_folder p sub (map c_tolower q) fps r = Some (res', 100 \<le> length r + length (filter (matches q) fps))"
        "map e_path res' = take 100 (map e_path r @ map (\<lambda>fp. p @ ''/'' @ d_name fp) (filter (matches q) fps))"
        "\<forall>e \<in> set res'. entry_ok e" by auto
      with False step r \<open>matches q fp\<close> show ?thesis by simp
    qed
  qed
qed

lemma scan_library_finds:
  assumes "list_all (folder_ok fs) ds" "q \<noteq> []" "length res < 100" "\<forall>e \<in> set res. entry_ok e"
  shows "\<exists>res'. scan_library fs (map c_tolower q) ds res
        = Some (res', 100 \<le> length res + length (library_matches fs q ds))
      \<and> map e_path res' = take 100 (map e_path res @ library_matches fs q ds) \<and> (\<forall>e \<in> set res'. entry_ok e)"
  using assms(1,3,4)
proof (induction ds arbitrary: res)
  case Nil
  then show ?case by (simp add: library_matches_def)
next
  case (Cons sub ds)
  have sub: "folder_ok fs sub" using Cons.prems(1) by simp
  have t: "c_trunc MAX_PATH (ROMS_PATH @ ''/'' @ d_name sub) = sub_path sub"
    using sub by (simp add: folder_ok_def sub_path_def c_trunc_id MAX_PATH_def)
  show ?case
  proof (cases "hide (d_name sub) \<or> opendir fs (sub_path sub) = None")
    case True
    then have "scan_library fs (map c_tolower q) (sub # ds) res = scan_library fs (map c_tolower q) ds res"
      "library_matches fs q (sub # ds) = library_matches fs q ds"
      using t by (auto simp: library_matches_def Let_def)
    then show ?thesis using Cons by simp
  next
    case False
    then obtain fps where fps: "opendir fs (sub_path sub) = Some fps" "\<not> hide (d_name sub)" by auto
    let ?here = "map (\<lambda>fp. sub_path sub @ ''/'' @ d_name fp) (filter (matches q) fps)"
    have all: "library_matches fs q (sub # ds) = ?here @ library_matches fs q ds"
      using fps by (simp add: library_matches_def)
    have names: "nul_free (sub_path sub)" "nul_free (d_name sub)"
      using sub by (auto simp: folder_ok_def sub_path_def ROMS_PATH_def SDCARD_PATH_def nul_free_def NUL_def)
    have "list_all (\<lambda>fp. nul_free (d_name fp) \<and> length (sub_path sub @ ''/'' @ d_name fp) < 256) fps"
      using sub fps(1) by (simp add: folder_ok_def)
    from scan_folder_finds [OF this names assms(2) Cons.prems(2,3)] obtain r where r:
      "scan_folder (sub_path sub) (d_name sub) (map c_tolower q) fps res = Some (r, 100 \<le> length res + length ?here)"
      "map e_path r = take 100 (map e_path res @ ?here)" "\<forall>e \<in> set r. entry_ok e" by auto
    have step: "scan_library fs (map c_tolower q) (sub # ds) res
        = (if 100 \<le> length res + length ?here then Some (r, True) else scan_library fs (map c_tolower q) ds r)"
      using fps t r(1) by (simp add: Let_def)
    show ?thesis
    proof (cases "100 \<le> length res + length ?here")
      case True
      with step all r show ?thesis by simp
    next
      case False
      then have l: "length r = length res + length ?here" using arg_cong [OF r(2), of length] by simp
      with False r(3) Cons.IH [of r] Cons.prems(1) obtain res' where
        "scan_library fs (map c_tolower q) ds r = Some (res', 100 \<le> length r + length (library_matches fs q ds))"
        "map e_path res' = take 100 (map e_path r @ library_matches fs q ds)" "\<forall>e \<in> set res'. entry_ok e" by auto
      with False step all r(2) l show ?thesis by (simp add: add.assoc)
    qed
  qed
qed

text \<open>Every scan of a well-formed library returns.\<close>

lemma runScan_finds:
  assumes "library_ok fs" "opendir fs ROMS_PATH = Some ds" "kb_buf (s_kb s) = q" "q \<noteq> []" "length q < LODOR_SEARCH_QMAX"
  shows "\<exists>es. Lodor_runScan fs s = Some (s\<lparr>s_results := Some es, s_sel := 0, s_start := 0, s_end := 0,
        s_capped := 100 \<le> length (library_matches fs q ds)\<rparr>)
    \<and> mset (map e_path es) = mset (take 100 (library_matches fs q ds))
    \<and> sorted (map (\<lambda>e. sort_key_of (e_name e)) es)"
proof -
  obtain res where res: "scan_library fs (map c_tolower q) ds [] = Some (res, 100 \<le> length (library_matches fs q ds))"
    "map e_path res = take 100 (library_matches fs q ds)" "\<forall>e \<in> set res. entry_ok e"
    using scan_library_finds [of fs ds q "[]"] assms(1,2,4) by (auto simp: library_ok_def)
  have "take (LODOR_SEARCH_QMAX - 1) q = q" using assms(5) by (simp add: LODOR_SEARCH_QMAX_def)
  moreover have "\<not> length q < 1" using assms(4) by (cases q) auto
  ultimately have "Lodor_runScan fs s = Some (s\<lparr>s_results := Some (EntryArray_sort res), s_sel := 0, s_start := 0,
      s_end := 0, s_capped := 100 \<le> length (library_matches fs q ds)\<rparr>)"
    using assms(2,3) res(1) by (simp add: Lodor_runScan_def Let_def)
  moreover have "mset (map e_path (EntryArray_sort res)) = mset (take 100 (library_matches fs q ds))"
    using res(2) by (metis EntryArray_sort_def mset_map mset_qsort)
  ultimately show ?thesis using sorted_EntryArray_sort [OF res(3)] by blast
qed

lemma runScan_returns:
  assumes "library_ok fs" "length (kb_buf (s_kb s)) < LODOR_SEARCH_QMAX"
  shows "\<exists>es c. Lodor_runScan fs s = Some (s\<lparr>s_results := Some es, s_sel := 0, s_start := 0, s_end := 0, s_capped := c\<rparr>)"
proof (cases "kb_buf (s_kb s) = [] \<or> opendir fs ROMS_PATH = None")
  case True
  then show ?thesis by (intro exI [of _ "[]"] exI [of _ False]) (auto simp: Lodor_runScan_def Let_def)
next
  case False
  then show ?thesis using runScan_finds [OF assms(1) _ refl _ assms(2)] by blast
qed

section \<open>The result list stays in its window\<close>

text \<open>
  Between two frames: the keyboard is in its bounds, and a result list has its selected row in a
  window of at most rows - 1 rows.
\<close>

definition search_ok :: "int \<Rightarrow> search \<Rightarrow> bool" where
  "search_ok rows s \<longleftrightarrow> kb_ok (s_kb s) \<and> \<not> kb_url (s_kb s) \<and> kb_cap (s_kb s) = LODOR_SEARCH_QMAX
    \<and> (s_show s \<and> s_phase s \<noteq> 0 \<and> 0 < result_count s \<longrightarrow>
        0 \<le> s_start s \<and> s_start s \<le> s_sel s \<and> s_sel s < s_end s \<and> s_end s \<le> result_count s
        \<and> s_end s - s_start s = min (rows - 1) (result_count s))"

definition search_keeps :: "(search_event \<times> keyboard) option \<Rightarrow> bool" where
  "search_keeps r \<longleftrightarrow> (\<exists>ev l. r = Some (ev, l) \<and> kb_ok l \<and> \<not> kb_url l \<and> kb_cap l = LODOR_SEARCH_QMAX)"

lemma search_keeps_if: "search_keeps x \<Longrightarrow> search_keeps y \<Longrightarrow> search_keeps (if b then x else y)"
  by simp

lemma search_press_ok:
  assumes "kb_ok k" "\<not> kb_url k" "kb_cap k = LODOR_SEARCH_QMAX"
  shows "search_keeps (search_press k)"
proof -
  have row: "0 \<le> kb_row k" using assms by (simp add: kb_ok_def)
  have key: "kb_row k < 4 \<Longrightarrow> \<exists>ch. kb_key k = Some ch"
    using assms row by (auto simp: kb_key_def kb_ok_def lodor_kb_layers_def kb_consts)
  have typed: "length (kb_buf k) < LODOR_SEARCH_QMAX - 1 \<Longrightarrow> append_buf [ch] k = Some (k\<lparr>kb_buf := kb_buf k @ [ch]\<rparr>)
      \<and> kb_ok (k\<lparr>kb_buf := kb_buf k @ [ch]\<rparr>)" for ch
    using assms by (simp add: append_buf_def kb_ok_def LODOR_SEARCH_QMAX_def)
  have del: "kb_ok (k\<lparr>kb_buf := butlast (kb_buf k)\<rparr>)" using assms(1) by (auto simp: kb_ok_def)
  show ?thesis
    using assms typed del key by (auto simp: search_keeps_def search_press_def Let_def)
qed

lemma search_input_ok:
  assumes "kb_ok k" "\<not> kb_url k" "kb_cap k = LODOR_SEARCH_QMAX"
  shows "search_keeps (search_input p k)"
proof -
  have row: "0 \<le> kb_row k" using assms by (simp add: kb_ok_def)
  have keep: "search_keeps (Some (ev, l))" if "kb_ok l" "kb_url l = kb_url k" "kb_cap l = kb_cap k" for ev l
    using that assms by (simp add: search_keeps_def)
  have "kb_ok (snap_if_special (k\<lparr>kb_row := r mod 5\<rparr>))" for r
    by (rule snap_ok [OF row_0_ok [OF assms(1)]]) simp_all
  then have rows: "search_keeps (Some (Nothing, snap_if_special (k\<lparr>kb_row := r mod LODOR_KB_ROWS\<rparr>)))" for r
    by (intro keep) (simp_all add: snap_if_special_def Lodor_kbSnapSpecial_def kb_consts)
  have left: "(if kb_row k = LODOR_KB_ROWS - 1
      then k\<lparr>kb_col := next_special [LODOR_KB_GO_COL, LODOR_KB_DEL_COL, LODOR_KB_SPACE_COL] (kb_col k)\<rparr>
      else k\<lparr>kb_col := (kb_col k + LODOR_KB_COLS - 1) mod LODOR_KB_COLS\<rparr>) = kb_left k"
    and right: "(if kb_row k = LODOR_KB_ROWS - 1
      then k\<lparr>kb_col := next_special [LODOR_KB_SPACE_COL, LODOR_KB_DEL_COL, LODOR_KB_GO_COL] (kb_col k)\<rparr>
      else k\<lparr>kb_col := (kb_col k + 1) mod LODOR_KB_COLS\<rparr>) = kb_right k"
    using row by (simp_all add: kb_left_def kb_right_def)
  have sides: "search_keeps (Some (Nothing, kb_left k))" "search_keeps (Some (Nothing, kb_right k))"
    using sides_ok [OF assms(1)] by (auto intro!: keep simp: kb_left_def kb_right_def)
  have layer: "search_keeps (Some (Nothing, k\<lparr>kb_layer := l mod LODOR_KB_LAYERS\<rparr>))" for l
    using assms(1) by (intro keep) (simp_all add: kb_ok_def kb_consts)
  have still: "search_keeps (Some (ev, k))" for ev by (rule keep) (simp_all add: assms(1))
  show ?thesis
    unfolding search_input_def left right
    by (intro search_keeps_if rows sides layer still search_press_ok assms)
qed

lemma results_moved_ok:
  assumes "search_ok rows s" "s_show s" "s_phase s \<noteq> 0" "2 \<le> rows"
  shows "search_ok rows (results_up rows s)" "search_ok rows (results_down rows s)"
  using assms by (auto simp: search_ok_def results_up_def results_down_def result_count_def Let_def)

lemma mend_window_ok:
  assumes "search_ok rows s"
  shows "search_ok rows (mend_window rows s)"
  using assms by (auto simp: search_ok_def mend_window_def result_count_def Let_def)

lemma closed_ok: "search_ok rows s \<Longrightarrow> search_ok rows (Lodor_closeSearch s)"
  by (simp add: search_ok_def Lodor_closeSearch_def)

lemma results_input_ok:
  assumes "search_ok rows s" "s_show s" "s_phase s \<noteq> 0" "2 \<le> rows"
  shows "search_ok rows (snd (results_input rows p y s))"
proof -
  have "search_ok rows (s\<lparr>s_phase := 0\<rparr>)" using assms(1) by (simp add: search_ok_def)
  then show ?thesis
    using results_moved_ok [OF assms] closed_ok [OF assms(1)] assms(1)
    by (auto simp: results_input_def split: option.split)
qed

lemma scanned_ok:
  assumes "search_ok rows s" "2 \<le> rows" "length (kb_buf (s_kb s)) < LODOR_SEARCH_QMAX"
  shows "search_ok rows (mend_window rows (s\<lparr>s_results := Some es, s_sel := 0, s_start := 0, s_end := 0,
    s_capped := c, s_phase := 1\<rparr>))"
  using assms by (auto simp: search_ok_def mend_window_def result_count_def Let_def)

lemma search_frame_ok:
  assumes "search_ok rows s" "s_show s" "2 \<le> rows" "library_ok fs"
  shows "\<exists>rq s'. search_frame fs rows p s = Some (rq, s') \<and> search_ok rows s'"
proof (cases "s_phase s = 0")
  case False
  have "search_ok rows (mend_window rows (snd (results_input rows (fst p) (snd p) s)))"
    by (intro mend_window_ok results_input_ok assms False)
  with False show ?thesis by (simp add: search_frame_def case_prod_beta)
next
  case True
  have kb: "kb_ok (s_kb s)" "\<not> kb_url (s_kb s)" "kb_cap (s_kb s) = LODOR_SEARCH_QMAX"
    using assms(1) by (simp_all add: search_ok_def)
  obtain ev l where l: "search_input (fst p) (s_kb s) = Some (ev, l)" "kb_ok l" "\<not> kb_url l" "kb_cap l = LODOR_SEARCH_QMAX"
    using search_input_ok [OF kb, of "fst p"] by (auto simp: search_keeps_def)
  let ?s = "s\<lparr>s_kb := l\<rparr>"
  have s: "search_ok rows ?s" using True l by (simp add: search_ok_def)
  have len: "length (kb_buf (s_kb ?s)) < LODOR_SEARCH_QMAX" using l by (simp add: kb_ok_def)
  obtain es c where run: "Lodor_runScan fs ?s = Some (?s\<lparr>s_results := Some es, s_sel := 0, s_start := 0, s_end := 0, s_capped := c\<rparr>)"
    using runScan_returns [OF assms(4) len] by blast
  show ?thesis
    using True l(1) run s closed_ok [OF s] scanned_ok [OF s assms(3) len, where es = es and c = c]
    by (cases ev) (simp_all add: search_frame_def)
qed

lemma search_run_ok:
  "search_ok rows s \<Longrightarrow> 2 \<le> rows \<Longrightarrow> library_ok fs \<Longrightarrow> \<exists>s'. search_run fs rows ps s = Some s' \<and> search_ok rows s'"
proof (induction ps arbitrary: s)
  case (Cons p ps)
  then show ?case using search_frame_ok [of rows s fs p] by (cases "s_show s") fastforce+
qed simp

lemma view_sel_fold:
  "x \<notin> set xs \<Longrightarrow> fst (fold (\<lambda>i (sel, n). (if i = x then n else sel, n + 1)) xs (k, m::nat)) = k"
  by (induction xs arbitrary: m) auto

lemma view_sel_at:
  "distinct xs \<Longrightarrow> j < length xs \<Longrightarrow>
    fst (fold (\<lambda>i (sel, n). (if i = xs ! j then n else sel, n + 1)) xs (k, m::nat)) = m + j"
proof (induction xs arbitrary: j k m)
  case (Cons a xs)
  show ?case
  proof (cases j)
    case 0
    with Cons.prems show ?thesis using view_sel_fold [of a xs m "m + 1"] by simp
  next
    case (Suc i)
    then have "xs ! i \<in> set xs" "a \<notin> set xs" using Cons.prems by auto
    with Suc Cons.IH [of i k "m + 1"] Cons.prems show ?thesis by auto
  qed
qed simp

lemma selection_drawn:
  assumes "search_ok rows s" "s_show s" "s_phase s \<noteq> 0" "s_results s = Some es" "es \<noteq> []"
  shows "selected_result s = Some (es ! nat (s_sel s)) \<and> view_sel s < length (drawn_rows s)
    \<and> drawn_rows s ! view_sel s = s_sel s \<and> int (length (drawn_rows s)) = min (rows - 1) (int (length es))"
proof -
  have rc: "result_count s = int (length es)" "0 < result_count s" using assms(4,5) by (simp_all add: result_count_def)
  have w: "0 \<le> s_start s" "s_start s \<le> s_sel s" "s_sel s < s_end s" "s_end s \<le> result_count s"
    "s_end s - s_start s = min (rows - 1) (result_count s)"
    using assms(1-3) rc(2) by (simp_all add: search_ok_def)
  have rows: "drawn_rows s = [s_start s .. s_end s - 1]" using w(4) by (simp add: drawn_rows_def)
  let ?j = "nat (s_sel s - s_start s)"
  have j: "?j < length (drawn_rows s)" "drawn_rows s ! ?j = s_sel s" using w(1-3) by (simp_all add: rows nth_upto)
  have "distinct (drawn_rows s)" by (simp add: rows)
  from view_sel_at [OF this j(1), of 0 0] have "view_sel s = ?j" unfolding view_sel_def j(2) by simp
  with j w rc(1) assms(4) show ?thesis by (simp add: selected_result_def rows)
qed

section \<open>Properties\<close>

text \<open>
  C20. A search lists exactly the games that match: the results of the scan are the visible files of
  the visible system folders whose name contains the query without regard to case, each one once,
  sorted by name; only when there are a hundred or more are they cut to the first hundred, and
  exactly then the list is marked as capped.
\<close>

theorem scan_finds_matches:
  assumes "library_ok fs" "opendir fs ROMS_PATH = Some ds" "kb_buf (s_kb s) \<noteq> []"
    and "length (kb_buf (s_kb s)) < LODOR_SEARCH_QMAX"
  shows "\<exists>es. Lodor_runScan fs s = Some (s\<lparr>s_results := Some es, s_sel := 0, s_start := 0, s_end := 0,
        s_capped := LODOR_SEARCH_CAP \<le> length (library_matches fs (kb_buf (s_kb s)) ds)\<rparr>)
    \<and> mset (map e_path es) = mset (take LODOR_SEARCH_CAP (library_matches fs (kb_buf (s_kb s)) ds))
    \<and> sorted (map (\<lambda>e. sort_key_of (e_name e)) es)"
  unfolding LODOR_SEARCH_CAP_def by (rule runScan_finds [OF assms(1,2) refl assms(3,4)])

text \<open>
  However the player types, searches and scrolls, no frame of the search overlay reads or writes
  outside its buffers, and whenever a result list with a result is on the screen, the drawn slice is as
  tall as the screen and the list allow and the highlighted row of the slice is the selected result,
  the one that A launches.
\<close>

theorem search_selection_drawn:
  assumes "2 \<le> rows" "library_ok fs" "kb_cap (s_kb s) = LODOR_SEARCH_QMAX" "\<not> kb_url (s_kb s)" "sc_sel (s_kb s) < 5"
  shows "\<exists>s'. search_run fs rows ps (Lodor_resetSearch s) = Some s' \<and> kb_ok (s_kb s')
    \<and> (\<forall>es. s_show s' \<and> s_phase s' \<noteq> 0 \<and> s_results s' = Some es \<and> es \<noteq> [] \<longrightarrow>
        selected_result s' = Some (es ! nat (s_sel s')) \<and> view_sel s' < length (drawn_rows s')
        \<and> drawn_rows s' ! view_sel s' = s_sel s'
        \<and> int (length (drawn_rows s')) = min (rows - 1) (int (length es)))"
proof -
  have "search_ok rows (Lodor_resetSearch s)"
    using assms by (simp add: search_ok_def Lodor_resetSearch_def kb_ok_def LODOR_SEARCH_QMAX_def)
  then obtain s' where s': "search_run fs rows ps (Lodor_resetSearch s) = Some s'" "search_ok rows s'"
    using search_run_ok [OF _ assms(1,2)] by blast
  then show ?thesis using selection_drawn [OF s'(2)] by (auto simp: search_ok_def)
qed

definition search_card :: fsys where
  "search_card = \<lparr>fs_files = map_of [],
     fs_dirs = map_of [(''/mnt/SDCARD/Roms'', [\<lparr>d_name = ''.x'', d_isdir = True\<rparr>, \<lparr>d_name = ''GB'', d_isdir = True\<rparr>]),
       (''/mnt/SDCARD/Roms/GB'', [\<lparr>d_name = ''Tetris.gb'', d_isdir = False\<rparr>, \<lparr>d_name = ''map.txt'', d_isdir = False\<rparr>,
         \<lparr>d_name = ''Super Tennis.gb'', d_isdir = False\<rparr>, \<lparr>d_name = ''Zoo.gb'', d_isdir = False\<rparr>])],
     fs_writable = \<lambda>_. True\<rparr>"

definition demo_search :: search where
  "demo_search = \<lparr>s_kb = demo_kb\<lparr>kb_buf := ''TE'', kb_cap := 64\<rparr>, s_show = True, s_phase = 0, s_sel = 3, s_start = 0,
     s_end = 0, s_capped = True, s_results = None\<rparr>"

lemma search_card_ok: "library_ok search_card" by code_simp

theorem scan_finds_matches_witness:
  "\<exists>es. Lodor_runScan search_card demo_search = Some (demo_search\<lparr>s_results := Some es, s_sel := 0, s_start := 0,
      s_end := 0, s_capped := False\<rparr>)
    \<and> mset (map e_path es) = {#''/mnt/SDCARD/Roms/GB/Tetris.gb'', ''/mnt/SDCARD/Roms/GB/Super Tennis.gb''#}"
proof -
  let ?ds = "[\<lparr>d_name = ''.x'', d_isdir = True\<rparr>, \<lparr>d_name = ''GB'', d_isdir = True\<rparr>]"
  have dir: "opendir search_card ROMS_PATH = Some ?ds" by code_simp
  have q: "kb_buf (s_kb demo_search) = ''TE''" by (simp add: demo_search_def)
  have "library_matches search_card ''TE'' ?ds = [''/mnt/SDCARD/Roms/GB/Tetris.gb'', ''/mnt/SDCARD/Roms/GB/Super Tennis.gb'']"
    by code_simp
  with scan_finds_matches [OF search_card_ok dir, of demo_search] show ?thesis
    by (simp add: q LODOR_SEARCH_CAP_def LODOR_SEARCH_QMAX_def) blast
qed

theorem search_selection_drawn_witness:
  "\<exists>s'. search_run search_card 6 [(no_keys\<lparr>k_start := True\<rparr>, False), (no_keys\<lparr>k_up := True\<rparr>, False)]
      (Lodor_resetSearch demo_search) = Some s' \<and> kb_ok (s_kb s')"
proof -
  have "kb_cap (s_kb demo_search) = LODOR_SEARCH_QMAX" "\<not> kb_url (s_kb demo_search)" "sc_sel (s_kb demo_search) < 5"
    by code_simp+
  from search_selection_drawn [OF _ search_card_ok this, of 6 "[(no_keys\<lparr>k_start := True\<rparr>, False), (no_keys\<lparr>k_up := True\<rparr>, False)]"]
  show ?thesis by fastforce
qed

end
