(* ===== verification/GameFile.thy ===== *)
theory GameFile
  imports Launcher
begin

text \<open>
  The game file of the player (workspace/all/minarch/minarch.c): the scan of a zip archive for a
  file that the core takes and its extraction (Zip_copy, Zip_inflate), Game_open, Game_close and
  Game_changeDisc, and the discs of a playlist (Menu_init).

  A file is the string of its bytes and a position in it. The inflate of zlib is a parameter: a
  step on the state of a stream, from a chunk of input to a return code and all it put out for the
  chunk. fseek takes a long, which has 32 bits on the platform.
\<close>

section \<open>Archives\<close>

definition ZIP_HEADER_SIZE :: nat where "ZIP_HEADER_SIZE = 30"
definition ZIP_CHUNK_SIZE :: nat where "ZIP_CHUNK_SIZE = 65536"

definition ZIP_LE_READ16 :: "string \<Rightarrow> nat \<Rightarrow> nat" where
  "ZIP_LE_READ16 buf i = byte (buf ! (i + 1)) * 2 ^ 8 + byte (buf ! i)"

definition ZIP_LE_READ32 :: "string \<Rightarrow> nat \<Rightarrow> nat" where
  "ZIP_LE_READ32 buf i = byte (buf ! (i + 3)) * 2 ^ 24 + byte (buf ! (i + 2)) * 2 ^ 16
    + byte (buf ! (i + 1)) * 2 ^ 8 + byte (buf ! i)"

text \<open>fseek from the current position; a position before the file is refused.\<close>

definition fseek_cur :: "nat \<Rightarrow> nat \<Rightarrow> nat" where
  "fseek_cur pos offset =
    (let to = int pos + (if offset < 2 ^ 31 then int offset else int offset - 2 ^ 32)
     in if to < 0 then pos else nat to)"

text \<open>The extraction gives what it wrote, and whether it succeeded; dst takes room bytes.\<close>

function Zip_copy :: "string \<Rightarrow> nat \<Rightarrow> nat \<Rightarrow> string \<Rightarrow> string \<times> bool" where
  "Zip_copy archive room len dst =
    (if len = 0 then (dst, True)
     else
       let sz = min len ZIP_CHUNK_SIZE; buffer = take sz archive in
       if length buffer \<noteq> sz then (dst, False)
       else if room < length dst + sz then (dst @ take (room - length dst) buffer, False)
       else Zip_copy (drop sz archive) room (len - sz) (dst @ buffer))"
  by pat_completeness auto
termination
  by (relation "measure (\<lambda>(archive, room, len, dst). len)") (auto simp: ZIP_CHUNK_SIZE_def)

declare Zip_copy.simps [simp del]

datatype zret = Z_OK | Z_STREAM_END | Z_NEED_DICT | Z_DATA_ERROR | Z_MEM_ERROR | Z_BUF_ERROR

type_synonym 'z inflate = "'z \<Rightarrow> string \<Rightarrow> zret \<times> string \<times> 'z"

function inflate_loop :: "'z inflate \<Rightarrow> string \<Rightarrow> nat \<Rightarrow> nat \<Rightarrow> 'z \<Rightarrow> string \<Rightarrow> string \<times> bool" where
  "inflate_loop inflate archive room len stream dst =
    (let insize = min len ZIP_CHUNK_SIZE; inp = take insize archive in
     if inp = [] then (dst, len = 0)
     else
       let (ret, out, stream) = inflate stream inp in
       if ret \<in> {Z_NEED_DICT, Z_DATA_ERROR, Z_MEM_ERROR} then (dst @ out, False)
       else if room < length dst + length out then (dst @ take (room - length dst) out, False)
       else if len - insize \<noteq> 0 \<and> ret \<noteq> Z_STREAM_END
         then inflate_loop inflate (drop insize archive) room (len - insize) stream (dst @ out)
       else (dst @ out, len - insize = 0 \<or> ret = Z_STREAM_END))"
  by pat_completeness auto
termination
  by (relation "measure (\<lambda>(inflate, archive, room, len, stream, dst). len)") (auto simp: ZIP_CHUNK_SIZE_def)

declare inflate_loop.simps [simp del]

definition Zip_inflate :: "'z inflate \<Rightarrow> 'z \<Rightarrow> string \<Rightarrow> nat \<Rightarrow> nat \<Rightarrow> string \<Rightarrow> string \<times> bool" where
  "Zip_inflate inflate stream archive room len dst = inflate_loop inflate archive room len stream dst"

section \<open>The scan\<close>

text \<open>The extensions of the core up to zip, and whether zip is among them.\<close>

definition tokens :: "string \<Rightarrow> string list" where
  "tokens s = filter (\<lambda>t. t \<noteq> []) (foldr (\<lambda>c ts. if c = CHR ''|'' then [] # ts else (c # hd ts) # tl ts) s [[]])"

definition core_extensions :: "string \<Rightarrow> (string list \<times> bool) option" where
  "core_extensions exts = do {
     exts \<leftarrow> c_buf 128 exts;
     let ts = tokens exts;
     let before = takeWhile (\<lambda>t. t \<noteq> ''zip'') ts;
     let supports_zip = (before \<noteq> ts);
     let extensions = (if supports_zip then before @ [''zip''] else before);
     c_ok (length extensions < 32);
     Some (extensions, supports_zip)
   }"

fun takes_file :: "string list \<Rightarrow> string \<Rightarrow> bool option" where
  "takes_file [] filename = Some False"
| "takes_file (e # es) filename = do {
     extension \<leftarrow> c_buf 8 (CHR ''.'' # e);
     (if suffixMatch extension filename then Some True else takes_file es filename)
   }"

text \<open>
  The scan from a position, which has the compressed size of the last file still to skip. It ends with
  the position of the data, its size, the method and the name of the first file the core takes, or
  without one. Out of fuel or a fault is None.
\<close>

record zip_file =
  zf_name :: string
  zf_method :: nat
  zf_size :: nat
  zf_data :: nat

text \<open>One local header, read at a position: nothing more, a file of the core, or another file.\<close>

datatype zip_step = No_More | This_File zip_file | Other_File nat nat

definition read_header :: "string list \<Rightarrow> string \<Rightarrow> nat \<Rightarrow> zip_step option" where
  "read_header extensions archive pos =
    (let header = take ZIP_HEADER_SIZE (drop pos archive) in
     if length header \<noteq> ZIP_HEADER_SIZE then Some No_More
     else if bit (byte (header ! 6)) 3 then Some No_More
     else
       let len = ZIP_LE_READ16 header 26; raw = take len (drop (pos + ZIP_HEADER_SIZE) archive) in
       if MAX_PATH \<le> len then Some No_More
       else if length raw \<noteq> len then Some No_More
       else
         let filename = c_str raw;
             compressed_size = ZIP_LE_READ32 header 18;
             pos = fseek_cur (pos + ZIP_HEADER_SIZE + len) (ZIP_LE_READ16 header 28) in
         do {
           found \<leftarrow> takes_file extensions filename;
           Some (if found then This_File \<lparr>zf_name = filename, zf_method = ZIP_LE_READ16 header 8,
                                    zf_size = compressed_size, zf_data = pos\<rparr>
                 else Other_File pos compressed_size)
         })"

fun zip_scan :: "nat \<Rightarrow> string list \<Rightarrow> string \<Rightarrow> nat \<Rightarrow> nat \<Rightarrow> zip_file option option" where
  "zip_scan 0 extensions archive pos skip = None"
| "zip_scan (Suc fuel) extensions archive pos skip =
    (case read_header extensions archive (if skip \<noteq> 0 then fseek_cur pos skip else pos) of
       None \<Rightarrow> None
     | Some No_More \<Rightarrow> Some None
     | Some (This_File f) \<Rightarrow> Some (Some f)
     | Some (Other_File pos skip) \<Rightarrow> zip_scan fuel extensions archive pos skip)"

section \<open>Opening a game\<close>

record game =
  g_path :: string
  g_name :: string
  g_m3u_path :: string
  g_tmp_path :: string
  g_data :: "string option"
  g_is_open :: bool

record core_info =
  ci_need_fullpath :: bool
  ci_extensions :: string
  ci_states_dir :: string
  ci_saves_dir :: string

text \<open>The surroundings: the directory mkdtemp makes, the room in it, and fuel for the scan.\<close>

record unzip_env =
  ue_tmp_dirname :: string
  ue_room :: nat
  ue_fuel :: nat

definition basename :: "string \<Rightarrow> string" where
  "basename s = (case strrchr s (CHR ''/'') of None \<Rightarrow> s | Some i \<Rightarrow> drop (Suc i) s)"

text \<open>
  Extracting a game: whether Game_open goes on, the game with its temporary file, and the file system.
\<close>

definition extract_file ::
    "'z inflate \<Rightarrow> 'z \<Rightarrow> unzip_env \<Rightarrow> fsys \<Rightarrow> game \<Rightarrow> string \<Rightarrow> zip_file \<Rightarrow> (bool \<times> game \<times> fsys) option" where
  "extract_file inflate stream env fs g archive f = do {
     tmp_path \<leftarrow> c_buf MAX_PATH (ue_tmp_dirname env @ ''/'' @ basename (zf_name f));
     (if \<not> fs_writable fs tmp_path then Some (False, g, fs)
      else
        let rest = drop (zf_data f) archive;
            (dst, ok) = (if zf_method f = 0 then Zip_copy rest (ue_room env) (zf_size f) []
                         else if zf_method f = 8 then Zip_inflate inflate stream rest (ue_room env) (zf_size f) []
                         else ([], False));
            fs = putFile fs tmp_path dst
        in Some (ok, (if ok then g\<lparr>g_tmp_path := tmp_path\<rparr> else g), fs))
   }"

definition unzip ::
    "'z inflate \<Rightarrow> 'z \<Rightarrow> unzip_env \<Rightarrow> core_info \<Rightarrow> fsys \<Rightarrow> game \<Rightarrow> (bool \<times> game \<times> fsys) option" where
  "unzip inflate stream env ci fs g =
    (if \<not> suffixMatch ''.zip'' (g_path g) then Some (True, g, fs)
     else do {
       (extensions, supports_zip) \<leftarrow> core_extensions (ci_extensions ci);
       (if supports_zip then Some (True, g, fs)
        else
          (case fs_files fs (g_path g) of
             None \<Rightarrow> Some (False, g, fs)
           | Some archive \<Rightarrow> do {
               hit \<leftarrow> zip_scan (ue_fuel env) extensions archive 0 0;
               (case hit of None \<Rightarrow> Some (True, g, fs) | Some f \<Rightarrow> extract_file inflate stream env fs g archive f)
             }))
     })"

definition Game_open ::
    "'z inflate \<Rightarrow> 'z \<Rightarrow> unzip_env \<Rightarrow> core_info \<Rightarrow> fsys \<Rightarrow> string \<Rightarrow> (game \<times> fsys) option" where
  "Game_open inflate stream env ci fs path = do {
     path \<leftarrow> c_buf MAX_PATH path;
     name \<leftarrow> file_name path;
     let g = \<lparr>g_path = path, g_name = name, g_m3u_path = [], g_tmp_path = [], g_data = None, g_is_open = False\<rparr>;
     (ok, g, fs) \<leftarrow> unzip inflate stream env ci fs g;
     let from = (if g_tmp_path g = [] then g_path g else g_tmp_path g);
     (if \<not> ok \<or> \<not> ci_need_fullpath ci \<and> fs_files fs from = None then Some (g, fs)
      else do {
        let g = (if ci_need_fullpath ci then g else g\<lparr>g_data := fs_files fs from\<rparr>);
        m3u_path \<leftarrow> c_buf 256 (g_path g);
        i \<leftarrow> strrchr m3u_path (CHR ''/'');
        let m3u_path = take i m3u_path;
        j \<leftarrow> strrchr m3u_path (CHR ''/'');
        let dir_name = drop j m3u_path;
        m3u_path \<leftarrow> c_buf 256 (m3u_path @ dir_name @ ''.m3u'');
        g \<leftarrow> (if exists fs m3u_path then do {
                name \<leftarrow> file_name m3u_path;
                Some (g\<lparr>g_m3u_path := m3u_path, g_name := name\<rparr>)
              }
              else Some g);
        Some (g\<lparr>g_is_open := True\<rparr>, fs)
      })
   }"

definition Game_close :: "fsys \<Rightarrow> game \<Rightarrow> game \<times> fsys" where
  "Game_close fs g =
    (g\<lparr>g_data := None, g_is_open := False\<rparr>, if g_tmp_path g = [] then fs else unlink fs (g_tmp_path g))"

text \<open>What the core is told about the new disc comes with the result.\<close>

definition Game_changeDisc ::
    "'z inflate \<Rightarrow> 'z \<Rightarrow> unzip_env \<Rightarrow> core_info \<Rightarrow> fsys \<Rightarrow> game \<Rightarrow> string
      \<Rightarrow> ((string \<times> string option) option \<times> game \<times> fsys) option" where
  "Game_changeDisc inflate stream env ci fs g path =
    (if exactMatch (Some (g_path g)) (Some path) \<or> \<not> exists fs path then Some (None, g, fs)
     else do {
       let (_, fs) = Game_close fs g;
       (g, fs) \<leftarrow> Game_open inflate stream env ci fs path;
       Some (Some (g_path g, g_data g), g, putFile fs CHANGE_DISC_PATH path)
     })"

section \<open>Extraction\<close>

lemma Zip_copy_all:
  "length dst + length d \<le> room \<Longrightarrow> Zip_copy (d @ rest) room (length d) dst = (dst @ d, True)"
proof (induction "length d" arbitrary: d dst rule: less_induct)
  case less
  show ?case
  proof (cases "d = []")
    case True
    then show ?thesis by (simp add: Zip_copy.simps)
  next
    case False
    let ?sz = "min (length d) ZIP_CHUNK_SIZE"
    have sz: "0 < ?sz" "take ?sz (d @ rest) = take ?sz d" "drop ?sz (d @ rest) = drop ?sz d @ rest"
      "length (take ?sz d) = ?sz" using False by (simp_all add: ZIP_CHUNK_SIZE_def)
    have "Zip_copy (drop ?sz d @ rest) room (length (drop ?sz d)) (dst @ take ?sz d) = ((dst @ take ?sz d) @ drop ?sz d, True)"
      using less.prems sz(1,4) False by (intro less.hyps) auto
    then have "Zip_copy (drop ?sz d @ rest) room (length d - ?sz) (dst @ take ?sz d) = (dst @ d, True)" by simp
    with False sz less.prems show ?thesis by (subst Zip_copy.simps) (simp add: Let_def del: take_append drop_append)
  qed
qed

text \<open>
  A decoder of deflate data: fed with the data in chunks, it puts out the content and ends with the
  last chunk.
\<close>

inductive decodes :: "'z inflate \<Rightarrow> 'z \<Rightarrow> string \<Rightarrow> string \<Rightarrow> bool" for inflate where
  last_chunk: "inflate s d = (Z_STREAM_END, out, s') \<Longrightarrow> d \<noteq> [] \<Longrightarrow> length d \<le> ZIP_CHUNK_SIZE \<Longrightarrow> decodes inflate s d out"
| more_chunks: "ZIP_CHUNK_SIZE < length d \<Longrightarrow> inflate s (take ZIP_CHUNK_SIZE d) = (Z_OK, out, s')
    \<Longrightarrow> decodes inflate s' (drop ZIP_CHUNK_SIZE d) c \<Longrightarrow> decodes inflate s d (out @ c)"

lemma inflate_decodes:
  "decodes inflate s d c \<Longrightarrow> length dst + length c \<le> room
    \<Longrightarrow> inflate_loop inflate (d @ rest) room (length d) s dst = (dst @ c, True)"
proof (induction arbitrary: dst rule: decodes.induct)
  case (last_chunk s d out s')
  then show ?case by (subst inflate_loop.simps) (simp add: min_absorb1)
next
  case (more_chunks d s out s' c)
  from more_chunks.IH [of "dst @ out"] more_chunks.prems
  have "inflate_loop inflate (drop ZIP_CHUNK_SIZE d @ rest) room (length d - ZIP_CHUNK_SIZE) s' (dst @ out) = (dst @ out @ c, True)"
    by simp
  moreover have "take ZIP_CHUNK_SIZE d \<noteq> []" using more_chunks.hyps(1) by (auto simp: ZIP_CHUNK_SIZE_def)
  ultimately show ?case using more_chunks.hyps(1,2) more_chunks.prems
    by (subst inflate_loop.simps) (auto simp: min_absorb2)
qed

text \<open>A truncated file whose last piece the decoder takes without ending is reported as extracted.\<close>

theorem inflate_truncated_accepted:
  "d \<noteq> [] \<Longrightarrow> length d < len \<Longrightarrow> len \<le> ZIP_CHUNK_SIZE \<Longrightarrow> inflate s d = (Z_OK, out, s') \<Longrightarrow> length out \<le> room
    \<Longrightarrow> Zip_inflate inflate s d room len [] = (out, True)"
  by (subst Zip_inflate_def, subst inflate_loop.simps) (simp add: min_absorb1)

section \<open>Archives that the scan understands\<close>

definition le16 :: "nat \<Rightarrow> string" where
  "le16 n = [char_of (n mod 256), char_of (n div 256)]"

definition le32 :: "nat \<Rightarrow> string" where
  "le32 n = [char_of (n mod 256), char_of (n div 256), char_of (n div 2 ^ 16), char_of (n div 2 ^ 24)]"

text \<open>A file of an archive with a local header; the parts the scan does not read are arbitrary bytes.\<close>

record zip_entry =
  ze_head :: string
  ze_flags :: nat
  ze_method :: nat
  ze_times :: string
  ze_size :: string
  ze_name :: string
  ze_extra :: string
  ze_data :: string

definition local_header :: "zip_entry \<Rightarrow> string" where
  "local_header e = ze_head e @ le16 (ze_flags e) @ le16 (ze_method e) @ ze_times e @ le32 (length (ze_data e)) @ ze_size e
    @ le16 (length (ze_name e)) @ le16 (length (ze_extra e))"

definition local_file :: "zip_entry \<Rightarrow> string" where
  "local_file e = local_header e @ ze_name e @ ze_extra e @ ze_data e"

definition zip_entry_ok :: "zip_entry \<Rightarrow> bool" where
  "zip_entry_ok e \<longleftrightarrow> length (ze_head e) = 6 \<and> ze_flags e < 2 ^ 16 \<and> \<not> bit (ze_flags e) 3 \<and> ze_method e < 2 ^ 16
    \<and> length (ze_times e) = 8 \<and> length (ze_size e) = 4 \<and> nul_free (ze_name e) \<and> length (ze_name e) < MAX_PATH
    \<and> length (ze_extra e) < 2 ^ 16 \<and> length (ze_data e) < 2 ^ 31"

lemma byte_char_of: "byte (char_of n) = n mod 256"
  by simp

lemma read_le16: "n < 2 ^ 16 \<Longrightarrow> b ! i = char_of (n mod 256) \<Longrightarrow> b ! (i + 1) = char_of (n div 256) \<Longrightarrow> ZIP_LE_READ16 b i = n"
  by (simp add: ZIP_LE_READ16_def div_mult_mod_eq mult.commute)

lemma read_le32:
  assumes "n < 2 ^ 32" "b ! i = char_of (n mod 256)" "b ! (i + 1) = char_of (n div 256)"
    "b ! (i + 2) = char_of (n div 2 ^ 16)" "b ! (i + 3) = char_of (n div 2 ^ 24)"
  shows "ZIP_LE_READ32 b i = n"
proof -
  define p where "p = n div 256"
  define q where "q = p div 256"
  define r where "r = q div 256"
  have parts: "n = p * 256 + n mod 256" "p = q * 256 + p mod 256" "q = r * 256 + q mod 256"
    unfolding p_def q_def r_def by (simp_all add: div_mult_mod_eq)
  have divs: "n div 2 ^ 16 = q" "n div 2 ^ 24 = r" by (simp_all add: p_def q_def r_def div_mult2_eq [symmetric])
  have "n div 2 ^ 24 < 256" by (rule less_mult_imp_div_less) (use assms(1) in simp)
  then have "r < 256" unfolding divs .
  then have "ZIP_LE_READ32 b i = r * 2 ^ 24 + (q mod 256) * 2 ^ 16 + (p mod 256) * 2 ^ 8 + n mod 256"
    using assms(2-5) unfolding divs p_def [symmetric] by (simp add: ZIP_LE_READ32_def)
  also have "\<dots> = n" using parts by simp
  finally show ?thesis .
qed

lemma header_fields:
  assumes "zip_entry_ok e"
  shows "length (local_header e) = ZIP_HEADER_SIZE"
    and "bit (byte (local_header e ! 6)) 3 \<longleftrightarrow> False"
    and "ZIP_LE_READ16 (local_header e) 8 = ze_method e"
    and "ZIP_LE_READ32 (local_header e) 18 = length (ze_data e)"
    and "ZIP_LE_READ16 (local_header e) 26 = length (ze_name e)"
    and "ZIP_LE_READ16 (local_header e) 28 = length (ze_extra e)"
proof -
  have len: "length (ze_head e) = 6" "length (ze_times e) = 8" "length (ze_size e) = 4" using assms by (simp_all add: zip_entry_ok_def)
  show "length (local_header e) = ZIP_HEADER_SIZE" by (simp add: local_header_def le16_def le32_def ZIP_HEADER_SIZE_def len)
  have "local_header e ! 6 = char_of (ze_flags e mod 256)" by (simp add: local_header_def le16_def nth_append len)
  moreover have "bit (ze_flags e mod 256) 3 \<longleftrightarrow> bit (ze_flags e) 3"
    using bit_take_bit_iff [of 8 "ze_flags e" 3] by (simp add: take_bit_eq_mod)
  ultimately show "bit (byte (local_header e ! 6)) 3 \<longleftrightarrow> False" using assms by (simp add: zip_entry_ok_def)
  show "ZIP_LE_READ16 (local_header e) 8 = ze_method e"
    by (rule read_le16) (use assms in \<open>simp_all add: zip_entry_ok_def local_header_def le16_def nth_append len\<close>)
  show "ZIP_LE_READ32 (local_header e) 18 = length (ze_data e)"
    by (rule read_le32) (use assms in \<open>simp_all add: zip_entry_ok_def local_header_def le16_def le32_def nth_append len\<close>)
  show "ZIP_LE_READ16 (local_header e) 26 = length (ze_name e)"
    by (rule read_le16) (use assms in \<open>simp_all add: zip_entry_ok_def local_header_def le16_def le32_def nth_append len MAX_PATH_def\<close>)
  show "ZIP_LE_READ16 (local_header e) 28 = length (ze_extra e)"
    by (rule read_le16) (use assms in \<open>simp_all add: zip_entry_ok_def local_header_def le16_def le32_def nth_append len\<close>)
qed

lemma fseek_forward: "n < 2 ^ 31 \<Longrightarrow> fseek_cur p n = p + n"
  by (simp add: fseek_cur_def)

text \<open>Where the data of an entry at a position starts.\<close>

definition data_at :: "nat \<Rightarrow> zip_entry \<Rightarrow> nat" where
  "data_at p e = p + ZIP_HEADER_SIZE + length (ze_name e) + length (ze_extra e)"

lemma read_header_entry:
  assumes "zip_entry_ok e" "drop p archive = local_file e @ rest"
  shows "read_header exts archive p = map_option (\<lambda>found.
      if found then This_File \<lparr>zf_name = ze_name e, zf_method = ze_method e, zf_size = length (ze_data e), zf_data = data_at p e\<rparr>
      else Other_File (data_at p e) (length (ze_data e))) (takes_file exts (ze_name e))"
    and "drop (data_at p e) archive = ze_data e @ rest"
proof -
  note h = header_fields [OF assms(1)]
  have header: "take ZIP_HEADER_SIZE (drop p archive) = local_header e"
    unfolding assms(2) local_file_def by (simp add: h(1))
  have "drop ZIP_HEADER_SIZE (drop p archive) = ze_name e @ ze_extra e @ ze_data e @ rest"
    unfolding assms(2) local_file_def by (simp add: h(1))
  then have after: "drop (p + ZIP_HEADER_SIZE) archive = ze_name e @ ze_extra e @ ze_data e @ rest"
    by (simp add: add.commute)
  have "drop (data_at p e) archive = drop (length (ze_name e) + length (ze_extra e)) (drop (p + ZIP_HEADER_SIZE) archive)"
    by (simp add: data_at_def ac_simps)
  then show "drop (data_at p e) archive = ze_data e @ rest" unfolding after by simp
  have name_ok: "length (ze_name e) < MAX_PATH" "c_str (ze_name e) = ze_name e"
    "fseek_cur (p + ZIP_HEADER_SIZE + length (ze_name e)) (length (ze_extra e)) = data_at p e"
    using assms(1) by (simp_all add: zip_entry_ok_def c_str_id fseek_forward data_at_def)
  show "read_header exts archive p = map_option (\<lambda>found.
      if found then This_File \<lparr>zf_name = ze_name e, zf_method = ze_method e, zf_size = length (ze_data e), zf_data = data_at p e\<rparr>
      else Other_File (data_at p e) (length (ze_data e))) (takes_file exts (ze_name e))"
    unfolding read_header_def header Let_def h after using name_ok
    by (cases "takes_file exts (ze_name e)") simp_all
qed

lemma zip_scan_finds:
  assumes "list_all (\<lambda>f. zip_entry_ok f \<and> takes_file exts (ze_name f) = Some False) es" "zip_entry_ok e"
    "takes_file exts (ze_name e) = Some True"
  shows "drop (if skip \<noteq> 0 then fseek_cur pos skip else pos) archive = concat (map local_file es) @ local_file e @ rest
    \<Longrightarrow> length es < fuel
    \<Longrightarrow> \<exists>q. zip_scan fuel exts archive pos skip
          = Some (Some \<lparr>zf_name = ze_name e, zf_method = ze_method e, zf_size = length (ze_data e), zf_data = q\<rparr>)
        \<and> drop q archive = ze_data e @ rest"
  using assms(1)
proof (induction es arbitrary: pos skip fuel)
  case Nil
  let ?p = "if skip \<noteq> 0 then fseek_cur pos skip else pos"
  have d: "drop ?p archive = local_file e @ rest" using Nil.prems(1) by simp
  obtain n where "fuel = Suc n" using Nil.prems(2) by (cases fuel) auto
  then show ?case using read_header_entry [OF assms(2) d] assms(3) by (intro exI [of _ "data_at ?p e"]) simp
next
  case (Cons f es)
  let ?p = "if skip \<noteq> 0 then fseek_cur pos skip else pos"
  have f: "zip_entry_ok f" "takes_file exts (ze_name f) = Some False" using Cons.prems(3) by simp_all
  have "drop ?p archive = local_file f @ (concat (map local_file es) @ local_file e @ rest)" using Cons.prems(1) by simp
  note step = read_header_entry [OF f(1) this]
  obtain n where n: "fuel = Suc n" "length es < n" using Cons.prems(2) by (cases fuel) auto
  let ?l = "length (ze_data f)"
  have "(if ?l \<noteq> 0 then fseek_cur (data_at ?p f) ?l else data_at ?p f) = data_at ?p f + ?l"
    using f(1) by (simp add: fseek_forward zip_entry_ok_def)
  moreover have "drop (data_at ?p f + ?l) archive = concat (map local_file es) @ local_file e @ rest"
    using step(2) by (metis append_eq_conv_conj drop_drop add.commute)
  ultimately have "drop (if ?l \<noteq> 0 then fseek_cur (data_at ?p f) ?l else data_at ?p f) archive
      = concat (map local_file es) @ local_file e @ rest" by simp
  from Cons.IH [OF this n(2)] Cons.prems(3) n(1) step(1) f(2) show ?case by simp
qed

section \<open>The discs of a playlist\<close>

text \<open>Menu_init: the discs that exist, at most nine of them, and the place of the game among them.\<close>

fun disc_loop :: "fsys \<Rightarrow> string \<Rightarrow> game \<Rightarrow> string list \<Rightarrow> string list \<times> int \<Rightarrow> (string list \<times> int) option" where
  "disc_loop fs base g [] acc = Some acc"
| "disc_loop fs base g (line # rest) acc = do {
     disc_path \<leftarrow> c_buf 256 (base @ line);
     (if \<not> exists fs disc_path then disc_loop fs base g rest acc
      else if 9 \<le> length (fst acc) then Some acc
      else disc_loop fs base g rest
        (fst acc @ [disc_path],
         if exactMatch (Some disc_path) (Some (g_path g)) then int (length (fst acc)) else snd acc))
   }"

definition init_discs :: "fsys \<Rightarrow> game \<Rightarrow> (string \<times> string list \<times> int) option" where
  "init_discs fs g =
    (if g_m3u_path g = [] then Some ([], [], -1)
     else do {
       m3u \<leftarrow> c_buf 256 (g_m3u_path g);
       i \<leftarrow> strrchr m3u (CHR ''/'');
       let base = take (Suc i) m3u;
       (case fs_files fs (g_m3u_path g) of
          None \<Rightarrow> Some (base, [], -1)
        | Some content \<Rightarrow> do {
            (discs, disc) \<leftarrow> disc_loop fs base g (read_lines 256 content) ([], -1);
            Some (base, discs, disc)
          })
     })"

text \<open>The game is where the index says, and a disc with the path of the game is never overlooked.\<close>

definition discs_ok :: "game \<Rightarrow> string list \<times> int \<Rightarrow> bool" where
  "discs_ok g acc \<longleftrightarrow> length (fst acc) \<le> 9 \<and> - 1 \<le> snd acc \<and> snd acc < int (length (fst acc))
    \<and> (if g_path g \<in> set (fst acc) then 0 \<le> snd acc \<and> fst acc ! nat (snd acc) = g_path g else snd acc = -1)"

lemma disc_loop_spec:
  "disc_loop fs base g ls acc = Some r \<Longrightarrow> discs_ok g acc \<Longrightarrow> discs_ok g r
    \<and> fst r = take 9 (fst acc @ filter (exists fs) (map (\<lambda>l. base @ l) ls))"
proof (induction ls arbitrary: acc)
  case Nil
  then show ?case by (auto simp: discs_ok_def)
next
  case (Cons l ls)
  consider (absent) "\<not> exists fs (base @ l)" | (full) "exists fs (base @ l)" "9 \<le> length (fst acc)"
    | (add) "exists fs (base @ l)" "length (fst acc) < 9" by linarith
  then show ?case
  proof cases
    case absent
    with Cons show ?thesis by (auto split: if_splits)
  next
    case full
    with Cons show ?thesis by (auto simp: discs_ok_def split: if_splits)
  next
    case add
    let ?acc = "(fst acc @ [base @ l], if exactMatch (Some (base @ l)) (Some (g_path g)) then int (length (fst acc)) else snd acc)"
    have "discs_ok g ?acc" using Cons.prems(2) add(2) by (auto simp: discs_ok_def nth_append)
    moreover have "disc_loop fs base g ls ?acc = Some r" using Cons.prems(1) add by (simp split: if_splits)
    ultimately show ?thesis using Cons.IH [of ?acc] add(1) by simp
  qed
qed

section \<open>Findings\<close>

text \<open>
  An archive whose size field sends fseek back to the header it came from is scanned for ever: no
  fuel is enough.
\<close>

definition looping_archive :: string where
  "looping_archive = ''000000000000000000'' @ [CHR 0xE1, CHR 0xFF, CHR 0xFF, CHR 0xFF] @ ''0000''
    @ [CHR 0x01, CHR 0x00, CHR 0x00, CHR 0x00] @ ''x''"

theorem zip_scan_hangs: "zip_scan fuel [''gb''] looping_archive 0 0 = None"
proof -
  have header: "take ZIP_HEADER_SIZE (drop 0 looping_archive) = butlast looping_archive"
    "take 1 (drop (0 + ZIP_HEADER_SIZE) looping_archive) = ''x''"
    by (simp_all add: ZIP_HEADER_SIZE_def looping_archive_def)
  have fields: "length (butlast looping_archive) = ZIP_HEADER_SIZE" "butlast looping_archive ! 6 = CHR ''0''"
    "ZIP_LE_READ16 (butlast looping_archive) 26 = 1" "ZIP_LE_READ16 (butlast looping_archive) 28 = 0"
    "ZIP_LE_READ32 (butlast looping_archive) 18 = 2 ^ 32 - 31"
    by (simp_all add: ZIP_HEADER_SIZE_def looping_archive_def ZIP_LE_READ16_def ZIP_LE_READ32_def)
  have flag: "\<not> bit (byte CHR ''0'') 3" by code_simp
  have no_match: "takes_file [''gb''] (c_str ''x'') = Some False" by code_simp
  have step: "read_header [''gb''] looping_archive 0 = Some (Other_File 31 (2 ^ 32 - 31))"
    unfolding read_header_def header Let_def fields header no_match
    using flag by (simp add: fseek_cur_def ZIP_HEADER_SIZE_def MAX_PATH_def)
  have returns: "(if 2 ^ 32 - 31 \<noteq> (0::nat) then fseek_cur 31 (2 ^ 32 - 31) else 31) = 0" by (simp add: fseek_cur_def)
  have "zip_scan fuel [''gb''] looping_archive 31 (2 ^ 32 - 31) = None" for fuel
    by (induction fuel) (simp_all only: zip_scan.simps returns step option.case zip_step.case)
  then show ?thesis by (cases fuel) (simp_all add: step)
qed

text \<open>An archive without a file for the core is handed to the core as it is.\<close>

theorem archive_handed_over:
  assumes "unzip inflate stream env ci fs
      \<lparr>g_path = path, g_name = name, g_m3u_path = [], g_tmp_path = [], g_data = None, g_is_open = False\<rparr>
    = Some (True, \<lparr>g_path = path, g_name = name, g_m3u_path = [], g_tmp_path = [], g_data = None, g_is_open = False\<rparr>, fs)"
    and "length path < MAX_PATH" "file_name path = Some name" "hasM3u fs path = Some (False, m3u)"
    and "\<not> ci_need_fullpath ci" "fs_files fs path = Some archive"
  shows "\<exists>g. Game_open inflate stream env ci fs path = Some (g, fs) \<and> g_is_open g \<and> g_data g = Some archive"
  using assms by (auto simp: Game_open_def hasM3u_def Let_def elim!: bind_Some_elim split: if_splits)

section \<open>Properties\<close>

definition stored_as :: "'z inflate \<Rightarrow> 'z \<Rightarrow> zip_entry \<Rightarrow> string \<Rightarrow> bool" where
  "stored_as inflate stream e content \<longleftrightarrow>
    ze_method e = 0 \<and> content = ze_data e \<or> ze_method e = 8 \<and> decodes inflate stream (ze_data e) content"

lemma extract_file_ok:
  assumes "stored_as inflate stream e content" "length content \<le> ue_room env" "drop q archive = ze_data e @ rest"
    and "length (ue_tmp_dirname env @ ''/'' @ basename (ze_name e)) < MAX_PATH"
    and "fs_writable fs (ue_tmp_dirname env @ ''/'' @ basename (ze_name e))"
  shows "extract_file inflate stream env fs g archive
      \<lparr>zf_name = ze_name e, zf_method = ze_method e, zf_size = length (ze_data e), zf_data = q\<rparr>
    = Some (True, g\<lparr>g_tmp_path := ue_tmp_dirname env @ ''/'' @ basename (ze_name e)\<rparr>,
        putFile fs (ue_tmp_dirname env @ ''/'' @ basename (ze_name e)) content)"
  using assms Zip_copy_all [of "[]" "ze_data e" "ue_room env" rest]
    inflate_decodes [of inflate stream "ze_data e" content "[]" "ue_room env" rest]
  by (auto simp: extract_file_def stored_as_def Zip_inflate_def)

text \<open>
  C24. A zipped game is unpacked and opened: when the archive is made of files with local headers,
  whatever their other fields and extra fields, and its first file with an extension of the core is
  stored or deflated, then Game_open writes exactly the content of that file to the temporary
  directory, loads it as the game, and names the game as the launcher's hasM3u does: after the
  playlist of the folder when there is one, else after the archive. The inflate of zlib is any
  decoder that turns the data into the content.
\<close>

theorem zipped_game_opened:
  fixes e :: zip_entry and env :: unzip_env
  defines "tmp \<equiv> ue_tmp_dirname env @ ''/'' @ basename (ze_name e)"
  assumes "suffixMatch ''.zip'' path" "core_extensions (ci_extensions ci) = Some (exts, False)" "\<not> ci_need_fullpath ci"
    and "fs_files fs path = Some (concat (map local_file es) @ local_file e @ rest)"
    and "list_all (\<lambda>f. zip_entry_ok f \<and> takes_file exts (ze_name f) = Some False) es" "zip_entry_ok e"
    and "takes_file exts (ze_name e) = Some True" "length es < ue_fuel env"
    and "stored_as inflate stream e content" "length content \<le> ue_room env" "length tmp < MAX_PATH" "fs_writable fs tmp"
    and "file_name path = Some name" "hasM3u (putFile fs tmp content) path = Some (has_m3u, m3u_path)"
    and "file_name m3u_path = Some m3u_name"
  shows "Game_open inflate stream env ci fs path
    = Some (\<lparr>g_path = path, g_name = (if has_m3u then m3u_name else name),
        g_m3u_path = (if has_m3u then m3u_path else []), g_tmp_path = tmp, g_data = Some content, g_is_open = True\<rparr>,
       putFile fs tmp content)"
proof -
  let ?g = "\<lparr>g_path = path, g_name = name, g_m3u_path = [], g_tmp_path = [], g_data = None, g_is_open = False\<rparr>"
  let ?archive = "concat (map local_file es) @ local_file e @ rest"
  obtain q where q: "zip_scan (ue_fuel env) exts ?archive 0 0 = Some (Some \<lparr>zf_name = ze_name e, zf_method = ze_method e,
      zf_size = length (ze_data e), zf_data = q\<rparr>)" "drop q ?archive = ze_data e @ rest"
    using zip_scan_finds [OF assms(6-8), of 0 0 ?archive rest "ue_fuel env"] assms(9) by auto
  have "unzip inflate stream env ci fs ?g = Some (True, ?g\<lparr>g_tmp_path := tmp\<rparr>, putFile fs tmp content)"
    using assms(2,3,5) q(1) extract_file_ok [OF assms(10,11) q(2) assms(12,13) [unfolded tmp_def], of ?g]
    by (simp add: unzip_def tmp_def)
  moreover have "length path < 256" using assms(15) by (auto simp: hasM3u_def split: if_splits)
  moreover have "tmp \<noteq> []" by (simp add: tmp_def)
  moreover have "fs_files (putFile fs tmp content) tmp = Some content" using assms(13) by (simp add: fstore.rd_wr)
  ultimately show ?thesis
    using assms(4,14-16) by (auto simp: Game_open_def hasM3u_def MAX_PATH_def Let_def elim!: bind_Some_elim split: if_splits)
qed

text \<open>
  The discs of a multi-disc game are the lines of its playlist that exist next to it, the first
  nine of them in order, and the current disc is the one that is running: when the running game is on
  the list the index points to it, and otherwise there is none.
\<close>

theorem disc_list_of_playlist:
  assumes "init_discs fs g = Some (base, discs, disc)" "g_m3u_path g \<noteq> []" "fs_files fs (g_m3u_path g) = Some content"
  shows "discs = take 9 (filter (exists fs) (map (\<lambda>l. base @ l) (read_lines 256 content)))
    \<and> prefix base (g_m3u_path g)
    \<and> (if g_path g \<in> set discs then 0 \<le> disc \<and> disc < int (length discs) \<and> discs ! nat disc = g_path g else disc = -1)"
proof -
  obtain i where i: "base = take (Suc i) (g_m3u_path g)"
    "disc_loop fs base g (read_lines 256 content) ([], -1) = Some (discs, disc)"
    using assms by (auto simp: init_discs_def Let_def elim!: bind_Some_elim split: if_splits)
  have "discs_ok g ([], -1)" by (simp add: discs_ok_def)
  note found = disc_loop_spec [OF i(2) this, unfolded fst_conv append_Nil]
  have "prefix base (g_m3u_path g)" unfolding i(1) by (rule take_is_prefix)
  then show ?thesis using found unfolding discs_ok_def fst_conv snd_conv by (metis (lifting))
qed

definition zip_demo :: "zip_entry \<Rightarrow> zip_entry \<Rightarrow> fsys" where
  "zip_demo a b = \<lparr>fs_files = map_of [(''/mnt/SDCARD/Roms/GB/T.zip'', local_file a @ local_file b @ ''PK'')],
     fs_dirs = map_of [], fs_writable = \<lambda>p. True\<rparr>"

definition readme_entry :: zip_entry where
  "readme_entry = \<lparr>ze_head = ''PK....'', ze_flags = 2, ze_method = 0, ze_times = ''........'', ze_size = ''....'',
     ze_name = ''readme.txt'', ze_extra = ''xx'', ze_data = ''hello''\<rparr>"

definition game_entry :: zip_entry where
  "game_entry = \<lparr>ze_head = ''PK....'', ze_flags = 0, ze_method = 8, ze_times = ''........'', ze_size = ''....'',
     ze_name = ''dir/T.gb'', ze_extra = '''', ze_data = ''ab''\<rparr>"

text \<open>A decoder for the witness: every byte of the data stands for itself, twice.\<close>

definition doubling :: "unit inflate" where
  "doubling s d = (if length d < ZIP_CHUNK_SIZE then Z_STREAM_END else Z_OK, concat (map (\<lambda>c. [c, c]) d), ())"

definition demo_env :: unzip_env where
  "demo_env = \<lparr>ue_tmp_dirname = ''/tmp/minarch-x'', ue_room = 64, ue_fuel = 9\<rparr>"

definition demo_ci :: core_info where
  "demo_ci = \<lparr>ci_need_fullpath = False, ci_extensions = ''gb|gbc'', ci_states_dir = ''/s'', ci_saves_dir = ''/v''\<rparr>"

theorem zipped_game_opened_witness:
  "Game_open doubling () demo_env demo_ci (zip_demo readme_entry game_entry) ''/mnt/SDCARD/Roms/GB/T.zip''
    = Some (\<lparr>g_path = ''/mnt/SDCARD/Roms/GB/T.zip'', g_name = ''T.zip'', g_m3u_path = [], g_tmp_path = ''/tmp/minarch-x/T.gb'',
        g_data = Some ''aabb'', g_is_open = True\<rparr>,
       putFile (zip_demo readme_entry game_entry) ''/tmp/minarch-x/T.gb'' ''aabb'')"
proof -
  let ?fs = "zip_demo readme_entry game_entry" and ?p = "''/mnt/SDCARD/Roms/GB/T.zip''"
  have tmp: "ue_tmp_dirname demo_env @ ''/'' @ basename (ze_name game_entry) = ''/tmp/minarch-x/T.gb''" by code_simp
  have decoded: "decodes doubling () ''ab'' ''aabb''"
    by (rule decodes.last_chunk [where s' = "()"]) (simp_all add: doubling_def ZIP_CHUNK_SIZE_def)
  have entries: "zip_entry_ok readme_entry" "zip_entry_ok game_entry"
    by (simp_all add: zip_entry_ok_def readme_entry_def game_entry_def MAX_PATH_def NUL_def bit_iff_odd)
  have run: "suffixMatch ''.zip'' ?p" "core_extensions (ci_extensions demo_ci) = Some ([''gb'', ''gbc''], False)"
    "takes_file [''gb'', ''gbc''] (ze_name readme_entry) = Some False" "takes_file [''gb'', ''gbc''] (ze_name game_entry) = Some True"
    "file_name ?p = Some ''T.zip''" "file_name ''/mnt/SDCARD/Roms/GB/GB.m3u'' = Some ''GB.m3u''"
    by code_simp+
  have m3u: "hasM3u (putFile ?fs ''/tmp/minarch-x/T.gb'' ''aabb'') ?p = Some (False, ''/mnt/SDCARD/Roms/GB/GB.m3u'')"
    by (simp add: hasM3u_def exists_def opendir_def putFile_def zip_demo_def Let_def)
  have there: "fs_files ?fs ?p = Some (concat (map local_file [readme_entry]) @ local_file game_entry @ ''PK'')"
    by (simp add: zip_demo_def)
  have others: "list_all (\<lambda>f. zip_entry_ok f \<and> takes_file [''gb'', ''gbc''] (ze_name f) = Some False) [readme_entry]"
    using entries run(3) by simp
  have content: "stored_as doubling () game_entry ''aabb''" using decoded by (simp add: stored_as_def game_entry_def)
  have small: "length [readme_entry] < ue_fuel demo_env" "length ''aabb'' \<le> ue_room demo_env"
    "length ''/tmp/minarch-x/T.gb'' < MAX_PATH" "\<not> ci_need_fullpath demo_ci"
    by (simp_all add: demo_env_def demo_ci_def MAX_PATH_def)
  have writable: "fs_writable ?fs ''/tmp/minarch-x/T.gb''" by (simp add: zip_demo_def)
  from zipped_game_opened [OF run(1,2) small(4) there others entries(2) run(4) small(1) content small(2), unfolded tmp,
      OF small(3) writable run(5) m3u run(6)]
  show ?thesis by simp
qed

definition disc_demo :: fsys where
  "disc_demo = \<lparr>fs_files = map_of [(''/g/FF/FF.m3u'', ''1.cue'' @ [NL] @ ''2.cue'' @ [NL] @ ''3.cue''), (''/g/FF/1.cue'', []), (''/g/FF/3.cue'', [])],
     fs_dirs = map_of [], fs_writable = \<lambda>p. True\<rparr>"

definition disc_game :: game where
  "disc_game = \<lparr>g_path = ''/g/FF/3.cue'', g_name = ''FF.m3u'', g_m3u_path = ''/g/FF/FF.m3u'', g_tmp_path = [],
     g_data = None, g_is_open = True\<rparr>"

theorem disc_list_of_playlist_witness:
  "\<exists>disc. init_discs disc_demo disc_game = Some (''/g/FF/'', [''/g/FF/1.cue'', ''/g/FF/3.cue''], disc) \<and> 0 \<le> disc"
proof -
  have run: "init_discs disc_demo disc_game = Some (''/g/FF/'', [''/g/FF/1.cue'', ''/g/FF/3.cue''], 1)"
    "fs_files disc_demo (g_m3u_path disc_game) = Some (''1.cue'' @ [NL] @ ''2.cue'' @ [NL] @ ''3.cue'')"
    "g_m3u_path disc_game \<noteq> []" "g_path disc_game \<in> set [''/g/FF/1.cue'', ''/g/FF/3.cue'']" by code_simp+
  from disc_list_of_playlist [OF run(1,3,2)] run(1,4) show ?thesis by auto
qed

end
