(* ===== verification/SaveStates.thy ===== *)
theory SaveStates
  imports GameFile
begin

text \<open>
  Saves of the player (workspace/all/minarch/minarch.c): the battery memory and the clock (SRAM_read
  to RTC_write), save states and their slots (State_getPath to State_resume), the slots of the menu
  (player_Menu_init to Menu_loadState), and going to sleep (Menu_beforeSleep), which the launcher's
  autoResume takes up.

  The libretro core is a parameter: its functions over a state of any type. Memory for a state is
  always there; sync and the messages have no counterpart. The CPU speed and the overclock that sleep
  and wake set are outside.
\<close>

section \<open>The core and the player\<close>

datatype memory = RETRO_MEMORY_SAVE_RAM | RETRO_MEMORY_RTC

text \<open>
  serialize gives the bytes that it put at the start of the buffer, or failed; the memory that
  get_memory_data points to is a string, and writing through the pointer is set_memory_data.
\<close>

record 'c libretro =
  serialize_size :: "'c \<Rightarrow> nat"
  serialize :: "'c \<Rightarrow> string option \<times> 'c"
  unserialize :: "string \<Rightarrow> 'c \<Rightarrow> bool \<times> 'c"
  get_memory_size :: "memory \<Rightarrow> 'c \<Rightarrow> nat"
  get_memory_data :: "memory \<Rightarrow> 'c \<Rightarrow> string option"
  set_memory_data :: "memory \<Rightarrow> string \<Rightarrow> 'c \<Rightarrow> 'c"
  replace_image :: "string \<times> string option \<Rightarrow> 'c \<Rightarrow> 'c"

record 'c player =
  p_fs :: fsys
  p_core :: 'c
  p_game :: game
  p_state_slot :: int
  mn_dir :: string
  mn_slot_path :: string
  mn_bmp_path :: string
  mn_txt_path :: string
  mn_base :: string
  mn_discs :: "string list"
  mn_disc :: int
  mn_slot :: int
  mn_save_exists :: bool
  mn_preview_exists :: bool

section \<open>Battery memory and clock\<close>

definition SRAM_getPath :: "core_info \<Rightarrow> game \<Rightarrow> string option" where
  "SRAM_getPath ci g = c_buf MAX_PATH (ci_saves_dir ci @ ''/'' @ g_name g @ ''.sav'')"

definition RTC_getPath :: "core_info \<Rightarrow> game \<Rightarrow> string option" where
  "RTC_getPath ci g = c_buf MAX_PATH (ci_saves_dir ci @ ''/'' @ g_name g @ ''.rtc'')"

text \<open>The bytes read replace the first ones of the memory; room is what fwrite manages to write.\<close>

definition memory_read :: "'c libretro \<Rightarrow> memory \<Rightarrow> string option \<Rightarrow> 'c player \<Rightarrow> 'c player option" where
  "memory_read api mem_id path p =
    (let n = get_memory_size api mem_id (p_core p) in
     if n = 0 then Some p
     else do {
       filename \<leftarrow> path;
       (case (fs_files (p_fs p) filename, get_memory_data api mem_id (p_core p)) of
          (Some content, Some mem) \<Rightarrow>
            let got = take n content in
            Some (if got = [] then p
                  else p\<lparr>p_core := set_memory_data api mem_id (got @ drop (length got) mem) (p_core p)\<rparr>)
        | _ \<Rightarrow> Some p)
     })"

definition memory_write :: "'c libretro \<Rightarrow> memory \<Rightarrow> nat \<Rightarrow> string option \<Rightarrow> 'c player \<Rightarrow> 'c player option" where
  "memory_write api mem_id room path p =
    (let n = get_memory_size api mem_id (p_core p) in
     if n = 0 then Some p
     else do {
       filename \<leftarrow> path;
       let out = (case get_memory_data api mem_id (p_core p) of None \<Rightarrow> [] | Some mem \<Rightarrow> take room (take n mem));
       Some (p\<lparr>p_fs := putFile (p_fs p) filename out\<rparr>)
     })"

definition SRAM_read :: "'c libretro \<Rightarrow> core_info \<Rightarrow> 'c player \<Rightarrow> 'c player option" where
  "SRAM_read api ci p = memory_read api RETRO_MEMORY_SAVE_RAM (SRAM_getPath ci (p_game p)) p"

definition SRAM_write :: "'c libretro \<Rightarrow> core_info \<Rightarrow> nat \<Rightarrow> 'c player \<Rightarrow> 'c player option" where
  "SRAM_write api ci room p = memory_write api RETRO_MEMORY_SAVE_RAM room (SRAM_getPath ci (p_game p)) p"

definition RTC_read :: "'c libretro \<Rightarrow> core_info \<Rightarrow> 'c player \<Rightarrow> 'c player option" where
  "RTC_read api ci p = memory_read api RETRO_MEMORY_RTC (RTC_getPath ci (p_game p)) p"

definition RTC_write :: "'c libretro \<Rightarrow> core_info \<Rightarrow> nat \<Rightarrow> 'c player \<Rightarrow> 'c player option" where
  "RTC_write api ci room p = memory_write api RETRO_MEMORY_RTC room (RTC_getPath ci (p_game p)) p"

section \<open>Save states\<close>

definition State_getPath :: "nat \<Rightarrow> core_info \<Rightarrow> game \<Rightarrow> int \<Rightarrow> string option" where
  "State_getPath n ci g slot = c_buf n (ci_states_dir ci @ ''/'' @ g_name g @ ''.st'' @ c_int slot)"

text \<open>The buffer of a state: zeros, with the bytes of the core or of the file at the front.\<close>

definition state_buffer :: "nat \<Rightarrow> string \<Rightarrow> string" where
  "state_buffer n bytes = take n (bytes @ replicate (n - length bytes) NUL)"

text \<open>
  Both switch fast forward off for the time of the call and on again. The test of fread against the
  size of the state never fails; the result of unserialize only changes a message.
\<close>

definition State_read :: "'c libretro \<Rightarrow> core_info \<Rightarrow> 'c player \<Rightarrow> 'c player option" where
  "State_read api ci p =
    (let n = serialize_size api (p_core p) in
     if n = 0 then Some p
     else do {
       filename \<leftarrow> State_getPath MAX_PATH ci (p_game p) (p_state_slot p);
       (case fs_files (p_fs p) filename of
          None \<Rightarrow> Some p
        | Some content \<Rightarrow>
            if n < length (take n content) then Some p
            else Some (p\<lparr>p_core := snd (unserialize api (state_buffer n content) (p_core p))\<rparr>))
     })"

definition State_write :: "'c libretro \<Rightarrow> core_info \<Rightarrow> nat \<Rightarrow> 'c player \<Rightarrow> 'c player option" where
  "State_write api ci room p =
    (let n = serialize_size api (p_core p) in
     if n = 0 then Some p
     else do {
       filename \<leftarrow> State_getPath MAX_PATH ci (p_game p) (p_state_slot p);
       (if \<not> fs_writable (p_fs p) filename then Some p
        else
          let p = p\<lparr>p_fs := putFile (p_fs p) filename []\<rparr> in
          case serialize api (p_core p) of
            (None, c) \<Rightarrow> Some (p\<lparr>p_core := c\<rparr>)
          | (Some bytes, c) \<Rightarrow>
              Some (p\<lparr>p_core := c, p_fs := putFile (p_fs p) filename (take room (state_buffer n bytes))\<rparr>))
     })"

text \<open>The picture of the running game is a parameter; SDL writes it as a file.\<close>

definition Lodor_writeAutoShot :: "string option \<Rightarrow> 'c player \<Rightarrow> 'c player" where
  "Lodor_writeAutoShot shot p =
    (case shot of
       None \<Rightarrow> p
     | Some bitmap \<Rightarrow>
         if \<not> g_is_open (p_game p) \<or> mn_dir p = [] then p
         else p\<lparr>p_fs := putFile (p_fs p) (c_trunc MAX_PATH (mn_dir p @ ''/'' @ g_name (p_game p) @ ''.auto.bmp'')) bitmap\<rparr>)"

definition State_autosave :: "'c libretro \<Rightarrow> core_info \<Rightarrow> nat \<Rightarrow> string option \<Rightarrow> 'c player \<Rightarrow> 'c player option" where
  "State_autosave api ci room shot p = do {
     let last_state_slot = p_state_slot p;
     p \<leftarrow> State_write api ci room (p\<lparr>p_state_slot := AUTO_RESUME_SLOT\<rparr>);
     Some (Lodor_writeAutoShot shot (p\<lparr>p_state_slot := last_state_slot\<rparr>))
   }"

definition State_resume :: "'c libretro \<Rightarrow> core_info \<Rightarrow> 'c player \<Rightarrow> 'c player option" where
  "State_resume api ci p =
    (if \<not> exists (p_fs p) RESUME_SLOT_PATH then Some p
     else do {
       let last_state_slot = p_state_slot p;
       p \<leftarrow> State_read api ci (p\<lparr>p_state_slot := getInt (p_fs p) RESUME_SLOT_PATH,
                                p_fs := unlink (p_fs p) RESUME_SLOT_PATH\<rparr>);
       Some (p\<lparr>p_state_slot := last_state_slot\<rparr>)
     })"

section \<open>The menu's slots\<close>

text \<open>The launcher's tag of the game in the environment, else the one of its path.\<close>

definition Lodor_tagName :: "string option \<Rightarrow> string \<Rightarrow> nat \<Rightarrow> string option" where
  "Lodor_tagName env rom_path outsz =
    (case env of
       Some (c # cs) \<Rightarrow> Some (c_trunc outsz (c # cs))
     | _ \<Rightarrow> getEmuName outsz rom_path)"

definition player_Menu_init :: "string option \<Rightarrow> 'c player \<Rightarrow> 'c player option" where
  "player_Menu_init env p = do {
     emu_name \<leftarrow> Lodor_tagName env (g_path (p_game p)) 256;
     let minui_dir = c_trunc 256 (SHARED_USERDATA_PATH @ ''/.minui/'' @ emu_name);
     let slot_path = c_trunc 256 (minui_dir @ ''/'' @ g_name (p_game p) @ ''.txt'');
     (base, discs, disc) \<leftarrow> init_discs (p_fs p) (p_game p);
     Some (p\<lparr>mn_dir := minui_dir, mn_slot_path := slot_path, mn_base := base, mn_discs := discs, mn_disc := disc\<rparr>)
   }"

definition Menu_initState :: "'c player \<Rightarrow> 'c player" where
  "Menu_initState p =
    (let slot = (if exists (p_fs p) (mn_slot_path p) then getInt (p_fs p) (mn_slot_path p) else mn_slot p) in
     p\<lparr>mn_slot := (if slot = 8 then 0 else slot), mn_save_exists := False, mn_preview_exists := False\<rparr>)"

definition Menu_updateState :: "core_info \<Rightarrow> 'c player \<Rightarrow> 'c player option" where
  "Menu_updateState ci p = do {
     save_path \<leftarrow> State_getPath 256 ci (p_game p) (mn_slot p);
     let stem = mn_dir p @ ''/'' @ g_name (p_game p) @ ''.'' @ c_int (mn_slot p);
     bmp_path \<leftarrow> c_buf 256 (stem @ ''.bmp'');
     txt_path \<leftarrow> c_buf 256 (stem @ ''.txt'');
     let save = exists (p_fs p) save_path;
     Some (p\<lparr>mn_bmp_path := bmp_path, mn_txt_path := txt_path, mn_save_exists := save,
             mn_preview_exists := save \<and> exists (p_fs p) bmp_path\<rparr>)
   }"

definition current_disc :: "'c player \<Rightarrow> string option" where
  "current_disc p =
    (if 0 \<le> mn_disc p \<and> mn_disc p < int (length (mn_discs p)) then Some (mn_discs p ! nat (mn_disc p)) else None)"

text \<open>The name of the disc, relative to the folder of the playlist, is kept next to the state.\<close>

definition record_disc :: "'c player \<Rightarrow> fsys option" where
  "record_disc p =
    (if mn_discs p = [] then Some (p_fs p)
     else do {
       disc_path \<leftarrow> current_disc p;
       Some (putFile (p_fs p) (mn_txt_path p) (drop (length (mn_base p)) disc_path))
     })"

definition Menu_saveState :: "'c libretro \<Rightarrow> core_info \<Rightarrow> nat \<Rightarrow> string \<Rightarrow> 'c player \<Rightarrow> 'c player option" where
  "Menu_saveState api ci room bitmap p = do {
     p \<leftarrow> Menu_updateState ci p;
     fs \<leftarrow> record_disc p;
     fs \<leftarrow> putInt (putFile fs (mn_bmp_path p) bitmap) (mn_slot_path p) (mn_slot p);
     State_write api ci room (p\<lparr>p_fs := fs, p_state_slot := mn_slot p\<rparr>)
   }"

text \<open>Reading a disc name that was not written is a fault: the buffer is not initialised.\<close>

definition Menu_loadState ::
    "'z inflate \<Rightarrow> 'z \<Rightarrow> unzip_env \<Rightarrow> 'c libretro \<Rightarrow> core_info \<Rightarrow> 'c player \<Rightarrow> 'c player option" where
  "Menu_loadState inflate stream env api ci p = do {
     p \<leftarrow> Menu_updateState ci p;
     (if \<not> mn_save_exists p then Some p
      else do {
        p \<leftarrow> (if mn_discs p = [] then Some p
              else do {
                slot_disc_name \<leftarrow> getFile (p_fs p) (mn_txt_path p) 256;
                slot_disc_path \<leftarrow> (if slot_disc_name \<noteq> [] \<and> hd slot_disc_name = CHR ''/'' then Some slot_disc_name
                                  else c_buf 256 (mn_base p @ slot_disc_name));
                disc_path \<leftarrow> current_disc p;
                (if exactMatch (Some slot_disc_path) (Some disc_path) then Some p
                 else do {
                   (image, g, fs) \<leftarrow> Game_changeDisc inflate stream env ci (p_fs p) (p_game p) slot_disc_path;
                   Some (p\<lparr>p_game := g, p_fs := fs,
                     p_core := (case image of None \<Rightarrow> p_core p | Some i \<Rightarrow> replace_image api i (p_core p))\<rparr>)
                 })
              });
        fs \<leftarrow> putInt (p_fs p) (mn_slot_path p) (mn_slot p);
        State_read api ci (p\<lparr>p_state_slot := mn_slot p, p_fs := fs\<rparr>)
      })
   }"

section \<open>Sleep\<close>

definition Menu_beforeSleep :: "'c libretro \<Rightarrow> core_info \<Rightarrow> nat \<Rightarrow> string option \<Rightarrow> 'c player \<Rightarrow> 'c player option" where
  "Menu_beforeSleep api ci room shot p = do {
     p \<leftarrow> SRAM_write api ci room p;
     p \<leftarrow> RTC_write api ci room p;
     p \<leftarrow> State_autosave api ci room shot p;
     c_ok (length SDCARD_PATH \<le> length (g_path (p_game p)));
     Some (p\<lparr>p_fs := putFile (p_fs p) AUTO_RESUME_PATH (drop (length SDCARD_PATH) (g_path (p_game p)))\<rparr>)
   }"

definition Menu_afterSleep :: "'c player \<Rightarrow> 'c player" where
  "Menu_afterSleep p = p\<lparr>p_fs := unlink (p_fs p) AUTO_RESUME_PATH\<rparr>"

section \<open>Files of the player\<close>

lemma putFile_putFile [simp]: "putFile (putFile fs p c) p d = putFile fs p d"
  by (simp add: putFile_def)

lemma putFile_other: "p \<noteq> q \<Longrightarrow> fs_files (putFile fs p c) q = fs_files fs q"
  by (simp add: fstore.rd_wr)

lemma putFile_same: "fs_writable fs p \<Longrightarrow> fs_files (putFile fs p c) p = Some c"
  by (simp add: fstore.rd_wr)

definition slot_ok :: "int \<Rightarrow> bool" where
  "slot_ok s \<longleftrightarrow> 0 \<le> s \<and> s \<le> 9"

lemma c_int_slot: "slot_ok s \<Longrightarrow> c_int s = [char_of (48 + nat s)]"
  by (auto simp: slot_ok_def c_int_def c_digits.simps [of "nat s"])

lemma state_path_eq:
  "slot_ok s \<Longrightarrow> State_getPath n ci g s = Some f
    \<Longrightarrow> f = ci_states_dir ci @ ''/'' @ g_name g @ ''.st'' @ [char_of (48 + nat s)]"
  by (simp add: State_getPath_def c_int_slot)

text \<open>The paths that are not of a state end with a letter.\<close>

lemma state_path_last: "slot_ok s \<Longrightarrow> State_getPath n ci g s = Some f \<Longrightarrow> c_isdigit (last f)"
proof -
  assume a: "slot_ok s" "State_getPath n ci g s = Some f"
  have "last f = char_of (48 + nat s)" unfolding state_path_eq [OF a] by simp
  moreover have "48 + nat s < 256" "nat s \<le> 9" using a(1) by (auto simp: slot_ok_def)
  ultimately show ?thesis by (simp add: c_isdigit_def)
qed

lemma letter_path: "slot_ok s \<Longrightarrow> State_getPath n ci g s = Some f \<Longrightarrow> last q \<in> {CHR ''t'', CHR ''p''} \<Longrightarrow> f \<noteq> q"
  using state_path_last [of s n ci g f] by (auto simp: c_isdigit_def)

lemma last_append_text: "last (s @ ''.txt'') = CHR ''t''" "last (s @ ''.bmp'') = CHR ''p''"
  by simp_all

lemma fixed_paths_last: "last AUTO_RESUME_PATH = CHR ''t''" "last RESUME_SLOT_PATH = CHR ''t''" "last NEXT_PATH = CHR ''t''"
  "last CHANGE_DISC_PATH = CHR ''t''"
  by code_simp+

lemma state_paths_differ:
  "slot_ok s \<Longrightarrow> slot_ok t \<Longrightarrow> s \<noteq> t \<Longrightarrow> State_getPath n ci g s = Some f \<Longrightarrow> State_getPath m ci g t = Some h \<Longrightarrow> f \<noteq> h"
proof -
  assume a: "slot_ok s" "slot_ok t" "s \<noteq> t" "State_getPath n ci g s = Some f" "State_getPath m ci g t = Some h"
  then have "48 + nat s < 256" "48 + nat t < 256" "48 + nat s \<noteq> 48 + nat t" by (auto simp: slot_ok_def)
  then have "byte (char_of (48 + nat s)) \<noteq> byte (char_of (48 + nat t))" by simp
  then have "char_of (48 + nat s) \<noteq> (char_of (48 + nat t) :: char)" by metis
  then show "f \<noteq> h" using state_path_eq [OF a(1,4)] state_path_eq [OF a(2,5)] by auto
qed

lemma state_path_small: "State_getPath 256 ci g s = Some f \<Longrightarrow> State_getPath MAX_PATH ci g s = Some f"
  by (simp add: State_getPath_def MAX_PATH_def)

lemma state_buffer_length [simp]: "length (state_buffer n d) = n"
  by (simp add: state_buffer_def)

lemma state_buffer_idem [simp]: "state_buffer n (state_buffer n d) = state_buffer n d"
  using state_buffer_length [of n d] unfolding state_buffer_def [of n "state_buffer n d"] by simp

section \<open>Writing and reading a state\<close>

lemma State_write_ok:
  assumes "0 < n" "serialize_size api (p_core p) = n" "State_getPath MAX_PATH ci (p_game p) (p_state_slot p) = Some f"
    "fs_writable (p_fs p) f" "serialize api (p_core p) = (Some d, c)" "n \<le> room"
  shows "State_write api ci room p = Some (p\<lparr>p_core := c, p_fs := putFile (p_fs p) f (state_buffer n d)\<rparr>)"
  using assms by (simp add: State_write_def Let_def)

lemma State_read_ok:
  assumes "0 < n" "serialize_size api (p_core p) = n" "State_getPath MAX_PATH ci (p_game p) (p_state_slot p) = Some f"
    "fs_files (p_fs p) f = Some content"
  shows "State_read api ci p = Some (p\<lparr>p_core := snd (unserialize api (state_buffer n content) (p_core p))\<rparr>)"
  using assms by (simp add: State_read_def Let_def)

lemma State_write_frame:
  assumes "State_write api ci room p = Some p'" "State_getPath MAX_PATH ci (p_game p) (p_state_slot p) = Some f" "q \<noteq> f"
  shows "fs_files (p_fs p') q = fs_files (p_fs p) q"
  using assms by (auto simp: State_write_def Let_def fstore.rd_wr split: if_splits prod.splits option.splits)

lemma State_write_same:
  assumes "State_write api ci room p = Some p'"
  shows "p_game p' = p_game p" "p_state_slot p' = p_state_slot p" "mn_dir p' = mn_dir p"
    "fs_writable (p_fs p') = fs_writable (p_fs p)" "fs_dirs (p_fs p') = fs_dirs (p_fs p)"
  using assms by (auto simp: State_write_def Let_def elim!: bind_Some_elim split: if_splits prod.splits option.splits)

section \<open>Findings\<close>

text \<open>
  The comparison of fread's result never fails: a file of any length, an empty one too, is given to
  the core, cut or filled with zeros.
\<close>

theorem State_read_any_length:
  "serialize_size api (p_core p) = n \<Longrightarrow> 0 < n \<Longrightarrow> State_getPath MAX_PATH ci (p_game p) (p_state_slot p) = Some f
    \<Longrightarrow> fs_files (p_fs p) f = Some []
    \<Longrightarrow> State_read api ci p = Some (p\<lparr>p_core := snd (unserialize api (replicate n NUL) (p_core p))\<rparr>)"
  by (simp add: State_read_ok state_buffer_def)

text \<open>A core that fails to serialize has already cost the state that was in the slot.\<close>

theorem failed_save_loses_state:
  assumes "serialize_size api (p_core p) \<noteq> 0" "State_getPath MAX_PATH ci (p_game p) (p_state_slot p) = Some f"
    "fs_writable (p_fs p) f" "serialize api (p_core p) = (None, c)"
  shows "\<exists>p'. State_write api ci room p = Some p' \<and> fs_files (p_fs p') f = Some []"
  using assms by (simp add: State_write_def putFile_same Let_def)

section \<open>Battery saves\<close>

lemma memory_read_all:
  assumes "get_memory_size api i (p_core p) = n" "0 < n" "path = Some f" "fs_files (p_fs p) f = Some content" "length content = n"
    "get_memory_data api i (p_core p) = Some mem" "length mem = n"
  shows "memory_read api i path p = Some (p\<lparr>p_core := set_memory_data api i content (p_core p)\<rparr>)"
  using assms by (auto simp: memory_read_def Let_def)

lemma memory_write_all:
  assumes "get_memory_size api i (p_core p) = n" "0 < n" "path = Some f" "get_memory_data api i (p_core p) = Some mem"
    "length mem = n" "n \<le> room"
  shows "memory_write api i room path p = Some (p\<lparr>p_fs := putFile (p_fs p) f mem\<rparr>)"
  using assms by (simp add: memory_write_def Let_def)

lemma sav_rtc_differ: "SRAM_getPath ci g = Some f \<Longrightarrow> RTC_getPath ci g = Some h \<Longrightarrow> f \<noteq> h"
  by (auto simp: SRAM_getPath_def RTC_getPath_def)

lemma memory_paths_last:
  "SRAM_getPath ci g = Some f \<Longrightarrow> last f = CHR ''v''" "RTC_getPath ci g = Some f \<Longrightarrow> last f = CHR ''c''"
  by (auto simp: SRAM_getPath_def RTC_getPath_def)

text \<open>A part of a component's memory that can be saved: there, of its size, and its file may be written.\<close>

definition saveable :: "'c libretro \<Rightarrow> memory \<Rightarrow> nat \<Rightarrow> string option \<Rightarrow> 'c player \<Rightarrow> string \<Rightarrow> string \<Rightarrow> bool" where
  "saveable api i room path p f mem \<longleftrightarrow> path = Some f \<and> fs_writable (p_fs p) f \<and> mem \<noteq> []
    \<and> get_memory_size api i (p_core p) = length mem \<and> get_memory_data api i (p_core p) = Some mem \<and> length mem \<le> room"

lemma saveable_write:
  "saveable api i room path p f mem \<Longrightarrow> memory_write api i room path p = Some (p\<lparr>p_fs := putFile (p_fs p) f mem\<rparr>)"
  by (rule memory_write_all [where n = "length mem"]) (auto simp: saveable_def)

section \<open>Properties\<close>

text \<open>
  C27. The battery memory and the clock survive a restart: what the two writers leave when the player
  quits is read back, each into its own memory, by the two readers of the next run of the game, in
  whatever state the fresh core is.
\<close>

theorem battery_saves_restored:
  assumes "saveable api RETRO_MEMORY_SAVE_RAM room (SRAM_getPath ci (p_game p)) p f sram"
    and "saveable api RETRO_MEMORY_RTC room (RTC_getPath ci (p_game p)) p h rtc"
    and "get_memory_size api RETRO_MEMORY_SAVE_RAM c = length sram" "get_memory_data api RETRO_MEMORY_SAVE_RAM c = Some a"
    and "length a = length sram"
    and "c1 = set_memory_data api RETRO_MEMORY_SAVE_RAM sram c"
    and "get_memory_size api RETRO_MEMORY_RTC c1 = length rtc" "get_memory_data api RETRO_MEMORY_RTC c1 = Some b"
    and "length b = length rtc"
  shows "\<exists>p1 p2. SRAM_write api ci room p = Some p1 \<and> RTC_write api ci room p1 = Some p2
    \<and> Option.bind (SRAM_read api ci (p2\<lparr>p_core := c\<rparr>)) (RTC_read api ci)
      = Some (p2\<lparr>p_core := set_memory_data api RETRO_MEMORY_RTC rtc c1\<rparr>)"
proof -
  let ?p1 = "p\<lparr>p_fs := putFile (p_fs p) f sram\<rparr>" and ?p2 = "p\<lparr>p_fs := putFile (putFile (p_fs p) f sram) h rtc\<rparr>"
  have w1: "SRAM_write api ci room p = Some ?p1" unfolding SRAM_write_def by (rule saveable_write [OF assms(1)])
  have "saveable api RETRO_MEMORY_RTC room (RTC_getPath ci (p_game ?p1)) ?p1 h rtc" using assms(2) by (simp add: saveable_def)
  from saveable_write [OF this] have w2: "RTC_write api ci room ?p1 = Some ?p2" by (simp add: RTC_write_def)
  have paths: "SRAM_getPath ci (p_game p) = Some f" "RTC_getPath ci (p_game p) = Some h" "f \<noteq> h"
    using assms(1,2) sav_rtc_differ by (auto simp: saveable_def)
  have files: "fs_files (p_fs ?p2) f = Some sram" "fs_files (p_fs ?p2) h = Some rtc"
    using assms(1,2) paths(3) by (simp_all add: putFile_same putFile_other saveable_def)
  have ne: "sram \<noteq> []" "rtc \<noteq> []" using assms(1,2) by (simp_all add: saveable_def)
  have "SRAM_read api ci (?p2\<lparr>p_core := c\<rparr>) = Some (?p2\<lparr>p_core := c1\<rparr>)"
    unfolding SRAM_read_def assms(6)
    by (subst memory_read_all [where n = "length sram" and f = f and content = sram and mem = a])
      (use assms(3-5) paths files ne in simp_all)
  moreover have "RTC_read api ci (?p2\<lparr>p_core := c1\<rparr>) = Some (?p2\<lparr>p_core := set_memory_data api RETRO_MEMORY_RTC rtc c1\<rparr>)"
    unfolding RTC_read_def
    by (subst memory_read_all [where n = "length rtc" and f = h and content = rtc and mem = b])
      (use assms(7-9) paths files ne in simp_all)
  ultimately have "Option.bind (SRAM_read api ci (?p2\<lparr>p_core := c\<rparr>)) (RTC_read api ci)
      = Some (?p2\<lparr>p_core := set_memory_data api RETRO_MEMORY_RTC rtc c1\<rparr>)" by simp
  with w1 w2 show ?thesis by blast
qed

lemma Menu_updateState_same:
  assumes "Menu_updateState ci p = Some p'"
  shows "p_fs p' = p_fs p" "p_core p' = p_core p" "p_game p' = p_game p" "mn_slot p' = mn_slot p" "mn_discs p' = mn_discs p"
    "mn_slot_path p' = mn_slot_path p" "mn_base p' = mn_base p" "mn_disc p' = mn_disc p" "mn_dir p' = mn_dir p"
    "last (mn_txt_path p') = CHR ''t''" "last (mn_bmp_path p') = CHR ''p''"
    "mn_txt_path p' = mn_dir p @ ''/'' @ g_name (p_game p) @ ''.'' @ c_int (mn_slot p) @ ''.txt''"
  using assms by (auto simp: Menu_updateState_def Let_def elim!: bind_Some_elim split: if_splits)

text \<open>A save in the menu up to the writing of the state: only files whose path ends with a letter.\<close>

lemma Menu_saveState_core:
  assumes "Menu_saveState api ci room shot p = Some p'" "last (mn_slot_path p) = CHR ''t''"
  obtains q where "State_write api ci room q = Some p'" "p_core q = p_core p" "p_game q = p_game p" "p_state_slot q = mn_slot p"
    "fs_writable (p_fs q) = fs_writable (p_fs p)"
    "\<forall>f. last f \<notin> {CHR ''t'', CHR ''p''} \<longrightarrow> fs_files (p_fs q) f = fs_files (p_fs p) f"
proof -
  obtain p1 where p1: "Menu_updateState ci p = Some p1" using assms(1) by (auto simp: Menu_saveState_def elim!: bind_Some_elim)
  note same = Menu_updateState_same [OF p1]
  obtain disc_fs fs where d: "record_disc p1 = Some disc_fs"
    and fs: "putInt (putFile disc_fs (mn_bmp_path p1) shot) (mn_slot_path p1) (mn_slot p1) = Some fs"
      "State_write api ci room (p1\<lparr>p_fs := fs, p_state_slot := mn_slot p1\<rparr>) = Some p'"
    using assms(1) p1 by (auto simp: Menu_saveState_def elim!: bind_Some_elim)
  have d: "disc_fs = p_fs p1 \<or> (\<exists>c. disc_fs = putFile (p_fs p1) (mn_txt_path p1) c)"
    using d by (auto simp: record_disc_def elim!: bind_Some_elim split: if_splits)
  from fs(1) obtain s where s: "fs = putFile (putFile disc_fs (mn_bmp_path p1) shot) (mn_slot_path p1) s"
    by (auto simp: putInt_def elim!: bind_Some_elim split: if_splits)
  have "fs_writable fs = fs_writable (p_fs p)" using s d same(1) by auto
  moreover have "fs_files fs f = fs_files (p_fs p) f" if "last f \<notin> {CHR ''t'', CHR ''p''}" for f
    using that d assms(2) same unfolding s by (auto simp: fstore.rd_wr)
  ultimately show ?thesis using that [of "p1\<lparr>p_fs := fs, p_state_slot := mn_slot p1\<rparr>"] fs(2) same by simp
qed

definition same_menu :: "'c player \<Rightarrow> 'c player \<Rightarrow> bool" where
  "same_menu p p' \<longleftrightarrow> p_game p' = p_game p \<and> mn_dir p' = mn_dir p \<and> mn_slot_path p' = mn_slot_path p
    \<and> mn_base p' = mn_base p \<and> mn_discs p' = mn_discs p \<and> mn_disc p' = mn_disc p
    \<and> fs_writable (p_fs p') = fs_writable (p_fs p)"

lemma same_menu_trans: "same_menu p q \<Longrightarrow> same_menu q r \<Longrightarrow> same_menu p r"
  by (simp add: same_menu_def)

lemma State_write_menu: "State_write api ci room p = Some p' \<Longrightarrow> same_menu p p'"
  by (auto simp: State_write_def same_menu_def Let_def elim!: bind_Some_elim split: if_splits prod.splits option.splits)

lemma Menu_saveState_menu:
  assumes "Menu_saveState api ci room shot p = Some p'"
  shows "same_menu p p'"
proof -
  obtain p1 disc_fs fs where p1: "Menu_updateState ci p = Some p1" and d: "record_disc p1 = Some disc_fs"
    and fs: "putInt (putFile disc_fs (mn_bmp_path p1) shot) (mn_slot_path p1) (mn_slot p1) = Some fs"
      "State_write api ci room (p1\<lparr>p_fs := fs, p_state_slot := mn_slot p1\<rparr>) = Some p'"
    using assms by (auto simp: Menu_saveState_def elim!: bind_Some_elim)
  have "fs_writable disc_fs = fs_writable (p_fs p1)"
    using d by (auto simp: record_disc_def elim!: bind_Some_elim split: if_splits)
  then have "fs_writable fs = fs_writable (p_fs p1)" using fs(1) by (auto simp: putInt_def elim!: bind_Some_elim split: if_splits)
  then have "same_menu p (p1\<lparr>p_fs := fs, p_state_slot := mn_slot p1\<rparr>)"
    using Menu_updateState_same [OF p1] by (simp add: same_menu_def)
  then show ?thesis using State_write_menu [OF fs(2)] by (rule same_menu_trans)
qed

text \<open>A save in the menu changes the file of its own slot, and no other state.\<close>

lemma Menu_saveState_slot:
  assumes "Menu_saveState api ci room shot p = Some p'" "last (mn_slot_path p) = CHR ''t''" "slot_ok (mn_slot p)"
    and "State_getPath MAX_PATH ci (p_game p) (mn_slot p) = Some f" "fs_writable (p_fs p) f"
    and "serialize_size api (p_core p) = n" "0 < n" "serialize api (p_core p) = (Some d, c)" "n \<le> room"
  shows "fs_files (p_fs p') f = Some (state_buffer n d)"
proof -
  obtain q where q: "State_write api ci room q = Some p'" "p_core q = p_core p" "p_game q = p_game p" "p_state_slot q = mn_slot p"
    "fs_writable (p_fs q) = fs_writable (p_fs p)"
    by (rule Menu_saveState_core [OF assms(1,2)])
  have "State_write api ci room q = Some (q\<lparr>p_core := c, p_fs := putFile (p_fs q) f (state_buffer n d)\<rparr>)"
    by (rule State_write_ok) (use q assms in simp_all)
  with q(1,5) assms(5) show ?thesis by (auto simp: putFile_same)
qed

lemma Menu_saveState_other_slot:
  assumes "Menu_saveState api ci room shot p = Some p'" "last (mn_slot_path p) = CHR ''t''" "slot_ok (mn_slot p)"
    and "slot_ok s" "s \<noteq> mn_slot p" "State_getPath MAX_PATH ci (p_game p) s = Some f"
  shows "fs_files (p_fs p') f = fs_files (p_fs p) f"
proof -
  obtain q where q: "State_write api ci room q = Some p'" "p_game q = p_game p" "p_state_slot q = mn_slot p"
    "\<forall>f. last f \<notin> {CHR ''t'', CHR ''p''} \<longrightarrow> fs_files (p_fs q) f = fs_files (p_fs p) f"
    by (rule Menu_saveState_core [OF assms(1,2)])
  have "c_isdigit (last f)" by (rule state_path_last [OF assms(4,6)])
  then have "last f \<notin> {CHR ''t'', CHR ''p''}" by (auto simp: c_isdigit_def)
  with q(4) have kept: "fs_files (p_fs q) f = fs_files (p_fs p) f" by blast
  show ?thesis
  proof (cases "State_getPath MAX_PATH ci (p_game q) (p_state_slot q)")
    case None
    with q(1) kept show ?thesis by (auto simp: State_write_def Let_def split: if_splits)
  next
    case (Some h)
    then have "f \<noteq> h" using state_paths_differ [OF assms(4,3,5,6)] q(2,3) by simp
    with State_write_frame [OF q(1) Some] kept show ?thesis by simp
  qed
qed

text \<open>Saves in the menu, one after the other: the slot, the state of the core, and the picture.\<close>

definition menu_saves :: "'c libretro \<Rightarrow> core_info \<Rightarrow> nat \<Rightarrow> (int \<times> 'c \<times> string) list \<Rightarrow> 'c player \<Rightarrow> 'c player option" where
  "menu_saves api ci room = fold_opt (\<lambda>(slot, c, shot) p. Menu_saveState api ci room shot (p\<lparr>mn_slot := slot, p_core := c\<rparr>))"

lemma menu_saves_keep:
  assumes "slot_ok s" "State_getPath MAX_PATH ci g s = Some f"
  shows "menu_saves api ci room ops p = Some p' \<Longrightarrow> p_game p = g \<Longrightarrow> last (mn_slot_path p) = CHR ''t''
    \<Longrightarrow> list_all (\<lambda>(slot, _). slot_ok slot \<and> slot \<noteq> s) ops
    \<Longrightarrow> fs_files (p_fs p') f = fs_files (p_fs p) f \<and> same_menu p p'"
proof (induction ops arbitrary: p)
  case Nil
  then show ?case by (simp add: menu_saves_def same_menu_def)
next
  case (Cons op ops)
  obtain slot c shot where op: "op = (slot, c, shot)" by (cases op)
  let ?p = "p\<lparr>mn_slot := slot, p_core := c\<rparr>"
  obtain q where q: "Menu_saveState api ci room shot ?p = Some q" "menu_saves api ci room ops q = Some p'"
    using Cons.prems(1) by (auto simp: op menu_saves_def elim!: bind_Some_elim)
  have same: "same_menu p q" using Menu_saveState_menu [OF q(1)] by (simp add: same_menu_def)
  have "fs_files (p_fs q) f = fs_files (p_fs p) f"
    using Menu_saveState_other_slot [OF q(1), of s f] assms Cons.prems by (simp add: op)
  moreover have "fs_files (p_fs p') f = fs_files (p_fs q) f \<and> same_menu q p'"
    using Cons.IH [OF q(2)] same Cons.prems by (simp add: same_menu_def)
  ultimately show ?case using same_menu_trans [OF same] by simp
qed

text \<open>
  C26. A state saved in the menu is the one that loading its slot restores, however many states of
  the game were saved in other slots in between: the core is given the bytes it serialized, in a buffer
  of the size it asked for. This is for games without discs to swap.
\<close>

theorem menu_state_restored:
  assumes "Menu_saveState api ci room shot p = Some p1" "last (mn_slot_path p) = CHR ''t''" "slot_ok (mn_slot p)"
    and "State_getPath MAX_PATH ci (p_game p) (mn_slot p) = Some f" "fs_writable (p_fs p) f"
    and "serialize_size api (p_core p) = n" "0 < n" "serialize api (p_core p) = (Some d, c)" "n \<le> room"
    and "menu_saves api ci room ops p1 = Some p2" "list_all (\<lambda>(slot, _). slot_ok slot \<and> slot \<noteq> mn_slot p) ops"
    and "mn_discs p = []" "serialize_size api c' = n"
  shows "\<exists>p3. Menu_loadState inflate stream env api ci (p2\<lparr>mn_slot := mn_slot p, p_core := c'\<rparr>) = Some p3
    \<and> p_core p3 = snd (unserialize api (state_buffer n d) c')"
proof -
  let ?p2 = "p2\<lparr>mn_slot := mn_slot p, p_core := c'\<rparr>"
  have saved: "fs_files (p_fs p1) f = Some (state_buffer n d)" by (rule Menu_saveState_slot [OF assms(1-9)])
  have m1: "same_menu p p1" by (rule Menu_saveState_menu [OF assms(1)])
  then have kept: "fs_files (p_fs p2) f = fs_files (p_fs p1) f \<and> same_menu p1 p2"
    using menu_saves_keep [OF assms(3,4,10)] assms(2,11) by (simp add: same_menu_def)
  have same: "same_menu p p2" using same_menu_trans [OF m1] kept by blast
  obtain q where "Menu_updateState ci p = Some q" using assms(1) by (auto simp: Menu_saveState_def elim!: bind_Some_elim)
  then obtain h where "State_getPath 256 ci (p_game p) (mn_slot p) = Some h" and short: "length (mn_dir p @ ''/'' @ g_name (p_game p)
      @ ''.'' @ c_int (mn_slot p) @ ''.bmp'') < 256" "length (mn_dir p @ ''/'' @ g_name (p_game p) @ ''.'' @ c_int (mn_slot p) @ ''.txt'') < 256"
    by (auto simp: Menu_updateState_def Let_def elim!: bind_Some_elim split: if_splits)
  moreover have "h = f" using calculation(1) assms(4) by (simp add: State_getPath_def)
  ultimately have path: "State_getPath 256 ci (p_game ?p2) (mn_slot ?p2) = Some f" using same by (simp add: same_menu_def)
  have "exists (p_fs ?p2) f" using saved kept by (simp add: exists_def)
  then obtain p3 where p3: "Menu_updateState ci ?p2 = Some p3" "mn_save_exists p3"
    using path short same by (simp add: Menu_updateState_def same_menu_def Let_def)
  note u = Menu_updateState_same [OF p3(1)]
  have slot: "putInt fs (mn_slot_path p3) (mn_slot p3) = Some (putFile fs (mn_slot_path p3) (c_int (mn_slot p)))" for fs
    using assms(3) u(4) by (simp add: putInt_def c_int_slot)
  let ?p4 = "p3\<lparr>p_state_slot := mn_slot p3, p_fs := putFile (p_fs p3) (mn_slot_path p3) (c_int (mn_slot p))\<rparr>"
  have "f \<noteq> mn_slot_path p3" using letter_path [OF assms(3,4)] assms(2) u(6) same by (simp add: same_menu_def)
  then have there: "fs_files (p_fs ?p4) f = Some (state_buffer n d)" using saved kept u(1) by (simp add: putFile_other)
  have "State_getPath MAX_PATH ci (p_game ?p4) (p_state_slot ?p4) = Some f" using path u(3,4) by (simp add: state_path_small)
  then have "State_read api ci ?p4 = Some (?p4\<lparr>p_core := snd (unserialize api (state_buffer n (state_buffer n d)) (p_core ?p4))\<rparr>)"
    using assms(7,13) u(2) there by (intro State_read_ok) simp_all
  moreover have "mn_discs p3 = []" using assms(12) u(5) same by (simp add: same_menu_def)
  ultimately show ?thesis using p3 slot u(2) by (simp add: Menu_loadState_def)
qed

section \<open>Sleep and the launcher\<close>

text \<open>autoResume launches whatever is there to be launched.\<close>

lemma autoResume_launches:
  assumes "fs_files (m_fs m) AUTO_RESUME_PATH = Some rel" "nul_free rel" "length (SDCARD_PATH @ rel) < 256"
    and "fs = unlink (m_fs m) AUTO_RESUME_PATH" "exists fs (SDCARD_PATH @ rel)"
    and "Lodor_romTag (SDCARD_PATH @ rel) = Some tag" "Lodor_resolveEmu fs (SDCARD_PATH @ rel) = Some (pak, core)"
    and "exists fs pak" "launch_command tag pak (SDCARD_PATH @ rel) core = Some cmd"
  shows "autoResume m = Some (True, queueNext (m\<lparr>m_core_override := core, m_fs := putFile fs RESUME_SLOT_PATH ''9''\<rparr>) cmd)"
proof -
  have nine: "c_int AUTO_RESUME_SLOT = ''9''" by code_simp
  have "c_str (c_trunc 256 rel) = rel" using assms(2,3) by (simp add: c_trunc_id c_str_id)
  then have "exists (m_fs m) AUTO_RESUME_PATH" "getFile (m_fs m) AUTO_RESUME_PATH 256 = Some rel"
    using assms(1) by (simp_all add: exists_def getFile_def)
  moreover have "c_buf 256 (SDCARD_PATH @ rel) = Some (SDCARD_PATH @ rel)" using assms(3) by (simp add: c_buf_def)
  ultimately show ?thesis using assms(4-9) nine
    by (simp add: autoResume_def putInt_def Let_def)
qed

lemma fs_files_unlink: "fs_files (unlink fs p) q = (if p = q then None else fs_files fs q)"
  by (simp add: unlink_def)

lemma memory_write_same:
  "memory_write api i room path p = Some p' \<Longrightarrow> p_core p' = p_core p \<and> same_menu p p' \<and> p_state_slot p' = p_state_slot p"
  by (auto simp: memory_write_def same_menu_def Let_def elim!: bind_Some_elim split: if_splits)

text \<open>After going to sleep the state of slot 9 and the request are on the card.\<close>

lemma Menu_beforeSleep_files:
  assumes "Menu_beforeSleep api ci room shot p = Some p'" "serialize_size api (p_core p) = n" "0 < n"
    and "serialize api (p_core p) = (Some d, c)" "n \<le> room"
    and "State_getPath MAX_PATH ci (p_game p) AUTO_RESUME_SLOT = Some f" "fs_writable (p_fs p) f"
    and "length (mn_dir p @ ''/'' @ g_name (p_game p) @ ''.auto.bmp'') < MAX_PATH"
    and "g_path (p_game p) = SDCARD_PATH @ rel" "fs_writable (p_fs p) AUTO_RESUME_PATH"
  shows "fs_files (p_fs p') f = Some (state_buffer n d) \<and> fs_files (p_fs p') AUTO_RESUME_PATH = Some rel
    \<and> fs_writable (p_fs p') = fs_writable (p_fs p)"
proof -
  obtain p1 p2 p3 where w: "SRAM_write api ci room p = Some p1" "RTC_write api ci room p1 = Some p2"
    "State_autosave api ci room shot p2 = Some p3"
    "p' = p3\<lparr>p_fs := putFile (p_fs p3) AUTO_RESUME_PATH (drop (length SDCARD_PATH) (g_path (p_game p3)))\<rparr>"
    using assms(1) by (auto simp: Menu_beforeSleep_def c_ok_def elim!: bind_Some_elim split: if_splits)
  have s: "p_core p2 = p_core p" "same_menu p p2"
    using w(1,2) memory_write_same same_menu_trans unfolding SRAM_write_def RTC_write_def by metis+
  have slot: "slot_ok AUTO_RESUME_SLOT" by (simp add: slot_ok_def AUTO_RESUME_SLOT_def)
  let ?p2 = "p2\<lparr>p_state_slot := AUTO_RESUME_SLOT\<rparr>"
  have "State_write api ci room ?p2 = Some (?p2\<lparr>p_core := c, p_fs := putFile (p_fs ?p2) f (state_buffer n d)\<rparr>)"
    using assms(2-7) s by (intro State_write_ok) (simp_all add: same_menu_def)
  then have p3: "p3 = Lodor_writeAutoShot shot (p2\<lparr>p_core := c, p_fs := putFile (p_fs p2) f (state_buffer n d)\<rparr>)"
    using w(3) by (simp add: State_autosave_def Let_def)
  let ?shot = "mn_dir p @ ''/'' @ g_name (p_game p) @ ''.auto.bmp''"
  have shot: "f \<noteq> ?shot" "f \<noteq> AUTO_RESUME_PATH"
    using letter_path [OF slot assms(6)] fixed_paths_last by simp_all
  have "p_fs p3 = putFile (p_fs p2) f (state_buffer n d)
      \<or> (\<exists>b. p_fs p3 = putFile (putFile (p_fs p2) f (state_buffer n d)) ?shot b)"
    using s(2) assms(8) by (auto simp: p3 Lodor_writeAutoShot_def same_menu_def c_trunc_id split: option.splits)
  moreover have "fs_writable (p_fs p2) = fs_writable (p_fs p)" "g_path (p_game p3) = g_path (p_game p)"
    using s(2) by (auto simp: same_menu_def p3 Lodor_writeAutoShot_def split: option.splits)
  ultimately show ?thesis
    using w(4) shot assms(7,9,10) by (auto simp: fstore.rd_wr)
qed

text \<open>
  C25. A game that was put to sleep goes on where it was, across the player, the launcher and the
  player again: when the device is switched on and the game and the pak that Lodor_resolveEmu gives
  for it are on the card, the launcher's autoResume quits with the launch of exactly that game
  queued, and whatever player it starts on that card gives the core the state serialized before
  sleep, restores the chosen slot, and takes back the request, so that it is not resumed again.
\<close>

theorem quicksave_resumes:
  assumes "Menu_beforeSleep api ci room shot p = Some p1" "serialize_size api (p_core p) = n" "0 < n"
    and "serialize api (p_core p) = (Some d, c)" "n \<le> room"
    and "State_getPath MAX_PATH ci (p_game p) AUTO_RESUME_SLOT = Some f" "fs_writable (p_fs p) f"
    and "length (mn_dir p @ ''/'' @ g_name (p_game p) @ ''.auto.bmp'') < MAX_PATH"
    and "g_path (p_game p) = SDCARD_PATH @ rel" "nul_free rel" "length (g_path (p_game p)) < 256"
    and "fs_writable (p_fs p) AUTO_RESUME_PATH" "fs_writable (p_fs p) RESUME_SLOT_PATH" "fs_writable (p_fs p) NEXT_PATH"
    and "m_fs m = p_fs p1" "boot = unlink (p_fs p1) AUTO_RESUME_PATH" "exists boot (g_path (p_game p))"
    and "Lodor_romTag (g_path (p_game p)) = Some tag" "Lodor_resolveEmu boot (g_path (p_game p)) = Some (pak, core)"
    and "exists boot pak" "launch_command tag pak (g_path (p_game p)) core = Some cmd"
  shows "\<exists>m'. autoResume m = Some (True, m') \<and> m_quit m' \<and> fs_files (m_fs m') NEXT_PATH = Some cmd
    \<and> sh_words cmd = Some ([''LODOR_ROM_TAG='' @ tag]
        @ (if core = [] then [] else [''LODOR_CORE_OVERRIDE='' @ core]) @ [pak, g_path (p_game p)])
    \<and> (\<forall>q. p_fs q = m_fs m' \<and> g_name (p_game q) = g_name (p_game p) \<and> serialize_size api (p_core q) = n \<longrightarrow>
        (\<exists>q'. State_resume api ci q = Some q' \<and> p_core q' = snd (unserialize api (state_buffer n d) (p_core q))
          \<and> p_state_slot q' = p_state_slot q \<and> fs_files (p_fs q') RESUME_SLOT_PATH = None
          \<and> fs_files (p_fs q') AUTO_RESUME_PATH = None))"
proof -
  have files: "fs_files (m_fs m) f = Some (state_buffer n d)" "fs_files (m_fs m) AUTO_RESUME_PATH = Some rel"
    "fs_writable (m_fs m) = fs_writable (p_fs p)"
    using Menu_beforeSleep_files [OF assms(1-9,12)] assms(15) by simp_all
  define m' where "m' = queueNext (m\<lparr>m_core_override := core, m_fs := putFile boot RESUME_SLOT_PATH ''9''\<rparr>) cmd"
  have run: "autoResume m = Some (True, m')" unfolding m'_def
    by (rule autoResume_launches [OF files(2) assms(10)]) (use assms(9,11,15-21) in simp_all)
  have fs: "m_fs m' = putFile (putFile boot RESUME_SLOT_PATH ''9'') NEXT_PATH cmd" "m_quit m'"
    by (simp_all add: m'_def queueNext_def)
  have slot: "slot_ok AUTO_RESUME_SLOT" by (simp add: slot_ok_def AUTO_RESUME_SLOT_def)
  have differ: "f \<noteq> AUTO_RESUME_PATH" "f \<noteq> RESUME_SLOT_PATH" "f \<noteq> NEXT_PATH"
    using letter_path [OF slot assms(6)] fixed_paths_last by simp_all
  have paths: "RESUME_SLOT_PATH \<noteq> NEXT_PATH" "AUTO_RESUME_PATH \<noteq> RESUME_SLOT_PATH" "AUTO_RESUME_PATH \<noteq> NEXT_PATH"
    by code_simp+
  have wr: "fs_writable boot = fs_writable (p_fs p)" using files(3) assms(15,16) by (simp add: unlink_def)
  have after: "fs_files (m_fs m') f = Some (state_buffer n d)" "fs_files (m_fs m') RESUME_SLOT_PATH = Some ''9''"
    "fs_files (m_fs m') NEXT_PATH = Some cmd" "fs_files (m_fs m') AUTO_RESUME_PATH = None"
    using differ paths wr assms(13-16) files(1) by (simp_all add: fs fstore.rd_wr fs_files_unlink)
  have nine: "scan_i ''9'' = AUTO_RESUME_SLOT" by code_simp
  have resumed: "\<exists>q'. State_resume api ci q = Some q' \<and> p_core q' = snd (unserialize api (state_buffer n d) (p_core q))
          \<and> p_state_slot q' = p_state_slot q \<and> fs_files (p_fs q') RESUME_SLOT_PATH = None
          \<and> fs_files (p_fs q') AUTO_RESUME_PATH = None"
    if q: "p_fs q = m_fs m'" "g_name (p_game q) = g_name (p_game p)" "serialize_size api (p_core q) = n" for q
  proof -
    let ?q = "q\<lparr>p_state_slot := AUTO_RESUME_SLOT, p_fs := unlink (p_fs q) RESUME_SLOT_PATH\<rparr>"
    have "State_getPath MAX_PATH ci (p_game ?q) (p_state_slot ?q) = Some f"
      using assms(6) q(2) by (simp add: State_getPath_def)
    then have "State_read api ci ?q = Some (?q\<lparr>p_core := snd (unserialize api (state_buffer n (state_buffer n d)) (p_core ?q))\<rparr>)"
      using assms(3) q(1,3) after(1) differ(2) by (intro State_read_ok) (auto simp: fs_files_unlink)
    moreover have "exists (p_fs q) RESUME_SLOT_PATH" "getInt (p_fs q) RESUME_SLOT_PATH = AUTO_RESUME_SLOT"
      using after(2) nine q(1) by (simp_all add: exists_def getInt_def)
    ultimately have "State_resume api ci q
        = Some (?q\<lparr>p_core := snd (unserialize api (state_buffer n d) (p_core q)), p_state_slot := p_state_slot q\<rparr>)"
      by (simp add: State_resume_def Let_def)
    then show ?thesis using after(4) q(1) by (auto simp: fs_files_unlink)
  qed
  show ?thesis
    using run fs(2) after(3) launch_words [OF assms(21)] resumed by (intro exI [of _ m']) simp
qed

section \<open>Witnesses\<close>

text \<open>A core whose state is a text of up to two characters, with a battery and a clock of two bytes.\<close>

definition demo_api :: "(string \<times> string \<times> string) libretro" where
  "demo_api = \<lparr>serialize_size = \<lambda>c. 2, serialize = \<lambda>(s, a, b). (Some s, (s, a, b)),
     unserialize = \<lambda>d (s, a, b). (True, (c_str d, a, b)), get_memory_size = \<lambda>i c. 2,
     get_memory_data = \<lambda>i (s, a, b). Some (case i of RETRO_MEMORY_SAVE_RAM \<Rightarrow> a | RETRO_MEMORY_RTC \<Rightarrow> b),
     set_memory_data = \<lambda>i d (s, a, b). (case i of RETRO_MEMORY_SAVE_RAM \<Rightarrow> (s, d, b) | RETRO_MEMORY_RTC \<Rightarrow> (s, a, d)),
     replace_image = \<lambda>i c. c\<rparr>"

definition demo_player :: "string \<times> string \<times> string \<Rightarrow> (string \<times> string \<times> string) player" where
  "demo_player c = \<lparr>p_fs = m_fs one_rom, p_core = c,
     p_game = \<lparr>g_path = ''/mnt/SDCARD/Roms/GB (GB)/a.gb'', g_name = ''a.gb'', g_m3u_path = [], g_tmp_path = [],
       g_data = None, g_is_open = True\<rparr>,
     p_state_slot = 0, mn_dir = ''/m'', mn_slot_path = ''/m/a.gb.txt'', mn_bmp_path = [], mn_txt_path = [], mn_base = [],
     mn_discs = [], mn_disc = -1, mn_slot = 3, mn_save_exists = False, mn_preview_exists = False\<rparr>"

theorem battery_saves_restored_witness:
  "\<exists>p1 p2. SRAM_write demo_api demo_ci 9 (demo_player (''s'', ''ab'', ''cd'')) = Some p1 \<and> RTC_write demo_api demo_ci 9 p1 = Some p2
    \<and> Option.bind (SRAM_read demo_api demo_ci (p2\<lparr>p_core := (''t'', ''xx'', ''yy'')\<rparr>)) (RTC_read demo_api demo_ci)
      = Some (p2\<lparr>p_core := (''t'', ''ab'', ''cd'')\<rparr>)"
proof -
  let ?p = "demo_player (''s'', ''ab'', ''cd'')" and ?c = "(''t'', ''xx'', ''yy'')"
  have s: "saveable demo_api RETRO_MEMORY_SAVE_RAM 9 (SRAM_getPath demo_ci (p_game ?p)) ?p ''/v/a.gb.sav'' ''ab''"
    "saveable demo_api RETRO_MEMORY_RTC 9 (RTC_getPath demo_ci (p_game ?p)) ?p ''/v/a.gb.rtc'' ''cd''"
    by code_simp+
  have c: "get_memory_size demo_api RETRO_MEMORY_SAVE_RAM ?c = length ''ab''" "get_memory_data demo_api RETRO_MEMORY_SAVE_RAM ?c = Some ''xx''"
    "length ''xx'' = length ''ab''" "(''t'', ''ab'', ''yy'') = set_memory_data demo_api RETRO_MEMORY_SAVE_RAM ''ab'' ?c"
    "get_memory_size demo_api RETRO_MEMORY_RTC (''t'', ''ab'', ''yy'') = length ''cd''"
    "get_memory_data demo_api RETRO_MEMORY_RTC (''t'', ''ab'', ''yy'') = Some ''yy''" "length ''yy'' = length ''cd''"
    by (simp_all add: demo_api_def)
  have "set_memory_data demo_api RETRO_MEMORY_RTC ''cd'' (''t'', ''ab'', ''yy'') = (''t'', ''ab'', ''cd'')" by (simp add: demo_api_def)
  with battery_saves_restored [OF s c] show ?thesis by simp
qed

definition saved_player :: "(string \<times> string \<times> string) player" where
  "saved_player = (case Menu_saveState demo_api demo_ci 9 ''B'' (demo_player (''s'', ''ab'', ''cd'')) of Some p \<Rightarrow> p)"

definition saved_later :: "(string \<times> string \<times> string) player" where
  "saved_later = (case menu_saves demo_api demo_ci 9 [(4, (''z'', [], []), ''C'')] saved_player of Some p \<Rightarrow> p)"

theorem menu_state_restored_witness:
  "\<exists>p3. Menu_loadState doubling () demo_env demo_api demo_ci (saved_later\<lparr>mn_slot := 3, p_core := (''u'', ''x'', ''y'')\<rparr>) = Some p3
    \<and> p_core p3 = (''s'', ''x'', ''y'')"
proof -
  let ?p = "demo_player (''s'', ''ab'', ''cd'')"
  have "Menu_saveState demo_api demo_ci 9 ''B'' ?p \<noteq> None" "menu_saves demo_api demo_ci 9 [(4, (''z'', [], []), ''C'')] saved_player \<noteq> None"
    by code_simp+
  then have run: "Menu_saveState demo_api demo_ci 9 ''B'' ?p = Some saved_player"
    "menu_saves demo_api demo_ci 9 [(4, (''z'', [], []), ''C'')] saved_player = Some saved_later"
    by (auto simp: saved_player_def saved_later_def)
  have ok: "last (mn_slot_path ?p) = CHR ''t''" "slot_ok (mn_slot ?p)"
    "State_getPath MAX_PATH demo_ci (p_game ?p) (mn_slot ?p) = Some ''/s/a.gb.st3''" "fs_writable (p_fs ?p) ''/s/a.gb.st3''"
    "serialize_size demo_api (p_core ?p) = 2" "(0::nat) < 2"
    "serialize demo_api (p_core ?p) = (Some ''s'', (''s'', ''ab'', ''cd''))" "2 \<le> (9::nat)"
    "list_all (\<lambda>(slot, _). slot_ok slot \<and> slot \<noteq> mn_slot ?p) [(4, (''z'', ''''::string, ''''::string), ''C'')]" "mn_discs ?p = []"
    "serialize_size demo_api (''u'', ''x'', ''y'') = 2"
    by code_simp+
  have slot: "mn_slot ?p = 3" by code_simp
  have "snd (unserialize demo_api (state_buffer 2 ''s'') (''u'', ''x'', ''y'')) = (''s'', ''x'', ''y'')" by code_simp
  with menu_state_restored [OF run(1) ok(1-8) run(2) ok(9-11)] slot show ?thesis by simp
qed

definition asleep :: "(string \<times> string \<times> string) player" where
  "asleep = (case Menu_beforeSleep demo_api demo_ci 9 (Some ''B'') (demo_player (''s'', ''ab'', ''cd'')) of Some p \<Rightarrow> p)"

theorem quicksave_resumes_witness:
  "\<exists>m' q'. autoResume (one_rom\<lparr>m_fs := p_fs asleep\<rparr>) = Some (True, m')
    \<and> State_resume demo_api demo_ci ((demo_player ([], ''x'', ''y''))\<lparr>p_fs := m_fs m'\<rparr>) = Some q' \<and> p_core q' = (''s'', ''x'', ''y'')"
proof -
  let ?p = "demo_player (''s'', ''ab'', ''cd'')"
  have "Menu_beforeSleep demo_api demo_ci 9 (Some ''B'') ?p \<noteq> None" by code_simp
  then have run: "Menu_beforeSleep demo_api demo_ci 9 (Some ''B'') ?p = Some asleep" by (auto simp: asleep_def)
  have a: "serialize_size demo_api (p_core ?p) = 2" "(0::nat) < 2" "serialize demo_api (p_core ?p) = (Some ''s'', (''s'', ''ab'', ''cd''))"
    "2 \<le> (9::nat)" "State_getPath MAX_PATH demo_ci (p_game ?p) AUTO_RESUME_SLOT = Some ''/s/a.gb.st9''"
    "fs_writable (p_fs ?p) ''/s/a.gb.st9''" "length (mn_dir ?p @ ''/'' @ g_name (p_game ?p) @ ''.auto.bmp'') < MAX_PATH"
    "g_path (p_game ?p) = SDCARD_PATH @ ''/Roms/GB (GB)/a.gb''" "nul_free ''/Roms/GB (GB)/a.gb''" "length (g_path (p_game ?p)) < 256"
    "fs_writable (p_fs ?p) AUTO_RESUME_PATH" "fs_writable (p_fs ?p) RESUME_SLOT_PATH" "fs_writable (p_fs ?p) NEXT_PATH"
    by code_simp+
  let ?boot = "unlink (p_fs asleep) AUTO_RESUME_PATH" and ?pak = "''/mnt/SDCARD/.system/miyoomini/paks/Emus/GB.pak/launch.sh''"
  have b: "exists ?boot (g_path (p_game ?p))" "Lodor_romTag (g_path (p_game ?p)) = Some ''GB''"
    "Lodor_resolveEmu ?boot (g_path (p_game ?p)) = Some (?pak, [])" "exists ?boot ?pak" by code_simp+
  have "launch_command ''GB'' ?pak (g_path (p_game ?p)) [] \<noteq> None" by code_simp
  then obtain cmd where cmd: "launch_command ''GB'' ?pak (g_path (p_game ?p)) [] = Some cmd" by blast
  have "m_fs (one_rom\<lparr>m_fs := p_fs asleep\<rparr>) = p_fs asleep" by simp
  from quicksave_resumes [OF run a this refl b cmd] obtain m' where
    m': "autoResume (one_rom\<lparr>m_fs := p_fs asleep\<rparr>) = Some (True, m')"
    and later: "\<forall>q. p_fs q = m_fs m' \<and> g_name (p_game q) = g_name (p_game ?p) \<and> serialize_size demo_api (p_core q) = 2 \<longrightarrow>
      (\<exists>q'. State_resume demo_api demo_ci q = Some q' \<and> p_core q' = snd (unserialize demo_api (state_buffer 2 ''s'') (p_core q)))"
    by blast
  let ?q = "(demo_player ([], ''x'', ''y''))\<lparr>p_fs := m_fs m'\<rparr>"
  have q: "p_fs ?q = m_fs m'" "g_name (p_game ?q) = g_name (p_game ?p)" "serialize_size demo_api (p_core ?q) = 2"
    by (simp_all add: demo_player_def demo_api_def)
  have core: "p_core ?q = ([], ''x'', ''y'')" by (simp add: demo_player_def)
  have "snd (unserialize demo_api (state_buffer 2 ''s'') ([], ''x'', ''y'')) = (''s'', ''x'', ''y'')" by code_simp
  then show ?thesis using m' later [rule_format, of ?q] q core by auto
qed

text \<open>
  Loading a state of another disc swaps the disc but not the menu's index: the next state that is saved
  is recorded with the disc that was in before, and loading it swaps to the wrong one.
\<close>

definition two_disc_player :: "(string \<times> string \<times> string) player" where
  "two_disc_player = (demo_player (''s'', ''ab'', ''cd''))\<lparr>
     p_fs := \<lparr>fs_files = map_of [(''/g/FF/FF.m3u'', ''1.cue'' @ [NL] @ ''2.cue''), (''/g/FF/1.cue'', ''x''), (''/g/FF/2.cue'', ''y''),
         (''/s/FF.m3u.st3'', ''s''), (''/m/FF.m3u.3.txt'', ''2.cue'')],
       fs_dirs = map_of [], fs_writable = \<lambda>_. True\<rparr>,
     p_game := \<lparr>g_path = ''/g/FF/1.cue'', g_name = ''FF.m3u'', g_m3u_path = ''/g/FF/FF.m3u'', g_tmp_path = [],
       g_data = None, g_is_open = True\<rparr>,
     mn_base := ''/g/FF/'', mn_discs := [''/g/FF/1.cue'', ''/g/FF/2.cue''], mn_disc := 0\<rparr>"

theorem load_forgets_disc:
  "map_option (\<lambda>p. (g_path (p_game p), fs_files (p_fs p) ''/m/FF.m3u.4.txt''))
     (Option.bind (Menu_loadState doubling () demo_env demo_api demo_ci two_disc_player)
       (\<lambda>p. Menu_saveState demo_api demo_ci 9 ''B'' (p\<lparr>mn_slot := 4\<rparr>)))
   = Some (''/g/FF/2.cue'', Some ''1.cue'')"
  by code_simp

end
