(* ===== verification/Cheats.thy ===== *)
theory Cheats
  imports SaveStates
begin

text \<open>
  The cheats of the player (workspace/all/minarch/minarch.c): the parser of .cht files
  (Lodor_chtValue, Lodor_cheatsParse), the enabled set kept beside the save states
  (Lodor_cheatsSidecarLoad, Lodor_cheatsSidecarSave), what the core is told (Lodor_cheatsApply), the
  discovery of the file (Lodor_cheatsInit) and the toggle of the menu (LodorCheats_onChange).

  Memory for a string is always there. The table has LODOR_CHEAT_MAX places; an access outside is None.
\<close>

section \<open>Values and lines\<close>

definition LODOR_CHEAT_MAX :: nat where "LODOR_CHEAT_MAX = 128"
definition LODOR_CHEAT_DESC_MAX :: nat where "LODOR_CHEAT_DESC_MAX = 256"
definition LODOR_CHEAT_CODE_MAX :: nat where "LODOR_CHEAT_CODE_MAX = 1024"

record cheat =
  ch_desc :: "string option"
  ch_code :: "string option"
  ch_enabled :: bool

definition no_cheat :: cheat where
  "no_cheat = \<lparr>ch_desc = None, ch_code = None, ch_enabled = False\<rparr>"

definition player_stripMarker :: "string \<Rightarrow> string" where
  "player_stripMarker base =
    (case find (\<lambda>m. strncmp base m (length m) = 0)
        [[CHR 0xE2, CHR 0x9C, CHR 0x93, CHR '' ''], [CHR 0xE2, CHR 0x9C, CHR 0x98, CHR '' ''], ''[v] '', ''[^] ''] of
       Some m \<Rightarrow> drop (length m) base
     | None \<Rightarrow> base)"

definition CH_QUOTE :: char where "CH_QUOTE = CHR 0x22"
definition CH_BACKSLASH :: char where "CH_BACKSLASH = CHR 0x5C"

fun unquote :: "string \<Rightarrow> string" where
  "unquote [] = []"
| "unquote (c # cs) =
    (if c = CH_QUOTE then []
     else if c = CH_BACKSLASH then (case cs of [] \<Rightarrow> [c] | d # ds \<Rightarrow> d # unquote ds)
     else c # unquote cs)"

definition trim_space :: "string \<Rightarrow> string" where
  "trim_space s = rev (dropWhile c_isspace (rev (dropWhile c_isspace s)))"

definition Lodor_chtValue :: "string \<Rightarrow> string" where
  "Lodor_chtValue v =
    (case trim_space v of
       [] \<Rightarrow> []
     | c # cs \<Rightarrow> if c = CH_QUOTE then unquote cs else c # cs)"

text \<open>The conversion %u of sscanf: white space, a sign, decimal digits; unsigned long wraps and saturates.\<close>

definition scan_u :: "string \<Rightarrow> (nat \<times> string) option" where
  "scan_u s =
    (let t = dropWhile c_isspace s;
         neg = (take 1 t = ''-'');
         u = (if neg \<or> take 1 t = ''+'' then drop 1 t else t);
         ds = takeWhile c_isdigit u;
         n = digits_val 0 ds in
     if ds = [] then None
     else Some (if 2 ^ 32 \<le> n then 2 ^ 32 - 1 else if neg then (2 ^ 32 - n) mod 2 ^ 32 else n,
                dropWhile c_isdigit u))"

text \<open>sscanf (key, "cheat%u_%31s") with both conversions done.\<close>

definition cheat_key :: "string \<Rightarrow> (nat \<times> string) option" where
  "cheat_key key =
    (if take 5 key \<noteq> ''cheat'' then None
     else do {
       (idx, rest) \<leftarrow> scan_u (drop 5 key);
       (case rest of
          [] \<Rightarrow> None
        | c # cs \<Rightarrow>
            let field = take 31 (takeWhile (\<lambda>c. \<not> c_isspace c) (dropWhile c_isspace cs)) in
            if c = CHR ''_'' \<and> field \<noteq> [] then Some (idx, field) else None)
     })"

text \<open>The lines of the file: what is over the buffer of 2048 bytes is swallowed up to the next newline.\<close>

function cht_lines :: "string \<Rightarrow> string list" where
  "cht_lines s =
    (if s = [] then []
     else
       let n = fgets_len 2048 s; line = c_str (take n s); rest = drop n s in
       if length line = 2047 \<and> last line \<noteq> NL
       then line # cht_lines (drop 1 (dropWhile (\<lambda>c. c \<noteq> NL) rest))
       else line # cht_lines rest)"
  by pat_completeness auto
termination
proof (relation "measure length", goal_cases)
  case (2 s n line rest)
  have "length (drop 1 (dropWhile (\<lambda>c. c \<noteq> NL) rest)) \<le> length rest"
    using length_dropWhile_le [of "\<lambda>c. c \<noteq> NL" rest] by simp
  moreover have "length rest < length s" using 2 by (auto simp: fgets_len_def)
  ultimately show ?case by simp
qed (auto simp: fgets_len_def)

declare cht_lines.simps [simp del]

section \<open>The table\<close>

definition set_desc :: "string \<Rightarrow> cheat \<Rightarrow> cheat" where
  "set_desc v c = c\<lparr>ch_desc := Some (c_trunc LODOR_CHEAT_DESC_MAX v)\<rparr>"

definition set_code :: "string \<Rightarrow> cheat \<Rightarrow> cheat" where
  "set_code v c = c\<lparr>ch_code := Some (c_trunc LODOR_CHEAT_CODE_MAX v)\<rparr>"

definition set_enable :: "string \<Rightarrow> cheat \<Rightarrow> cheat" where
  "set_enable v c = c\<lparr>ch_enabled := (strcasecmp v ''true'' = 0 \<or> v = ''1'')\<rparr>"

text \<open>What a line does to the table and to the highest index seen.\<close>

definition cheat_line :: "string \<Rightarrow> cheat list \<times> int \<Rightarrow> cheat list \<times> int" where
  "cheat_line raw acc =
    (let (items, max_seen) = acc; line = clean_line raw in
     case strchr line (CHR ''='') of
       None \<Rightarrow> acc
     | Some eq \<Rightarrow>
         let key = trim_space (take eq line); val = Lodor_chtValue (drop (Suc eq) line) in
         case cheat_key key of
           None \<Rightarrow> acc
         | Some (idx, field) \<Rightarrow>
             if LODOR_CHEAT_MAX \<le> idx then acc
             else
               let put = (\<lambda>c. (items[idx := c], if max_seen < int idx then int idx else max_seen)); c = items ! idx in
               if field = ''desc'' then (if val = [] then acc else put (set_desc val c))
               else if field = ''code'' then (if val = [] then acc else put (set_code val c))
               else if field = ''enable'' \<or> field = ''enabled'' then put (set_enable val c)
               else acc)"

text \<open>
  Compacting in place: r runs over the places up to the highest one, w is where the next cheat with a
  code goes.
\<close>

definition compact_step :: "nat \<Rightarrow> cheat list \<times> nat \<Rightarrow> cheat list \<times> nat" where
  "compact_step r acc =
    (let (items, w) = acc; c = items ! r in
     case ch_code c of
       None \<Rightarrow> (items[r := c\<lparr>ch_desc := None, ch_enabled := False\<rparr>], w)
     | Some _ \<Rightarrow>
         let c = (case ch_desc c of
                    None \<Rightarrow> c\<lparr>ch_desc := Some (c_trunc LODOR_CHEAT_DESC_MAX (c_trunc 32 (''Cheat '' @ c_int (int r + 1))))\<rparr>
                  | Some _ \<Rightarrow> c);
             items = items[r := c] in
         (if w \<noteq> r then items[w := c, r := no_cheat] else items, w + 1))"

record cheats =
  ct_count :: nat
  ct_item :: "cheat list"
  ct_sidecar :: string

definition skip_bom :: "string \<Rightarrow> string" where
  "skip_bom s = (if take 3 s = [CHR 0xEF, CHR 0xBB, CHR 0xBF] then drop 3 s else s)"

definition Lodor_cheatsParse :: "fsys \<Rightarrow> string \<Rightarrow> cheats \<Rightarrow> nat \<times> cheats" where
  "Lodor_cheatsParse fs path t =
    (case fs_files fs path of
       None \<Rightarrow> (0, t)
     | Some content \<Rightarrow>
         let (items, max_seen) = fold cheat_line (cht_lines (skip_bom content)) (ct_item t, -1);
             (items, w) = fold compact_step [0 ..< nat (max_seen + 1)] (items, 0)
         in (w, t\<lparr>ct_item := items, ct_count := w\<rparr>))"

definition Lodor_cheatsFree :: "cheats \<Rightarrow> cheats" where
  "Lodor_cheatsFree t = t\<lparr>ct_item := replicate LODOR_CHEAT_MAX no_cheat, ct_count := 0\<rparr>"

section \<open>The enabled set\<close>

definition enable_named :: "string list \<Rightarrow> cheat \<Rightarrow> cheat" where
  "enable_named lines c = c\<lparr>ch_enabled := list_ex (\<lambda>l. ch_desc c = Some l) lines\<rparr>"

text \<open>The sidecar decides for the whole set; places from count on are not touched.\<close>

definition Lodor_cheatsSidecarLoad :: "fsys \<Rightarrow> cheats \<Rightarrow> cheats" where
  "Lodor_cheatsSidecarLoad fs t =
    (if ct_sidecar t = [] then t
     else
       case fs_files fs (ct_sidecar t) of
         None \<Rightarrow> t
       | Some content \<Rightarrow>
           let lines = read_lines (LODOR_CHEAT_DESC_MAX + 16) content in
           t\<lparr>ct_item := map (enable_named lines) (take (ct_count t) (ct_item t)) @ drop (ct_count t) (ct_item t)\<rparr>)"

definition sidecar_text :: "cheats \<Rightarrow> string" where
  "sidecar_text t = concat (map (\<lambda>c. case ch_desc c of None \<Rightarrow> [] | Some d \<Rightarrow> d @ [NL])
     (filter ch_enabled (take (ct_count t) (ct_item t))))"

text \<open>
  The file is written next to the sidecar and renamed; room is what the card takes of it, which nothing
  checks. The directory is made when it is missing.
\<close>

definition Lodor_cheatsSidecarSave :: "nat \<Rightarrow> fsys \<Rightarrow> cheats \<Rightarrow> fsys" where
  "Lodor_cheatsSidecarSave room fs t =
    (if ct_sidecar t = [] then fs
     else
       let tmp = c_trunc (MAX_PATH + 8) (ct_sidecar t @ ''.tmp'') in
       if \<not> fs_writable fs tmp then fs
       else fs\<lparr>fs_files := (fs_files fs)(tmp := None, ct_sidecar t \<mapsto> take room (sidecar_text t))\<rparr>)"

text \<open>What the core is told: a reset, then the enabled cheats by their place.\<close>

datatype cheat_call = Cheat_Reset | Cheat_Set nat string

definition Lodor_cheatsApply :: "bool \<Rightarrow> cheats \<Rightarrow> cheat_call list" where
  "Lodor_cheatsApply has_api t =
    (if ct_count t = 0 \<or> \<not> has_api then []
     else Cheat_Reset # concat (map (\<lambda>i. let c = ct_item t ! i in
        if ch_enabled c then [Cheat_Set i (case ch_code c of None \<Rightarrow> [] | Some code \<Rightarrow> code)] else []) [0 ..< ct_count t]))"

definition cheats_path :: "fsys \<Rightarrow> string \<Rightarrow> string \<Rightarrow> string option" where
  "cheats_path fs cheats_dir stripped =
    (let path = c_trunc MAX_PATH (cheats_dir @ ''/'' @ stripped @ ''.cht'') in
     if exists fs path then Some path
     else
       let stem = (case strrchr stripped (CHR ''.'') of None \<Rightarrow> stripped | Some i \<Rightarrow> take i stripped);
           path = c_trunc MAX_PATH (cheats_dir @ ''/'' @ stem @ ''.cht'') in
       if exists fs path then Some path else None)"

definition Lodor_cheatsInit :: "string option \<Rightarrow> string \<Rightarrow> fsys \<Rightarrow> game \<Rightarrow> cheats \<Rightarrow> cheats option" where
  "Lodor_cheatsInit env cheats_dir fs g t =
    (let t = t\<lparr>ct_count := 0, ct_sidecar := []\<rparr> in
     if g_name g = [] then Some t
     else
       let stripped = c_trunc MAX_PATH (player_stripMarker (g_name g)) in
       case cheats_path fs cheats_dir stripped of
         None \<Rightarrow> Some t
       | Some path \<Rightarrow>
           let (n, t) = Lodor_cheatsParse fs path t in
           if n = 0 then Some (Lodor_cheatsFree t)
           else do {
             emu_name \<leftarrow> Lodor_tagName env (g_path g) MAX_PATH;
             let t = t\<lparr>ct_sidecar := c_trunc MAX_PATH (SHARED_USERDATA_PATH @ ''/.minui/'' @ emu_name @ ''/'' @ stripped @ ''.cheats.txt'')\<rparr>;
             Some (Lodor_cheatsSidecarLoad fs t)
           })"

text \<open>The toggle of the menu: the calls of the core, the card and the table after it.\<close>

definition LodorCheats_onChange :: "bool \<Rightarrow> nat \<Rightarrow> int \<Rightarrow> bool \<Rightarrow> fsys \<Rightarrow> cheats \<Rightarrow> cheat_call list \<times> fsys \<times> cheats" where
  "LodorCheats_onChange has_api room i val fs t =
    (if i < 0 \<or> int (ct_count t) \<le> i then ([], fs, t)
     else
       let t = t\<lparr>ct_item := (ct_item t)[nat i := (ct_item t ! nat i)\<lparr>ch_enabled := val\<rparr>]\<rparr> in
       (Lodor_cheatsApply has_api t, Lodor_cheatsSidecarSave room fs t, t))"

section \<open>Compacting\<close>

definition named :: "nat \<Rightarrow> cheat \<Rightarrow> cheat" where
  "named r c = (case ch_desc c of
     None \<Rightarrow> c\<lparr>ch_desc := Some (c_trunc LODOR_CHEAT_DESC_MAX (c_trunc 32 (''Cheat '' @ c_int (int r + 1))))\<rparr>
   | Some _ \<Rightarrow> c)"

definition kept :: "cheat list \<Rightarrow> nat \<Rightarrow> cheat list" where
  "kept items k = map (\<lambda>r. named r (items ! r)) (filter (\<lambda>r. ch_code (items ! r) \<noteq> None) [0 ..< k])"

lemma length_kept: "length (kept items k) \<le> k"
  unfolding kept_def length_map by (rule order_trans [OF length_filter_le]) simp

lemma compact_kept:
  "k \<le> length items \<Longrightarrow> fold compact_step [0 ..< k] (items, 0)
    = (kept items k @ replicate (k - length (kept items k)) no_cheat @ drop k items, length (kept items k))"
proof (induction k)
  case 0
  then show ?case by (simp add: kept_def)
next
  case (Suc k)
  let ?w = "length (kept items k)" and ?c = "items ! k"
  let ?items = "kept items k @ replicate (k - ?w) no_cheat @ drop k items"
  have k: "k < length items" "?w \<le> k" using Suc.prems length_kept by auto
  then have "drop k items = ?c # drop (Suc k) items" by (simp add: Cons_nth_drop_Suc)
  then have parts: "?items = (kept items k @ replicate (k - ?w) no_cheat) @ ?c # drop (Suc k) items"
    "length (kept items k @ replicate (k - ?w) no_cheat) = k" using k(2) by simp_all
  have at: "?items ! k = ?c" "?items[k := x] = (kept items k @ replicate (k - ?w) no_cheat) @ x # drop (Suc k) items" for x
    unfolding parts(1) using parts(2) by (simp_all add: nth_append list_update_append)
  have run: "fold compact_step [0 ..< Suc k] (items, 0) = compact_step k (?items, ?w)" using Suc k(1) by simp
  show ?case
  proof (cases "ch_code ?c")
    case None
    then have "?c\<lparr>ch_desc := None, ch_enabled := False\<rparr> = no_cheat" by (simp add: no_cheat_def)
    then have "compact_step k (?items, ?w) = ((kept items k @ replicate (k - ?w) no_cheat) @ no_cheat # drop (Suc k) items, ?w)"
      unfolding compact_step_def Let_def prod.case at(1) using None at(2) by simp
    moreover have "kept items (Suc k) = kept items k" using None by (simp add: kept_def)
    moreover have "replicate (Suc k - ?w) no_cheat = replicate (k - ?w) no_cheat @ [no_cheat]"
      using k(2) by (simp add: Suc_diff_le replicate_append_same)
    ultimately show ?thesis using run by simp
  next
    case (Some code)
    have new: "kept items (Suc k) = kept items k @ [named k ?c]" using Some by (simp add: kept_def)
    have step: "compact_step k (?items, ?w)
        = (if ?w \<noteq> k then ?items[k := named k ?c, ?w := named k ?c, k := no_cheat] else ?items[k := named k ?c], ?w + 1)"
      unfolding compact_step_def Let_def prod.case at(1) using Some by (simp add: named_def)
    show ?thesis
    proof (cases "?w = k")
      case True
      then show ?thesis using run step at(2) new by simp
    next
      case False
      then obtain j where j: "k - ?w = Suc j" "k = Suc (?w + j)" using k(2) by (metis Suc_diff_Suc le_neq_implies_less add_Suc_right le_add_diff_inverse)
      have "?items[k := named k ?c, ?w := named k ?c, k := no_cheat]
          = (kept items k @ named k ?c # replicate j no_cheat) @ no_cheat # drop (Suc k) items"
        unfolding at(2) using j by (simp add: list_update_append)
      then show ?thesis using run step new j False by (simp add: replicate_append_same [symmetric])
    qed
  qed
qed

section \<open>Reading back what is printed\<close>

definition escape :: "string \<Rightarrow> string" where
  "escape s = concat (map (\<lambda>c. if c = CH_QUOTE \<or> c = CH_BACKSLASH then [CH_BACKSLASH, c] else [c]) s)"

lemma unquote_escape: "unquote (escape s @ CH_QUOTE # rest) = s"
  by (induction s) (auto simp: escape_def CH_QUOTE_def CH_BACKSLASH_def)

lemma dropWhile_keeps: "s \<noteq> [] \<Longrightarrow> \<not> P (hd s) \<Longrightarrow> dropWhile P s = s"
  by (cases s) simp_all

lemma trim_space_id: "s \<noteq> [] \<Longrightarrow> \<not> c_isspace (hd s) \<Longrightarrow> \<not> c_isspace (last s) \<Longrightarrow> trim_space s = s"
  by (simp add: trim_space_def dropWhile_keeps hd_rev)

lemma trim_space_around:
  assumes "s \<noteq> []" "\<not> c_isspace (hd s)" "\<not> c_isspace (last s)"
  shows "trim_space ('' '' @ s) = s" "trim_space (s @ '' '') = s"
proof -
  have space: "c_isspace CHR '' ''" by (simp add: c_isspace_def)
  show "trim_space ('' '' @ s) = s" using assms space by (simp add: trim_space_def dropWhile_keeps hd_rev)
  have "dropWhile c_isspace (s @ '' '') = s @ '' ''" using assms by (intro dropWhile_keeps) simp_all
  then show "trim_space (s @ '' '') = s" using assms space by (simp add: trim_space_def dropWhile_keeps hd_rev)
qed

lemma drop_past: "drop (Suc (length a)) (a @ x # b) = b"
  by simp

lemma chtValue_quoted: "Lodor_chtValue ('' '' @ CH_QUOTE # escape s @ [CH_QUOTE]) = s"
proof -
  have "trim_space ('' '' @ CH_QUOTE # escape s @ [CH_QUOTE]) = CH_QUOTE # escape s @ [CH_QUOTE]"
    by (rule trim_space_around) (simp_all add: CH_QUOTE_def c_isspace_def)
  then show ?thesis by (simp add: Lodor_chtValue_def unquote_escape)
qed

lemma cheat_key_printed:
  assumes "n < 2 ^ 32" "field \<in> {''desc'', ''code'', ''enable''}"
  shows "cheat_key (''cheat'' @ c_digits n @ ''_'' @ field) = Some (n, field)"
proof -
  obtain d ds where d: "c_digits n = d # ds" by (cases "c_digits n") auto
  then have digit: "c_isdigit d" using c_digits_isdigit [of n] by simp
  then have "\<not> c_isspace d" "d \<noteq> CHR ''-''" "d \<noteq> CHR ''+''" by (auto simp: c_isdigit_def c_isspace_def)
  moreover have "takeWhile c_isdigit (c_digits n @ ''_'' @ field) = c_digits n" "dropWhile c_isdigit (c_digits n @ ''_'' @ field) = ''_'' @ field"
    using c_digits_isdigit [of n] by (simp_all add: takeWhile_append dropWhile_append c_isdigit_def)
  ultimately have "scan_u (c_digits n @ ''_'' @ field) = Some (n, ''_'' @ field)"
    using assms(1) digits_val_c_digits [of n] unfolding d by (simp add: scan_u_def Let_def)
  moreover have "take 31 (takeWhile (\<lambda>c. \<not> c_isspace c) (dropWhile c_isspace field)) = field"
    using assms(2) by (auto simp: c_isspace_def)
  ultimately show ?thesis using assms(2) by (auto simp: cheat_key_def)
qed

lemma cht_lines_line:
  assumes "NL \<notin> set l" "nul_free l" "length l + 1 < 2048"
  shows "cht_lines (l @ NL # rest) = (l @ [NL]) # cht_lines rest"
proof -
  have "fgets_len 2048 (l @ NL # rest) = Suc (length l)"
    using assms by (auto simp: fgets_len_def takeWhile_append takeWhile_eq_self)
  then show ?thesis using assms by (subst cht_lines.simps) (simp add: Let_def c_str_id NL_def NUL_def)
qed

lemma cht_lines_Nil [simp]: "cht_lines [] = []"
  by (simp add: cht_lines.simps)

text \<open>A line with a field of a cheat, and the lines of a cheat.\<close>

definition field_line :: "nat \<Rightarrow> string \<Rightarrow> string \<Rightarrow> string" where
  "field_line i field val = ''cheat'' @ c_digits i @ ''_'' @ field @ '' = '' @ CH_QUOTE # escape val @ [CH_QUOTE]"

definition cheat_lines :: "nat \<Rightarrow> string \<times> string \<times> bool \<Rightarrow> string list" where
  "cheat_lines i dce = (case dce of (d, c, e) \<Rightarrow>
    [field_line i ''desc'' d, field_line i ''code'' c, field_line i ''enable'' (if e then ''true'' else ''false'')])"

fun cheat_file_lines :: "nat \<Rightarrow> (string \<times> string \<times> bool) list \<Rightarrow> string list" where
  "cheat_file_lines i [] = []"
| "cheat_file_lines i (x # xs) = cheat_lines i x @ cheat_file_lines (Suc i) xs"

definition cheat_file :: "(string \<times> string \<times> bool) list \<Rightarrow> string" where
  "cheat_file xs = concat (map (\<lambda>l. l @ [NL]) ((''cheats = '' @ c_digits (length xs)) # cheat_file_lines 0 xs))"

definition value_ok :: "nat \<Rightarrow> string \<Rightarrow> bool" where
  "value_ok n v \<longleftrightarrow> v \<noteq> [] \<and> length v < n \<and> NL \<notin> set v \<and> CR \<notin> set v \<and> nul_free v \<and> length (escape v) < 2000"

lemma set_escape: "set (escape s) \<subseteq> insert CH_BACKSLASH (set s)"
  by (auto simp: escape_def)

lemma digits_chars: "c \<in> set (c_digits n) \<Longrightarrow> c_isdigit c"
  using c_digits_isdigit by blast

lemma field_line_chars:
  assumes "i < 128" "field \<in> {''desc'', ''code'', ''enable''}" "value_ok n v"
  shows "NL \<notin> set (field_line i field v)" "CR \<notin> set (field_line i field v)" "nul_free (field_line i field v)"
    "length (field_line i field v) + 1 < 2048"
proof -
  have d: "NL \<notin> set (c_digits i)" "CR \<notin> set (c_digits i)" "NUL \<notin> set (c_digits i)"
    using digits_chars [of _ i] by (auto simp: NL_def CR_def NUL_def c_isdigit_def dest!: digits_chars)
  have v: "NL \<notin> set (escape v)" "CR \<notin> set (escape v)" "NUL \<notin> set (escape v)"
    using assms(3) set_escape [of v] by (auto simp: value_ok_def nul_free_def CH_BACKSLASH_def NL_def CR_def NUL_def)
  show "NL \<notin> set (field_line i field v)" "CR \<notin> set (field_line i field v)" "nul_free (field_line i field v)"
    using assms(2) d v by (auto simp: field_line_def nul_free_def CH_QUOTE_def NL_def CR_def NUL_def)
  have "length (c_digits i) \<le> 3" using assms(1) by (intro length_c_digits) auto
  then show "length (field_line i field v) + 1 < 2048" using assms(2,3) by (auto simp: field_line_def value_ok_def)
qed

lemma field_line_read:
  assumes "i < 128" "field \<in> {''desc'', ''code'', ''enable''}" "value_ok n v" "length items = 128"
  shows "cheat_line (field_line i field v @ [NL]) (items, m) =
    (items[i := (if field = ''desc'' then set_desc v else if field = ''code'' then set_code v else set_enable v) (items ! i)], max m (int i))"
proof -
  note chars = field_line_chars [OF assms(1-3)]
  let ?key = "''cheat'' @ c_digits i @ ''_'' @ field"
  have line: "field_line i field v = (?key @ '' '') @ CHR ''='' # '' '' @ CH_QUOTE # escape v @ [CH_QUOTE]" by (simp add: field_line_def)
  have "CHR ''='' \<notin> set (?key @ '' '')" using assms(2) digits_chars [of "CHR ''=''" i] by (auto simp: c_isdigit_def)
  then have eq: "strchr (field_line i field v) (CHR ''='') = Some (length (?key @ '' ''))" unfolding line by (rule strchr_append)
  have "trim_space (?key @ '' '') = ?key"
    by (rule trim_space_around) (use assms(2) in \<open>auto simp: c_isspace_def\<close>)
  then have key: "cheat_key (trim_space (take (length (?key @ '' '')) (field_line i field v))) = Some (i, field)"
    using cheat_key_printed [of i field] assms(1,2) unfolding line by simp
  have val: "Lodor_chtValue (drop (Suc (length (?key @ '' ''))) (field_line i field v)) = v"
    unfolding line drop_past by (rule chtValue_quoted)
  show ?thesis
    unfolding cheat_line_def Let_def prod.case clean_line_LF [OF chars(1,2)] eq option.case key val
    using assms by (auto simp: LODOR_CHEAT_MAX_def value_ok_def)
qed

section \<open>A whole file\<close>

definition parsed :: "string \<times> string \<times> bool \<Rightarrow> cheat" where
  "parsed dce = (case dce of (d, c, e) \<Rightarrow> \<lparr>ch_desc = Some d, ch_code = Some c, ch_enabled = e\<rparr>)"

definition entry_fits :: "string \<times> string \<times> bool \<Rightarrow> bool" where
  "entry_fits dce = (case dce of (d, c, e) \<Rightarrow> value_ok LODOR_CHEAT_DESC_MAX d \<and> value_ok LODOR_CHEAT_CODE_MAX c)"

lemma bool_value_ok: "value_ok 9 (if e then ''true'' else ''false'')"
  by (simp add: value_ok_def escape_def CH_QUOTE_def CH_BACKSLASH_def NL_def CR_def NUL_def)

lemma cheat_read:
  assumes "i < 128" "entry_fits x" "length items = 128"
  shows "fold cheat_line (map (\<lambda>l. l @ [NL]) (cheat_lines i x)) (items, m) = (items[i := parsed x], max m (int i))"
proof -
  obtain d c e where x: "x = (d, c, e)" by (cases x)
  have v: "value_ok LODOR_CHEAT_DESC_MAX d" "value_ok LODOR_CHEAT_CODE_MAX c" using assms(2) by (simp_all add: entry_fits_def x)
  have trunc: "c_trunc LODOR_CHEAT_DESC_MAX d = d" "c_trunc LODOR_CHEAT_CODE_MAX c = c"
    using v by (simp_all add: c_trunc_id value_ok_def)
  have flag: "(strcasecmp (if e then ''true'' else ''false'') ''true'' = 0 \<or> (if e then ''true'' else ''false'') = ''1'') = e"
    by (cases e) (simp_all, code_simp)
  have all: "y\<lparr>ch_desc := Some d, ch_code := Some c, ch_enabled := e\<rparr> = \<lparr>ch_desc = Some d, ch_code = Some c, ch_enabled = e\<rparr>"
    for y :: cheat by (rule cheat.equality) simp_all
  show ?thesis
    using assms(1,3) trunc flag
    by (simp add: all x cheat_lines_def parsed_def field_line_read [OF assms(1) _ v(1)] field_line_read [OF assms(1) _ v(2)]
        field_line_read [OF assms(1) _ bool_value_ok] set_desc_def set_code_def set_enable_def max.assoc)
qed

lemma cheat_file_read:
  "list_all entry_fits xs \<Longrightarrow> i + length xs \<le> 128 \<Longrightarrow> length items = 128
    \<Longrightarrow> fold cheat_line (map (\<lambda>l. l @ [NL]) (cheat_file_lines i xs)) (items, int i - 1)
      = (take i items @ map parsed xs @ drop (i + length xs) items, int (i + length xs) - 1)"
proof (induction xs arbitrary: i items)
  case Nil
  then show ?case by simp
next
  case (Cons x xs)
  have i: "i < length items" "i < 128" using Cons.prems by simp_all
  have "take (Suc i) (items[i := parsed x]) = take i items @ [parsed x]" using i(1) by (simp add: take_Suc_conv_app_nth)
  moreover have "max (int i - 1) (int i) = int (Suc i) - 1" by simp
  ultimately show ?case
    using Cons.IH [of "Suc i" "items[i := parsed x]"] Cons.prems cheat_read [OF i(2), of x items "int i - 1"] by simp
qed

lemma cht_lines_written:
  "list_all (\<lambda>l. NL \<notin> set l \<and> nul_free l \<and> length l + 1 < 2048) ls
    \<Longrightarrow> cht_lines (concat (map (\<lambda>l. l @ [NL]) ls)) = map (\<lambda>l. l @ [NL]) ls"
  by (induction ls) (simp_all add: cht_lines_line)

lemma cheat_file_lines_ok:
  "list_all entry_fits xs \<Longrightarrow> i + length xs \<le> 128
    \<Longrightarrow> list_all (\<lambda>l. NL \<notin> set l \<and> nul_free l \<and> length l + 1 < 2048) (cheat_file_lines i xs)"
proof (induction xs arbitrary: i)
  case (Cons x xs)
  obtain d c e where x: "x = (d, c, e)" by (cases x)
  have i: "i < 128" using Cons.prems by simp
  have v: "value_ok LODOR_CHEAT_DESC_MAX d" "value_ok LODOR_CHEAT_CODE_MAX c" using Cons.prems(1) by (simp_all add: entry_fits_def x)
  show ?case
    using Cons field_line_chars [OF i _ v(1)] field_line_chars [OF i _ v(2)] field_line_chars [OF i _ bool_value_ok [of e]]
    by (simp add: x cheat_lines_def)
qed simp

lemma header_line_ignored: "cheat_line ((''cheats = '' @ c_digits n) @ [NL]) acc = acc"
proof -
  have "NL \<notin> set (''cheats = '' @ c_digits n)" "CR \<notin> set (''cheats = '' @ c_digits n)"
    by (auto simp: NL_def CR_def c_isdigit_def dest!: digits_chars)
  note clean = clean_line_LF [OF this]
  have eq: "strchr (''cheats = '' @ c_digits n) (CHR ''='') = Some 7" by simp
  have "cheat_key (trim_space (take 7 (''cheats = '' @ c_digits n))) = None"
  proof -
    have "trim_space (take 7 (''cheats = '' @ c_digits n)) = ''cheats''" by (simp add: trim_space_def c_isspace_def)
    moreover have "cheat_key ''cheats'' = None" by code_simp
    ultimately show ?thesis by simp
  qed
  then show ?thesis unfolding cheat_line_def Let_def clean eq by (simp split: prod.split)
qed

definition empty_table :: "string \<Rightarrow> cheats" where
  "empty_table sidecar = \<lparr>ct_count = 0, ct_item = replicate LODOR_CHEAT_MAX no_cheat, ct_sidecar = sidecar\<rparr>"

lemma kept_all:
  assumes "list_all (\<lambda>c. ch_code c \<noteq> None \<and> ch_desc c \<noteq> None) (take n items)" "n \<le> length items"
  shows "kept items n = take n items"
proof -
  have at: "ch_code (items ! r) \<noteq> None \<and> ch_desc (items ! r) \<noteq> None" if "r < n" for r
    using assms that by (simp add: list_all_length)
  then have "filter (\<lambda>r. ch_code (items ! r) \<noteq> None) [0 ..< n] = [0 ..< n]" by (intro filter_True) auto
  moreover have "map (\<lambda>r. named r (items ! r)) [0 ..< n] = map (\<lambda>r. items ! r) [0 ..< n]"
    using at by (auto simp: named_def split: option.split)
  ultimately show ?thesis using assms(2) by (simp add: kept_def list_eq_iff_nth_eq)
qed

section \<open>Properties\<close>

text \<open>The player strips the marks of the launcher, in the launcher's way.\<close>

lemma stripMarker_agrees: "player_stripMarker base = Lodor_stripMarker base"
  by (simp add: player_stripMarker_def Lodor_stripMarker_def MARK_DEVICE_def MARK_CLOUD_def)

text \<open>
  C28. A cheat file is read as it was written: from a file with any number of cheats up to the maximum,
  with descriptions and codes of any characters of a line, quotes and backslashes escaped, the parser
  gives exactly these cheats in their order, with their descriptions, codes and flags, and nothing
  behind them.
\<close>

theorem cheat_file_roundtrip:
  assumes "fs_files fs path = Some (cheat_file xs)" "list_all entry_fits xs" "length xs \<le> LODOR_CHEAT_MAX"
  shows "Lodor_cheatsParse fs path (empty_table s)
    = (length xs, \<lparr>ct_count = length xs, ct_item = map parsed xs @ replicate (LODOR_CHEAT_MAX - length xs) no_cheat, ct_sidecar = s\<rparr>)"
proof -
  let ?n = "length xs" and ?items = "map parsed xs @ replicate (128 - length xs) no_cheat"
  have n: "?n \<le> 128" using assms(3) by (simp add: LODOR_CHEAT_MAX_def)
  have header: "NL \<notin> set (''cheats = '' @ c_digits ?n)" "nul_free (''cheats = '' @ c_digits ?n)"
    by (auto simp: NL_def NUL_def nul_free_def c_isdigit_def dest!: digits_chars)
  have "length (c_digits ?n) \<le> 3" using n by (intro length_c_digits) auto
  then have "cht_lines (cheat_file xs) = map (\<lambda>l. l @ [NL]) ((''cheats = '' @ c_digits ?n) # cheat_file_lines 0 xs)"
    unfolding cheat_file_def using header cheat_file_lines_ok [OF assms(2), of 0] n by (intro cht_lines_written) simp
  moreover have "skip_bom (cheat_file xs) = cheat_file xs" by (simp add: skip_bom_def cheat_file_def)
  moreover have "fold cheat_line (map (\<lambda>l. l @ [NL]) (cheat_file_lines 0 xs)) (replicate 128 no_cheat, - 1) = (?items, int ?n - 1)"
    using cheat_file_read [OF assms(2), of 0 "replicate 128 no_cheat"] n by simp
  ultimately have read: "fold cheat_line (cht_lines (skip_bom (cheat_file xs))) (replicate LODOR_CHEAT_MAX no_cheat, - 1) = (?items, int ?n - 1)"
    by (simp add: LODOR_CHEAT_MAX_def header_line_ignored [unfolded append_Cons append_Nil])
  have "kept ?items ?n = map parsed xs"
    by (subst kept_all) (auto simp: list_all_iff parsed_def)
  then have "fold compact_step [0 ..< ?n] (?items, 0) = (?items, ?n)" using compact_kept [of ?n ?items] by simp
  with read assms(1) show ?thesis by (simp add: Lodor_cheatsParse_def empty_table_def LODOR_CHEAT_MAX_def)
qed

text \<open>What the sidecar relies on: the cheats have descriptions that fit a line, and no two the same.\<close>

definition descs_ok :: "cheats \<Rightarrow> bool" where
  "descs_ok t \<longleftrightarrow> ct_count t \<le> length (ct_item t)
    \<and> list_all (\<lambda>c. case ch_desc c of None \<Rightarrow> False | Some d \<Rightarrow> d \<noteq> [] \<and> line_ok (LODOR_CHEAT_DESC_MAX + 16) d) (take (ct_count t) (ct_item t))
    \<and> distinct (map ch_desc (take (ct_count t) (ct_item t)))"

definition desc_of :: "cheat \<Rightarrow> string" where
  "desc_of c = (case ch_desc c of None \<Rightarrow> [] | Some d \<Rightarrow> d)"

lemma sidecar_lines:
  assumes "descs_ok t"
  shows "read_lines (LODOR_CHEAT_DESC_MAX + 16) (sidecar_text t) = map desc_of (filter ch_enabled (take (ct_count t) (ct_item t)))"
proof -
  let ?cs = "filter ch_enabled (take (ct_count t) (ct_item t))"
  have all: "\<forall>c \<in> set ?cs. \<exists>d. ch_desc c = Some d \<and> d \<noteq> [] \<and> line_ok (LODOR_CHEAT_DESC_MAX + 16) d"
    using assms by (auto simp: descs_ok_def list_all_iff split: option.splits)
  then have "sidecar_text t = concat (map (\<lambda>l. l @ [NL]) (map desc_of ?cs))"
    unfolding sidecar_text_def map_map by (intro arg_cong [of _ _ concat] map_cong refl) (fastforce simp: desc_of_def)
  moreover have "\<forall>l \<in> set (map desc_of ?cs). line_ok (LODOR_CHEAT_DESC_MAX + 16) l \<and> l \<noteq> []"
    using all by (auto simp: desc_of_def)
  ultimately show ?thesis using read_lines_written [of "map desc_of ?cs"] by (simp add: filter_id_conv)
qed

lemma sidecar_reloaded:
  assumes "descs_ok t" "fs_files fs (ct_sidecar t) = Some (sidecar_text t)" "ct_sidecar t \<noteq> []"
    and "ct_count t' = ct_count t" "ct_sidecar t' = ct_sidecar t" "ct_count t' \<le> length (ct_item t')"
    and "map ch_desc (take (ct_count t) (ct_item t')) = map ch_desc (take (ct_count t) (ct_item t))"
  shows "map ch_enabled (take (ct_count t) (ct_item (Lodor_cheatsSidecarLoad fs t')))
    = map ch_enabled (take (ct_count t) (ct_item t))"
proof (rule nth_equalityI)
  let ?n = "ct_count t" and ?lines = "map desc_of (filter ch_enabled (take (ct_count t) (ct_item t)))"
  have n: "?n \<le> length (ct_item t)" using assms(1) by (simp add: descs_ok_def)
  have load: "ct_item (Lodor_cheatsSidecarLoad fs t') = map (enable_named ?lines) (take ?n (ct_item t')) @ drop ?n (ct_item t')"
    using assms(2-5) sidecar_lines [OF assms(1)] by (simp add: Lodor_cheatsSidecarLoad_def Let_def)
  have len: "length (take ?n (ct_item t')) = ?n" using assms(4,6) by simp
  show "length (map ch_enabled (take ?n (ct_item (Lodor_cheatsSidecarLoad fs t')))) = length (map ch_enabled (take ?n (ct_item t)))"
    using n len unfolding load by simp
  fix i assume "i < length (map ch_enabled (take ?n (ct_item (Lodor_cheatsSidecarLoad fs t'))))"
  then have i: "i < ?n" by simp
  have descs: "ch_desc (ct_item t' ! i) = ch_desc (ct_item t ! i)" using arg_cong [OF assms(7), of "\<lambda>l. l ! i"] i n assms(4,6) by simp
  have some: "\<And>j. j < ?n \<Longrightarrow> ch_desc (ct_item t ! j) = Some (desc_of (ct_item t ! j))"
    using assms(1) by (auto simp: descs_ok_def list_all_length desc_of_def split: option.splits)
  have dist: "j < ?n \<Longrightarrow> ch_desc (ct_item t ! j) = ch_desc (ct_item t ! i) \<Longrightarrow> j = i" for j
    using nth_eq_iff_index_eq [of "map ch_desc (take ?n (ct_item t))" j i] assms(1) i n by (simp add: descs_ok_def)
  have "list_ex (\<lambda>l. ch_desc (ct_item t ! i) = Some l) ?lines \<longleftrightarrow> ch_enabled (ct_item t ! i)"
  proof
    assume "list_ex (\<lambda>l. ch_desc (ct_item t ! i) = Some l) ?lines"
    then obtain c where c: "c \<in> set (take ?n (ct_item t))" "ch_enabled c" "ch_desc (ct_item t ! i) = Some (desc_of c)"
      by (auto simp: list_ex_iff)
    then obtain j where j: "j < ?n" "c = ct_item t ! j" using n by (auto simp: in_set_conv_nth)
    have "j = i" by (rule dist [OF j(1)]) (simp add: some [OF j(1)] c(3) j(2))
    with c(2) j(2) show "ch_enabled (ct_item t ! i)" by simp
  next
    assume "ch_enabled (ct_item t ! i)"
    moreover have "ct_item t ! i \<in> set (take ?n (ct_item t))" using i n by (metis in_set_conv_nth length_take min.absorb2 nth_take)
    ultimately show "list_ex (\<lambda>l. ch_desc (ct_item t ! i) = Some l) ?lines" using some [OF i] by (auto simp: list_ex_iff)
  qed
  then show "map ch_enabled (take ?n (ct_item (Lodor_cheatsSidecarLoad fs t'))) ! i = map ch_enabled (take ?n (ct_item t)) ! i"
    using i n len descs unfolding load by (simp add: nth_append enable_named_def)
qed

text \<open>
  C29. Switching a cheat in the menu reaches the core at once and outlives the game: the core is reset
  and given exactly the enabled cheats, each with its own code, and when the game is started again, with
  whatever flags its cheat file has, the enabled set is the one that was left.
\<close>

theorem cheat_toggle_persists:
  assumes "descs_ok t" "ct_sidecar t \<noteq> []" "0 \<le> i" "i < int (ct_count t)"
    and "fs_writable fs (c_trunc (MAX_PATH + 8) (ct_sidecar t @ ''.tmp''))"
    and "LodorCheats_onChange True room i val fs t = (calls, fs', t')" "length (sidecar_text t') \<le> room"
    and "ct_count u = ct_count t" "ct_sidecar u = ct_sidecar t" "ct_count u \<le> length (ct_item u)"
    and "map ch_desc (take (ct_count t) (ct_item u)) = map ch_desc (take (ct_count t) (ct_item t))"
  shows "map ch_enabled (take (ct_count t) (ct_item t')) = (map ch_enabled (take (ct_count t) (ct_item t)))[nat i := val]
    \<and> (\<forall>k code. Cheat_Set k code \<in> set calls \<longleftrightarrow> k < ct_count t \<and> ch_enabled (ct_item t' ! k)
        \<and> code = (case ch_code (ct_item t ! k) of None \<Rightarrow> [] | Some c \<Rightarrow> c))
    \<and> hd calls = Cheat_Reset
    \<and> map ch_enabled (take (ct_count t) (ct_item (Lodor_cheatsSidecarLoad fs' u))) = map ch_enabled (take (ct_count t) (ct_item t'))"
proof -
  let ?n = "ct_count t"
  have run: "t' = t\<lparr>ct_item := (ct_item t)[nat i := (ct_item t ! nat i)\<lparr>ch_enabled := val\<rparr>]\<rparr>"
    "calls = Lodor_cheatsApply True t'" "fs' = Lodor_cheatsSidecarSave room fs t'"
    using assms(3,4,6) by (auto simp: LodorCheats_onChange_def Let_def)
  have n: "?n \<le> length (ct_item t)" "nat i < ?n" using assms(1,3,4) by (auto simp: descs_ok_def)
  have flags: "map ch_enabled (take ?n (ct_item t')) = (map ch_enabled (take ?n (ct_item t)))[nat i := val]"
    by (simp add: run(1) take_update_swap map_update)
  have descs: "map ch_desc (take ?n (ct_item t')) = map ch_desc (take ?n (ct_item t))"
    using n by (simp add: run(1) take_update_swap map_update) (metis list_update_id nth_map nth_take length_take min.absorb2)
  have "list_all (\<lambda>d. case d of None \<Rightarrow> False | Some d \<Rightarrow> d \<noteq> [] \<and> line_ok (LODOR_CHEAT_DESC_MAX + 16) d) (map ch_desc (take ?n (ct_item t')))"
    using assms(1) unfolding descs by (simp add: descs_ok_def list.pred_map comp_def)
  then have ok: "descs_ok t'" using assms(1) descs by (simp add: descs_ok_def run(1) list.pred_map comp_def)
  have "fs_files fs' (ct_sidecar t') = Some (sidecar_text t')"
    using assms(2,5,7) by (simp add: run(1,3) Lodor_cheatsSidecarSave_def Let_def)
  then have "map ch_enabled (take (ct_count t') (ct_item (Lodor_cheatsSidecarLoad fs' u))) = map ch_enabled (take (ct_count t') (ct_item t'))"
    using assms(2,8-11) descs by (intro sidecar_reloaded [OF ok]) (simp_all add: run(1))
  moreover have "ch_code (ct_item t' ! k) = ch_code (ct_item t ! k)" for k
    using n by (cases "k = nat i") (simp_all add: run(1))
  then have "Cheat_Set k code \<in> set calls \<longleftrightarrow> k < ?n \<and> ch_enabled (ct_item t' ! k)
        \<and> code = (case ch_code (ct_item t ! k) of None \<Rightarrow> [] | Some c \<Rightarrow> c)" for k code
    using n(2) by (auto simp: run(2) Lodor_cheatsApply_def Let_def run(1) [THEN arg_cong, of ct_count, simplified])
  moreover have "hd calls = Cheat_Reset" using n(2) by (simp add: run(1,2) Lodor_cheatsApply_def)
  ultimately show ?thesis using flags by (simp add: run(1))
qed

definition two_cheats :: "(string \<times> string \<times> bool) list" where
  "two_cheats = [(''Lives'', ''0100-AB'', False), ([CH_QUOTE] @ ''Big'' @ [CH_QUOTE] @ '' head'', ''7E:0'', True)]"

definition cheat_card :: fsys where
  "cheat_card = \<lparr>fs_files = map_of [(''/c/a.cht'', cheat_file two_cheats)], fs_dirs = map_of [], fs_writable = \<lambda>_. True\<rparr>"

theorem cheat_file_roundtrip_witness:
  "fst (Lodor_cheatsParse cheat_card ''/c/a.cht'' (empty_table ''/m/a.cheats.txt'')) = 2
    \<and> take 2 (ct_item (snd (Lodor_cheatsParse cheat_card ''/c/a.cht'' (empty_table ''/m/a.cheats.txt''))))
      = [\<lparr>ch_desc = Some ''Lives'', ch_code = Some ''0100-AB'', ch_enabled = False\<rparr>,
         \<lparr>ch_desc = Some ([CH_QUOTE] @ ''Big'' @ [CH_QUOTE] @ '' head''), ch_code = Some ''7E:0'', ch_enabled = True\<rparr>]"
proof -
  have "list_all entry_fits two_cheats"
    by (simp add: two_cheats_def entry_fits_def value_ok_def escape_def LODOR_CHEAT_DESC_MAX_def LODOR_CHEAT_CODE_MAX_def
        CH_QUOTE_def CH_BACKSLASH_def NL_def CR_def NUL_def)
  moreover have "fs_files cheat_card ''/c/a.cht'' = Some (cheat_file two_cheats)" by (simp add: cheat_card_def)
  moreover have "length two_cheats \<le> LODOR_CHEAT_MAX" by (simp add: two_cheats_def LODOR_CHEAT_MAX_def)
  ultimately have "Lodor_cheatsParse cheat_card ''/c/a.cht'' (empty_table ''/m/a.cheats.txt'') = (length two_cheats,
      \<lparr>ct_count = length two_cheats, ct_item = map parsed two_cheats @ replicate (LODOR_CHEAT_MAX - length two_cheats) no_cheat,
       ct_sidecar = ''/m/a.cheats.txt''\<rparr>)"
    by (intro cheat_file_roundtrip)
  then show ?thesis by (simp add: two_cheats_def parsed_def)
qed

definition small_table :: cheats where
  "small_table = \<lparr>ct_count = 2, ct_item = map parsed two_cheats @ [no_cheat], ct_sidecar = ''/m/a.cheats.txt''\<rparr>"

definition fresh_table :: cheats where
  "fresh_table = \<lparr>ct_count = 2, ct_item = map (\<lambda>x. (parsed x)\<lparr>ch_enabled := True\<rparr>) two_cheats @ [no_cheat], ct_sidecar = ''/m/a.cheats.txt''\<rparr>"

theorem cheat_toggle_persists_witness:
  "let (calls, fs, t) = LodorCheats_onChange True 99 1 False cheat_card small_table in
     map ch_enabled (take 2 (ct_item (Lodor_cheatsSidecarLoad fs fresh_table))) = [False, False] \<and> hd calls = Cheat_Reset"
proof -
  obtain calls fs t where run: "LodorCheats_onChange True 99 1 False cheat_card small_table = (calls, fs, t)"
    by (rule prod_cases3)
  have "length (sidecar_text (snd (snd (LodorCheats_onChange True 99 1 False cheat_card small_table)))) \<le> 99"
    by (simp add: LodorCheats_onChange_def sidecar_text_def small_table_def two_cheats_def parsed_def no_cheat_def Let_def)
  then have fits: "length (sidecar_text t) \<le> 99" by (simp add: run)
  have t: "descs_ok small_table"
    by (simp add: descs_ok_def small_table_def two_cheats_def parsed_def line_ok_def LODOR_CHEAT_DESC_MAX_def
        CH_QUOTE_def NL_def CR_def NUL_def)
  have a: "ct_sidecar small_table \<noteq> []" "(0::int) \<le> 1" "(1::int) < int (ct_count small_table)"
    "fs_writable cheat_card (c_trunc (MAX_PATH + 8) (ct_sidecar small_table @ ''.tmp''))"
    by (simp_all add: small_table_def cheat_card_def)
  have u: "ct_count fresh_table = ct_count small_table" "ct_sidecar fresh_table = ct_sidecar small_table"
    "ct_count fresh_table \<le> length (ct_item fresh_table)"
    "map ch_desc (take (ct_count small_table) (ct_item fresh_table)) = map ch_desc (take (ct_count small_table) (ct_item small_table))"
    by (simp_all add: small_table_def fresh_table_def two_cheats_def parsed_def)
  have "(map ch_enabled (take (ct_count small_table) (ct_item small_table)))[nat 1 := False] = [False, False]" "ct_count small_table = 2"
    by (simp_all add: small_table_def two_cheats_def parsed_def)
  with cheat_toggle_persists [OF t a run fits u] run show ?thesis by simp
qed

section \<open>Findings\<close>

text \<open>The enabled set is kept by description: of two cheats with the same one, switching on one means both.\<close>

definition twin_table :: cheats where
  "twin_table = \<lparr>ct_count = 2, ct_item = [parsed (''Ammo'', ''1'', True), parsed (''Ammo'', ''2'', False)], ct_sidecar = ''/m/t''\<rparr>"

theorem same_description_enabled:
  "map ch_enabled (ct_item (Lodor_cheatsSidecarLoad (Lodor_cheatsSidecarSave 99 cheat_card twin_table) twin_table)) = [True, True]"
proof -
  have "sidecar_text twin_table = ''Ammo'' @ [NL]" by (simp add: sidecar_text_def twin_table_def parsed_def)
  moreover have "read_lines (LODOR_CHEAT_DESC_MAX + 16) (''Ammo'' @ [NL]) = [''Ammo'']"
    using read_lines_Cons [of "LODOR_CHEAT_DESC_MAX + 16" "''Ammo''" "[]"]
    by (simp add: line_ok_def LODOR_CHEAT_DESC_MAX_def NL_def CR_def NUL_def)
  ultimately show ?thesis
    by (simp add: Lodor_cheatsSidecarLoad_def Lodor_cheatsSidecarSave_def cheat_card_def twin_table_def parsed_def enable_named_def)
qed

text \<open>On a full card the rename replaces the sidecar by the part that could be written.\<close>

theorem sidecar_cut_short:
  "ct_sidecar t \<noteq> [] \<Longrightarrow> fs_writable fs (c_trunc (MAX_PATH + 8) (ct_sidecar t @ ''.tmp''))
    \<Longrightarrow> fs_files (Lodor_cheatsSidecarSave room fs t) (ct_sidecar t) = Some (take room (sidecar_text t))"
  by (simp add: Lodor_cheatsSidecarSave_def Let_def)

end
