(* ===== verification/PowerMgmt.thy ===== *)
theory PowerMgmt
  imports Input CString
begin

text \<open>
  Power management (common/api.c, PWR_* and VIB_*), with the lid sensor and the battery reading of
  the Miyoo Mini (miyoomini/platform/platform.c).

  Every frame calls PWR_update, which turns the device off when the power button is held, puts it to
  sleep on request or after thirty idle seconds, and decides whether the volume or brightness overlay
  shows. A sleeping device polls for a wake-up every 200 ms and goes off, or into deep sleep, after
  two minutes. What the code does to the hardware is the list of acts it returns; PLAT_powerOff does
  not come back, so an outcome says whether the call returned. SDL_GetTicks is the time since start in
  milliseconds, kept in 32 bits; the times themselves are unbounded here. The battery thread and
  the signals of the hardware write the flags between the calls.
\<close>

section \<open>State\<close>

record pwr =
  can_sleep :: bool
  can_poweroff :: bool
  can_autosleep :: bool
  requested_sleep :: bool
  requested_wake :: bool
  is_charging :: bool
  charge :: int
  should_warn :: bool

text \<open>The statics of PWR_update; was_muted and was_charging start at -1.\<close>

record pwr_memory =
  last_input_at :: "32 word"
  checked_charge_at :: "32 word"
  setting_shown_at :: "32 word"
  power_pressed_at :: "32 word"
  mod_unpressed_at :: "32 word"
  was_muted :: "32 word"
  was_charging :: int

definition pwr_memory_zero :: pwr_memory where
  "pwr_memory_zero = \<lparr>last_input_at = 0, checked_charge_at = 0, setting_shown_at = 0,
     power_pressed_at = 0, mod_unpressed_at = 0, was_muted = - 1, was_charging = - 1\<rparr>"

datatype act = BeforeSleep | AfterSleep | ClearScreen | ClearVideo | Message string | FlipScreen
  | PauseAudio bool | RawMute | RestoreVolume | Backlight bool | Keymon bool | Sync | DeepSleep
  | PlatPowerOff | Overlay bool

text \<open>A call returned, turned the device off, or was still waiting when the observations ended.\<close>

datatype 'a outcome = Returned 'a | PoweredOff | Sleeping

type_synonym 'a powered = "act list \<times> 'a outcome"

fun and_then :: "'a powered \<Rightarrow> ('a \<Rightarrow> 'b powered) \<Rightarrow> 'b powered" where
  "and_then (as, Returned x) k = (case k x of (bs, r) \<Rightarrow> (as @ bs, r))"
| "and_then (as, PoweredOff) k = (as, PoweredOff)"
| "and_then (as, Sleeping) k = (as, Sleeping)"

text \<open>What differs per device; the deep sleep helper lives below SYSTEM_PATH.\<close>

record device =
  buttons :: platform
  has_power_button :: bool
  has_poweroff_button :: bool
  supports_deep_sleep :: bool
  system_path :: "string option"
  helper_there :: "string \<Rightarrow> bool"

definition BTN_POWER :: "32 word" where "BTN_POWER = btn BTN_ID_POWER"
definition BTN_POWEROFF :: "32 word" where "BTN_POWEROFF = btn 20"

definition CHARGE_DELAY :: "32 word" where "CHARGE_DELAY = 1000"
definition SLEEP_DELAY :: "32 word" where "SLEEP_DELAY = 30000"
definition SETTING_DELAY :: "32 word" where "SETTING_DELAY = 500"
definition MOD_DELAY :: "32 word" where "MOD_DELAY = 250"
definition PWR_LOW_CHARGE :: int where "PWR_LOW_CHARGE = 10"

definition ticks :: "nat \<Rightarrow> 32 word" where
  "ticks t = of_nat t"

section \<open>Battery and switches\<close>

text \<open>PLAT_getBatteryStatus: the level of /tmp/battery in steps of 10 to 20 percent.\<close>

definition battery_level :: "int \<Rightarrow> int" where
  "battery_level i = (if 80 < i then 100 else if 60 < i then 80 else if 40 < i then 60
     else if 20 < i then 40 else if 10 < i then 20 else 10)"

definition warn_overlay :: "pwr \<Rightarrow> act" where
  "warn_overlay p = Overlay (should_warn p \<and> charge p \<le> PWR_LOW_CHARGE)"

definition PWR_updateBatteryStatus :: "bool \<Rightarrow> int \<Rightarrow> pwr \<Rightarrow> act list \<times> pwr" where
  "PWR_updateBatteryStatus charging level p =
    (let q = p\<lparr>is_charging := charging, charge := battery_level level\<rparr> in ([warn_overlay q], q))"

definition PWR_init :: "bool \<Rightarrow> int \<Rightarrow> pwr \<Rightarrow> act list \<times> pwr" where
  "PWR_init charging level p = PWR_updateBatteryStatus charging level
     (p\<lparr>can_sleep := True, can_poweroff := True, can_autosleep := True, requested_sleep := False,
        requested_wake := False, should_warn := False, charge := PWR_LOW_CHARGE\<rparr>)"

definition PWR_warn :: "bool \<Rightarrow> pwr \<Rightarrow> act list \<times> pwr" where
  "PWR_warn on p = (let q = p\<lparr>should_warn := on\<rparr> in ([warn_overlay q], q))"

definition PWR_disableSleep :: "pwr \<Rightarrow> pwr" where "PWR_disableSleep p = p\<lparr>can_sleep := False\<rparr>"
definition PWR_enableSleep :: "pwr \<Rightarrow> pwr" where "PWR_enableSleep p = p\<lparr>can_sleep := True\<rparr>"
definition PWR_disablePowerOff :: "pwr \<Rightarrow> pwr" where "PWR_disablePowerOff p = p\<lparr>can_poweroff := False\<rparr>"
definition PWR_disableAutosleep :: "pwr \<Rightarrow> pwr" where "PWR_disableAutosleep p = p\<lparr>can_autosleep := False\<rparr>"
definition PWR_enableAutosleep :: "pwr \<Rightarrow> pwr" where "PWR_enableAutosleep p = p\<lparr>can_autosleep := True\<rparr>"
definition PWR_isCharging :: "pwr \<Rightarrow> bool" where "PWR_isCharging p = is_charging p"
definition PWR_getBattery :: "pwr \<Rightarrow> int" where "PWR_getBattery p = charge p"

definition PWR_preventAutosleep :: "bool \<Rightarrow> pwr \<Rightarrow> bool" where
  "PWR_preventAutosleep hdmi p \<longleftrightarrow> is_charging p \<or> \<not> can_autosleep p \<or> hdmi"

definition PWR_ignoreSettingInput :: "platform \<Rightarrow> 32 word \<Rightarrow> int \<Rightarrow> bool" where
  "PWR_ignoreSettingInput pl b show \<longleftrightarrow> show \<noteq> 0 \<and> (b = BTN_MOD_PLUS pl \<or> b = BTN_MOD_MINUS pl)"

section \<open>Off and asleep\<close>

definition off_message :: "device \<Rightarrow> bool \<Rightarrow> string" where
  "off_message dev saved =
    (if has_power_button dev \<or> has_poweroff_button dev
     then (if saved then ''Quicksave created,'' @ [CHR 10] @ ''powering off'' else ''Powering off'')
     else (if saved then ''Quicksave created,'' @ [CHR 10] @ ''power off now'' else ''Power off now''))"

definition PWR_powerOff :: "device \<Rightarrow> bool \<Rightarrow> pwr \<Rightarrow> pwr powered" where
  "PWR_powerOff dev saved p =
    (if can_poweroff p
     then ([ClearVideo, Message (off_message dev saved), FlipScreen, PlatPowerOff], PoweredOff)
     else ([], Returned p))"

text \<open>PLAT_deepSleep: None when /sys/power/state does not open, otherwise the result of the write.\<close>

definition PLAT_deepSleep :: "int option \<Rightarrow> int" where
  "PLAT_deepSleep written = (case written of None \<Rightarrow> - 1 | Some n \<Rightarrow> if n < 0 then - 1 else 0)"

definition PWR_deepSleep :: "device \<Rightarrow> (string \<Rightarrow> int) \<Rightarrow> int option \<Rightarrow> int" where
  "PWR_deepSleep dev sys written =
    (case system_path dev of
       None \<Rightarrow> PLAT_deepSleep written
     | Some sp \<Rightarrow>
         (let path = take 255 (sp @ ''/bin/suspend'') in
          if helper_there dev path then (if sys path = 0 then 0 else - 1)
          else PLAT_deepSleep written))"

text \<open>PLAT_lidChanged of the Miyoo Mini.\<close>

definition PLAT_lidChanged :: "bool \<Rightarrow> lid_state \<Rightarrow> bool \<times> lid_state" where
  "PLAT_lidChanged sensor lid =
    (if has_lid lid \<and> sensor \<noteq> is_open lid then (True, lid\<lparr>is_open := sensor\<rparr>) else (False, lid))"

definition PWR_enterSleep :: "bool \<Rightarrow> act list" where
  "PWR_enterSleep hdmi = [PauseAudio True]
     @ (if hdmi then [ClearVideo, FlipScreen] else [RawMute, Backlight False]) @ [Keymon False, Sync]"

definition PWR_exitSleep :: "bool \<Rightarrow> act list" where
  "PWR_exitSleep hdmi = [Keymon True]
     @ (if hdmi then [] else [Backlight True, RestoreVolume]) @ [PauseAudio False, Sync]"

text \<open>
  What one turn of the waiting loop sees: the lid, the events that arrived, whether the hardware asked
  for a wake-up, the time after the 200 ms delay, the charger then, whether a quicksave exists, and
  what a deep sleep would return.
\<close>

record nap =
  lid_sensor :: bool
  arrived :: "sdl_event list"
  asked :: bool
  nap_at :: nat
  plugged :: bool
  saved_there :: bool
  suspended :: "string \<Rightarrow> int"
  mem_written :: "int option"

text \<open>The loop of PWR_waitForWake, one turn per observation.\<close>

fun wait_loop ::
  "device \<Rightarrow> nap list \<Rightarrow> sdl_event list \<Rightarrow> 32 word \<Rightarrow> lid_state \<Rightarrow> pwr \<Rightarrow> (lid_state \<times> pwr) powered"
where
  "wait_loop dev [] es slept lid p = ([], Sleeping)"
| "wait_loop dev (n # ns) es slept lid p =
    (case PLAT_lidChanged (lid_sensor n) lid of (changed, lid) \<Rightarrow>
     case PLAT_shouldWake (buttons dev) lid changed (lid_sensor n) (es @ arrived n) of (woke, rest) \<Rightarrow>
     let p = p\<lparr>requested_wake := requested_wake p \<or> asked n\<rparr>;
         now = ticks (nap_at n);
         q = p\<lparr>is_charging := plugged n\<rparr>
     in if woke then ([], Returned (lid, p))
        else if requested_wake p then ([], Returned (lid, p\<lparr>requested_wake := False\<rparr>))
        else if 120000 \<le> now - slept then
          (if plugged n then wait_loop dev ns rest (slept + 60000) lid q
           else if supports_deep_sleep dev then
             and_then ([DeepSleep], Returned q) (\<lambda>q.
               if PWR_deepSleep dev (suspended n) (mem_written n) = 0 then ([], Returned (lid, q))
               else and_then (PWR_powerOff dev (saved_there n) q) (wait_loop dev ns rest slept lid))
           else and_then (PWR_powerOff dev (saved_there n) q) (wait_loop dev ns rest slept lid))
        else wait_loop dev ns rest slept lid q)"

definition PWR_waitForWake :: "device \<Rightarrow> nat \<Rightarrow> nap list \<Rightarrow> lid_state \<Rightarrow> pwr \<Rightarrow> (lid_state \<times> pwr) powered" where
  "PWR_waitForWake dev now ns lid p = wait_loop dev ns [] (ticks now) lid p"

definition PWR_fauxSleep ::
  "device \<Rightarrow> bool \<Rightarrow> bool \<Rightarrow> nat \<Rightarrow> nap list \<Rightarrow> pad_state \<Rightarrow> lid_state \<Rightarrow> pwr \<Rightarrow> (pad_state \<times> lid_state \<times> pwr) powered"
where
  "PWR_fauxSleep dev hdmi hdmi_later now ns pad lid p =
    and_then (ClearScreen # PWR_enterSleep hdmi, Returned ())
      (\<lambda>_. and_then (PWR_waitForWake dev now ns lid p)
        (\<lambda>(lid, p). (PWR_exitSleep hdmi_later, Returned (PAD_reset pad, lid, p))))"

section \<open>PWR_update\<close>

text \<open>What one call sees. GetMute and GetHDMI are asked twice; slept_at is when the waiting loop starts
  and left_at when the device is awake again.\<close>

record frame =
  at :: nat
  pad_now :: pad_state
  muted :: int
  muted_later :: int
  hdmi :: bool
  hdmi_later :: bool
  saved :: bool
  slept_at :: nat
  naps :: "nap list"
  left_at :: nat

definition note_activity :: "frame \<Rightarrow> pwr \<Rightarrow> pwr_memory \<Rightarrow> pwr_memory" where
  "note_activity f p m =
    (let m = (if was_muted m = - 1 then m\<lparr>was_muted := word_of_int (muted f)\<rparr> else m);
         m = (if was_charging m = - 1 then m\<lparr>was_charging := of_bool (is_charging p)\<rparr> else m)
     in if was_charging m \<noteq> 0 \<or> PAD_anyPressed (pad_now f) \<or> last_input_at m = 0
        then m\<lparr>last_input_at := ticks (at f)\<rparr> else m)"

definition check_charge :: "frame \<Rightarrow> bool \<Rightarrow> pwr \<Rightarrow> pwr_memory \<Rightarrow> bool \<times> pwr_memory" where
  "check_charge f dirty p m =
    (if dirty \<or> CHARGE_DELAY \<le> ticks (at f) - checked_charge_at m
     then (dirty \<or> was_charging m \<noteq> of_bool (is_charging p),
           m\<lparr>was_charging := of_bool (is_charging p), checked_charge_at := ticks (at f)\<rparr>)
     else (dirty, m))"

definition power_held :: "device \<Rightarrow> frame \<Rightarrow> bool \<Rightarrow> pwr_memory \<Rightarrow> pwr \<Rightarrow> pwr powered" where
  "power_held dev f before m p =
    (if PAD_justReleased BTN_POWEROFF (pad_now f)
        \<or> (power_pressed_at m \<noteq> 0 \<and> 1000 \<le> ticks (at f) - power_pressed_at m)
     then and_then (if before then [BeforeSleep] else [], Returned p) (PWR_powerOff dev (saved f))
     else ([], Returned p))"

definition press_power :: "frame \<Rightarrow> pwr_memory \<Rightarrow> pwr_memory" where
  "press_power f m =
    (if PAD_justPressed BTN_POWER (pad_now f) then m\<lparr>power_pressed_at := ticks (at f)\<rparr> else m)"

definition put_off_sleep :: "frame \<Rightarrow> pwr \<Rightarrow> pwr_memory \<Rightarrow> pwr_memory" where
  "put_off_sleep f p m =
    (if SLEEP_DELAY \<le> ticks (at f) - last_input_at m \<and> PWR_preventAutosleep (hdmi f) p
     then m\<lparr>last_input_at := ticks (at f)\<rparr> else m)"

definition falls_asleep :: "device \<Rightarrow> frame \<Rightarrow> pwr_memory \<Rightarrow> pwr \<Rightarrow> bool" where
  "falls_asleep dev f m p \<longleftrightarrow> requested_sleep p \<or> SLEEP_DELAY \<le> ticks (at f) - last_input_at m
     \<or> (can_sleep p \<and> PAD_justReleased (BTN_SLEEP (buttons dev)) (pad_now f))"

text \<open>The overlay of volume (2) and brightness (1); a modifier that is BTN_NONE is 0.\<close>

definition settings_overlay ::
  "platform \<Rightarrow> 32 word \<Rightarrow> int \<Rightarrow> pad_state \<Rightarrow> bool \<Rightarrow> int \<Rightarrow> pwr_memory \<Rightarrow> bool \<times> int \<times> pwr_memory"
where
  "settings_overlay pl now mute pad dirty show m =
    (let delay = (BTN_MOD_BRIGHTNESS pl = btn BTN_ID_MENU);
         vol = PAD_isPressed (BTN_MOD_VOLUME pl) pad;
         bri = PAD_isPressed (BTN_MOD_BRIGHTNESS pl) pad;
         hide = show \<noteq> 0 \<and> (SETTING_DELAY \<le> now - setting_shown_at m \<or> \<not> delay) \<and> \<not> vol \<and> \<not> bri;
         show = (if hide then 0 else show);
         dirty = (dirty \<or> hide);
         m = (if show = 0 \<and> \<not> vol \<and> \<not> bri then m\<lparr>mod_unpressed_at := now\<rparr> else m);
         shown = ((vol \<or> bri) \<and> (\<not> delay \<or> MOD_DELAY \<le> now - mod_unpressed_at m))
           \<or> ((BTN_MOD_VOLUME pl = 0 \<or> BTN_MOD_BRIGHTNESS pl = 0)
              \<and> (PAD_justRepeated (BTN_MOD_PLUS pl) pad \<or> PAD_justRepeated (BTN_MOD_MINUS pl) pad));
         m = (if shown then m\<lparr>setting_shown_at := now\<rparr> else m);
         show = (if shown then (if bri then 1 else 2) else show);
         other = (word_of_int mute \<noteq> was_muted m);
         m = (if other then m\<lparr>was_muted := word_of_int mute, setting_shown_at := now\<rparr> else m);
         show = (if other then 2 else show)
     in (dirty \<or> show \<noteq> 0, show, m))"

type_synonym updated = "bool \<times> int \<times> pad_state \<times> lid_state \<times> pwr_memory \<times> pwr"

definition PWR_update ::
  "device \<Rightarrow> frame \<Rightarrow> bool \<Rightarrow> bool \<Rightarrow> bool \<Rightarrow> int \<Rightarrow> lid_state \<Rightarrow> pwr_memory \<Rightarrow> pwr \<Rightarrow> updated powered"
where
  "PWR_update dev f before after dirty show lid m p =
    (let m = note_activity f p m in
     case check_charge f dirty p m of (dirty, m) \<Rightarrow>
     and_then (power_held dev f before m p) (\<lambda>p.
     let m = put_off_sleep f p (press_power f m) in
     and_then
       (if falls_asleep dev f m p
        then and_then (if before then [BeforeSleep] else [], Returned ()) (\<lambda>_.
             and_then (PWR_fauxSleep dev (hdmi f) (hdmi_later f) (slept_at f) (naps f) (pad_now f) lid (p\<lparr>requested_sleep := False\<rparr>))
               (\<lambda>(pad, lid, p). (if after then [AfterSleep] else [],
                  Returned (True, ticks (left_at f), pad, lid,
                    m\<lparr>last_input_at := ticks (left_at f), power_pressed_at := 0\<rparr>, p))))
        else ([], Returned (dirty, ticks (at f), pad_now f, lid, m, p)))
       (\<lambda>(dirty, now, pad, lid, m, p).
          case settings_overlay (buttons dev) now (muted_later f) pad dirty show m of (dirty, show, m) \<Rightarrow>
          ([], Returned (dirty, show, pad, lid, m, p)))))"

section \<open>Rumble\<close>

text \<open>
  The client queues a strength; a thread looks at it every 17 ms and drives the motor. A request to
  stop is deferred for three looks, because the motor does not like short gaps.
\<close>

record vib =
  queued_strength :: int
  strength :: int
  defer_count :: nat
  motor :: int

definition DEFER_FRAMES :: nat where "DEFER_FRAMES = 3"

definition VIB_init :: "vib \<Rightarrow> vib" where
  "VIB_init v = v\<lparr>queued_strength := 0, strength := 0\<rparr>"

definition VIB_setStrength :: "int \<Rightarrow> vib \<Rightarrow> vib" where
  "VIB_setStrength s v = (if queued_strength v = s then v else v\<lparr>queued_strength := s\<rparr>)"

definition VIB_getStrength :: "vib \<Rightarrow> int" where
  "VIB_getStrength v = strength v"

definition VIB_thread :: "vib \<Rightarrow> vib" where
  "VIB_thread v =
    (if queued_strength v \<noteq> strength v then
       if defer_count v < DEFER_FRAMES \<and> queued_strength v = 0 then v\<lparr>defer_count := defer_count v + 1\<rparr>
       else v\<lparr>strength := queued_strength v, defer_count := 0, motor := queued_strength v\<rparr>
     else v)"

text \<open>Any interleaving of the client's requests with the thread's looks.\<close>

datatype vib_event = Request int | Look

inductive vib_run :: "vib_event list \<Rightarrow> vib \<Rightarrow> vib \<Rightarrow> bool" where
  idle: "vib_run [] v v"
| request: "vib_run es (VIB_setStrength s v) w \<Longrightarrow> vib_run (Request s # es) v w"
| look: "vib_run es (VIB_thread v) w \<Longrightarrow> vib_run (Look # es) v w"

inductive_cases vib_run_Nil: "vib_run [] v w"
inductive_cases vib_run_Request: "vib_run (Request s # es) v w"
inductive_cases vib_run_Look: "vib_run (Look # es) v w"

section \<open>How outcomes compose\<close>

lemma and_then_acts: "fst (and_then x k) = fst x @ (case snd x of Returned y \<Rightarrow> fst (k y) | _ \<Rightarrow> [])"
  by (cases x; cases "snd x") (auto split: prod.split)

lemma and_then_outcome: "snd (and_then x k) = (case snd x of Returned y \<Rightarrow> snd (k y) | PoweredOff \<Rightarrow> PoweredOff
    | Sleeping \<Rightarrow> Sleeping)"
  by (cases x; cases "snd x") (auto split: prod.split)

lemmas and_then_simps = and_then_acts and_then_outcome
declare and_then.simps [simp del]

lemma PWR_powerOff_simps:
  "can_poweroff p \<Longrightarrow> snd (PWR_powerOff dev s p) = PoweredOff"
  "\<not> can_poweroff p \<Longrightarrow> PWR_powerOff dev s p = ([], Returned p)"
  by (simp_all add: PWR_powerOff_def)

text \<open>A difference of ticks never exceeds the difference of the times, whatever wrapped.\<close>

lemma ticks_diff: "s \<le> t \<Longrightarrow> ticks t - ticks s = of_nat (t - s)"
  by (simp add: ticks_def)

lemma unat_of_nat_le: "unat (of_nat n :: 32 word) \<le> n"
  by (simp add: unat_of_nat take_bit_eq_mod)

lemma ticks_diff_le: "s \<le> t \<Longrightarrow> k \<le> ticks t - ticks s \<Longrightarrow> unat k \<le> t - s"
  using unat_of_nat_le [of "t - s"] by (simp add: ticks_diff word_le_nat_alt)

lemma ticks_diff_ge:
  assumes "s \<le> t" "t - s < 2 ^ 32" "unat k \<le> t - s"
  shows "k \<le> ticks t - ticks s"
proof -
  have "unat (of_nat (t - s) :: 32 word) = t - s"
    using assms(2) by (simp only: unat_of_nat take_bit_eq_mod) simp
  then show ?thesis unfolding ticks_diff [OF assms(1)] word_le_nat_alt using assms(3) by simp
qed

lemma ticks_plus: "ticks s + 60000 = ticks (s + 60000)"
  by (simp add: ticks_def)

section \<open>The waiting loop ends\<close>

fun paced :: "nat \<Rightarrow> nap list \<Rightarrow> bool" where
  "paced t [] = True"
| "paced t (n # ns) \<longleftrightarrow> t \<le> nap_at n \<and> nap_at n \<le> t + 60000 \<and> paced (nap_at n) ns"

lemma paced_later: "paced t ns \<Longrightarrow> n \<in> set ns \<Longrightarrow> t \<le> nap_at n"
  by (induction t ns rule: paced.induct) force+

lemma wait_loop_ends:
  assumes "paced t ns" "s \<le> t" "t < s + 180000" "s \<le> u"
    and "list_all (\<lambda>n. u \<le> nap_at n \<longrightarrow> \<not> plugged n) ns" "list_ex (\<lambda>n. u + 120000 \<le> nap_at n) ns"
    and "can_poweroff p" "\<not> supports_deep_sleep dev"
  shows "snd (wait_loop dev ns es (ticks s) lid p) \<noteq> Sleeping"
  using assms
proof (induction ns arbitrary: t s es lid p)
  case (Cons n ns)
  let ?a = "nap_at n"
  have a: "s \<le> ?a" "?a - s < 2 ^ 32" "t \<le> ?a" "?a \<le> t + 60000" "paced ?a ns" using Cons.prems by auto
  obtain changed lid' where lid: "PLAT_lidChanged (lid_sensor n) lid = (changed, lid')" by fastforce
  obtain woke rest where wake:
    "PLAT_shouldWake (buttons dev) lid' changed (lid_sensor n) (es @ arrived n) = (woke, rest)" by fastforce
  have late: "120000 \<le> ticks ?a - ticks s \<longleftrightarrow> 120000 \<le> ?a - s"
    using ticks_diff_le [OF a(1), of 120000] ticks_diff_ge [OF a(1,2), of 120000] by auto
  consider "120000 \<le> ?a - s" "plugged n" | "120000 \<le> ?a - s" "\<not> plugged n" | "?a - s < 120000" by linarith
  then show ?case
  proof cases
    case 1
    then have u: "?a < u" using Cons.prems(5) by (simp add: not_le [symmetric])
    then have "snd (wait_loop dev ns rest (ticks (s + 60000)) lid' q) \<noteq> Sleeping" if "can_poweroff q" for q
      using Cons.prems a 1 that by (intro Cons.IH [OF a(5)]) simp_all
    then show ?thesis using 1 late Cons.prems(7) by (simp add: lid wake Let_def ticks_plus)
  next
    case 2
    then show ?thesis using late Cons.prems by (simp add: lid wake Let_def and_then_outcome PWR_powerOff_simps)
  next
    case 3
    then have "u + 120000 \<le> ?a \<Longrightarrow> False" using Cons.prems(4) by simp
    then have "snd (wait_loop dev ns rest (ticks s) lid' q) \<noteq> Sleeping" if "can_poweroff q" for q
      using Cons.prems a 3 that by (intro Cons.IH [OF a(5,1)]) auto
    then show ?thesis using 3 late Cons.prems(7) by (simp add: lid wake Let_def)
  qed
qed simp

text \<open>The turn at which it goes off: asleep before it, off with it.\<close>

lemma wait_loop_off:
  assumes "snd (wait_loop dev ns es (ticks s) lid p) = PoweredOff" "paced t ns" "s \<le> t"
    and "can_poweroff p" "\<not> supports_deep_sleep dev"
  shows "\<exists>k<length ns. snd (wait_loop dev (take k ns) es (ticks s) lid p) = Sleeping
    \<and> snd (wait_loop dev (take (Suc k) ns) es (ticks s) lid p) = PoweredOff
    \<and> s + 120000 \<le> nap_at (ns ! k) \<and> \<not> plugged (ns ! k)"
  using assms
proof (induction ns arbitrary: t s es lid p)
  case (Cons n ns)
  let ?a = "nap_at n"
  obtain changed lid' where lid: "PLAT_lidChanged (lid_sensor n) lid = (changed, lid')" by fastforce
  obtain woke rest where wake:
    "PLAT_shouldWake (buttons dev) lid' changed (lid_sensor n) (es @ arrived n) = (woke, rest)" by fastforce
  have a: "s \<le> ?a" "paced ?a ns" using Cons.prems by auto
  have late: "120000 \<le> ticks ?a - ticks s \<Longrightarrow> s + 120000 \<le> ?a"
    using ticks_diff_le [OF a(1), of 120000] a(1) by simp
  have awake: "\<not> woke" "\<not> requested_wake p" "\<not> asked n"
    using Cons.prems(1) by (auto simp: lid wake Let_def split: if_splits)
  let ?q = "p\<lparr>requested_wake := False, is_charging := plugged n\<rparr>"
  have step: "wait_loop dev (n # ms) es (ticks s) lid p = wait_loop dev ms rest (ticks s') lid' ?q"
    if "120000 \<le> ticks ?a - ticks s \<longrightarrow> plugged n \<and> s' = s + 60000" "\<not> 120000 \<le> ticks ?a - ticks s \<longrightarrow> s' = s" for ms s'
    using that awake by (auto simp: lid wake Let_def ticks_plus)
  consider "120000 \<le> ticks ?a - ticks s" "\<not> plugged n"
    | s' where "120000 \<le> ticks ?a - ticks s \<longrightarrow> plugged n \<and> s' = s + 60000" "\<not> 120000 \<le> ticks ?a - ticks s \<longrightarrow> s' = s"
    by (metis (full_types))
  then show ?case
  proof cases
    case 1
    then have "snd (wait_loop dev [n] es (ticks s) lid p) = PoweredOff"
      using awake Cons.prems(4,5) by (simp add: lid wake Let_def and_then_outcome PWR_powerOff_simps)
    then show ?thesis using 1 late by (intro exI [of _ 0]) simp
  next
    case (2 s')
    have s': "s \<le> s'" "s' \<le> ?a" using 2 late a(1) by (cases "120000 \<le> ticks ?a - ticks s"; simp)+
    have "snd (wait_loop dev ns rest (ticks s') lid' ?q) = PoweredOff" using Cons.prems(1) step [OF 2, of ns] by simp
    from Cons.IH [OF this a(2) s'(2)] Cons.prems(4,5) obtain k where
      "k < length ns" "snd (wait_loop dev (take k ns) rest (ticks s') lid' ?q) = Sleeping"
      "snd (wait_loop dev (take (Suc k) ns) rest (ticks s') lid' ?q) = PoweredOff"
      "s' + 120000 \<le> nap_at (ns ! k)" "\<not> plugged (ns ! k)" by auto
    then show ?thesis using step [OF 2] s'(1) by (intro exI [of _ "Suc k"]) simp
  qed
qed simp

text \<open>
  C23. Faux sleep ends: on a device without deep sleep that may power off, once the charger has been
  unplugged for two minutes the sleeping device has either been woken or turned itself off, provided
  it looks at least once a minute. It never turns itself off in the first two minutes, nor while it
  is charging: the look at which it goes off, up to which it sleeps, is at least two minutes after it
  fell asleep and finds the charger unplugged. The ticks may wrap meanwhile.
\<close>

theorem faux_sleep_ends:
  assumes "paced now ns" "now \<le> unplugged" "can_poweroff p" "\<not> supports_deep_sleep dev"
    and "list_all (\<lambda>n. unplugged \<le> nap_at n \<longrightarrow> \<not> plugged n) ns"
    and "list_ex (\<lambda>n. unplugged + 120000 \<le> nap_at n) ns"
  shows "snd (PWR_fauxSleep dev h h' now ns pad lid p) \<noteq> Sleeping
    \<and> (snd (PWR_fauxSleep dev h h' now ns pad lid p) = PoweredOff
       \<longrightarrow> (\<exists>k<length ns. snd (PWR_fauxSleep dev h h' now (take k ns) pad lid p) = Sleeping
             \<and> snd (PWR_fauxSleep dev h h' now (take (Suc k) ns) pad lid p) = PoweredOff
             \<and> now + 120000 \<le> nap_at (ns ! k) \<and> \<not> plugged (ns ! k)))"
proof -
  have asleep: "snd (PWR_fauxSleep dev h h' now ms pad lid p) = Sleeping \<longleftrightarrow> snd (wait_loop dev ms [] (ticks now) lid p) = Sleeping"
    and off: "snd (PWR_fauxSleep dev h h' now ms pad lid p) = PoweredOff \<longleftrightarrow> snd (wait_loop dev ms [] (ticks now) lid p) = PoweredOff" for ms
    by (auto simp: PWR_fauxSleep_def PWR_waitForWake_def and_then_outcome split: outcome.splits prod.splits)
  show ?thesis unfolding asleep off
    using wait_loop_ends [OF assms(1) order_refl _ assms(2,5,6,3,4)] wait_loop_off [OF _ assms(1) order_refl assms(3,4)] by simp
qed

section \<open>Powering off\<close>

text \<open>A run goes off exactly by PLAT_powerOff, as the last thing it does, and only when it may.\<close>

definition off_last :: "pwr \<Rightarrow> 'a powered \<Rightarrow> bool" where
  "off_last p x \<longleftrightarrow> (if snd x = PoweredOff then can_poweroff p \<and> (\<exists>as. fst x = as @ [PlatPowerOff] \<and> PlatPowerOff \<notin> set as)
     else PlatPowerOff \<notin> set (fst x))"

lemma off_last_and_then:
  assumes "off_last p x" "\<And>y. snd x = Returned y \<Longrightarrow> off_last p (k y)"
  shows "off_last p (and_then x k)"
proof (cases "snd x")
  case (Returned y)
  then have "PlatPowerOff \<notin> set (fst x)" using assms(1) by (simp add: off_last_def)
  moreover have "off_last p (k y)" using assms(2) Returned .
  ultimately show ?thesis using Returned by (auto simp: off_last_def and_then_simps)
qed (use assms(1) in \<open>auto simp: off_last_def and_then_simps\<close>)

lemma off_last_plain [simp]:
  "PlatPowerOff \<notin> set as \<Longrightarrow> off_last p (as, Returned x)" "PlatPowerOff \<notin> set as \<Longrightarrow> off_last p (as, Sleeping)"
  by (simp_all add: off_last_def)

lemma off_last_powerOff [simp]: "can_poweroff p = can_poweroff q \<Longrightarrow> off_last p (PWR_powerOff dev s q)"
  by (simp add: off_last_def PWR_powerOff_def)

lemma powerOff_returns: "snd (PWR_powerOff dev s p) = Returned q \<Longrightarrow> q = p"
  by (simp add: PWR_powerOff_def split: if_splits)

lemma off_last_wait: "can_poweroff p = can_poweroff q \<Longrightarrow> off_last p (wait_loop dev ns es slept lid q)"
proof (induction ns arbitrary: es slept lid q)
  case (Cons n ns)
  obtain changed lid' where lid: "PLAT_lidChanged (lid_sensor n) lid = (changed, lid')" by fastforce
  obtain woke rest where wake:
    "PLAT_shouldWake (buttons dev) lid' changed (lid_sensor n) (es @ arrived n) = (woke, rest)" by fastforce
  show ?case using Cons.prems
    by (auto simp: lid wake Let_def intro!: off_last_and_then Cons.IH dest!: powerOff_returns)
qed simp

lemma acts_plain [simp]: "PlatPowerOff \<notin> set (PWR_enterSleep h)" "PlatPowerOff \<notin> set (PWR_exitSleep h)"
  "Keymon False \<in> set (PWR_enterSleep h)"
  by (simp_all add: PWR_enterSleep_def PWR_exitSleep_def)

lemma off_last_faux: "can_poweroff p = can_poweroff q \<Longrightarrow> off_last p (PWR_fauxSleep dev h h' now ns pad lid q)"
  by (auto simp: PWR_fauxSleep_def PWR_waitForWake_def split: prod.split intro!: off_last_and_then off_last_wait)

lemma off_last_held: "off_last p (power_held dev f before m p)"
  by (auto simp: power_held_def intro!: off_last_and_then)

lemma power_held_returns: "snd (power_held dev f before m p) = Returned q \<Longrightarrow> q = p"
  by (auto simp: power_held_def and_then_outcome split: if_splits dest: powerOff_returns)

text \<open>PWR_update with its steps named: what is held, then whether it sleeps.\<close>

definition held_memory :: "frame \<Rightarrow> bool \<Rightarrow> pwr \<Rightarrow> pwr_memory \<Rightarrow> bool \<times> pwr_memory" where
  "held_memory f dirty p m = check_charge f dirty p (note_activity f p m)"

definition sleep_part ::
  "device \<Rightarrow> frame \<Rightarrow> bool \<Rightarrow> bool \<Rightarrow> lid_state \<Rightarrow> pwr_memory \<Rightarrow> pwr \<Rightarrow> (pad_state \<times> lid_state \<times> pwr) powered"
where
  "sleep_part dev f before after lid m p =
    and_then (if before then [BeforeSleep] else [], Returned ()) (\<lambda>_.
      PWR_fauxSleep dev (hdmi f) (hdmi_later f) (slept_at f) (naps f) (pad_now f) lid (p\<lparr>requested_sleep := False\<rparr>))"

lemma off_last_sleep: "off_last p (sleep_part dev f before after lid m p)"
  by (auto simp: sleep_part_def intro!: off_last_and_then off_last_faux)

lemma and_then_assoc: "and_then (and_then x k) l = and_then x (\<lambda>y. and_then (k y) l)"
  by (cases x; cases "snd x") (auto simp: prod_eq_iff and_then_simps split: outcome.splits)

lemma PWR_update_parts:
  "PWR_update dev f before after dirty show lid m p =
    (case held_memory f dirty p m of (dirty, m) \<Rightarrow>
     and_then (power_held dev f before m p) (\<lambda>p.
       let m = put_off_sleep f p (press_power f m) in
       and_then
         (if falls_asleep dev f m p
          then and_then (sleep_part dev f before after lid m p)
                 (\<lambda>(pad, lid, p). (if after then [AfterSleep] else [],
                    Returned (True, ticks (left_at f), pad, lid,
                      m\<lparr>last_input_at := ticks (left_at f), power_pressed_at := 0\<rparr>, p)))
          else ([], Returned (dirty, ticks (at f), pad_now f, lid, m, p)))
         (\<lambda>(dirty, now, pad, lid, m, p).
            case settings_overlay (buttons dev) now (muted_later f) pad dirty show m of (dirty, show, m) \<Rightarrow>
            ([], Returned (dirty, show, pad, lid, m, p)))))"
  unfolding PWR_update_def held_memory_def sleep_part_def Let_def and_then_assoc ..

lemma off_last_update: "off_last p (PWR_update dev f before after dirty show lid m p)"
  by (auto simp: PWR_update_parts Let_def split: prod.split
      intro!: off_last_and_then off_last_held off_last_sleep dest: power_held_returns)

text \<open>
  C22. The game is saved before the device goes off: whenever PWR_update turns the device off, be
  it because the power button was held, a power-off button was let go, or faux sleep lasted too long,
  powering off is allowed, the application's before_sleep ran first in that call, and powering off
  is the last thing done. A call that does not report the device off has not powered it off.
\<close>

theorem power_off_saves_first:
  assumes "x = PWR_update dev f True after dirty show lid m p"
  shows "if snd x = PoweredOff
    then can_poweroff p \<and> (\<exists>as. fst x = BeforeSleep # as @ [PlatPowerOff] \<and> PlatPowerOff \<notin> set as)
    else PlatPowerOff \<notin> set (fst x)"
proof -
  have first: "\<exists>as. fst (sleep_part dev f True after lid m p) = BeforeSleep # as" for m p
    by (simp add: sleep_part_def and_then_acts)
  have "snd x = PoweredOff \<Longrightarrow> \<exists>as. fst x = BeforeSleep # as"
    using first unfolding assms
    by (force simp: PWR_update_parts Let_def and_then_simps power_held_def PWR_powerOff_def
        split: prod.splits outcome.splits if_splits)
  moreover have "off_last p x" unfolding assms by (rule off_last_update)
  ultimately show ?thesis
    by (auto simp: off_last_def append_eq_Cons_conv split: if_splits)
qed

section \<open>Sleeping when idle\<close>

text \<open>
  One call per frame. Between the calls the application's switches, the battery thread and the
  hardware change the flags: \<open>others\<close>, any function. The last two components are the dirty and
  show_setting flags the application passes.
\<close>

type_synonym call = "frame \<times> (pwr \<Rightarrow> pwr) \<times> bool \<times> int"

type_synonym power_state = "lid_state \<times> pwr_memory \<times> pwr"

fun PWR_run :: "device \<Rightarrow> bool \<Rightarrow> bool \<Rightarrow> call list \<Rightarrow> power_state \<Rightarrow> power_state powered" where
  "PWR_run dev before after [] s = ([], Returned s)"
| "PWR_run dev before after ((f, others, dirty, show) # cs) (lid, m, p) =
    and_then (PWR_update dev f before after dirty show lid m (others p))
      (\<lambda>(dirty, show, pad, lid, m, p). PWR_run dev before after cs (lid, m, p))"

fun in_order :: "nat \<Rightarrow> call list \<Rightarrow> bool" where
  "in_order t [] = True"
| "in_order t ((f, _) # cs) \<longleftrightarrow> t \<le> at f \<and> at f \<le> left_at f \<and> in_order (left_at f) cs"

text \<open>The device is put to sleep by stopping keymon, which nothing else in a call does.\<close>

lemma falls_asleep_acts: "Keymon False \<notin> set (fst (power_held dev f before m p))"
  by (simp add: power_held_def and_then_acts PWR_powerOff_def split: outcome.split)

lemma held_memory_last:
  "last_input_at (snd (held_memory f dirty p m)) =
    (if was_charging m = - 1 \<and> is_charging p \<or> was_charging m \<noteq> - 1 \<and> was_charging m \<noteq> 0
        \<or> PAD_anyPressed (pad_now f) \<or> last_input_at m = 0
     then ticks (at f) else last_input_at m)"
  by (auto simp: held_memory_def check_charge_def note_activity_def Let_def)

lemma held_memory_idle:
  "was_charging m = 0 \<Longrightarrow> \<not> is_charging p \<Longrightarrow> was_charging (snd (held_memory f dirty p m)) = 0"
  by (auto simp: held_memory_def check_charge_def note_activity_def Let_def)

lemma press_power_last [simp]:
  "last_input_at (press_power f m) = last_input_at m" "was_charging (press_power f m) = was_charging m"
  by (simp_all add: press_power_def)

lemma settings_overlay_memory:
  "last_input_at (snd (snd (settings_overlay pl now mu pad d s m))) = last_input_at m"
  "was_charging (snd (snd (settings_overlay pl now mu pad d s m))) = was_charging m"
proof -
  have upd: "last_input_at (if b then v\<lparr>setting_shown_at := x\<rparr> else v) = last_input_at v"
    "last_input_at (if b then v\<lparr>mod_unpressed_at := x\<rparr> else v) = last_input_at v"
    "last_input_at (if b then v\<lparr>was_muted := y, setting_shown_at := x\<rparr> else v) = last_input_at v"
    "was_charging (if b then v\<lparr>setting_shown_at := x\<rparr> else v) = was_charging v"
    "was_charging (if b then v\<lparr>mod_unpressed_at := x\<rparr> else v) = was_charging v"
    "was_charging (if b then v\<lparr>was_muted := y, setting_shown_at := x\<rparr> else v) = was_charging v"
    for b x y and v :: pwr_memory by simp_all
  show "last_input_at (snd (snd (settings_overlay pl now mu pad d s m))) = last_input_at m"
    and "was_charging (snd (snd (settings_overlay pl now mu pad d s m))) = was_charging m"
    by (simp_all only: settings_overlay_def Let_def snd_conv upd)
qed

lemma settings_overlay_last:
  "settings_overlay pl now mu pad d s m = (d', s', m')
    \<Longrightarrow> last_input_at m' = last_input_at m \<and> was_charging m' = was_charging m"
  using settings_overlay_memory [of pl now mu pad d s m] by simp

text \<open>The memory a call leaves, and whether it slept, for any call that returns.\<close>

definition before_sleeping :: "frame \<Rightarrow> bool \<Rightarrow> pwr \<Rightarrow> pwr_memory \<Rightarrow> pwr_memory" where
  "before_sleeping f dirty p m = put_off_sleep f p (press_power f (snd (held_memory f dirty p m)))"

lemma PWR_update_sleeps:
  assumes "snd (power_held dev f before (snd (held_memory f dirty p m)) p) = Returned q"
  shows "Keymon False \<in> set (fst (PWR_update dev f before after dirty show lid m p))
    \<longleftrightarrow> falls_asleep dev f (before_sleeping f dirty p m) p"
  using assms power_held_returns [OF assms] falls_asleep_acts
  by (auto simp: PWR_update_parts before_sleeping_def Let_def and_then_simps sleep_part_def PWR_fauxSleep_def
      split_beta split: outcome.split)

lemma PWR_update_off:
  "\<forall>q. snd (power_held dev f before (snd (held_memory f dirty p m)) p) \<noteq> Returned q
    \<Longrightarrow> snd (PWR_update dev f before after dirty show lid m p) \<noteq> Returned r
      \<and> Keymon False \<notin> set (fst (PWR_update dev f before after dirty show lid m p))"
  using falls_asleep_acts
  by (auto simp: PWR_update_parts Let_def and_then_simps split: prod.split outcome.split)

lemma PWR_update_memory:
  assumes "snd (PWR_update dev f before after dirty show lid m p) = Returned (d, s, pad, lid', m', p')"
  shows "last_input_at m' =
      (if falls_asleep dev f (before_sleeping f dirty p m) p then ticks (left_at f)
       else last_input_at (before_sleeping f dirty p m))
    \<and> was_charging m' = was_charging (before_sleeping f dirty p m)"
  using assms
  by (auto simp: PWR_update_parts before_sleeping_def Let_def and_then_outcome
      split: prod.splits outcome.splits if_splits
      dest!: power_held_returns settings_overlay_last)

lemma before_sleeping_last:
  "last_input_at (before_sleeping f dirty p m) = ticks (at f)
    \<or> last_input_at (before_sleeping f dirty p m) = last_input_at m \<and> \<not> PAD_anyPressed (pad_now f)
       \<and> last_input_at m \<noteq> 0"
  by (auto simp: before_sleeping_def put_off_sleep_def held_memory_last)

lemma before_sleeping_prevented:
  "SLEEP_DELAY \<le> ticks (at f) - last_input_at (before_sleeping f dirty p m) \<Longrightarrow> \<not> PWR_preventAutosleep (hdmi f) p"
  by (auto simp: before_sleeping_def put_off_sleep_def SLEEP_DELAY_def split: if_splits)

text \<open>The time of the last input, with nothing pressed since.\<close>

definition quiet_since :: "nat \<Rightarrow> call list \<Rightarrow> bool" where
  "quiet_since t cs \<longleftrightarrow> list_all (\<lambda>(f, _). t < at f \<longrightarrow> \<not> PAD_anyPressed (pad_now f)) cs"

lemma PWR_run_quiet:
  assumes "snd (PWR_run dev before after cs (lid, m, p)) = Returned (lid', m', p')"
    and "in_order t cs" "last_input_at m = ticks l" "l \<le> t"
  shows "\<exists>l' t'. last_input_at m' = ticks l' \<and> l \<le> l' \<and> l' \<le> t' \<and> t \<le> t' \<and> quiet_since l' cs
    \<and> (\<forall>c. in_order t (cs @ [c]) \<longrightarrow> t' \<le> at (fst c))"
  using assms
proof (induction cs arbitrary: lid m p t l)
  case (Cons c cs)
  obtain f others dirty sh0 where c: "c = (f, others, dirty, sh0)" by (cases c)
  from Cons.prems(1) obtain d sh pad lid1 m1 p1 where upd:
    "snd (PWR_update dev f before after dirty sh0 lid m (others p)) = Returned (d, sh, pad, lid1, m1, p1)"
    and rest: "snd (PWR_run dev before after cs (lid1, m1, p1)) = Returned (lid', m', p')"
    by (auto simp: c and_then_outcome split: outcome.splits)
  have times: "t \<le> at f" "at f \<le> left_at f" "in_order (left_at f) cs" using Cons.prems(2) by (auto simp: c)
  have "\<exists>l1. last_input_at m1 = ticks l1 \<and> l \<le> l1 \<and> l1 \<le> left_at f \<and> (l1 < at f \<longrightarrow> \<not> PAD_anyPressed (pad_now f))"
    using PWR_update_memory [OF upd] before_sleeping_last [of f dirty "others p" m] times(1,2) Cons.prems(3,4)
    by (metis le_trans not_le order_refl)
  then obtain l1 where l1: "last_input_at m1 = ticks l1" "l \<le> l1" "l1 \<le> left_at f"
    "l1 < at f \<longrightarrow> \<not> PAD_anyPressed (pad_now f)" by blast
  from Cons.IH [OF rest times(3) l1(1,3)] obtain l' t' where
    "last_input_at m' = ticks l'" "l1 \<le> l'" "l' \<le> t'" "left_at f \<le> t'" "quiet_since l' cs"
    "\<forall>c. in_order (left_at f) (cs @ [c]) \<longrightarrow> t' \<le> at (fst c)" by blast
  moreover from this l1(2,4) have "quiet_since l' (c # cs)" by (auto simp: quiet_since_def c)
  ultimately show ?case using l1(2) times(1,2) by (intro exI [of _ l'] exI [of _ t']) (auto simp: c)
qed (auto simp: quiet_since_def)

text \<open>
  The device falls asleep by itself only when idle: after any sequence of calls of PWR_update
  since the start, if the next one puts the device to sleep although neither the hardware nor the
  sleep button asked for it, then no button was held in any call of the last thirty seconds, and the
  charger is unplugged, autosleep is enabled and no HDMI cable is connected.
\<close>

theorem autosleep_only_when_idle:
  assumes "snd (PWR_run dev before after cs (lid, pwr_memory_zero, p)) = Returned (lid', m', p')"
    and "in_order 0 (cs @ [(f, others, dirty, sh)])"
    and "Keymon False \<in> set (fst (PWR_update dev f before after dirty sh lid' m' (others p')))"
    and "\<not> requested_sleep (others p')"
    and "\<not> (can_sleep (others p') \<and> PAD_justReleased (BTN_SLEEP (buttons dev)) (pad_now f))"
  shows "list_all (\<lambda>(g, _). at f < at g + 30000 \<longrightarrow> \<not> PAD_anyPressed (pad_now g)) (cs @ [(f, others, dirty, sh)])
    \<and> \<not> PWR_preventAutosleep (hdmi f) (others p')"
proof -
  let ?m = "before_sleeping f dirty (others p') m'"
  have order: "in_order 0 cs" using assms(2) by (induction cs arbitrary: rule: in_order.induct) auto
  have zero: "last_input_at pwr_memory_zero = ticks 0" by (simp add: pwr_memory_zero_def ticks_def)
  from PWR_run_quiet [OF assms(1) order zero] obtain l t where
    l: "last_input_at m' = ticks l" "l \<le> at f" "quiet_since l cs"
    using assms(2) by (metis fst_conv le_trans order_refl)
  have late: "SLEEP_DELAY \<le> ticks (at f) - last_input_at ?m"
    using assms(3-5) PWR_update_sleeps [of dev f before dirty "others p'" m'] PWR_update_off [of dev f before dirty "others p'" m']
    unfolding falls_asleep_def before_sleeping_def by metis
  then have idle: "last_input_at ?m = ticks l" "\<not> PAD_anyPressed (pad_now f)"
    using before_sleeping_last [of f dirty "others p'" m'] l(1) by (auto simp: SLEEP_DELAY_def)
  have "30000 \<le> at f - l" using ticks_diff_le [OF l(2), of 30000] late idle(1) by (simp add: SLEEP_DELAY_def)
  then show ?thesis
    using l(3) idle(2) before_sleeping_prevented [OF late]
    by (auto simp: quiet_since_def list_all_iff)
qed

text \<open>An idle call: nothing pressed, no charger, autosleep wanted.\<close>

fun idle_calls :: "call list \<Rightarrow> bool" where
  "idle_calls [] = True"
| "idle_calls ((f, others, _) # cs) \<longleftrightarrow> \<not> PAD_anyPressed (pad_now f)
     \<and> (\<forall>p. \<not> PWR_preventAutosleep (hdmi f) (others p)) \<and> idle_calls cs"

text \<open>
  An idle device goes to sleep: thirty seconds of calls without any button, charger or HDMI
  cable put it to sleep, or the power button held at the start has turned it off.
\<close>

theorem idle_device_sleeps:
  assumes "in_order t cs" "idle_calls cs" "last_input_at m = ticks l" "ticks l \<noteq> 0" "l \<le> t"
    and "was_charging m = 0" "list_ex (\<lambda>(f, _). l + 30000 \<le> at f) cs"
    and "list_all (\<lambda>(f, _). at f < l + 2 ^ 32) cs"
  shows "Keymon False \<in> set (fst (PWR_run dev before after cs (lid, m, p)))
    \<or> snd (PWR_run dev before after cs (lid, m, p)) = PoweredOff"
  using assms
proof (induction cs arbitrary: lid m p t)
  case (Cons c cs)
  obtain f others dirty sh where c: "c = (f, others, dirty, sh)" by (cases c)
  let ?p = "others p" and ?u = "PWR_update dev f before after dirty sh lid m (others p)"
  have idle: "\<not> PAD_anyPressed (pad_now f)" "\<not> PWR_preventAutosleep (hdmi f) ?p" "\<not> is_charging ?p"
    and times: "t \<le> at f" "at f \<le> left_at f" "in_order (left_at f) cs" "at f < l + 2 ^ 32"
    using Cons.prems by (auto simp: c PWR_preventAutosleep_def)
  have held: "last_input_at (snd (held_memory f dirty ?p m)) = ticks l"
    "was_charging (snd (held_memory f dirty ?p m)) = 0"
    using Cons.prems(3,4,6) idle(1,3) by (simp_all add: held_memory_last held_memory_idle)
  have kept: "last_input_at (before_sleeping f dirty ?p m) = ticks l"
    "was_charging (before_sleeping f dirty ?p m) = 0"
    using held idle(2) by (auto simp: before_sleeping_def put_off_sleep_def)
  show ?case
  proof (cases "\<exists>q. snd (power_held dev f before (snd (held_memory f dirty ?p m)) ?p) = Returned q")
    case False
    then have "snd (power_held dev f before (snd (held_memory f dirty ?p m)) ?p) = PoweredOff"
      by (auto simp: power_held_def and_then_outcome PWR_powerOff_def split: if_splits)
    then have "snd ?u = PoweredOff"
      by (simp add: PWR_update_parts and_then_outcome split_beta)
    then show ?thesis by (simp add: c and_then_outcome)
  next
    case True
    note sleeps = PWR_update_sleeps [OF someI_ex [OF True], of after sh lid]
    show ?thesis
    proof (cases "falls_asleep dev f (before_sleeping f dirty ?p m) ?p")
      case True
      then show ?thesis using sleeps by (simp add: c and_then_acts)
    next
      case False
      then have "\<not> SLEEP_DELAY \<le> ticks (at f) - ticks l" using kept(1) by (simp add: falls_asleep_def)
      then have "\<not> unat SLEEP_DELAY \<le> at f - l"
        using ticks_diff_ge [of l "at f" SLEEP_DELAY] times(1,4) Cons.prems(5) by linarith
      then have early: "at f < l + 30000" by (simp add: SLEEP_DELAY_def)
      obtain d s pad lid1 m1 p1 where u: "snd ?u = Returned (d, s, pad, lid1, m1, p1)"
        using False True power_held_returns [OF someI_ex [OF True]] someI_ex [OF True]
        by (auto simp: PWR_update_parts and_then_outcome split_beta Let_def before_sleeping_def)
      have "Keymon False \<in> set (fst (PWR_run dev before after cs (lid1, m1, p1)))
          \<or> snd (PWR_run dev before after cs (lid1, m1, p1)) = PoweredOff"
        using Cons.IH [OF times(3), of m1 lid1 p1] Cons.prems PWR_update_memory [OF u] kept False early times(1,2)
        by (auto simp: c)
      then show ?thesis using u by (auto simp: c and_then_simps)
    qed
  qed
qed simp

section \<open>The motor follows the requests\<close>

fun requests :: "vib_event list \<Rightarrow> int set" where
  "requests [] = {}"
| "requests (Request s # es) = insert s (requests es)"
| "requests (Look # es) = requests es"

text \<open>Only requested strengths, or those of the start, ever reach the motor; the deferral stays bounded.\<close>

lemma vib_run_in_requests:
  assumes "vib_run es v w" "motor v = strength v" "defer_count v \<le> DEFER_FRAMES"
  shows "motor w = strength w \<and> defer_count w \<le> DEFER_FRAMES
    \<and> {queued_strength w, strength w} \<subseteq> insert (queued_strength v) (insert (strength v) (requests es))"
  using assms
proof (induction rule: vib_run.induct)
  case (request es s v w)
  then have "motor (VIB_setStrength s v) = strength (VIB_setStrength s v)"
    "defer_count (VIB_setStrength s v) \<le> DEFER_FRAMES" by (simp_all add: VIB_setStrength_def)
  from request.IH [OF this] show ?case by (auto simp: VIB_setStrength_def split: if_splits)
next
  case (look es v w)
  then have "motor (VIB_thread v) = strength (VIB_thread v)" "defer_count (VIB_thread v) \<le> DEFER_FRAMES"
    by (auto simp: VIB_thread_def)
  from look.IH [OF this] show ?case by (auto simp: VIB_thread_def split: if_splits)
qed auto

lemma look_settles: "defer_count v \<le> 3 \<Longrightarrow> 4 \<le> n + defer_count v \<or> queued_strength v \<noteq> 0 \<and> 0 < n
    \<Longrightarrow> strength ((VIB_thread ^^ n) v) = queued_strength v"
proof (induction n arbitrary: v)
  case (Suc n)
  have settled: "strength ((VIB_thread ^^ k) w) = queued_strength w" if "strength w = queued_strength w" for k w
  proof -
    have "VIB_thread w = w" using that by (simp add: VIB_thread_def)
    then have "(VIB_thread ^^ k) w = w" by (induction k) simp_all
    with that show ?thesis by simp
  qed
  show ?case
  proof (cases "queued_strength v \<noteq> strength v \<and> defer_count v < 3 \<and> queued_strength v = 0")
    case True
    then have "VIB_thread v = v\<lparr>defer_count := defer_count v + 1\<rparr>" by (simp add: VIB_thread_def DEFER_FRAMES_def)
    then show ?thesis using Suc.IH [of "VIB_thread v"] Suc.prems True by (simp add: funpow_swap1)
  next
    case False
    then have "strength (VIB_thread v) = queued_strength (VIB_thread v)" "queued_strength (VIB_thread v) = queued_strength v"
      by (auto simp: VIB_thread_def DEFER_FRAMES_def)
    then show ?thesis using settled [of "VIB_thread v" n] by (simp add: funpow_swap1)
  qed
qed simp

text \<open>
  The motor settles: whatever the client requested and however its requests interleaved with the
  thread, four looks later the motor runs at the strength queued last.
\<close>

theorem rumble_settles:
  assumes "vib_run es v w" "motor v = strength v" "defer_count v = 0"
  shows "strength ((VIB_thread ^^ 4) w) = queued_strength w"
  using look_settles [of w 4] vib_run_in_requests [OF assms(1,2)] assms(3) by (simp add: DEFER_FRAMES_def)

text \<open>
  The deferral counts looks over the whole time the motor runs: it is not reset when the request
  comes back. After three gaps of one look, a fourth one stops the motor at once.
\<close>

theorem rumble_gap_stops:
  "let on = \<lparr>queued_strength = 9, strength = 9, defer_count = 0, motor = 9\<rparr>;
       gap = (\<lambda>v. VIB_setStrength 9 (VIB_thread (VIB_setStrength 0 v)))
   in motor (VIB_thread (VIB_setStrength 0 on)) = 9
      \<and> motor (VIB_thread (VIB_setStrength 0 (gap (gap (gap on))))) = 0"
  by code_simp

text \<open>
  PWR_update forgets a press of the power button only by going to sleep. When another loop polled the
  release, the device goes off with the button up.
\<close>

theorem stale_press_powers_off:
  assumes "PAD_anyPressed (pad_now f) = False" "can_poweroff p" "power_pressed_at m = ticks t" "ticks t \<noteq> 0"
    and "t \<le> at f" "t + 1000 \<le> at f" "at f - t < 2 ^ 32"
  shows "snd (PWR_update dev f before after dirty sh lid m p) = PoweredOff"
proof -
  have "power_pressed_at (snd (held_memory f dirty p m)) = ticks t"
    using assms(3) by (simp add: held_memory_def check_charge_def note_activity_def Let_def)
  then have "snd (power_held dev f before (snd (held_memory f dirty p m)) p) = PoweredOff"
    using assms ticks_diff_ge [of t "at f" 1000]
    by (simp add: power_held_def and_then_outcome PWR_powerOff_simps)
  then show ?thesis by (simp add: PWR_update_parts and_then_outcome split_beta)
qed

section \<open>Witnesses\<close>

definition mini :: device where
  "mini = \<lparr>buttons = miyoomini, has_power_button = True, has_poweroff_button = False,
     supports_deep_sleep = False, system_path = None, helper_there = (\<lambda>_. False)\<rparr>"

definition nap_quiet :: "nat \<Rightarrow> nap" where
  "nap_quiet t = \<lparr>lid_sensor = True, arrived = [], asked = False, nap_at = t, plugged = False,
     saved_there = True, suspended = (\<lambda>_. 0), mem_written = None\<rparr>"

definition pwr_on :: pwr where
  "pwr_on = snd (PWR_init False 50 \<lparr>can_sleep = False, can_poweroff = False, can_autosleep = False,
     requested_sleep = False, requested_wake = False, is_charging = False, charge = 0, should_warn = False\<rparr>)"

definition frame_at :: "nat \<Rightarrow> pad_state \<Rightarrow> frame" where
  "frame_at t pad = \<lparr>at = t, pad_now = pad, muted = 0, muted_later = 0, hdmi = False, hdmi_later = False,
     saved = True, slept_at = t, naps = [nap_quiet (t + 60000), nap_quiet (t + 120000)], left_at = t\<rparr>"

definition no_lid :: lid_state where
  "no_lid = \<lparr>has_lid = False, is_open = True\<rparr>"

lemmas power_examples = mini_def nap_quiet_def pwr_on_def frame_at_def no_lid_def PWR_init_def
  PWR_updateBatteryStatus_def Let_def

theorem faux_sleep_ends_witness:
  "snd (PWR_fauxSleep mini False False 7 [nap_quiet 60007, nap_quiet 120007] pad_zero no_lid pwr_on) \<noteq> Sleeping"
  using faux_sleep_ends [of 7 "[nap_quiet 60007, nap_quiet 120007]" 7 pwr_on mini False False pad_zero no_lid]
  by (simp add: power_examples)

theorem power_off_saves_first_witness:
  "\<exists>as. fst (PWR_update mini (frame_at 5000 pad_zero) True True False 0 no_lid
      (pwr_memory_zero\<lparr>power_pressed_at := ticks 3000\<rparr>) pwr_on) = BeforeSleep # as @ [PlatPowerOff]"
proof -
  have "snd (PWR_update mini (frame_at 5000 pad_zero) True True False 0 no_lid
      (pwr_memory_zero\<lparr>power_pressed_at := ticks 3000\<rparr>) pwr_on) = PoweredOff"
    by (rule stale_press_powers_off [of _ _ _ 3000])
      (simp_all add: power_examples PAD_anyPressed_def pad_zero_def ticks_def)
  then show ?thesis using power_off_saves_first [OF refl, of mini "frame_at 5000 pad_zero" True False 0 no_lid] by metis
qed

definition held_a :: pad_state where
  "held_a = pad_zero\<lparr>is_pressed := btn 4\<rparr>"

definition call_at :: "nat \<Rightarrow> pad_state \<Rightarrow> call" where
  "call_at t pad = (frame_at t pad, id, False, 0)"

lemma first_call:
  "PWR_run mini True True [call_at 5 held_a] (no_lid, pwr_memory_zero, pwr_on)
    = ([], Returned (no_lid, pwr_memory_zero\<lparr>last_input_at := 5, mod_unpressed_at := 5,
         was_muted := 0, was_charging := 0\<rparr>, pwr_on))"
  by (simp add: call_at_def power_examples PWR_update_def note_activity_def check_charge_def power_held_def
      press_power_def put_off_sleep_def falls_asleep_def settings_overlay_def and_then.simps PAD_justReleased_def
      PAD_justPressed_def PAD_isPressed_def PAD_anyPressed_def PAD_justRepeated_def held_a_def pad_zero_def
      pwr_memory_zero_def ticks_def miyoomini_def BTN_POWER_def BTN_POWEROFF_def CHARGE_DELAY_def SLEEP_DELAY_def btn_ids)

theorem autosleep_only_when_idle_witness:
  "Keymon False \<in> set (fst (PWR_update mini (frame_at 30005 pad_zero) True True False 0 no_lid
      (pwr_memory_zero\<lparr>last_input_at := 5, mod_unpressed_at := 5, was_muted := 0, was_charging := 0\<rparr>) pwr_on))
   \<and> list_all (\<lambda>(g, _). 30005 < at g + 30000 \<longrightarrow> \<not> PAD_anyPressed (pad_now g)) [call_at 5 held_a, call_at 30005 pad_zero]"
  (is "?asleep \<and> ?quiet")
proof
  have held: "power_held mini (frame_at 30005 pad_zero) True (snd (held_memory (frame_at 30005 pad_zero) False pwr_on
      (pwr_memory_zero\<lparr>last_input_at := 5, mod_unpressed_at := 5, was_muted := 0, was_charging := 0\<rparr>))) pwr_on
    = ([], Returned pwr_on)"
    by (simp add: power_held_def held_memory_def check_charge_def note_activity_def Let_def frame_at_def
        PAD_justReleased_def pad_zero_def pwr_memory_zero_def)
  have "falls_asleep mini (frame_at 30005 pad_zero) (before_sleeping (frame_at 30005 pad_zero) False pwr_on
      (pwr_memory_zero\<lparr>last_input_at := 5, mod_unpressed_at := 5, was_muted := 0, was_charging := 0\<rparr>)) pwr_on"
    by (simp add: falls_asleep_def before_sleeping_def put_off_sleep_def press_power_def held_memory_def check_charge_def
        note_activity_def power_examples PAD_justPressed_def PAD_anyPressed_def pad_zero_def pwr_memory_zero_def ticks_def
        SLEEP_DELAY_def PWR_preventAutosleep_def)
  then show asleep: ?asleep using PWR_update_sleeps [OF arg_cong [OF held, of snd, simplified snd_conv]] by blast
  have run: "snd (PWR_run mini True True [call_at 5 held_a] (no_lid, pwr_memory_zero, pwr_on))
    = Returned (no_lid, pwr_memory_zero\<lparr>last_input_at := 5, mod_unpressed_at := 5,
         was_muted := 0, was_charging := 0\<rparr>, pwr_on)" by (simp add: first_call)
  have order: "in_order 0 ([call_at 5 held_a] @ [call_at 30005 pad_zero])" by (simp add: call_at_def frame_at_def)
  from autosleep_only_when_idle [OF run order [unfolded call_at_def [of 30005]]] asleep
  show ?quiet by (simp add: call_at_def power_examples PAD_justReleased_def pad_zero_def list_all_iff)
qed

theorem idle_device_sleeps_witness:
  "Keymon False \<in> set (fst (PWR_run mini True True [call_at 40000 pad_zero]
       (no_lid, pwr_memory_zero\<lparr>last_input_at := 5, was_charging := 0\<rparr>, pwr_on)))
   \<or> snd (PWR_run mini True True [call_at 40000 pad_zero]
       (no_lid, pwr_memory_zero\<lparr>last_input_at := 5, was_charging := 0\<rparr>, pwr_on)) = PoweredOff"
proof -
  let ?calls = "[(frame_at 40000 pad_zero, PWR_enableAutosleep \<circ> (\<lambda>p. p\<lparr>is_charging := False\<rparr>), False, 0 :: int)]"
  have calls: "PWR_run mini True True [call_at 40000 pad_zero] (no_lid, pwr_memory_zero\<lparr>last_input_at := 5, was_charging := 0\<rparr>, pwr_on)
    = PWR_run mini True True ?calls (no_lid, pwr_memory_zero\<lparr>last_input_at := 5, was_charging := 0\<rparr>, pwr_on)"
    by (simp add: call_at_def power_examples PWR_enableAutosleep_def)
  show ?thesis unfolding calls
    by (rule idle_device_sleeps [of 5 _ _ 5])
      (simp_all add: frame_at_def PAD_anyPressed_def pad_zero_def pwr_memory_zero_def ticks_def
        PWR_preventAutosleep_def PWR_enableAutosleep_def)
qed

end
