(* ===== verification/Video.thy ===== *)
theory Video
  imports Complex_Main Effects "HOL-Library.Signed_Division"
begin

text \<open>
  From the core's frame to the screen (minarch.c: selectScaler, buffer_downsample,
  video_refresh_callback; miyoomini/platform/platform.c: PLAT_resizeVideo, PLAT_getScaler,
  PLAT_blitRenderer).

  selectScaler chooses by how much a frame is enlarged and where it goes on a surface that the
  platform then stretches to the panel. Its integers are the C code's, division rounds towards zero;
  its doubles are reals in which every operation is followed by the rounding \<open>rnd\<close>, a parameter. The
  scalers work on pixel buffers as in the theory Scaler; the NEON ones are inline assembly and a
  parameter. The debug text that can be drawn into the frame is left out (show_debug off).
\<close>

section \<open>The renderer\<close>

record renderer =
  r_aspect :: real
  r_scale :: int
  true_w :: int
  true_h :: int
  src_x :: int
  src_y :: int
  src_w :: int
  src_h :: int
  src_p :: int
  dst_x :: int
  dst_y :: int
  dst_w :: int
  dst_h :: int
  dst_p :: int

definition renderer_zero :: renderer where
  "renderer_zero = \<lparr>r_aspect = 0, r_scale = 0, true_w = 0, true_h = 0, src_x = 0, src_y = 0, src_w = 0,
     src_h = 0, src_p = 0, dst_x = 0, dst_y = 0, dst_w = 0, dst_h = 0, dst_p = 0\<rparr>"

datatype scaling = SCALE_NATIVE | SCALE_ASPECT | SCALE_FULLSCREEN | SCALE_CROPPED

text \<open>The panel: DEVICE_WIDTH, DEVICE_HEIGHT, DEVICE_PITCH and HDMI_WIDTH; FIXED_BPP is 2.\<close>

record panel =
  DEVICE_WIDTH :: int
  DEVICE_HEIGHT :: int
  DEVICE_PITCH :: int
  HDMI_WIDTH :: int

definition FIXED_BPP :: int where "FIXED_BPP = 2"

section \<open>C arithmetic\<close>

definition CEIL_DIV :: "int \<Rightarrow> int \<Rightarrow> int" where
  "CEIL_DIV a b = (a + b - 1) sdiv b"

text \<open>The conversion of a double to int drops the fraction.\<close>

definition to_int :: "real \<Rightarrow> int" where
  "to_int x = (if x < 0 then \<lceil>x\<rceil> else \<lfloor>x\<rfloor>)"


section \<open>selectScaler\<close>

text \<open>The image at the aspect ratio of the core, never lower than the frame.\<close>

definition aspect_size :: "(real \<Rightarrow> real) \<Rightarrow> real \<Rightarrow> int \<Rightarrow> int \<Rightarrow> int \<times> int" where
  "aspect_size rnd ar sw sh =
    (let h = to_int (rnd (rnd (rnd (of_int sw + ar) - 1) / ar))
     in if h < sh then (let w = to_int (rnd (of_int sh * ar)) in (w + w smod 2, sh)) else (sw, h))"

text \<open>A frame larger than the panel: centred by moving the source.\<close>

definition forced_crop :: "panel \<Rightarrow> renderer \<Rightarrow> renderer" where
  "forced_crop d r =
    (let ox = (DEVICE_WIDTH d - src_w r) sdiv 2; oy = (DEVICE_HEIGHT d - src_h r) sdiv 2;
         r = (if ox < 0 then r\<lparr>src_x := - ox\<rparr> else r\<lparr>dst_x := ox\<rparr>);
         r = (if oy < 0 then r\<lparr>src_y := - oy\<rparr> else r\<lparr>dst_y := oy\<rparr>)
     in r\<lparr>dst_w := DEVICE_WIDTH d, dst_h := DEVICE_HEIGHT d, dst_p := DEVICE_PITCH d, r_scale := 0\<rparr>)"

definition cropped :: "panel \<Rightarrow> renderer \<Rightarrow> renderer" where
  "cropped d r =
    (let scale = min (CEIL_DIV (DEVICE_WIDTH d) (src_w r)) (CEIL_DIV (DEVICE_HEIGHT d) (src_h r));
         ox = (DEVICE_WIDTH d - src_w r * scale) sdiv 2; oy = (DEVICE_HEIGHT d - src_h r * scale) sdiv 2;
         r = (if ox < 0 then r\<lparr>src_x := - ox sdiv scale, src_w := src_w r - (- ox sdiv scale) * 2\<rparr>
              else r\<lparr>dst_x := ox\<rparr>);
         r = (if oy < 0 then r\<lparr>src_y := - oy sdiv scale, src_h := src_h r - (- oy sdiv scale) * 2\<rparr>
              else r\<lparr>dst_y := oy\<rparr>)
     in r\<lparr>dst_w := DEVICE_WIDTH d, dst_h := DEVICE_HEIGHT d, dst_p := DEVICE_PITCH d, r_scale := scale\<rparr>)"

definition native :: "panel \<Rightarrow> int \<Rightarrow> renderer \<Rightarrow> renderer" where
  "native d scale r =
    r\<lparr>dst_x := (DEVICE_WIDTH d - src_w r * scale) sdiv 2, dst_y := (DEVICE_HEIGHT d - src_h r * scale) sdiv 2,
      dst_w := DEVICE_WIDTH d, dst_h := DEVICE_HEIGHT d, dst_p := DEVICE_PITCH d, r_scale := scale\<rparr>"

definition full_fit :: "panel \<Rightarrow> renderer \<Rightarrow> renderer" where
  "full_fit d r = r\<lparr>dst_w := DEVICE_WIDTH d, dst_h := DEVICE_HEIGHT d, dst_p := DEVICE_PITCH d, r_scale := - 1\<rparr>"

definition aspect_fit :: "(real \<Rightarrow> real) \<Rightarrow> panel \<Rightarrow> int \<times> int \<Rightarrow> renderer \<Rightarrow> renderer" where
  "aspect_fit rnd d sz r =
    (case sz of (aw, ah) \<Rightarrow>
     let f = min (rnd (of_int (DEVICE_WIDTH d) / of_int aw)) (rnd (of_int (DEVICE_HEIGHT d) / of_int ah));
         w = to_int (rnd (of_int aw * f)); h = to_int (rnd (of_int ah * f))
     in r\<lparr>dst_w := w, dst_h := h, dst_p := DEVICE_PITCH d, dst_x := (DEVICE_WIDTH d - w) sdiv 2,
          dst_y := (DEVICE_HEIGHT d - h) sdiv 2,
          r_scale := (if f = 1 \<and> w = src_w r \<and> h = src_h r then 1 else - 1)\<rparr>)"

text \<open>The oversized surfaces: enlarged past the panel by whole pixels, shrunk by the platform.\<close>

definition over_scale :: "panel \<Rightarrow> int \<Rightarrow> int \<Rightarrow> int" where
  "over_scale d sw sh =
    (let x = CEIL_DIV (DEVICE_WIDTH d) sw; y = CEIL_DIV (DEVICE_HEIGHT d) sh;
         odd = (DEVICE_HEIGHT d - sh) smod 8
     in max x (if odd \<noteq> 0 \<and> odd < 8 then y - 1 else y))"

definition core_aspect :: "(real \<Rightarrow> real) \<Rightarrow> real \<Rightarrow> int" where
  "core_aspect rnd ar = to_int (rnd (ar * 1000))"

definition fixed_aspect :: "(real \<Rightarrow> real) \<Rightarrow> panel \<Rightarrow> int" where
  "fixed_aspect rnd d = to_int (rnd (rnd (of_int (DEVICE_WIDTH d) / of_int (DEVICE_HEIGHT d)) * 1000))"

definition letterbox :: "(real \<Rightarrow> real) \<Rightarrow> panel \<Rightarrow> real \<Rightarrow> int \<Rightarrow> renderer \<Rightarrow> renderer" where
  "letterbox rnd d ar scale r =
    (let hr = rnd (of_int (to_int (rnd (of_int (DEVICE_WIDTH d) / ar))) / of_int (DEVICE_HEIGHT d));
         h = to_int (rnd (of_int (src_h r * scale) / hr))
     in r\<lparr>dst_w := src_w r * scale, dst_h := h, dst_y := (h - src_h r * scale) sdiv 2\<rparr>)"

definition pillarbox :: "(real \<Rightarrow> real) \<Rightarrow> panel \<Rightarrow> real \<Rightarrow> int \<Rightarrow> renderer \<Rightarrow> renderer" where
  "pillarbox rnd d ar scale r =
    (let wr = rnd (of_int (to_int (rnd (of_int (DEVICE_HEIGHT d) * ar))) / of_int (DEVICE_WIDTH d));
         w = to_int (rnd (of_int (src_w r * scale) / wr)) sdiv 8 * 8
     in r\<lparr>dst_w := w, dst_h := src_h r * scale, dst_x := (w - src_w r * scale) sdiv 2\<rparr>)"

definition oversized :: "(real \<Rightarrow> real) \<Rightarrow> panel \<Rightarrow> real \<Rightarrow> scaling \<Rightarrow> renderer \<Rightarrow> renderer" where
  "oversized rnd d ar mode r =
    (let scale = over_scale d (src_w r) (src_h r);
         plain = r\<lparr>dst_w := src_w r * scale, dst_h := src_h r * scale\<rparr>;
         r = (if mode = SCALE_FULLSCREEN then plain
              else if fixed_aspect rnd d < core_aspect rnd ar then letterbox rnd d ar scale r
              else if core_aspect rnd ar < fixed_aspect rnd d then pillarbox rnd d ar scale r
              else plain)
     in r\<lparr>dst_p := dst_w r * FIXED_BPP, r_scale := scale\<rparr>)"

definition placed :: "(real \<Rightarrow> real) \<Rightarrow> panel \<Rightarrow> bool \<Rightarrow> real \<Rightarrow> scaling \<Rightarrow> renderer \<Rightarrow> renderer" where
  "placed rnd d fit ar mode r =
    (let mode = (if mode = SCALE_CROPPED \<and> DEVICE_WIDTH d = HDMI_WIDTH d then SCALE_NATIVE else mode)
     in if mode = SCALE_NATIVE \<or> mode = SCALE_CROPPED then
          (let scale = min (DEVICE_WIDTH d sdiv src_w r) (DEVICE_HEIGHT d sdiv src_h r)
           in if scale = 0 then forced_crop d r
              else if mode = SCALE_CROPPED then cropped d r else native d scale r)\<lparr>r_aspect := 0\<rparr>
        else (if fit then if mode = SCALE_FULLSCREEN then full_fit d r
                else aspect_fit rnd d (aspect_size rnd ar (src_w r) (src_h r)) r
              else oversized rnd d ar mode r)\<lparr>r_aspect := (if mode = SCALE_FULLSCREEN then - 1 else ar)\<rparr>)"

text \<open>The renderer for a new size of frame, and the size of the surface asked for.\<close>

definition selectScaler ::
  "(real \<Rightarrow> real) \<Rightarrow> panel \<Rightarrow> bool \<Rightarrow> real \<Rightarrow> scaling \<Rightarrow> int \<Rightarrow> int \<Rightarrow> int \<Rightarrow> renderer \<times> int \<times> int \<times> int"
where
  "selectScaler rnd d fit ar mode sw sh sp =
    (let r = placed rnd d fit ar mode
               (renderer_zero\<lparr>true_w := sw, true_h := sh, src_w := sw, src_h := sh, src_p := sp\<rparr>)
     in (r, if fit then (DEVICE_WIDTH d, DEVICE_HEIGHT d, dst_p r) else (dst_w r, dst_h r, dst_p r)))"

section \<open>The platform's surfaces\<close>

datatype effect = EFFECT_NONE | EFFECT_LINE | EFFECT_GRID

datatype blit = Line nat | Grid nat | N16 nat

text \<open>PLAT_getScaler; None is the effect -1 that PLAT_setSharpness leaves.\<close>

definition PLAT_getScaler :: "effect option \<Rightarrow> int \<Rightarrow> blit" where
  "PLAT_getScaler e scale =
    (if e = Some EFFECT_LINE then
       (if scale = 4 then Line 4 else if scale = 3 then Line 3 else if scale = 2 then Line 2 else Line 1)
     else if e = Some EFFECT_GRID \<and> scale = 3 then Grid 3
     else if e = Some EFFECT_GRID \<and> scale = 2 then Grid 2
     else if scale = 6 then N16 6 else if scale = 5 then N16 5 else if scale = 4 then N16 4
     else if scale = 3 then N16 3 else if scale = 2 then N16 2 else N16 1)"

type_synonym pixels = "nat \<Rightarrow> 16 word"

text \<open>Source and destination, then width, height and pitch of the source and the destination's pitch.\<close>

type_synonym scaler = "pixels \<Rightarrow> pixels \<Rightarrow> nat \<Rightarrow> nat \<Rightarrow> nat \<Rightarrow> nat \<Rightarrow> pixels"

fun blit_scaler :: "(nat \<Rightarrow> scaler) \<Rightarrow> blit \<Rightarrow> scaler" where
  "blit_scaler neon (Line n) = (if n = 4 then scale4x_line else if n = 3 then scale3x_line
     else if n = 2 then scale2x_line else scale1x_line)"
| "blit_scaler neon (Grid n) = (if n = 3 then scale3x_grid else scale2x_grid)"
| "blit_scaler neon (N16 n) = neon n"

text \<open>
  VID_Context: the panel's own surface of \<open>front_size\<close> bytes, and one buffer that holds two pages of
  \<open>page_size\<close> bytes (PAGE_SIZE) for surfaces of any other size; the page numbered \<open>page\<close> is drawn to.
  \<open>screen_size\<close> is the bytes of the surface last made there. An access behind the buffer is a fault.
\<close>

record vid =
  direct :: bool
  v_width :: int
  v_height :: int
  v_pitch :: int
  page :: nat
  cleared :: bool
  front :: pixels
  front_size :: int
  buffer :: pixels
  page_size :: int
  screen_size :: int

definition PAGE_COUNT :: int where "PAGE_COUNT = 2"

definition ALIGN4K :: "int \<Rightarrow> int" where "ALIGN4K val = (val + 4095) div 4096 * 4096"

text \<open>The first byte and the first pixel of the page, and the bytes from there to the end of the buffer.\<close>

definition page_start :: "vid \<Rightarrow> int" where
  "page_start v = ALIGN4K (int (page v) * page_size v)"

definition page_pixel :: "vid \<Rightarrow> nat" where
  "page_pixel v = nat (page_start v div 2)"

definition page_room :: "vid \<Rightarrow> int" where
  "page_room v = ALIGN4K (ALIGN4K (page_size v) * PAGE_COUNT) - page_start v"

definition surface :: "vid \<Rightarrow> pixels" where
  "surface v = (if direct v then front v else Scaler.at (page_pixel v) (buffer v))"

definition room :: "vid \<Rightarrow> int" where
  "room v = (if direct v then front_size v else page_room v)"

definition set_surface :: "pixels \<Rightarrow> vid \<Rightarrow> vid" where
  "set_surface px v =
    (if direct v then v\<lparr>front := px\<rparr>
     else v\<lparr>buffer := (\<lambda>i. if i < page_pixel v then buffer v i else px (i - page_pixel v))\<rparr>)"

text \<open>memset to 0 of the first n bytes, n even.\<close>

definition zeroed :: "int \<Rightarrow> pixels \<Rightarrow> pixels" where
  "zeroed n px = (\<lambda>i. if int i < n div 2 then 0 else px i)"

definition PLAT_resizeVideo :: "panel \<Rightarrow> int \<times> int \<times> int \<Rightarrow> vid \<Rightarrow> vid option" where
  "PLAT_resizeVideo d dims v =
    (case dims of (w, h, p) \<Rightarrow>
     let v = v\<lparr>direct := (w = DEVICE_WIDTH d \<and> h = DEVICE_HEIGHT d \<and> p = DEVICE_PITCH d),
               v_width := w, v_height := h, v_pitch := p\<rparr>;
         v = (if direct v then v else v\<lparr>screen_size := p * h\<rparr>)
     in if room v < p * h then None else Some (set_surface (zeroed (p * h) (surface v)) v))"

text \<open>
  PLAT_clearVideo of vid.screen: the page that is drawn to, and the surface made there, whose rows
  follow each other as its pitch is twice its width.
\<close>

definition clear_page :: "vid \<Rightarrow> vid option" where
  "clear_page v =
    (if page_room v < screen_size v then None
     else Some (v\<lparr>buffer := (\<lambda>i. if page_pixel v \<le> i \<and> int (i - page_pixel v) < max (page_size v) (screen_size v) div 2
                                then 0 else buffer v i)\<rparr>))"

definition PLAT_clearAll :: "vid \<Rightarrow> vid option" where
  "PLAT_clearAll v = map_option (\<lambda>v. v\<lparr>cleared := True\<rparr>) (clear_page v)"

text \<open>PLAT_flip; the stretching of the page to the panel is done by the hardware.\<close>

definition PLAT_flip :: "(vid \<Rightarrow> pixels) \<Rightarrow> vid \<Rightarrow> vid option" where
  "PLAT_flip stretch v =
    (let v = (if direct v then v else (v\<lparr>front := stretch v\<rparr>)\<lparr>page := 1 - page v\<rparr>)
     in if cleared v then map_option (\<lambda>v. v\<lparr>cleared := False\<rparr>) (clear_page v) else Some v)"

section \<open>Frames of the core\<close>

text \<open>An xrgb8888 pixel in RGB565.\<close>

definition to_565 :: "32 word \<Rightarrow> 16 word" where
  "to_565 p = ucast (drop_bit 8 (p AND 0xF80000)) OR ucast (drop_bit 5 (p AND 0xFC00))
     OR ucast (drop_bit 3 (p AND 0xF8))"

text \<open>buffer_downsample: the input and output pointers walk along, extra pixels are skipped per row.\<close>

primrec down_row :: "nat \<Rightarrow> (nat \<Rightarrow> 32 word) \<Rightarrow> nat \<times> nat \<times> pixels \<Rightarrow> nat \<times> nat \<times> pixels" where
  "down_row 0 input st = st"
| "down_row (Suc n) input st =
    (case st of (i, j, out) \<Rightarrow> down_row n input (i + 1, j + 1, out(j := to_565 (input i))))"

primrec down_rows :: "nat \<Rightarrow> nat \<Rightarrow> nat \<Rightarrow> (nat \<Rightarrow> 32 word) \<Rightarrow> nat \<times> nat \<times> pixels \<Rightarrow> nat \<times> nat \<times> pixels" where
  "down_rows 0 w extra input st = st"
| "down_rows (Suc n) w extra input st =
    (case down_row w input st of (i, j, out) \<Rightarrow> down_rows n w extra input (i + extra, j, out))"

definition buffer_downsample :: "(nat \<Rightarrow> 32 word) \<Rightarrow> nat \<Rightarrow> nat \<Rightarrow> nat \<Rightarrow> pixels \<Rightarrow> pixels" where
  "buffer_downsample input w h pitch buf = snd (snd (down_rows h w (pitch div 4 - w) input (0, 0, buf)))"

record video =
  rend :: renderer
  r_blit :: blit
  effect_type :: "effect option"
  next_effect :: "effect option"
  v_vid :: vid
  last_flip :: "32 word"
  fps_ticks :: int
  down_buffer :: pixels

text \<open>The settings of the player a frame depends on.\<close>

record setting =
  s_panel :: panel
  s_fit :: bool
  s_aspect :: real
  s_mode :: scaling
  s_downsample :: bool
  s_fast :: bool
  s_threaded :: bool

text \<open>
  How far behind its first byte a scaler writes: by how much it enlarges, the rows it writes, and the
  end of the last one. The 1x line effect writes every second row twice, and one below the image.
\<close>

fun blit_factor :: "blit \<Rightarrow> int" where
  "blit_factor (Line n) = int n" | "blit_factor (Grid n) = int n" | "blit_factor (N16 n) = int n"

definition blit_rows :: "blit \<Rightarrow> int \<Rightarrow> int" where
  "blit_rows b h = (if b = Line 1 then (h + 1) div 2 * 2 + 1 else blit_factor b * h)"

definition blit_extent :: "blit \<Rightarrow> renderer \<Rightarrow> int" where
  "blit_extent b r =
    (if src_w r \<le> 0 \<or> src_h r \<le> 0 then 0
     else (blit_rows b (src_h r) - 1) * dst_p r + blit_factor b * src_w r * FIXED_BPP)"

definition PLAT_blitRenderer :: "(nat \<Rightarrow> scaler) \<Rightarrow> pixels \<Rightarrow> video \<Rightarrow> video option" where
  "PLAT_blitRenderer neon src s =
    (let s = (if effect_type s \<noteq> next_effect s
              then s\<lparr>effect_type := next_effect s, r_blit := PLAT_getScaler (next_effect s) (r_scale (rend s))\<rparr> else s);
         r = rend s;
         offset = dst_y r * dst_p r + dst_x r * FIXED_BPP
     in if offset < 0 \<or> room (v_vid s) < offset + blit_extent (r_blit s) r then None
        else Some (s\<lparr>v_vid := set_surface
               (Scaler.within (nat (offset div 2))
                  (\<lambda>d. blit_scaler neon (r_blit s) src d (nat (src_w r)) (nat (src_h r)) (nat (src_p r)) (nat (dst_p r)))
                  (surface (v_vid s))) (v_vid s)\<rparr>))"

text \<open>A new size of frame, or dst_p reset to 0 by the menu, selects a scaler and clears the surfaces.\<close>

definition resized :: "(real \<Rightarrow> real) \<Rightarrow> setting \<Rightarrow> nat \<Rightarrow> nat \<Rightarrow> nat \<Rightarrow> video \<Rightarrow> video option" where
  "resized rnd c w h p s =
    (if dst_p (rend s) = 0 \<or> int w \<noteq> true_w (rend s) \<or> int h \<noteq> true_h (rend s) then
       (case selectScaler rnd (s_panel c) (s_fit c) (s_aspect c) (s_mode c) (int w) (int h) (int p) of (r, dims) \<Rightarrow>
        do {
          v \<leftarrow> PLAT_resizeVideo (s_panel c) dims (v_vid s);
          v \<leftarrow> PLAT_clearAll v;
          Some (s\<lparr>rend := r, r_blit := PLAT_getScaler (effect_type s) (r_scale r), v_vid := v\<rparr>)
        })
     else Some s)"

definition draw_frame ::
  "(real \<Rightarrow> real) \<Rightarrow> (nat \<Rightarrow> scaler) \<Rightarrow> setting \<Rightarrow> pixels \<Rightarrow> nat \<Rightarrow> nat \<Rightarrow> nat \<Rightarrow> video \<Rightarrow> video option"
where
  "draw_frame rnd neon c px w h pitch s = do {
     let s = s\<lparr>fps_ticks := fps_ticks s + 1\<rparr>;
     let p = (if s_downsample c then pitch div 2 else pitch);
     s \<leftarrow> resized rnd c w h p s;
     (if s_downsample c then
        (let buf = buffer_downsample (rd32 px) w h (p * 2) (down_buffer s)
         in PLAT_blitRenderer neon buf (s\<lparr>down_buffer := buf\<rparr>))
      else PLAT_blitRenderer neon px s)
   }"

definition video_refresh_callback_main ::
  "(real \<Rightarrow> real) \<Rightarrow> (nat \<Rightarrow> scaler) \<Rightarrow> (vid \<Rightarrow> pixels) \<Rightarrow> setting \<Rightarrow> 32 word \<Rightarrow> pixels option \<Rightarrow> nat \<Rightarrow> nat \<Rightarrow> nat
    \<Rightarrow> video \<Rightarrow> video option"
where
  "video_refresh_callback_main rnd neon stretch c now px w h pitch s =
    (if s_fast c \<and> now - last_flip s < 10 then Some s
     else case px of None \<Rightarrow> Some s
     | Some px \<Rightarrow> do {
         s \<leftarrow> draw_frame rnd neon c px w h pitch s;
         v \<leftarrow> (if s_threaded c then Some (v_vid s) else PLAT_flip stretch (v_vid s));
         Some (s\<lparr>v_vid := v, last_flip := now\<rparr>)
       })"

text \<open>
  video_refresh_callback with a threaded core leaves the frame in the back buffer, which the main
  thread draws; it is allocated anew when the size or the pitch changes.
\<close>

record backbuffer =
  b_w :: nat
  b_h :: nat
  b_pitch :: nat
  b_px :: pixels

definition keep_back :: "pixels \<Rightarrow> nat \<Rightarrow> nat \<Rightarrow> nat \<Rightarrow> backbuffer option \<Rightarrow> backbuffer" where
  "keep_back px w h pitch b =
    (let fresh = \<lparr>b_w = w, b_h = h, b_pitch = pitch, b_px = (\<lambda>_. 0)\<rparr>;
         b = (case b of None \<Rightarrow> fresh
              | Some b \<Rightarrow> if b_w b \<noteq> w \<or> b_h b \<noteq> h \<or> b_pitch b \<noteq> pitch then fresh else b)
     in b\<lparr>b_px := (\<lambda>i. if i < b_h b * b_pitch b div 2 then px i else b_px b i)\<rparr>)"

definition video_refresh_callback ::
  "(real \<Rightarrow> real) \<Rightarrow> (nat \<Rightarrow> scaler) \<Rightarrow> (vid \<Rightarrow> pixels) \<Rightarrow> setting \<Rightarrow> 32 word \<Rightarrow> pixels option \<Rightarrow> nat \<Rightarrow> nat \<Rightarrow> nat
    \<Rightarrow> video \<times> backbuffer option \<Rightarrow> (video \<times> backbuffer option) option"
where
  "video_refresh_callback rnd neon stretch c now data w h pitch st =
    (case data of None \<Rightarrow> Some st
     | Some px \<Rightarrow>
         if s_threaded c then Some (fst st, Some (keep_back px w h pitch (snd st)))
         else map_option (\<lambda>s. (s, snd st)) (video_refresh_callback_main rnd neon stretch c now data w h pitch (fst st)))"

section \<open>Converting 32 bit frames\<close>

lemma down_row_eq:
  "down_row n input (i, j, out) =
    (i + n, j + n, \<lambda>a. if j \<le> a \<and> a < j + n then to_565 (input (i + (a - j))) else out a)"
proof (induction n arbitrary: i j out)
  case (Suc n)
  show ?case unfolding down_row.simps prod.case Suc.IH by (auto simp: fun_eq_iff Suc_diff_Suc)
qed (auto simp: fun_eq_iff)

lemma down_rows_eq:
  assumes "0 < w"
  shows "down_rows n w e input (i, j, out) =
    (i + n * (w + e), j + n * w,
     \<lambda>a. if j \<le> a \<and> a < j + n * w then to_565 (input (i + (a - j) div w * (w + e) + (a - j) mod w)) else out a)"
proof (induction n arbitrary: i j out)
  case (Suc n)
  have step: "(a - (j + w)) div w = (a - j) div w - 1 \<and> (a - (j + w)) mod w = (a - j) mod w \<and> 0 < (a - j) div w"
    if "j + w \<le> a" for a
  proof -
    have "a - j = w + (a - (j + w))" using that by simp
    then have "(a - j) div w = Suc ((a - (j + w)) div w)" "(a - j) mod w = (a - (j + w)) mod w"
      using assms by (metis div_add_self1 Suc_eq_plus1 not_less0, metis mod_add_self1)
    then show ?thesis by simp
  qed
  have whole: "i + w + e + (q - 1) * (w + e) + r = i + q * (w + e) + r" if "0 < q" for q r
    using that by (cases q) simp_all
  have first: "(a - j) div w = 0 \<and> (a - j) mod w = a - j" if "j \<le> a" "a < j + w" for a using that by auto
  show ?case
    unfolding down_rows.simps down_row_eq prod.case Suc.IH prod.inject
  proof (intro conjI ext)
    fix a
    show "(if j + w \<le> a \<and> a < j + w + n * w
           then to_565 (input (i + w + e + (a - (j + w)) div w * (w + e) + (a - (j + w)) mod w))
           else if j \<le> a \<and> a < j + w then to_565 (input (i + (a - j))) else out a) =
         (if j \<le> a \<and> a < j + Suc n * w then to_565 (input (i + (a - j) div w * (w + e) + (a - j) mod w)) else out a)"
    proof (cases "j + w \<le> a")
      case True
      have "i + w + e + (a - (j + w)) div w * (w + e) + (a - (j + w)) mod w
        = i + (a - j) div w * (w + e) + (a - j) mod w"
        using step [OF True] whole [of "(a - j) div w"] by simp
      then show ?thesis using True by (simp only:) simp
    next
      case False
      with first [of a] show ?thesis by auto
    qed
  qed (simp_all add: algebra_simps)
qed (auto simp: fun_eq_iff)

text \<open>The converted frame is dense, whatever the pitch of the core's frame.\<close>

lemma buffer_downsample_pixel:
  assumes "w \<le> pitch div 4" "x < w" "y < h"
  shows "buffer_downsample input w h pitch buf (y * w + x) = to_565 (input (y * (pitch div 4) + x))"
proof -
  have "y * w + x < h * w" using assms(2,3) by (metis add_le_mono1 add_less_le_mono le_trans less_le_trans mult.commute mult_le_mono1 mult_Suc nat_add_left_cancel_less not_less Suc_leI add.commute)
  moreover have "(y * w + x) div w = y" "(y * w + x) mod w = x" using assms(2) by auto
  ultimately show ?thesis using assms down_rows_eq [of w h "pitch div 4 - w" input 0 0 buf]
    by (simp add: buffer_downsample_def)
qed

section \<open>An image placed on a surface\<close>



section \<open>Where the image goes\<close>












subsection \<open>Rounding\<close>













section \<open>The image stays on the surface\<close>






lemma box_fields [simp]:
  "src_w (letterbox rnd d ar n r) = src_w r" "src_h (letterbox rnd d ar n r) = src_h r"
  "dst_w (letterbox rnd d ar n r) = src_w r * n" "dst_x (letterbox rnd d ar n r) = dst_x r"
  "dst_y (letterbox rnd d ar n r) = (dst_h (letterbox rnd d ar n r) - src_h r * n) sdiv 2"
  "src_w (pillarbox rnd d ar n r) = src_w r" "src_h (pillarbox rnd d ar n r) = src_h r"
  "dst_h (pillarbox rnd d ar n r) = src_h r * n" "dst_y (pillarbox rnd d ar n r) = dst_y r"
  "dst_x (pillarbox rnd d ar n r) = (dst_w (pillarbox rnd d ar n r) - src_w r * n) sdiv 2"
  by (simp_all add: letterbox_def pillarbox_def Let_def)



section \<open>A frame on the screen\<close>






text \<open>
  The surfaces in use fit: the panel's own has its size, and what was made on a page fits one. A new
  surface fits when it is the panel's own or no larger than a page.
\<close>

definition vid_ok :: "panel \<Rightarrow> vid \<Rightarrow> bool" where
  "vid_ok d v \<longleftrightarrow> page v \<le> 1 \<and> 0 \<le> page_size v \<and> screen_size v \<le> page_size v \<and> front_size v = DEVICE_PITCH d * DEVICE_HEIGHT d"





text \<open>After a change of size everything on the new surface is black.\<close>

lemma zeroed_zero: "int i < n div 2 \<Longrightarrow> zeroed n px i = 0" by (simp add: zeroed_def)






section \<open>Properties\<close>




section \<open>Examples\<close>

definition mini_panel :: panel where
  "mini_panel = \<lparr>DEVICE_WIDTH = 640, DEVICE_HEIGHT = 480, DEVICE_PITCH = 1280, HDMI_WIDTH = 640\<rparr>"

definition mini_setting :: "real \<Rightarrow> scaling \<Rightarrow> setting" where
  "mini_setting ar mode = \<lparr>s_panel = mini_panel, s_fit = False, s_aspect = ar, s_mode = mode,
     s_downsample = False, s_fast = False, s_threaded = False\<rparr>"

definition video_start :: video where
  "video_start = \<lparr>rend = renderer_zero, r_blit = N16 1, effect_type = Some EFFECT_NONE, next_effect = Some EFFECT_NONE,
     v_vid = \<lparr>direct = True, v_width = 640, v_height = 480, v_pitch = 1280, page = 1, cleared = False,
       front = (\<lambda>_. 0), front_size = 614400, buffer = (\<lambda>_. 0), page_size = 5529600, screen_size = 614400\<rparr>,
     last_flip = 0, fps_ticks = 0, down_buffer = (\<lambda>_. 0)\<rparr>"


definition exact :: "real \<Rightarrow> real" where "exact x = x"

definition portable :: "nat \<Rightarrow> scaler" where "portable n = scaler_c16 n n"






section \<open>Where it goes wrong\<close>

text \<open>
  A frame larger than the panel at native size: the source offset of the forced crop is never used and
  the frame's own size is drawn, so the rows past the panel are written behind its surface.
\<close>

theorem forced_crop_overruns:
  "draw_frame exact portable (mini_setting 1 SCALE_NATIVE) px 640 512 1280 video_start = None"
proof -
  have place: "selectScaler exact mini_panel False 1 SCALE_NATIVE 640 512 1280
    = (\<lparr>r_aspect = 0, r_scale = 0, true_w = 640, true_h = 512, src_x = 0, src_y = 16, src_w = 640, src_h = 512,
       src_p = 1280, dst_x = 0, dst_y = 0, dst_w = 640, dst_h = 480, dst_p = 1280\<rparr>, 640, 480, 1280)"
    by (simp add: selectScaler_def placed_def forced_crop_def Let_def renderer_zero_def mini_panel_def signed_divide_int_def)
  show ?thesis
    by (simp add: draw_frame_def Let_def resized_def mini_setting_def place)
      (simp add: video_start_def renderer_zero_def mini_panel_def PLAT_resizeVideo_def PLAT_clearAll_def clear_page_def
        set_surface_def room_def page_room_def page_start_def ALIGN4K_def PAGE_COUNT_def PLAT_blitRenderer_def
        PLAT_getScaler_def blit_extent_def blit_rows_def FIXED_BPP_def)
qed

text \<open>
  The pages of the 752x560 panel hold twice its width and height. A frame of 368x512 at full screen is
  enlarged three times and takes more: on the second page, which is the first to be drawn to, clearing
  the surface leaves the buffer. The code has a note that the demands on the buffer are not checked.
\<close>

definition flip_panel :: panel where
  "flip_panel = \<lparr>DEVICE_WIDTH = 752, DEVICE_HEIGHT = 560, DEVICE_PITCH = 1504, HDMI_WIDTH = 752\<rparr>"

definition flip_video :: video where
  "flip_video = video_start\<lparr>v_vid := (v_vid video_start)\<lparr>v_width := 752, v_height := 560, v_pitch := 1504,
     front_size := 842240, page_size := 3368960, screen_size := 842240\<rparr>\<rparr>"

theorem page_too_small:
  "vid_ok flip_panel (v_vid flip_video)
   \<and> draw_frame exact portable ((mini_setting 1 SCALE_FULLSCREEN)\<lparr>s_panel := flip_panel\<rparr>) px 368 512 736 flip_video = None"
proof -
  have place: "snd (selectScaler exact flip_panel False 1 SCALE_FULLSCREEN 368 512 736) = (1104, 1536, 2208)"
    by (simp add: selectScaler_def placed_def oversized_def over_scale_def CEIL_DIV_def Let_def renderer_zero_def flip_panel_def
        FIXED_BPP_def signed_divide_int_def signed_modulo_int_def)
  have "PLAT_resizeVideo flip_panel (1104, 1536, 2208) (v_vid flip_video) = None"
    by (simp add: PLAT_resizeVideo_def flip_panel_def flip_video_def video_start_def room_def page_room_def page_start_def
        ALIGN4K_def PAGE_COUNT_def Let_def)
  moreover have "dst_p (rend flip_video) = 0" by (simp add: flip_video_def video_start_def renderer_zero_def)
  ultimately have "draw_frame exact portable ((mini_setting 1 SCALE_FULLSCREEN)\<lparr>s_panel := flip_panel\<rparr>) px 368 512 736 flip_video = None"
    using place by (cases "selectScaler exact flip_panel False 1 SCALE_FULLSCREEN 368 512 736")
      (simp add: draw_frame_def Let_def resized_def mini_setting_def)
  then show ?thesis by (simp add: vid_ok_def flip_video_def video_start_def flip_panel_def)
qed

text \<open>A pillar box rounded down to a multiple of 8 can be narrower than the image: it starts before the surface.\<close>

theorem pillarbox_too_narrow:
  "draw_frame exact portable (mini_setting (318 / 239) SCALE_ASPECT) px 318 239 636 video_start = None"
proof -
  have "over_scale mini_panel 318 239 = 3" "fixed_aspect exact mini_panel = 1333" "core_aspect exact (318 / 239) = 1330"
    by (simp_all add: over_scale_def Let_def CEIL_DIV_def mini_panel_def signed_divide_int_def signed_modulo_int_def
        fixed_aspect_def core_aspect_def exact_def to_int_def)
  then have place: "selectScaler exact mini_panel False (318 / 239) SCALE_ASPECT 318 239 636
    = (\<lparr>r_aspect = 318 / 239, r_scale = 3, true_w = 318, true_h = 239, src_x = 0, src_y = 0, src_w = 318, src_h = 239,
       src_p = 636, dst_x = - 1, dst_y = 0, dst_w = 952, dst_h = 717, dst_p = 1904\<rparr>,
       952, 717, 1904)"
    by (simp add: selectScaler_def placed_def oversized_def pillarbox_def Let_def renderer_zero_def FIXED_BPP_def)
      (simp add: mini_panel_def exact_def to_int_def signed_divide_int_def)
  show ?thesis
    by (simp add: draw_frame_def Let_def resized_def mini_setting_def place video_start_def renderer_zero_def
        PLAT_blitRenderer_def FIXED_BPP_def)
qed

text \<open>A frame so small that it would be enlarged more than six times is not enlarged at all.\<close>

theorem tiny_frame_unscaled:
  "r_scale (fst (selectScaler exact mini_panel False (3 / 2) SCALE_FULLSCREEN 96 64 192)) = 8"
  "PLAT_getScaler (Some EFFECT_NONE) 8 = N16 1"
  by (simp_all add: selectScaler_def placed_def oversized_def Let_def renderer_zero_def over_scale_def CEIL_DIV_def
      mini_panel_def signed_divide_int_def signed_modulo_int_def PLAT_getScaler_def)

text \<open>
  A 32 bit frame with padding: the converted frame is dense, but selectScaler was given half of the
  padded pitch, so the second row is read one pixel late.
\<close>

theorem downsample_skews:
  "src_p (fst (selectScaler rnd d fit ar mode 2 2 (12 div 2))) = 6"
  "buffer_downsample input 2 2 12 buf (6 div 2) = to_565 (input (1 * 3 + 1))"
  using buffer_downsample_pixel [of 2 12 1 1 2 input buf]
  by (auto simp: selectScaler_def placed_def forced_crop_def cropped_def native_def full_fit_def aspect_fit_def
      oversized_def letterbox_def pillarbox_def Let_def renderer_zero_def split: prod.split)

end
