(* ===== verification/LodorSettings.thy ===== *)
theory LodorSettings
  imports Listing
begin

text \<open>
  settings.conf (minui.c: the readers and writers of the launcher's toggles; minarch/cheevos.c: the
  player's reader of the RetroAchievements toggles).

  Seven keys, one per line. A writer is given some of the values, reads the others back from the
  file and rewrites the whole file through Lodor_atomicWrite. The abstract state is the record of the
  seven values as the readers see them; every writer is an update of it, or changes nothing.
\<close>

section \<open>Reading\<close>

definition LODOR_SETTINGS :: string where
  "LODOR_SETTINGS = SDCARD_PATH @ ''/Tools/'' @ PLATFORM @ ''/Lodor.pak/settings.conf''"

text \<open>The conversion %d of sscanf: None when there is no digit; a 32-bit long saturates.\<close>

definition scan_d :: "string \<Rightarrow> int option" where
  "scan_d s =
    (let t = dropWhile c_isspace s;
         (neg, u) = (case t of [] \<Rightarrow> (False, t) | c # cs \<Rightarrow>
           if c = CHR ''-'' then (True, cs) else if c = CHR ''+'' then (False, cs) else (False, t));
         ds = takeWhile c_isdigit u; v = int (digits_val 0 ds)
     in if ds = [] then None else Some (saturate (if neg then - v else v)))"

text \<open>sscanf (line, "KEY=%d", &v) for a key without blanks.\<close>

definition scan_key :: "string \<Rightarrow> string \<Rightarrow> int option" where
  "scan_key key line =
    (if strncmp line (key @ ''='') (length key + 1) = 0 then scan_d (drop (length key + 1) line) else None)"

definition settings_lines :: "fsys \<Rightarrow> string list" where
  "settings_lines fs = (case fs_files fs LODOR_SETTINGS of None \<Rightarrow> [] | Some text \<Rightarrow> fgets_all 256 text)"

definition warm_line :: "string \<Rightarrow> bool \<times> int \<Rightarrow> bool \<times> int" where
  "warm_line line wg =
    (case scan_key ''KEEP_WIFI_WARM'' line of
       Some v \<Rightarrow> (v \<noteq> 0, snd wg)
     | None \<Rightarrow> (case scan_key ''WIFI_WARM_GRACE'' line of Some v \<Rightarrow> (fst wg, v) | None \<Rightarrow> wg))"

definition Lodor_readWifiWarm :: "fsys \<Rightarrow> bool \<times> int" where
  "Lodor_readWifiWarm fs = fold warm_line (settings_lines fs) (False, 120)"

text \<open>The body of the loops that read one flag; the last line with the key counts.\<close>

definition flag_line :: "string \<Rightarrow> string \<Rightarrow> bool \<Rightarrow> bool" where
  "flag_line key line b = (case scan_key key line of Some v \<Rightarrow> v \<noteq> 0 | None \<Rightarrow> b)"

definition Lodor_readQualityDots :: "fsys \<Rightarrow> bool" where
  "Lodor_readQualityDots fs = fold (flag_line ''SHOW_QUALITY_DOTS'') (settings_lines fs) False"

definition Lodor_readUserBadge :: "fsys \<Rightarrow> bool" where
  "Lodor_readUserBadge fs = fold (flag_line ''SHOW_USER_BADGE'') (settings_lines fs) True"

definition Lodor_readBoxArt :: "fsys \<Rightarrow> bool" where
  "Lodor_readBoxArt fs = fold (flag_line ''fetch_covers'') (settings_lines fs) True"

definition Lodor_readRAKey :: "fsys \<Rightarrow> string \<Rightarrow> bool \<Rightarrow> bool" where
  "Lodor_readRAKey fs key def = fold (flag_line key) (settings_lines fs) def"

text \<open>
  The player's reader (cheevos.c): the file up to the first NUL, split at newlines with strtok_r,
  which skips empty lines; blanks may precede the key.
\<close>

definition ra_line :: "string \<Rightarrow> bool \<times> bool \<Rightarrow> bool \<times> bool" where
  "ra_line line eh =
    (let line = dropWhile c_isspace line in
     case scan_key ''RA_ENABLE'' line of
       Some v \<Rightarrow> (v \<noteq> 0, snd eh)
     | None \<Rightarrow> (case scan_key ''RA_HARDCORE'' line of Some v \<Rightarrow> (fst eh, v \<noteq> 0) | None \<Rightarrow> eh))"

function split_lines :: "string \<Rightarrow> string list" where
  "split_lines s =
    (case dropWhile (\<lambda>c. c = NL) s of
       [] \<Rightarrow> []
     | t \<Rightarrow> takeWhile (\<lambda>c. c \<noteq> NL) t # split_lines (dropWhile (\<lambda>c. c \<noteq> NL) t))"
  by pat_completeness auto
termination
proof (relation "measure length", goal_cases)
  case (2 s c cs)
  have "c \<noteq> NL" using 2 hd_dropWhile [of "\<lambda>c. c = NL" s] by force
  then have "length (dropWhile (\<lambda>c. c \<noteq> NL) (c # cs)) \<le> length cs" by (simp add: length_dropWhile_le)
  also have "\<dots> < length (dropWhile (\<lambda>c. c = NL) s)" using 2 by simp
  also have "\<dots> \<le> length s" by (rule length_dropWhile_le)
  finally show ?case by simp
qed simp

declare split_lines.simps [simp del]

definition cheevos_read_file :: "fsys \<Rightarrow> string \<Rightarrow> string option" where
  "cheevos_read_file fs path =
    (case fs_files fs path of None \<Rightarrow> None
     | Some text \<Rightarrow> if 16 * 1024 * 1024 < length text then None else Some text)"

definition cheevos_read_ra_settings :: "fsys \<Rightarrow> bool \<times> bool" where
  "cheevos_read_ra_settings fs =
    (case cheevos_read_file fs LODOR_SETTINGS of
       None \<Rightarrow> (True, False)
     | Some text \<Rightarrow> fold ra_line (split_lines (c_str text)) (True, False))"

section \<open>Writing\<close>

record settings =
  wifi_warm :: bool
  warm_grace :: int
  quality_dots :: bool
  user_badge :: bool
  box_art :: bool
  ra_enable :: bool
  ra_hardcore :: bool

definition flag :: "bool \<Rightarrow> string" where
  "flag b = (if b then ''1'' else ''0'')"

definition settings_rows :: "settings \<Rightarrow> string list" where
  "settings_rows s =
    [''KEEP_WIFI_WARM='' @ flag (wifi_warm s), ''WIFI_WARM_GRACE='' @ c_int (warm_grace s),
     ''SHOW_QUALITY_DOTS='' @ flag (quality_dots s), ''SHOW_USER_BADGE='' @ flag (user_badge s),
     ''fetch_covers='' @ flag (box_art s), ''RA_ENABLE='' @ flag (ra_enable s),
     ''RA_HARDCORE='' @ flag (ra_hardcore s)]"

definition settings_body :: "settings \<Rightarrow> string" where
  "settings_body s = concat (map (\<lambda>r. r @ [NL]) (settings_rows s))"

text \<open>What both writers end with; the states are those the card and its cache go through.\<close>

definition write_body :: "write_outcome \<Rightarrow> fsys \<Rightarrow> settings \<Rightarrow> disk list" where
  "write_body wo fs s =
    (let body = settings_body s
     in if 512 \<le> length body then [calm fs] else fst (Lodor_atomicWrite wo fs LODOR_SETTINGS body))"

definition Lodor_writeSettings :: "write_outcome \<Rightarrow> fsys \<Rightarrow> bool \<Rightarrow> int \<Rightarrow> bool \<Rightarrow> bool \<Rightarrow> bool \<Rightarrow> disk list" where
  "Lodor_writeSettings wo fs warm grace dots badge covers =
    write_body wo fs
      \<lparr>wifi_warm = warm, warm_grace = grace, quality_dots = dots, user_badge = badge, box_art = covers,
       ra_enable = Lodor_readRAKey fs ''RA_ENABLE'' True, ra_hardcore = Lodor_readRAKey fs ''RA_HARDCORE'' False\<rparr>"

definition Lodor_writeRASettings :: "write_outcome \<Rightarrow> fsys \<Rightarrow> bool \<Rightarrow> bool \<Rightarrow> disk list" where
  "Lodor_writeRASettings wo fs enable hardcore =
    (case Lodor_readWifiWarm fs of (warm, grace) \<Rightarrow>
     write_body wo fs
       \<lparr>wifi_warm = warm, warm_grace = grace, quality_dots = Lodor_readQualityDots fs,
        user_badge = Lodor_readUserBadge fs, box_art = Lodor_readBoxArt fs,
        ra_enable = enable, ra_hardcore = hardcore\<rparr>)"

definition Lodor_writeWifiWarm :: "write_outcome \<Rightarrow> fsys \<Rightarrow> bool \<Rightarrow> int \<Rightarrow> disk list" where
  "Lodor_writeWifiWarm wo fs warm grace =
    Lodor_writeSettings wo fs warm grace (Lodor_readQualityDots fs) (Lodor_readUserBadge fs) (Lodor_readBoxArt fs)"

section \<open>The settings menu\<close>

text \<open>
  The flags the launcher caches, and the rows of the settings and RetroAchievements menus. At boot the
  RetroAchievements flags have their initial values; they are read when their menu is opened.
\<close>

record cache =
  c_dots :: bool
  c_badge :: bool
  c_covers :: bool
  c_ra :: bool
  c_hardcore :: bool

datatype row = BoxArt | KeepWarm | QualityDots | UserBadge | RetroAchievements | RAEnable | RAHardcore

definition load_cache :: "fsys \<Rightarrow> cache" where
  "load_cache fs = \<lparr>c_dots = Lodor_readQualityDots fs, c_badge = Lodor_readUserBadge fs,
     c_covers = Lodor_readBoxArt fs, c_ra = True, c_hardcore = False\<rparr>"

text \<open>Pressing A on a row: the cache and the states the card goes through.\<close>

fun press_row :: "write_outcome \<Rightarrow> fsys \<Rightarrow> row \<Rightarrow> cache \<Rightarrow> cache \<times> disk list" where
  "press_row wo fs BoxArt c =
    (let c = c\<lparr>c_covers := \<not> c_covers c\<rparr>; (warm, grace) = Lodor_readWifiWarm fs
     in (c, Lodor_writeSettings wo fs warm grace (c_dots c) (c_badge c) (c_covers c)))"
| "press_row wo fs KeepWarm c =
    (let (warm, grace) = Lodor_readWifiWarm fs
     in (c, Lodor_writeSettings wo fs (\<not> warm) grace (c_dots c) (c_badge c) (c_covers c)))"
| "press_row wo fs QualityDots c =
    (let c = c\<lparr>c_dots := \<not> c_dots c\<rparr>; (warm, grace) = Lodor_readWifiWarm fs
     in (c, Lodor_writeSettings wo fs warm grace (c_dots c) (c_badge c) (c_covers c)))"
| "press_row wo fs UserBadge c =
    (let c = c\<lparr>c_badge := \<not> c_badge c\<rparr>; (warm, grace) = Lodor_readWifiWarm fs
     in (c, Lodor_writeSettings wo fs warm grace (c_dots c) (c_badge c) (c_covers c)))"
| "press_row wo fs RetroAchievements c =
    (c\<lparr>c_ra := Lodor_readRAKey fs ''RA_ENABLE'' True, c_hardcore := Lodor_readRAKey fs ''RA_HARDCORE'' False\<rparr>, [calm fs])"
| "press_row wo fs RAEnable c =
    (let c = c\<lparr>c_ra := \<not> c_ra c\<rparr> in (c, Lodor_writeRASettings wo fs (c_ra c) (c_hardcore c)))"
| "press_row wo fs RAHardcore c =
    (let c = c\<lparr>c_hardcore := \<not> c_hardcore c\<rparr> in (c, Lodor_writeRASettings wo fs (c_ra c) (c_hardcore c)))"

section \<open>Rows read back\<close>

lemma key_match:
  assumes "CHR ''='' \<notin> set k" "CHR ''='' \<notin> set k'" "nul_free k" "nul_free k'" "nul_free v"
  shows "strncmp (k' @ CHR ''='' # v) (k @ ''='') (length k + 1) = 0 \<longleftrightarrow> k = k'"
proof (cases "k = k'")
  case True
  then show ?thesis using strncmp_prefix [of "k @ ''=''" v] by simp
next
  case False
  have "take (length k + 1) (k' @ CHR ''='' # v) \<noteq> k @ ''=''"
  proof
    assume a: "take (length k + 1) (k' @ CHR ''='' # v) = k @ ''=''"
    consider "length k < length k'" | "length k = length k'" | "length k' < length k" by linarith
    then show False
    proof cases
      case 1
      then have "k @ ''='' = take (length k + 1) k'" using a by simp
      then have "CHR ''='' \<in> set (take (length k + 1) k')" by (metis in_set_conv_decomp append_Cons)
      then show False using assms(2) by (meson in_set_takeD)
    next
      case 2
      then show False using a False by simp
    next
      case 3
      then have "(k @ ''='') ! length k' = CHR ''=''" unfolding a [symmetric] by (simp add: nth_append)
      then have "CHR ''='' \<in> set k" using 3 by (metis nth_append nth_mem)
      then show False using assms(1) by blast
    qed
  qed
  moreover have "nul_free (k' @ CHR ''='' # v)" "nul_free (k @ ''='')" using assms(3-5) by (simp_all add: NUL_def)
  ultimately show ?thesis using False strncmp_0_iff [of "k' @ CHR ''='' # v" "k @ ''=''" "length k + 1"] by simp
qed

lemma scan_key_row:
  assumes "CHR ''='' \<notin> set k" "CHR ''='' \<notin> set k'" "nul_free k" "nul_free k'" "nul_free v"
  shows "scan_key k (k' @ CHR ''='' # v) = (if k = k' then scan_d v else None)"
  using key_match [OF assms] by (auto simp: scan_key_def)

lemma saturate_id: "- (2 ^ 31) \<le> i \<Longrightarrow> i < 2 ^ 31 \<Longrightarrow> saturate i = i"
  by (simp add: saturate_def)

lemma scan_d_int:
  assumes "- (2 ^ 31) \<le> i" "i < 2 ^ 31"
  shows "scan_d (c_int i @ [NL]) = Some i"
proof -
  have nl: "\<not> c_isdigit NL" by (simp add: c_isdigit_def NL_def)
  have digits: "takeWhile c_isdigit (c_digits n @ [NL]) = c_digits n" for n
    using c_digits_isdigit [of n] nl by (simp add: takeWhile_append takeWhile_digits)
  show ?thesis
  proof (cases "i < 0")
    case True
    then show ?thesis using saturate_id [OF assms] digits [of "nat (- i)"]
      by (simp add: scan_d_def c_int_def c_isspace_def digits_val_c_digits)
  next
    case False
    obtain c cs where d: "c_digits (nat i) = c # cs" by (cases "c_digits (nat i)") auto
    then have "c_isdigit c" using c_digits_isdigit [of "nat i"] by auto
    then have "\<not> c_isspace c" "c \<noteq> CHR ''-''" "c \<noteq> CHR ''+''" by (auto dest: isdigit_not_space isdigit_not_sign)
    moreover have "takeWhile c_isdigit (c # cs @ [NL]) = c # cs" using digits [of "nat i"] by (simp add: d)
    moreover have "digits_val 0 (c # cs) = nat i" using digits_val_c_digits [of "nat i"] by (simp add: d)
    ultimately show ?thesis using saturate_id [OF assms] False d by (simp add: scan_d_def c_int_def)
  qed
qed

lemma scan_d_flag: "scan_d (flag b @ [NL]) = Some (of_bool b)"
proof -
  have "scan_d (flag True @ [NL]) = Some 1" "scan_d (flag False @ [NL]) = Some 0" by code_simp+
  then show ?thesis by (cases b) simp_all
qed

lemma scan_d_range: "scan_d s = Some v \<Longrightarrow> - (2 ^ 31) \<le> v \<and> v < 2 ^ 31"
  by (auto simp: scan_d_def Let_def saturate_def split: if_splits prod.splits)

lemma nul_free_int [simp]: "nul_free (c_int i)"
proof -
  have "nul_free (c_digits n)" for n
    using c_digits_isdigit [of n] by (auto simp: nul_free_def c_isdigit_def NUL_def)
  then show ?thesis by (simp add: c_int_def NUL_def)
qed

lemma NL_not_int [simp]: "NL \<notin> set (c_int i)"
proof -
  have "NL \<notin> set (c_digits n)" for n using c_digits_isdigit [of n] by (auto simp: c_isdigit_def NL_def)
  then show ?thesis by (auto simp: c_int_def NL_def)
qed

lemma flag_plain [simp]: "nul_free (flag b)" "NL \<notin> set (flag b)" "length (flag b) = 1"
  by (simp_all add: flag_def NUL_def NL_def)

lemma length_int:
  assumes "- (2 ^ 31) \<le> i" "i < 2 ^ 31"
  shows "length (c_int i) \<le> 11"
proof -
  have "nat (- i) < 10 ^ 10" "nat i < 10 ^ 10" using assms by (simp_all add: nat_less_iff)
  from this [THEN length_c_digits [of 10, rotated]] show ?thesis by (simp add: c_int_def)
qed

definition settings_ok :: "settings \<Rightarrow> bool" where
  "settings_ok s \<longleftrightarrow> - (2 ^ 31) \<le> warm_grace s \<and> warm_grace s < 2 ^ 31"

text \<open>The file is read back line by line.\<close>

lemma fgets_rows:
  "\<forall>r \<in> set rs. NL \<notin> set r \<and> nul_free r \<and> length r + 1 < n
    \<Longrightarrow> fgets_all n (concat (map (\<lambda>r. r @ [NL]) rs)) = map (\<lambda>r. r @ [NL]) rs"
  by (induction rs) (simp_all add: fgets_all_line)

lemma body_lines:
  assumes "settings_ok s"
  shows "fgets_all 256 (settings_body s) = map (\<lambda>r. r @ [NL]) (settings_rows s)"
proof -
  have "length (c_int (warm_grace s)) \<le> 11" using assms length_int by (simp add: settings_ok_def)
  then show ?thesis unfolding settings_body_def
    by (intro fgets_rows) (auto simp: settings_rows_def NUL_def, auto simp: NL_def flag_def split: if_splits)
qed

text \<open>Every key of the file against every reader.\<close>

definition keys :: "string list" where
  "keys = [''KEEP_WIFI_WARM'', ''WIFI_WARM_GRACE'', ''SHOW_QUALITY_DOTS'', ''SHOW_USER_BADGE'', ''fetch_covers'',
     ''RA_ENABLE'', ''RA_HARDCORE'']"

lemma scan_keys:
  assumes "k \<in> set keys" "k' \<in> set keys" "nul_free v"
  shows "scan_key k (k' @ CHR ''='' # v) = (if k = k' then scan_d v else None)"
proof -
  have "\<forall>k \<in> set keys. CHR ''='' \<notin> set k \<and> nul_free k" by (simp add: keys_def NUL_def)
  then show ?thesis using assms scan_key_row by blast
qed

section \<open>The abstract settings\<close>

definition settings_of :: "fsys \<Rightarrow> settings" where
  "settings_of fs = \<lparr>wifi_warm = fst (Lodor_readWifiWarm fs), warm_grace = snd (Lodor_readWifiWarm fs),
     quality_dots = Lodor_readQualityDots fs, user_badge = Lodor_readUserBadge fs, box_art = Lodor_readBoxArt fs,
     ra_enable = Lodor_readRAKey fs ''RA_ENABLE'' True, ra_hardcore = Lodor_readRAKey fs ''RA_HARDCORE'' False\<rparr>"

lemma settings_of_cong: "fs_files fs LODOR_SETTINGS = fs_files gs LODOR_SETTINGS \<Longrightarrow> settings_of fs = settings_of gs"
  by (simp add: settings_of_def Lodor_readWifiWarm_def Lodor_readQualityDots_def Lodor_readUserBadge_def
      Lodor_readBoxArt_def Lodor_readRAKey_def settings_lines_def)

lemma keys_members [simp]:
  "''KEEP_WIFI_WARM'' \<in> set keys" "''WIFI_WARM_GRACE'' \<in> set keys" "''SHOW_QUALITY_DOTS'' \<in> set keys"
  "''SHOW_USER_BADGE'' \<in> set keys" "''fetch_covers'' \<in> set keys" "''RA_ENABLE'' \<in> set keys" "''RA_HARDCORE'' \<in> set keys"
  by (simp_all add: keys_def)

definition row_of :: "string \<Rightarrow> string \<Rightarrow> string" where
  "row_of k v = k @ CHR ''='' # v @ [NL]"

lemma rows_of: "map (\<lambda>r. r @ [NL]) (settings_rows s) =
  [row_of ''KEEP_WIFI_WARM'' (flag (wifi_warm s)), row_of ''WIFI_WARM_GRACE'' (c_int (warm_grace s)),
   row_of ''SHOW_QUALITY_DOTS'' (flag (quality_dots s)), row_of ''SHOW_USER_BADGE'' (flag (user_badge s)),
   row_of ''fetch_covers'' (flag (box_art s)), row_of ''RA_ENABLE'' (flag (ra_enable s)),
   row_of ''RA_HARDCORE'' (flag (ra_hardcore s))]"
  by (simp add: settings_rows_def row_of_def)

lemma scan_row:
  "k \<in> set keys \<Longrightarrow> k' \<in> set keys \<Longrightarrow> nul_free v
    \<Longrightarrow> scan_key k (row_of k' v) = (if k = k' then scan_d (v @ [NL]) else None)"
  unfolding row_of_def by (rule scan_keys) (simp_all add: NL_def NUL_def)

lemma settings_of_body:
  assumes "fs_files fs LODOR_SETTINGS = Some (settings_body s)" "settings_ok s"
  shows "settings_of fs = s"
proof -
  have lines: "settings_lines fs = map (\<lambda>r. r @ [NL]) (settings_rows s)"
    using assms body_lines by (simp add: settings_lines_def)
  have grace: "scan_d (c_int (warm_grace s) @ [NL]) = Some (warm_grace s)"
    using assms(2) scan_d_int by (simp add: settings_ok_def)
  show ?thesis
    unfolding settings_of_def Lodor_readWifiWarm_def Lodor_readQualityDots_def Lodor_readUserBadge_def
      Lodor_readBoxArt_def Lodor_readRAKey_def lines rows_of
    by (simp add: warm_line_def flag_line_def scan_row scan_d_flag grace)
qed

lemma warm_range:
  "- (2 ^ 31) \<le> snd wg \<and> snd wg < 2 ^ 31 \<Longrightarrow> - (2 ^ 31) \<le> snd (fold warm_line ls wg) \<and> snd (fold warm_line ls wg) < 2 ^ 31"
proof (induction ls arbitrary: wg)
  case (Cons l ls)
  have "- (2 ^ 31) \<le> snd (warm_line l wg) \<and> snd (warm_line l wg) < 2 ^ 31"
    using Cons.prems by (auto simp: warm_line_def scan_key_def split: option.splits if_splits dest: scan_d_range)
  from Cons.IH [OF this] show ?case by simp
qed simp

lemma settings_of_ok: "settings_ok (settings_of fs)"
  using warm_range [of "(False, 120)" "settings_lines fs"]
  by (simp add: settings_ok_def settings_of_def Lodor_readWifiWarm_def)

subsection \<open>A write is all or nothing\<close>

lemma settings_path: "length LODOR_SETTINGS + 4 < MAX_PATH" "LODOR_SETTINGS \<noteq> LODOR_SETTINGS @ ''.tmp''"
  by (simp_all add: LODOR_SETTINGS_def SDCARD_PATH_def PLATFORM_def MAX_PATH_def)

lemma body_short: "settings_ok s \<Longrightarrow> length (settings_body s) < 512"
  using length_int [of "warm_grace s"] by (simp add: settings_body_def settings_rows_def settings_ok_def)

lemma write_body_states:
  assumes "settings_ok s" "st \<in> set (write_body wo fs s)"
  shows "settings_of (after_cut n junk st) = settings_of fs \<or> settings_of (after_cut n junk st) = s"
proof -
  have "fs_files (after_cut n junk st) LODOR_SETTINGS = fs_files fs LODOR_SETTINGS
      \<or> fs_files (after_cut n junk st) LODOR_SETTINGS = Some (settings_body s)"
    using assms(2) body_short [OF assms(1)] atomicWrite_states [of st wo fs LODOR_SETTINGS "settings_body s" LODOR_SETTINGS]
      settings_path(2) by (auto simp: write_body_def Let_def)
  then show ?thesis using settings_of_cong settings_of_body assms(1) by blast
qed

lemma write_body_done:
  assumes "settings_ok s" "wo_success wo"
  shows "fs_files (live (write_body wo fs s)) LODOR_SETTINGS = Some (settings_body s)"
    "settings_of (live (write_body wo fs s)) = s"
proof -
  show stored: "fs_files (live (write_body wo fs s)) LODOR_SETTINGS = Some (settings_body s)"
    using body_short [OF assms(1)] atomicWrite_result [OF assms(2), of "settings_body s" LODOR_SETTINGS fs] settings_path(1)
    by (simp add: write_body_def Let_def)
  show "settings_of (live (write_body wo fs s)) = s" by (rule settings_of_body [OF stored assms(1)])
qed

subsection \<open>The player reads what the launcher wrote\<close>

lemma split_lines_Cons:
  "r \<noteq> [] \<Longrightarrow> NL \<notin> set r \<Longrightarrow> split_lines (r @ NL # rest) = r # split_lines (NL # rest)"
proof -
  assume r: "r \<noteq> []" "NL \<notin> set r"
  then have "dropWhile (\<lambda>c. c = NL) (r @ NL # rest) = r @ NL # rest" by (cases r) auto
  moreover have "takeWhile (\<lambda>c. c \<noteq> NL) (r @ NL # rest) = r" "dropWhile (\<lambda>c. c \<noteq> NL) (r @ NL # rest) = NL # rest"
    using r(2) by (auto simp: takeWhile_append dropWhile_append takeWhile_eq_self)
  ultimately show ?thesis using r(1) by (subst split_lines.simps) (cases r, auto)
qed

lemma split_lines_NL: "split_lines (NL # rest) = split_lines rest"
  by (subst (1 2) split_lines.simps) simp

lemma split_rows:
  "\<forall>r \<in> set rs. r \<noteq> [] \<and> NL \<notin> set r \<Longrightarrow> split_lines (concat (map (\<lambda>r. r @ [NL]) rs)) = rs"
proof (induction rs)
  case (Cons r rs)
  then show ?case using split_lines_Cons [of r "concat (map (\<lambda>r. r @ [NL]) rs)"] by (simp add: split_lines_NL)
qed (simp add: split_lines.simps)

definition bare_row :: "string \<Rightarrow> string \<Rightarrow> string" where
  "bare_row k v = k @ CHR ''='' # v"

lemma ra_rows:
  "ra_line (bare_row k v) eh =
    (if k = ''RA_ENABLE'' then (case scan_d v of Some n \<Rightarrow> (n \<noteq> 0, snd eh) | None \<Rightarrow> eh)
     else if k = ''RA_HARDCORE'' then (case scan_d v of Some n \<Rightarrow> (fst eh, n \<noteq> 0) | None \<Rightarrow> eh) else eh)"
  if "k \<in> set keys" "nul_free v"
proof -
  have "dropWhile c_isspace (k @ CHR ''='' # v) = k @ CHR ''='' # v"
    using that(1) by (auto simp: keys_def c_isspace_def)
  then show ?thesis using that scan_keys [of "''RA_ENABLE''" k v] scan_keys [of "''RA_HARDCORE''" k v]
    by (auto simp: ra_line_def bare_row_def split: option.split)
qed

lemma scan_d_flag_bare: "scan_d (flag b) = Some (of_bool b)"
proof -
  have "scan_d (flag True) = Some 1" "scan_d (flag False) = Some 0" by code_simp+
  then show ?thesis by (cases b) simp_all
qed

lemma cheevos_reads_body:
  assumes "fs_files fs LODOR_SETTINGS = Some (settings_body s)" "settings_ok s"
  shows "cheevos_read_ra_settings fs = (ra_enable s, ra_hardcore s)"
proof -
  have rows: "settings_rows s =
    [bare_row ''KEEP_WIFI_WARM'' (flag (wifi_warm s)), bare_row ''WIFI_WARM_GRACE'' (c_int (warm_grace s)),
     bare_row ''SHOW_QUALITY_DOTS'' (flag (quality_dots s)), bare_row ''SHOW_USER_BADGE'' (flag (user_badge s)),
     bare_row ''fetch_covers'' (flag (box_art s)), bare_row ''RA_ENABLE'' (flag (ra_enable s)), bare_row ''RA_HARDCORE'' (flag (ra_hardcore s))]"
    by (simp add: settings_rows_def bare_row_def)
  have "nul_free (settings_body s)" by (simp add: settings_body_def settings_rows_def NUL_def NL_def)
  moreover have "split_lines (settings_body s) = settings_rows s"
    unfolding settings_body_def settings_rows_def by (intro split_rows) (auto, auto simp: NL_def flag_def split: if_splits)
  moreover have "length (settings_body s) \<le> 16 * 1024 * 1024" using body_short [OF assms(2)] by simp
  ultimately have "cheevos_read_ra_settings fs = fold ra_line (settings_rows s) (True, False)"
    using assms(1) by (simp add: cheevos_read_ra_settings_def cheevos_read_file_def c_str_id)
  also have "\<dots> = (ra_enable s, ra_hardcore s)" unfolding rows fold_simps by (simp add: ra_rows scan_d_flag_bare)
  finally show ?thesis .
qed

section \<open>Properties\<close>

fun toggled :: "row \<Rightarrow> settings \<Rightarrow> settings" where
  "toggled BoxArt s = s\<lparr>box_art := \<not> box_art s\<rparr>"
| "toggled KeepWarm s = s\<lparr>wifi_warm := \<not> wifi_warm s\<rparr>"
| "toggled QualityDots s = s\<lparr>quality_dots := \<not> quality_dots s\<rparr>"
| "toggled UserBadge s = s\<lparr>user_badge := \<not> user_badge s\<rparr>"
| "toggled RetroAchievements s = s"
| "toggled RAEnable s = s\<lparr>ra_enable := \<not> ra_enable s\<rparr>"
| "toggled RAHardcore s = s\<lparr>ra_hardcore := \<not> ra_hardcore s\<rparr>"

text \<open>
  The launcher's cache agrees with the file, the RetroAchievements flags once their menu was opened
  (their rows are only reached through it).
\<close>

definition cache_ok :: "bool \<Rightarrow> cache \<Rightarrow> settings \<Rightarrow> bool" where
  "cache_ok opened c s \<longleftrightarrow> c_dots c = quality_dots s \<and> c_badge c = user_badge s \<and> c_covers c = box_art s
     \<and> (opened \<longrightarrow> c_ra c = ra_enable s \<and> c_hardcore c = ra_hardcore s)"

lemma load_cache_ok: "cache_ok False (load_cache fs) (settings_of fs)"
  by (simp add: cache_ok_def load_cache_def settings_of_def)

lemma toggled_ok: "settings_ok (toggled r s) = settings_ok s"
  by (cases r) (simp_all add: settings_ok_def)

text \<open>A press rewrites the file with exactly the toggled settings.\<close>

lemma press_row_writes:
  assumes "cache_ok opened c (settings_of fs)" "r \<noteq> RetroAchievements" "r \<in> {RAEnable, RAHardcore} \<Longrightarrow> opened"
  shows "snd (press_row wo fs r c) = write_body wo fs (toggled r (settings_of fs))"
    "cache_ok opened (fst (press_row wo fs r c)) (toggled r (settings_of fs))"
  using assms by (cases r; simp add: Lodor_writeSettings_def Lodor_writeRASettings_def cache_ok_def settings_of_def split_beta)+

text \<open>
  C30. A toggle changes one setting: pressing a row of the settings menus turns exactly the setting
  of that row among the seven that the launcher keeps in settings.conf, as its readers see them.
  Wherever a power cut stops the write, whatever of it had reached the card, and whatever call
  fails, the readers see all the old settings or all the new ones. When nothing fails they see the new
  ones, the launcher's cache agrees with them, the player reads the two RetroAchievements flags the
  launcher wrote, and the file holds these seven lines and no other: keys that other programs keep
  in it are lost, which toggle_drops_other_keys shows on an example.
\<close>

theorem toggle_changes_one_setting:
  assumes "cache_ok opened c (settings_of fs)" "r \<in> {RAEnable, RAHardcore} \<Longrightarrow> opened"
    and "press_row wo fs r c = (c', states)"
  shows "(\<forall>st \<in> set states. \<forall>n junk. settings_of (after_cut n junk st) = settings_of fs
        \<or> settings_of (after_cut n junk st) = toggled r (settings_of fs))
    \<and> (wo_success wo \<longrightarrow> settings_of (live states) = toggled r (settings_of fs)
         \<and> cache_ok (opened \<or> r = RetroAchievements) c' (settings_of (live states))
         \<and> (r \<noteq> RetroAchievements \<longrightarrow> cheevos_read_ra_settings (live states)
              = (ra_enable (toggled r (settings_of fs)), ra_hardcore (toggled r (settings_of fs)))
            \<and> fs_files (live states) LODOR_SETTINGS = Some (settings_body (toggled r (settings_of fs)))))"
proof (cases "r = RetroAchievements")
  case True
  have states: "states = [calm fs]" using assms(3) unfolding True press_row.simps by blast
  have "settings_of (after_cut n junk (calm fs)) = settings_of fs" for n junk
    by (rule settings_of_cong) (simp add: after_cut_def cut_off_def calm_def)
  moreover have "c' = c\<lparr>c_ra := ra_enable (settings_of fs), c_hardcore := ra_hardcore (settings_of fs)\<rparr>"
    using assms(3) unfolding True press_row.simps settings_of_def settings.select_convs by blast
  moreover have "toggled r (settings_of fs) = settings_of fs" unfolding True by (rule toggled.simps)
  moreover have "live states = fs" by (simp add: states live_def calm_def)
  ultimately show ?thesis using assms(1) states by (simp add: True cache_ok_def)
next
  case False
  have ok: "settings_ok (toggled r (settings_of fs))" using settings_of_ok by (simp add: toggled_ok)
  have press: "states = write_body wo fs (toggled r (settings_of fs))" "cache_ok opened c' (toggled r (settings_of fs))"
    using press_row_writes [OF assms(1) False assms(2), of wo] unfolding assms(3) fst_conv snd_conv by blast+
  show ?thesis
  proof (intro conjI impI)
    show "\<forall>st \<in> set states. \<forall>n junk. settings_of (after_cut n junk st) = settings_of fs
        \<or> settings_of (after_cut n junk st) = toggled r (settings_of fs)"
      using write_body_states [OF ok] press(1) by blast
    assume "wo_success wo"
    note written = write_body_done [OF ok this, of fs, folded press(1)]
    show "settings_of (live states) = toggled r (settings_of fs)" by (rule written(2))
    then show "cache_ok (opened \<or> r = RetroAchievements) c' (settings_of (live states))"
      using press(2) False by simp
    show "cheevos_read_ra_settings (live states)
        = (ra_enable (toggled r (settings_of fs)), ra_hardcore (toggled r (settings_of fs)))"
      by (rule cheevos_reads_body [OF written(1) ok])
    show "fs_files (live states) LODOR_SETTINGS = Some (settings_body (toggled r (settings_of fs)))" by (rule written(1))
  qed
qed

definition some_settings :: settings where
  "some_settings = \<lparr>wifi_warm = True, warm_grace = 300, quality_dots = False, user_badge = True, box_art = False,
     ra_enable = True, ra_hardcore = True\<rparr>"

theorem toggle_changes_one_setting_witness:
  "settings_of (live (snd (press_row all_ok (card_with [(LODOR_SETTINGS, settings_body some_settings)]) UserBadge
      (load_cache (card_with [(LODOR_SETTINGS, settings_body some_settings)]))))) = some_settings\<lparr>user_badge := False\<rparr>"
proof -
  let ?fs = "card_with [(LODOR_SETTINGS, settings_body some_settings)]"
  have "settings_of ?fs = some_settings"
    by (rule settings_of_body) (simp_all add: card_with_def settings_ok_def some_settings_def)
  moreover have "wo_success all_ok" by (simp add: wo_success_def all_ok_def)
  moreover obtain c' states where "press_row all_ok ?fs UserBadge (load_cache ?fs) = (c', states)" by fastforce
  ultimately show ?thesis
    using toggle_changes_one_setting [OF load_cache_ok, where fs = ?fs and wo = all_ok and r = UserBadge] by (simp add: some_settings_def)
qed

text \<open>
  The file has other keys too: the update pak keeps update_available and update_staged in it, and the
  sync daemon reads prefetch_discs. A toggle rewrites the file with the seven keys and drops them.
\<close>

lemma press_row_file:
  assumes "cache_ok opened c (settings_of fs)" "r \<in> {RAEnable, RAHardcore} \<Longrightarrow> opened"
    and "wo_success wo" "r \<noteq> RetroAchievements"
  shows "fs_files (live (snd (press_row wo fs r c))) LODOR_SETTINGS = Some (settings_body (toggled r (settings_of fs)))"
proof -
  have "settings_ok (toggled r (settings_of fs))" using settings_of_ok by (simp add: toggled_ok)
  then show ?thesis using press_row_writes(1) [OF assms(1,4,2)] write_body_done(1) assms(3) by metis
qed

theorem toggle_drops_other_keys:
  "let line = ''update_available=1'' @ [NL]; fs = card_with [(LODOR_SETTINGS, line @ settings_body some_settings)]
   in line \<in> set (settings_lines fs) \<and> line \<notin> set (settings_lines (live (snd (press_row all_ok fs UserBadge (load_cache fs)))))"
proof -
  let ?line = "''update_available=1'' @ [NL]"
  define fs where "fs = card_with [(LODOR_SETTINGS, ?line @ settings_body some_settings)]"
  let ?s = "toggled UserBadge (settings_of fs)" and ?after = "live (snd (press_row all_ok fs UserBadge (load_cache fs)))"
  have "settings_ok ?s" unfolding toggled_ok by (rule settings_of_ok)
  note lines = body_lines [OF this]
  have "wo_success all_ok" by (simp add: wo_success_def all_ok_def)
  then have "fs_files ?after LODOR_SETTINGS = Some (settings_body ?s)"
    by (intro press_row_file [OF load_cache_ok]) simp_all
  then have "settings_lines ?after = map (\<lambda>r. r @ [NL]) (settings_rows ?s)"
    unfolding settings_lines_def by (simp only: option.case lines)
  moreover have "?line \<notin> set (map (\<lambda>r. r @ [NL]) (settings_rows ?s))" by (auto simp: settings_rows_def)
  moreover have "?line \<in> set (settings_lines fs)"
  proof -
    have "fgets_all 256 (''update_available=1'' @ NL # settings_body some_settings)
        = ?line # fgets_all 256 (settings_body some_settings)"
      by (rule fgets_all_line) (simp_all add: NL_def NUL_def)
    then show ?thesis by (simp add: settings_lines_def fs_def card_with_def)
  qed
  ultimately show ?thesis unfolding Let_def fs_def by metis
qed

text \<open>A toggle whose write failed is shown as done: the cache is turned before the file is written.\<close>

theorem failed_toggle_shown:
  assumes "\<not> wo_fopen wo" "cache_ok opened c (settings_of fs)"
  shows "c_dots (fst (press_row wo fs QualityDots c)) \<noteq> Lodor_readQualityDots (live (snd (press_row wo fs QualityDots c)))"
  using assms press_row_writes [OF assms(2), of QualityDots wo]
  by (simp add: cache_ok_def settings_of_def write_body_def Let_def Lodor_atomicWrite_def live_def calm_def split: prod.splits)

end
