(* ===== verification/Simulation.thy ===== *)
theory Simulation
  imports Prelude
begin

text \<open>
  Runs of a component over a sequence of events, and the locale of a component that refines an
  abstract machine: one step is shown once, whole runs follow.
\<close>

fun run_steps :: "('e \<Rightarrow> 's \<Rightarrow> ('a \<times> 's) option) \<Rightarrow> 'e list \<Rightarrow> 's \<Rightarrow> ('a list \<times> 's) option" where
  "run_steps step [] s = Some ([], s)"
| "run_steps step (ev # evs) s = do {
     (a, s) \<leftarrow> step ev s;
     (as, s) \<leftarrow> run_steps step evs s;
     Some (a # as, s)
   }"

fun run_spec :: "('e \<Rightarrow> 't \<Rightarrow> 'b \<times> 't) \<Rightarrow> 'e list \<Rightarrow> 't \<Rightarrow> 'b list \<times> 't" where
  "run_spec spec [] t = ([], t)"
| "run_spec spec (ev # evs) t =
    (let (b, t) = spec ev t; (bs, t) = run_spec spec evs t in (b # bs, t))"

text \<open>Every event is allowed in the abstract state it meets.\<close>

fun allowed :: "('t \<Rightarrow> 'e \<Rightarrow> bool) \<Rightarrow> ('e \<Rightarrow> 't \<Rightarrow> 'b \<times> 't) \<Rightarrow> 'e list \<Rightarrow> 't \<Rightarrow> bool" where
  "allowed may spec [] t = True"
| "allowed may spec (ev # evs) t \<longleftrightarrow> may t ev \<and> allowed may spec evs (snd (spec ev t))"

locale simulation =
  fixes step :: "'e \<Rightarrow> 's \<Rightarrow> ('a \<times> 's) option"
    and spec :: "'e \<Rightarrow> 't \<Rightarrow> 'b \<times> 't"
    and abs :: "'s \<Rightarrow> 't"
    and inv :: "'s \<Rightarrow> bool"
    and may :: "'t \<Rightarrow> 'e \<Rightarrow> bool"
    and shows_as :: "'b \<Rightarrow> 'a \<Rightarrow> bool"
  assumes step_refines: "inv s \<Longrightarrow> may (abs s) ev \<Longrightarrow>
    \<exists>a s'. step ev s = Some (a, s') \<and> inv s' \<and> abs s' = snd (spec ev (abs s)) \<and> shows_as (fst (spec ev (abs s))) a"
begin

lemma run_refines:
  assumes "inv s" "allowed may spec evs (abs s)"
  shows "\<exists>as s'. run_steps step evs s = Some (as, s') \<and> inv s' \<and> abs s' = snd (run_spec spec evs (abs s))
    \<and> list_all2 shows_as (fst (run_spec spec evs (abs s))) as"
  using assms
proof (induction evs arbitrary: s)
  case (Cons ev evs)
  obtain a s' where step: "step ev s = Some (a, s')" "inv s'" "abs s' = snd (spec ev (abs s))"
    "shows_as (fst (spec ev (abs s))) a"
    using step_refines [OF Cons.prems(1), of ev] Cons.prems(2) by (simp only: allowed.simps) metis
  have "allowed may spec evs (abs s')" using Cons.prems(2) step(3) by simp
  from Cons.IH [OF step(2) this] obtain as s'' where rest: "run_steps step evs s' = Some (as, s'')" "inv s''"
    "abs s'' = snd (run_spec spec evs (abs s'))" "list_all2 shows_as (fst (run_spec spec evs (abs s'))) as"
    by blast
  then show ?case using step by (auto simp: split_beta Let_def)
qed simp

end

end
