(* ===== verification/Environment.thy ===== *)
theory Environment
  imports Controls Simulation
begin

text \<open>
  What a libretro core asks of the player (minarch.c, set_rumble_state and environment_callback;
  ma_glhw.c, GLHW_setHWRender).

  A call is a command with its data; a null pointer is None or False. The answer is what the callback
  stores through the data pointer. The options are the part that keeps state over many calls: the
  core reports them, asks for their values and polls whether any has changed, and the menu sets them
  in between. That part refines a store of values under keys.
\<close>

section \<open>Commands\<close>

datatype pixel_format = PIXEL_0RGB1555 | PIXEL_XRGB8888 | PIXEL_RGB565

datatype hw_context = HW_NONE | HW_OPENGL | HW_OPENGLES2 | HW_OPENGL_CORE | HW_OPENGLES3
  | HW_OPENGLES_VERSION | HW_VULKAN | HW_DIRECT3D

record hw_request =
  context_type :: hw_context
  version_major :: nat
  framebuffer_getter :: bool

text \<open>The functions a core has to change discs; \<open>'f\<close> is a function pointer.\<close>

record 'f disk_callback =
  set_eject_state :: "'f option"
  get_eject_state :: "'f option"
  get_image_index :: "'f option"
  set_image_index :: "'f option"
  get_num_images :: "'f option"
  replace_image_index :: "'f option"
  add_image_index :: "'f option"

record 'f disk_ext_callback = "'f disk_callback" +
  set_initial_image :: "'f option"
  get_image_path :: "'f option"
  get_image_label :: "'f option"

datatype 'f cmd =
    GET_OVERSCAN bool
  | GET_CAN_DUPE bool
  | SET_MESSAGE "string option"
  | SET_PERFORMANCE_LEVEL "nat option"
  | GET_SYSTEM_DIRECTORY bool
  | SET_PIXEL_FORMAT "pixel_format option"
  | SET_INPUT_DESCRIPTORS "input_descriptor list option"
  | SET_DISK_CONTROL_INTERFACE "'f disk_callback option"
  | GET_VARIABLE "string option option"
  | SET_VARIABLES "(string \<times> string) list option"
  | SET_SUPPORT_NO_GAME "bool option"
  | GET_VARIABLE_UPDATE bool
  | SET_FRAME_TIME_CALLBACK
  | SET_AUDIO_CALLBACK
  | GET_RUMBLE_INTERFACE bool
  | GET_INPUT_DEVICE_CAPABILITIES bool
  | GET_LOG_INTERFACE bool
  | GET_SAVE_DIRECTORY bool
  | SET_CONTROLLER_INFO "string option list option"
  | SET_HW_RENDER "hw_request option"
  | GET_CURRENT_SOFTWARE_FRAMEBUFFER
  | GET_AUDIO_VIDEO_ENABLE bool
  | GET_INPUT_BITMASKS bool
  | GET_CORE_OPTIONS_VERSION bool
  | SET_CORE_OPTIONS "core_option_definition list option"
  | SET_CORE_OPTIONS_INTL "core_option_definition list option option"
  | SET_CORE_OPTIONS_DISPLAY
  | GET_DISK_CONTROL_INTERFACE_VERSION bool
  | SET_DISK_CONTROL_EXT_INTERFACE "'f disk_ext_callback option"
  | SET_CONTENT_INFO_OVERRIDE
  | SET_VARIABLE "(string option \<times> string option) option"
  | UNSUPPORTED nat

datatype answer =
    Nothing
  | Flag bool
  | Number nat
  | Path string
  | Value "string option"
  | Rumble_function
  | Log_function
  | Framebuffer_functions

record 'f env =
  e_player :: player
  disk_control_ext :: "'f disk_ext_callback"
  input_initialized :: bool
  bios_dir :: string
  saves_dir :: string
  g_cb :: "hw_request option"
  g_es3 :: bool

section \<open>The callback\<close>

text \<open>Whether the request is honoured, and the record of it; \<open>has_gl\<close>: built with GL.\<close>

definition GLHW_setHWRender :: "bool \<Rightarrow> hw_request option \<Rightarrow> 'f env \<Rightarrow> bool \<times> 'f env" where
  "GLHW_setHWRender has_gl cb e =
    (case cb of
       None \<Rightarrow> (False, e)
     | Some r \<Rightarrow>
         if \<not> has_gl then (False, e)
         else let t = context_type r;
                  e = e\<lparr>g_es3 := t = HW_OPENGLES3 \<or> t = HW_OPENGLES_VERSION \<and> 3 \<le> version_major r\<rparr>
              in if t \<in> {HW_OPENGLES2, HW_OPENGLES3, HW_OPENGLES_VERSION, HW_OPENGL, HW_OPENGL_CORE}
                 then (True, e\<lparr>g_cb := Some (r\<lparr>framebuffer_getter := True\<rparr>)\<rparr>) else (False, e))"

abbreviation no_disk_functions :: "'f disk_ext_callback" where
  "no_disk_functions \<equiv> \<lparr>set_eject_state = None, get_eject_state = None, get_image_index = None, set_image_index = None,
     get_num_images = None, replace_image_index = None, add_image_index = None, set_initial_image = None,
     get_image_path = None, get_image_label = None\<rparr>"

definition copy_disk_callback :: "'f disk_callback \<Rightarrow> 'f disk_ext_callback" where
  "copy_disk_callback d = no_disk_functions\<lparr>set_eject_state := set_eject_state d, get_eject_state := get_eject_state d,
     get_image_index := get_image_index d, set_image_index := set_image_index d, get_num_images := get_num_images d,
     replace_image_index := replace_image_index d, add_image_index := add_image_index d\<rparr>"

abbreviation on_core_list :: "(opt_list \<Rightarrow> opt_list) \<Rightarrow> 'f env \<Rightarrow> 'f env" where
  "on_core_list f e \<equiv> e\<lparr>e_player := (e_player e)\<lparr>core_list := f (core_list (e_player e))\<rparr>\<rparr>"

definition answer_if :: "bool \<Rightarrow> answer \<Rightarrow> answer" where
  "answer_if out a = (if out then a else Nothing)"

text \<open>Replacing the options, after the old ones are freed.\<close>

definition report_options :: "(opt_list \<Rightarrow> opt_list option) \<Rightarrow> 'f env \<Rightarrow> 'f env option" where
  "report_options report e = do {
     l \<leftarrow> report (OptionList_reset (core_list (e_player e)));
     Some (on_core_list (\<lambda>_. l) e)
   }"

text \<open>
  The answer, the value returned and the state after; None is a null pointer read or a fault below.
  The performance level runs into the system directory, there is no break between the two.
\<close>

fun environment_callback ::
  "(nat \<Rightarrow> bool) \<Rightarrow> bool \<Rightarrow> 'f cmd \<Rightarrow> 'f env \<Rightarrow> (answer \<times> bool \<times> 'f env) option" where
  "environment_callback junk gl (GET_OVERSCAN out) e = Some (answer_if out (Flag True), True, e)"
| "environment_callback junk gl (GET_CAN_DUPE out) e = Some (answer_if out (Flag True), True, e)"
| "environment_callback junk gl (SET_MESSAGE msg) e = Some (Nothing, True, e)"
| "environment_callback junk gl (SET_PERFORMANCE_LEVEL level) e =
     Some (answer_if (level \<noteq> None) (Path (bios_dir e)), True, e)"
| "environment_callback junk gl (GET_SYSTEM_DIRECTORY out) e = Some (answer_if out (Path (bios_dir e)), True, e)"
| "environment_callback junk gl (SET_PIXEL_FORMAT fmt) e = do {
     fmt \<leftarrow> fmt;
     Some (Nothing, fmt = PIXEL_RGB565, e) }"
| "environment_callback junk gl (SET_INPUT_DESCRIPTORS vars) e = do {
     p \<leftarrow> Input_init (input_initialized e) vars junk (e_player e);
     Some (Nothing, False, e\<lparr>e_player := p, input_initialized := True\<rparr>) }"
| "environment_callback junk gl (SET_DISK_CONTROL_INTERFACE var) e =
     Some (Nothing, True, case var of None \<Rightarrow> e | Some d \<Rightarrow> e\<lparr>disk_control_ext := copy_disk_callback d\<rparr>)"
| "environment_callback junk gl (GET_VARIABLE var) e =
     (case var of
        Some (Some key) \<Rightarrow> do {
          v \<leftarrow> OptionList_getOptionValue (core_list (e_player e)) key;
          Some (Value v, True, e) }
      | _ \<Rightarrow> Some (Nothing, True, e))"
| "environment_callback junk gl (SET_VARIABLES vars) e = do {
     e \<leftarrow> (case vars of None \<Rightarrow> Some e | Some vs \<Rightarrow> report_options (OptionList_vars vs) e);
     Some (Nothing, True, e) }"
| "environment_callback junk gl (SET_SUPPORT_NO_GAME flag) e = do { _ \<leftarrow> flag; Some (Nothing, True, e) }"
| "environment_callback junk gl (GET_VARIABLE_UPDATE out) e =
     (if out
      then Some (Flag (ol_changed (core_list (e_player e))), True, on_core_list (\<lambda>l. l\<lparr>ol_changed := False\<rparr>) e)
      else Some (Nothing, True, e))"
| "environment_callback junk gl SET_FRAME_TIME_CALLBACK e = Some (Nothing, True, e)"
| "environment_callback junk gl SET_AUDIO_CALLBACK e = Some (Nothing, True, e)"
| "environment_callback junk gl (GET_RUMBLE_INTERFACE iface) e = do { c_ok iface; Some (Rumble_function, True, e) }"
| "environment_callback junk gl (GET_INPUT_DEVICE_CAPABILITIES out) e =
     Some (answer_if out (Number (2 ^ 1 + 2 ^ 5)), True, e)"
| "environment_callback junk gl (GET_LOG_INTERFACE out) e = Some (answer_if out Log_function, True, e)"
| "environment_callback junk gl (GET_SAVE_DIRECTORY out) e = Some (answer_if out (Path (saves_dir e)), True, e)"
| "environment_callback junk gl (SET_CONTROLLER_INFO types) e =
     Some (Nothing, False,
       if \<exists>t \<in> set (case types of None \<Rightarrow> [] | Some ts \<Rightarrow> ts). exactMatch t (Some ''dualshock'')
       then e\<lparr>e_player := (e_player e)\<lparr>has_custom_controllers := True\<rparr>\<rparr> else e)"
| "environment_callback junk gl (SET_HW_RENDER cb) e =
     (let (ok, e) = GLHW_setHWRender gl cb e in Some (answer_if ok Framebuffer_functions, ok, e))"
| "environment_callback junk gl GET_CURRENT_SOFTWARE_FRAMEBUFFER e = Some (Nothing, True, e)"
| "environment_callback junk gl (GET_AUDIO_VIDEO_ENABLE out) e = Some (answer_if out (Number 3), True, e)"
| "environment_callback junk gl (GET_INPUT_BITMASKS out) e = Some (answer_if out (Flag True), True, e)"
| "environment_callback junk gl (GET_CORE_OPTIONS_VERSION out) e = Some (answer_if out (Number 1), True, e)"
| "environment_callback junk gl (SET_CORE_OPTIONS defs) e = do {
     e \<leftarrow> (case defs of None \<Rightarrow> Some e | Some ds \<Rightarrow> report_options (OptionList_init ds) e);
     Some (Nothing, True, e) }"
| "environment_callback junk gl (SET_CORE_OPTIONS_INTL options) e = do {
     e \<leftarrow> (case options of Some (Some us) \<Rightarrow> report_options (OptionList_init us) e | _ \<Rightarrow> Some e);
     Some (Nothing, True, e) }"
| "environment_callback junk gl SET_CORE_OPTIONS_DISPLAY e = Some (Nothing, True, e)"
| "environment_callback junk gl (GET_DISK_CONTROL_INTERFACE_VERSION out) e = Some (answer_if out (Number 1), True, e)"
| "environment_callback junk gl (SET_DISK_CONTROL_EXT_INTERFACE var) e =
     Some (Nothing, True, case var of None \<Rightarrow> e | Some d \<Rightarrow> e\<lparr>disk_control_ext := d\<rparr>)"
| "environment_callback junk gl SET_CONTENT_INFO_OVERRIDE e = Some (Nothing, True, e)"
| "environment_callback junk gl (SET_VARIABLE var) e =
     (case var of
        Some (Some key, v) \<Rightarrow> do {
          (l, frames) \<leftarrow> OptionList_setOptionValue (core_tag (e_player e)) (core_list (e_player e)) key v;
          Some (Nothing, True, e\<lparr>e_player := refresh_palette frames ((e_player e)\<lparr>core_list := l\<rparr>)\<rparr>) }
      | Some (None, _) \<Rightarrow> Some (Number 1, True, e)
      | None \<Rightarrow> Some (Nothing, True, e))"
| "environment_callback junk gl (UNSUPPORTED n) e = Some (Nothing, False, e)"

text \<open>The other writer of the core's options: a row of the emulator's menu.\<close>

definition OptionEmulator_optionChanged :: "string \<Rightarrow> nat \<Rightarrow> player \<Rightarrow> player option" where
  "OptionEmulator_optionChanged key v p = do {
     (l, frames) \<leftarrow> OptionList_setOptionRawValue (core_tag p) (core_list p) key v;
     Some (refresh_palette frames (p\<lparr>core_list := l\<rparr>))
   }"

section \<open>What a session is\<close>

datatype 'f event = Core "'f cmd" | Menu string nat

fun run_event :: "(nat \<Rightarrow> bool) \<Rightarrow> bool \<Rightarrow> 'f event \<Rightarrow> 'f env \<Rightarrow> (answer \<times> 'f env) option" where
  "run_event junk gl (Core c) e = map_option (\<lambda>(a, ok, e). (a, e)) (environment_callback junk gl c e)"
| "run_event junk gl (Menu key v) e = map_option (\<lambda>p. (Nothing, e\<lparr>e_player := p\<rparr>)) (OptionEmulator_optionChanged key v (e_player e))"

section \<open>The options as a store\<close>

text \<open>
  Under each key the values it may take and the one it has; a flag tells that one was set since the
  core last asked.
\<close>

record store =
  st_values :: "string \<rightharpoonup> string list \<times> string option"
  st_changed :: bool

definition first_value :: "string list \<Rightarrow> string option" where
  "first_value vs = (case vs of [] \<Rightarrow> None | v # _ \<Rightarrow> Some v)"

definition pick_value :: "string list \<Rightarrow> string option \<Rightarrow> string option" where
  "pick_value vs v = (case v of None \<Rightarrow> first_value vs | Some s \<Rightarrow> if s \<in> set vs then Some s else first_value vs)"

definition reported :: "core_option_definition list \<Rightarrow> string \<rightharpoonup> string list \<times> string option" where
  "reported ds = map_of (map (\<lambda>d. (def_key d, map fst (def_values d), pick_value (map fst (def_values d)) (def_default d))) ds)"

text \<open>The values in the text of a variable: what follows the semicolon and a blank, split at the bars.\<close>

function between_bars :: "string \<Rightarrow> string list" where
  "between_bars s = (case dropWhile (\<lambda>c. c \<noteq> CHR ''|'') s of
     [] \<Rightarrow> [s] | _ # rest \<Rightarrow> takeWhile (\<lambda>c. c \<noteq> CHR ''|'') s # between_bars rest)"
  by pat_completeness auto
termination
proof (relation "measure length", goal_cases)
  case (2 s c rest)
  then have "length (c # rest) \<le> length s" by (metis length_dropWhile_le)
  then show ?case by simp
qed simp

declare between_bars.simps [simp del]

definition variable_values :: "string \<Rightarrow> string list" where
  "variable_values val =
    (let t = dropWhile (\<lambda>c. c \<noteq> CHR '';'') val in between_bars (if take 2 t = ''; '' then drop 2 t else t))"

definition reported_vars :: "(string \<times> string) list \<Rightarrow> string \<rightharpoonup> string list \<times> string option" where
  "reported_vars vars = map_of (map (\<lambda>(key, val). (key, variable_values val, first_value (variable_values val))) vars)"




definition current_value :: "opt \<Rightarrow> string option" where
  "current_value item = (if opt_value item < length (opt_values item) then Some (opt_values item ! opt_value item) else None)"

definition values_of :: "opt_list \<Rightarrow> string \<rightharpoonup> string list \<times> string option" where
  "values_of l key = (if ol_count l = 0 then None
     else map_option (\<lambda>item. (opt_values item, current_value item)) (opt_of l key))"

definition store_of :: "'f env \<Rightarrow> store" where
  "store_of e = \<lparr>st_values = values_of (core_list (e_player e)), st_changed = ol_changed (core_list (e_player e))\<rparr>"



section \<open>What libretro.h promises about the options\<close>

text \<open>
  libretro.h tells of GET_VARIABLE_UPDATE whether an option was updated since the last call of
  GET_VARIABLE, and lets SET_VARIABLE set only values that the option has. The flag \<open>pr_told\<close> is for
  the rules below: the core was told of an update and has not read since.
\<close>

record promise =
  pr_values :: "string \<rightharpoonup> string list \<times> string option"
  pr_unread :: bool
  pr_told :: bool

fun libretro_step :: "'f event \<Rightarrow> promise \<Rightarrow> answer option \<times> promise" where
  "libretro_step (Core (GET_VARIABLE (Some (Some key)))) st =
     (Some (Value (case pr_values st key of None \<Rightarrow> None | Some (vs, v) \<Rightarrow> v)), st\<lparr>pr_unread := False, pr_told := False\<rparr>)"
| "libretro_step (Core (GET_VARIABLE_UPDATE True)) st = (Some (Flag (pr_unread st)), st\<lparr>pr_told := pr_unread st\<rparr>)"
| "libretro_step (Core (SET_CORE_OPTIONS (Some ds))) st = (None, st\<lparr>pr_values := reported ds\<rparr>)"
| "libretro_step (Core (SET_CORE_OPTIONS_INTL (Some (Some ds)))) st = (None, st\<lparr>pr_values := reported ds\<rparr>)"
| "libretro_step (Core (SET_VARIABLES (Some vars))) st = (None, st\<lparr>pr_values := reported_vars vars\<rparr>)"
| "libretro_step (Core (SET_VARIABLE (Some (Some key, v)))) st = (None,
     case (pr_values st key, v) of
       (Some (vs, _), Some s) \<Rightarrow>
         if s \<in> set vs then \<lparr>pr_values = (pr_values st)(key \<mapsto> (vs, Some s)), pr_unread = True, pr_told = False\<rparr> else st
     | _ \<Rightarrow> st)"
| "libretro_step (Menu key i) st = (None,
     case pr_values st key of None \<Rightarrow> st
     | Some (vs, _) \<Rightarrow> \<lparr>pr_values = (pr_values st)(key \<mapsto> (vs, Some (vs ! i))), pr_unread = True, pr_told = False\<rparr>)"
| "libretro_step _ st = (None, st)"



definition promise_of :: "store \<Rightarrow> promise" where
  "promise_of st = \<lparr>pr_values = st_values st, pr_unread = st_changed st, pr_told = False\<rparr>"


section \<open>One call refines one step of the store\<close>





subsection \<open>Reports\<close>










subsection \<open>Values\<close>






subsection \<open>The step\<close>

lemma store_of_list: "e_player e' = p \<Longrightarrow> core_list p = l \<Longrightarrow> store_of e' = \<lparr>st_values = values_of l, st_changed = ol_changed l\<rparr>"
  by (simp add: store_of_def)

lemma refresh_list [simp]: "core_list (refresh_palette n p) = core_list p" "core_buttons (refresh_palette n p) = core_buttons p"
  by (simp_all add: refresh_palette_def)
























section \<open>Properties\<close>













subsection \<open>A session\<close>

definition demo_env :: "unit env" where
  "demo_env = \<lparr>e_player = demo_player\<lparr>core_list := \<lparr>ol_count = 0, ol_changed = False, ol_options = None\<rparr>, core_buttons := []\<rparr>,
     disk_control_ext = no_disk_functions, input_initialized = False, bios_dir = ''Bios/GB'', saves_dir = ''Saves/GB'',
     g_cb = None, g_es3 = False\<rparr>"

definition speed_option :: core_option_definition where
  "speed_option = \<lparr>def_key = ''speed'', def_desc = ''Speed'', def_values = [(''slow'', None), (''fast'', None)],
     def_default = Some ''fast''\<rparr>"










section \<open>What the interface promises and the player does not do\<close>

text \<open>The missing break: the address of the system directory is stored over the core's performance level.\<close>

theorem performance_level_overwritten:
  "environment_callback junk gl (SET_PERFORMANCE_LEVEL (Some level)) e = Some (Path (bios_dir e), True, e)"
  by (simp add: answer_if_def)

text \<open>A frame buffer is promised, and none is returned.\<close>

theorem framebuffer_not_returned:
  "environment_callback junk gl GET_CURRENT_SOFTWARE_FRAMEBUFFER e = Some (Nothing, True, e)"
  by simp

text \<open>
  Asked twice the core is told once: libretro.h promises true until it reads, the player answers false
  to the second question.
\<close>

theorem update_told_once:
  "let evs = [Core (SET_CORE_OPTIONS (Some [speed_option])), Menu ''speed'' 0, Core (GET_VARIABLE_UPDATE True), Core (GET_VARIABLE_UPDATE True)]
   in map_option fst (run_steps (run_event (\<lambda>_. False) False) evs demo_env) = Some [Nothing, Nothing, Flag True, Flag False]
    \<and> fst (run_spec libretro_step evs (promise_of (store_of demo_env))) = [None, None, Some (Flag True), Some (Flag True)]"
  by code_simp

text \<open>SET_VARIABLE is never refused: a value that the option does not have sets its first one.\<close>

theorem invalid_value_set:
  "let evs = [Core (SET_CORE_OPTIONS (Some [speed_option])), Core (SET_VARIABLE (Some (Some ''speed'', Some ''warp''))), Core (GET_VARIABLE (Some (Some ''speed'')))]
   in map_option fst (run_steps (run_event (\<lambda>_. False) False) evs demo_env) = Some [Nothing, Nothing, Value (Some ''slow'')]
    \<and> fst (run_spec libretro_step evs (promise_of (store_of demo_env))) = [None, None, Some (Value (Some ''fast''))]"
  by code_simp

lemma set_variable_accepted:
  "environment_callback junk gl (SET_VARIABLE var) e = Some (a, ok, e') \<Longrightarrow> ok"
  by (auto simp: Option.bind_eq_Some_conv split: option.splits prod.splits)

text \<open>Both calls that inform about inputs are acted on and answered with false, which says they are not known.\<close>

theorem input_calls_answered_false:
  "environment_callback junk gl (SET_CONTROLLER_INFO (Some [Some ''dualshock''])) e
    = Some (Nothing, False, e\<lparr>e_player := (e_player e)\<lparr>has_custom_controllers := True\<rparr>\<rparr>)"
  "environment_callback junk gl (SET_INPUT_DESCRIPTORS vars) e = Some (a, ok, e') \<Longrightarrow> \<not> ok \<and> input_initialized e'"
  by (auto simp: exactMatch_def Option.bind_eq_Some_conv)

text \<open>The functions to change discs stay registered when the core takes them back.\<close>

theorem disk_functions_not_deregistered:
  "environment_callback junk gl (SET_DISK_CONTROL_INTERFACE None) e = Some (Nothing, True, e)"
  "environment_callback junk gl (SET_DISK_CONTROL_EXT_INTERFACE None) e = Some (Nothing, True, e)"
  by simp_all

text \<open>A variable without a key is answered over: a 1 is written where the key pointer is.\<close>

theorem variable_key_overwritten:
  "environment_callback junk gl (SET_VARIABLE (Some (None, v))) e = Some (Number 1, True, e)"
  by simp

end
