(* ===== verification/Menus.thy ===== *)
theory Menus
  imports Cheats SavedConfig Environment
begin

text \<open>
  The options menus of the player (minarch.c, Menu_options and the menus it shows: frontend, emulator,
  controls, shortcuts, save changes, cheats).

  Menu_options and the loops inside it (waiting for a button to bind, showing a message) each poll the
  pad once per turn; the model is a machine that takes one pad per turn, with the menus that are open
  as a stack and the loop the top one is in as its mode. Drawing and PWR_update are outside; whether
  PWR_update is called at all is the flag \<open>v_defer\<close>.
\<close>

section \<open>State\<close>

text \<open>
  The surroundings: how many rows fit the screen, what Config_load is given, which of the core's
  options have a long text that A shows, whether the core takes cheats, and what the card takes of the
  file of enabled cheats.
\<close>

record surroundings =
  screen_rows :: nat
  env_device :: "string option"
  overscan :: bool
  full_text :: "string \<Rightarrow> bool"
  cheat_api :: bool
  card_room :: nat

datatype menu = Options_menu | Frontend_menu | Emulator_menu | Controls_menu | Shortcuts_menu | Save_menu | Cheats_menu

datatype list_type = MENU_LIST | MENU_VAR | MENU_FIXED | MENU_INPUT

fun type_of :: "menu \<Rightarrow> list_type" where
  "type_of Options_menu = MENU_LIST"
| "type_of Frontend_menu = MENU_VAR"
| "type_of Emulator_menu = MENU_FIXED"
| "type_of Controls_menu = MENU_INPUT"
| "type_of Shortcuts_menu = MENU_INPUT"
| "type_of Save_menu = MENU_LIST"
| "type_of Cheats_menu = MENU_FIXED"

text \<open>The texts a row chooses from: none, a list of its own, the gamepad types, the button labels.\<close>

datatype labels = No_labels | Labels "string list" | Gamepad_labels | Button_labels

record menu_item =
  mi_name :: "string option"
  mi_key :: string
  mi_id :: nat
  mi_value :: int
  mi_values :: labels

definition gamepad_labels :: "string list" where
  "gamepad_labels = [''Standard'', ''DualShock'']"

fun texts :: "labels \<Rightarrow> string list" where
  "texts No_labels = []"
| "texts (Labels vs) = vs"
| "texts Gamepad_labels = gamepad_labels"
| "texts Button_labels = button_labels"

datatype callback = NOP | EXIT | NEXT_ITEM

datatype mode = Browsing | Awaiting | Message callback

record view =
  v_menu :: menu
  v_selected :: nat
  v_start :: nat
  v_end :: nat
  v_defer :: bool
  v_mode :: mode

record menus =
  s_player :: player
  s_cheats :: cheats
  s_calls :: "cheat_call list"
  s_fs :: fsys
  s_items :: "menu \<Rightarrow> menu_item list option"
  s_stack :: "view list"

section \<open>Rows\<close>

text \<open>
  The rows of a menu as they are built when it is opened: what the player's settings give
  (\<open>rows_of\<close>), and what the table of cheats adds, a row of the options menu and a menu of its own.
\<close>

definition option_row :: "opt \<Rightarrow> menu_item" where
  "option_row o' = \<lparr>mi_name = opt_name o', mi_key = opt_key o', mi_id = 0,
     mi_value = int (opt_value o'), mi_values = Labels (opt_labels o')\<rparr>"

definition binding_value :: "mapping \<Rightarrow> int" where
  "binding_value m = mp_local m + 1 + (if mp_mod m then int LOCAL_BUTTON_COUNT else 0)"

definition binding_row :: "nat \<Rightarrow> mapping \<Rightarrow> menu_item" where
  "binding_row j m = \<lparr>mi_name = Some (mp_name m), mi_key = [], mi_id = j, mi_value = binding_value m, mi_values = Button_labels\<rparr>"

definition gamepad_row :: "player \<Rightarrow> menu_item" where
  "gamepad_row p = \<lparr>mi_name = Some ''Controller'', mi_key = [], mi_id = 0, mi_value = gamepad_type p, mi_values = Gamepad_labels\<rparr>"

definition onoff_labels :: "string list" where
  "onoff_labels = [''Off'', ''On'']"

definition cheat_row :: "cheat \<Rightarrow> menu_item" where
  "cheat_row c = \<lparr>mi_name = ch_desc c, mi_key = [], mi_id = 0, mi_value = (if ch_enabled c then 1 else 0),
     mi_values = Labels onoff_labels\<rparr>"

definition plain_row :: "string \<Rightarrow> menu_item" where
  "plain_row nm = \<lparr>mi_name = Some nm, mi_key = [], mi_id = 0, mi_value = 0, mi_values = No_labels\<rparr>"

fun rows_of :: "player \<Rightarrow> menu \<Rightarrow> menu_item list" where
  "rows_of p Options_menu = map plain_row [''Frontend'', ''Emulator'', ''Controls'', ''Shortcuts'', ''Save Changes'']"
| "rows_of p Frontend_menu = map option_row (filter (\<lambda>o'. \<not> opt_lock o') (opts (fe_list p)))"
| "rows_of p Emulator_menu = map option_row (filter (\<lambda>o'. \<not> opt_lock o') (opts (core_list p)))"
| "rows_of p Controls_menu = (if has_custom_controllers p then [gamepad_row p] else [])
     @ map (\<lambda>(j, m). binding_row j m) (filter (\<lambda>(j, m). \<not> mp_ignore m) (enumerate 0 (controls p)))"
| "rows_of p Shortcuts_menu = map (\<lambda>(j, m). binding_row j m) (enumerate 0 (shortcuts p))"
| "rows_of p Save_menu = map plain_row [''Save for console'', ''Save for game'', ''Restore defaults'']"
| "rows_of p Cheats_menu = []"

definition menu_rows :: "player \<Rightarrow> cheats \<Rightarrow> menu \<Rightarrow> menu_item list" where
  "menu_rows p t m =
    (case m of
       Options_menu \<Rightarrow> rows_of p m @ (if ct_count t = 0 then [] else [plain_row ''Cheats''])
     | Cheats_menu \<Rightarrow> map cheat_row (take (ct_count t) (ct_item t))
     | _ \<Rightarrow> rows_of p m)"

abbreviation rows_in :: "menus \<Rightarrow> menu \<Rightarrow> menu_item list" where
  "rows_in s m \<equiv> menu_rows (s_player s) (s_cheats s) m"

text \<open>
  A menu that was open before only has its values brought up to date: an option's row points to its
  option, which its key stands for, also when the option is locked since; the other rows are gone
  through in order. The rows of the cheats are built anew each time.
\<close>

definition option_now :: "opt_list \<Rightarrow> menu_item \<Rightarrow> menu_item" where
  "option_now l item = (case find (\<lambda>o'. opt_key o' = mi_key item) (opts l) of
     None \<Rightarrow> item
   | Some o' \<Rightarrow> item\<lparr>mi_value := int (opt_value o')\<rparr>)"

definition open_rows :: "menus \<Rightarrow> menu \<Rightarrow> menu_item list" where
  "open_rows s m = (case s_items s m of
     None \<Rightarrow> rows_in s m
   | Some items \<Rightarrow>
       (case m of
          Frontend_menu \<Rightarrow> map (option_now (fe_list (s_player s))) items
        | Emulator_menu \<Rightarrow> map (option_now (core_list (s_player s))) items
        | Cheats_menu \<Rightarrow> rows_in s m
        | _ \<Rightarrow> map2 (\<lambda>item row. item\<lparr>mi_value := mi_value row\<rparr>) items (rows_in s m)))"

section \<open>Moving\<close>

text \<open>\<open>rows\<close>: the number of rows that fit the screen.\<close>

definition row_up :: "nat \<Rightarrow> nat \<Rightarrow> view \<Rightarrow> view" where
  "row_up rows n v =
    (if v_selected v = 0 then v\<lparr>v_selected := n - 1, v_start := n - rows, v_end := n\<rparr>
     else let s = v_selected v - 1
          in if s < v_start v then v\<lparr>v_selected := s, v_start := v_start v - 1, v_end := v_end v - 1\<rparr>
             else v\<lparr>v_selected := s\<rparr>)"

definition row_down :: "nat \<Rightarrow> nat \<Rightarrow> view \<Rightarrow> view" where
  "row_down rows n v =
    (let s = v_selected v + 1
     in if n \<le> s then v\<lparr>v_selected := 0, v_start := 0, v_end := min n rows\<rparr>
        else if v_end v \<le> s then v\<lparr>v_selected := s, v_start := v_start v + 1, v_end := v_end v + 1\<rparr>
        else v\<lparr>v_selected := s\<rparr>)"

definition value_left :: "menu_item \<Rightarrow> int" where
  "value_left item = (if 0 < mi_value item then mi_value item - 1 else int (length (texts (mi_values item))) - 1)"

text \<open>The array of texts ends with a null pointer; a value past it is read outside.\<close>

definition value_right :: "menu_item \<Rightarrow> int option" where
  "value_right item = do {
     let n = int (length (texts (mi_values item)));
     c_ok (0 \<le> mi_value item + 1 \<and> mi_value item + 1 \<le> n);
     Some (if mi_value item + 1 < n then mi_value item + 1 else 0)
   }"

section \<open>What a row does\<close>

definition set_binding_at :: "nat \<Rightarrow> (mapping \<Rightarrow> mapping) \<Rightarrow> mapping list \<Rightarrow> mapping list option" where
  "set_binding_at i f ms = do { c_ok (i < length ms); Some (ms[i := f (ms ! i)]) }"

abbreviation unbound :: "mapping \<Rightarrow> mapping" where
  "unbound m \<equiv> m\<lparr>mp_local := - 1, mp_mod := False\<rparr>"

definition OptionControls_optionChanged :: "int \<Rightarrow> player \<Rightarrow> player option" where
  "OptionControls_optionChanged v p =
    (if has_custom_controllers p
     then do { c_ok (0 \<le> v \<and> nat v < length gamepad_values);
       Some (p\<lparr>gamepad_type := v, port_device := scan_i (gamepad_values ! nat v)\<rparr>) }
     else Some p)"

text \<open>After the value of a row was changed: the item's own callback, or the list's.\<close>

definition on_change :: "menu \<Rightarrow> menu_item \<Rightarrow> player \<Rightarrow> player option" where
  "on_change m item p =
    (case m of
       Frontend_menu \<Rightarrow> do { c_ok (0 \<le> mi_value item); Config_syncFrontend (mi_key item) (nat (mi_value item)) p }
     | Emulator_menu \<Rightarrow> do { c_ok (0 \<le> mi_value item); OptionEmulator_optionChanged (mi_key item) (nat (mi_value item)) p }
     | Controls_menu \<Rightarrow>
         if mi_values item = Gamepad_labels then OptionControls_optionChanged (mi_value item) p
         else do { ms \<leftarrow> set_binding_at (mi_id item) unbound (controls p); Some (p\<lparr>controls := ms\<rparr>) }
     | Shortcuts_menu \<Rightarrow> do { ms \<leftarrow> set_binding_at (mi_id item) unbound (shortcuts p); Some (p\<lparr>shortcuts := ms\<rparr>) }
     | _ \<Rightarrow> Some p)"

text \<open>
  The button that a turn of the binding loop finds: the first of NONE and the sixteen buttons; the
  shift by -1 for NONE is taken to give 0.
\<close>

definition bound_button :: "pad_state \<Rightarrow> nat option" where
  "bound_button pad = find (\<lambda>i. PAD_justPressed (mask_of (int i - 1)) pad) [0..<LOCAL_BUTTON_COUNT + 1]"

definition bind_to :: "nat \<Rightarrow> bool \<Rightarrow> mapping \<Rightarrow> mapping" where
  "bind_to i m' m = m\<lparr>mp_local := int i - 1, mp_mod := m'\<rparr>"

definition bound_value :: "nat \<Rightarrow> bool \<Rightarrow> int" where
  "bound_value i m' = int i + (if m' then int LOCAL_BUTTON_COUNT else 0)"

section \<open>A turn of the loop\<close>

text \<open>The rows up to the first one without a name.\<close>

definition row_count :: "menu_item list \<Rightarrow> nat" where
  "row_count items = length (takeWhile (\<lambda>item. mi_name item \<noteq> None) items)"

definition fresh_view :: "surroundings \<Rightarrow> menu \<Rightarrow> menu_item list \<Rightarrow> view" where
  "fresh_view sr m items = \<lparr>v_menu = m, v_selected = 0, v_start = 0, v_end = min (row_count items) (screen_rows sr),
     v_defer = False, v_mode = Browsing\<rparr>"

text \<open>
  Opening a menu: Menu_options is entered, but for an emulator without options a message is shown, and
  without cheats nothing happens.
\<close>

definition open_menu :: "surroundings \<Rightarrow> menu \<Rightarrow> menus \<Rightarrow> menus option" where
  "open_menu sr m s =
    (let items = open_rows s m;
         t = s;
         s = s\<lparr>s_items := (s_items s)(m := Some items)\<rparr>
     in if m = Cheats_menu \<and> ct_count (s_cheats t) = 0 then Some t
        else if m = Emulator_menu \<and> row_count items = 0
        then (case s_stack s of [] \<Rightarrow> None | v # vs \<Rightarrow> Some (s\<lparr>s_stack := v\<lparr>v_mode := Message NOP\<rparr> # vs\<rparr>))
        else Some (s\<lparr>s_stack := fresh_view sr m items # s_stack s\<rparr>))"

definition put_item :: "menu \<Rightarrow> menu_item list \<Rightarrow> nat \<Rightarrow> menu_item \<Rightarrow> menus \<Rightarrow> menus" where
  "put_item m items i item s = s\<lparr>s_items := (s_items s)(m := Some (items[i := item]))\<rparr>"

text \<open>
  A row gets a value, and the callback is told. The cheats' callback takes the number of the row; what
  it tells the core is kept in order.
\<close>

definition change_row :: "surroundings \<Rightarrow> menu \<Rightarrow> nat \<Rightarrow> menu_item \<Rightarrow> menus \<Rightarrow> menus option" where
  "change_row sr m i item s =
    (if m = Cheats_menu
     then let (calls, fs, t) = LodorCheats_onChange (cheat_api sr) (card_room sr) (int i) (mi_value item \<noteq> 0)
                (s_fs s) (s_cheats s)
          in Some (s\<lparr>s_fs := fs, s_cheats := t, s_calls := s_calls s @ calls\<rparr>)
     else do { p \<leftarrow> on_change m item (s_player s); Some (s\<lparr>s_player := p\<rparr>) })"

definition give_value :: "surroundings \<Rightarrow> menu \<Rightarrow> menu_item list \<Rightarrow> nat \<Rightarrow> int \<Rightarrow> menus \<Rightarrow> menus option" where
  "give_value sr m items i v s = do {
     c_ok (i < length items);
     let item = (items ! i)\<lparr>mi_value := v\<rparr>;
     s \<leftarrow> change_row sr m i item s;
     Some (put_item m items i item s)
   }"

text \<open>The turn's first part: up and down, left and right.\<close>

definition browse :: "surroundings \<Rightarrow> pad_state \<Rightarrow> menu_item list \<Rightarrow> view \<Rightarrow> menus \<Rightarrow> (view \<times> menus) option" where
  "browse sr pad items v s =
    (let n = row_count items; i = v_selected v in
     if PAD_justRepeated (btn 0) pad then do { c_ok (0 < n); Some (row_up (screen_rows sr) n v, s) }
     else if PAD_justRepeated (btn 1) pad then Some (row_down (screen_rows sr) n v, s)
     else do {
       c_ok (i < length items);
       let item = items ! i;
       (if mi_values item \<noteq> No_labels \<and> mi_values item \<noteq> Button_labels
        then (if PAD_justRepeated (btn 2) pad then map_option (Pair v) (give_value sr (v_menu v) items i (value_left item) s)
              else if PAD_justRepeated (btn 3) pad
                then do { w \<leftarrow> value_right item; map_option (Pair v) (give_value sr (v_menu v) items i w s) }
              else Some (v, s))
        else Some (v, s))
     })"

text \<open>Save changes: the file is written or deleted, then a message is shown.\<close>

definition OptionSaveChanges_onConfirm :: "surroundings \<Rightarrow> nat \<Rightarrow> menus \<Rightarrow> menus option" where
  "OptionSaveChanges_onConfirm sr i s = do {
     (fs, p) \<leftarrow> (if i = 0 then Config_write False (s_fs s) (s_player s)
       else if i = 1 then Config_write True (s_fs s) (s_player s)
       else Config_restore (env_device sr) (overscan sr) (s_fs s) (s_player s));
     Some (s\<lparr>s_player := p, s_fs := fs\<rparr>)
   }"

text \<open>A on a row; the view on top of the stack is \<open>v\<close>.\<close>

definition confirm ::
  "surroundings \<Rightarrow> menu_item list \<Rightarrow> view \<Rightarrow> view list \<Rightarrow> menus \<Rightarrow> menus option" where
  "confirm sr items v vs s =
    (let s = s\<lparr>s_stack := v # vs\<rparr>; i = v_selected v in
     case v_menu v of
       Options_menu \<Rightarrow> do {
         c_ok (i < (if ct_count (s_cheats s) = 0 then 5 else 6));
         open_menu sr ([Frontend_menu, Emulator_menu, Controls_menu, Shortcuts_menu, Save_menu, Cheats_menu] ! i) s }
     | Frontend_menu \<Rightarrow> Some s
     | Emulator_menu \<Rightarrow> do {
         c_ok (i < length items);
         Some (if full_text sr (mi_key (items ! i)) then s\<lparr>s_stack := v\<lparr>v_mode := Message NOP\<rparr> # vs\<rparr> else s) }
     | Save_menu \<Rightarrow> map_option (\<lambda>s. s\<lparr>s_stack := v\<lparr>v_mode := Message EXIT\<rparr> # vs\<rparr>)
         (OptionSaveChanges_onConfirm sr i s)
     | Cheats_menu \<Rightarrow>
         if ct_count (s_cheats s) \<le> i then Some s
         else do {
           c_ok (ch_desc (ct_item (s_cheats s) ! i) \<noteq> None);
           Some (s\<lparr>s_stack := v\<lparr>v_mode := Message NOP\<rparr> # vs\<rparr>) }
     | _ \<Rightarrow> do {
         c_ok (i < length items);
         Some (if mi_values (items ! i) = Button_labels
               then s\<lparr>s_stack := v\<lparr>v_mode := Awaiting, v_defer := True\<rparr> # vs\<rparr> else s) })"

text \<open>X in a menu of bindings clears the row and goes to the next one.\<close>

definition clear_row :: "surroundings \<Rightarrow> menu_item list \<Rightarrow> view \<Rightarrow> menus \<Rightarrow> (view \<times> menus) option" where
  "clear_row sr items v s = do {
     s \<leftarrow> give_value sr (v_menu v) items (v_selected v) 0 s;
     Some (row_down (screen_rows sr) (row_count items) v, s)
   }"

text \<open>The end of a turn: the wait for MENU to be let go ends.\<close>

definition end_turn :: "pad_state \<Rightarrow> view \<Rightarrow> view" where
  "end_turn pad v = (if v_defer v \<and> PAD_justReleased (btn BTN_ID_MENU) pad then v\<lparr>v_defer := False\<rparr> else v)"

definition end_top :: "pad_state \<Rightarrow> menus \<Rightarrow> menus" where
  "end_top pad s = (case s_stack s of [] \<Rightarrow> s | v # vs \<Rightarrow> s\<lparr>s_stack := end_turn pad v # vs\<rparr>)"


text \<open>
  A turn of Menu_options itself: the items are read again after the first part, which may have
  changed them.
\<close>

definition browse_turn ::
  "surroundings \<Rightarrow> pad_state \<Rightarrow> menu_item list \<Rightarrow> view \<Rightarrow> view list \<Rightarrow> menus \<Rightarrow> menus option" where
  "browse_turn sr pad items v vs s = do {
     (v, s) \<leftarrow> browse sr pad items v s;
     items \<leftarrow> s_items s (v_menu v);
     (if PAD_justPressed (btn 5) pad then Some (end_top pad (s\<lparr>s_stack := vs\<rparr>))
      else if PAD_justPressed (btn 4) pad then do {
        s \<leftarrow> confirm sr items v vs s;
        Some (if v_mode (hd (s_stack s)) = Browsing \<and> length (s_stack s) = length vs + 1 then end_top pad s else s) }
      else if type_of (v_menu v) = MENU_INPUT \<and> PAD_justPressed (btn 6) pad then do {
        (v, s) \<leftarrow> clear_row sr items v s;
        Some (end_top pad (s\<lparr>s_stack := v # vs\<rparr>)) }
      else Some (end_top pad (s\<lparr>s_stack := v # vs\<rparr>)))
   }"

text \<open>A turn of the loop that waits for a button, and the move to the next row once there is one.\<close>

definition bind_mapping :: "menu \<Rightarrow> nat \<Rightarrow> (mapping \<Rightarrow> mapping) \<Rightarrow> player \<Rightarrow> player option" where
  "bind_mapping m i f p =
    (if m = Shortcuts_menu then do { ms \<leftarrow> set_binding_at i f (shortcuts p); Some (p\<lparr>shortcuts := ms\<rparr>) }
     else do { ms \<leftarrow> set_binding_at i f (controls p); Some (p\<lparr>controls := ms\<rparr>) })"

definition bind_turn ::
  "surroundings \<Rightarrow> pad_state \<Rightarrow> menu_item list \<Rightarrow> view \<Rightarrow> view list \<Rightarrow> menus \<Rightarrow> menus option" where
  "bind_turn sr pad items v vs s =
    (case bound_button pad of
       None \<Rightarrow> Some s
     | Some b \<Rightarrow> do {
         let i = v_selected v; let m' = PAD_isPressed (btn BTN_ID_MENU) pad;
         c_ok (i < length items);
         let item = (items ! i)\<lparr>mi_value := bound_value b m'\<rparr>;
         p \<leftarrow> bind_mapping (v_menu v) (mi_id item) (bind_to b m') (s_player s);
         let v = row_down (screen_rows sr) (row_count items) (v\<lparr>v_mode := Browsing\<rparr>);
         Some (put_item (v_menu v) items i item (s\<lparr>s_player := p, s_stack := v # vs\<rparr>))
       })"

definition message_turn :: "pad_state \<Rightarrow> callback \<Rightarrow> view \<Rightarrow> view list \<Rightarrow> menus \<Rightarrow> menus" where
  "message_turn pad r v vs s =
    (if PAD_justPressed (btn 4) pad \<or> PAD_justPressed (btn 5) pad
     then end_top pad (s\<lparr>s_stack := (if r = EXIT then vs else v\<lparr>v_mode := Browsing\<rparr> # vs)\<rparr>)
     else s)"

definition menu_turn :: "surroundings \<Rightarrow> pad_state \<Rightarrow> menus \<Rightarrow> menus option" where
  "menu_turn sr pad s =
    (case s_stack s of
       [] \<Rightarrow> Some s
     | v # vs \<Rightarrow> do {
         items \<leftarrow> s_items s (v_menu v);
         (case v_mode v of
            Browsing \<Rightarrow> browse_turn sr pad items v vs s
          | Awaiting \<Rightarrow> bind_turn sr pad items v vs s
          | Message r \<Rightarrow> Some (message_turn pad r v vs s))
       })"

section \<open>Rows follow the settings\<close>

text \<open>What a menu needs of the player: tables in order, values and bindings in their ranges.\<close>

definition core_list_ok :: "opt_list \<Rightarrow> bool" where
  "core_list_ok l \<longleftrightarrow> ol_count l = 0 \<and> ol_options l = None \<or> SavedConfig.options_ok l"

definition player_ok :: "player \<Rightarrow> bool" where
  "player_ok p \<longleftrightarrow> SavedConfig.options_ok (fe_list p) \<and> ol_count (fe_list p) = 8 \<and> core_list_ok (core_list p)
    \<and> list_all (\<lambda>o'. opt_values o' \<noteq> []) (opts (fe_list p) @ opts (core_list p))
    \<and> list_all binding_ok (controls p @ shortcuts p)
    \<and> (has_custom_controllers p \<longrightarrow> gamepad_type p = 0 \<or> gamepad_type p = 1)"

definition item_ok :: "menu_item \<Rightarrow> bool" where
  "item_ok item \<longleftrightarrow> mi_values item \<noteq> No_labels \<longrightarrow> 0 \<le> mi_value item \<and> nat (mi_value item) < length (texts (mi_values item))"

abbreviation static :: "menu_item \<Rightarrow> menu_item" where
  "static item \<equiv> item\<lparr>mi_value := 0\<rparr>"

definition same_rows :: "player \<Rightarrow> player \<Rightarrow> bool" where
  "same_rows p q \<longleftrightarrow> (\<forall>m. map static (rows_of p m) = map static (rows_of q m))"

lemma same_rows_refl [simp]: "same_rows p p"
  by (simp add: same_rows_def)

lemma map_at_key:
  assumes "distinct (map key xs)" "i < length xs"
  shows "map (\<lambda>x. if key x = key (xs ! i) then f x else x) xs = xs[i := f (xs ! i)]"
  using assms by (intro nth_equalityI) (auto simp: nth_list_update distinct_conv_nth)

lemma update_is_map:
  assumes "distinct (map key xs)" "i < length xs" "key (xs ! i) = k"
  shows "xs[i := f (xs ! i)] = map (\<lambda>x. if key x = k then f x else x) xs"
  using map_at_key [OF assms(1,2), of f] assms(3) by simp

text \<open>Changing the element with a key among those of a list that are shown.\<close>

lemma filter_at_key:
  assumes "distinct (map key xs)" "i < length (filter P xs)" "\<And>x. P (f x) = P x"
  shows "filter P (map (\<lambda>x. if key x = key (filter P xs ! i) then f x else x) xs) = (filter P xs)[i := f (filter P xs ! i)]"
proof -
  let ?g = "\<lambda>x. if key x = key (filter P xs ! i) then f x else x"
  have "P (?g x) = P x" for x by (simp add: assms(3))
  then have "filter P (map ?g xs) = map ?g (filter P xs)" by (simp add: filter_map o_def)
  also have "\<dots> = (filter P xs)[i := f (filter P xs ! i)]"
    using assms(1,2) by (intro map_at_key) (simp_all add: distinct_map_filter)
  finally show ?thesis .
qed

lemma options_row_ok: "opt_ok o' \<Longrightarrow> opt_values o' \<noteq> [] \<Longrightarrow> item_ok (option_row o')"
  by (auto simp: item_ok_def option_row_def opt_ok_def)

lemma binding_row_ok: "binding_ok m \<Longrightarrow> item_ok (binding_row j m)"
  by (auto simp: item_ok_def binding_row_def binding_ok_def binding_value_def LOCAL_BUTTON_COUNT_def split: if_splits)

lemma core_list_opts: "core_list_ok l \<Longrightarrow> o' \<in> set (opts l) \<Longrightarrow> opt_ok o'"
  by (auto simp: core_list_ok_def opts_def SavedConfig.options_ok_def list_all_iff split: option.splits)

lemma rows_ok: "player_ok p \<Longrightarrow> item \<in> set (rows_of p m) \<Longrightarrow> item_ok item"
proof -
  assume p: "player_ok p" and item: "item \<in> set (rows_of p m)"
  have fe: "item_ok (option_row o')" if "o' \<in> set (opts (fe_list p))" for o'
    using p that by (intro options_row_ok)
      (auto simp: player_ok_def opts_def SavedConfig.options_ok_def list_all_iff split: option.splits)
  have core: "item_ok (option_row o')" if "o' \<in> set (opts (core_list p))" for o'
    using p that core_list_opts by (intro options_row_ok) (auto simp: player_ok_def list_all_iff)
  have bind: "item_ok (binding_row j m)" if "m \<in> set (controls p @ shortcuts p)" for j m
    using p that by (intro binding_row_ok) (auto simp: player_ok_def list_all_iff)
  have pad: "item_ok (gamepad_row p)" if "has_custom_controllers p"
    using p that by (auto simp: item_ok_def gamepad_row_def player_ok_def gamepad_labels_def)
  show ?thesis
  proof (cases m)
    case Controls_menu
    then show ?thesis using item bind pad by (auto simp: in_set_enumerate_eq split: if_splits)
  next
    case Shortcuts_menu
    then show ?thesis using item bind by (auto simp: in_set_enumerate_eq)
  qed (use item fe core in \<open>auto simp: plain_row_def item_ok_def\<close>)
qed

subsection \<open>Frontend\<close>

lemma rows_frame [simp]:
  "rows_of (p\<lparr>globals := g\<rparr>) m = rows_of p m" "rows_of (p\<lparr>palette_updated := n\<rparr>) m = rows_of p m"
  by (cases m; simp add: gamepad_row_def)+

lemma player_ok_frame [simp]:
  "player_ok (p\<lparr>globals := g\<rparr>) = player_ok p" "player_ok (p\<lparr>palette_updated := n\<rparr>) = player_ok p"
  by (simp_all add: player_ok_def)

lemma syncFrontend_sets:
  assumes "ol_options (fe_list p) = Some os" "distinct (map opt_key os)" "length os = 8" "j < 8"
  shows "\<exists>g. Config_syncFrontend (opt_key (os ! j)) v p
    = Some (p\<lparr>globals := g, fe_list := (fe_list p)\<lparr>ol_options := Some (os[j := (os ! j)\<lparr>opt_value := v\<rparr>])\<rparr>\<rparr>)"
proof -
  have "find (\<lambda>i. opt_key (os ! i) = opt_key (os ! j)) [0, 1, 2, 3, 5, 4, 6, 7] = Some j"
  proof -
    have found: "find (\<lambda>i. opt_key (os ! i) = opt_key (os ! j)) ks = (if j \<in> set ks then Some j else None)"
      if "set ks \<subseteq> {..<8}" for ks
      using that assms(2-4) by (induction ks) (auto simp: distinct_conv_nth)
    have "find (\<lambda>i. opt_key (os ! i) = opt_key (os ! j)) [0, 1, 2, 3, 5, 4, 6, 7]
        = (if j \<in> set [0, 1, 2, 3, 5, 4, 6, 7] then Some j else None)"
      by (rule found) simp
    moreover have "j \<in> set [0, 1, 2, 3, 5, 4, 6, 7]" using assms(4) by (auto simp: less_Suc_eq numeral_eq_Suc)
    ultimately show ?thesis by (simp only: if_True)
  qed
  then show ?thesis using assms by (intro exI [of _ "sync_global j v (globals p)"])
    (simp add: Config_syncFrontend_def set_fe_value_def)
qed

abbreviation unlocked :: "opt list \<Rightarrow> opt list" where
  "unlocked os \<equiv> filter (\<lambda>o'. \<not> opt_lock o') os"

abbreviation with_value' :: "nat \<Rightarrow> opt \<Rightarrow> opt" where
  "with_value' v o' \<equiv> o'\<lparr>opt_value := v\<rparr>"

text \<open>An option that is shown gets another value.\<close>

lemma shown_option:
  assumes "distinct (map opt_key os)" "i < length (unlocked os)"
  obtains j where "j < length os" "os ! j = unlocked os ! i"
    "\<And>v. unlocked (os[j := with_value' v (os ! j)]) = (unlocked os)[i := with_value' v (os ! j)]"
    "\<And>v. map static (map option_row (unlocked (os[j := with_value' v (os ! j)]))) = map static (map option_row (unlocked os))"
proof -
  have "unlocked os ! i \<in> set os" using nth_mem [OF assms(2)] by simp
  then obtain j where j: "j < length os" "os ! j = unlocked os ! i" by (metis in_set_conv_nth)
  have upd: "unlocked (os[j := with_value' v (os ! j)]) = (unlocked os)[i := with_value' v (os ! j)]" for v
    unfolding update_is_map [OF assms(1) j(1) arg_cong [OF j(2), of opt_key], of "with_value' v"] unfolding j(2)
    by (rule filter_at_key [OF assms]) simp
  have "map static (map option_row ((unlocked os)[i := with_value' v (os ! j)])) = map static (map option_row (unlocked os))" for v
    using assms(2) j(2) by (intro nth_equalityI) (auto simp: nth_list_update option_row_def)
  then show thesis using that [OF j upd] upd by simp
qed

lemma all_values_update:
  "list_all (\<lambda>o'. opt_values o' \<noteq> []) os \<Longrightarrow> j < length os \<Longrightarrow> list_all (\<lambda>o'. opt_values o' \<noteq> []) (os[j := with_value' v (os ! j)])"
  by (auto simp: list_all_length nth_list_update)

lemma opt_ok_with: "opt_ok o' \<Longrightarrow> v < length (opt_values o') \<Longrightarrow> opt_ok (with_value' v o')"
  by (simp add: opt_ok_def)

lemma options_with_value:
  assumes "SavedConfig.options_ok l" "ol_options l = Some os" "j < length os" "v < length (opt_values (os ! j))"
  shows "SavedConfig.options_ok (l\<lparr>ol_options := Some (os[j := with_value' v (os ! j)]), ol_changed := c\<rparr>)"
    "SavedConfig.options_ok (l\<lparr>ol_options := Some (os[j := with_value' v (os ! j)])\<rparr>)"
  using options_ok_update [OF assms(1-3), of "with_value' v (os ! j)"] opt_ok_with [OF options_ok_item(1) [OF assms(1-3)] assms(4)]
  by simp_all

text \<open>What a change of a row must do: the row and the setting agree, the rest stays.\<close>

definition changes :: "menu \<Rightarrow> nat \<Rightarrow> int \<Rightarrow> player \<Rightarrow> player \<Rightarrow> bool" where
  "changes m i v p p' \<longleftrightarrow> player_ok p' \<and> same_rows p' p
    \<and> rows_of p' m = (rows_of p m)[i := (rows_of p m ! i)\<lparr>mi_value := v\<rparr>]"

lemma option_row_value: "(option_row o')\<lparr>mi_value := int v\<rparr> = option_row (with_value' v o')"
  by (simp add: option_row_def)

lemma frontend_changes:
  assumes "player_ok p" "i < length (rows_of p Frontend_menu)"
    and "v < length (texts (mi_values (rows_of p Frontend_menu ! i)))"
  shows "\<exists>p'. on_change Frontend_menu ((rows_of p Frontend_menu ! i)\<lparr>mi_value := int v\<rparr>) p = Some p'
    \<and> changes Frontend_menu i (int v) p p'"
proof -
  obtain os where os: "ol_options (fe_list p) = Some os" "length os = 8" "distinct (map opt_key os)" "opts (fe_list p) = os"
    using assms(1) by (auto simp: player_ok_def opts_def elim!: options_okE)
  have i: "i < length (unlocked os)" using assms(2) os(4) by simp
  from shown_option [OF os(3) i] obtain j where j: "j < length os" "os ! j = unlocked os ! i"
    "\<And>v. unlocked (os[j := with_value' v (os ! j)]) = (unlocked os)[i := with_value' v (os ! j)]"
    "\<And>v. map static (map option_row (unlocked (os[j := with_value' v (os ! j)]))) = map static (map option_row (unlocked os))"
    by blast
  have row: "rows_of p Frontend_menu ! i = option_row (os ! j)" using i j(2) os(4) by simp
  have ok: "SavedConfig.options_ok (fe_list p)" using assms(1) by (simp add: player_ok_def)
  have v: "v < length (opt_values (os ! j))"
    using assms(3) options_ok_item(1) [OF ok os(1) j(1)] unfolding row by (simp add: option_row_def opt_ok_def)
  let ?l = "(fe_list p)\<lparr>ol_options := Some (os[j := with_value' v (os ! j)])\<rparr>"
  obtain g where g: "Config_syncFrontend (opt_key (os ! j)) v p = Some (p\<lparr>globals := g, fe_list := ?l\<rparr>)"
    using syncFrontend_sets [OF os(1,3,2), of j v] j(1) os(2) by auto
  let ?p = "p\<lparr>globals := g, fe_list := ?l\<rparr>"
  have "list_all (\<lambda>o'. opt_values o' \<noteq> []) (os[j := with_value' v (os ! j)])"
    using all_values_update [OF _ j(1)] assms(1) os(4) by (simp add: player_ok_def)
  then have "player_ok ?p"
    using assms(1) options_with_value(2) [OF ok os(1) j(1) v] os(4) by (simp add: player_ok_def opts_def)
  moreover have "map static (rows_of ?p m) = map static (rows_of p m)" for m
    using j(4) [of v] os(4) by (cases m) (simp_all add: opts_def gamepad_row_def)
  then have "same_rows ?p p" by (simp add: same_rows_def)
  moreover have "rows_of ?p Frontend_menu = (rows_of p Frontend_menu)[i := (rows_of p Frontend_menu ! i)\<lparr>mi_value := int v\<rparr>]"
    unfolding row option_row_value using j(3) [of v] os(4) by (simp add: opts_def map_update)
  ultimately show ?thesis using g unfolding row changes_def by (simp add: on_change_def option_row_def)
qed

subsection \<open>Emulator\<close>

lemma setOptionRawValue_at:
  assumes "SavedConfig.options_ok l" "ol_options l = Some os" "i < length os"
  shows "\<exists>frames. OptionList_setOptionRawValue tag l (opt_key (os ! i)) v =
    Some (l\<lparr>ol_options := Some (os[i := with_value' v (os ! i)]), ol_changed := True\<rparr>, frames)"
proof -
  have l: "ol_count l = length os" "distinct (map opt_key os)"
    using assms(1,2) by (auto simp: SavedConfig.options_ok_def)
  have "find (\<lambda>j. opt_key (os ! j) = opt_key (os ! i)) [0..<length os] = Some i"
    using assms(3) l(2) by (auto simp: find_Some_iff distinct_conv_nth intro!: exI [of _ i])
  then have "OptionList_getOption l (opt_key (os ! i)) = Some (Some i)"
    using assms l by (auto simp: OptionList_getOption_def)
  then show ?thesis using assms l by (simp add: OptionList_setOptionRawValue_def)
qed

lemma emulator_changes:
  assumes "player_ok p" "i < length (rows_of p Emulator_menu)"
    and "v < length (texts (mi_values (rows_of p Emulator_menu ! i)))"
  shows "\<exists>p'. on_change Emulator_menu ((rows_of p Emulator_menu ! i)\<lparr>mi_value := int v\<rparr>) p = Some p'
    \<and> changes Emulator_menu i (int v) p p'"
proof -
  have ok: "SavedConfig.options_ok (core_list p)"
    using assms(1,2) by (auto simp: player_ok_def core_list_ok_def opts_def)
  obtain os where os: "ol_options (core_list p) = Some os" "distinct (map opt_key os)" "opts (core_list p) = os"
    using ok by (auto simp: opts_def elim!: options_okE)
  have i: "i < length (unlocked os)" using assms(2) os(3) by simp
  from shown_option [OF os(2) i] obtain j where j: "j < length os" "os ! j = unlocked os ! i"
    "\<And>v. unlocked (os[j := with_value' v (os ! j)]) = (unlocked os)[i := with_value' v (os ! j)]"
    "\<And>v. map static (map option_row (unlocked (os[j := with_value' v (os ! j)]))) = map static (map option_row (unlocked os))"
    by blast
  have row: "rows_of p Emulator_menu ! i = option_row (os ! j)" using i j(2) os(3) by simp
  have v: "v < length (opt_values (os ! j))"
    using assms(3) options_ok_item(1) [OF ok os(1) j(1)] unfolding row by (simp add: option_row_def opt_ok_def)
  let ?l = "(core_list p)\<lparr>ol_options := Some (os[j := with_value' v (os ! j)]), ol_changed := True\<rparr>"
  obtain n where n: "OptionList_setOptionRawValue (core_tag p) (core_list p) (opt_key (os ! j)) v = Some (?l, n)"
    using setOptionRawValue_at [OF ok os(1) j(1)] by blast
  let ?p = "refresh_palette n (p\<lparr>core_list := ?l\<rparr>)"
  have refresh: "rows_of (refresh_palette n q) m = rows_of q m" "player_ok (refresh_palette n q) = player_ok q" for q m
    by (simp_all add: refresh_palette_def)
  have "list_all (\<lambda>o'. opt_values o' \<noteq> []) (os[j := with_value' v (os ! j)])"
    using all_values_update [OF _ j(1)] assms(1) os(3) by (simp add: player_ok_def)
  then have "player_ok ?p"
    unfolding refresh using assms(1) options_with_value(1) [OF ok os(1) j(1) v] os(3)
    by (simp add: player_ok_def opts_def core_list_ok_def)
  moreover have "map static (rows_of ?p m) = map static (rows_of p m)" for m
    unfolding refresh using j(4) [of v] os(3) by (cases m) (simp_all add: opts_def gamepad_row_def)
  then have "same_rows ?p p" by (simp add: same_rows_def)
  moreover have "rows_of ?p Emulator_menu = (rows_of p Emulator_menu)[i := (rows_of p Emulator_menu ! i)\<lparr>mi_value := int v\<rparr>]"
    unfolding row option_row_value refresh using j(3) [of v] os(3) by (simp add: opts_def map_update)
  ultimately show ?thesis using n unfolding row changes_def
    by (simp add: on_change_def option_row_def OptionEmulator_optionChanged_def)
qed

subsection \<open>Bindings\<close>

text \<open>A row of bindings and the mapping it stands for.\<close>

abbreviation shown :: "mapping list \<Rightarrow> (nat \<times> mapping) list" where
  "shown ms \<equiv> filter (\<lambda>(j, m). \<not> mp_ignore m) (enumerate 0 ms)"

abbreviation binding_rows :: "(nat \<times> mapping) list \<Rightarrow> menu_item list" where
  "binding_rows jms \<equiv> map (\<lambda>(j, m). binding_row j m) jms"

lemma enumerate_update: "j < length ms \<Longrightarrow> enumerate 0 (ms[j := m]) = (enumerate 0 ms)[j := (j, m)]"
  by (intro nth_equalityI) (auto simp: nth_enumerate_eq nth_list_update)

lemma distinct_enumerate_keys: "distinct (map fst (enumerate 0 ms))"
  by simp

text \<open>A mapping is bound anew: the row that shows it changes its value, and no other row does.\<close>

lemma shown_update:
  assumes "k < length (shown ms)" "shown ms ! k = (j, m)" "mp_ignore m' = mp_ignore m"
  shows "j < length ms" "ms ! j = m" "shown (ms[j := m']) = (shown ms)[k := (j, m')]"
proof -
  have "(j, m) \<in> set (shown ms)" using nth_mem [OF assms(1)] assms(2) by simp
  then show j: "j < length ms" and m: "ms ! j = m" by (auto simp: in_set_enumerate_eq)
  have P: "(case enumerate 0 ms ! j of (j, m) \<Rightarrow> \<not> mp_ignore m) = (\<not> mp_ignore m)"
    using j m by (simp add: nth_enumerate_eq)
  let ?f = "\<lambda>jm. if fst jm = j then (j, m') else jm"
  have map: "enumerate 0 (ms[j := m']) = map ?f (enumerate 0 ms)"
    using j by (intro nth_equalityI) (auto simp: nth_enumerate_eq nth_list_update)
  have "filter (\<lambda>(j, m). \<not> mp_ignore m) (map ?f (enumerate 0 ms)) = map ?f (shown ms)"
    unfolding filter_map o_def using assms(3) m
    by (intro arg_cong [where f = "map ?f"] filter_cong) (auto simp: in_set_enumerate_eq)
  also have "\<dots> = (shown ms)[k := ?f (shown ms ! k)]"
  proof -
    have d: "distinct (map fst (shown ms))" by (simp add: distinct_map_filter)
    show ?thesis using map_at_key [OF d assms(1), of "\<lambda>_. (j, m')"] assms(2) by simp
  qed
  finally show "shown (ms[j := m']) = (shown ms)[k := (j, m')]" using map assms(2) by simp
qed

definition rebinds :: "(mapping \<Rightarrow> mapping) \<Rightarrow> int \<Rightarrow> bool" where
  "rebinds f v \<longleftrightarrow> (\<forall>m. mp_name (f m) = mp_name m \<and> mp_ignore (f m) = mp_ignore m \<and> binding_value (f m) = v
     \<and> (binding_ok m \<longrightarrow> binding_ok (f m)))"

lemma rebinds_unbound: "rebinds unbound 0"
  by (simp add: rebinds_def binding_value_def binding_ok_def)

lemma rebinds_bind: "0 < b \<Longrightarrow> b \<le> LOCAL_BUTTON_COUNT \<Longrightarrow> rebinds (bind_to b m') (bound_value b m')"
  by (auto simp: rebinds_def binding_value_def binding_ok_def bind_to_def bound_value_def LOCAL_BUTTON_COUNT_def)

lemma rebinds_row: "rebinds f v \<Longrightarrow> binding_row j (f m) = (binding_row j m)\<lparr>mi_value := v\<rparr>"
  by (simp add: rebinds_def binding_row_def)

lemma rebinds_ok:
  assumes "rebinds f v" "list_all binding_ok ms"
  shows "list_all binding_ok (ms[j := f (ms ! j)])"
proof (cases "j < length ms")
  case True
  then show ?thesis using assms by (auto simp: list_all_length nth_list_update rebinds_def)
qed (use assms in \<open>simp add: list_update_beyond\<close>)

lemma static_update: "i < length xs \<Longrightarrow> static x = static (xs ! i) \<Longrightarrow> map static (xs[i := x]) = map static xs"
  by (intro nth_equalityI) (auto simp: nth_list_update)

lemma controls_rebound:
  assumes "player_ok p" "rebinds f v" "i < length (rows_of p Controls_menu)"
    and "mi_values (rows_of p Controls_menu ! i) = Button_labels"
  shows "\<exists>p'. bind_mapping Controls_menu (mi_id (rows_of p Controls_menu ! i)) f p = Some p' \<and> changes Controls_menu i v p p'"
proof -
  define pre where "pre = (if has_custom_controllers p then [gamepad_row p] else [])"
  have rows: "rows_of p Controls_menu = pre @ binding_rows (shown (controls p))" by (simp add: pre_def)
  have i: "length pre \<le> i"
    using assms(4) unfolding rows by (auto simp: pre_def gamepad_row_def nth_append nth_Cons' split: if_splits)
  define k where "k = i - length pre"
  have k: "k < length (shown (controls p))" using assms(3) i unfolding rows k_def by simp
  obtain j m where jm: "shown (controls p) ! k = (j, m)" by (cases "shown (controls p) ! k")
  have same: "mp_ignore (f m) = mp_ignore m" using assms(2) by (simp add: rebinds_def)
  note upd = shown_update [OF k jm same]
  have row: "rows_of p Controls_menu ! i = binding_row j m"
    unfolding rows using i k jm by (simp add: nth_append k_def)
  let ?p = "p\<lparr>controls := (controls p)[j := f m]\<rparr>"
  have "rows_of ?p Controls_menu = pre @ binding_rows ((shown (controls p))[k := (j, f m)])"
    using upd(3) by (simp add: pre_def gamepad_row_def)
  also have "\<dots> = (rows_of p Controls_menu)[i := binding_row j (f m)]"
    unfolding rows using i k by (simp add: map_update list_update_append k_def)
  finally have new: "rows_of ?p Controls_menu = (rows_of p Controls_menu)[i := (rows_of p Controls_menu ! i)\<lparr>mi_value := v\<rparr>]"
    unfolding row rebinds_row [OF assms(2)] .
  have "map static (rows_of ?p m') = map static (rows_of p m')" for m'
  proof (cases m')
    case Controls_menu
    then show ?thesis unfolding Controls_menu new by (intro static_update assms(3)) simp
  qed simp_all
  then have "same_rows ?p p" by (simp add: same_rows_def)
  moreover have "player_ok ?p"
    using assms(1) rebinds_ok [OF assms(2), of "controls p" j] upd(2) by (simp add: player_ok_def)
  ultimately have "changes Controls_menu i v p ?p" using new unfolding changes_def by blast
  moreover have "bind_mapping Controls_menu (mi_id (rows_of p Controls_menu ! i)) f p = Some ?p"
    unfolding row using upd(1,2) by (simp add: bind_mapping_def set_binding_at_def binding_row_def)
  ultimately show ?thesis by blast
qed

lemma shortcuts_rebound:
  assumes "player_ok p" "rebinds f v" "i < length (rows_of p Shortcuts_menu)"
  shows "\<exists>p'. bind_mapping Shortcuts_menu (mi_id (rows_of p Shortcuts_menu ! i)) f p = Some p' \<and> changes Shortcuts_menu i v p p'"
proof -
  have i: "i < length (shortcuts p)" using assms(3) by simp
  define m where "m = shortcuts p ! i"
  have row: "rows_of p Shortcuts_menu ! i = binding_row i m" using i by (simp add: nth_enumerate_eq m_def)
  let ?p = "p\<lparr>shortcuts := (shortcuts p)[i := f m]\<rparr>"
  have new: "rows_of ?p Shortcuts_menu = (rows_of p Shortcuts_menu)[i := (rows_of p Shortcuts_menu ! i)\<lparr>mi_value := v\<rparr>]"
    unfolding row rebinds_row [OF assms(2), symmetric] using i by (simp add: enumerate_update map_update)
  have "map static (rows_of ?p m') = map static (rows_of p m')" for m'
  proof (cases m')
    case Shortcuts_menu
    then show ?thesis unfolding Shortcuts_menu new by (intro static_update assms(3)) simp
  qed (simp_all add: gamepad_row_def)
  then have "same_rows ?p p" by (simp add: same_rows_def)
  moreover have "player_ok ?p"
    using assms(1) rebinds_ok [OF assms(2), of "shortcuts p" i] by (simp add: player_ok_def m_def)
  ultimately have "changes Shortcuts_menu i v p ?p" using new unfolding changes_def by blast
  moreover have "bind_mapping Shortcuts_menu (mi_id (rows_of p Shortcuts_menu ! i)) f p = Some ?p"
    unfolding row using i by (simp add: bind_mapping_def set_binding_at_def binding_row_def m_def)
  ultimately show ?thesis by blast
qed

lemma gamepad_changes:
  assumes "player_ok p" "i < length (rows_of p Controls_menu)" "v < 2"
    and "mi_values (rows_of p Controls_menu ! i) = Gamepad_labels"
  shows "\<exists>p'. on_change Controls_menu ((rows_of p Controls_menu ! i)\<lparr>mi_value := int v\<rparr>) p = Some p'
    \<and> changes Controls_menu i (int v) p p'"
proof -
  let ?rows = "binding_rows (shown (controls p))"
  have "mi_values item = Button_labels" if "item \<in> set ?rows" for item using that by (auto simp: binding_row_def)
  then have no: "mi_values (?rows ! k) = Button_labels" if "k < length ?rows" for k using nth_mem [OF that] by blast
  have c: "has_custom_controllers p" "i = 0"
    using assms(2,4) no [of i] no [of "i - 1"] by (auto simp: nth_Cons' split: if_splits)
  let ?p = "p\<lparr>gamepad_type := int v, port_device := scan_i (gamepad_values ! v)\<rparr>"
  have "player_ok ?p" using assms(1,3) by (auto simp: player_ok_def)
  moreover have "map static (rows_of ?p m) = map static (rows_of p m)" for m by (cases m) (simp_all add: gamepad_row_def)
  then have "same_rows ?p p" by (simp add: same_rows_def)
  moreover have "rows_of ?p Controls_menu = (rows_of p Controls_menu)[i := (rows_of p Controls_menu ! i)\<lparr>mi_value := int v\<rparr>]"
    using c by (simp add: gamepad_row_def)
  ultimately have "changes Controls_menu i (int v) p ?p" unfolding changes_def by blast
  moreover have "on_change Controls_menu ((rows_of p Controls_menu ! i)\<lparr>mi_value := int v\<rparr>) p = Some ?p"
    using c assms(3) by (simp add: on_change_def OptionControls_optionChanged_def gamepad_row_def gamepad_values_def)
  ultimately show ?thesis by blast
qed

abbreviation settings_menu :: "menu \<Rightarrow> bool" where
  "settings_menu m \<equiv> m \<in> {Frontend_menu, Emulator_menu, Controls_menu, Shortcuts_menu}"

text \<open>Any change of a row that keeps to its texts works.\<close>

lemma change_ok:
  assumes "player_ok p" "settings_menu m" "i < length (rows_of p m)"
    and "mi_values (rows_of p m ! i) \<noteq> Button_labels \<Longrightarrow> v < length (texts (mi_values (rows_of p m ! i)))"
    and "mi_values (rows_of p m ! i) = Button_labels \<Longrightarrow> v = 0"
  shows "\<exists>p'. on_change m ((rows_of p m ! i)\<lparr>mi_value := int v\<rparr>) p = Some p' \<and> changes m i (int v) p p'"
proof -
  have labels: "mi_values (rows_of p m ! i) \<noteq> Button_labels" if "m = Frontend_menu \<or> m = Emulator_menu"
    using that assms(3) by (auto simp: option_row_def)
  consider "m = Frontend_menu" | "m = Emulator_menu" | "m = Controls_menu" | "m = Shortcuts_menu" using assms(2) by auto
  then show ?thesis
  proof cases
    case 1
    then show ?thesis using frontend_changes [OF assms(1), of i v] assms(3,4) labels by simp
  next
    case 2
    then show ?thesis using emulator_changes [OF assms(1), of i v] assms(3,4) labels by simp
  next
    case 3
    have in_rows: "rows_of p Controls_menu ! i \<in> set (rows_of p Controls_menu)" using assms(3) 3 by (intro nth_mem) simp
    then have "mi_values (rows_of p Controls_menu ! i) = Gamepad_labels \<or> mi_values (rows_of p Controls_menu ! i) = Button_labels"
      by (auto simp: gamepad_row_def binding_row_def split: if_splits)
    then show ?thesis
    proof
      assume g: "mi_values (rows_of p Controls_menu ! i) = Gamepad_labels"
      then have "v < 2" using assms(4) 3 by (simp add: gamepad_labels_def)
      then show ?thesis using gamepad_changes [OF assms(1) _ _ g] assms(3) 3 by blast
    next
      assume b: "mi_values (rows_of p Controls_menu ! i) = Button_labels"
      then have "v = 0" using assms(5) 3 by simp
      then show ?thesis using controls_rebound [OF assms(1) rebinds_unbound _ b] assms(3) 3 b
        by (simp add: on_change_def bind_mapping_def)
    qed
  next
    case 4
    have "mi_values (rows_of p Shortcuts_menu ! i) = Button_labels"
      using assms(3) 4 by (simp add: binding_row_def nth_enumerate_eq)
    then have "v = 0" using assms(5) 4 by simp
    then show ?thesis using shortcuts_rebound [OF assms(1) rebinds_unbound, of i] assms(3) 4
      by (simp add: on_change_def bind_mapping_def)
  qed
qed

subsection \<open>Saving and restoring\<close>

text \<open>
  A player of the same tables: the same options but for their values, the same bindings but for their
  buttons.
\<close>

abbreviation shape :: "opt \<Rightarrow> opt" where
  "shape o' \<equiv> o'\<lparr>opt_value := 0\<rparr>"

abbreviation label_of :: "mapping \<Rightarrow> string \<times> bool" where
  "label_of m \<equiv> (mp_name m, mp_ignore m)"

definition kin :: "player \<Rightarrow> player \<Rightarrow> bool" where
  "kin q p \<longleftrightarrow> player_ok q \<and> ol_options (core_list q) \<noteq> None
    \<and> map shape (opts (fe_list q)) = map shape (opts (fe_list p)) \<and> map shape (opts (core_list q)) = map shape (opts (core_list p))
    \<and> has_custom_controllers q = has_custom_controllers p
    \<and> map label_of (controls q) = map label_of (controls p) \<and> map label_of (shortcuts q) = map label_of (shortcuts p)"

lemma shape_rows:
  "map shape os = map shape os' \<Longrightarrow> map static (map option_row (unlocked os)) = map static (map option_row (unlocked os'))"
proof (induction os os' rule: list_induct2')
  case (4 x xs y ys)
  have eq: "shape x = shape y" "map shape xs = map shape ys" using 4(2) by (simp_all only: list.map list.inject)
  have lock: "opt_lock x = opt_lock y" using arg_cong [OF eq(1), of opt_lock] by simp
  have row: "static (option_row x) = static (option_row y)"
    using arg_cong [OF eq(1), of opt_key] arg_cong [OF eq(1), of opt_name] arg_cong [OF eq(1), of opt_labels]
    by (simp add: option_row_def)
  show ?case by (simp only: filter.simps list.map lock row if_distrib [of "map static"] if_distrib [of "map option_row"] 4(1) [OF eq(2)])
qed simp_all

lemma label_rows:
  assumes "map label_of ms = map label_of ms'"
  shows "map static (map (\<lambda>(j, m). binding_row j m) (filter (\<lambda>(j, m). Q (mp_ignore m)) (enumerate n ms)))
    = map static (map (\<lambda>(j, m). binding_row j m) (filter (\<lambda>(j, m). Q (mp_ignore m)) (enumerate n ms')))"
  using assms
proof (induction ms ms' arbitrary: n rule: list_induct2')
  case (4 x xs y ys)
  have eq: "label_of x = label_of y" "map label_of xs = map label_of ys" using 4(2) by (simp_all only: list.map list.inject)
  have "static (binding_row n x) = static (binding_row n y)" using eq(1) by (simp add: binding_row_def)
  then show ?case using 4(1) [OF eq(2), of "Suc n"] eq(1) by simp
qed simp_all

lemma kin_rows: "kin q p \<Longrightarrow> same_rows q p"
proof -
  assume k: "kin q p"
  have "map static (rows_of q m) = map static (rows_of p m)" for m
  proof (cases m)
    case Controls_menu
    have "map static (binding_rows (shown (controls q))) = map static (binding_rows (shown (controls p)))"
      using k by (intro label_rows [where Q = Not]) (simp add: kin_def)
    then show ?thesis using k Controls_menu by (simp add: kin_def gamepad_row_def)
  next
    case Shortcuts_menu
    have "map static (binding_rows (filter (\<lambda>(j, m). True) (enumerate 0 (shortcuts q))))
        = map static (binding_rows (filter (\<lambda>(j, m). True) (enumerate 0 (shortcuts p))))"
      using k by (intro label_rows [where Q = "\<lambda>_. True"]) (simp add: kin_def)
    then show ?thesis using Shortcuts_menu by (simp add: case_prod_beta')
  next
    case Frontend_menu
    then show ?thesis using k shape_rows [of "opts (fe_list q)" "opts (fe_list p)"] by (simp add: kin_def del: map_map)
  next
    case Emulator_menu
    then show ?thesis using k shape_rows [of "opts (core_list q)" "opts (core_list p)"] by (simp add: kin_def del: map_map)
  qed simp_all
  then show ?thesis by (simp add: same_rows_def)
qed

text \<open>A text that locks no further option and has a gamepad type of the table.\<close>

definition quiet :: "player \<Rightarrow> string \<Rightarrow> bool" where
  "quiet p t \<longleftrightarrow> gamepad_ok t p
    \<and> list_all (\<lambda>o'. case Config_getValue t (opt_key o') (opt_lock o') of None \<Rightarrow> False | Some (_, lock) \<Rightarrow> lock = opt_lock o')
        (opts (fe_list p) @ opts (core_list p))"

lemma quiet_options:
  assumes "map shape os = map shape ps" "list_all (\<lambda>o'. case Config_getValue t (opt_key o') (opt_lock o') of
      None \<Rightarrow> False | Some (_, lock) \<Rightarrow> lock = opt_lock o') ps"
  shows "map shape (map (read_option t) os) = map shape ps"
  using assms
proof (induction os ps rule: list_induct2')
  case (4 x xs y ys)
  have eq: "shape x = shape y" "map shape xs = map shape ys" using 4(2) by (simp_all only: list.map list.inject)
  have kl: "opt_key x = opt_key y" "opt_lock x = opt_lock y"
    using arg_cong [OF eq(1), of opt_key] arg_cong [OF eq(1), of opt_lock] by simp_all
  obtain found where "Config_getValue t (opt_key y) (opt_lock y) = Some (found, opt_lock y)"
    using 4(3) by (auto split: option.splits)
  then have "shape (read_option t x) = shape x" unfolding read_option_def kl by (simp add: kl(2) [symmetric])
  then show ?case using 4(1) [OF eq(2)] 4(3) eq(1) by simp
qed simp_all

lemma kin_read:
  assumes "kin q p" "quiet p t"
  shows "\<exists>q'. Config_readOptionsString (Some t) q = Some q' \<and> kin q' p
    \<and> system_cfg q' = system_cfg q \<and> default_cfg q' = default_cfg q \<and> user_cfg q' = user_cfg q"
proof -
  have ok: "SavedConfig.options_ok (fe_list q)" "SavedConfig.options_ok (core_list q)"
    using assms(1) by (auto simp: kin_def player_ok_def core_list_ok_def)
  obtain os cs where os: "ol_options (fe_list q) = Some os" "opts (fe_list q) = os" "length os = 8"
    and cs: "ol_options (core_list q) = Some cs" "opts (core_list q) = cs"
    using ok assms(1) by (auto simp: opts_def kin_def player_ok_def elim!: options_okE)
  have "gamepad_ok t q" using assms by (simp add: quiet_def gamepad_ok_def kin_def)
  from readOptionsString_eq [OF ok(1) os(1) _ ok(2) cs(1) this] os(3) obtain q' where
    q': "Config_readOptionsString (Some t) q = Some q'" "SavedConfig.options_ok (fe_list q')"
    "ol_options (fe_list q') = Some (map (read_option t) os)" "SavedConfig.options_ok (core_list q')"
    "ol_options (core_list q') = Some (map (read_option t) cs)" "gamepad_type q' = gamepad_read t q"
    "\<exists>l g n d c k. q' = q\<lparr>fe_list := l, globals := g, palette_updated := n, gamepad_type := d, port_device := c, core_list := k\<rparr>"
    by fastforce
  have same: "controls q' = controls q" "shortcuts q' = shortcuts q" "system_cfg q' = system_cfg q" "default_cfg q' = default_cfg q"
    "user_cfg q' = user_cfg q" "has_custom_controllers q' = has_custom_controllers q" using q'(7) by auto
  have shapes: "map shape (map (read_option t) os) = map shape (opts (fe_list p))"
    "map shape (map (read_option t) cs) = map shape (opts (core_list p))"
    using assms os(2) cs(2) by (intro quiet_options; simp add: kin_def quiet_def)+
  have pad: "has_custom_controllers q \<Longrightarrow> gamepad_type q' = 0 \<or> gamepad_type q' = 1"
    using q'(6) \<open>gamepad_ok t q\<close> assms(1)
    by (auto simp: gamepad_read_def gamepad_ok_def kin_def player_ok_def split: option.splits)
  have count: "ol_count (fe_list q') = 8" using q'(2,3) os(3) by (simp add: SavedConfig.options_ok_def)
  have "player_ok q'"
    using assms(1) q'(2,4) count pad same os cs q'(3,5)
    by (auto simp: kin_def player_ok_def core_list_ok_def opts_def list_all_iff)
  then have "kin q' p" using assms(1) q'(3,5) shapes same by (simp add: kin_def opts_def)
  then show ?thesis using q'(1) same by blast
qed

lemma binding_of_ok: "length (mp_name m) < 251 \<Longrightarrow> binding_ok (set_binding v m)"
  by (auto simp: binding_ok_def set_binding_def binding_of_def LOCAL_BUTTON_COUNT_def find_Some_iff Let_def split: option.splits)

lemma read_bindings_ok:
  assumes "list_all binding_ok ms" "f = read_control \<or> f = read_shortcut"
  shows "\<exists>ms'. those (map (f t) ms) = Some ms' \<and> list_all binding_ok ms' \<and> map label_of ms' = map label_of ms"
  using assms(1)
proof (induction ms)
  case (Cons m ms)
  obtain found b where found: "Config_getValue t (''bind '' @ mp_name m) False = Some (found, b)"
    using getValue_total [of "''bind '' @ mp_name m" t False] by auto
  have m: "binding_ok m" "length (mp_name m) < 251" using Cons.prems by (simp_all add: binding_ok_def)
  have "\<exists>m'. f t m = Some m' \<and> binding_ok m' \<and> label_of m' = label_of m"
  proof (cases found)
    case None
    then show ?thesis using found m assms(2) by (auto simp: read_control_def read_shortcut_def)
  next
    case (Some v)
    then show ?thesis using found m(2) assms(2) binding_of_ok [OF m(2)]
      by (auto simp: read_control_def read_shortcut_def set_binding_def)
  qed
  then show ?case using Cons by auto
qed simp

lemma kin_controls:
  assumes "kin q p"
  shows "\<exists>q'. Config_readControlsString (Some t) q = Some q' \<and> kin q' p
    \<and> system_cfg q' = system_cfg q \<and> default_cfg q' = default_cfg q \<and> user_cfg q' = user_cfg q"
proof -
  have ok: "list_all binding_ok (controls q)" "list_all binding_ok (shortcuts q)" using assms by (simp_all add: kin_def player_ok_def)
  obtain cs ss where "those (map (read_control t) (controls q)) = Some cs" "list_all binding_ok cs" "map label_of cs = map label_of (controls q)"
    "those (map (read_shortcut t) (shortcuts q)) = Some ss" "list_all binding_ok ss" "map label_of ss = map label_of (shortcuts q)"
    using read_bindings_ok [OF ok(1), of read_control t] read_bindings_ok [OF ok(2), of read_shortcut t] by auto
  then show ?thesis using assms
    by (intro exI [of _ "q\<lparr>controls := cs, shortcuts := ss\<rparr>"]) (simp add: Config_readControlsString_def kin_def player_ok_def)
qed

lemma kin_files:
  assumes "kin q p" "\<forall>t \<in> set_option (system_cfg q) \<union> set_option (default_cfg q) \<union> set_option (user_cfg q). quiet p t"
  shows "\<exists>q1 q2. Config_readOptions q = Some q1 \<and> Config_readControls q1 = Some q2 \<and> kin q2 p"
proof -
  have read: "\<exists>q'. Config_readOptionsString cfg q = Some q' \<and> kin q' p
      \<and> system_cfg q' = system_cfg q \<and> default_cfg q' = default_cfg q \<and> user_cfg q' = user_cfg q"
    if "kin q p" "\<forall>t \<in> set_option cfg. quiet p t" for cfg q
    using kin_read [OF that(1)] that by (cases cfg) (auto simp: Config_readOptionsString_def)
  have bind: "\<exists>q'. Config_readControlsString cfg q = Some q' \<and> kin q' p
      \<and> system_cfg q' = system_cfg q \<and> default_cfg q' = default_cfg q \<and> user_cfg q' = user_cfg q" if "kin q p" for cfg q
    using kin_controls [OF that] that by (cases cfg) (auto simp: Config_readControlsString_def)
  obtain a where a: "Config_readOptionsString (system_cfg q) q = Some a" "kin a p" "default_cfg a = default_cfg q" "user_cfg a = user_cfg q"
    using read [OF assms(1), of "system_cfg q"] assms(2) by auto
  obtain b where b: "Config_readOptionsString (default_cfg a) a = Some b" "kin b p" "default_cfg b = default_cfg q" "user_cfg b = user_cfg q"
    using read [OF a(2), of "default_cfg a"] assms(2) a(3,4) by auto
  obtain c where c: "Config_readOptionsString (user_cfg b) b = Some c" "kin c p"
    using read [OF b(2), of "user_cfg b"] assms(2) b(4) by auto
  obtain d where d: "Config_readControlsString (default_cfg c) c = Some d" "kin d p" using bind [OF c(2)] by blast
  obtain e where "Config_readControlsString (user_cfg d) d = Some e" "kin e p" using bind [OF d(2)] by blast
  then show ?thesis using a b c d by (simp add: Config_readOptions_def Config_readControls_def)
qed

text \<open>The defaults.\<close>

definition defaults_ok :: "player \<Rightarrow> bool" where
  "defaults_ok p \<longleftrightarrow> list_all (\<lambda>o'. opt_default o' < length (opt_values o')) (opts (fe_list p) @ opts (core_list p))
    \<and> list_all (\<lambda>m. - 1 \<le> mp_default m \<and> mp_default m < 16) (controls p)"

abbreviation default' :: "opt \<Rightarrow> opt" where
  "default' o' \<equiv> o'\<lparr>opt_value := opt_default o'\<rparr>"

lemma restore_fe_at:
  assumes "SavedConfig.options_ok (fe_list p)" "ol_options (fe_list p) = Some os" "length os = 8" "i < 8"
    and "opt_default (os ! i) < length (opt_values (os ! i))"
  shows "\<exists>g. restore_fe_option i p = Some (p\<lparr>globals := g, fe_list := (fe_list p)\<lparr>ol_options := Some (os[i := default' (os ! i)])\<rparr>\<rparr>)"
proof -
  let ?p = "p\<lparr>fe_list := (fe_list p)\<lparr>ol_options := Some (os[i := default' (os ! i)])\<rparr>\<rparr>"
  have "map opt_key (os[i := default' (os ! i)]) = map opt_key os"
    using assms(3,4) by (simp add: map_update list_update_same_conv)
  then have "distinct (map opt_key (os[i := default' (os ! i)]))"
    using assms(1,2) by (simp add: SavedConfig.options_ok_def)
  from syncFrontend_sets [of ?p "os[i := default' (os ! i)]" i "opt_default (os ! i)", OF _ this] assms(3,4)
  show ?thesis using assms(2-4) by (auto simp: restore_fe_option_def set_fe_value_def)
qed

lemma options_ok_defaults:
  assumes "SavedConfig.options_ok l" "ol_options l = Some os" "list_all (\<lambda>o'. opt_default o' < length (opt_values o')) os"
  shows "SavedConfig.options_ok (l\<lparr>ol_options := Some (map default' os), ol_changed := c\<rparr>)"
    "SavedConfig.options_ok (l\<lparr>ol_options := Some (map default' os)\<rparr>)"
  using assms by (auto simp: SavedConfig.options_ok_def opt_ok_def list_all_iff o_def image_image)

lemma restore_fe_all:
  assumes "player_ok p" "ol_options (fe_list p) = Some os" "list_all (\<lambda>o'. opt_default o' < length (opt_values o')) os"
  shows "\<exists>g. fold_opt restore_fe_option [0..<length os] p
    = Some (p\<lparr>globals := g, fe_list := (fe_list p)\<lparr>ol_options := Some (map default' os)\<rparr>\<rparr>)"
proof -
  have ok: "SavedConfig.options_ok (fe_list p)" "length os = 8"
    using assms(1,2) by (auto simp: player_ok_def SavedConfig.options_ok_def)
  let ?I = "\<lambda>s. SavedConfig.options_ok (fe_list s) \<and> list_all (\<lambda>o'. opt_default o' < length (opt_values o')) (opts (fe_list s))
    \<and> (\<exists>g ys. s = p\<lparr>globals := g, fe_list := (fe_list p)\<lparr>ol_options := Some ys\<rparr>\<rparr>)"
  have "\<exists>s'. fold_opt restore_fe_option [0..<length os] p = Some s'
    \<and> ol_options (fe_list s') = Some (map default' (take (length os) os) @ drop (length os) os) \<and> ?I s'"
  proof (rule fold_indices [where get = "\<lambda>s. ol_options (fe_list s)"])
    fix i s ys
    assume ys: "ol_options (fe_list s) = Some ys" "i < length ys" "length ys = length os" and s: "?I s"
    have d: "opt_default (ys ! i) < length (opt_values (ys ! i))" using s ys by (simp add: opts_def list_all_length)
    obtain g where g: "restore_fe_option i s
        = Some (s\<lparr>globals := g, fe_list := (fe_list s)\<lparr>ol_options := Some (ys[i := default' (ys ! i)])\<rparr>\<rparr>)"
      using restore_fe_at [OF conjunct1 [OF s] ys(1) _ _ d] ys ok(2) by auto
    have "SavedConfig.options_ok ((fe_list s)\<lparr>ol_options := Some (ys[i := default' (ys ! i)])\<rparr>)"
      using options_with_value(2) [OF conjunct1 [OF s] ys(1,2) d] .
    moreover have "list_all (\<lambda>o'. opt_default o' < length (opt_values o')) (ys[i := default' (ys ! i)])"
      using s ys by (auto simp: opts_def list_all_length nth_list_update)
    moreover obtain h zs where "s = p\<lparr>globals := h, fe_list := (fe_list p)\<lparr>ol_options := Some zs\<rparr>\<rparr>" using s by blast
    then have "\<exists>g zs. s\<lparr>globals := g', fe_list := (fe_list s)\<lparr>ol_options := Some xs\<rparr>\<rparr>
        = p\<lparr>globals := g, fe_list := (fe_list p)\<lparr>ol_options := Some zs\<rparr>\<rparr>" for g' xs
      by (intro exI [of _ g'] exI [of _ xs]) simp
    ultimately show "\<exists>s'. restore_fe_option i s = Some s' \<and> ol_options (fe_list s') = Some (ys[i := default' (ys ! i)]) \<and> ?I s'"
      using g by (simp add: opts_def)
  qed (use assms ok in \<open>auto simp: opts_def intro!: exI [of _ "globals p"] exI [of _ os]\<close>)
  then show ?thesis by auto
qed

text \<open>What Config_load reads depends on the card and on who the player is.\<close>

definition scaled :: "bool \<Rightarrow> opt \<Rightarrow> opt" where
  "scaled ov o' = o'\<lparr>opt_count := (if ov then 4 else 3), opt_values := (if ov then opt_values o' else take 3 (opt_values o')),
     opt_labels := (if ov then opt_labels o' else take 3 (opt_labels o'))\<rparr>"

lemma map_option_do: "map_option f (x \<bind> g) = x \<bind> (\<lambda>y. map_option f (g y))"
  by (cases x) simp_all

lemma getPath_cong:
  "device_tag p' = device_tag p \<Longrightarrow> config_dir p' = config_dir p \<Longrightarrow> game_name p' = game_name p \<Longrightarrow> Config_getPath p' = Config_getPath p"
  by (auto simp: Config_getPath_def fun_eq_iff)

lemma load_frame:
  assumes "core_tag p' = core_tag p" "config_dir p' = config_dir p" "game_name p' = game_name p"
    and "ol_options (fe_list p') = Some os" "os \<noteq> []" "ol_options (fe_list p) = Some os'" "os' \<noteq> []"
  shows "Config_load e ov fs p' = map_option (\<lambda>q. p'\<lparr>device_tag := e, fe_list := (fe_list p')\<lparr>ol_options := Some (os[0 := scaled ov (os ! 0)])\<rparr>,
    system_cfg := system_cfg q, default_cfg := default_cfg q, user_cfg := user_cfg q, cfg_loaded := cfg_loaded q\<rparr>) (Config_load e ov fs p)"
proof -
  have path: "Config_getPath (p'\<lparr>device_tag := d, fe_list := l, system_cfg := a, default_cfg := b\<rparr>) = Config_getPath (p\<lparr>device_tag := d\<rparr>)"
    "Config_getPath (p\<lparr>device_tag := d, fe_list := l, system_cfg := a, default_cfg := b\<rparr>) = Config_getPath (p\<lparr>device_tag := d\<rparr>)" for d l a b
    by (rule getPath_cong; simp add: assms)+
  show ?thesis
    unfolding Config_load_def Let_def
    by (cases e) (simp_all add: assms path map_option_do scaled_def del: c_buf_bind c_buf_Some split del: if_split cong: if_cong)
qed

lemma scaled_id: "opt_ok o' \<Longrightarrow> length (opt_values o') = (if ov then 4 else 3) \<Longrightarrow> scaled ov o' = o'"
  by (auto simp: scaled_def opt_ok_def)

text \<open>
  What Save Changes needs: the names of the files fit their buffers, the defaults are in range, and the
  files that are read after restoring lock no further option.
\<close>

definition kept_files :: "string \<Rightarrow> string \<Rightarrow> fsys \<Rightarrow> player \<Rightarrow> fsys" where
  "kept_files gpath cpath fs p = (case cfg_loaded p of
     CONFIG_GAME \<Rightarrow> unlink fs gpath | CONFIG_CONSOLE \<Rightarrow> unlink fs cpath | CONFIG_NONE \<Rightarrow> fs)"

definition texts_read :: "player \<Rightarrow> string list" where
  "texts_read q = concat (map (case_option [] (\<lambda>t. [t])) [system_cfg q, default_cfg q, user_cfg q])"

definition savable :: "surroundings \<Rightarrow> fsys \<Rightarrow> player \<Rightarrow> bool" where
  "savable sr fs p \<longleftrightarrow> ol_options (core_list p) \<noteq> None \<and> defaults_ok p
    \<and> length (opt_values (opts (fe_list p) ! 0)) = (if overscan sr then 4 else 3)
    \<and> (case (Config_getPath p True, Config_getPath p False) of
         (Some gpath, Some cpath) \<Rightarrow>
           (case Config_load (env_device sr) (overscan sr) (kept_files gpath cpath fs p) p of
              None \<Rightarrow> False
            | Some q \<Rightarrow> list_all (quiet p) (texts_read q))
       | _ \<Rightarrow> False)"

lemma savableE:
  assumes "savable sr fs p"
  obtains gpath cpath q where "Config_getPath p True = Some gpath" "Config_getPath p False = Some cpath"
    "Config_load (env_device sr) (overscan sr) (kept_files gpath cpath fs p) p = Some q"
    "\<forall>t \<in> set_option (system_cfg q) \<union> set_option (default_cfg q) \<union> set_option (user_cfg q). quiet p t"
proof -
  obtain g c q where "Config_getPath p True = Some g" "Config_getPath p False = Some c"
    "Config_load (env_device sr) (overscan sr) (kept_files g c fs p) p = Some q" "list_all (quiet p) (texts_read q)"
    using assms by (auto simp: savable_def split: option.splits)
  then show thesis
    by (intro that [of g c q]) (auto simp: texts_read_def list_all_iff split: option.splits)
qed

lemma restore_ok:
  assumes "player_ok p" "savable sr fs p"
  shows "\<exists>fs' p'. Config_restore (env_device sr) (overscan sr) fs p = Some (fs', p') \<and> player_ok p' \<and> same_rows p' p"
proof -
  obtain gpath cpath q where q: "Config_getPath p True = Some gpath" "Config_getPath p False = Some cpath"
    "Config_load (env_device sr) (overscan sr) (kept_files gpath cpath fs p) p = Some q"
    "\<forall>t \<in> set_option (system_cfg q) \<union> set_option (default_cfg q) \<union> set_option (user_cfg q). quiet p t"
    by (rule savableE [OF assms(2)])
  let ?fs = "kept_files gpath cpath fs p"
  obtain os cs where os: "ol_options (fe_list p) = Some os" "opts (fe_list p) = os" "length os = 8"
    and cs: "ol_options (core_list p) = Some cs" "opts (core_list p) = cs"
    using assms by (auto simp: player_ok_def savable_def opts_def elim!: options_okE)
  have ok: "SavedConfig.options_ok (fe_list p)" "SavedConfig.options_ok (core_list p)"
    using assms(1) cs by (auto simp: player_ok_def core_list_ok_def)
  have d: "list_all (\<lambda>o'. opt_default o' < length (opt_values o')) os" "list_all (\<lambda>o'. opt_default o' < length (opt_values o')) cs"
    "list_all (\<lambda>m. - 1 \<le> mp_default m \<and> mp_default m < 16) (controls p)"
    using assms(2) os cs by (simp_all add: savable_def defaults_ok_def)
  let ?p0 = "p\<lparr>cfg_loaded := CONFIG_NONE\<rparr>"
  have "player_ok ?p0" using assms(1) by (simp add: player_ok_def)
  from restore_fe_all [OF this _ d(1)] os(1) obtain g where
    g: "fold_opt restore_fe_option [0..<length os] ?p0 = Some (?p0\<lparr>globals := g, fe_list := (fe_list p)\<lparr>ol_options := Some (map default' os)\<rparr>\<rparr>)"
    by auto
  let ?p1 = "?p0\<lparr>globals := g, fe_list := (fe_list p)\<lparr>ol_options := Some (map default' os)\<rparr>,
    core_list := (core_list p)\<lparr>ol_options := Some (map default' cs), ol_changed := True\<rparr>\<rparr>"
  let ?p2 = "if has_custom_controllers p then ?p1\<lparr>gamepad_type := 0, port_device := 1\<rparr> else ?p1"
  let ?p3 = "?p2\<lparr>controls := map (restore_binding False) (controls p), shortcuts := map (restore_binding True) (shortcuts p)\<rparr>"
  have first: "scaled (overscan sr) (map default' os ! 0) = map default' os ! 0"
  proof (rule scaled_id)
    have "os ! 0 \<in> set os" using os(3) by (intro nth_mem) simp
    then have "opt_ok (os ! 0)" "opt_default (os ! 0) < length (opt_values (os ! 0))"
      using ok(1) os(1) d(1) by (auto simp: SavedConfig.options_ok_def list_all_iff)
    then show "opt_ok (map default' os ! 0)" using os(3) by (simp add: opt_ok_def)
    show "length (opt_values (map default' os ! 0)) = (if overscan sr then 4 else 3)"
      using assms(2) os by (simp add: savable_def)
  qed
  let ?p4 = "?p3\<lparr>device_tag := env_device sr, system_cfg := system_cfg q, default_cfg := default_cfg q, user_cfg := user_cfg q,
    cfg_loaded := cfg_loaded q\<rparr>"
  have "(map default' os)[0 := default' (os ! 0)] = map default' os" "os \<noteq> []"
    using os(3) list_update_id [of "map default' os" 0] by (auto simp: nth_map)
  then have load: "Config_load (env_device sr) (overscan sr) ?fs ?p3 = Some ?p4"
    using load_frame [of ?p3 p "map default' os" os "env_device sr" "overscan sr" ?fs] q(3) os(1,3) first by (auto simp: nth_map)
  have bindings: "list_all binding_ok (map (restore_binding False) (controls p))" "list_all binding_ok (map (restore_binding True) (shortcuts p))"
    using assms(1) d(3) by (auto simp: player_ok_def list_all_iff restore_binding_def binding_ok_def)
  have "player_ok ?p4"
    using assms(1) options_ok_defaults [OF ok(1) os(1) d(1)] options_ok_defaults [OF ok(2) cs(1) d(2)] os cs bindings
    by (auto simp: player_ok_def core_list_ok_def opts_def list_all_iff)
  then have "kin ?p4 p" using os cs by (simp add: kin_def opts_def restore_binding_def o_def)
  from kin_files [OF this] q(4) obtain q1 q2 where files: "Config_readOptions ?p4 = Some q1" "Config_readControls q1 = Some q2" "kin q2 p"
    by auto
  have path: "(case cfg_loaded p of
         CONFIG_GAME \<Rightarrow> do { path \<leftarrow> c_buf 512 (config_dir p @ ''/'' @ game_name p @ (case device_tag p of None \<Rightarrow> [] | Some t \<Rightarrow> CHR ''-'' # t) @ ''.cfg'');
           Some (unlink fs path) }
       | CONFIG_CONSOLE \<Rightarrow> do { path \<leftarrow> c_buf 512 (config_dir p @ ''/minarch'' @ (case device_tag p of None \<Rightarrow> [] | Some t \<Rightarrow> CHR ''-'' # t) @ ''.cfg'');
           Some (unlink fs path) }
       | CONFIG_NONE \<Rightarrow> Some fs) = Some ?fs"
    using q(1,2) by (auto simp: Config_getPath_def kept_files_def c_buf_def Option.bind_eq_Some_conv
        split: option.splits config_loaded.split if_splits)
  have "Config_restore (env_device sr) (overscan sr) fs p = Some (?fs, q2\<lparr>globals := (globals q2)\<lparr>dst_p := 0\<rparr>\<rparr>)"
    using path g load files os(1) cs(1) by (cases "has_custom_controllers p") (simp_all add: Config_restore_def Let_def)
  moreover have "player_ok (q2\<lparr>globals := (globals q2)\<lparr>dst_p := 0\<rparr>\<rparr>)" "same_rows (q2\<lparr>globals := (globals q2)\<lparr>dst_p := 0\<rparr>\<rparr>) p"
    using files(3) kin_rows [OF files(3)] by (simp_all add: kin_def same_rows_def)
  ultimately show ?thesis by blast
qed

lemma those_defined: "list_all (\<lambda>x. f x \<noteq> None) xs \<Longrightarrow> \<exists>ys. those (map f xs) = Some ys"
  by (induction xs) auto

lemma text_written:
  assumes "player_ok p" "ol_options (core_list p) \<noteq> None"
  shows "\<exists>t. config_text p = Some t"
proof -
  obtain os cs where os: "ol_options (fe_list p) = Some os" "ol_options (core_list p) = Some cs"
    using assms by (auto simp: player_ok_def elim!: options_okE)
  have line: "option_line o' \<noteq> None" if "o' \<in> set (os @ cs)" for o'
    using assms(1) that os by (auto simp: player_ok_def core_list_ok_def opts_def SavedConfig.options_ok_def option_line_def
        opt_ok_def list_all_iff)
  have bind: "binding_line m \<noteq> None" if "m \<in> set (controls p @ shortcuts p)" for m
    using assms(1) that binding_line_label [of m] by (auto simp: player_ok_def list_all_iff)
  obtain a b c d where "those (map option_line os) = Some a" "those (map option_line cs) = Some b"
    "those (map binding_line (controls p)) = Some c" "those (map binding_line (shortcuts p)) = Some d"
    using those_defined [of option_line os] those_defined [of option_line cs] those_defined [of binding_line "controls p"]
      those_defined [of binding_line "shortcuts p"] line bind by (auto simp: list_all_iff)
  then show ?thesis using os by (simp add: config_text_def)
qed

lemma write_ok:
  assumes "player_ok p" "savable sr fs p"
  shows "\<exists>fs' p'. Config_write override fs p = Some (fs', p') \<and> player_ok p' \<and> same_rows p' p"
proof -
  obtain gpath cpath where paths: "Config_getPath p True = Some gpath" "Config_getPath p False = Some cpath"
    by (rule savableE [OF assms(2)])
  have rows: "player_ok (p\<lparr>cfg_loaded := c\<rparr>)" "same_rows (p\<lparr>cfg_loaded := c\<rparr>) p" for c
  proof -
    have "rows_of (p\<lparr>cfg_loaded := c\<rparr>) m = rows_of p m" for m by (cases m) (simp_all add: gamepad_row_def)
    then show "same_rows (p\<lparr>cfg_loaded := c\<rparr>) p" by (simp add: same_rows_def)
  qed (use assms(1) in \<open>simp add: player_ok_def\<close>)
  obtain t where "config_text p = Some t" using text_written [OF assms(1)] assms(2) by (auto simp: savable_def)
  then show ?thesis using paths rows by (auto simp: Config_write_def Let_def)
qed

section \<open>Open menus show the settings\<close>

definition cheats_ok :: "cheats \<Rightarrow> bool" where
  "cheats_ok t \<longleftrightarrow> ct_count t \<le> length (ct_item t) \<and> list_all (\<lambda>c. ch_desc c \<noteq> None) (take (ct_count t) (ct_item t))"

definition same_in :: "menus \<Rightarrow> menus \<Rightarrow> bool" where
  "same_in s t \<longleftrightarrow> (\<forall>m. map static (rows_in s m) = map static (rows_in t m))"

text \<open>What a change of a row must do to the whole state.\<close>

definition row_changed :: "menu \<Rightarrow> nat \<Rightarrow> int \<Rightarrow> menus \<Rightarrow> menus \<Rightarrow> bool" where
  "row_changed m i x s s' \<longleftrightarrow> player_ok (s_player s') \<and> cheats_ok (s_cheats s') \<and> same_in s' s
    \<and> rows_in s' m = (rows_in s m)[i := (rows_in s m ! i)\<lparr>mi_value := x\<rparr>] \<and> s_items s' = s_items s \<and> s_stack s' = s_stack s"

lemma rows_in_settings: "settings_menu m \<Longrightarrow> menu_rows p t m = rows_of p m"
  by (auto simp: menu_rows_def)

lemma same_menu_rows: "same_rows p q \<Longrightarrow> map static (menu_rows p t m) = map static (menu_rows q t m)"
  by (cases m) (simp_all add: menu_rows_def same_rows_def del: rows_of.simps)

lemma player_row_changed:
  assumes "changes m i x (s_player s) p'" "settings_menu m" "cheats_ok (s_cheats s)"
  shows "row_changed m i x s (s\<lparr>s_player := p'\<rparr>)"
  using assms same_menu_rows [of p' "s_player s" "s_cheats s"]
  by (simp add: row_changed_def changes_def same_in_def rows_in_settings [OF assms(2)] del: rows_of.simps)

lemma cheat_row_changed:
  assumes "player_ok (s_player s)" "cheats_ok (s_cheats s)" "i < length (rows_in s Cheats_menu)" "x = 0 \<or> x = 1"
  shows "\<exists>s'. change_row sr Cheats_menu i ((rows_in s Cheats_menu ! i)\<lparr>mi_value := x\<rparr>) s = Some s'
    \<and> row_changed Cheats_menu i x s s'"
proof -
  let ?t = "s_cheats s"
  let ?c = "(ct_item ?t ! i)\<lparr>ch_enabled := (x \<noteq> 0)\<rparr>"
  let ?u = "?t\<lparr>ct_item := (ct_item ?t)[i := ?c]\<rparr>"
  have i: "i < ct_count ?t" "i < length (ct_item ?t)" using assms(2,3) by (auto simp: cheats_ok_def menu_rows_def)
  have row: "cheat_row ?c = (cheat_row (ct_item ?t ! i))\<lparr>mi_value := x\<rparr>" using assms(4) by (auto simp: cheat_row_def)
  have rows: "menu_rows p ?u Cheats_menu
      = (menu_rows p ?t Cheats_menu)[i := (menu_rows p ?t Cheats_menu ! i)\<lparr>mi_value := x\<rparr>]" for p
    using i row by (simp add: menu_rows_def take_update_swap map_update)
  have "cheats_ok ?u" using assms(2) i by (auto simp: cheats_ok_def take_update_swap list_all_length nth_list_update)
  moreover have "map static (menu_rows p ?u m) = map static (menu_rows p ?t m)" for p m
  proof (cases "m = Cheats_menu")
    case True
    have "i < length (menu_rows p ?t Cheats_menu)" using i by (simp add: menu_rows_def)
    then show ?thesis unfolding True rows by (intro static_update) simp_all
  qed (cases m; simp add: menu_rows_def)
  ultimately have "row_changed Cheats_menu i x s (s\<lparr>s_fs := fs, s_cheats := ?u, s_calls := calls\<rparr>)" for fs calls
    using assms(1) rows by (simp add: row_changed_def same_in_def)
  then show ?thesis using i by (auto simp: change_row_def LodorCheats_onChange_def Let_def)
qed

lemma change_row_ok:
  assumes "player_ok (s_player s)" "cheats_ok (s_cheats s)" "settings_menu m \<or> m = Cheats_menu" "i < length (rows_in s m)"
    and "mi_values (rows_in s m ! i) \<noteq> Button_labels \<Longrightarrow> v < length (texts (mi_values (rows_in s m ! i)))"
    and "mi_values (rows_in s m ! i) = Button_labels \<Longrightarrow> v = 0"
  shows "\<exists>s'. change_row sr m i ((rows_in s m ! i)\<lparr>mi_value := int v\<rparr>) s = Some s' \<and> row_changed m i (int v) s s'"
proof (cases "m = Cheats_menu")
  case True
  have i: "i < length (rows_in s Cheats_menu)" using assms(4) True by simp
  then have "mi_values (rows_in s m ! i) = Labels onoff_labels" using True by (simp add: menu_rows_def cheat_row_def)
  then have "v < 2" using assms(5) by (simp add: onoff_labels_def)
  then show ?thesis using cheat_row_changed [OF assms(1,2) i, of "int v" sr] True by (auto simp: less_2_cases_iff)
next
  case False
  then have m: "settings_menu m" using assms(3) by simp
  note rows = rows_in_settings [OF m]
  from change_ok [OF assms(1) m, of i v] assms(4-6) obtain p' where
    "on_change m ((rows_of (s_player s) m ! i)\<lparr>mi_value := int v\<rparr>) (s_player s) = Some p'" "changes m i (int v) (s_player s) p'"
    unfolding rows by blast
  then show ?thesis using player_row_changed [OF _ m assms(2)] False unfolding change_row_def rows by auto
qed

definition window_ok :: "nat \<Rightarrow> nat \<Rightarrow> view \<Rightarrow> bool" where
  "window_ok r n v \<longleftrightarrow> 0 < n \<and> v_start v \<le> v_selected v \<and> v_selected v < v_end v \<and> v_end v \<le> n
     \<and> v_end v = v_start v + min n r"

definition view_ok :: "surroundings \<Rightarrow> menus \<Rightarrow> view \<Rightarrow> bool" where
  "view_ok sr s v \<longleftrightarrow> s_items s (v_menu v) = Some (rows_in s (v_menu v))
     \<and> window_ok (screen_rows sr) (row_count (rows_in s (v_menu v))) v
     \<and> (v_mode v = Awaiting \<longrightarrow> v_menu v \<in> {Controls_menu, Shortcuts_menu}
          \<and> mi_values (rows_in s (v_menu v) ! v_selected v) = Button_labels)"

definition items_ok :: "menus \<Rightarrow> bool" where
  "items_ok s \<longleftrightarrow> (\<forall>m items. s_items s m = Some items \<longrightarrow> map static items = map static (rows_in s m))"

text \<open>The menus that are opened have a row.\<close>

definition openable :: "player \<Rightarrow> bool" where
  "openable p \<longleftrightarrow> (\<forall>m \<in> {Frontend_menu, Controls_menu, Shortcuts_menu}. 0 < row_count (rows_of p m))"

definition stack_ok :: "view list \<Rightarrow> bool" where
  "stack_ok vs \<longleftrightarrow> vs = [] \<or> (\<exists>r. v_menu r = Options_menu \<and> (vs = [r] \<or> (\<exists>v. v_menu v \<noteq> Options_menu \<and> vs = [v, r])))"

definition menus_ok :: "surroundings \<Rightarrow> menus \<Rightarrow> bool" where
  "menus_ok sr s \<longleftrightarrow> 0 < screen_rows sr \<and> player_ok (s_player s) \<and> cheats_ok (s_cheats s) \<and> openable (s_player s) \<and> items_ok s
     \<and> stack_ok (s_stack s) \<and> (\<forall>v \<in> set (s_stack s). view_ok sr s v)"

subsection \<open>The window\<close>

lemma window_fresh: "0 < r \<Longrightarrow> 0 < row_count items \<Longrightarrow> screen_rows sr = r \<Longrightarrow> window_ok r (row_count items) (fresh_view sr m items)"
  by (simp add: window_ok_def fresh_view_def)

lemma window_up: "0 < r \<Longrightarrow> window_ok r n v \<Longrightarrow> window_ok r n (row_up r n v)"
  by (auto simp: window_ok_def row_up_def Let_def)

lemma window_down: "0 < r \<Longrightarrow> window_ok r n v \<Longrightarrow> window_ok r n (row_down r n v)"
  by (auto simp: window_ok_def row_down_def Let_def)

lemma moved_menu [simp]:
  "v_menu (row_up r n v) = v_menu v" "v_menu (row_down r n v) = v_menu v" "v_menu (end_turn pad v) = v_menu v"
  "v_mode (row_up r n v) = v_mode v" "v_mode (row_down r n v) = v_mode v" "v_mode (end_turn pad v) = v_mode v"
  "window_ok r n (end_turn pad v) = window_ok r n v" "v_selected (end_turn pad v) = v_selected v"
  by (simp_all add: row_up_def row_down_def end_turn_def window_ok_def Let_def)

lemma row_count_length: "row_count items \<le> length items"
  by (simp add: row_count_def length_takeWhile_le)

lemma row_count_static: "map static xs = map static ys \<Longrightarrow> row_count xs = row_count ys"
proof -
  have "row_count zs = length (takeWhile (\<lambda>item. mi_name item \<noteq> None) (map static zs))" for zs
    by (simp add: row_count_def takeWhile_map o_def)
  then show "map static xs = map static ys \<Longrightarrow> row_count xs = row_count ys" by metis
qed

lemma same_rows_count: "same_in s t \<Longrightarrow> row_count (rows_in s m) = row_count (rows_in t m)"
  by (rule row_count_static) (simp add: same_in_def)

lemma openable_same: "same_in s t \<Longrightarrow> openable (s_player t) \<Longrightarrow> openable (s_player s)"
  using same_rows_count [of s t Frontend_menu] same_rows_count [of s t Controls_menu] same_rows_count [of s t Shortcuts_menu]
  by (simp add: openable_def rows_in_settings del: rows_of.simps)

lemma view_selects: "view_ok sr s v \<Longrightarrow> v_selected v < length (rows_in s (v_menu v))"
  using row_count_length [of "rows_in s (v_menu v)"] by (simp add: view_ok_def window_ok_def)

subsection \<open>Turns\<close>

lemma static_values: "map static xs = map static ys \<Longrightarrow> map2 (\<lambda>item row. item\<lparr>mi_value := mi_value row\<rparr>) xs ys = ys"
proof (induction xs ys rule: list_induct2')
  case (4 x xs y ys)
  then have "x\<lparr>mi_value := mi_value y\<rparr> = y" by (cases x; cases y) simp
  then show ?case using 4 by simp
qed simp_all

lemma options_now:
  assumes "distinct (map opt_key (opts l))" "map static items = map static (map option_row (unlocked (opts l)))"
  shows "map (option_now l) items = map option_row (unlocked (opts l))"
proof (rule nth_equalityI)
  show len: "length (map (option_now l) items) = length (map option_row (unlocked (opts l)))"
    using arg_cong [OF assms(2), of length] by simp
  fix i assume "i < length (map (option_now l) items)"
  then have i: "i < length items" "i < length (unlocked (opts l))" using len by simp_all
  have st: "static (items ! i) = static (option_row (unlocked (opts l) ! i))"
    using arg_cong [OF assms(2), of "\<lambda>xs. xs ! i"] i by simp
  have key: "mi_key (items ! i) = opt_key (unlocked (opts l) ! i)"
    using arg_cong [OF st, of mi_key] by (simp add: option_row_def)
  have "unlocked (opts l) ! i \<in> set (opts l)" using nth_mem [OF i(2)] by simp
  then obtain j where j: "j < length (opts l)" "opts l ! j = unlocked (opts l) ! i" by (metis in_set_conv_nth)
  have "find (\<lambda>o'. opt_key o' = opt_key (opts l ! j)) (opts l) = Some (opts l ! j)"
    using assms(1) j(1) by (auto simp: find_Some_iff distinct_conv_nth intro!: exI [of _ j])
  then have "option_now l (items ! i) = (items ! i)\<lparr>mi_value := int (opt_value (unlocked (opts l) ! i))\<rparr>"
    by (simp add: option_now_def key j(2))
  also have "\<dots> = option_row (unlocked (opts l) ! i)"
    using arg_cong [OF st, of "mi_value_update (\<lambda>_. int (opt_value (unlocked (opts l) ! i)))"] by (simp add: option_row_def)
  finally show "map (option_now l) items ! i = map option_row (unlocked (opts l)) ! i" using i by simp
qed

lemma open_rows_ok:
  assumes "items_ok s" "player_ok (s_player s)"
  shows "open_rows s m = rows_in s m"
proof (cases "s_items s m")
  case (Some items)
  then have st: "map static items = map static (rows_in s m)" using assms(1) by (simp add: items_ok_def)
  have keys: "distinct (map opt_key (opts (fe_list (s_player s))))" "distinct (map opt_key (opts (core_list (s_player s))))"
    using assms(2) by (auto simp: player_ok_def core_list_ok_def SavedConfig.options_ok_def opts_def split: option.splits)
  show ?thesis
  proof (cases m)
    case Frontend_menu
    then show ?thesis using options_now [OF keys(1), of items] st Some by (simp add: open_rows_def menu_rows_def)
  next
    case Emulator_menu
    then show ?thesis using options_now [OF keys(2), of items] st Some by (simp add: open_rows_def menu_rows_def)
  qed (use static_values [OF st] Some in \<open>simp_all add: open_rows_def del: rows_of.simps\<close>)
qed (simp add: open_rows_def)

lemma stack_okE:
  assumes "stack_ok (v # vs)"
  obtains "v_menu v = Options_menu" "vs = []" | r where "v_menu v \<noteq> Options_menu" "vs = [r]" "v_menu r = Options_menu"
  using assms by (auto simp: stack_ok_def)

lemma stack_ok_same: "stack_ok (v # vs) \<Longrightarrow> v_menu w = v_menu v \<Longrightarrow> stack_ok (w # vs)"
  by (elim stack_okE) (auto simp: stack_ok_def)

lemma stack_ok_pop: "stack_ok (v # vs) \<Longrightarrow> stack_ok vs"
  by (elim stack_okE) (auto simp: stack_ok_def)

lemma view_ok_cong: "s_items s = s_items t \<Longrightarrow> s_player s = s_player t \<Longrightarrow> s_cheats s = s_cheats t \<Longrightarrow> view_ok sr s v = view_ok sr t v"
  by (simp add: view_ok_def)

text \<open>The top view moves.\<close>

lemma menus_ok_top:
  assumes "menus_ok sr s" "s_stack s = v # vs" "view_ok sr s w" "v_menu w = v_menu v"
  shows "menus_ok sr (s\<lparr>s_stack := w # vs\<rparr>)"
  using assms stack_ok_same [of v vs w] by (auto simp: menus_ok_def items_ok_def view_ok_def)

lemma menus_ok_pop: "menus_ok sr s \<Longrightarrow> s_stack s = v # vs \<Longrightarrow> menus_ok sr (s\<lparr>s_stack := vs\<rparr>)"
  using stack_ok_pop [of v vs] by (auto simp: menus_ok_def items_ok_def view_ok_def)

lemma view_ok_end: "view_ok sr s v \<Longrightarrow> view_ok sr s (end_turn pad v)"
  by (simp add: view_ok_def)

lemma end_top_ok: "menus_ok sr s \<Longrightarrow> menus_ok sr (end_top pad s)"
proof (cases "s_stack s")
  case (Cons v vs)
  assume ok: "menus_ok sr s"
  then have "view_ok sr s (end_turn pad v)" using Cons by (intro view_ok_end) (simp add: menus_ok_def)
  from menus_ok_top [OF ok Cons this] show ?thesis by (simp add: end_top_def Cons)
qed (simp add: end_top_def)

text \<open>A row of the top menu and its setting change together.\<close>

lemma menus_ok_change:
  assumes "menus_ok sr s" "s_stack s = v # vs" "i < length (rows_in s (v_menu v))" "v_menu v \<noteq> Options_menu"
    and "row_changed (v_menu v) i x s s'"
    and "window_ok (screen_rows sr) (row_count (rows_in s' (v_menu v))) w" "v_menu w = v_menu v" "v_mode w = Browsing"
  shows "menus_ok sr (put_item (v_menu v) (rows_in s (v_menu v)) i
      ((rows_in s (v_menu v) ! i)\<lparr>mi_value := x\<rparr>) (s'\<lparr>s_stack := w # vs\<rparr>))"
proof -
  let ?m = "v_menu v"
  let ?items = "(s_items s)(?m := Some ((rows_in s ?m)[i := (rows_in s ?m ! i)\<lparr>mi_value := x\<rparr>]))"
  have s': "player_ok (s_player s')" "cheats_ok (s_cheats s')" "same_in s' s" "s_items s' = s_items s"
    "rows_in s' ?m = (rows_in s ?m)[i := (rows_in s ?m ! i)\<lparr>mi_value := x\<rparr>]"
    using assms(5) by (simp_all add: row_changed_def)
  have "openable (s_player s')" using assms(1) openable_same [OF s'(3)] by (simp add: menus_ok_def)
  moreover have "map static is' = map static (rows_in s' m)" if "?items m = Some is'" for m is'
    using that assms(1) s'(3,5) by (auto simp: menus_ok_def items_ok_def same_in_def split: if_splits)
  moreover have "stack_ok (w # vs)" using assms(1,2,7) stack_ok_same [of v vs w] by (simp add: menus_ok_def)
  moreover have "view_ok sr (s'\<lparr>s_stack := w # vs, s_items := ?items\<rparr>) w"
    using assms(6-8) s'(5) by (simp add: view_ok_def)
  moreover have "view_ok sr (s'\<lparr>s_stack := w # vs, s_items := ?items\<rparr>) r" if "r \<in> set vs" for r
  proof -
    have r: "view_ok sr s r" "v_menu r = Options_menu"
      using assms(1,2,4) that by (auto simp: menus_ok_def elim!: stack_okE)
    have "list_all (\<lambda>item. mi_value item = 0) (rows_in t Options_menu)" for t by (simp add: menu_rows_def plain_row_def)
    then have "map static (rows_in t Options_menu) = rows_in t Options_menu" for t
      by (intro map_idI) (auto simp: list_all_iff)
    then have "rows_in s' Options_menu = rows_in s Options_menu" using s'(3) unfolding same_in_def by metis
    then show ?thesis using assms(4) r by (simp add: view_ok_def)
  qed
  ultimately show ?thesis using assms(1) s'(1,2,4) by (simp add: menus_ok_def put_item_def items_ok_def)
qed

lemma give_value_ok:
  assumes "menus_ok sr s" "s_stack s = v # vs" "settings_menu (v_menu v) \<or> v_menu v = Cheats_menu" "v_mode v = Browsing"
    and "mi_values (rows_in s (v_menu v) ! v_selected v) \<noteq> Button_labels
      \<Longrightarrow> x < length (texts (mi_values (rows_in s (v_menu v) ! v_selected v)))"
    and "mi_values (rows_in s (v_menu v) ! v_selected v) = Button_labels \<Longrightarrow> x = 0"
  shows "\<exists>s'. give_value sr (v_menu v) (rows_in s (v_menu v)) (v_selected v) (int x) s = Some s'
    \<and> menus_ok sr s' \<and> s_stack s' = v # vs \<and> same_in s' s"
proof -
  have v: "view_ok sr s v" using assms(1,2) by (simp add: menus_ok_def)
  have i: "v_selected v < length (rows_in s (v_menu v))" using view_selects [OF v] .
  have "player_ok (s_player s)" "cheats_ok (s_cheats s)" using assms(1) by (simp_all add: menus_ok_def)
  from change_row_ok [OF this assms(3) i assms(5,6), of sr] obtain t where
    t: "change_row sr (v_menu v) (v_selected v) ((rows_in s (v_menu v) ! v_selected v)\<lparr>mi_value := int x\<rparr>) s = Some t"
    "row_changed (v_menu v) (v_selected v) (int x) s t" by blast
  have same: "same_in t s" "s_stack t = v # vs" using t(2) assms(2) by (simp_all add: row_changed_def)
  have "window_ok (screen_rows sr) (row_count (rows_in t (v_menu v))) v"
    using v by (simp add: view_ok_def same_rows_count [OF same(1)])
  from menus_ok_change [OF assms(1,2) i _ t(2) this refl assms(4)] assms(3)
  have "menus_ok sr (put_item (v_menu v) (rows_in s (v_menu v)) (v_selected v)
      ((rows_in s (v_menu v) ! v_selected v)\<lparr>mi_value := int x\<rparr>) (t\<lparr>s_stack := v # vs\<rparr>))"
    by auto
  moreover have "t\<lparr>s_stack := v # vs\<rparr> = t" using same(2) by simp
  ultimately show ?thesis using t(1) i same by (simp add: give_value_def put_item_def Let_def same_in_def)
qed

lemma value_left_range: "item_ok item \<Longrightarrow> mi_values item \<noteq> No_labels
    \<Longrightarrow> \<exists>x. value_left item = int x \<and> x < length (texts (mi_values item))"
  by (cases "texts (mi_values item)") (auto simp: item_ok_def value_left_def intro!: exI [of _ "nat (value_left item)"])

lemma value_right_range: "item_ok item \<Longrightarrow> mi_values item \<noteq> No_labels
    \<Longrightarrow> \<exists>x. value_right item = Some (int x) \<and> x < length (texts (mi_values item))"
proof -
  assume "item_ok item" "mi_values item \<noteq> No_labels"
  then have range: "0 \<le> mi_value item" "nat (mi_value item) < length (texts (mi_values item))" by (simp_all add: item_ok_def)
  show ?thesis
  proof (cases "mi_value item + 1 < int (length (texts (mi_values item)))")
    case True
    then show ?thesis using range by (intro exI [of _ "nat (mi_value item + 1)"]) (simp add: value_right_def Let_def)
  next
    case False
    then show ?thesis using range by (intro exI [of _ 0]) (auto simp: value_right_def Let_def)
  qed
qed

lemma labelled_menu:
  "i < length (menu_rows p t m) \<Longrightarrow> mi_values (menu_rows p t m ! i) \<noteq> No_labels \<Longrightarrow> settings_menu m \<or> m = Cheats_menu"
  by (cases m) (auto simp: menu_rows_def plain_row_def nth_Cons' split: if_splits)

lemma menu_rows_ok: "player_ok p \<Longrightarrow> item \<in> set (menu_rows p t m) \<Longrightarrow> item_ok item"
  using rows_ok [of p item m]
  by (cases m) (auto simp: menu_rows_def plain_row_def cheat_row_def onoff_labels_def item_ok_def simp del: rows_of.simps
      split: if_splits)

lemma browse_ok:
  assumes "menus_ok sr s" "s_stack s = v # vs" "v_mode v = Browsing"
  shows "\<exists>w s'. browse sr pad (rows_in s (v_menu v)) v s = Some (w, s') \<and> v_menu w = v_menu v \<and> v_mode w = Browsing
    \<and> menus_ok sr (s'\<lparr>s_stack := w # vs\<rparr>)"
proof -
  let ?rows = "rows_in s (v_menu v)"
  have v: "view_ok sr s v" and r: "0 < screen_rows sr" using assms(1,2) by (simp_all add: menus_ok_def)
  have i: "v_selected v < length ?rows" using view_selects [OF v] .
  have window: "window_ok (screen_rows sr) (row_count ?rows) v" using v by (simp add: view_ok_def)
  have moved: "menus_ok sr (s\<lparr>s_stack := w # vs\<rparr>)"
    if "window_ok (screen_rows sr) (row_count ?rows) w" "v_menu w = v_menu v" "v_mode w = v_mode v" for w
    using menus_ok_top [OF assms(1,2), of w] that v assms(3) by (simp add: view_ok_def)
  have given: "\<exists>s'. give_value sr (v_menu v) ?rows (v_selected v) (int x) s = Some s' \<and> menus_ok sr (s'\<lparr>s_stack := v # vs\<rparr>)"
    if "x < length (texts (mi_values (?rows ! v_selected v)))" "mi_values (?rows ! v_selected v) \<noteq> No_labels"
      "mi_values (?rows ! v_selected v) \<noteq> Button_labels" for x
  proof -
    note x = that
    obtain s' where s': "give_value sr (v_menu v) ?rows (v_selected v) (int x) s = Some s'" "menus_ok sr s'"
      "s_stack s' = v # vs"
      using give_value_ok [OF assms(1,2) labelled_menu [OF i x(2)] assms(3), of x] x by blast
    then have "s'\<lparr>s_stack := v # vs\<rparr> = s'" by simp
    then show ?thesis using s' by metis
  qed
  let ?item = "?rows ! v_selected v"
  have "player_ok (s_player s)" using assms(1) by (simp add: menus_ok_def)
  then have item: "item_ok ?item" using nth_mem [OF i] by (rule menu_rows_ok)
  consider "PAD_justRepeated (btn 0) pad" | "\<not> PAD_justRepeated (btn 0) pad" "PAD_justRepeated (btn 1) pad"
    | "\<not> PAD_justRepeated (btn 0) pad" "\<not> PAD_justRepeated (btn 1) pad" "mi_values ?item = No_labels \<or> mi_values ?item = Button_labels"
    | "\<not> PAD_justRepeated (btn 0) pad" "\<not> PAD_justRepeated (btn 1) pad" "mi_values ?item \<noteq> No_labels" "mi_values ?item \<noteq> Button_labels"
    by blast
  then show ?thesis
  proof cases
    case 1
    then show ?thesis using moved [OF window_up [OF r window]] window assms(3)
      by (simp add: browse_def Let_def window_ok_def)
  next
    case 2
    then show ?thesis using moved [OF window_down [OF r window]] assms(3) by (simp add: browse_def Let_def)
  next
    case 3
    then show ?thesis using moved [OF window] i assms(3) by (auto simp: browse_def Let_def)
  next
    case 4
    obtain x y where x: "value_left ?item = int x" "x < length (texts (mi_values ?item))"
      and y: "value_right ?item = Some (int y)" "y < length (texts (mi_values ?item))"
      using value_left_range [OF item] value_right_range [OF item] 4 by blast
    consider "PAD_justRepeated (btn 2) pad" | "\<not> PAD_justRepeated (btn 2) pad" "PAD_justRepeated (btn 3) pad"
      | "\<not> PAD_justRepeated (btn 2) pad" "\<not> PAD_justRepeated (btn 3) pad" by blast
    then show ?thesis
    proof cases
      case 1
      then show ?thesis using given [OF x(2) 4(3,4)] 4 x(1) i assms(3) by (auto simp: browse_def Let_def)
    next
      case 2
      then show ?thesis using given [OF y(2) 4(3,4)] 4 y(1) i assms(3) by (auto simp: browse_def Let_def)
    next
      case 3
      then show ?thesis using moved [OF window] 4 i assms(3) by (auto simp: browse_def Let_def)
    qed
  qed
qed

lemma menus_okD:
  assumes "menus_ok sr s" "s_stack s = v # vs"
  shows "view_ok sr s v" "0 < screen_rows sr" "player_ok (s_player s)" "openable (s_player s)" "items_ok s" "stack_ok (v # vs)"
    "s_items s (v_menu v) = Some (rows_in s (v_menu v))" "cheats_ok (s_cheats s)"
  using assms by (auto simp: menus_ok_def view_ok_def)

lemma change_row_stack:
  "change_row sr m i item (s\<lparr>s_stack := st\<rparr>) = map_option (\<lambda>s'. s'\<lparr>s_stack := st\<rparr>) (change_row sr m i item s)"
  by (cases "on_change m item (s_player s)") (auto simp: change_row_def split: prod.split)

lemma give_value_stack:
  "give_value sr m items i x (s\<lparr>s_stack := st\<rparr>) = map_option (\<lambda>s'. s'\<lparr>s_stack := st\<rparr>) (give_value sr m items i x s)"
  by (cases "change_row sr m i ((items ! i)\<lparr>mi_value := x\<rparr>) s")
    (simp_all add: give_value_def put_item_def Let_def change_row_stack)

lemma end_top_stack: "end_top pad (s\<lparr>s_stack := v # vs\<rparr>) = s\<lparr>s_stack := end_turn pad v # vs\<rparr>"
  by (simp add: end_top_def)

lemma mode_ok: "view_ok sr s v \<Longrightarrow> r \<noteq> Awaiting \<Longrightarrow> view_ok sr s (v\<lparr>v_mode := r\<rparr>)"
  by (simp add: view_ok_def window_ok_def)

lemma cheat_rows_count: "cheats_ok t \<Longrightarrow> row_count (menu_rows p t Cheats_menu) = ct_count t"
proof -
  assume t: "cheats_ok t"
  have "\<forall>item \<in> set (menu_rows p t Cheats_menu). mi_name item \<noteq> None"
    using t by (auto simp: menu_rows_def cheat_row_def cheats_ok_def list_all_iff)
  then have "row_count (menu_rows p t Cheats_menu) = length (menu_rows p t Cheats_menu)"
    unfolding row_count_def using takeWhile_eq_all_conv [of "\<lambda>item. mi_name item \<noteq> None"] by metis
  then show ?thesis using t by (simp add: menu_rows_def cheats_ok_def)
qed

lemma open_ok:
  assumes "menus_ok sr s" "s_stack s = [v]" "v_menu v = Options_menu" "m \<noteq> Options_menu"
  shows "\<exists>s'. open_menu sr m s = Some s' \<and> menus_ok sr s'"
proof -
  let ?rows = "rows_in s m"
  let ?s = "s\<lparr>s_items := (s_items s)(m := Some ?rows)\<rparr>"
  note ok = menus_okD [OF assms(1,2)]
  have items: "open_rows s m = ?rows" using open_rows_ok [OF ok(5,3)] .
  have "items_ok ?s" using ok(5) by (auto simp: items_ok_def)
  moreover have v: "view_ok sr ?s v" using ok(1) by (simp add: view_ok_def)
  ultimately have s: "menus_ok sr ?s" using assms(1,2) by (simp add: menus_ok_def)
  consider "m = Cheats_menu" "ct_count (s_cheats s) = 0"
    | "\<not> (m = Cheats_menu \<and> ct_count (s_cheats s) = 0)" "m = Emulator_menu \<and> row_count ?rows = 0"
    | "\<not> (m = Cheats_menu \<and> ct_count (s_cheats s) = 0)" "\<not> (m = Emulator_menu \<and> row_count ?rows = 0)" by metis
  then show ?thesis
  proof cases
    case 1
    then show ?thesis using assms(1) by (simp add: open_menu_def Let_def)
  next
    case 2
    have "menus_ok sr (?s\<lparr>s_stack := [v\<lparr>v_mode := Message NOP\<rparr>]\<rparr>)"
      using menus_ok_top [OF s, of v "[]" "v\<lparr>v_mode := Message NOP\<rparr>"] mode_ok [OF v] assms(2) by simp
    moreover have "open_menu sr m s = Some (?s\<lparr>s_stack := [v\<lparr>v_mode := Message NOP\<rparr>]\<rparr>)"
      unfolding open_menu_def Let_def items if_not_P [OF 2(1)] if_P [OF 2(2)] using assms(2) by simp
    ultimately show ?thesis by blast
  next
    case 3
    have "0 < row_count ?rows"
    proof (cases "m = Save_menu \<or> m = Cheats_menu")
      case True
      then show ?thesis using 3(1) cheat_rows_count [OF ok(8), of "s_player s"]
        by (auto simp: row_count_def plain_row_def menu_rows_def)
    next
      case no: False
      then show ?thesis using 3(2) ok(4) assms(4) by (cases m) (auto simp: openable_def menu_rows_def)
    qed
    from window_fresh [OF ok(2) this refl, of m] have "view_ok sr ?s (fresh_view sr m ?rows)"
      by (simp add: view_ok_def fresh_view_def)
    then have "menus_ok sr (?s\<lparr>s_stack := [fresh_view sr m ?rows, v]\<rparr>)"
      using s v assms(2-4) by (auto simp: menus_ok_def stack_ok_def items_ok_def fresh_view_def view_ok_def)
    moreover have "open_menu sr m s = Some (?s\<lparr>s_stack := [fresh_view sr m ?rows, v]\<rparr>)"
      unfolding open_menu_def Let_def items if_not_P [OF 3(1)] if_not_P [OF 3(2)] using assms(2) by simp
    ultimately show ?thesis by blast
  qed
qed

text \<open>A row of Save Changes is confirmed: the rows of every menu stay what they are, but for their values.\<close>

lemma save_row_ok:
  assumes "menus_ok sr s" "s_stack s = v # vs" "savable sr (s_fs s) (s_player s)" "v_menu v = Save_menu"
  shows "\<exists>s'. OptionSaveChanges_onConfirm sr i s = Some s' \<and> menus_ok sr (s'\<lparr>s_stack := v\<lparr>v_mode := Message EXIT\<rparr> # vs\<rparr>)"
proof -
  note ok = menus_okD [OF assms(1,2)]
  obtain fs' p' where p': "(if i = 0 then Config_write False (s_fs s) (s_player s)
       else if i = 1 then Config_write True (s_fs s) (s_player s)
       else Config_restore (env_device sr) (overscan sr) (s_fs s) (s_player s)) = Some (fs', p')"
    "player_ok p'" "same_rows p' (s_player s)"
    using write_ok [OF ok(3) assms(3), of False] write_ok [OF ok(3) assms(3), of True] restore_ok [OF ok(3) assms(3)]
    by (cases "i = 0"; cases "i = 1") auto
  let ?s = "s\<lparr>s_player := p', s_fs := fs'\<rparr>"
  have same: "same_in ?s s" using same_menu_rows [OF p'(3)] by (simp add: same_in_def)
  have plain: "rows_in ?s m = rows_in s m" if "m \<in> {Options_menu, Save_menu}" for m using that by (auto simp: menu_rows_def)
  obtain r where r: "vs = [r]" "v_menu r = Options_menu" using ok(6) assms(4) by (auto elim!: stack_okE)
  have "items_ok ?s" using ok(5) same by (simp add: items_ok_def same_in_def)
  moreover have "view_ok sr ?s r" "view_ok sr ?s (v\<lparr>v_mode := Message EXIT\<rparr>)"
    using assms(1,2,4) r plain mode_ok [OF ok(1), of "Message EXIT"] by (auto simp: menus_ok_def view_ok_def)
  moreover have "stack_ok (v\<lparr>v_mode := Message EXIT\<rparr> # vs)" using ok(6) by (rule stack_ok_same) simp
  ultimately have "menus_ok sr (?s\<lparr>s_stack := v\<lparr>v_mode := Message EXIT\<rparr> # vs\<rparr>)"
    using ok(2,4,8) p'(2) r openable_same [OF same] by (auto simp: menus_ok_def items_ok_def view_ok_def)
  then show ?thesis using p'(1) by (auto simp: OptionSaveChanges_onConfirm_def)
qed

lemma confirm_ok:
  assumes "menus_ok sr s" "s_stack s = v # vs" "v_menu v = Save_menu \<Longrightarrow> savable sr (s_fs s) (s_player s)"
  shows "\<exists>s'. confirm sr (rows_in s (v_menu v)) v vs s = Some s' \<and> menus_ok sr s'"
proof -
  note ok = menus_okD [OF assms(1,2)]
  have s: "s\<lparr>s_stack := v # vs\<rparr> = s" using assms(2) by simp
  have i: "v_selected v < length (rows_in s (v_menu v))" using view_selects [OF ok(1)] .
  have top: "menus_ok sr (s\<lparr>s_stack := w # vs\<rparr>)" if "view_ok sr s w" "v_menu w = v_menu v" for w
    using menus_ok_top [OF assms(1,2) that] .
  show ?thesis
  proof (cases "v_menu v")
    case Options_menu
    then have vs: "vs = []" using ok(6) by (auto elim: stack_okE)
    have sel: "v_selected v < (if ct_count (s_cheats s) = 0 then 5 else 6)" using i Options_menu by (simp add: menu_rows_def split: if_splits)
    then have "[Frontend_menu, Emulator_menu, Controls_menu, Shortcuts_menu, Save_menu, Cheats_menu] ! v_selected v \<noteq> Options_menu"
      by (auto simp: less_Suc_eq numeral_eq_Suc split: if_splits)
    from open_ok [OF assms(1) assms(2) [unfolded vs] Options_menu this] show ?thesis
      using sel s Options_menu by (auto simp: confirm_def Let_def)
  next
    case Cheats_menu
    have "ch_desc (ct_item (s_cheats s) ! v_selected v) \<noteq> None" if "v_selected v < ct_count (s_cheats s)"
      using ok(8) that by (auto simp: cheats_ok_def list_all_length)
    then show ?thesis using assms(1) s top [OF mode_ok [OF ok(1)]] Cheats_menu by (auto simp: confirm_def Let_def)
  next
    case Emulator_menu
    then show ?thesis using assms(1) s i top [OF mode_ok [OF ok(1)]] by (auto simp: confirm_def Let_def)
  next
    case Controls_menu
    then show ?thesis using assms(1) s i ok(1) top [of "v\<lparr>v_mode := Awaiting, v_defer := True\<rparr>"]
      by (auto simp: confirm_def Let_def view_ok_def window_ok_def)
  next
    case Shortcuts_menu
    then show ?thesis using assms(1) s i ok(1) top [of "v\<lparr>v_mode := Awaiting, v_defer := True\<rparr>"]
      by (auto simp: confirm_def Let_def view_ok_def window_ok_def)
  next
    case Frontend_menu
    then show ?thesis using assms(1) by (simp add: confirm_def Let_def s)
  next
    case Save_menu
    from save_row_ok [OF assms(1,2) assms(3) [OF Save_menu] Save_menu, of "v_selected v"] obtain s' where
      "OptionSaveChanges_onConfirm sr (v_selected v) s = Some s'" "menus_ok sr (s'\<lparr>s_stack := v\<lparr>v_mode := Message EXIT\<rparr> # vs\<rparr>)"
      by blast
    then show ?thesis using Save_menu by (simp add: confirm_def Let_def s)
  qed
qed

lemma clear_ok:
  assumes "menus_ok sr s" "s_stack s = v # vs" "v_mode v = Browsing" "type_of (v_menu v) = MENU_INPUT"
  shows "\<exists>w s'. clear_row sr (rows_in s (v_menu v)) v s = Some (w, s') \<and> menus_ok sr (s'\<lparr>s_stack := w # vs\<rparr>)"
proof -
  let ?rows = "rows_in s (v_menu v)"
  note ok = menus_okD [OF assms(1,2)]
  have m: "settings_menu (v_menu v)" using assms(4) by (cases "v_menu v") auto
  have "item_ok (?rows ! v_selected v)" using ok(3) nth_mem [OF view_selects [OF ok(1)]] by (rule menu_rows_ok)
  moreover have "mi_values (?rows ! v_selected v) \<noteq> No_labels"
  proof -
    have "\<forall>item \<in> set ?rows. mi_values item \<noteq> No_labels"
      using assms(4) by (cases "v_menu v") (auto simp: menu_rows_def gamepad_row_def binding_row_def split: if_splits)
    then show ?thesis using nth_mem [OF view_selects [OF ok(1)]] by blast
  qed
  ultimately have "0 < length (texts (mi_values (?rows ! v_selected v)))" by (auto simp: item_ok_def)
  from give_value_ok [OF assms(1,2) disjI1 [OF m] assms(3) this refl] obtain s' where s':
    "give_value sr (v_menu v) ?rows (v_selected v) 0 s = Some s'" "menus_ok sr s'" "s_stack s' = v # vs"
    "same_in s' s" by auto
  let ?w = "row_down (screen_rows sr) (row_count ?rows) v"
  have "view_ok sr s' ?w"
    using menus_okD(1) [OF s'(2,3)] window_down [OF ok(2)] assms(3) same_rows_count [OF s'(4)] by (simp add: view_ok_def)
  from menus_ok_top [OF s'(2,3) this] show ?thesis using s'(1) by (simp add: clear_row_def)
qed

lemma browse_plain:
  "browse sr pad items v s = Some (w, s') \<Longrightarrow> \<forall>item \<in> set items. mi_values item = No_labels \<Longrightarrow> s' = s"
  by (auto simp: browse_def Let_def Option.bind_eq_Some_conv split: if_splits)

lemma browse_turn_ok:
  assumes "menus_ok sr s" "s_stack s = v # vs" "v_mode v = Browsing"
    and "v_menu v = Save_menu \<Longrightarrow> PAD_justPressed (btn 4) pad \<Longrightarrow> savable sr (s_fs s) (s_player s)"
  shows "\<exists>s'. browse_turn sr pad (rows_in s (v_menu v)) v vs s = Some s' \<and> menus_ok sr s'"
proof -
  obtain w s1 where w: "browse sr pad (rows_in s (v_menu v)) v s = Some (w, s1)" "v_menu w = v_menu v"
    "v_mode w = Browsing" "menus_ok sr (s1\<lparr>s_stack := w # vs\<rparr>)"
    using browse_ok [OF assms(1-3), of pad] by blast
  have saved: "savable sr (s_fs s1) (s_player s1)" if "v_menu w = Save_menu" "PAD_justPressed (btn 4) pad"
    using assms(4) that w(2) browse_plain [OF w(1)] by (simp add: menu_rows_def plain_row_def)
  let ?t = "s1\<lparr>s_stack := w # vs\<rparr>"
  have items: "s_items s1 (v_menu w) = Some (rows_in s1 (v_menu w))"
    using menus_okD(7) [OF w(4), of w vs] by simp
  note turn = browse_turn_def w(1) items
  consider "PAD_justPressed (btn 5) pad" | "\<not> PAD_justPressed (btn 5) pad" "PAD_justPressed (btn 4) pad"
    | "\<not> PAD_justPressed (btn 5) pad" "\<not> PAD_justPressed (btn 4) pad" "type_of (v_menu w) = MENU_INPUT" "PAD_justPressed (btn 6) pad"
    | "\<not> PAD_justPressed (btn 5) pad" "\<not> PAD_justPressed (btn 4) pad" "\<not> (type_of (v_menu w) = MENU_INPUT \<and> PAD_justPressed (btn 6) pad)"
    by blast
  then show ?thesis
  proof cases
    case 1
    then show ?thesis using end_top_ok [OF menus_ok_pop [OF w(4)], of w vs pad] by (simp add: turn)
  next
    case 2
    from confirm_ok [OF w(4), of w vs] saved 2 obtain s2 where
      "confirm sr (rows_in s1 (v_menu w)) w vs ?t = Some s2" "menus_ok sr s2" by auto
    then have "confirm sr (rows_in s1 (v_menu w)) w vs s1 = Some s2" by (simp add: confirm_def Let_def)
    then show ?thesis using 2 \<open>menus_ok sr s2\<close> end_top_ok [of sr s2 pad] by (simp add: turn)
  next
    case 3
    from clear_ok [OF w(4) _ w(3) 3(3), of vs] obtain u s2 where
      "clear_row sr (rows_in s1 (v_menu w)) w ?t = Some (u, s2)" "menus_ok sr (s2\<lparr>s_stack := u # vs\<rparr>)" by auto
    moreover obtain s3 where "clear_row sr (rows_in s1 (v_menu w)) w s1 = Some (u, s3)" "s2 = s3\<lparr>s_stack := w # vs\<rparr>"
      using calculation(1) by (auto simp: clear_row_def give_value_stack Option.bind_eq_Some_conv)
    ultimately show ?thesis using 3 end_top_ok [of sr "s3\<lparr>s_stack := u # vs\<rparr>" pad] by (simp add: turn)
  next
    case 4
    then show ?thesis using end_top_ok [OF w(4), of pad] by (auto simp: turn)
  qed
qed

lemma bound_button_range: "bound_button pad = Some b \<Longrightarrow> 0 < b \<and> b \<le> LOCAL_BUTTON_COUNT"
proof -
  assume b: "bound_button pad = Some b"
  then have "PAD_justPressed (mask_of (int b - 1)) pad" "b < LOCAL_BUTTON_COUNT + 1"
    by (auto simp: bound_button_def find_Some_iff nth_append split: if_splits)
  moreover have "\<not> PAD_justPressed (mask_of (int 0 - 1)) pad" by (simp add: mask_of_def PAD_justPressed_def)
  ultimately show ?thesis by (metis less_Suc_eq_le Suc_eq_plus1 gr0I)
qed

lemma rebound:
  assumes "player_ok p" "rebinds f v" "m \<in> {Controls_menu, Shortcuts_menu}" "i < length (rows_of p m)"
    and "mi_values (rows_of p m ! i) = Button_labels"
  shows "\<exists>p'. bind_mapping m (mi_id (rows_of p m ! i)) f p = Some p' \<and> changes m i v p p'"
  using assms(3) controls_rebound [OF assms(1,2), of i] shortcuts_rebound [OF assms(1,2), of i] assms(4,5) by blast

lemma bind_turn_ok:
  assumes "menus_ok sr s" "s_stack s = v # vs" "v_mode v = Awaiting"
  shows "\<exists>s'. bind_turn sr pad (rows_in s (v_menu v)) v vs s = Some s' \<and> menus_ok sr s'"
proof (cases "bound_button pad")
  case None
  then show ?thesis using assms(1) by (simp add: bind_turn_def)
next
  case (Some b)
  let ?rows = "rows_in s (v_menu v)" and ?m = "PAD_isPressed (btn BTN_ID_MENU) pad"
  note ok = menus_okD [OF assms(1,2)]
  have v: "v_menu v \<in> {Controls_menu, Shortcuts_menu}" "mi_values (?rows ! v_selected v) = Button_labels"
    using ok(1) assms(3) by (simp_all add: view_ok_def)
  have i: "v_selected v < length ?rows" using view_selects [OF ok(1)] .
  have m: "settings_menu (v_menu v)" using v(1) by auto
  note rows = rows_in_settings [OF m]
  have "rebinds (bind_to b ?m) (bound_value b ?m)" using bound_button_range [OF Some] by (intro rebinds_bind) auto
  then obtain p' where p': "bind_mapping (v_menu v) (mi_id (?rows ! v_selected v)) (bind_to b ?m) (s_player s) = Some p'"
    "changes (v_menu v) (v_selected v) (bound_value b ?m) (s_player s) p'"
    using rebound [OF ok(3) _ v(1), of "bind_to b ?m" "bound_value b ?m" "v_selected v"] i v(2) unfolding rows by blast
  note changed = player_row_changed [OF p'(2) m ok(8)]
  then have same: "same_in (s\<lparr>s_player := p'\<rparr>) s" by (simp add: row_changed_def)
  let ?w = "row_down (screen_rows sr) (row_count ?rows) (v\<lparr>v_mode := Browsing\<rparr>)"
  have "window_ok (screen_rows sr) (row_count ?rows) (v\<lparr>v_mode := Browsing\<rparr>)" using ok(1) by (simp add: view_ok_def window_ok_def)
  from window_down [OF ok(2) this] have "window_ok (screen_rows sr) (row_count (rows_in (s\<lparr>s_player := p'\<rparr>) (v_menu v))) ?w"
    using same_rows_count [OF same, of "v_menu v"] by simp
  from menus_ok_change [OF assms(1,2) i _ changed this] m have "menus_ok sr (put_item (v_menu v) ?rows (v_selected v)
      ((?rows ! v_selected v)\<lparr>mi_value := bound_value b ?m\<rparr>) (s\<lparr>s_player := p', s_stack := ?w # vs\<rparr>))" by auto
  then show ?thesis using Some i p'(1) by (simp add: bind_turn_def Let_def)
qed

lemma message_turn_ok:
  assumes "menus_ok sr s" "s_stack s = v # vs" "v_mode v = Message r"
  shows "menus_ok sr (message_turn pad r v vs s)"
  using assms menus_ok_pop [OF assms(1,2)] menus_ok_top [OF assms(1,2) mode_ok [OF menus_okD(1) [OF assms(1,2)]], of Browsing]
  by (auto simp: message_turn_def intro!: end_top_ok)

text \<open>A turn in which a row of Save Changes is confirmed.\<close>

definition saves :: "pad_state \<Rightarrow> menus \<Rightarrow> bool" where
  "saves pad s \<longleftrightarrow> (case s_stack s of [] \<Rightarrow> False
     | v # _ \<Rightarrow> v_menu v = Save_menu \<and> v_mode v = Browsing \<and> PAD_justPressed (btn 4) pad)"

lemma menu_turn_ok:
  assumes "menus_ok sr s" "saves pad s \<Longrightarrow> savable sr (s_fs s) (s_player s)"
  shows "\<exists>s'. menu_turn sr pad s = Some s' \<and> menus_ok sr s'"
proof (cases "s_stack s")
  case Nil
  then show ?thesis using assms(1) by (simp add: menu_turn_def)
next
  case (Cons v vs)
  note items = menus_okD(7) [OF assms(1) Cons]
  show ?thesis
  proof (cases "v_mode v")
    case Browsing
    then show ?thesis using browse_turn_ok [OF assms(1) Cons Browsing, of pad] assms(2) items Cons
      by (simp add: menu_turn_def saves_def)
  next
    case Awaiting
    then show ?thesis using bind_turn_ok [OF assms(1) Cons Awaiting, of pad] items Cons by (simp add: menu_turn_def)
  next
    case (Message r)
    then show ?thesis using message_turn_ok [OF assms(1) Cons Message, of pad] items Cons by (simp add: menu_turn_def)
  qed
qed

text \<open>Whenever a row of Save Changes is confirmed, the files are as \<open>savable\<close> says.\<close>

fun files_ready :: "surroundings \<Rightarrow> pad_state list \<Rightarrow> menus \<Rightarrow> bool" where
  "files_ready sr [] s \<longleftrightarrow> True"
| "files_ready sr (pad # pads) s \<longleftrightarrow> (saves pad s \<longrightarrow> savable sr (s_fs s) (s_player s))
     \<and> (case menu_turn sr pad s of None \<Rightarrow> True | Some s' \<Rightarrow> files_ready sr pads s')"

lemma menu_turns_ok:
  "menus_ok sr s \<Longrightarrow> files_ready sr pads s \<Longrightarrow> \<exists>s'. fold_opt (menu_turn sr) pads s = Some s' \<and> menus_ok sr s'"
proof (induction pads arbitrary: s)
  case (Cons pad pads)
  obtain s' where s': "menu_turn sr pad s = Some s'" "menus_ok sr s'"
    using menu_turn_ok [OF Cons.prems(1), of pad] Cons.prems(2) by auto
  then show ?case using Cons.IH [OF s'(2)] Cons.prems(2) by simp
qed simp

text \<open>ITEM_OPTS: the options menu is opened over nothing.\<close>

definition enter_menus :: "surroundings \<Rightarrow> fsys \<Rightarrow> cheats \<Rightarrow> player \<Rightarrow> menus" where
  "enter_menus sr fs t p = \<lparr>s_player = p, s_cheats = t, s_calls = [], s_fs = fs,
     s_items = [Options_menu \<mapsto> menu_rows p t Options_menu],
     s_stack = [fresh_view sr Options_menu (menu_rows p t Options_menu)]\<rparr>"

lemma enter_ok:
  assumes "0 < screen_rows sr" "player_ok p" "openable p" "cheats_ok t"
  shows "menus_ok sr (enter_menus sr fs t p)"
proof -
  have "0 < row_count (menu_rows p t Options_menu)" by (simp add: row_count_def plain_row_def menu_rows_def)
  from window_fresh [OF assms(1) this refl, of Options_menu]
  have "view_ok sr (enter_menus sr fs t p) (fresh_view sr Options_menu (menu_rows p t Options_menu))"
    by (simp add: view_ok_def enter_menus_def fresh_view_def)
  then show ?thesis using assms
    by (auto simp: menus_ok_def enter_menus_def items_ok_def stack_ok_def fresh_view_def split: if_splits)
qed

section \<open>Properties\<close>

text \<open>
  C33. The options menus show the settings. Whatever buttons are pressed in the options menu and in the
  menus of the frontend, the emulator, the controls, the shortcuts, the saved changes and the cheats, no
  menu reads or writes outside its rows and tables; after every turn each open menu shows exactly the
  rows of the player's settings and of the table of cheats as they are, every value is the index of one
  of the row's texts, and the selected row is among the rows drawn, as many as fit. Whenever a row of
  Save Changes is confirmed, the names of the files must fit their buffers, and the files that restoring
  reads must lock no further option and give a gamepad type of the table.
\<close>

theorem menus_show_settings:
  assumes "0 < screen_rows sr" "player_ok p" "openable p" "cheats_ok t" "files_ready sr pads (enter_menus sr fs t p)"
  shows "\<exists>s. fold_opt (menu_turn sr) pads (enter_menus sr fs t p) = Some s \<and> player_ok (s_player s)
    \<and> (\<forall>v \<in> set (s_stack s). let items = menu_rows (s_player s) (s_cheats s) (v_menu v) in s_items s (v_menu v) = Some items
         \<and> v_start v \<le> v_selected v \<and> v_selected v < v_end v \<and> v_end v \<le> length items
         \<and> v_end v - v_start v = min (row_count items) (screen_rows sr)
         \<and> list_all (\<lambda>item. mi_values item \<noteq> No_labels \<longrightarrow> 0 \<le> mi_value item \<and> nat (mi_value item) < length (texts (mi_values item))) items)"
proof -
  obtain s where s: "fold_opt (menu_turn sr) pads (enter_menus sr fs t p) = Some s" "menus_ok sr s"
    using menu_turns_ok [OF enter_ok [OF assms(1-4)] assms(5)] by blast
  have ok: "player_ok (s_player s)" "\<forall>v \<in> set (s_stack s). view_ok sr s v" using s(2) by (simp_all add: menus_ok_def)
  have "list_all item_ok (rows_in s m)" for m using menu_rows_ok [OF ok(1)] by (auto simp: list_all_iff)
  moreover have "v_end v \<le> length (rows_in s (v_menu v))" if "view_ok sr s v" for v
    using that row_count_length [of "rows_in s (v_menu v)"] by (auto simp: view_ok_def window_ok_def)
  ultimately show ?thesis using s(1) ok by (intro exI [of _ s]) (auto simp: Let_def view_ok_def window_ok_def item_ok_def [abs_def])
qed

text \<open>
  C34. A button that is bound reaches the core. After the controls menu has taken a button for a row,
  with MENU held or not, a poll of the core with that button held (and MENU, when it was held then)
  gives the core the libretro button that the row stands for.
\<close>

theorem bound_button_reaches_core:
  assumes "menus_ok sr s" "s_stack s = v # vs" "v_menu v = Controls_menu" "v_mode v = Awaiting"
    and "bound_button pad = Some b"
    and "j = mi_id (rows_of (s_player s) Controls_menu ! v_selected v)" "mp_retro (controls (s_player s) ! j) = int r" "r < 16"
    and "\<forall>m \<in> set (controls (s_player s)). 0 \<le> mp_retro m"
    and "bit (is_pressed pad') (b - 1)" "PAD_isPressed (btn BTN_ID_MENU) pad \<Longrightarrow> bit (is_pressed pad') BTN_ID_MENU"
  shows "\<exists>s'. menu_turn sr pad s = Some s'
    \<and> (\<forall>c. ctl_ok c \<longrightarrow> ct_player c = s_player s' \<longrightarrow>
         (\<exists>d. input_poll_callback pad' c = Some d \<and> input_state_callback pad' d 0 1 0 r = 1))"
proof -
  let ?rows = "rows_of (s_player s) (v_menu v)" and ?m = "PAD_isPressed (btn BTN_ID_MENU) pad"
  note ok = menus_okD [OF assms(1,2)]
  have rows: "rows_in s (v_menu v) = ?rows" using assms(3) by (intro rows_in_settings) simp
  have i: "v_selected v < length ?rows" using view_selects [OF ok(1)] unfolding rows .
  note items = ok(7) [unfolded rows]
  obtain s' where s': "menu_turn sr pad s = Some s'" "menus_ok sr s'"
    using menu_turn_ok [OF assms(1), of pad] assms(2-4) by (auto simp: saves_def)
  obtain ms where ms: "set_binding_at j (bind_to b ?m) (controls (s_player s)) = Some ms" "controls (s_player s') = ms"
    using s'(1) assms(2-6) items i
    by (auto simp: menu_turn_def bind_turn_def bind_mapping_def put_item_def Let_def Option.bind_eq_Some_conv simp del: rows_of.simps)
  then have j: "j < length (controls (s_player s))" "ms = (controls (s_player s))[j := bind_to b ?m (controls (s_player s) ! j)]"
    by (auto simp: set_binding_at_def split: if_splits)
  let ?k = "bind_to b ?m (controls (s_player s) ! j)"
  have k: "?k \<in> set ms" "mp_retro ?k = int r" using j assms(7) by (auto simp: bind_to_def set_update_memI)
  have b: "0 < b" "b \<le> 16" using bound_button_range [OF assms(5)] by (simp_all add: LOCAL_BUTTON_COUNT_def)
  have held: "held pad' g ?k" for g using b assms(10,11) by (auto simp: held_def bind_to_def nat_diff_distrib)
  have tables: "\<forall>m \<in> set (controls (s_player s')). - 1 \<le> mp_local m \<and> mp_local m < 16 \<and> 0 \<le> mp_retro m"
  proof
    fix m assume m: "m \<in> set (controls (s_player s'))"
    then have "0 \<le> mp_retro m" using assms(7,9) j ms(2) set_update_subset_insert [of "controls (s_player s)" j ?k] k(2) by auto
    moreover have "binding_ok m" using menus_ok_def s'(2) m by (auto simp: menus_ok_def player_ok_def list_all_iff)
    ultimately show "- 1 \<le> mp_local m \<and> mp_local m < 16 \<and> 0 \<le> mp_retro m" by (auto simp: binding_ok_def split: if_splits)
  qed
  have "\<exists>d. input_poll_callback pad' c = Some d \<and> input_state_callback pad' d 0 1 0 r = 1"
    if "ctl_ok c" "ct_player c = s_player s'" for c
  proof -
    have "\<exists>m \<in> set (controls (ct_player c)). held pad' (gamepad_type (ct_player c)) m \<and> mp_retro m = int r"
      unfolding that(2) ms(2) using k held by blast
    then show ?thesis using poll_sees_controls [OF that(1) assms(8), of pad'] tables that(2) by (simp only: if_True)
  qed
  then show ?thesis using s'(1) by blast
qed

subsection \<open>A visit to the menus\<close>

definition demo_sr :: surroundings where
  "demo_sr = \<lparr>screen_rows = 7, env_device = None, overscan = False, full_text = (\<lambda>_. False),
     cheat_api = True, card_room = 4096\<rparr>"

definition blank_card :: fsys where
  "blank_card = \<lparr>fs_files = Map.empty, fs_dirs = Map.empty, fs_writable = (\<lambda>_. True)\<rparr>"

definition pressing :: "nat \<Rightarrow> pad_state" where
  "pressing i = \<lparr>is_pressed = btn i, just_pressed = btn i, just_released = 0, just_repeated = btn i,
     repeat_at = replicate BTN_ID_COUNT 0, laxis = (0, 0), raxis = (0, 0)\<rparr>"

text \<open>
  A into the frontend's options, RIGHT on the first of them, B back; UP to the cheats, A, RIGHT on the
  first, B back; UP to the saved changes, A, A to save for the console, A again after the message.
\<close>

definition demo_visit :: "pad_state list" where
  "demo_visit = map pressing [4, 3, 5, 0, 4, 3, 5, 0, 4, 4, 4]"

definition demo_cheats :: cheats where
  "demo_cheats = \<lparr>ct_count = 1, ct_item = [\<lparr>ch_desc = Some ''Lives'', ch_code = Some ''00'', ch_enabled = False\<rparr>],
     ct_sidecar = ''/c''\<rparr>"

lemma demo_player_ok: "player_ok demo_player" "openable demo_player" "cheats_ok demo_cheats"
  by code_simp+

lemma demo_files_ready: "files_ready demo_sr demo_visit (enter_menus demo_sr blank_card demo_cheats demo_player)"
  by code_simp

theorem menus_show_settings_witness:
  "\<exists>s. fold_opt (menu_turn demo_sr) demo_visit (enter_menus demo_sr blank_card demo_cheats demo_player) = Some s"
  using menus_show_settings [OF _ demo_player_ok demo_files_ready] by (auto simp: demo_sr_def)

text \<open>The controls menu, waiting for a button for its second row.\<close>

definition demo_waiting :: menus where
  "demo_waiting = \<lparr>s_player = demo_player, s_cheats = Lodor_cheatsFree demo_cheats, s_calls = [], s_fs = blank_card,
     s_items = [Options_menu \<mapsto> rows_of demo_player Options_menu, Controls_menu \<mapsto> rows_of demo_player Controls_menu],
     s_stack = [\<lparr>v_menu = Controls_menu, v_selected = 1, v_start = 0, v_end = 7, v_defer = True, v_mode = Awaiting\<rparr>,
       \<lparr>v_menu = Options_menu, v_selected = 2, v_start = 0, v_end = 5, v_defer = False, v_mode = Browsing\<rparr>]\<rparr>"

lemma demo_rows: "row_count (rows_of demo_player Controls_menu) = 17" "row_count (rows_of demo_player Options_menu) = 5"
  "mi_values (rows_of demo_player Controls_menu ! 1) = Button_labels" "mi_id (rows_of demo_player Controls_menu ! 1) = 0"
  by code_simp+

lemma demo_menu_rows:
  "menu_rows p (Lodor_cheatsFree t) Options_menu = rows_of p Options_menu"
  "menu_rows p t' Controls_menu = rows_of p Controls_menu" "cheats_ok (Lodor_cheatsFree t)"
  by (simp_all add: menu_rows_def Lodor_cheatsFree_def cheats_ok_def)

lemma demo_waiting_ok: "menus_ok demo_sr demo_waiting"
  using demo_player_ok demo_rows demo_menu_rows
  by (auto simp: menus_ok_def demo_waiting_def demo_sr_def items_ok_def stack_ok_def view_ok_def window_ok_def
      simp del: rows_of.simps split: if_splits)

theorem bound_button_reaches_core_witness:
  "\<exists>s'. menu_turn demo_sr (pressing 5) demo_waiting = Some s'
    \<and> (\<forall>c. ctl_ok c \<longrightarrow> ct_player c = s_player s' \<longrightarrow>
         (\<exists>d. input_poll_callback (pressing 5) c = Some d \<and> input_state_callback (pressing 5) d 0 1 0 4 = 1))"
proof -
  have b: "bound_button (pressing 5) = Some 6" by code_simp
  have r: "mp_retro (controls demo_player ! 0) = int 4" "\<forall>m \<in> set (controls demo_player). 0 \<le> mp_retro m"
    by code_simp+
  show ?thesis
    by (rule bound_button_reaches_core [OF demo_waiting_ok _ _ _ b, where j = 0 and v = "hd (s_stack demo_waiting)"
          and vs = "tl (s_stack demo_waiting)"])
      (use r demo_rows in \<open>simp_all add: demo_waiting_def pressing_def btn_ids del: rows_of.simps\<close>)
qed

text \<open>
  While \<open>v_defer\<close> is set, Menu_options does not call PWR_update. Binding sets it, and only letting go of
  MENU clears it: after a button was bound without MENU, the power button, the automatic sleep and the
  low battery warning stay off as long as the menu is open.
\<close>

lemma browse_defer: "browse sr pad items v s = Some (w, s') \<Longrightarrow> v_defer w = v_defer v \<and> v_menu w = v_menu v"
  by (auto simp: browse_def row_up_def row_down_def Let_def Option.bind_eq_Some_conv split: if_splits)

lemma confirm_defer:
  assumes "confirm sr items v vs s = Some s'" "s_stack s' = w # vs"
  shows "v_defer v \<Longrightarrow> v_defer w"
  using assms by (cases "v_menu v")
    (auto simp: confirm_def open_menu_def OptionSaveChanges_onConfirm_def Let_def Option.bind_eq_Some_conv split: if_splits)

theorem power_ignored_after_binding:
  assumes "menu_turn sr pad s = Some s'" "s_stack s = v # vs" "s_stack s' = w # vs" "\<not> PAD_justReleased (btn BTN_ID_MENU) pad"
    and "v_defer v"
  shows "v_defer w"
proof -
  note v = assms(5)
  have idle: "end_turn pad u = u" for u using assms(4) by (simp add: end_turn_def)
  have top: "end_top pad t = t" for t by (cases "s_stack t") (simp_all add: end_top_def idle)
  obtain items where items: "s_items s (v_menu v) = Some items" using assms(1,2) by (auto simp: menu_turn_def Option.bind_eq_Some_conv)
  show ?thesis
  proof (cases "v_mode v")
    case Browsing
    then have "browse_turn sr pad items v vs s = Some s'" using assms(1,2) items by (simp add: menu_turn_def)
    then show ?thesis using v assms(3)
      by (auto simp: browse_turn_def top clear_row_def row_down_def Let_def Option.bind_eq_Some_conv
          dest!: browse_defer confirm_defer split: if_splits)
  next
    case Awaiting
    then have "bind_turn sr pad items v vs s = Some s'" using assms(1,2) items by (simp add: menu_turn_def)
    then show ?thesis using v assms(2,3)
      by (auto simp: bind_turn_def put_item_def row_down_def Let_def Option.bind_eq_Some_conv split: option.splits if_splits)
  next
    case (Message r)
    then show ?thesis using v assms(1-3) items by (auto simp: menu_turn_def message_turn_def top split: if_splits)
  qed
qed

end
