(* ===== verification/Engine.thy ===== *)
theory Engine
  imports LodorSettings
begin

text \<open>
  How the launcher runs the sync engine (minui.c, Lodor_runWithProgress) and reads its answer: the
  engine's output goes to a file, a loop polls for its end, and the caller scans the text for lines of
  the form RESULT key=number.
\<close>

section \<open>Scanning the answer\<close>

text \<open>
  sscanf with a format of literal bytes, blanks and %d: the numbers converted up to the first
  mismatch. A blank in the format stands for any white space, newlines included.
\<close>

definition scan_num :: "string \<Rightarrow> (int \<times> string) option" where
  "scan_num s =
    (let t = dropWhile c_isspace s;
         (neg, u) = (case t of [] \<Rightarrow> (False, t) | c # cs \<Rightarrow>
           if c = CHR ''-'' then (True, cs) else if c = CHR ''+'' then (False, cs) else (False, t));
         ds = takeWhile c_isdigit u; v = int (digits_val 0 ds)
     in if ds = [] then None else Some (saturate (if neg then - v else v), dropWhile c_isdigit u))"

function scan_fmt :: "string \<Rightarrow> string \<Rightarrow> int list" where
  "scan_fmt [] s = []"
| "scan_fmt (c # f) s =
    (if c = CHR ''%'' then (case scan_num s of None \<Rightarrow> [] | Some (v, r) \<Rightarrow> v # scan_fmt (tl f) r)
     else if c_isspace c then scan_fmt f (dropWhile c_isspace s)
     else (case s of [] \<Rightarrow> [] | x # xs \<Rightarrow> if x = c then scan_fmt f xs else []))"
  by pat_completeness auto
termination by (relation "measure (\<lambda>(f, s). length f)") auto

text \<open>The loop \<open>while (ln && *ln)\<close>: the text from the start of each line on.\<close>

function line_starts :: "string \<Rightarrow> string list" where
  "line_starts s =
    (if s = [] then [] else s # (case strchr s NL of None \<Rightarrow> [] | Some i \<Rightarrow> line_starts (drop (Suc i) s)))"
  by pat_completeness auto
termination by (relation "measure length") auto

declare line_starts.simps [simp del]

text \<open>The numbers of the last line on which all n conversions succeed.\<close>

definition last_result :: "string \<Rightarrow> nat \<Rightarrow> string \<Rightarrow> int list option" where
  "last_result fmt n out =
    fold (\<lambda>ln acc. let vs = scan_fmt fmt ln in if length vs = n then Some vs else acc) (line_starts out) None"

text \<open>\<open>strstr (out, key)\<close> with atoi of what follows.\<close>

definition find_int :: "string \<Rightarrow> string \<Rightarrow> int option" where
  "find_int key out = map_option (\<lambda>i. atoi (drop (i + length key) out)) (strstr out key)"

section \<open>Lodor_runWithProgress\<close>

text \<open>
  One run of the command: what each frame's poll finds (whether the engine is done, whether B or MENU
  was just pressed), what the output and the Wi-Fi flag files hold when the loop is over.
\<close>

record attempt =
  at_frames :: "nat \<Rightarrow> bool \<times> bool"
  at_out :: "string option"
  at_wifi_fail :: "string option"

definition MAX_FRAMES :: nat where "MAX_FRAMES = 16 * 300"

text \<open>The loop over the frames: how many were polled, and whether it was being cancelled.\<close>

function progress_loop :: "(nat \<Rightarrow> bool \<times> bool) \<Rightarrow> nat \<Rightarrow> bool \<Rightarrow> nat \<times> bool" where
  "progress_loop frames frame cancelling =
    (if MAX_FRAMES \<le> frame then (frame, cancelling)
     else if fst (frames frame) then (frame, cancelling)
     else progress_loop frames (Suc frame) (cancelling \<or> snd (frames frame)))"
  by pat_completeness auto
termination by (relation "measure (\<lambda>(_, frame, _). MAX_FRAMES - frame)") auto

declare progress_loop.simps [simp del]

definition wifi_failed :: "attempt \<Rightarrow> bool" where
  "wifi_failed a \<longleftrightarrow> (case at_wifi_fail a of Some (c # _) \<Rightarrow> c = CHR ''1'' | _ \<Rightarrow> False)"

definition read_out :: "nat \<Rightarrow> attempt \<Rightarrow> string \<Rightarrow> string" where
  "read_out cap a out_buf = (case at_out a of None \<Rightarrow> out_buf | Some text \<Rightarrow> c_str (take (cap - 1) text))"

text \<open>
  The whole call: the buffer, and how many runs there were. \<open>marker\<close>: the card has .wifi-8188fu, and
  \<open>reset\<close>: the user says yes to the reset.
\<close>

definition Lodor_runWithProgress :: "bool \<Rightarrow> bool \<Rightarrow> nat \<Rightarrow> attempt \<Rightarrow> attempt \<Rightarrow> string \<times> nat" where
  "Lodor_runWithProgress marker reset cap a1 a2 =
    (let out_buf = read_out cap a1 []
     in if wifi_failed a1 \<and> marker \<and> reset then (read_out cap a2 out_buf, 2) else (out_buf, 1))"

section \<open>Lemmas\<close>

lemma scan_num_d: "map_option fst (scan_num s) = scan_d s"
  by (auto simp: scan_num_def scan_d_def Let_def split: list.splits)

lemma scan_num_c_int:
  assumes "- (2 ^ 31) \<le> i" "i < 2 ^ 31" "r = [] \<or> \<not> c_isdigit (hd r)"
  shows "scan_num (c_int i @ r) = Some (i, r)"
proof -
  have ds: "takeWhile c_isdigit (c_digits n @ r) = c_digits n" "dropWhile c_isdigit (c_digits n @ r) = r" for n
    using assms(3) c_digits_isdigit [of n]
    by (cases r; simp add: takeWhile_append dropWhile_append takeWhile_eq_self takeWhile_digits)+
  have hd: "\<exists>c cs. c_digits n = c # cs \<and> \<not> c_isspace c \<and> c \<noteq> CHR ''-'' \<and> c \<noteq> CHR ''+''" for n
    using c_digits_isdigit [of n] by (cases "c_digits n") (auto dest: isdigit_not_space isdigit_not_sign)
  show ?thesis
  proof (cases "i < 0")
    case True
    then show ?thesis using ds [of "nat (- i)"] assms(1,2)
      by (simp add: scan_num_def c_int_def c_isspace_def digits_val_c_digits saturate_def)
  next
    case False
    obtain c cs where c: "c_digits (nat i) = c # cs" "\<not> c_isspace c" "c \<noteq> CHR ''-''" "c \<noteq> CHR ''+''"
      using hd [of "nat i"] by blast
    then show ?thesis using ds [of "nat i"] digits_val_c_digits [of "nat i"] False assms(1,2)
      by (simp add: scan_num_def c_int_def saturate_def)
  qed
qed

text \<open>The poll ends: at the engine's end or after five minutes, whatever is pressed.\<close>

lemma progress_loop_ends:
  "frame \<le> MAX_FRAMES \<Longrightarrow> fst (progress_loop frames frame c) \<le> MAX_FRAMES
    \<and> (fst (progress_loop frames frame c) < MAX_FRAMES \<longrightarrow> fst (frames (fst (progress_loop frames frame c))))"
proof (induction frames frame c rule: progress_loop.induct)
  case (1 frames frame c)
  show ?case
  proof (cases "MAX_FRAMES \<le> frame \<or> fst (frames frame)")
    case True
    then have "progress_loop frames frame c = (frame, c)" by (subst progress_loop.simps) auto
    then show ?thesis using True "1.prems" by auto
  next
    case False
    then have "progress_loop frames frame c = progress_loop frames (Suc frame) (c \<or> snd (frames frame))"
      by (subst progress_loop.simps) auto
    then show ?thesis using "1.IH" False by simp
  qed
qed

text \<open>
  A run that is cancelled is not stopped: with an engine that does not end, the loop goes on for the
  whole five minutes however soon B is pressed, although the comment says that the loop breaks.
\<close>

lemma progress_loop_stuck:
  "frame \<le> MAX_FRAMES \<Longrightarrow> (\<And>i. \<not> fst (frames i)) \<Longrightarrow> fst (progress_loop frames frame c) = MAX_FRAMES"
  using progress_loop_ends [of frame frames c] by force

theorem cancel_does_not_stop:
  assumes "\<And>i. \<not> fst (frames i)"
  shows "fst (progress_loop frames 0 False) = MAX_FRAMES"
  using progress_loop_stuck [of 0 frames] assms by simp

end
