(* ===== verification/GameLists.thy ===== *)
theory GameLists
  imports Engine Shell
begin

text \<open>
  The lists that the launcher's overlays show (minui.c): the actions of a game, the emulator picker, the
  timeline of server saves, the sync feed, the users, the game switcher, and the download queue. Each
  is built from files on the card, which the sync engine writes, and from the pak folders.

  The clock, mktime and the times of files are parameters. Lodor_resolveEmu also sets the core to
  launch with; a launch resolves again, so that is left out here.
\<close>

section \<open>Lines with tabs\<close>

definition split_tab :: "string \<Rightarrow> string \<times> string option" where
  "split_tab s = (case strchr s TAB of None \<Rightarrow> (s, None) | Some i \<Rightarrow> (take i s, Some (drop (Suc i) s)))"

text \<open>\<open>strpbrk (line, "\r\n")\<close> and a NUL there.\<close>

definition cut_line :: "string \<Rightarrow> string" where
  "cut_line s = takeWhile (\<lambda>c. c \<noteq> CR \<and> c \<noteq> NL) s"

definition tsv_lines :: "fsys \<Rightarrow> string \<Rightarrow> nat \<Rightarrow> string list" where
  "tsv_lines fs path n = (case fs_files fs path of None \<Rightarrow> [] | Some text \<Rightarrow> fgets_all n text)"

text \<open>An entry of a list: a label and an id in the place of a path.\<close>

definition list_entry :: "string \<Rightarrow> string \<Rightarrow> string \<Rightarrow> entry option" where
  "list_entry base label ident = do {
     e \<leftarrow> Entry_new base ENTRY_ROM;
     Some (e\<lparr>e_name := label, e_path := ident\<rparr>)
   }"

section \<open>Emulator picker\<close>

definition Lodor_pakStem :: "string \<Rightarrow> nat \<Rightarrow> string" where
  "Lodor_pakStem pak_path n =
    (let tmp = c_trunc 256 pak_path in
     case strrchr tmp (CHR ''/'') of
       None \<Rightarrow> []
     | Some ls \<Rightarrow>
         let tmp = take ls tmp;
             pk = (case strrchr tmp (CHR ''/'') of None \<Rightarrow> tmp | Some i \<Rightarrow> drop (Suc i) tmp);
             pk = (case strrchr pk (CHR ''.'') of
                     Some d \<Rightarrow> if drop d pk = ''.pak'' then take d pk else pk
                   | None \<Rightarrow> pk)
         in c_trunc n pk)"

definition CURRENT_MARK :: string where
  "CURRENT_MARK = ''  '' @ [CHR 0xE2, CHR 0x97, CHR 0x8F]"

text \<open>The macro LODOR_EPADD; an entry whose id is there already is not added.\<close>

definition LODOR_EPADD ::
  "string \<Rightarrow> string \<Rightarrow> string \<Rightarrow> bool \<Rightarrow> entry list \<times> nat \<Rightarrow> (entry list \<times> nat) option" where
  "LODOR_EPADD rom_path cur stem is_default acc =
    (case acc of (items, sel) \<Rightarrow>
       let ident = (if is_default then [] else stem) in
       if list_ex (\<lambda>ex. e_path ex = ident) items then Some (items, sel)
       else do {
         e \<leftarrow> list_entry rom_path
           (c_trunc 192 (stem @ (if is_default then '' (default)'' else []) @ (if stem = cur then CURRENT_MARK else [])))
           ident;
         Some (items @ [e], if stem = cur then length items else sel)
       })"

definition pak_roots :: "string list" where
  "pak_roots = [SDCARD_PATH @ ''/Emus/'' @ PLATFORM, PAKS_PATH @ ''/Emus'']"

text \<open>The stem of a directory entry that can be chosen for the tag.\<close>

definition variant_stem :: "fsys \<Rightarrow> string \<Rightarrow> string \<Rightarrow> string \<Rightarrow> string option" where
  "variant_stem fs root pre nm =
    (if nm \<noteq> [] \<and> hd nm = CHR ''.'' then None
     else case strrchr nm (CHR ''.'') of
       None \<Rightarrow> None
     | Some sl \<Rightarrow>
         if drop sl nm \<noteq> ''.pak'' \<or> sl = 0 \<or> 128 \<le> sl then None
         else if \<not> prefixMatch pre (take sl nm) then None
         else if \<not> exists fs (c_trunc 256 (root @ ''/'' @ nm @ ''/launch.sh'')) then None
         else Some (take sl nm))"

definition Lodor_buildEmuPick :: "fsys \<Rightarrow> string \<Rightarrow> (entry list \<times> nat) option" where
  "Lodor_buildEmuPick fs rom_path = do {
     tag \<leftarrow> Lodor_romTag rom_path;
     (cur_path, _) \<leftarrow> Lodor_resolveEmu fs rom_path;
     let cur = Lodor_pakStem cur_path 128;
     start \<leftarrow> LODOR_EPADD rom_path cur tag True ([], 0);
     let pre = c_trunc MAX_PATH (tag @ ''-'');
     fold_opt (\<lambda>root acc.
         case opendir fs root of
           None \<Rightarrow> Some acc
         | Some dh \<Rightarrow> fold_opt (\<lambda>dp acc.
             case variant_stem fs root pre (d_name dp) of
               None \<Rightarrow> Some acc
             | Some stem \<Rightarrow> LODOR_EPADD rom_path cur stem False acc) dh acc)
       pak_roots start
   }"

section \<open>Actions of a game\<close>

definition emulator_label :: "fsys \<Rightarrow> string \<Rightarrow> string option" where
  "emulator_label fs rom_path = do {
     (cur_path, _) \<leftarrow> Lodor_resolveEmu fs rom_path;
     let cur = Lodor_pakStem cur_path 128;
     (_, scpak, _) \<leftarrow> Lodor_readEmuSidecar fs rom_path 128 0;
     Some (c_trunc 192 (''Emulator: '' @ (if cur = [] then ''?'' else cur)
       @ (if scpak \<noteq> [] \<and> scpak = cur then '' (per-game)'' else [])))
   }"

definition Lodor_rebuildActions :: "fsys \<Rightarrow> string \<Rightarrow> bool \<Rightarrow> entry list option" where
  "Lodor_rebuildActions fs rom_path on_device = do {
     lodor_emu_lbl \<leftarrow> emulator_label fs rom_path;
     let rows = (if on_device
       then [(''Play'', ''play''), (''Sync save'', ''syncsave''), (''Flashback'', ''serversaves''),
             (lodor_emu_lbl, ''emupick''), (''Delete'', ''delete''), (''Details'', ''details'')]
       else [(''Play'', ''play''), (''Download now'', ''download''), (''Add to queue'', ''queue''),
             (lodor_emu_lbl, ''emupick''), (''Details'', ''details'')]);
     those (map (\<lambda>(label, ident). list_entry rom_path label ident) rows)
   }"

text \<open>The part of a list that Lodor_drawList draws: row 0 is the title.\<close>

definition drawn_entries :: "nat \<Rightarrow> entry list \<Rightarrow> nat list" where
  "drawn_entries main_row_count items = filter (\<lambda>i. i < main_row_count - 1) [0..<length items]"

section \<open>Timeline of saves\<close>

record clock =
  ck_now :: int
  ck_year :: "int option"
  ck_mktime :: "int list \<Rightarrow> int"

text \<open>None is the return value 0: the caller shows the date.\<close>

definition Lodor_relTime :: "clock \<Rightarrow> string \<Rightarrow> string option" where
  "Lodor_relTime ck stamp =
    (let t = scan_fmt ''%d-%d-%d %d:%d'' stamp in
     if stamp = [] \<or> length t \<noteq> 5 then None
     else case ck_year ck of
       None \<Rightarrow> None
     | Some year \<Rightarrow>
         if year < 2024 then None
         else if ck_mktime ck t = - 1 then None
         else
           let d = max 0 (ck_now ck - ck_mktime ck t) in
           if d < 90 then Some ''just now''
           else if d < 3600 then Some (c_int (d div 60) @ ''m ago'')
           else if d < 86400 then Some (c_int (d div 3600) @ ''h ago'')
           else if d < 2 * 86400 then Some ''yesterday''
           else if d < 7 * 86400 then Some (c_int (d div 86400) @ ''d ago'')
           else if d < 28 * 86400 then Some (c_int (d div (7 * 86400)) @ ''w ago'')
           else None)"

definition Lodor_savesCachePath :: "string \<Rightarrow> nat \<Rightarrow> string" where
  "Lodor_savesCachePath rompath n =
    (let san = map (\<lambda>c. if c \<in> {CHR ''/'', CHR '' '', TAB, QUOTE, CHR 0x22} then CHR ''_'' else c) (take 255 rompath);
         san = (if 200 < length san then drop (length san - 200) san else san)
     in c_trunc n (SDCARD_PATH @ ''/Tools/'' @ PLATFORM @ ''/Lodor.pak/.saves-cache/'' @ san @ ''.txt''))"

definition ON_DEVICE_MARK :: string where
  "ON_DEVICE_MARK = ''  '' @ [CHR 0xE2, CHR 0x80, CHR 0xA2] @ '' On device''"

text \<open>The label of a save: when, device, and a mark on the one that is on the device.\<close>

definition saves_label :: "clock \<Rightarrow> string \<Rightarrow> string \<Rightarrow> bool \<Rightarrow> string" where
  "saves_label ck date dev is_current =
    (let rel = (case Lodor_relTime ck date of Some rel \<Rightarrow> c_trunc 32 rel | None \<Rightarrow> date);
         label = c_trunc 256 (rel @ ''  '' @ (if dev \<noteq> [] then dev else ''-''))
     in if is_current then label @ c_trunc (256 - length label) ON_DEVICE_MARK else label)"

definition saves_row :: "clock \<Rightarrow> string \<Rightarrow> string \<Rightarrow> entry list option" where
  "saves_row ck rom_path raw =
    (let line = cut_line raw in
     if line = [] then Some []
     else case split_tab line of
       (_, None) \<Rightarrow> Some []
     | (ident, Some rest) \<Rightarrow>
         let (date, dev) = split_tab rest; dev = (case dev of None \<Rightarrow> [] | Some d \<Rightarrow> d);
             (dev, size) = split_tab dev; size = (case size of None \<Rightarrow> [] | Some s \<Rightarrow> s);
             (_, mark) = split_tab size; mark = (case mark of None \<Rightarrow> [] | Some m \<Rightarrow> m)
         in map_option (\<lambda>e. [e]) (list_entry rom_path (saves_label ck date dev (mark = ''CURRENT'')) ident))"

definition SAVES_FILE :: string where "SAVES_FILE = ''/tmp/lodor-saves.txt''"

definition Lodor_buildSaves :: "clock \<Rightarrow> fsys \<Rightarrow> string \<Rightarrow> entry list option" where
  "Lodor_buildSaves ck fs rom_path = map_option concat (those (map (saves_row ck rom_path) (tsv_lines fs SAVES_FILE 512)))"

text \<open>The label is taken apart again for the question before the restore: when and device.\<close>

definition split_label :: "string \<Rightarrow> string \<times> string" where
  "split_label l =
    (case strstr l ''  '' of
       None \<Rightarrow> (''a saved point'', ''another device'')
     | Some wn \<Rightarrow>
         let d = drop (wn + 2) l; n = (case strstr d ''  '' of Some e \<Rightarrow> e | None \<Rightarrow> length d)
         in (if 0 < wn \<and> wn < 64 then take wn l else ''a saved point'',
             if 0 < n \<and> n < 96 then take n d else ''another device''))"

section \<open>Feed and users\<close>

definition feed_row :: "string \<Rightarrow> entry list option" where
  "feed_row raw =
    (let line = cut_line raw; dash = '' '' @ [CHR 0xE2, CHR 0x80, CHR 0x94] @ '' ''; dot = '' '' @ [CHR 0xC2, CHR 0xB7] @ '' '' in
     if line = [] then Some []
     else case split_tab line of
       (_, None) \<Rightarrow> Some []
     | (gm, Some rest) \<Rightarrow>
         let (when, dev) = split_tab rest; dev = (case dev of None \<Rightarrow> [] | Some d \<Rightarrow> d) in
         if gm = [] then Some []
         else map_option (\<lambda>e. [e])
           (list_entry [] (c_trunc 384 (gm @ dash @ when @ (if dev \<noteq> [] then dot @ dev else []))) []))"

definition FEED_FILE :: string where "FEED_FILE = ''/tmp/lodor-feed.txt''"

definition Lodor_buildFeed :: "fsys \<Rightarrow> entry list option" where
  "Lodor_buildFeed fs = map_option concat (those (map feed_row (tsv_lines fs FEED_FILE 512)))"

definition flag_text :: "string \<Rightarrow> bool" where
  "flag_text s \<longleftrightarrow> s = ''0'' \<or> s = ''1''"

text \<open>Four fields: active, name, role, signed in.\<close>

definition profile_row :: "string \<Rightarrow> entry list option" where
  "profile_row raw =
    (case split_tab (cut_line raw) of
       (_, None) \<Rightarrow> Some []
     | (active, Some r) \<Rightarrow> (case split_tab r of
         (_, None) \<Rightarrow> Some []
       | (uname, Some r) \<Rightarrow> (case split_tab r of
           (_, None) \<Rightarrow> Some []
         | (role, Some signd) \<Rightarrow>
             if TAB \<in> set signd \<or> \<not> flag_text active \<or> \<not> flag_text signd \<or> uname = [] then Some []
             else map_option (\<lambda>e. [e])
               (list_entry []
                 (c_trunc 200 (uname @ (if active = ''1'' then '' (current)'' else if signd = ''1'' then [] else '' - sign in'')))
                 (c_trunc 160 (signd @ uname))))))"

definition USERS_FILE :: string where "USERS_FILE = ''/tmp/lodor-users.txt''"

definition read_profiles :: "fsys \<Rightarrow> entry list option" where
  "read_profiles fs = map_option concat (those (map profile_row (tsv_lines fs USERS_FILE 256)))"

section \<open>Game switcher\<close>

definition base_name :: "string \<Rightarrow> string" where
  "base_name path = (case strrchr path (CHR ''/'') of None \<Rightarrow> path | Some i \<Rightarrow> drop (Suc i) path)"

text \<open>Whether a file of the state folder is a picture of the game, whose name is \<open>canon\<close>.\<close>

definition is_shot :: "string \<Rightarrow> string \<Rightarrow> bool" where
  "is_shot canon nm \<longleftrightarrow> nm \<noteq> [] \<and> hd nm \<noteq> CHR ''.''
    \<and> (suffixMatch ''.bmp'' nm \<or> suffixMatch ''.png'' nm) \<and> (suffixMatch ''.png'' nm \<longrightarrow> suffixMatch ''.auto.png'' nm)
    \<and> strncmp (Lodor_stripMarker nm) canon (length canon) = 0
    \<and> take 1 (drop (length canon) (Lodor_stripMarker nm)) = ''.''"

definition newer_shot :: "(string \<Rightarrow> int option) \<Rightarrow> nat \<Rightarrow> string \<Rightarrow> string \<Rightarrow> dirent \<Rightarrow> string \<times> int \<Rightarrow> string \<times> int" where
  "newer_shot mtime outsz dir canon dp acc =
    (let full = dir @ ''/'' @ d_name dp in
     if \<not> is_shot canon (d_name dp) \<or> MAX_PATH \<le> length full then acc
     else case mtime full of None \<Rightarrow> acc
     | Some t \<Rightarrow> if snd acc \<le> t then (c_trunc outsz full, t) else acc)"

definition Lodor_newestShot :: "(string \<Rightarrow> int option) \<Rightarrow> fsys \<Rightarrow> string \<Rightarrow> nat \<Rightarrow> string option" where
  "Lodor_newestShot mtime fs sd_path outsz = do {
     tag \<leftarrow> Lodor_romTag sd_path;
     let canon = Lodor_stripMarker (base_name sd_path);
     let dir = c_trunc MAX_PATH (SHARED_USERDATA_PATH @ ''/.minui/'' @ tag);
     Some (if tag = [] \<or> canon = [] then []
       else case opendir fs dir of None \<Rightarrow> [] | Some dh \<Rightarrow> fst (fold (newer_shot mtime outsz dir canon) dh ([], 0)))
   }"

definition PLAYTIME_FILE :: string where
  "PLAYTIME_FILE = SHARED_USERDATA_PATH @ ''/.lodor/playtime/totals.tsv''"

definition played_text :: "int \<Rightarrow> string" where
  "played_text secs =
    (if secs < 60 then ''<1m played'' else if secs < 3600 then c_int (secs div 60) @ ''m played''
     else c_int (secs div 3600) @ ''h '' @ c_int (secs mod 3600 div 60) @ ''m played'')"

text \<open>The caption of one line of totals.tsv, None when the line is not about the game.\<close>

definition caption_line :: "string \<Rightarrow> nat \<Rightarrow> string \<Rightarrow> string option" where
  "caption_line canon outsz line =
    (case split_tab line of (_, None) \<Rightarrow> None
     | (_, Some r) \<Rightarrow> (case split_tab r of (_, None) \<Rightarrow> None
       | (t1, Some r) \<Rightarrow> (case split_tab r of (_, None) \<Rightarrow> None
         | (t2, Some t3) \<Rightarrow>
             if Lodor_stripMarker t1 \<noteq> canon then None
             else
               let out = c_trunc outsz (played_text (atoi t2)); plays = atoi t3
               in Some (if 0 < plays
                 then out @ c_trunc (outsz - length out)
                   ('' '' @ [CHR 0xC2, CHR 0xB7] @ '' '' @ c_int plays @ '' play'' @ (if plays = 1 then [] else ''s''))
                 else out))))"

definition Lodor_playtimeCaption :: "fsys \<Rightarrow> string \<Rightarrow> nat \<Rightarrow> string" where
  "Lodor_playtimeCaption fs sd_path outsz =
    (case find (\<lambda>c. c \<noteq> None) (map (caption_line (Lodor_stripMarker (base_name sd_path)) outsz) (tsv_lines fs PLAYTIME_FILE 1024)) of
       Some (Some caption) \<Rightarrow> caption
     | _ \<Rightarrow> [])"

definition LODOR_SWITCH_MAX :: nat where "LODOR_SWITCH_MAX = 8"

record switch_card =
  sw_path :: string
  sw_name :: string
  sw_shot :: string
  sw_cap :: string

definition switch_step ::
  "(string \<Rightarrow> int option) \<Rightarrow> fsys \<Rightarrow> recent \<Rightarrow> switch_card list \<Rightarrow> switch_card list option" where
  "switch_step mtime fs r cards =
    (let sd_path = c_trunc MAX_PATH (SDCARD_PATH @ r_path r) in
     if LODOR_SWITCH_MAX \<le> length cards \<or> \<not> r_available r \<or> suffixMatch ''.pak'' sd_path then Some cards
     else do {
       dn \<leftarrow> (case r_alias r of Some alias \<Rightarrow> Some alias | None \<Rightarrow> getDisplayName sd_path);
       shot \<leftarrow> Lodor_newestShot mtime fs sd_path MAX_PATH;
       Some (cards @ [\<lparr>sw_path = sd_path, sw_name = c_trunc 256 dn, sw_shot = shot,
         sw_cap = Lodor_playtimeCaption fs sd_path 96\<rparr>])
     })"

definition Lodor_openSwitcher :: "(string \<Rightarrow> int option) \<Rightarrow> fsys \<Rightarrow> recent list \<Rightarrow> switch_card list option" where
  "Lodor_openSwitcher mtime fs recents = fold_opt (switch_step mtime fs) recents []"

section \<open>Download queue\<close>

definition LODOR_QUEUE_FILE :: string where
  "LODOR_QUEUE_FILE = SDCARD_PATH @ ''/Tools/'' @ PLATFORM @ ''/Lodor.pak/download-queue.txt''"

definition queue_line :: "string \<Rightarrow> string" where
  "queue_line rompath =
    (if strncmp rompath SDCARD_PATH (length SDCARD_PATH) = 0
     then (case drop (length SDCARD_PATH) rompath of c # rel \<Rightarrow> if c = CHR ''/'' then rel else c # rel | [] \<Rightarrow> [])
     else rompath)"

definition Lodor_queueDownload :: "fsys \<Rightarrow> string \<Rightarrow> fsys" where
  "Lodor_queueDownload fs rompath =
    putFile fs LODOR_QUEUE_FILE
      ((case fs_files fs LODOR_QUEUE_FILE of None \<Rightarrow> [] | Some text \<Rightarrow> text) @ queue_line rompath @ [NL])"

definition Lodor_queueCount :: "fsys \<Rightarrow> nat" where
  "Lodor_queueCount fs = length (filter (\<lambda>line. dropWhile (\<lambda>c. c \<in> {CHR '' '', TAB, CR, NL}) line \<noteq> [])
     (tsv_lines fs LODOR_QUEUE_FILE 512))"

section \<open>The picker\<close>

lemma split_tab_simp [simp]: "TAB \<notin> set s \<Longrightarrow> split_tab s = (s, None)" "TAB \<notin> set a \<Longrightarrow> split_tab (a @ TAB # b) = (a, Some b)"
  by (simp_all add: split_tab_def strchr_append)

lemma list_entry_Some:
  "list_entry base label ident = Some e \<longleftrightarrow> (\<exists>b. Entry_new base ENTRY_ROM = Some b \<and> e = b\<lparr>e_name := label, e_path := ident\<rparr>)"
  by (auto simp: list_entry_def Option.bind_eq_Some_conv)

lemma list_entry_path: "list_entry base label ident = Some e \<Longrightarrow> e_path e = ident"
  by (auto simp: list_entry_Some)

lemma pakStem_launch:
  assumes "CHR ''/'' \<notin> set stem" "length stem < n" "length (root @ ''/'' @ stem @ ''.pak/launch.sh'') < 256"
  shows "Lodor_pakStem (root @ ''/'' @ stem @ ''.pak/launch.sh'') n = stem"
proof -
  let ?dir = "root @ CHR ''/'' # stem @ ''.pak''"
  have a: "strrchr (?dir @ CHR ''/'' # ''launch.sh'') (CHR ''/'') = Some (length ?dir)" by (rule strrchr_append) simp
  have b: "strrchr ?dir (CHR ''/'') = Some (length root)" using assms(1) by (intro strrchr_append) simp
  have c: "strrchr (stem @ CHR ''.'' # ''pak'') (CHR ''.'') = Some (length stem)" by (rule strrchr_append) simp
  have "root @ ''/'' @ stem @ ''.pak/launch.sh'' = ?dir @ CHR ''/'' # ''launch.sh''" by simp
  then have "c_trunc 256 (root @ ''/'' @ stem @ ''.pak/launch.sh'') = ?dir @ CHR ''/'' # ''launch.sh''"
    using assms(3) by (simp add: c_trunc_id)
  moreover have "take (length ?dir) (?dir @ CHR ''/'' # ''launch.sh'') = ?dir" by (metis append_eq_conv_conj)
  moreover have "drop (Suc (length root)) ?dir = stem @ ''.pak''" by simp
  ultimately show ?thesis
    using a b c assms(2) by (simp add: Lodor_pakStem_def c_trunc_id Let_def del: append_assoc append_Cons)
qed

text \<open>The stems that the pak folders offer for a tag, in the order they are met.\<close>

definition offered :: "fsys \<Rightarrow> string \<Rightarrow> string list" where
  "offered fs tag = concat (map (\<lambda>root. case opendir fs root of None \<Rightarrow> []
     | Some dh \<Rightarrow> List.map_filter (\<lambda>dp. variant_stem fs root (c_trunc MAX_PATH (tag @ ''-'')) (d_name dp)) dh) pak_roots)"

definition add_ids :: "string list \<Rightarrow> string list \<Rightarrow> string list" where
  "add_ids stems ids = fold (\<lambda>s ids. if s \<in> set ids then ids else ids @ [s]) stems ids"

lemma fold_opt_filter:
  "fold_opt (\<lambda>x acc. case f x of None \<Rightarrow> Some acc | Some y \<Rightarrow> g y acc) xs acc = fold_opt g (List.map_filter f xs) acc"
  by (induction xs arbitrary: acc) (auto simp: List.map_filter_simps cong: Option.bind_cong split: option.splits)

lemma buildEmuPick_offered:
  assumes "Lodor_romTag rom = Some tag" "Lodor_resolveEmu fs rom = Some (pak, core)"
  shows "Lodor_buildEmuPick fs rom = Option.bind (LODOR_EPADD rom (Lodor_pakStem pak 128) tag True ([], 0))
    (fold_opt (\<lambda>stem. LODOR_EPADD rom (Lodor_pakStem pak 128) stem False) (offered fs tag))"
proof -
  have rows: "fold_opt (\<lambda>root acc. case opendir fs root of None \<Rightarrow> Some acc
        | Some dh \<Rightarrow> fold_opt (\<lambda>dp acc. case variant_stem fs root pre (d_name dp) of None \<Rightarrow> Some acc
            | Some stem \<Rightarrow> g stem acc) dh acc) roots acc
      = fold_opt g (concat (map (\<lambda>root. case opendir fs root of None \<Rightarrow> []
          | Some dh \<Rightarrow> List.map_filter (\<lambda>dp. variant_stem fs root pre (d_name dp)) dh) roots)) acc" for pre g roots acc
    by (induction roots arbitrary: acc) (auto simp: fold_opt_append fold_opt_filter cong: Option.bind_cong split: option.splits)
  show ?thesis using assms by (simp add: Lodor_buildEmuPick_def offered_def Let_def rows [abs_def])
qed

text \<open>
  What is true of the rows: the default is the first, the ids are those offered, once each, and the
  row of the current emulator is the selected one.
\<close>

definition picks_ok :: "string \<Rightarrow> entry list \<times> nat \<Rightarrow> bool" where
  "picks_ok cur acc \<longleftrightarrow> (case acc of (items, sel) \<Rightarrow> items \<noteq> [] \<and> e_path (hd items) = [] \<and> sel < length items
     \<and> e_path (items ! sel) = (if cur \<in> set (map e_path items) then cur else []))"

lemma EPADD_variant:
  assumes "picks_ok cur (items, sel)" "stem \<noteq> []" "cur \<noteq> []" "Entry_new rom ENTRY_ROM = Some b"
  shows "\<exists>items' sel'. LODOR_EPADD rom cur stem False (items, sel) = Some (items', sel') \<and> picks_ok cur (items', sel')
    \<and> map e_path items' = (if stem \<in> set (map e_path items) then map e_path items else map e_path items @ [stem])"
proof (cases "stem \<in> set (map e_path items)")
  case True
  then show ?thesis using assms(1) by (auto simp: LODOR_EPADD_def list_ex_iff)
next
  case False
  then have "\<not> list_ex (\<lambda>ex. e_path ex = stem) items" by (auto simp: list_ex_iff)
  then show ?thesis using False assms
    by (auto simp: LODOR_EPADD_def list_entry_def picks_ok_def nth_append hd_append split: if_splits)
qed

lemma EPADD_variants:
  assumes "picks_ok cur acc" "[] \<notin> set stems" "cur \<noteq> []" "Entry_new rom ENTRY_ROM = Some b"
  shows "\<exists>acc'. fold_opt (\<lambda>stem. LODOR_EPADD rom cur stem False) stems acc = Some acc' \<and> picks_ok cur acc'
    \<and> map e_path (fst acc') = add_ids stems (map e_path (fst acc))"
  using assms(1,2)
proof (induction stems arbitrary: acc)
  case Nil
  then show ?case by (simp add: add_ids_def)
next
  case (Cons stem stems)
  obtain items sel where acc: "acc = (items, sel)" by (cases acc)
  obtain items' sel' where step: "LODOR_EPADD rom cur stem False (items, sel) = Some (items', sel')" "picks_ok cur (items', sel')"
    "map e_path items' = (if stem \<in> set (map e_path items) then map e_path items else map e_path items @ [stem])"
    using EPADD_variant [OF _ _ assms(3,4), of items sel stem] Cons.prems acc by auto
  have "[] \<notin> set stems" using Cons.prems by simp
  from Cons.IH [OF step(2) this] show ?case using step acc by (auto simp: add_ids_def)
qed

lemma EPADD_default:
  "Entry_new rom ENTRY_ROM = Some b \<Longrightarrow> cur \<noteq> [] \<Longrightarrow>
   \<exists>e. LODOR_EPADD rom cur tag True ([], 0) = Some ([e], 0) \<and> e_path e = [] \<and> picks_ok cur ([e], 0)"
  by (auto simp: LODOR_EPADD_def list_entry_def picks_ok_def)

lemma offered_ne: "[] \<notin> set (offered fs tag)"
  by (auto simp: offered_def List.map_filter_def variant_stem_def split: option.splits if_splits)

lemma buildEmuPick_ok:
  assumes "Lodor_romTag rom = Some tag" "Lodor_resolveEmu fs rom = Some (pak, core)" "Entry_new rom ENTRY_ROM = Some b"
    and "Lodor_pakStem pak 128 \<noteq> []"
  shows "\<exists>items sel. Lodor_buildEmuPick fs rom = Some (items, sel) \<and> picks_ok (Lodor_pakStem pak 128) (items, sel)
    \<and> map e_path items = add_ids (offered fs tag) [[]]"
  using EPADD_default [OF assms(3,4), of tag] EPADD_variants [OF _ offered_ne assms(4,3)]
  by (fastforce simp: buildEmuPick_offered [OF assms(1,2)])

lemma set_add_ids: "set (add_ids stems ids) = set stems \<union> set ids"
  unfolding add_ids_def by (induction stems arbitrary: ids) auto

text \<open>A row that is offered names a pak that Lodor_findPak finds.\<close>

lemma offered_found:
  assumes "p \<in> set (offered fs tag)"
  shows "fst (Lodor_findPak fs p)"
proof -
  obtain root and dp :: dirent where p: "root \<in> set pak_roots" "variant_stem fs root (c_trunc MAX_PATH (tag @ ''-'')) (d_name dp) = Some p"
    using assms by (auto simp: offered_def List.map_filter_def split: option.splits)
  then obtain sl where sl: "strrchr (d_name dp) (CHR ''.'') = Some sl" "drop sl (d_name dp) = ''.pak''" "p = take sl (d_name dp)"
    "exists fs (c_trunc 256 (root @ ''/'' @ d_name dp @ ''/launch.sh''))"
    by (auto simp: variant_stem_def split: if_splits option.splits)
  then have "d_name dp = p @ ''.pak''" by (metis append_take_drop_id)
  then show ?thesis using sl(4) p(1) by (auto simp: Lodor_findPak_def Let_def pak_roots_def)
qed

text \<open>Writing the sidecar leaves the pak folders as they are.\<close>

lemma launch_not_sidecar:
  assumes "q = c_trunc 256 (root @ x)" "root \<in> set pak_roots" "prefix (SHARED_USERDATA_PATH @ ''/'') sc"
  shows "q \<noteq> sc"
proof -
  have root: "root ! 13 \<noteq> CHR ''u''" "13 < length root" using assms(2) by (auto simp: pak_roots_def path_defs)
  then have "q ! 13 = root ! 13" using assms(1) by (simp add: c_trunc_def nth_append)
  moreover have "sc ! 13 = CHR ''u''" using assms(3) by (auto simp: prefix_def path_defs)
  ultimately show ?thesis using root(1) by metis
qed

lemma offered_frame:
  assumes "fs_dirs fs' = fs_dirs fs"
    and "\<forall>root \<in> set pak_roots. \<forall>x. fs_files fs' (c_trunc 256 (root @ x)) = fs_files fs (c_trunc 256 (root @ x))"
  shows "offered fs' tag = offered fs tag" "Lodor_findPak fs' p = Lodor_findPak fs p"
proof -
  have ex: "root \<in> set pak_roots \<Longrightarrow> exists fs' (c_trunc 256 (root @ x)) = exists fs (c_trunc 256 (root @ x))" for root x
    using assms by (simp add: exists_def opendir_def)
  show "Lodor_findPak fs' p = Lodor_findPak fs p"
    using ex [of "SDCARD_PATH @ ''/Emus/'' @ PLATFORM" "''/'' @ p @ ''.pak/launch.sh''"]
      ex [of "PAKS_PATH @ ''/Emus''" "''/'' @ p @ ''.pak/launch.sh''"]
    by (simp add: Lodor_findPak_def Let_def pak_roots_def)
  have "root \<in> set pak_roots \<Longrightarrow> variant_stem fs' root pre nm = variant_stem fs root pre nm" for root pre nm
    using ex [of root "''/'' @ nm @ ''/launch.sh''"] by (simp add: variant_stem_def split: option.splits)
  then show "offered fs' tag = offered fs tag"
    using assms(1) by (auto simp: offered_def opendir_def intro!: arg_cong [of _ _ concat] map_cong split: option.splits)
qed

lemma sidecar_path_prefix:
  "Lodor_emuSidecarPath rom n = Some sc \<Longrightarrow> sc \<noteq> [] \<Longrightarrow> length sc + 1 < n \<Longrightarrow> prefix (SHARED_USERDATA_PATH @ ''/'') sc"
  by (auto simp: Lodor_emuSidecarPath_def Option.bind_eq_Some_conv c_trunc_def prefix_def split: option.splits if_splits)

text \<open>The state after writing or deleting a sidecar: only it and its temporary file may differ.\<close>

lemma sidecar_write_frame:
  assumes "Lodor_writeEmuSidecar wo fs rom pick = Some fs'" "Lodor_emuSidecarPath rom MAX_PATH = Some sc"
  shows "fs_dirs fs' = fs_dirs fs" "q \<noteq> sc \<Longrightarrow> q \<noteq> sc @ ''.tmp'' \<Longrightarrow> fs_files fs' q = fs_files fs q"
  using assms atomicWrite_frame
  by (auto simp: Lodor_writeEmuSidecar_def Let_def unlink_def Option.bind_eq_Some_conv split: if_splits option.splits list.splits)

lemma offered_after_write:
  assumes "Lodor_writeEmuSidecar wo fs rom pick = Some fs'" "Lodor_emuSidecarPath rom MAX_PATH = Some sc"
    and "sc \<noteq> []" "length sc + 4 < MAX_PATH"
  shows "offered fs' tag = offered fs tag" "Lodor_findPak fs' p = Lodor_findPak fs p"
proof -
  have pre: "prefix (SHARED_USERDATA_PATH @ ''/'') sc" "prefix (SHARED_USERDATA_PATH @ ''/'') (sc @ ''.tmp'')"
    using sidecar_path_prefix [OF assms(2,3)] assms(4) by auto
  have "\<forall>root \<in> set pak_roots. \<forall>x. fs_files fs' (c_trunc 256 (root @ x)) = fs_files fs (c_trunc 256 (root @ x))"
    using sidecar_write_frame(2) [OF assms(1,2)] launch_not_sidecar [OF refl] pre by metis
  from offered_frame [OF sidecar_write_frame(1) [OF assms(1,2)] this]
  show "offered fs' tag = offered fs tag" "Lodor_findPak fs' p = Lodor_findPak fs p" by blast+
qed

lemma findPak_stem:
  assumes "Lodor_validStem p"
  shows "Lodor_pakStem (snd (Lodor_findPak fs p)) 128 = p"
proof -
  have p: "CHR ''/'' \<notin> set p" "length p \<le> 120" using assms by (auto simp: validStem_iff)
  have "Lodor_pakStem (c_trunc 256 (root @ ''/'' @ p @ ''.pak/launch.sh'')) 128 = p" if "root \<in> set pak_roots" for root
  proof -
    have "length (root @ ''/'' @ p @ ''.pak/launch.sh'') < 256" using that p by (auto simp: pak_roots_def path_defs)
    then show ?thesis using pakStem_launch [of p 128 root] p by (simp add: c_trunc_id)
  qed
  from this [of "SDCARD_PATH @ ''/Emus/'' @ PLATFORM"] this [of "PAKS_PATH @ ''/Emus''"]
  show ?thesis by (simp add: Lodor_findPak_def Let_def pak_roots_def)
qed

text \<open>What a game resolves to: its own pak when the sidecar names one that is there, else the default.\<close>

lemma getEmuPath_stem:
  assumes "getEmuPath fs tag = Some pak" "CHR ''/'' \<notin> set tag" "length tag \<le> 120"
  shows "Lodor_pakStem pak 128 = tag"
proof -
  obtain root where "pak = root @ ''/'' @ tag @ ''.pak/launch.sh''" "length pak < 256"
    using assms(1) by (auto simp: getEmuPath_def split: if_splits)
  then show ?thesis using pakStem_launch [of tag 128 root] assms(2,3) by simp
qed

lemma resolveEmu_stem:
  assumes "Lodor_resolveEmu fs rom = Some (pak, core)" "Lodor_romTag rom = Some tag" "CHR ''/'' \<notin> set tag" "tag \<noteq> []" "length tag \<le> 120"
  shows "Lodor_pakStem pak 128 \<noteq> []"
proof -
  obtain r pn c where read: "Lodor_readEmuSidecar fs rom 128 256 = Some (r, pn, c)"
    using assms(1,2) by (auto simp: Lodor_resolveEmu_def Option.bind_eq_Some_conv)
  then have "pn = [] \<or> Lodor_validStem pn" using readEmuSidecar_valid [OF read] by simp
  moreover have "pak = snd (Lodor_findPak fs pn) \<and> pn \<noteq> [] \<or> getEmuPath fs tag = Some pak"
    using assms(1,2) read by (auto simp: Lodor_resolveEmu_def Let_def Option.bind_eq_Some_conv split: if_splits)
  ultimately show ?thesis
    using getEmuPath_stem [OF _ assms(3,5)] findPak_stem [of pn fs] assms(4) by (cases "pn = []") auto
qed

lemma prefixMatch_length:
  assumes "prefixMatch pre str" "nul_free pre"
  shows "length pre \<le> length str"
proof -
  have "strncasecmp pre str (length pre) = 0 \<Longrightarrow> nul_free pre \<Longrightarrow> length pre \<le> length str"
  proof (induction pre arbitrary: str)
    case Nil
    then show ?case by simp
  next
    case (Cons a pre)
    then show ?case by (cases str) (auto dest: byte_tolower_pos split: if_splits)
  qed
  then show ?thesis using assms by (simp add: prefixMatch_def)
qed

lemma offered_longer:
  assumes "p \<in> set (offered fs tag)" "length tag \<le> 120" "nul_free tag"
  shows "length tag < length p"
proof -
  have "c_trunc MAX_PATH (tag @ ''-'') = tag @ ''-''" using assms(2) by (simp add: c_trunc_id MAX_PATH_def)
  then have "prefixMatch (tag @ ''-'') p" using assms(1)
    by (auto simp: offered_def List.map_filter_def variant_stem_def split: option.splits if_splits)
  from prefixMatch_length [OF this] show ?thesis using assms(3) by (simp add: NUL_def)
qed

lemma default_resolves:
  assumes "Lodor_emuSidecarPath rom MAX_PATH = Some sc" "fs_files fs sc = None" "Lodor_romTag rom = Some tag" "length tag \<le> 120"
  shows "\<exists>pak. Lodor_resolveEmu fs rom = Some (pak, []) \<and> getEmuPath fs tag = Some pak"
  using assms by (auto simp: Lodor_resolveEmu_def Lodor_readEmuSidecar_def getEmuPath_def path_defs)

lemma findPak_exists: "fst (Lodor_findPak fs p) \<Longrightarrow> exists fs (snd (Lodor_findPak fs p))"
  by (auto simp: Lodor_findPak_def Let_def split: if_splits)

section \<open>Properties\<close>

text \<open>
  C35. The emulator picker does what it shows. Whichever row is picked, after the choice has been
  written the game resolves to the pak of that row, which is on the card, or for the first row to the
  default pak of its folder; and the picker, opened again, has the same rows with that one selected.
  For a row other than the default its name must be one the sidecar's reader accepts.
\<close>

theorem picked_emulator_used:
  assumes "Lodor_buildEmuPick fs rom = Some (items, sel)" "i < length items" "p = e_path (items ! i)"
    and "p \<noteq> [] \<Longrightarrow> Lodor_validStem p" "p \<noteq> [] \<Longrightarrow> wo_success wo"
    and "Lodor_emuSidecarPath rom MAX_PATH = Some sc" "sc \<noteq> []" "length sc + 4 < MAX_PATH"
    and "Lodor_romTag rom = Some tag" "CHR ''/'' \<notin> set tag" "tag \<noteq> []" "length tag \<le> 120"
    and "nul_free tag"
  shows "\<exists>fs' pak core items' sel'. Lodor_writeEmuSidecar wo fs rom (if p = [] then None else Some p) = Some fs'
    \<and> Lodor_resolveEmu fs' rom = Some (pak, core)
    \<and> (if p = [] then getEmuPath fs' tag = Some pak \<and> Lodor_pakStem pak 128 = tag
       else exists fs' pak \<and> Lodor_pakStem pak 128 = p)
    \<and> Lodor_buildEmuPick fs' rom = Some (items', sel') \<and> map e_path items' = map e_path items
    \<and> e_path (items' ! sel') = p"
proof -
  note short = assms(10-12) and path = assms(6-8)
  obtain pak0 core0 b where fs: "Lodor_resolveEmu fs rom = Some (pak0, core0)" "Entry_new rom ENTRY_ROM = Some b"
    using assms(1,9) by (auto simp: Lodor_buildEmuPick_def LODOR_EPADD_def list_entry_def Let_def Option.bind_eq_Some_conv)
  have ids: "map e_path items = add_ids (offered fs tag) [[]]"
    using buildEmuPick_ok [OF assms(9) fs resolveEmu_stem [OF fs(1) assms(9) short]] assms(1) by auto
  obtain fs' pak core where new: "Lodor_writeEmuSidecar wo fs rom (if p = [] then None else Some p) = Some fs'"
    "Lodor_resolveEmu fs' rom = Some (pak, core)"
    "if p = [] then getEmuPath fs' tag = Some pak \<and> Lodor_pakStem pak 128 = tag else exists fs' pak \<and> Lodor_pakStem pak 128 = p"
    "p \<in> {[]} \<union> set (offered fs tag)"
  proof (cases "p = []")
    case True
    have "Lodor_writeEmuSidecar wo fs rom None = Some (unlink fs sc)" using path(1,2) by (simp add: Lodor_writeEmuSidecar_def)
    moreover have "fs_files (unlink fs sc) sc = None" by (simp add: unlink_def)
    moreover from default_resolves [OF path(1) this assms(9) short(3)] obtain pak where
      "Lodor_resolveEmu (unlink fs sc) rom = Some (pak, [])" "getEmuPath (unlink fs sc) tag = Some pak" by blast
    ultimately show ?thesis
      using that [of "unlink fs sc" pak "[]"] getEmuPath_stem [of "unlink fs sc" tag pak] short True by simp
  next
    case False
    have "p \<in> set (map e_path items)" using assms(2,3) by simp
    then have p: "p \<in> set (offered fs tag)" using ids False by (simp add: set_add_ids)
    obtain r old c where "Lodor_readEmuSidecar fs rom 128 256 = Some (r, old, c)"
      using fs(1) by (auto simp: Lodor_resolveEmu_def Option.bind_eq_Some_conv)
    from sidecar_roundtrip [OF assms(5) [OF False] assms(4) [OF False] path this] obtain fs' where
      w: "Lodor_writeEmuSidecar wo fs rom (Some p) = Some fs'" "Lodor_readEmuSidecar fs' rom 128 256 = Some (True, p, c)" by blast
    have found: "Lodor_findPak fs' p = Lodor_findPak fs p" using offered_after_write [OF w(1) path] by simp
    then have "Lodor_resolveEmu fs' rom = Some (snd (Lodor_findPak fs' p), c)"
      using w(2) assms(9) False offered_found [OF p] by (simp add: Lodor_resolveEmu_def)
    then show ?thesis
      using that [of fs'] w(1) p False found offered_found [OF p] findPak_exists [of fs' p] findPak_stem [OF assms(4) [OF False], of fs'] by simp
  qed
  obtain items' sel' where again: "Lodor_buildEmuPick fs' rom = Some (items', sel')"
    "picks_ok (Lodor_pakStem pak 128) (items', sel')" "map e_path items' = add_ids (offered fs' tag) [[]]"
    using buildEmuPick_ok [OF assms(9) new(2) fs(2) resolveEmu_stem [OF new(2) assms(9) short]] by blast
  have same: "map e_path items' = map e_path items" using again(3) ids offered_after_write [OF new(1) path] by simp
  have "tag \<notin> set (map e_path items')" using ids same offered_longer [of tag fs tag] short assms(13)
    by (auto simp del: set_map simp: set_add_ids)
  moreover have "p \<in> set (map e_path items')" using ids same new(4) by (auto simp del: set_map simp: set_add_ids)
  moreover have "Lodor_pakStem pak 128 = (if p = [] then tag else p)" using new(3) by (auto split: if_splits)
  moreover have "e_path (items' ! sel') = (if Lodor_pakStem pak 128 \<in> set (map e_path items') then Lodor_pakStem pak 128 else [])"
    using again(2) by (simp only: picks_ok_def case_prod_conv)
  ultimately have "e_path (items' ! sel') = p" by (simp del: set_map split: if_splits)
  then show ?thesis using new(1-3) again(1) same by blast
qed


definition pick_card :: fsys where
  "pick_card = card_with [(PAKS_PATH @ ''/Emus/FC.pak/launch.sh'', ''''), (PAKS_PATH @ ''/Emus/FC-nes.pak/launch.sh'', '''')]
     \<lparr>fs_dirs := [PAKS_PATH @ ''/Emus'' \<mapsto> [\<lparr>d_name = ''FC.pak'', d_isdir = True\<rparr>, \<lparr>d_name = ''FC-nes.pak'', d_isdir = True\<rparr>]]\<rparr>"

definition pick_rom :: string where
  "pick_rom = ''/mnt/SDCARD/Roms/Nintendo (FC)/a.nes''"

lemma pick_card_rows: "map_option (\<lambda>(items, sel). (map e_path items, sel)) (Lodor_buildEmuPick pick_card pick_rom) = Some ([[], ''FC-nes''], 0)"
  by code_simp

theorem picked_emulator_used_witness:
  "\<exists>fs' pak core. Lodor_writeEmuSidecar all_ok pick_card pick_rom (Some ''FC-nes'') = Some fs'
    \<and> Lodor_resolveEmu fs' pick_rom = Some (pak, core) \<and> exists fs' pak \<and> Lodor_pakStem pak 128 = ''FC-nes''"
proof -
  obtain items sel where b: "Lodor_buildEmuPick pick_card pick_rom = Some (items, sel)" "map e_path items = [[], ''FC-nes'']"
    using pick_card_rows by auto
  then have i: "1 < length items" "e_path (items ! 1) = ''FC-nes''" by auto
  have "Lodor_romTag pick_rom = Some ''FC''" by code_simp
  moreover have "Lodor_emuSidecarPath pick_rom MAX_PATH = Some (SHARED_USERDATA_PATH @ ''/.minui/FC/a.nes.emu.txt'')" by code_simp
  moreover have "Lodor_validStem ''FC-nes''" "wo_success all_ok" by code_simp+
  ultimately show ?thesis
    using picked_emulator_used [OF b(1) i(1) i(2) [symmetric], of all_ok "SHARED_USERDATA_PATH @ ''/.minui/FC/a.nes.emu.txt''" "''FC''"]
    by (force simp: SHARED_USERDATA_PATH_def SDCARD_PATH_def MAX_PATH_def NUL_def)
qed


section \<open>The timeline names the save that is restored\<close>

text \<open>A text that two blanks in a row can follow, and be found there.\<close>

definition plain :: "string \<Rightarrow> bool" where
  "plain s \<longleftrightarrow> strstr (s @ '' '') ''  '' = None"

lemma plain_simps:
  "plain []" "plain (x # xs) \<longleftrightarrow> plain xs \<and> \<not> (x = CHR '' '' \<and> (xs = [] \<or> hd xs = CHR '' ''))"
  by (simp add: plain_def) (cases xs; auto simp: plain_def)

lemma plain_no_blank: "CHR '' '' \<notin> set a \<Longrightarrow> plain (a @ b) = plain b"
  by (induction a) (auto simp: plain_simps)

lemma strstr_plain: "plain a \<Longrightarrow> strstr (a @ ''  '' @ b) ''  '' = Some (length a)"
proof (induction a)
  case Nil
  then show ?case by simp
next
  case (Cons x xs)
  then have "\<not> prefix ''  '' (x # xs @ ''  '' @ b)" by (cases xs) (auto simp: plain_simps)
  then show ?case using Cons by (simp add: plain_simps)
qed

lemma strstr_plain_end: "plain a \<Longrightarrow> strstr a ''  '' = None"
proof (induction a)
  case Nil
  then show ?case by simp
next
  case (Cons x xs)
  then have "\<not> prefix ''  '' (x # xs)" by (cases xs) (auto simp: plain_simps)
  then show ?case using Cons by (simp add: plain_simps)
qed

lemma plain_digits: "plain (c_digits n @ s) = plain s"
proof (rule plain_no_blank)
  have "\<not> c_isdigit (CHR '' '')" by code_simp
  then show "CHR '' '' \<notin> set (c_digits n)" using c_digits_isdigit [of n] by metis
qed

lemma age_text: "0 \<le> k \<Longrightarrow> k < 100 \<Longrightarrow> plain s \<Longrightarrow> length s < 8 \<Longrightarrow> plain (c_int k @ s) \<and> length (c_int k @ s) < 32"
  using length_c_digits [of 2 "nat k"] by (simp add: c_int_def plain_digits nat_less_iff)

lemma relTime_plain:
  assumes "Lodor_relTime ck stamp = Some rel"
  shows "plain rel \<and> length rel < 32 \<and> rel \<noteq> []"
proof -
  let ?d = "max 0 (ck_now ck - ck_mktime ck (scan_fmt ''%d-%d-%d %d:%d'' stamp))"
  have fixed: "plain ''just now''" "plain ''yesterday''" "plain ''m ago''" "plain ''h ago''" "plain ''d ago''" "plain ''w ago''"
    by code_simp+
  have d: "0 \<le> ?d" by simp
  have age: "plain (c_int (?d div u) @ s) \<and> length (c_int (?d div u) @ s) < 32 \<and> c_int (?d div u) @ s \<noteq> []"
    if "?d < 100 * u" "0 < u" "s \<in> {''m ago'', ''h ago'', ''d ago'', ''w ago''}" for u s
  proof -
    have "?d div u * u \<le> ?d" using pos_mod_sign [OF that(2), of ?d] by (simp add: minus_mod_eq_div_mult [symmetric])
    then have "?d div u * u < 100 * u" using that(1) by linarith
    then have "?d div u < 100" using that(2) by (simp only: mult_less_cancel_right)
    moreover have "0 \<le> ?d div u" using that(2) d by (simp only: pos_imp_zdiv_nonneg_iff)
    moreover have "plain s \<and> length s < 8 \<and> s \<noteq> []" using that(3) fixed by auto
    ultimately show ?thesis using age_text [of "?d div u" s] by simp
  qed
  have "rel = ''just now'' \<or> rel = ''yesterday'' \<or> (\<exists>u s. ?d < 100 * u \<and> 0 < u \<and> s \<in> {''m ago'', ''h ago'', ''d ago'', ''w ago''}
    \<and> rel = c_int (?d div u) @ s)"
  proof -
    have "rel = ''just now'' \<or> rel = ''yesterday'' \<or> ?d < 3600 \<and> rel = c_int (?d div 60) @ ''m ago''
      \<or> ?d < 86400 \<and> rel = c_int (?d div 3600) @ ''h ago'' \<or> ?d < 7 * 86400 \<and> rel = c_int (?d div 86400) @ ''d ago''
      \<or> ?d < 28 * 86400 \<and> rel = c_int (?d div (7 * 86400)) @ ''w ago''"
      using assms by (simp only: Lodor_relTime_def Let_def split: if_splits option.splits) simp_all
    then show ?thesis
      by (elim disjE) (simp, simp,
        (rule disjI2, rule disjI2, rule exI [of _ 60], rule exI [of _ "''m ago''"], simp),
        (rule disjI2, rule disjI2, rule exI [of _ 3600], rule exI [of _ "''h ago''"], simp),
        (rule disjI2, rule disjI2, rule exI [of _ 86400], rule exI [of _ "''d ago''"], simp),
        (rule disjI2, rule disjI2, rule exI [of _ "7 * 86400"], rule exI [of _ "''w ago''"], simp))
  qed
  then show ?thesis
  proof (elim disjE exE conjE)
    fix u s assume "?d < 100 * u" "0 < u" "s \<in> {''m ago'', ''h ago'', ''d ago'', ''w ago''}" "rel = c_int (?d div u) @ s"
    then show ?thesis using age by blast
  qed (use fixed in simp_all)
qed

text \<open>What a row shows for the time: the age, or the date when there is none.\<close>

definition when_shown :: "clock \<Rightarrow> string \<Rightarrow> string" where
  "when_shown ck date = (case Lodor_relTime ck date of Some rel \<Rightarrow> rel | None \<Rightarrow> date)"

lemma when_shown_ok: "plain date \<Longrightarrow> date \<noteq> [] \<Longrightarrow> length date < 64 \<Longrightarrow> plain (when_shown ck date) \<and> when_shown ck date \<noteq> [] \<and> length (when_shown ck date) < 64"
  using relTime_plain [of ck date] by (auto simp: when_shown_def split: option.splits)

lemma split_saves_label:
  assumes "plain date" "date \<noteq> []" "length date < 64" "plain dev" "dev \<noteq> []" "length dev < 96"
  shows "split_label (saves_label ck date dev cur) = (when_shown ck date, dev)"
proof -
  let ?w = "when_shown ck date"
  note w = when_shown_ok [OF assms(1-3), of ck]
  have shown: "(case Lodor_relTime ck date of Some rel \<Rightarrow> c_trunc 32 rel | None \<Rightarrow> date) = ?w"
    using relTime_plain [of ck date] by (auto simp: when_shown_def c_trunc_id split: option.splits)
  have label: "c_trunc 256 (?w @ ''  '' @ dev) = ?w @ ''  '' @ dev" using w assms(6) by (simp add: c_trunc_id)
  have mark: "c_trunc (256 - length (?w @ ''  '' @ dev)) ON_DEVICE_MARK = ON_DEVICE_MARK"
    using w assms(6) by (intro c_trunc_id) (auto simp: ON_DEVICE_MARK_def)
  have eq: "saves_label ck date dev cur = ?w @ ''  '' @ dev @ (if cur then ON_DEVICE_MARK else [])"
    using assms(5) label mark by (simp add: saves_label_def shown)
  have "strstr (dev @ (if cur then ON_DEVICE_MARK else [])) ''  '' = (if cur then Some (length dev) else None)"
    using strstr_plain [OF assms(4)] strstr_plain_end [OF assms(4)] by (simp add: ON_DEVICE_MARK_def)
  then show ?thesis
    using strstr_plain [of ?w "dev @ (if cur then ON_DEVICE_MARK else [])"] w assms(5,6)
    by (simp add: split_label_def eq)
qed


text \<open>The lines of the engine's answer to --list-saves: id, date, device, size, and a mark on the current one.\<close>

record saved_point =
  sp_id :: string
  sp_date :: string
  sp_dev :: string
  sp_size :: string
  sp_current :: bool

definition saves_line :: "saved_point \<Rightarrow> string" where
  "saves_line p = sp_id p @ TAB # sp_date p @ TAB # sp_dev p @ TAB # sp_size p @ (if sp_current p then TAB # ''CURRENT'' else [])"

definition field_ok :: "string \<Rightarrow> bool" where
  "field_ok s \<longleftrightarrow> s \<noteq> [] \<and> TAB \<notin> set s \<and> NL \<notin> set s \<and> CR \<notin> set s \<and> nul_free s"

definition point_ok :: "saved_point \<Rightarrow> bool" where
  "point_ok p \<longleftrightarrow> field_ok (sp_id p) \<and> field_ok (sp_date p) \<and> plain (sp_date p) \<and> length (sp_date p) < 64
     \<and> field_ok (sp_dev p) \<and> plain (sp_dev p) \<and> length (sp_dev p) < 96 \<and> field_ok (sp_size p) \<and> length (saves_line p) < 511"

lemma saves_line_ok:
  assumes "point_ok p"
  shows "NL \<notin> set (saves_line p)" "CR \<notin> set (saves_line p)" "nul_free (saves_line p)" "length (saves_line p) + 1 < 512"
  using assms by (auto simp: point_ok_def field_ok_def saves_line_def NL_def CR_def TAB_def NUL_def)

lemma saves_row_entry:
  assumes "point_ok p"
  shows "saves_row ck rom (saves_line p @ [NL])
    = map_option (\<lambda>e. [e]) (list_entry rom (saves_label ck (sp_date p) (sp_dev p) (sp_current p)) (sp_id p))"
proof -
  have "cut_line (saves_line p @ [NL]) = saves_line p"
    using saves_line_ok [OF assms(1)] unfolding cut_line_def by (intro takeWhile_tail [THEN trans]) (auto simp: takeWhile_eq_all_conv)
  moreover have "saves_line p \<noteq> []" "TAB \<notin> set ''CURRENT''" by (simp add: saves_line_def) (simp add: TAB_def)
  ultimately show ?thesis
    using assms by (auto simp: saves_row_def Let_def saves_line_def point_ok_def field_ok_def)
qed

lemma saves_row_None: "point_ok p \<Longrightarrow> Entry_new rom ENTRY_ROM = None \<Longrightarrow> saves_row ck rom (saves_line p @ [NL]) = None"
  by (simp add: saves_row_entry list_entry_def)

lemma saves_row_line: "point_ok p \<Longrightarrow> Entry_new rom ENTRY_ROM = Some b \<Longrightarrow> saves_row ck rom (saves_line p @ [NL])
    = Some [b\<lparr>e_name := saves_label ck (sp_date p) (sp_dev p) (sp_current p), e_path := sp_id p\<rparr>]"
  by (simp add: saves_row_entry list_entry_def)

text \<open>
  For an answer of the engine with one line per save, the list has one row per save, in order; the id
  kept behind a row is that save's, and the label, taken apart for the question, gives back the time
  shown (the age, or the date) and the device, whether or not the row is marked as the one on the device.
\<close>

lemma timeline_rows:
  assumes "fs_files fs SAVES_FILE = Some (concat (map (\<lambda>l. l @ [NL]) (map saves_line ps)))" "\<forall>p \<in> set ps. point_ok p"
    and "Lodor_buildSaves ck fs rom = Some items"
  shows "map (\<lambda>e. (e_path e, split_label (e_name e))) items = map (\<lambda>p. (sp_id p, when_shown ck (sp_date p), sp_dev p)) ps"
proof (cases "ps = []")
  case True
  then show ?thesis using assms by (auto simp: Lodor_buildSaves_def tsv_lines_def)
next
  case False
  have lines: "tsv_lines fs SAVES_FILE 512 = map (\<lambda>l. l @ [NL]) (map saves_line ps)"
    using assms(1) fgets_rows [of "map saves_line ps" 512] saves_line_ok assms(2) by (simp add: tsv_lines_def)
  obtain b where b: "Entry_new rom ENTRY_ROM = Some b"
  proof (cases "Entry_new rom ENTRY_ROM")
    case None
    have p: "point_ok (hd ps)" using assms(2) False by simp
    then have "saves_row ck rom (saves_line (hd ps) @ [NL]) = None"
      using saves_row_None [OF p None] by blast
    then have "those (map (saves_row ck rom) (map (\<lambda>l. l @ [NL]) (map saves_line ps))) = None" using False by (cases ps) auto
    then show ?thesis using assms(3) lines by (simp add: Lodor_buildSaves_def del: map_map)
  qed blast
  let ?e = "\<lambda>p. b\<lparr>e_name := saves_label ck (sp_date p) (sp_dev p) (sp_current p), e_path := sp_id p\<rparr>"
  have "map (saves_row ck rom) (tsv_lines fs SAVES_FILE 512) = map (\<lambda>p. Some [?e p]) ps"
    using saves_row_line [OF _ b] assms(2) lines by simp
  moreover have "those (map (\<lambda>p. Some [?e p]) qs) = Some (map (\<lambda>p. [?e p]) qs)" for qs :: "saved_point list" by (induction qs) simp_all
  moreover have "concat (map (\<lambda>p. [?e p]) qs) = map ?e qs" for qs :: "saved_point list" by (induction qs) simp_all
  ultimately have "items = map ?e ps" using assms(3) by (simp only: Lodor_buildSaves_def option.map option.inject)
  moreover have "split_label (e_name (?e p)) = (when_shown ck (sp_date p), sp_dev p)" if "p \<in> set ps" for p
    using split_saves_label [of "sp_date p" "sp_dev p"] assms(2) that by (auto simp: point_ok_def field_ok_def)
  ultimately show ?thesis by simp
qed

definition demo_clock :: clock where
  "demo_clock = \<lparr>ck_now = 10000, ck_year = Some 2026, ck_mktime = (\<lambda>_. 2500)\<rparr>"

definition demo_points :: "saved_point list" where
  "demo_points = [\<lparr>sp_id = ''12'', sp_date = ''2026-01-02 10:30'', sp_dev = ''Brick'', sp_size = ''8'', sp_current = True\<rparr>,
     \<lparr>sp_id = ''9'', sp_date = ''earlier'', sp_dev = ''Mini Plus'', sp_size = ''8'', sp_current = False\<rparr>]"

text \<open>
  The file a timeline is kept in has the path of the game with slashes, blanks, tabs and quotes made
  underscores: two games can share it, and the second is then shown the saves of the first, and
  offered to restore one of them.
\<close>

theorem saves_cache_collides:
  "Lodor_savesCachePath ''/mnt/SDCARD/Roms/GBA (GBA)/Mega Man.gba'' MAX_PATH
   = Lodor_savesCachePath ''/mnt/SDCARD/Roms/GBA (GBA)/Mega_Man.gba'' MAX_PATH"
  by code_simp

text \<open>
  The list drawing stops at the rows that fit and does not scroll. On a screen of six rows the sixth
  action of a game on the device, Details, is never drawn, though it can be selected; nor are the
  older saves of a timeline of more than five.
\<close>

theorem list_rows_hidden:
  assumes "Lodor_rebuildActions fs rom True = Some items"
  shows "map e_path items = [''play'', ''syncsave'', ''serversaves'', ''emupick'', ''delete'', ''details'']
    \<and> 5 \<notin> set (drawn_entries 6 items)"
  using assms by (auto simp: Lodor_rebuildActions_def Let_def Option.bind_eq_Some_conv list_entry_def drawn_entries_def split: option.splits)

end
