(* ===== verification/Overlays.thy ===== *)
theory Overlays
  imports GameLists Connect Search Nav
begin

text \<open>
  The launcher's overlays (the input dispatch of minui.c's main loop): the questions, the timeline of
  saves, the feed, the sync menu, the settings, the users, the RetroAchievements login, the game
  switcher, the emulator picker and the actions of a game. The state is the launcher's and the
  globals behind these screens; a step is what one frame of buttons does to it.

  The engine and the shell's commands are parameters, which may do anything to the card and are given
  the launcher's environment as it is then, of which the state holds the variables that the launcher
  has set; what is run and what is said is kept in a log. Drawing, delays and the dirty flag are left out, and so is the
  time that a task keeps the screen on. The files of the cache of timelines are moved by shell
  commands that the code spells out (cp, mv, a test for emptiness), so they are a matter of the shell.
\<close>

section \<open>State\<close>

datatype event =
    Ran string "(string \<times> string) list"
  | Shell string "(string \<times> string) list"
  | Said string
  | Removed string

record system =
  en_run :: "string \<Rightarrow> (string \<times> string) list \<Rightarrow> fsys \<Rightarrow> attempt \<times> fsys"
  en_system :: "string \<Rightarrow> (string \<times> string) list \<Rightarrow> fsys \<Rightarrow> fsys"
  en_reset :: bool
  en_wo :: write_outcome
  en_when :: string
  en_clock :: clock
  en_mtime :: "string \<Rightarrow> int option"

record overlays =
  o_minui :: minui
  o_log :: "event list"
  o_env :: "(string \<times> string) list"
  lodor_show_confirm :: bool
  lodor_confirm_kind :: nat
  lodor_confirm_saveid :: string
  lodor_confirm_savewhen :: string
  lodor_confirm_savedev :: string
  lodor_show_details :: bool
  lodor_show_saves :: bool
  lodor_saves_items :: "entry list"
  lodor_saves_sel :: nat
  lodor_show_feed :: bool
  lodor_feed_items :: "entry list"
  lodor_feed_sel :: nat
  lodor_show_sync :: bool
  lodor_sync_sel :: nat
  lodor_bg_covers_ok :: bool
  lodor_show_settings :: bool
  lodor_settings_sel :: nat
  lodor_wifi_warm :: bool
  o_cache :: cache
  lodor_show_profiles :: bool
  lodor_profile_items :: "entry list"
  lodor_profiles_sel :: nat
  lodor_profile_label :: string
  lodor_show_ra :: bool
  lodor_ra_stage :: nat
  lodor_ra_sel :: nat
  lodor_ra_user :: string
  lodor_ra_pass :: string
  lodor_ra_bytes :: string
  lodor_ra_status :: string
  o_kb :: keyboard
  lodor_show_switch :: bool
  o_cards :: "switch_card list"
  lodor_switch_sel :: nat
  lodor_show_emupick :: bool
  lodor_emupick_items :: "entry list"
  lodor_emupick_sel :: nat
  lodor_show_actions :: bool
  lodor_action_items :: "entry list"
  lodor_action_sel :: nat
  lodor_actions_from_search :: bool
  lodor_rompath :: string
  lodor_gamename :: string
  lodor_on_device :: bool
  o_search :: search
  lodor_show_onboard :: bool
  o_onboard :: onboard
  o_add_profile :: bool
  lodor_ob_login_user :: string

definition o_fs :: "overlays \<Rightarrow> fsys" where
  "o_fs ov = m_fs (o_minui ov)"

definition set_fs :: "overlays \<Rightarrow> fsys \<Rightarrow> overlays" where
  "set_fs ov fs = ov\<lparr>o_minui := (o_minui ov)\<lparr>m_fs := fs\<rparr>\<rparr>"

definition say :: "string \<Rightarrow> overlays \<Rightarrow> overlays" where
  "say msg ov = ov\<lparr>o_log := o_log ov @ [Said msg]\<rparr>"

section \<open>Commands\<close>

definition LODOR_ROMM_BIN :: string where
  "LODOR_ROMM_BIN = ''/Tools/'' @ PLATFORM @ ''/Lodor.pak/bin/romm-run''"

definition PAK_DIR :: string where
  "PAK_DIR = SDCARD_PATH @ ''/Tools/'' @ PLATFORM @ ''/Lodor.pak''"

definition engine_cmd :: "string \<Rightarrow> string" where
  "engine_cmd rest = QUOTE # SDCARD_PATH @ LODOR_ROMM_BIN @ QUOTE # rest"

definition unsetenv :: "string \<Rightarrow> (string \<times> string) list \<Rightarrow> (string \<times> string) list" where
  "unsetenv nm env = filter (\<lambda>(n, v). n \<noteq> nm) env"

definition setenv :: "string \<Rightarrow> string \<Rightarrow> (string \<times> string) list \<Rightarrow> (string \<times> string) list" where
  "setenv nm v env = (nm, v) # unsetenv nm env"

definition sh :: "system \<Rightarrow> string \<Rightarrow> overlays \<Rightarrow> overlays" where
  "sh en cmd ov = (set_fs ov (en_system en cmd (o_env ov) (o_fs ov)))\<lparr>o_log := o_log ov @ [Shell cmd (o_env ov)]\<rparr>"

definition run_once :: "system \<Rightarrow> string \<Rightarrow> overlays \<Rightarrow> attempt \<times> overlays" where
  "run_once en cmd ov =
    (let (a, fs) = en_run en cmd (o_env ov) (o_fs ov) in (a, (set_fs ov fs)\<lparr>o_log := o_log ov @ [Ran cmd (o_env ov)]\<rparr>))"

definition WIFI_RESET_CMD :: string where
  "WIFI_RESET_CMD = QUOTE # PAK_DIR @ ''/bin/wifi-reset'' @ QUOTE # '' >/dev/null 2>&1''"

text \<open>Lodor_runWithProgress with its effects: the question and the reset of the radio between two runs.\<close>

definition run_engine :: "system \<Rightarrow> nat \<Rightarrow> string \<Rightarrow> overlays \<Rightarrow> string \<times> overlays" where
  "run_engine en cap cmd ov =
    (let (a1, ov1) = run_once en cmd ov;
         marker = exists (o_fs ov1) (PAK_DIR @ ''/.wifi-8188fu'')
     in if snd (Lodor_runWithProgress marker (en_reset en) cap a1 a1) = 1
        then (fst (Lodor_runWithProgress marker (en_reset en) cap a1 a1), ov1)
        else
          let ov2 = sh en WIFI_RESET_CMD (say ''Resetting WiFi...'' ov1);
              (a2, ov3) = run_once en cmd ov2
          in (fst (Lodor_runWithProgress marker (en_reset en) cap a1 a2), ov3))"

definition prev_row :: "nat \<Rightarrow> nat \<Rightarrow> nat" where "prev_row n sel = (sel + n - 1) mod n"
definition next_row :: "nat \<Rightarrow> nat \<Rightarrow> nat" where "next_row n sel = (sel + 1) mod n"

definition plural :: "int \<Rightarrow> string" where "plural n = (if n = 1 then [] else ''s'')"

section \<open>Opening and closing\<close>

definition Lodor_freeActions :: "overlays \<Rightarrow> overlays" where
  "Lodor_freeActions ov = ov\<lparr>lodor_action_items := [], lodor_actions_from_search := False\<rparr>"

definition close_actions :: "overlays \<Rightarrow> overlays" where
  "close_actions ov = Lodor_freeActions (ov\<lparr>lodor_show_actions := False\<rparr>)"

definition close_saves :: "overlays \<Rightarrow> overlays" where
  "close_saves ov = ov\<lparr>lodor_show_saves := False, lodor_saves_items := []\<rparr>"

definition stub_free :: "fsys \<Rightarrow> string \<Rightarrow> bool" where
  "stub_free fs path \<longleftrightarrow> (case fs_files fs path of None \<Rightarrow> False | Some text \<Rightarrow> text \<noteq> [])"

definition Lodor_openActions :: "entry \<Rightarrow> overlays \<Rightarrow> overlays option" where
  "Lodor_openActions sel ov = do {
     let rom = c_trunc MAX_PATH (e_path sel);
     let on_device = stub_free (o_fs ov) rom;
     items \<leftarrow> Lodor_rebuildActions (o_fs ov) rom on_device;
     Some ((Lodor_freeActions ov)\<lparr>lodor_action_sel := 0, lodor_rompath := rom, lodor_gamename := c_trunc 256 (e_name sel),
       lodor_on_device := on_device, lodor_action_items := items, lodor_show_actions := True\<rparr>)
   }"

definition open_switcher :: "system \<Rightarrow> overlays \<Rightarrow> overlays option" where
  "open_switcher en ov = do {
     cards \<leftarrow> Lodor_openSwitcher (en_mtime en) (o_fs ov) (m_recents (o_minui ov));
     Some (ov\<lparr>o_cards := cards, lodor_switch_sel := 0, lodor_show_switch := (if cards \<noteq> [] then True else lodor_show_switch ov)\<rparr>)
   }"

text \<open>The effects of opening a game or a stub. The result is whether the file is there afterwards.\<close>

definition open_entry :: "system \<Rightarrow> entry \<Rightarrow> overlays \<Rightarrow> overlays option" where
  "open_entry en e ov = map_option (\<lambda>m. ov\<lparr>o_minui := m\<rparr>) (Entry_open (en_when en) (o_minui ov) e)"

definition Lodor_downloadThenLaunch :: "system \<Rightarrow> entry \<Rightarrow> bool \<Rightarrow> overlays \<Rightarrow> (bool \<times> overlays) option" where
  "Lodor_downloadThenLaunch en e launch ov =
    (if \<not> Lodor_needsFetch (o_fs ov) (e_path e)
     then map_option (Pair True) (if launch then open_entry en e ov else Some ov)
     else
       let q1 = Lodor_shq (e_path e) (2 * int MAX_PATH);
           cmd = c_trunc (3 * MAX_PATH) (engine_cmd ('' --download '' @ QUOTE # q1 @ [QUOTE]));
           (_, ov) = run_engine en 0 cmd ov
       in if \<not> Lodor_needsFetch (o_fs ov) (e_path e)
          then map_option (Pair True) (if launch then open_entry en e ov else Some ov)
          else Some (False, say ''Download failed'' ov))"


section \<open>Questions\<close>

definition confirm_delete :: "overlays \<Rightarrow> overlays" where
  "confirm_delete ov =
    (let rom = lodor_rompath ov; ov = (set_fs ov (putFile (unlink (o_fs ov) rom) rom []))\<lparr>o_log := o_log ov @ [Removed rom]\<rparr>
     in close_actions ov)"

definition restore_cmd :: "string \<Rightarrow> string \<Rightarrow> string" where
  "restore_cmd rom saveid = c_trunc (3 * MAX_PATH)
     (engine_cmd ('' --restore-save '' @ QUOTE # Lodor_shq rom (2 * int MAX_PATH) @ QUOTE # '' '' @ saveid))"

definition or_zero :: "int option \<Rightarrow> int" where "or_zero n = (case n of None \<Rightarrow> 0 | Some v \<Rightarrow> v)"

definition confirm_restore :: "system \<Rightarrow> overlays \<Rightarrow> overlays option" where
  "confirm_restore en ov =
    (let (out, ov) = run_engine en 256 (restore_cmd (lodor_rompath ov) (lodor_confirm_saveid ov)) ov;
         restored = or_zero (find_int ''restored='' out);
         staged = or_zero (find_int ''staged='' out);
         ov = close_actions (close_saves ov);
         when = (if lodor_confirm_savewhen ov \<noteq> [] then lodor_confirm_savewhen ov else ''that point'')
     in if restored \<noteq> 0 then do {
          let msg = c_trunc 256 (''Flashed back to '' @ when @ ''.'' @ NL #
            (if 0 < staged then ''Offline - previous save uploads next sync.'' @ [NL] else []) @ ''Launching...'');
          let ov = say msg ov;
          fe \<leftarrow> Entry_new (lodor_rompath ov) ENTRY_ROM;
          open_entry en fe ov
        }
        else if strstr out ''restored='' = None
        then Some (say (''Couldn'' @ QUOTE # ''t reach RomM.'' @ NL # ''Wi-Fi may be down - try again.'') ov)
        else Some (say (''Couldn'' @ QUOTE # ''t flash back to that save'') ov))"

definition PENDING_FILE :: string where
  "PENDING_FILE = PAK_DIR @ ''/pending-saves.txt''"

definition confirm_step :: "system \<Rightarrow> kb_pad \<Rightarrow> overlays \<Rightarrow> overlays option" where
  "confirm_step en pad ov =
    (if k_a pad then do {
       let kind = lodor_confirm_kind ov;
       let ov = ov\<lparr>lodor_show_confirm := False\<rparr>;
       ov \<leftarrow> (if kind = 1 then Some (confirm_delete ov)
              else if kind = 2 then confirm_restore en ov
              else if kind = 3 then Some (set_fs ov (putFile (o_fs ov) PENDING_FILE []))
              else Some ov);
       Some (ov\<lparr>lodor_confirm_kind := 0\<rparr>)
     }
     else if k_b pad then Some (ov\<lparr>lodor_show_confirm := False, lodor_confirm_kind := 0\<rparr>)
     else Some ov)"

definition details_step :: "kb_pad \<Rightarrow> overlays \<Rightarrow> overlays" where
  "details_step pad ov = (if k_b pad \<or> k_a pad then ov\<lparr>lodor_show_details := False\<rparr> else ov)"

section \<open>Timeline and feed\<close>

definition ask_restore :: "entry \<Rightarrow> overlays \<Rightarrow> overlays" where
  "ask_restore sv ov =
    (let (when, dev) = split_label (e_name sv) in
     ov\<lparr>lodor_confirm_saveid := c_trunc 64 (e_path sv), lodor_confirm_savewhen := when, lodor_confirm_savedev := dev,
        lodor_confirm_kind := 2, lodor_show_confirm := True\<rparr>)"

definition saves_step :: "kb_pad \<Rightarrow> overlays \<Rightarrow> overlays" where
  "saves_step pad ov =
    (let sc = length (lodor_saves_items ov); sel = lodor_saves_sel ov in
     if k_up pad then (if 0 < sc then ov\<lparr>lodor_saves_sel := prev_row sc sel\<rparr> else ov)
     else if k_down pad then (if 0 < sc then ov\<lparr>lodor_saves_sel := next_row sc sel\<rparr> else ov)
     else if k_a pad then (if sel < sc then ask_restore (lodor_saves_items ov ! sel) ov else ov)
     else if k_b pad then close_saves ov
     else ov)"

definition feed_step :: "kb_pad \<Rightarrow> overlays \<Rightarrow> overlays" where
  "feed_step pad ov =
    (let fc = length (lodor_feed_items ov); sel = lodor_feed_sel ov in
     if k_up pad then (if 0 < fc then ov\<lparr>lodor_feed_sel := prev_row fc sel\<rparr> else ov)
     else if k_down pad then (if 0 < fc then ov\<lparr>lodor_feed_sel := next_row fc sel\<rparr> else ov)
     else if k_b pad then ov\<lparr>lodor_show_feed := False, lodor_feed_items := []\<rparr>
     else ov)"

section \<open>The sync menu\<close>

text \<open>\<open>sscanf (ln, "STUCK\t%159[^\t]\t%159[^\r\n]")\<close>, where the tab stands for any white space.\<close>

definition scan_stuck :: "string \<Rightarrow> (string \<times> string) option" where
  "scan_stuck ln =
    (if \<not> prefix ''STUCK'' ln then None
     else
       let s = dropWhile c_isspace (drop 5 ln);
           g = take 159 (takeWhile (\<lambda>c. c \<noteq> TAB) s);
           s = dropWhile c_isspace (drop (length g) s);
           w = take 159 (cut_line s)
       in if g = [] \<or> w = [] then None else Some (g, w))"

definition push_line :: "string \<Rightarrow> int \<times> int \<times> string \<Rightarrow> int \<times> int \<times> string" where
  "push_line ln acc =
    (case acc of (pushed, stuck, stuckwhy) \<Rightarrow>
       let vs = scan_fmt ''RESULT pushed=%d total=%d stuck=%d'' ln in
       if length vs = 3 then (vs ! 0, vs ! 2, stuckwhy)
       else if stuckwhy = [] then (case scan_stuck ln of None \<Rightarrow> acc
         | Some (g, w) \<Rightarrow> (pushed, stuck, c_trunc 256 (g @ '':'' @ NL # w)))
       else acc)"

definition push_result :: "string \<Rightarrow> int \<times> int \<times> string" where
  "push_result pout = fold push_line (line_starts pout) (- 1, 0, [])"

definition stuck_message :: "int \<Rightarrow> string \<Rightarrow> string" where
  "stuck_message stuck why = c_trunc 320 (c_int stuck @ '' save'' @ plural stuck @ '' couldn'' @ QUOTE # ''t upload --'' @ NL #
     (if why \<noteq> [] then why else ''see logs''))"

definition sync_message :: "string \<Rightarrow> string" where
  "sync_message pout =
    (case push_result pout of (pushed, stuck, why) \<Rightarrow>
       if 0 < stuck then stuck_message stuck why
       else if pushed = 0 then ''Nothing to sync''
       else if 0 < pushed then c_trunc 64 (''Synced -- '' @ c_int pushed @ '' save'' @ plural pushed @ '' uploaded'')
       else ''Couldn'' @ QUOTE # ''t reach RomM --'' @ NL # ''saves still pending'')"

definition recent_cmd :: string where
  "recent_cmd = c_trunc (3 * MAX_PATH) (''o=$('' @ engine_cmd '' --recent 2>/dev/null); [ -n '' @ CHR 0x22 # ''$o'' @ CHR 0x22
     # '' ] && printf '' @ QUOTE # ''%s'' @ BACKSLASH # ''n'' @ QUOTE # '' '' @ CHR 0x22 # ''$o'' @ CHR 0x22 # '' > ''
     @ QUOTE # PAK_DIR @ ''/recent.txt'' @ [QUOTE])"

definition refresh_continue :: "system \<Rightarrow> overlays \<Rightarrow> overlays option" where
  "refresh_continue en ov = do {
     let ov = sh en recent_cmd (say ''Updating Continue...'' ov);
     m \<leftarrow> Lodor_refreshContinue (o_minui ov);
     Some (ov\<lparr>o_minui := m\<rparr>)
   }"

definition sync_now :: "system \<Rightarrow> overlays \<Rightarrow> overlays option" where
  "sync_now en ov = do {
     let (pout, ov) = run_engine en 2048 (engine_cmd '' --push-pending'') ov;
     ov \<leftarrow> refresh_continue en ov;
     Some (say (sync_message pout) ov)
   }"

definition queue_message :: "string \<Rightarrow> string" where
  "queue_message qout =
    (let (dl, fail, rem) = (case last_result ''RESULT downloaded=%d failed=%d remaining=%d'' 3 qout of
         Some vs \<Rightarrow> (vs ! 0, vs ! 1, vs ! 2) | None \<Rightarrow> (- 1, 0, - 1))
     in if dl < 0 then ''Couldn'' @ QUOTE # ''t reach RomM --'' @ NL # ''queue unchanged''
        else if 0 < fail then c_trunc 96 (''Downloaded '' @ c_int dl @ '', '' @ c_int fail @ '' failed --'' @ NL #
          c_int (max 0 rem) @ '' still queued'')
        else c_trunc 64 (''Downloaded '' @ c_int dl @ '' game'' @ plural dl))"

definition download_queue :: "system \<Rightarrow> overlays \<Rightarrow> overlays" where
  "download_queue en ov =
    (if Lodor_queueCount (o_fs ov) = 0 then say ''Download queue empty'' ov
     else let (qout, ov) = run_engine en 1024 (engine_cmd '' --download-queue'') ov in say (queue_message qout) ov)"

definition mirror_created :: "string \<Rightarrow> int" where
  "mirror_created mout = (case last_result ''MIRROR created=%d existing=%d skipped=%d multifile=%d'' 4 mout of
     Some vs \<Rightarrow> vs ! 0 | None \<Rightarrow> - 1)"

definition refresh_library :: "system \<Rightarrow> bool \<Rightarrow> overlays \<Rightarrow> overlays option" where
  "refresh_library en full ov =
    (let (mout, ov) = run_engine en 1024 (engine_cmd ('' --mirror-catalog'' @ (if full then '' --full'' else []))) ov;
         created = mirror_created mout
     in if created < 0 then Some (say (''Couldn'' @ QUOTE # ''t reach RomM'') ov)
        else do {
          let (_, ov) = run_engine en 1024 (engine_cmd '' --mirror-collections'') ov;
          ov \<leftarrow> refresh_continue en ov;
          let ov = say (c_trunc 64 (''Library updated -- '' @ c_int created @ '' new'')) ov;
          m \<leftarrow> Lodor_rescanTop (o_minui ov);
          Some (ov\<lparr>o_minui := m\<rparr>)
        })"

definition bios_message :: "string \<Rightarrow> string" where
  "bios_message bout =
    (let bios = (case last_result ''RESULT bios=%d'' 1 bout of Some vs \<Rightarrow> vs ! 0 | None \<Rightarrow> - 1)
     in if bios = 0 then ''No BIOS to update''
        else if 0 < bios then c_trunc 64 (''Downloaded '' @ c_int bios @ '' BIOS file'' @ plural bios)
        else ''BIOS updated'')"

definition download_bios :: "system \<Rightarrow> overlays \<Rightarrow> overlays" where
  "download_bios en ov =
    (let (bout, ov) = run_engine en 1024 (engine_cmd '' --download-bios'') ov in say (bios_message bout) ov)"

definition open_feed :: "system \<Rightarrow> overlays \<Rightarrow> overlays option" where
  "open_feed en ov = do {
     let (fout, ov) = run_engine en 4096 (engine_cmd '' --sync-feed'') ov;
     let ov = set_fs ov (putFile (o_fs ov) FEED_FILE fout);
     items \<leftarrow> Lodor_buildFeed (o_fs ov);
     Some (ov\<lparr>lodor_feed_items := items, lodor_show_sync := False, lodor_show_feed := True, lodor_feed_sel := 0\<rparr>)
   }"

definition bg_covers :: "system \<Rightarrow> overlays \<Rightarrow> overlays" where
  "bg_covers en ov =
    (let cmd = c_trunc MAX_PATH (''setsid '' @ QUOTE # PAK_DIR @ ''/bin/lodor-bg-covers'' @ QUOTE # '' >/dev/null 2>&1 </dev/null &'')
     in (say ''Refreshing box art in the background...'' (sh en cmd ov))\<lparr>lodor_show_sync := False\<rparr>)"

definition LODOR_SYNC_COUNT :: "bool \<Rightarrow> nat" where
  "LODOR_SYNC_COUNT bg_covers_ok = (if bg_covers_ok then 7 else 6)"

definition sync_row :: "system \<Rightarrow> overlays \<Rightarrow> overlays option" where
  "sync_row en ov =
    (let sel = lodor_sync_sel ov in
     if sel = 0 then sync_now en ov
     else if sel = 1 then Some (download_queue en ov)
     else if sel = 2 \<or> sel = 3 then refresh_library en (sel = 3) ov
     else if sel = 4 then Some (download_bios en ov)
     else if sel = 5 then open_feed en ov
     else if lodor_bg_covers_ok ov \<and> sel = 6 then Some (bg_covers en ov)
     else Some ov)"

definition sync_step :: "system \<Rightarrow> kb_pad \<Rightarrow> overlays \<Rightarrow> overlays option" where
  "sync_step en pad ov =
    (let n = LODOR_SYNC_COUNT (lodor_bg_covers_ok ov); sel = lodor_sync_sel ov in
     if k_up pad then Some (ov\<lparr>lodor_sync_sel := prev_row n sel\<rparr>)
     else if k_down pad then Some (ov\<lparr>lodor_sync_sel := next_row n sel\<rparr>)
     else if k_b pad then Some (ov\<lparr>lodor_show_sync := False\<rparr>)
     else if k_a pad then sync_row en ov
     else Some ov)"


section \<open>Settings and users\<close>

definition press_setting :: "system \<Rightarrow> row \<Rightarrow> overlays \<Rightarrow> overlays" where
  "press_setting en r ov =
    (let (c, states) = press_row (en_wo en) (o_fs ov) r (o_cache ov) in (set_fs ov (live states))\<lparr>o_cache := c\<rparr>)"

definition ACTIVE_PROFILE :: string where
  "ACTIVE_PROFILE = PAK_DIR @ ''/active-profile.txt''"

definition Lodor_readActiveProfile :: "fsys \<Rightarrow> nat \<Rightarrow> string" where
  "Lodor_readActiveProfile fs cap =
    (case tsv_lines fs ACTIVE_PROFILE cap of
       [] \<Rightarrow> []
     | l # _ \<Rightarrow>
         let out = rev (dropWhile (\<lambda>c. c \<in> {NL, CR, CHR '' '', TAB}) (rev l))
         in if lower out = ''default'' then [] else out)"

definition Lodor_writeActiveProfile :: "system \<Rightarrow> string \<Rightarrow> overlays \<Rightarrow> bool \<times> overlays" where
  "Lodor_writeActiveProfile en label ov =
    (let (states, wrote) = (if length label + 1 < MAX_PATH then Lodor_atomicWrite (en_wo en) (o_fs ov) ACTIVE_PROFILE (label @ [NL])
           else ([calm (o_fs ov)], False));
         ov = set_fs ov (live states)
     in if label = [] then (wrote, ov)
        else (wrote, snd (run_engine en 512 (engine_cmd '' --mirror-catalog'') ov)))"

definition Lodor_buildProfiles :: "system \<Rightarrow> overlays \<Rightarrow> overlays option" where
  "Lodor_buildProfiles en ov = do {
     let ov = sh en (engine_cmd '' --list-users > /tmp/lodor-users.txt 2>/dev/null'') ov;
     items \<leftarrow> read_profiles (o_fs ov);
     Some (ov\<lparr>lodor_profile_items := items\<rparr>)
   }"

definition or_empty :: "string option \<Rightarrow> string" where
  "or_empty s = (case s of None \<Rightarrow> [] | Some t \<Rightarrow> t)"

definition settings_row :: "system \<Rightarrow> overlays \<Rightarrow> overlays option" where
  "settings_row en ov =
    (let sel = lodor_settings_sel ov in
     if sel = 0 then Some (ov\<lparr>lodor_show_settings := False, o_onboard := Lodor_prefillOnboard (o_fs ov), lodor_show_onboard := True\<rparr>)
     else if sel = 1 then Some (press_setting en BoxArt ov)
     else if sel = 2 then
       Some ((press_setting en KeepWarm ov)\<lparr>lodor_wifi_warm := \<not> fst (Lodor_readWifiWarm (o_fs ov))\<rparr>)
     else if sel = 3 then Some (press_setting en QualityDots ov)
     else if sel = 4 then do {
       let ov = ov\<lparr>lodor_profile_label := Lodor_readActiveProfile (o_fs ov) 64\<rparr>;
       ov \<leftarrow> Lodor_buildProfiles en ov;
       Some (ov\<lparr>lodor_show_settings := False, lodor_show_profiles := True, lodor_profiles_sel := 0\<rparr>)
     }
     else if sel = 5 then Some (press_setting en UserBadge ov)
     else if sel = 6 then
       Some ((press_setting en RetroAchievements ov)\<lparr>lodor_show_settings := False,
         lodor_ra_status := or_empty (Lodor_readRAUser (o_fs ov) 64), lodor_ra_stage := 0, lodor_ra_sel := 0, lodor_show_ra := True\<rparr>)
     else Some ov)"

definition settings_step :: "system \<Rightarrow> kb_pad \<Rightarrow> overlays \<Rightarrow> overlays option" where
  "settings_step en pad ov =
    (let sel = lodor_settings_sel ov in
     if k_up pad then Some (ov\<lparr>lodor_settings_sel := prev_row 7 sel\<rparr>)
     else if k_down pad then Some (ov\<lparr>lodor_settings_sel := next_row 7 sel\<rparr>)
     else if k_b pad then Some (ov\<lparr>lodor_show_settings := False\<rparr>)
     else if k_a pad then settings_row en ov
     else Some ov)"

definition LODOR_OB_PAIR :: nat where "LODOR_OB_PAIR = 2"

text \<open>A user picked from the list: a switch when signed in on the device, else the pairing code is asked for.\<close>

definition pick_profile :: "system \<Rightarrow> entry \<Rightarrow> overlays \<Rightarrow> overlays" where
  "pick_profile en e ov =
    (case e_path e of
       sflag # uname \<Rightarrow>
         if (sflag = CHR ''0'' \<or> sflag = CHR ''1'') \<and> uname \<noteq> [] then
           if sflag = CHR ''1'' then
             let (ok, ov) = Lodor_writeActiveProfile en uname ov in
             if ok then
               (say (c_trunc 128 (''Now playing as'' @ NL # uname))
                 (ov\<lparr>lodor_profile_label := c_trunc 64 uname, o_cache := (o_cache ov)\<lparr>c_badge := Lodor_readUserBadge (o_fs ov)\<rparr>\<rparr>))
                 \<lparr>lodor_show_profiles := False\<rparr>
             else say (''Couldn'' @ QUOTE # ''t switch user.'') ov
           else
             ov\<lparr>lodor_show_profiles := False, o_add_profile := True, lodor_ob_login_user := c_trunc 64 uname,
               o_onboard := Lodor_resetOnboard\<lparr>ob_step := LODOR_OB_PAIR\<rparr>,
               o_kb := Lodor_obKbOpen [] 16 False False True (o_kb ov), lodor_show_onboard := True\<rparr>
         else ov
     | [] \<Rightarrow> ov)"

definition profiles_step :: "system \<Rightarrow> kb_pad \<Rightarrow> overlays \<Rightarrow> overlays" where
  "profiles_step en pad ov =
    (let pcount = max 1 (length (lodor_profile_items ov)); sel = lodor_profiles_sel ov in
     if k_up pad then ov\<lparr>lodor_profiles_sel := prev_row pcount sel\<rparr>
     else if k_down pad then ov\<lparr>lodor_profiles_sel := next_row pcount sel\<rparr>
     else if k_b pad then ov\<lparr>lodor_show_profiles := False, lodor_show_settings := True, lodor_settings_sel := 4\<rparr>
     else if k_a pad \<and> sel < length (lodor_profile_items ov) then pick_profile en (lodor_profile_items ov ! sel) ov
     else ov)"

section \<open>RetroAchievements\<close>

definition RA_LOGIN_CMD :: string where
  "RA_LOGIN_CMD = c_trunc (3 * MAX_PATH) (''printf '' @ QUOTE # ''%s'' @ BACKSLASH # ''n'' @ QUOTE # '' '' @ CHR 0x22 # ''$LODOR_RA_P''
     @ CHR 0x22 # '' | '' @ engine_cmd ('' --ra-login '' @ CHR 0x22 # ''$LODOR_RA_U'' @ [CHR 0x22]))"

text \<open>
  The password as a string, and the bytes of its buffer: a string that is written is followed by its
  end mark, and what lies behind stays.
\<close>

definition put_pass :: "string \<Rightarrow> overlays \<Rightarrow> overlays" where
  "put_pass p ov = ov\<lparr>lodor_ra_pass := p, lodor_ra_bytes := p @ NUL # drop (length p + 1) (lodor_ra_bytes ov)\<rparr>"

text \<open>The keyboard edits the buffer that it was opened on, so an emptied buffer is empty for both.\<close>

definition ra_keys :: "kb_pad \<Rightarrow> overlays \<Rightarrow> overlays option" where
  "ra_keys pad ov = do {
     k \<leftarrow> Lodor_kbInput pad (o_kb ov);
     let ov = ov\<lparr>o_kb := k\<rparr>;
     Some (if lodor_ra_stage ov = 1 then ov\<lparr>lodor_ra_user := kb_buf k\<rparr>
       else if lodor_ra_stage ov = 2 then put_pass (kb_buf k) ov else ov)
   }"

definition ra_user_done :: "overlays \<Rightarrow> overlays" where
  "ra_user_done ov =
    (if kb_cancelled (o_kb ov) \<or> lodor_ra_user ov = [] then ov\<lparr>lodor_ra_user := [], o_kb := (o_kb ov)\<lparr>kb_buf := []\<rparr>, lodor_ra_stage := 0\<rparr>
     else (put_pass [] ov)\<lparr>o_kb := Lodor_obKbOpen [] 128 False False False (o_kb ov), lodor_ra_stage := 2\<rparr>)"

definition ra_report :: "int \<Rightarrow> overlays \<Rightarrow> overlays" where
  "ra_report ra_ok ov =
    (if ra_ok = 1 then
       let ov = ov\<lparr>lodor_ra_status := or_empty (Lodor_readRAUser (o_fs ov) 64)\<rparr>
       in say (c_trunc 96 (''Logged in as '' @ (if lodor_ra_status ov \<noteq> [] then lodor_ra_status ov else lodor_ra_user ov))) ov
     else if ra_ok = 0 then say (''RetroAchievements login failed --'' @ NL # ''check your username and password'') ov
     else say (''Couldn'' @ QUOTE # ''t reach RetroAchievements'') ov)"

text \<open>lodor_ra_pass[0] = 0\<close>

definition wipe :: "overlays \<Rightarrow> overlays" where
  "wipe ov = (put_pass [] ov)\<lparr>o_kb := (o_kb ov)\<lparr>kb_buf := []\<rparr>\<rparr>"

definition ra_login :: "system \<Rightarrow> overlays \<Rightarrow> overlays" where
  "ra_login en ov =
    (let ov = ov\<lparr>o_env := setenv ''LODOR_RA_U'' (lodor_ra_user ov) (o_env ov)\<rparr>;
         ov = ov\<lparr>o_env := setenv ''LODOR_RA_P'' (lodor_ra_pass ov) (o_env ov)\<rparr>;
         (rout, ov) = run_engine en 1024 RA_LOGIN_CMD ov;
         ov = ov\<lparr>o_env := unsetenv ''LODOR_RA_U'' (unsetenv ''LODOR_RA_P'' (o_env ov))\<rparr>;
         ra_ok = (case last_result ''RESULT ra_login=%d'' 1 rout of Some vs \<Rightarrow> vs ! 0 | None \<Rightarrow> - 1)
     in (ra_report ra_ok (wipe ov))\<lparr>lodor_ra_stage := 0\<rparr>)"

definition ra_pass_done :: "system \<Rightarrow> overlays \<Rightarrow> overlays" where
  "ra_pass_done en ov =
    (if kb_cancelled (o_kb ov) \<or> lodor_ra_pass ov = [] then (wipe ov)\<lparr>lodor_ra_stage := 0\<rparr> else ra_login en ov)"

definition ra_menu :: "system \<Rightarrow> kb_pad \<Rightarrow> overlays \<Rightarrow> overlays" where
  "ra_menu en pad ov =
    (let sel = lodor_ra_sel ov in
     if k_b pad then ov\<lparr>lodor_show_ra := False, lodor_ra_sel := 0\<rparr>
     else if k_up pad then ov\<lparr>lodor_ra_sel := prev_row 3 sel\<rparr>
     else if k_down pad then ov\<lparr>lodor_ra_sel := next_row 3 sel\<rparr>
     else if k_a pad then
       if sel = 0 then ov\<lparr>lodor_ra_user := [], o_kb := Lodor_obKbOpen [] 64 False False False (o_kb ov), lodor_ra_stage := 1\<rparr>
       else if sel = 1 then press_setting en RAEnable ov
       else if sel = 2 then press_setting en RAHardcore ov
       else ov
     else ov)"

definition ra_step :: "system \<Rightarrow> kb_pad \<Rightarrow> overlays \<Rightarrow> overlays option" where
  "ra_step en pad ov =
    (if kb_active (o_kb ov) then ra_keys pad ov
     else if lodor_ra_stage ov = 1 then Some (ra_user_done ov)
     else if lodor_ra_stage ov = 2 then Some (ra_pass_done en ov)
     else Some (ra_menu en pad ov))"

section \<open>Switcher, emulator and actions\<close>

definition resume_game :: "system \<Rightarrow> string \<Rightarrow> overlays \<Rightarrow> overlays option" where
  "resume_game en path ov = do {
     let ov = ov\<lparr>lodor_show_switch := False\<rparr>;
     m \<leftarrow> readyResumePath (o_minui ov) path ENTRY_ROM;
     let ov = ov\<lparr>o_minui := (if m_can_resume m then m\<lparr>m_should_resume := True\<rparr> else m)\<rparr>;
     e \<leftarrow> Entry_new path ENTRY_ROM;
     (here, ov) \<leftarrow> Lodor_downloadThenLaunch en e True ov;
     Some (if here then ov else ov\<lparr>o_minui := (o_minui ov)\<lparr>m_should_resume := False\<rparr>\<rparr>)
   }"

definition switcher_step :: "system \<Rightarrow> kb_pad \<Rightarrow> overlays \<Rightarrow> overlays option" where
  "switcher_step en pad ov =
    (let n = length (o_cards ov); sel = lodor_switch_sel ov in
     if k_left pad \<and> 0 < n then Some (ov\<lparr>lodor_switch_sel := prev_row n sel\<rparr>)
     else if k_right pad \<and> 0 < n then Some (ov\<lparr>lodor_switch_sel := next_row n sel\<rparr>)
     else if k_b pad then Some (ov\<lparr>lodor_show_switch := False\<rparr>)
     else if k_a pad \<and> 0 < n then resume_game en (sw_path (o_cards ov ! sel)) ov
     else Some ov)"

text \<open>A row of the picker is chosen: the sidecar, then the rows of the actions again.\<close>

definition first_index :: "(entry \<Rightarrow> bool) \<Rightarrow> entry list \<Rightarrow> nat option" where
  "first_index P items = (if list_ex P items then Some (length (takeWhile (\<lambda>e. \<not> P e) items)) else None)"

definition choose_emulator :: "system \<Rightarrow> entry \<Rightarrow> overlays \<Rightarrow> overlays option" where
  "choose_emulator en pick ov = do {
     fs \<leftarrow> Lodor_writeEmuSidecar (en_wo en) (o_fs ov) (lodor_rompath ov) (if e_path pick \<noteq> [] then Some (e_path pick) else None);
     let ov = (set_fs ov fs)\<lparr>lodor_show_emupick := False, lodor_emupick_items := []\<rparr>;
     items \<leftarrow> Lodor_rebuildActions fs (lodor_rompath ov) (lodor_on_device ov);
     Some (ov\<lparr>lodor_action_items := items,
       lodor_action_sel := (case first_index (\<lambda>e. e_path e = ''emupick'') items of Some i \<Rightarrow> i | None \<Rightarrow> lodor_action_sel ov)\<rparr>)
   }"

definition emupick_step :: "system \<Rightarrow> kb_pad \<Rightarrow> overlays \<Rightarrow> overlays option" where
  "emupick_step en pad ov =
    (let ec = length (lodor_emupick_items ov); sel = lodor_emupick_sel ov in
     if k_up pad then Some (if 0 < ec then ov\<lparr>lodor_emupick_sel := prev_row ec sel\<rparr> else ov)
     else if k_down pad then Some (if 0 < ec then ov\<lparr>lodor_emupick_sel := next_row ec sel\<rparr> else ov)
     else if k_b pad then Some (ov\<lparr>lodor_show_emupick := False, lodor_emupick_items := []\<rparr>)
     else if k_a pad \<and> sel < ec then choose_emulator en (lodor_emupick_items ov ! sel) ov
     else Some ov)"

text \<open>Play and Download now: the game of a search result, or the entry selected in the list below.\<close>

definition action_fetch :: "system \<Rightarrow> bool \<Rightarrow> overlays \<Rightarrow> overlays option" where
  "action_fetch en launch ov =
    (if lodor_actions_from_search ov then do {
       e \<leftarrow> Entry_new (lodor_rompath ov) ENTRY_ROM;
       let ov = close_actions ov;
       let ov = ov\<lparr>o_search := Lodor_closeSearch (o_search ov)\<rparr>;
       (_, ov) \<leftarrow> Lodor_downloadThenLaunch en e launch ov;
       Some ov
     }
     else do {
       d \<leftarrow> m_top (o_minui ov);
       e \<leftarrow> selected_entry d;
       (_, ov) \<leftarrow> Lodor_downloadThenLaunch en e launch (close_actions ov);
       Some ov
     })"

definition sync_save :: "system \<Rightarrow> overlays \<Rightarrow> overlays" where
  "sync_save en ov =
    (let q1 = Lodor_shq (lodor_rompath ov) (2 * int MAX_PATH);
         cmd = c_trunc (3 * MAX_PATH) (engine_cmd ('' --sync-save '' @ QUOTE # q1 @ [QUOTE]))
     in close_actions (snd (run_engine en 0 cmd ov)))"

text \<open>Flashback: from the timeline kept on the card, refreshed behind it, or from the engine the first time.\<close>

definition copy_cmd :: "string \<Rightarrow> string \<Rightarrow> string" where
  "copy_cmd a b = ''cp '' @ QUOTE # a @ QUOTE # '' '' @ b @ '' 2>/dev/null''"

definition list_cmd :: "string \<Rightarrow> string" where
  "list_cmd q1 = engine_cmd ('' --list-saves '' @ QUOTE # q1 @ [QUOTE])"

definition refresh_cmd :: "string \<Rightarrow> string \<Rightarrow> string" where
  "refresh_cmd q1 cache =
    (let new = QUOTE # cache @ ''.new'' @ [QUOTE]
     in ''( '' @ list_cmd q1 @ '' > '' @ new @ '' 2>/dev/null; [ -s '' @ new @ '' ] && mv '' @ new @ '' '' @ QUOTE # cache @ QUOTE
        # '' || rm -f '' @ new @ '' ) &'')"

definition mkdir :: "fsys \<Rightarrow> string \<Rightarrow> fsys" where
  "mkdir fs d = (if \<not> exists fs d \<and> fs_writable fs d then fs\<lparr>fs_dirs := (fs_dirs fs)(dir_key d \<mapsto> [])\<rparr> else fs)"

definition open_saves :: "system \<Rightarrow> overlays \<Rightarrow> overlays option" where
  "open_saves en ov =
    (let q1 = Lodor_shq (lodor_rompath ov) (2 * int MAX_PATH);
         cache = Lodor_savesCachePath (lodor_rompath ov) MAX_PATH;
         ov = set_fs ov (mkdir (o_fs ov) (c_trunc MAX_PATH (PAK_DIR @ ''/.saves-cache'')))
     in if exists (o_fs ov) cache then do {
          let ov = sh en (c_trunc 4096 (copy_cmd cache SAVES_FILE)) ov;
          items \<leftarrow> Lodor_buildSaves (en_clock en) (o_fs ov) (lodor_rompath ov);
          let ov = sh en (c_trunc 4096 (refresh_cmd q1 cache)) ov;
          Some (ov\<lparr>lodor_saves_items := items, lodor_saves_sel := 0, lodor_show_saves := True\<rparr>)
        }
        else do {
          let ov = sh en (c_trunc 4096 (list_cmd q1 @ '' > '' @ SAVES_FILE @ '' 2>/dev/null'')) (say ''Loading save points...'' ov);
          items \<leftarrow> Lodor_buildSaves (en_clock en) (o_fs ov) (lodor_rompath ov);
          let ov = sh en (c_trunc 4096 (''[ -s '' @ SAVES_FILE @ '' ] && cp '' @ SAVES_FILE @ '' '' @ QUOTE # cache @ QUOTE # '' 2>/dev/null'')) ov;
          Some (ov\<lparr>lodor_saves_items := items, lodor_saves_sel := 0, lodor_show_saves := True\<rparr>)
        })"

definition do_action :: "system \<Rightarrow> string \<Rightarrow> overlays \<Rightarrow> overlays option" where
  "do_action en ident ov =
    (if ident = ''play'' then action_fetch en True ov
     else if ident = ''download'' then action_fetch en False ov
     else if ident = ''queue'' then Some (close_actions (set_fs ov (Lodor_queueDownload (o_fs ov) (lodor_rompath ov))))
     else if ident = ''syncsave'' then Some (sync_save en ov)
     else if ident = ''serversaves'' then open_saves en ov
     else if ident = ''delete'' then Some (ov\<lparr>lodor_confirm_kind := 1, lodor_show_confirm := True\<rparr>)
     else if ident = ''emupick'' then do {
       (items, sel) \<leftarrow> Lodor_buildEmuPick (o_fs ov) (lodor_rompath ov);
       Some (ov\<lparr>lodor_emupick_items := items, lodor_emupick_sel := sel, lodor_show_emupick := True\<rparr>)
     }
     else if ident = ''details'' then Some (ov\<lparr>lodor_show_details := True\<rparr>)
     else Some ov)"

definition actions_step :: "system \<Rightarrow> kb_pad \<Rightarrow> overlays \<Rightarrow> overlays option" where
  "actions_step en pad ov =
    (let ac = length (lodor_action_items ov); sel = lodor_action_sel ov in
     if k_up pad then Some (if 0 < ac then ov\<lparr>lodor_action_sel := prev_row ac sel\<rparr> else ov)
     else if k_down pad then Some (if 0 < ac then ov\<lparr>lodor_action_sel := next_row ac sel\<rparr> else ov)
     else if k_b pad then Some (close_actions ov)
     else if k_a pad \<and> sel < ac then do_action en (e_path (lodor_action_items ov ! sel)) ov
     else Some ov)"

section \<open>One frame\<close>

definition overlay_step :: "system \<Rightarrow> kb_pad \<Rightarrow> overlays \<Rightarrow> overlays option" where
  "overlay_step en pad ov =
    (if lodor_show_confirm ov then confirm_step en pad ov
     else if lodor_show_details ov then Some (details_step pad ov)
     else if lodor_show_saves ov then Some (saves_step pad ov)
     else if lodor_show_feed ov then Some (feed_step pad ov)
     else if lodor_show_sync ov then sync_step en pad ov
     else if lodor_show_settings ov then settings_step en pad ov
     else if lodor_show_profiles ov then Some (profiles_step en pad ov)
     else if lodor_show_ra ov then ra_step en pad ov
     else if lodor_show_switch ov then switcher_step en pad ov
     else if lodor_show_emupick ov then emupick_step en pad ov
     else if lodor_show_actions ov then actions_step en pad ov
     else Some ov)"

fun overlay_run :: "system \<Rightarrow> kb_pad list \<Rightarrow> overlays \<Rightarrow> overlays option" where
  "overlay_run en [] ov = Some ov"
| "overlay_run en (pad # pads) ov =
    (if m_quit (o_minui ov) then Some ov else Option.bind (overlay_step en pad ov) (overlay_run en pads))"


section \<open>What a task leaves alone\<close>

text \<open>Running the engine or a shell command changes the card and the log, nothing else, and deletes no game.\<close>

fun removed :: "event list \<Rightarrow> string list" where
  "removed [] = []"
| "removed (Removed p # l) = p # removed l"
| "removed (_ # l) = removed l"

lemma removed_append [simp]: "removed (k @ l) = removed k @ removed l"
  by (induction k rule: removed.induct) auto

definition kept :: "overlays \<Rightarrow> overlays \<Rightarrow> bool" where
  "kept ov ov' \<longleftrightarrow> ov'\<lparr>o_minui := o_minui ov, o_log := o_log ov\<rparr> = ov \<and> removed (o_log ov') = removed (o_log ov)"

lemma kept_trans: 
  assumes "kept a b" "kept b c"
  shows "kept a c"
proof -
  have "c\<lparr>o_minui := o_minui a, o_log := o_log a\<rparr> = (c\<lparr>o_minui := o_minui b, o_log := o_log b\<rparr>)\<lparr>o_minui := o_minui a, o_log := o_log a\<rparr>" by simp
  also have "\<dots> = a" using assms by (simp only: kept_def)
  finally show ?thesis using assms by (simp only: kept_def)
qed

lemma kept_simps [simp]:
  "kept ov ov"
  "kept a (set_fs b fs) \<longleftrightarrow> kept a b" "kept a (say msg b) \<longleftrightarrow> kept a b" "kept a (sh en cmd b) \<longleftrightarrow> kept a b"
  "kept a (b\<lparr>o_minui := m\<rparr>) \<longleftrightarrow> kept a b" "kept a (b\<lparr>o_log := o_log b @ [Ran cmd vars]\<rparr>) \<longleftrightarrow> kept a b"
  by (simp_all add: kept_def set_fs_def say_def sh_def)

lemma kept_sym: 
  assumes "kept a b"
  shows "kept b a"
proof -
  have "a\<lparr>o_minui := o_minui b, o_log := o_log b\<rparr>
    = (b\<lparr>o_minui := o_minui a, o_log := o_log a\<rparr>)\<lparr>o_minui := o_minui b, o_log := o_log b\<rparr>"
    using assms by (simp only: kept_def)
  also have "\<dots> = b" by simp
  finally show ?thesis using assms by (simp only: kept_def)
qed

lemma kept_from_say: "kept (say msg a) b \<longleftrightarrow> kept a b" "kept (sh en cmd a) b \<longleftrightarrow> kept a b"
  by (blast intro: kept_trans kept_sym kept_simps(1) kept_simps(3,4) [THEN iffD2])+

lemma kept_run_once: "run_once en cmd ov = (a, ov') \<Longrightarrow> kept ov ov'"
  by (auto simp: run_once_def kept_def set_fs_def split: prod.splits)

lemma kept_run: "run_engine en cap cmd ov = (out, ov') \<Longrightarrow> kept ov ov'"
  by (auto simp: run_engine_def Let_def dest!: kept_run_once simp: kept_from_say split: prod.splits if_splits intro: kept_trans)

lemma kept_snd_run: "kept ov (snd (run_engine en cap cmd ov))"
  using kept_run [of en cap cmd ov] by (cases "run_engine en cap cmd ov") simp

lemma kept_open: "open_entry en e ov = Some ov' \<Longrightarrow> kept ov ov'"
  by (auto simp: open_entry_def)

lemma kept_download: "Lodor_downloadThenLaunch en e launch ov = Some (here, ov') \<Longrightarrow> kept ov ov'"
  by (auto simp: Lodor_downloadThenLaunch_def Let_def split: if_splits prod.splits dest!: kept_run kept_open
      intro: kept_trans)

lemma kept_continue: "refresh_continue en ov = Some ov' \<Longrightarrow> kept ov ov'"
  unfolding refresh_continue_def Let_def by (auto simp: Option.bind_eq_Some_conv intro: kept_trans)

lemma kept_sync_now: "sync_now en ov = Some ov' \<Longrightarrow> kept ov ov'"
  by (auto simp: sync_now_def Let_def Option.bind_eq_Some_conv split: prod.splits dest!: kept_run kept_continue intro: kept_trans)

lemma kept_library: "refresh_library en full ov = Some ov' \<Longrightarrow> kept ov ov'"
  by (auto simp: refresh_library_def Let_def Option.bind_eq_Some_conv split: prod.splits if_splits dest!: kept_run kept_continue
      intro: kept_trans)

lemma kept_simple [simp]: "kept ov (download_queue en ov)" "kept ov (download_bios en ov)"
  by (auto simp: download_queue_def download_bios_def split: prod.splits dest!: kept_run intro: kept_trans)


section \<open>Selections stay in their lists\<close>

definition sel_ok :: "'a list \<Rightarrow> nat \<Rightarrow> bool" where
  "sel_ok items sel \<longleftrightarrow> items = [] \<or> sel < length items"

text \<open>A field of the login is being typed only when the RetroAchievements screen has the buttons.\<close>

definition ra_on_top :: "overlays \<Rightarrow> bool" where
  "ra_on_top ov \<longleftrightarrow> lodor_show_ra ov \<and> \<not> lodor_show_confirm ov \<and> \<not> lodor_show_details ov \<and> \<not> lodor_show_saves ov
     \<and> \<not> lodor_show_feed ov \<and> \<not> lodor_show_sync ov \<and> \<not> lodor_show_settings ov \<and> \<not> lodor_show_profiles ov"

definition login_ok :: "overlays \<Rightarrow> bool" where
  "login_ok ov \<longleftrightarrow> kb_ok (o_kb ov)
     \<and> (lodor_ra_stage ov = 0 \<and> lodor_ra_pass ov = []
       \<or> lodor_ra_stage ov = 1 \<and> lodor_ra_pass ov = [] \<and> lodor_ra_user ov = kb_buf (o_kb ov) \<and> kb_cap (o_kb ov) = 64 \<and> ra_on_top ov
       \<or> lodor_ra_stage ov = 2 \<and> lodor_ra_pass ov = kb_buf (o_kb ov) \<and> kb_cap (o_kb ov) = 128 \<and> ra_on_top ov)"

definition rows_ok :: "overlays \<Rightarrow> bool" where
  "rows_ok ov \<longleftrightarrow> sel_ok (lodor_saves_items ov) (lodor_saves_sel ov) \<and> sel_ok (lodor_feed_items ov) (lodor_feed_sel ov)
     \<and> lodor_sync_sel ov < LODOR_SYNC_COUNT (lodor_bg_covers_ok ov) \<and> lodor_settings_sel ov < 7
     \<and> lodor_profiles_sel ov < max 1 (length (lodor_profile_items ov)) \<and> lodor_ra_sel ov < 3
     \<and> sel_ok (o_cards ov) (lodor_switch_sel ov) \<and> sel_ok (lodor_emupick_items ov) (lodor_emupick_sel ov)
     \<and> sel_ok (lodor_action_items ov) (lodor_action_sel ov)"

definition ov_ok :: "overlays \<Rightarrow> bool" where
  "ov_ok ov \<longleftrightarrow> rows_ok ov \<and> login_ok ov"

lemmas ok_defs = ov_ok_def rows_ok_def login_ok_def ra_on_top_def sel_ok_def

lemma kept_ok: 
  assumes "kept a b"
  shows "ov_ok b \<longleftrightarrow> ov_ok a"
proof -
  have "ov_ok (b\<lparr>o_minui := m, o_log := l\<rparr>) \<longleftrightarrow> ov_ok b" for m l by (simp add: ok_defs)
  then show ?thesis using assms unfolding kept_def by metis
qed

lemma kept_ok_simps [simp]:
  "ov_ok (set_fs ov fs) \<longleftrightarrow> ov_ok ov" "ov_ok (say msg ov) \<longleftrightarrow> ov_ok ov" "ov_ok (sh en cmd ov) \<longleftrightarrow> ov_ok ov"
  "ov_ok (ov\<lparr>o_minui := m\<rparr>) \<longleftrightarrow> ov_ok ov"
  by (rule kept_ok; simp)+

lemma log_ok [simp]: "ov_ok (ov\<lparr>o_log := l\<rparr>) \<longleftrightarrow> ov_ok ov"
  by (simp add: ok_defs)

lemma rows_move: "0 < n \<Longrightarrow> prev_row n sel < n" "0 < n \<Longrightarrow> next_row n sel < n"
  by (simp_all add: prev_row_def next_row_def)

lemma close_ok: "ov_ok ov \<Longrightarrow> ov_ok (close_actions ov)" "ov_ok ov \<Longrightarrow> ov_ok (close_saves ov)"
  "ov_ok ov \<Longrightarrow> ov_ok (ov\<lparr>lodor_show_confirm := False\<rparr>)" "ov_ok (ov\<lparr>lodor_confirm_kind := k\<rparr>) \<longleftrightarrow> ov_ok ov"
  by (auto simp: close_actions_def close_saves_def Lodor_freeActions_def ok_defs)

lemma set_fs_fields [simp]: "lodor_rompath (set_fs ov fs) = lodor_rompath ov"
  by (simp add: set_fs_def)

lemma ok_via: "kept a b \<Longrightarrow> ov_ok a \<Longrightarrow> ov_ok b"
  by (simp add: kept_ok)

lemma open_entry_ok: "open_entry en e ov = Some ov' \<Longrightarrow> ov_ok ov \<Longrightarrow> ov_ok ov'"
  using kept_open ok_via by blast

lemma confirm_restore_ok: 
  assumes "confirm_restore en ov = Some ov'" "ov_ok ov"
  shows "ov_ok ov'"
proof -
  obtain out ov1 where r: "run_engine en 256 (restore_cmd (lodor_rompath ov) (lodor_confirm_saveid ov)) ov = (out, ov1)"
    by fastforce
  then have "ov_ok (close_actions (close_saves ov1))" using kept_run assms(2) ok_via close_ok(1,2) by blast
  then show ?thesis
    using assms(1) open_entry_ok r by (auto simp: confirm_restore_def Let_def Option.bind_eq_Some_conv split: if_splits)
qed

lemma confirm_step_ok: 
  assumes "confirm_step en pad ov = Some ov'" "ov_ok ov"
  shows "ov_ok ov'"
proof -
  have "ov_ok (confirm_delete (ov\<lparr>lodor_show_confirm := False\<rparr>))" using assms(2) by (simp add: confirm_delete_def Let_def close_ok)
  then show ?thesis
    using assms confirm_restore_ok [of en "ov\<lparr>lodor_show_confirm := False\<rparr>"]
    by (auto simp: confirm_step_def Let_def Option.bind_eq_Some_conv close_ok split: if_splits)
qed

text \<open>Off the RetroAchievements screen nothing is being typed.\<close>

lemma idle: "login_ok ov \<Longrightarrow> \<not> ra_on_top ov \<Longrightarrow> lodor_ra_stage ov = 0 \<and> lodor_ra_pass ov = [] \<and> kb_ok (o_kb ov)"
  by (auto simp: login_ok_def)

lemma idle_ok: "lodor_ra_stage ov = 0 \<Longrightarrow> lodor_ra_pass ov = [] \<Longrightarrow> kb_ok (o_kb ov) \<Longrightarrow> login_ok ov"
  by (simp add: login_ok_def)

lemma details_ok: 
  assumes "ov_ok ov" "lodor_show_details ov"
  shows "ov_ok (details_step pad ov)"
  using assms idle [of ov] by (auto simp: details_step_def ov_ok_def rows_ok_def ra_on_top_def intro: idle_ok)

lemma saves_ok: 
  assumes "ov_ok ov" "lodor_show_saves ov"
  shows "ov_ok (saves_step pad ov)"
proof -
  have i: "lodor_ra_stage ov = 0" "lodor_ra_pass ov = []" "kb_ok (o_kb ov)" and r: "rows_ok ov"
    using idle [of ov] assms by (auto simp: ov_ok_def ra_on_top_def)
  have "ov_ok (ask_restore sv ov)" for sv
    using i r by (cases "split_label (e_name sv)") (auto simp: ask_restore_def ov_ok_def rows_ok_def intro!: idle_ok)
  moreover have "ov_ok (ov\<lparr>lodor_saves_sel := n\<rparr>)" if "lodor_saves_items ov \<noteq> [] \<longrightarrow> n < length (lodor_saves_items ov)" for n
    using i r that by (auto simp: ov_ok_def rows_ok_def sel_ok_def intro!: idle_ok)
  ultimately show ?thesis using assms(1) close_ok(2) by (auto simp: saves_step_def Let_def rows_move)
qed

lemma feed_ok: 
  assumes "ov_ok ov"
  shows "ov_ok (feed_step pad ov)"
proof -
  have "ov_ok (ov\<lparr>lodor_feed_sel := n\<rparr>)" if "lodor_feed_items ov \<noteq> [] \<longrightarrow> n < length (lodor_feed_items ov)" for n
    using assms that by (auto simp: ok_defs)
  moreover have "ov_ok (ov\<lparr>lodor_show_feed := False, lodor_feed_items := []\<rparr>)" using assms by (auto simp: ok_defs)
  ultimately show ?thesis using assms by (auto simp: feed_step_def Let_def rows_move)
qed


lemma kept_form: "kept a b \<Longrightarrow> b = a\<lparr>o_minui := o_minui b, o_log := o_log b\<rparr>"
  using kept_sym [of a b] by (simp add: kept_def)

lemma kept_top: 
  assumes "kept a b"
  shows "ra_on_top b \<longleftrightarrow> ra_on_top a" "lodor_ra_stage b = lodor_ra_stage a" "lodor_rompath b = lodor_rompath a"
  by (subst kept_form [OF assms], simp add: ra_on_top_def)+

lemma open_feed_ok: 
  assumes "open_feed en ov = Some ov'" "ov_ok ov" "\<not> ra_on_top ov"
  shows "ov_ok ov'"
proof -
  obtain fout ov1 where r: "run_engine en 4096 (engine_cmd '' --sync-feed'') ov = (fout, ov1)" by fastforce
  then have "kept ov ov1" by (rule kept_run)
  then have ok: "ov_ok ov1" "\<not> ra_on_top ov1" using assms(2,3) ok_via kept_top(1) by blast+
  then have "lodor_ra_stage ov1 = 0" "lodor_ra_pass ov1 = []" "kb_ok (o_kb ov1)" "rows_ok ov1" using idle [of ov1] by (auto simp: ov_ok_def)
  moreover obtain fs items where "ov' = (set_fs ov1 fs)\<lparr>lodor_feed_items := items, lodor_show_sync := False, lodor_show_feed := True, lodor_feed_sel := 0\<rparr>"
    using assms(1) r by (auto simp: open_feed_def Let_def Option.bind_eq_Some_conv)
  ultimately show ?thesis by (simp add: set_fs_def ov_ok_def rows_ok_def sel_ok_def idle_ok)
qed

lemma sync_step_ok: 
  assumes "sync_step en pad ov = Some ov'" "ov_ok ov" "lodor_show_sync ov"
  shows "ov_ok ov'"
proof -
  have top: "\<not> ra_on_top ov" using assms(3) by (simp add: ra_on_top_def)
  have i: "lodor_ra_stage ov = 0" "lodor_ra_pass ov = []" "kb_ok (o_kb ov)" and r: "rows_ok ov"
    using idle [of ov] assms(2) top by (auto simp: ov_ok_def)
  have shut: "ov_ok (a\<lparr>lodor_show_sync := False\<rparr>)" if "kept ov a" for a
  proof -
    have "ov_ok a" "lodor_ra_stage a = 0" using ok_via [OF that assms(2)] kept_top(2) [OF that] i(1) by simp_all
    moreover from this have "lodor_ra_pass a = []" "kb_ok (o_kb a)" by (auto simp: ov_ok_def login_ok_def)
    ultimately show ?thesis by (auto simp: ov_ok_def rows_ok_def intro!: idle_ok)
  qed
  have move: "ov_ok (ov\<lparr>lodor_sync_sel := n\<rparr>)" if "n < LODOR_SYNC_COUNT (lodor_bg_covers_ok ov)" for n
    using i r that by (auto simp: ov_ok_def rows_ok_def intro!: idle_ok)
  have "0 < LODOR_SYNC_COUNT (lodor_bg_covers_ok ov)" by (simp add: LODOR_SYNC_COUNT_def)
  moreover have "ov_ok ov'" if "sync_row en ov = Some ov'"
  proof -
    have "ov_ok (bg_covers en ov)" unfolding bg_covers_def Let_def by (rule shut) simp
    moreover have "ov_ok (download_queue en ov)" "ov_ok (download_bios en ov)" using kept_simple ok_via assms(2) by blast+
    moreover have "sync_now en ov = Some ov' \<or> ov' = download_queue en ov \<or> (\<exists>full. refresh_library en full ov = Some ov')
        \<or> ov' = download_bios en ov \<or> open_feed en ov = Some ov' \<or> ov' = bg_covers en ov \<or> ov' = ov"
      using that by (auto simp: sync_row_def Let_def split: if_splits)
    ultimately show ?thesis using assms(2) kept_sync_now kept_library open_feed_ok top ok_via by metis
  qed
  ultimately show ?thesis using assms(1,2) move [of "prev_row (LODOR_SYNC_COUNT (lodor_bg_covers_ok ov)) (lodor_sync_sel ov)"]
      move [of "next_row (LODOR_SYNC_COUNT (lodor_bg_covers_ok ov)) (lodor_sync_sel ov)"] shut [of ov]
    by (auto simp: sync_step_def Let_def rows_move split: if_splits)
qed

lemma setting_ok [simp]: "ov_ok (press_setting en r ov) \<longleftrightarrow> ov_ok ov"
proof -
  have "ov_ok (ov\<lparr>o_cache := c\<rparr>) \<longleftrightarrow> ov_ok ov" for ov c by (simp add: ok_defs)
  then show ?thesis by (simp add: press_setting_def split: prod.splits)
qed

lemma settings_step_ok: 
  assumes "settings_step en pad ov = Some ov'" "ov_ok ov" "lodor_show_settings ov"
  shows "ov_ok ov'"
proof -
  have i: "lodor_ra_stage ov = 0" "lodor_ra_pass ov = []" "kb_ok (o_kb ov)" and r: "rows_ok ov"
    using idle [of ov] assms(2,3) by (auto simp: ov_ok_def ra_on_top_def)
  have fields: "lodor_ra_stage (press_setting en q ov) = 0" "lodor_ra_pass (press_setting en q ov) = []"
    "kb_ok (o_kb (press_setting en q ov))" "rows_ok (press_setting en q ov)" for q
    using i r by (simp_all add: press_setting_def set_fs_def rows_ok_def split: prod.splits)
  have warm: "ov_ok ((press_setting en KeepWarm ov)\<lparr>lodor_wifi_warm := w\<rparr>)" for w
    using fields [of KeepWarm] by (auto simp: ov_ok_def rows_ok_def intro!: idle_ok)
  have ra: "ov_ok ((press_setting en RetroAchievements ov)\<lparr>lodor_show_settings := False, lodor_ra_status := st,
      lodor_ra_stage := 0, lodor_ra_sel := 0, lodor_show_ra := True\<rparr>)" for st
    using fields [of RetroAchievements] by (auto simp: ov_ok_def rows_ok_def intro!: idle_ok)
  have users: "ov_ok (ov1\<lparr>lodor_show_settings := False, lodor_show_profiles := True, lodor_profiles_sel := 0\<rparr>)"
    if "Lodor_buildProfiles en (ov\<lparr>lodor_profile_label := l\<rparr>) = Some ov1" for l ov1
    using that i r by (auto simp: Lodor_buildProfiles_def Let_def Option.bind_eq_Some_conv sh_def set_fs_def ov_ok_def rows_ok_def
      intro!: idle_ok)
  have rest: "ov_ok (ov\<lparr>lodor_show_settings := False, o_onboard := ob, lodor_show_onboard := True\<rparr>)"
    "ov_ok (ov\<lparr>lodor_show_settings := False\<rparr>)" "n < 7 \<Longrightarrow> ov_ok (ov\<lparr>lodor_settings_sel := n\<rparr>)" for ob n
    using i r by (auto simp: ov_ok_def rows_ok_def intro!: idle_ok)
  have "ov_ok ov'" if "settings_row en ov = Some ov'"
    using that assms(2) warm ra users rest by (auto simp: settings_row_def Let_def Option.bind_eq_Some_conv split: if_splits)
  then show ?thesis using assms(1,2) rest by (auto simp: settings_step_def Let_def rows_move split: if_splits)
qed


lemma kept_switch_user: "Lodor_writeActiveProfile en label ov = (ok, ov') \<Longrightarrow> kept ov ov'"
  by (auto simp: Lodor_writeActiveProfile_def Let_def split: prod.splits if_splits intro: kept_trans [OF _ kept_snd_run])

text \<open>A change of what does not count for the rows while nothing is being typed.\<close>

lemma profiles_step_ok: 
  assumes "ov_ok ov" "lodor_show_profiles ov"
  shows "ov_ok (profiles_step en pad ov)"
proof -
  have top: "\<not> ra_on_top ov" using assms(2) by (simp add: ra_on_top_def)
  have i: "lodor_ra_stage ov = 0" "lodor_ra_pass ov = []" "kb_ok (o_kb ov)" and r: "rows_ok ov"
    using idle [of ov] assms(1) top by (auto simp: ov_ok_def)
  have switched: "ov_ok ((say msg (a\<lparr>lodor_profile_label := l, o_cache := c\<rparr>))\<lparr>lodor_show_profiles := False\<rparr>)" if "kept ov a" for a msg l c
  proof -
    have "lodor_ra_stage a = 0" "rows_ok a" "lodor_ra_pass a = []" "kb_ok (o_kb a)"
      using ok_via [OF that assms(1)] kept_top(2) [OF that] i(1) by (auto simp: ov_ok_def login_ok_def)
    then show ?thesis by (auto simp: say_def ov_ok_def rows_ok_def intro!: idle_ok)
  qed
  have "kb_ok (Lodor_obKbOpen [] 16 False False True (o_kb ov))" using i(3) by (simp add: kb_ok_def Lodor_obKbOpen_def)
  then have code: "ov_ok (ov\<lparr>lodor_show_profiles := False, o_add_profile := True, lodor_ob_login_user := u, o_onboard := ob,
      o_kb := Lodor_obKbOpen [] 16 False False True (o_kb ov), lodor_show_onboard := True\<rparr>)" for u ob
    using i r by (auto simp: ov_ok_def rows_ok_def intro!: idle_ok)
  have pick: "ov_ok (pick_profile en e ov)" for e
  proof (cases "Lodor_writeActiveProfile en (tl (e_path e)) ov")
    case (Pair ok a)
    then have "kept ov a" by (rule kept_switch_user)
    then show ?thesis using Pair switched code assms(1) ok_via by (auto simp: pick_profile_def Let_def split: list.splits)
  qed
  have "n < max 1 (length (lodor_profile_items ov)) \<Longrightarrow> ov_ok (ov\<lparr>lodor_profiles_sel := n\<rparr>)" for n
    using i r by (auto simp: ov_ok_def rows_ok_def intro!: idle_ok)
  moreover have "ov_ok (ov\<lparr>lodor_show_profiles := False, lodor_show_settings := True, lodor_settings_sel := 4\<rparr>)"
    using i r by (auto simp: ov_ok_def rows_ok_def intro!: idle_ok)
  ultimately show ?thesis using assms(1) pick by (auto simp: profiles_step_def Let_def rows_move)
qed

lemma kbInput_cap:
  assumes "Lodor_kbInput p k = Some l"
  shows "kb_cap l = kb_cap k"
proof -
  have snap: "kb_cap (snap_if_special k) = kb_cap k" "kb_cap (Lodor_kbSnapSpecial k) = kb_cap k" for k
    by (simp_all add: snap_if_special_def Lodor_kbSnapSpecial_def)
  have "kb_press k = Some l \<Longrightarrow> kb_cap l = kb_cap k"
    by (auto simp: kb_press_def append_buf_def Let_def Option.bind_eq_Some_conv split: if_splits)
  then show ?thesis using assms
    by (auto simp: Lodor_kbInput_def snap kb_left_def kb_right_def split: if_splits)
qed

lemma ra_step_ok: 
  assumes "ra_step en pad ov = Some ov'" "ov_ok ov" "ra_on_top ov"
  shows "ov_ok ov'"
proof -
  have r: "rows_ok ov" and l: "login_ok ov" and k: "kb_ok (o_kb ov)" using assms(2) by (auto simp: ov_ok_def login_ok_def)
  have keys: "ov_ok ov'" if typed: "ra_keys pad ov = Some ov'"
  proof -
    obtain kb where kb: "Lodor_kbInput pad (o_kb ov) = Some kb" using typed by (auto simp: ra_keys_def Option.bind_eq_Some_conv)
    then have ok: "kb_ok kb" "kb_cap kb = kb_cap (o_kb ov)" using kbInput_ok [OF k, of pad] kbInput_cap by auto
    have "ov_ok (ov\<lparr>o_kb := kb\<rparr>)" if "lodor_ra_stage ov = 0"
      using l r ok that by (auto simp: ov_ok_def rows_ok_def login_ok_def)
    moreover have "ov_ok (ov\<lparr>o_kb := kb, lodor_ra_user := kb_buf kb\<rparr>)" if "lodor_ra_stage ov = 1"
      using l r ok assms(3) that by (auto simp: ov_ok_def rows_ok_def login_ok_def ra_on_top_def)
    moreover have "ov_ok (put_pass (kb_buf kb) (ov\<lparr>o_kb := kb\<rparr>))" if "lodor_ra_stage ov = 2"
      using l r ok assms(3) that by (auto simp: put_pass_def ov_ok_def rows_ok_def login_ok_def ra_on_top_def)
    moreover have "lodor_ra_stage ov = 0 \<or> lodor_ra_stage ov = 1 \<or> lodor_ra_stage ov = 2" using l by (auto simp: login_ok_def)
    ultimately show ?thesis using kb typed by (auto simp: ra_keys_def)
  qed
  have opened: "kb_ok (Lodor_obKbOpen [] n False False False (o_kb ov))" if "0 < n" for n
    using k that by (simp add: kb_ok_def Lodor_obKbOpen_def)
  have wiped: "kb_ok (kb\<lparr>kb_buf := []\<rparr>)" if "kb_ok kb" for kb using that by (auto simp: kb_ok_def split: if_splits)
  have user: "ov_ok (ra_user_done ov)" if "lodor_ra_stage ov = 1"
    using l r that assms(3) opened [of 128] wiped [OF k]
    by (auto simp: ra_user_done_def put_pass_def ov_ok_def rows_ok_def login_ok_def ra_on_top_def Lodor_obKbOpen_def)
  have login: "ov_ok (ra_login en ov)"
  proof -
    let ?ov = "ov\<lparr>o_env := setenv ''LODOR_RA_P'' (lodor_ra_pass ov) (setenv ''LODOR_RA_U'' (lodor_ra_user ov) (o_env ov))\<rparr>"
    obtain rout ov1 where run: "run_engine en 1024 RA_LOGIN_CMD ?ov = (rout, ov1)" by fastforce
    have "ov_ok ?ov" using assms(2) by (simp add: ok_defs)
    then have "rows_ok ov1" "kb_ok (o_kb ov1)" using ok_via [OF kept_run [OF run]] by (auto simp: ov_ok_def login_ok_def)
    then have "rows_ok ((ra_report n (wipe (ov1\<lparr>o_env := e\<rparr>)))\<lparr>lodor_ra_stage := 0\<rparr>)"
      "login_ok ((ra_report n (wipe (ov1\<lparr>o_env := e\<rparr>)))\<lparr>lodor_ra_stage := 0\<rparr>)" for n e
      using wiped by (simp_all add: ra_report_def wipe_def put_pass_def say_def rows_ok_def login_ok_def Let_def)
    then show ?thesis by (simp add: ra_login_def run ov_ok_def Let_def)
  qed
  have pass: "ov_ok (ra_pass_done en ov)" if "lodor_ra_stage ov = 2"
    using r k wiped [OF k] login by (auto simp: ra_pass_done_def wipe_def put_pass_def ov_ok_def rows_ok_def intro!: idle_ok)
  have menu: "ov_ok (ra_menu en pad ov)" if "lodor_ra_stage ov = 0"
  proof -
    have i: "lodor_ra_pass ov = []" using l that by (simp add: login_ok_def)
    have "ov_ok (ov\<lparr>lodor_ra_sel := n\<rparr>)" if "n < 3" for n
      using r i k that \<open>lodor_ra_stage ov = 0\<close> by (simp add: ov_ok_def rows_ok_def idle_ok)
    moreover have "ov_ok (ov\<lparr>lodor_show_ra := False, lodor_ra_sel := 0\<rparr>)"
      using r i k that by (simp add: ov_ok_def rows_ok_def idle_ok)
    moreover have "ov_ok (ov\<lparr>lodor_ra_user := [], o_kb := Lodor_obKbOpen [] 64 False False False (o_kb ov), lodor_ra_stage := 1\<rparr>)"
      using r i opened [of 64] assms(3) by (simp add: ov_ok_def rows_ok_def login_ok_def ra_on_top_def) (simp add: Lodor_obKbOpen_def)
    ultimately show ?thesis using assms(2) by (simp add: ra_menu_def Let_def rows_move)
  qed
  show ?thesis using assms(1) keys user pass menu l by (auto simp: ra_step_def login_ok_def split: if_splits)
qed

lemma kept_resume: 
  assumes "resume_game en path ov = Some ov'"
  shows "kept (ov\<lparr>lodor_show_switch := False\<rparr>) ov'"
proof -
  obtain m e here ov2 where d: "Lodor_downloadThenLaunch en e True ((ov\<lparr>lodor_show_switch := False\<rparr>)\<lparr>o_minui := m\<rparr>) = Some (here, ov2)"
    and ov': "ov' = (if here then ov2 else ov2\<lparr>o_minui := (o_minui ov2)\<lparr>m_should_resume := False\<rparr>\<rparr>)"
    using assms by (auto simp only: resume_game_def Let_def Option.bind_eq_Some_conv prod.case split: prod.splits) auto
  have "kept (ov\<lparr>lodor_show_switch := False\<rparr>) ((ov\<lparr>lodor_show_switch := False\<rparr>)\<lparr>o_minui := m\<rparr>)" by (simp only: kept_simps)
  then have "kept (ov\<lparr>lodor_show_switch := False\<rparr>) ov2" using kept_download [OF d] kept_trans by blast
  then show ?thesis unfolding ov' by (cases here) simp_all
qed

lemma switcher_step_ok:
  assumes "switcher_step en pad ov = Some ov'" "ov_ok ov"
  shows "ov_ok ov'"
proof -
  have sel: "ov_ok (ov\<lparr>lodor_switch_sel := n\<rparr>)" if "n < length (o_cards ov)" for n using assms(2) that by (auto simp: ok_defs)
  have shut: "ov_ok (ov\<lparr>lodor_show_switch := False\<rparr>)" using assms(2) by (auto simp: ok_defs)
  have "ov_ok ov'" if "resume_game en path ov = Some ov'" for path using ok_via [OF kept_resume [OF that] shut] .
  then show ?thesis using assms sel shut by (auto simp: switcher_step_def Let_def rows_move split: if_splits)
qed

lemma rebuilt_actions: 
  assumes "Lodor_rebuildActions fs rom on_device = Some items"
  shows "items \<noteq> []" "\<exists>i < length items. first_index (\<lambda>e. e_path e = ''emupick'') items = Some i"
  using assms by (auto simp: Lodor_rebuildActions_def Let_def Option.bind_eq_Some_conv list_entry_def first_index_def split: option.splits if_splits)

lemma emupick_step_ok: 
  assumes "emupick_step en pad ov = Some ov'" "ov_ok ov"
  shows "ov_ok ov'"
proof -
  have sel: "ov_ok (ov\<lparr>lodor_emupick_sel := n\<rparr>)" if "n < length (lodor_emupick_items ov)" for n using assms(2) that by (auto simp: ok_defs)
  have shut: "ov_ok (ov\<lparr>lodor_show_emupick := False, lodor_emupick_items := []\<rparr>)" using assms(2) by (auto simp: ok_defs)
  have "ov_ok ov'" if chosen: "choose_emulator en pick ov = Some ov'" for pick
  proof -
    obtain fs items d where items: "Lodor_rebuildActions fs (lodor_rompath ov) (lodor_on_device ov) = Some items"
      and ov': "ov' = (set_fs ov fs)\<lparr>lodor_show_emupick := False, lodor_emupick_items := [], lodor_action_items := items,
        lodor_action_sel := (case first_index (\<lambda>e. e_path e = ''emupick'') items of Some i \<Rightarrow> i | None \<Rightarrow> d)\<rparr>"
      using chosen by (auto simp: choose_emulator_def Let_def Option.bind_eq_Some_conv set_fs_def)
    obtain i where "i < length items" "first_index (\<lambda>e. e_path e = ''emupick'') items = Some i" using rebuilt_actions(2) [OF items] by blast
    then show ?thesis using assms(2) unfolding ov' by (simp add: set_fs_def ok_defs)
  qed
  then show ?thesis using assms sel shut by (auto simp: emupick_step_def Let_def rows_move split: if_splits)
qed

lemma action_fetch_ok: 
  assumes "action_fetch en launch ov = Some ov'" "ov_ok ov"
  shows "ov_ok ov'"
proof -
  have "ov_ok (a\<lparr>o_search := q\<rparr>) \<longleftrightarrow> ov_ok a" for a q by (simp add: ok_defs)
  then have "ov_ok ((close_actions ov)\<lparr>o_search := q\<rparr>)" "ov_ok (close_actions ov)" for q using close_ok(1) [OF assms(2)] by simp_all
  moreover obtain e a here where "Lodor_downloadThenLaunch en e launch a = Some (here, ov')"
    "a = close_actions ov \<or> (\<exists>q. a = (close_actions ov)\<lparr>o_search := q\<rparr>)"
  proof (cases "lodor_actions_from_search ov")
    case True
    then obtain e here where "Lodor_downloadThenLaunch en e launch
        ((close_actions ov)\<lparr>o_search := Lodor_closeSearch (o_search (close_actions ov))\<rparr>) = Some (here, ov')"
      using assms(1) by (clarsimp simp add: action_fetch_def Let_def Option.bind_eq_Some_conv simp del: close_ok)
    then show ?thesis using that by blast
  next
    case False
    then obtain e here where "Lodor_downloadThenLaunch en e launch (close_actions ov) = Some (here, ov')"
      using assms(1) by (clarsimp simp add: action_fetch_def Let_def Option.bind_eq_Some_conv)
    then show ?thesis using that by blast
  qed
  ultimately show ?thesis using kept_download ok_via by blast
qed

lemma open_saves_ok: 
  assumes "open_saves en ov = Some ov'" "ov_ok ov" "\<not> ra_on_top ov"
  shows "ov_ok ov'"
proof -
  define ov0 where "ov0 = set_fs ov (mkdir (o_fs ov) (c_trunc MAX_PATH (PAK_DIR @ ''/.saves-cache'')))"
  note opened = assms(1) [unfolded open_saves_def Let_def, folded ov0_def]
  have kept0: "kept ov ov0" by (simp add: ov0_def)
  obtain x c1 c2 items where x: "x = ov0 \<or> x = say ''Loading save points...'' ov0"
    and ov': "ov' = (sh en c2 (sh en c1 x))\<lparr>lodor_saves_items := items, lodor_saves_sel := 0, lodor_show_saves := True\<rparr>"
  proof (cases "exists (o_fs ov0) (Lodor_savesCachePath (lodor_rompath ov) MAX_PATH)")
    case True
    then show ?thesis using opened that by (clarsimp simp: Option.bind_eq_Some_conv) blast
  next
    case False
    then show ?thesis using opened that by (clarsimp simp: Option.bind_eq_Some_conv) blast
  qed
  define a where "a = sh en c2 (sh en c1 x)"
  have a: "kept ov a" "ov' = a\<lparr>lodor_saves_items := items, lodor_saves_sel := 0, lodor_show_saves := True\<rparr>"
    using x ov' kept0 by (auto simp: a_def)
  have "ov_ok a" "\<not> ra_on_top a" using ok_via [OF a(1) assms(2)] kept_top(1) [OF a(1)] assms(3) by simp_all
  then have "lodor_ra_stage a = 0" "lodor_ra_pass a = []" "kb_ok (o_kb a)" "rows_ok a" using idle [of a] by (auto simp: ov_ok_def)
  then show ?thesis unfolding a(2) by (simp add: ov_ok_def rows_ok_def sel_ok_def idle_ok)
qed


lemma EPADD_sel: "LODOR_EPADD rom cur stem def acc = Some acc' \<Longrightarrow> snd acc < max 1 (length (fst acc)) \<Longrightarrow> snd acc' < max 1 (length (fst acc'))"
  by (auto simp: LODOR_EPADD_def Let_def Option.bind_eq_Some_conv split: if_splits prod.splits)

lemma buildEmuPick_sel:
  assumes "Lodor_buildEmuPick fs rom = Some (items, n)"
  shows "sel_ok items n"
proof -
  let ?P = "\<lambda>acc :: entry list \<times> nat. snd acc < max 1 (length (fst acc))"
  obtain tag cur pre start where start: "LODOR_EPADD rom cur tag True ([], 0) = Some start"
    and all: "fold_opt (\<lambda>root acc. case opendir fs root of None \<Rightarrow> Some acc | Some dh \<Rightarrow> fold_opt (\<lambda>dp acc.
        case variant_stem fs root pre (d_name dp) of None \<Rightarrow> Some acc | Some stem \<Rightarrow> LODOR_EPADD rom cur stem False acc) dh acc)
      pak_roots start = Some (items, n)"
    using assms by (auto simp: Lodor_buildEmuPick_def Let_def Option.bind_eq_Some_conv)
  have inner: "?P b" if "fold_opt (\<lambda>dp acc. case variant_stem fs root pre (d_name dp) of None \<Rightarrow> Some acc
      | Some stem \<Rightarrow> LODOR_EPADD rom cur stem False acc) dh a = Some b" "?P a" for root dh a b
    by (rule fold_opt_invariant [where P = ?P, OF that]) (auto dest: EPADD_sel split: option.splits)
  have "?P (items, n)"
    by (rule fold_opt_invariant [where P = ?P, OF all]) (use EPADD_sel [OF start] in \<open>auto dest: inner split: option.splits\<close>)
  then show ?thesis by (cases items) (auto simp: sel_ok_def)
qed

lemma actions_step_ok: 
  assumes "actions_step en pad ov = Some ov'" "ov_ok ov" "\<not> ra_on_top ov"
  shows "ov_ok ov'"
proof -
  have i: "lodor_ra_stage ov = 0" "lodor_ra_pass ov = []" "kb_ok (o_kb ov)" and r: "rows_ok ov"
    using idle [of ov] assms(2,3) by (auto simp: ov_ok_def)
  have sel: "ov_ok (ov\<lparr>lodor_action_sel := n\<rparr>)" if "n < length (lodor_action_items ov)" for n
    using i r that by (simp add: ov_ok_def rows_ok_def sel_ok_def idle_ok)
  have pick: "ov_ok (ov\<lparr>lodor_emupick_items := items, lodor_emupick_sel := n, lodor_show_emupick := True\<rparr>)"
    if built: "Lodor_buildEmuPick (o_fs ov) (lodor_rompath ov) = Some (items, n)" for items n
  proof -
    obtain tag pak core b where "Lodor_romTag (lodor_rompath ov) = Some tag" "Lodor_resolveEmu (o_fs ov) (lodor_rompath ov) = Some (pak, core)"
      "Entry_new (lodor_rompath ov) ENTRY_ROM = Some b"
      using built by (auto simp: Lodor_buildEmuPick_def LODOR_EPADD_def list_entry_def Let_def Option.bind_eq_Some_conv)
    have "sel_ok items n" using built by (rule buildEmuPick_sel)
    then show ?thesis using i r by (simp add: ov_ok_def rows_ok_def idle_ok)
  qed
  have shown: "ov_ok (ov\<lparr>lodor_confirm_kind := 1, lodor_show_confirm := True\<rparr>)" "ov_ok (ov\<lparr>lodor_show_details := True\<rparr>)"
    using i r by (simp_all add: ov_ok_def rows_ok_def idle_ok)
  have save: "ov_ok (sync_save en ov)" using ok_via [OF kept_snd_run assms(2)] by (simp add: sync_save_def Let_def close_ok)
  have "ov_ok ov'" if "do_action en ident ov = Some ov'" for ident
    using that assms(2) action_fetch_ok open_saves_ok [OF _ assms(2,3)] pick shown save close_ok(1)
    by (auto simp: do_action_def Option.bind_eq_Some_conv split: if_splits)
  then show ?thesis using assms(1,2) sel close_ok(1) by (auto simp: actions_step_def Let_def rows_move split: if_splits)
qed

lemma step_ok:
  assumes "overlay_step en pad ov = Some ov'" "ov_ok ov"
  shows "ov_ok ov'"
  using assms confirm_step_ok details_ok saves_ok feed_ok sync_step_ok settings_step_ok profiles_step_ok
    ra_step_ok switcher_step_ok emupick_step_ok actions_step_ok
  by (auto simp: overlay_step_def ra_on_top_def split: if_splits)

text \<open>A frame without A cannot fail: only what A starts reads paths of any length.\<close>

lemma step_total:
  assumes "ov_ok ov" "\<not> k_a pad"
  shows "overlay_step en pad ov \<noteq> None"
proof -
  have "ra_keys pad ov \<noteq> None"
    using kbInput_ok [of "o_kb ov" pad] assms(1) by (auto simp: ra_keys_def Let_def ov_ok_def login_ok_def)
  then show ?thesis using assms(2)
    by (simp add: overlay_step_def confirm_step_def sync_step_def settings_step_def ra_step_def switcher_step_def
      emupick_step_def actions_step_def Let_def)
qed

text \<open>
  C39. Whatever is pressed on the overlays, every selection stays inside its list (the timeline, the
  feed, the sync and settings menus, the users, the cards, the emulators, the actions), the keyboard
  stays on its grid and its text in its buffer, and the password is empty unless it is being typed on
  the RetroAchievements screen; and from there a frame without A always has a result.
\<close>

theorem overlays_invariant:
  assumes "overlay_run en pads ov = Some ov'" "ov_ok ov"
  shows "rows_ok ov' \<and> kb_ok (o_kb ov') \<and> (lodor_ra_pass ov' \<noteq> [] \<longrightarrow> lodor_ra_stage ov' = 2 \<and> ra_on_top ov')
    \<and> (\<not> k_a pad \<longrightarrow> overlay_step en pad ov' \<noteq> None)"
proof -
  have "ov_ok ov'" using assms
  proof (induction pads arbitrary: ov)
    case (Cons pad pads)
    then show ?case using step_ok by (auto simp: Option.bind_eq_Some_conv split: if_splits)
  qed simp
  then show ?thesis using step_total by (auto simp: ov_ok_def login_ok_def)
qed

section \<open>Deleting\<close>

text \<open>What deleting is about: the games deleted so far, the question, and the game the actions are about.\<close>

definition modal :: "overlays \<Rightarrow> string list \<times> bool \<times> nat \<times> string" where
  "modal ov = (removed (o_log ov), lodor_show_confirm ov, lodor_confirm_kind ov, lodor_rompath ov)"

lemma kept_modal: 
  assumes "kept a b"
  shows "modal b = modal a"
proof -
  have "removed (o_log b) = removed (o_log a)" using assms by (simp add: kept_def)
  then show ?thesis unfolding modal_def by (subst (2 3 4) kept_form [OF assms]) simp
qed

lemma modal_simps [simp]:
  "modal (set_fs ov fs) = modal ov" "modal (say msg ov) = modal ov" "modal (sh en cmd ov) = modal ov" "modal (ov\<lparr>o_minui := m\<rparr>) = modal ov"
  "modal (close_actions ov) = modal ov" "modal (close_saves ov) = modal ov" "modal (press_setting en r ov) = modal ov"
  "modal (snd (run_engine en cap cmd ov)) = modal ov"
  by (rule kept_modal, simp)+ (simp_all add: modal_def close_actions_def Lodor_freeActions_def close_saves_def press_setting_def set_fs_def
    kept_modal [OF kept_snd_run, unfolded modal_def] split: prod.splits)

lemma modal_shut: "modal (ov\<lparr>lodor_show_confirm := b\<rparr>) = (removed (o_log ov), b, lodor_confirm_kind ov, lodor_rompath ov)"
  "modal (ov\<lparr>lodor_confirm_kind := k\<rparr>) = (removed (o_log ov), lodor_show_confirm ov, k, lodor_rompath ov)"
  by (simp_all add: modal_def)

text \<open>Answering a question: a deletion is of the game that the actions are about.\<close>

lemma confirm_modal: 
  assumes "confirm_step en pad ov = Some ov'"
  shows "modal ov' = (if k_a pad then (removed (o_log ov) @ (if lodor_confirm_kind ov = 1 then [lodor_rompath ov] else []), False, 0, lodor_rompath ov)
    else if k_b pad then (removed (o_log ov), False, 0, lodor_rompath ov) else modal ov)"
proof -
  let ?q = "ov\<lparr>lodor_show_confirm := False\<rparr>"
  have final: "modal (a\<lparr>lodor_confirm_kind := 0\<rparr>) = (fst (modal a), fst (snd (modal a)), 0, snd (snd (snd (modal a))))" for a
    by (simp add: modal_def)
  have del: "modal (confirm_delete ?q) = (removed (o_log ov) @ [lodor_rompath ov], False, lodor_confirm_kind ov, lodor_rompath ov)"
    by (simp add: confirm_delete_def Let_def) (simp add: modal_def set_fs_def)
  have res: "modal a = (removed (o_log ov), False, lodor_confirm_kind ov, lodor_rompath ov)" if "confirm_restore en ?q = Some a" for a
  proof -
    have "modal a = modal (snd (run_engine en 256 (restore_cmd (lodor_rompath ?q) (lodor_confirm_saveid ?q)) ?q))"
      using that kept_modal [OF kept_open]
      by (cases "run_engine en 256 (restore_cmd (lodor_rompath ?q) (lodor_confirm_saveid ?q)) ?q")
        (auto simp: confirm_restore_def Let_def Option.bind_eq_Some_conv split: if_splits)
    then show ?thesis by (simp add: modal_shut)
  qed
  show ?thesis using assms del res
    by (auto simp: confirm_step_def Let_def Option.bind_eq_Some_conv final modal_shut split: if_splits)
qed

lemma modal_eq: "modal ov = (removed (o_log ov), lodor_show_confirm ov, lodor_confirm_kind ov, lodor_rompath ov)"
  by (rule modal_def)

lemma quiet_steps: 
  "modal (details_step pad ov) = modal ov" "modal (feed_step pad ov) = modal ov" "modal (profiles_step en pad ov) = modal ov"
  "modal (ra_menu en pad ov) = modal ov" "modal (ra_user_done ov) = modal ov" "modal (ra_pass_done en ov) = modal ov"
proof -
  have pick: "modal (pick_profile en e ov) = modal ov" for e
  proof (cases "Lodor_writeActiveProfile en (tl (e_path e)) ov")
    case (Pair ok a)
    then have "modal a = modal ov" using kept_switch_user kept_modal by blast
    then show ?thesis using Pair by (auto simp: pick_profile_def Let_def modal_def say_def split: list.splits if_splits)
  qed
  have login: "modal (ra_login en ov) = modal ov"
  proof -
    let ?ov = "ov\<lparr>o_env := setenv ''LODOR_RA_P'' (lodor_ra_pass ov) (setenv ''LODOR_RA_U'' (lodor_ra_user ov) (o_env ov))\<rparr>"
    obtain rout a where run: "run_engine en 1024 RA_LOGIN_CMD ?ov = (rout, a)" by fastforce
    have "modal a = modal ov" using kept_modal [OF kept_run [OF run]] by (simp add: modal_def)
    moreover have "modal ((ra_report n (wipe (a\<lparr>o_env := e\<rparr>)))\<lparr>lodor_ra_stage := 0\<rparr>) = modal a" for n e
      by (simp add: ra_report_def wipe_def put_pass_def say_def modal_def Let_def)
    ultimately show ?thesis by (simp add: ra_login_def run Let_def)
  qed
  have rows: "modal (ov\<lparr>lodor_profiles_sel := n\<rparr>) = modal ov" "modal (ov\<lparr>lodor_ra_sel := n\<rparr>) = modal ov" for n by (simp_all add: modal_def)
  show "modal (details_step pad ov) = modal ov" "modal (feed_step pad ov) = modal ov"
    by (simp_all add: details_step_def feed_step_def Let_def modal_def)
  show "modal (profiles_step en pad ov) = modal ov"
    using pick rows by (simp add: profiles_step_def Let_def) (simp add: modal_def)
  show "modal (ra_menu en pad ov) = modal ov" using rows by (simp add: ra_menu_def Let_def) (simp add: modal_def)
  show "modal (ra_user_done ov) = modal ov" by (simp add: ra_user_done_def put_pass_def modal_def)
  show "modal (ra_pass_done en ov) = modal ov" using login by (simp add: ra_pass_done_def) (simp add: modal_def wipe_def put_pass_def)
qed

lemma sync_modal: 
  assumes "sync_step en pad ov = Some ov'"
  shows "modal ov' = modal ov"
proof -
  have rows: "modal (ov\<lparr>lodor_sync_sel := n\<rparr>) = modal ov" "modal (ov\<lparr>lodor_show_sync := b\<rparr>) = modal ov" for n b ov by (simp_all add: modal_def)
  have feed: "modal ov' = modal ov" if "open_feed en ov = Some ov'"
  proof -
    have "modal (snd (run_engine en 4096 (engine_cmd '' --sync-feed'') ov)) = modal ov" by simp
    then show ?thesis using that
      by (cases "run_engine en 4096 (engine_cmd '' --sync-feed'') ov") (auto simp: open_feed_def Let_def Option.bind_eq_Some_conv modal_def set_fs_def)
  qed
  have "sync_row en ov = Some ov' \<Longrightarrow> sync_now en ov = Some ov' \<or> ov' = download_queue en ov \<or> (\<exists>full. refresh_library en full ov = Some ov')
      \<or> ov' = download_bios en ov \<or> open_feed en ov = Some ov' \<or> ov' = bg_covers en ov \<or> ov' = ov"
    by (auto simp: sync_row_def Let_def split: if_splits)
  moreover have "modal (bg_covers en ov) = modal ov" by (simp add: bg_covers_def Let_def rows)
  ultimately have "sync_row en ov = Some ov' \<Longrightarrow> modal ov' = modal ov"
    using kept_modal kept_sync_now kept_library kept_simple feed by metis
  then show ?thesis using assms rows by (auto simp: sync_step_def Let_def split: if_splits)
qed

lemma settings_modal: 
  assumes "settings_step en pad ov = Some ov'"
  shows "modal ov' = modal ov"
proof -
  have press: "modal ((press_setting en KeepWarm ov)\<lparr>lodor_wifi_warm := w\<rparr>) = modal ov"
    "modal ((press_setting en RetroAchievements ov)\<lparr>lodor_show_settings := False, lodor_ra_status := st,
      lodor_ra_stage := 0, lodor_ra_sel := 0, lodor_show_ra := True\<rparr>) = modal ov" for w st
    by (simp_all add: modal_def press_setting_def set_fs_def split: prod.splits)
  have "modal (ov1\<lparr>lodor_show_settings := False, lodor_show_profiles := True, lodor_profiles_sel := 0\<rparr>) = modal ov"
    if "Lodor_buildProfiles en (ov\<lparr>lodor_profile_label := l\<rparr>) = Some ov1" for l ov1
    using that by (auto simp: Lodor_buildProfiles_def Let_def Option.bind_eq_Some_conv sh_def set_fs_def modal_def)
  then have "settings_row en ov = Some ov' \<Longrightarrow> modal ov' = modal ov"
    using press by (auto simp: settings_row_def Let_def Option.bind_eq_Some_conv split: if_splits) (simp add: modal_def)
  then show ?thesis using assms by (auto simp: settings_step_def Let_def split: if_splits) (simp_all add: modal_def)
qed

text \<open>Whether a press of A picks Delete.\<close>

definition on_delete :: "overlays \<Rightarrow> bool" where
  "on_delete ov \<longleftrightarrow> lodor_show_actions ov \<and> lodor_action_sel ov < length (lodor_action_items ov)
     \<and> e_path (lodor_action_items ov ! lodor_action_sel ov) = ''delete''"

lemma actions_modal:
  assumes "actions_step en pad ov = Some ov'" "lodor_show_actions ov"
  shows "modal ov' = modal ov \<or> k_a pad \<and> on_delete ov \<and> modal ov' = (removed (o_log ov), True, 1, lodor_rompath ov)"
proof -
  have rows: "modal (ov\<lparr>lodor_action_sel := n\<rparr>) = modal ov" "modal (ov\<lparr>lodor_show_details := b\<rparr>) = modal ov"
    "modal (ov\<lparr>lodor_emupick_items := l, lodor_emupick_sel := n, lodor_show_emupick := b\<rparr>) = modal ov"
    "modal (a\<lparr>lodor_saves_items := l, lodor_saves_sel := n, lodor_show_saves := b\<rparr>) = modal a"
    "modal (a\<lparr>o_search := q\<rparr>) = modal a" for n b l a q by (simp_all add: modal_def)
  have fetch: "modal ov' = modal ov" if fetched: "action_fetch en launch ov = Some ov'" for launch
  proof (cases "lodor_actions_from_search ov")
    case True
    then obtain e here where "Lodor_downloadThenLaunch en e launch
        ((close_actions ov)\<lparr>o_search := Lodor_closeSearch (o_search (close_actions ov))\<rparr>) = Some (here, ov')"
      using fetched by (clarsimp simp: action_fetch_def Let_def Option.bind_eq_Some_conv)
    from kept_modal [OF kept_download [OF this]] show ?thesis by (simp only: rows modal_simps)
  next
    case False
    then obtain e here where "Lodor_downloadThenLaunch en e launch (close_actions ov) = Some (here, ov')"
      using fetched by (clarsimp simp: action_fetch_def Let_def Option.bind_eq_Some_conv)
    from kept_modal [OF kept_download [OF this]] show ?thesis by (simp only: modal_simps)
  qed
  have saves: "modal ov' = modal ov" if "open_saves en ov = Some ov'"
    using that by (auto simp: open_saves_def Let_def Option.bind_eq_Some_conv rows split: if_splits)
  have "modal (sync_save en ov) = modal ov" by (simp add: sync_save_def Let_def)
  then have act: "modal ov' = modal ov \<or> ident = ''delete'' \<and> modal ov' = (removed (o_log ov), True, 1, lodor_rompath ov)"
    if "do_action en ident ov = Some ov'" for ident
    using that fetch saves rows
    by (auto simp: do_action_def Option.bind_eq_Some_conv split: if_splits) (simp add: modal_def)
  then show ?thesis using assms rows by (auto simp: actions_step_def Let_def on_delete_def split: if_splits)
qed

lemma rest_modal:
  "ra_step en pad ov = Some ov' \<Longrightarrow> modal ov' = modal ov"
  "switcher_step en pad ov = Some ov' \<Longrightarrow> modal ov' = modal ov"
  "emupick_step en pad ov = Some ov' \<Longrightarrow> modal ov' = modal ov"
proof -
  have "modal ov' = modal ov" if typed: "ra_keys pad ov = Some ov'"
  proof -
    have "modal (ov\<lparr>o_kb := k\<rparr>) = modal ov" "modal (ov\<lparr>o_kb := k, lodor_ra_user := u\<rparr>) = modal ov"
      "modal (put_pass u (ov\<lparr>o_kb := k\<rparr>)) = modal ov" for k u by (simp_all add: put_pass_def modal_def)
    then show ?thesis using typed by (auto simp: ra_keys_def Let_def Option.bind_eq_Some_conv split: if_splits)
  qed
  then show "ra_step en pad ov = Some ov' \<Longrightarrow> modal ov' = modal ov"
    using quiet_steps by (auto simp: ra_step_def split: if_splits)
  have "modal ov' = modal ov" if "resume_game en path ov = Some ov'" for path
    using kept_modal [OF kept_resume [OF that]] by (simp add: modal_def)
  then show "switcher_step en pad ov = Some ov' \<Longrightarrow> modal ov' = modal ov"
    by (auto simp: switcher_step_def Let_def modal_def split: if_splits)
  have "modal ov' = modal ov" if "choose_emulator en pick ov = Some ov'" for pick
    using that by (auto simp: choose_emulator_def Let_def Option.bind_eq_Some_conv modal_def set_fs_def)
  then show "emupick_step en pad ov = Some ov' \<Longrightarrow> modal ov' = modal ov"
    by (auto simp: emupick_step_def Let_def modal_def split: if_splits)
qed

lemma step_modal:
  assumes "overlay_step en pad ov = Some ov'" "\<not> lodor_show_confirm ov"
  shows "modal ov' = modal ov \<or> modal ov' = (removed (o_log ov), True, 2, lodor_rompath ov)
    \<or> k_a pad \<and> on_delete ov \<and> modal ov' = (removed (o_log ov), True, 1, lodor_rompath ov)"
proof -
  have "modal (saves_step pad ov) = modal ov \<or> modal (saves_step pad ov) = (removed (o_log ov), True, 2, lodor_rompath ov)"
    by (auto simp: saves_step_def ask_restore_def close_saves_def Let_def modal_def split: prod.splits)
  then show ?thesis
    using assms quiet_steps sync_modal settings_modal rest_modal actions_modal [of en pad ov ov']
    by (simp add: overlay_step_def split: if_splits) blast+
qed


definition answered :: "kb_pad list \<Rightarrow> bool" where
  "answered pads \<longleftrightarrow> (\<exists>waits y post. pads = waits @ y # post \<and> (\<forall>w \<in> set waits. \<not> k_a w \<and> \<not> k_b w) \<and> k_a y)"

definition asked :: "system \<Rightarrow> kb_pad list \<Rightarrow> overlays \<Rightarrow> string \<Rightarrow> bool" where
  "asked en pads ov p \<longleftrightarrow> (\<exists>pre x rest ov1. pads = pre @ x # rest \<and> overlay_run en pre ov = Some ov1 \<and> k_a x \<and> on_delete ov1
     \<and> lodor_rompath ov1 = p \<and> answered rest)"

lemma asked_later:
  assumes "overlay_step en pad ov = Some ov2" "\<not> m_quit (o_minui ov)" "asked en pads ov2 p"
  shows "asked en (pad # pads) ov p"
proof -
  obtain pre x rest ov1 where "pads = pre @ x # rest" "overlay_run en pre ov2 = Some ov1" "k_a x" "on_delete ov1" "lodor_rompath ov1 = p" "answered rest"
    using assms(3) unfolding asked_def by blast
  then show ?thesis unfolding asked_def using assms(1,2) by (intro exI [of _ "pad # pre"] exI [of _ x] exI [of _ rest] exI [of _ ov1]) simp
qed

lemma answered_later: "answered pads \<Longrightarrow> \<not> k_a pad \<Longrightarrow> \<not> k_b pad \<Longrightarrow> answered (pad # pads)"
  unfolding answered_def by (metis append_Cons set_ConsD)

lemma answered_now: "k_a pad \<Longrightarrow> answered (pad # pads)"
  unfolding answered_def by (intro exI [of _ "[]"]) simp

lemma deletions:
  assumes "overlay_run en pads ov = Some ov'" "p \<in> set (removed (o_log ov'))" "p \<notin> set (removed (o_log ov))"
  shows "asked en pads ov p \<or> lodor_show_confirm ov \<and> lodor_confirm_kind ov = 1 \<and> lodor_rompath ov = p \<and> answered pads"
  using assms
proof (induction pads arbitrary: ov)
  case Nil
  then show ?case by simp
next
  case (Cons pad pads)
  have go: "\<not> m_quit (o_minui ov)" using Cons.prems by auto
  then obtain ov2 where step: "overlay_step en pad ov = Some ov2" and run: "overlay_run en pads ov2 = Some ov'"
    using Cons.prems(1) by (auto simp: Option.bind_eq_Some_conv)
  note IH = Cons.IH [OF run Cons.prems(2)]
  show ?case
  proof (cases "lodor_show_confirm ov")
    case False
    from step_modal [OF step False] have m: "removed (o_log ov2) = removed (o_log ov)" "lodor_rompath ov2 = lodor_rompath ov"
      "lodor_show_confirm ov2 \<longrightarrow> lodor_confirm_kind ov2 = 2 \<or> k_a pad \<and> on_delete ov"
      using False by (auto simp: modal_def)
    have now: "asked en (pad # pads) ov p" if "k_a pad" "on_delete ov" "lodor_rompath ov = p" "answered pads"
      unfolding asked_def using that by (intro exI [of _ "[]"]) simp
    show ?thesis using IH m Cons.prems(3) now asked_later [OF step go] by auto
  next
    case True
    then have "confirm_step en pad ov = Some ov2" using step by (simp add: overlay_step_def)
    note m = confirm_modal [OF this, unfolded modal_def]
    show ?thesis
    proof (cases "k_a pad")
      case True
      then show ?thesis
        using IH m Cons.prems(3) asked_later [OF step go] answered_now [OF True] \<open>lodor_show_confirm ov\<close> by (auto split: if_splits)
    next
      case False
      then show ?thesis
        using IH m Cons.prems(3) asked_later [OF step go] answered_later [of pads pad] \<open>lodor_show_confirm ov\<close> by (auto split: if_splits)
    qed
  qed
qed

text \<open>
  C36. A game is deleted only after two presses about it. Whatever is pressed on the overlays, if a
  game that was not deleted before has been, then A was pressed with Delete selected in the actions of
  that very game, and the next press of A or B after it was A; no engine run and no other screen
  deletes a game.
\<close>

theorem delete_confirmed:
  assumes "overlay_run en pads ov = Some ov'" "\<not> lodor_show_confirm ov"
    and "p \<in> set (removed (o_log ov'))" "p \<notin> set (removed (o_log ov))"
  shows "\<exists>pre x waits y post ov1. pads = pre @ x # waits @ y # post \<and> overlay_run en pre ov = Some ov1 \<and> k_a x
    \<and> lodor_show_actions ov1 \<and> e_path (lodor_action_items ov1 ! lodor_action_sel ov1) = ''delete'' \<and> lodor_rompath ov1 = p
    \<and> (\<forall>w \<in> set waits. \<not> k_a w \<and> \<not> k_b w) \<and> k_a y"
proof -
  have "asked en pads ov p" using deletions [OF assms(1,3,4)] assms(2) by blast
  then obtain pre x rest ov1 where a: "pads = pre @ x # rest" "overlay_run en pre ov = Some ov1" "k_a x" "on_delete ov1"
    "lodor_rompath ov1 = p" "answered rest" by (auto simp: asked_def)
  then obtain waits y post where "rest = waits @ y # post" "\<forall>w \<in> set waits. \<not> k_a w \<and> \<not> k_b w" "k_a y" by (auto simp: answered_def)
  with a show ?thesis unfolding on_delete_def by blast
qed


definition demo_system :: system where
  "demo_system = \<lparr>en_run = (\<lambda>cmd vars fs. (\<lparr>at_frames = (\<lambda>_. (True, False)), at_out = Some (''restored=1 staged=0'' @ [NL]), at_wifi_fail = None\<rparr>, fs)),
     en_system = (\<lambda>cmd vars fs. fs), en_reset = False, en_wo = all_ok, en_when = [], en_clock = demo_clock, en_mtime = (\<lambda>_. None)\<rparr>"

definition demo_overlays :: overlays where
  "demo_overlays = \<lparr>o_minui = one_rom, o_log = [], o_env = [], lodor_show_confirm = False, lodor_confirm_kind = 0, lodor_confirm_saveid = [],
     lodor_confirm_savewhen = [], lodor_confirm_savedev = [], lodor_show_details = False, lodor_show_saves = False,
     lodor_saves_items = [], lodor_saves_sel = 0, lodor_show_feed = False, lodor_feed_items = [], lodor_feed_sel = 0,
     lodor_show_sync = False, lodor_sync_sel = 0, lodor_bg_covers_ok = True, lodor_show_settings = False, lodor_settings_sel = 0,
     lodor_wifi_warm = False, o_cache = load_cache (m_fs one_rom), lodor_show_profiles = False, lodor_profile_items = [],
     lodor_profiles_sel = 0, lodor_profile_label = [], lodor_show_ra = False, lodor_ra_stage = 0, lodor_ra_sel = 0,
     lodor_ra_user = [], lodor_ra_pass = [], lodor_ra_bytes = replicate 128 NUL, lodor_ra_status = [], o_kb = demo_kb\<lparr>kb_cap := 64\<rparr>, lodor_show_switch = False, o_cards = [],
     lodor_switch_sel = 0, lodor_show_emupick = False, lodor_emupick_items = [], lodor_emupick_sel = 0, lodor_show_actions = False,
     lodor_action_items = [], lodor_action_sel = 0, lodor_actions_from_search = False, lodor_rompath = [], lodor_gamename = [],
     lodor_on_device = False, o_search = demo_search, lodor_show_onboard = False, o_onboard = Lodor_resetOnboard,
     o_add_profile = False, lodor_ob_login_user = []\<rparr>"

definition press_a :: kb_pad where "press_a = no_keys\<lparr>k_a := True\<rparr>"

definition delete_row :: entry where
  "delete_row = \<lparr>e_path = ''delete'', e_name = ''Delete'', e_unique = None, e_type = ENTRY_ROM, e_alpha = 0\<rparr>"

definition about_to_delete :: overlays where
  "about_to_delete = demo_overlays\<lparr>lodor_show_actions := True, lodor_action_items := [delete_row], lodor_rompath := ''/g.gba''\<rparr>"

lemma demo_runs: "\<not> m_quit one_rom" by code_simp

lemma delete_run: "\<exists>ov'. overlay_run demo_system [press_a, press_a] about_to_delete = Some ov' \<and> removed (o_log ov') = [''/g.gba'']"
  by (simp add: demo_runs overlay_step_def about_to_delete_def demo_overlays_def actions_step_def press_a_def no_keys_def delete_row_def do_action_def
    confirm_step_def confirm_delete_def close_actions_def Lodor_freeActions_def set_fs_def Let_def)

theorem delete_confirmed_witness:
  "\<exists>pre x waits y post ov1. [press_a, press_a] = pre @ x # waits @ y # post \<and> overlay_run demo_system pre about_to_delete = Some ov1
    \<and> e_path (lodor_action_items ov1 ! lodor_action_sel ov1) = ''delete'' \<and> lodor_rompath ov1 = ''/g.gba''"
proof -
  obtain ov' where r: "overlay_run demo_system [press_a, press_a] about_to_delete = Some ov'" "''/g.gba'' \<in> set (removed (o_log ov'))"
    using delete_run by auto
  have "\<not> lodor_show_confirm about_to_delete" "''/g.gba'' \<notin> set (removed (o_log about_to_delete))"
    by (simp_all add: about_to_delete_def demo_overlays_def)
  from delete_confirmed [OF r(1) this(1) r(2) this(2)] show ?thesis by blast
qed


section \<open>Restoring\<close>

lemma engine_path_plain: "escaped (SDCARD_PATH @ LODOR_ROMM_BIN) = SDCARD_PATH @ LODOR_ROMM_BIN" "length (SDCARD_PATH @ LODOR_ROMM_BIN) < 64"
  "\<forall>c \<in> set ''--restore-save''. plain_char c"
  by code_simp+

lemma restore_words:
  assumes "length (escaped rom) \<le> 1019" "\<forall>c \<in> set saveid. plain_char c" "saveid \<noteq> []" "length saveid < 64"
  shows "sh_words (restore_cmd rom saveid) = Some [SDCARD_PATH @ LODOR_ROMM_BIN, ''--restore-save'', rom, saveid]"
proof -
  let ?bin = "SDCARD_PATH @ LODOR_ROMM_BIN"
  have q: "Lodor_shq rom (2 * int MAX_PATH) = escaped rom"
    using shq_loop_eq [of "2 * int MAX_PATH" "[]" rom] assms(1) by (auto simp: Lodor_shq_def MAX_PATH_def)
  have "length (engine_cmd ('' --restore-save '' @ QUOTE # escaped rom @ QUOTE # '' '' @ saveid)) < 3 * MAX_PATH"
    using assms(1,4) engine_path_plain(2) by (simp add: engine_cmd_def MAX_PATH_def)
  then have eq: "restore_cmd rom saveid = [] @ QUOTE # escaped ?bin @ QUOTE # CHR '' '' # (''--restore-save'' @ CHR '' '' # ([] @ QUOTE # escaped rom @ QUOTE # CHR '' '' # saveid))"
    unfolding restore_cmd_def q by (subst c_trunc_id) (simp_all only: engine_cmd_def engine_path_plain append.simps append_assoc)
  have blank: "sh_lex Bare (Some w) (CHR '' '' # r) = map_option (Cons w) (sh_lex Bare None r)" for w r
    by (simp add: QUOTE_def BACKSLASH_def)
  have field: "sh_lex Bare None ([] @ QUOTE # escaped w @ QUOTE # CHR '' '' # r) = map_option (Cons ([] @ w)) (sh_lex Bare None r)" for w r
    by (rule lex_field_blank) simp
  have 1: "sh_lex Bare None saveid = Some [saveid]" using lex_plain [OF assms(2), of None "[]"] assms(3) by simp
  have 2: "sh_lex Bare None ([] @ QUOTE # escaped rom @ QUOTE # CHR '' '' # saveid) = Some [rom, saveid]"
    by (subst field) (simp only: 1 option.map append.simps)
  have 3: "sh_lex Bare None (''--restore-save'' @ CHR '' '' # r) = map_option (Cons ''--restore-save'') (sh_lex Bare None r)" for r
    using lex_plain [OF engine_path_plain(3), of None "CHR '' '' # r"] by (simp only: option.case blank) simp
  show ?thesis unfolding sh_words_def eq by (subst field, subst 3, subst 2) (simp only: option.map append.simps)
qed

lemma run_engine_log:
  assumes "run_engine en cap cmd ov = (out, ov')"
  shows "\<exists>rest. o_log ov' = o_log ov @ Ran cmd (o_env ov) # rest"
  using assms
  by (auto simp: run_engine_def run_once_def Let_def sh_def say_def set_fs_def split: prod.splits if_splits)

text \<open>
  C37. A flashback restores the save that was chosen and named. With the timeline open on the
  engine's list of saves, pressing A on a row and A again on the question that follows runs the engine
  to restore, for the game of the timeline, the id of that very row, in a command that the shell takes
  apart into just these words; and the question has named the time and the device of that save.
\<close>

theorem flashback_restores_chosen:
  assumes "fs_files fs SAVES_FILE = Some (concat (map (\<lambda>l. l @ [NL]) (map saves_line ps)))" "\<forall>p \<in> set ps. point_ok p"
    and "Lodor_buildSaves ck fs (lodor_rompath ov) = Some (lodor_saves_items ov)"
    and "lodor_show_saves ov" "\<not> lodor_show_confirm ov" "\<not> lodor_show_details ov"
    and "i < length ps" "lodor_saves_sel ov = i" "\<forall>c \<in> set (sp_id (ps ! i)). plain_char c" "length (sp_id (ps ! i)) < 64"
    and "length (escaped (lodor_rompath ov)) \<le> 1019"
    and "k_a a1" "\<not> k_up a1" "\<not> k_down a1" "k_a a2"
    and "overlay_run en [a1, a2] ov = Some ov'" "\<not> m_quit (o_minui ov)"
  shows "\<exists>q cmd rest. overlay_step en a1 ov = Some q \<and> lodor_show_confirm q
    \<and> lodor_confirm_savewhen q = when_shown ck (sp_date (ps ! i)) \<and> lodor_confirm_savedev q = sp_dev (ps ! i)
    \<and> o_log ov' = o_log ov @ Ran cmd (o_env ov) # rest
    \<and> sh_words cmd = Some [SDCARD_PATH @ LODOR_ROMM_BIN, ''--restore-save'', lodor_rompath ov, sp_id (ps ! i)]"
proof -
  let ?sv = "lodor_saves_items ov ! i" and ?p = "ps ! i"
  note rows = timeline_rows [OF assms(1-3)]
  have len: "length (lodor_saves_items ov) = length ps" using rows [THEN arg_cong [where f = length]] by simp
  have "map (\<lambda>e. (e_path e, split_label (e_name e))) (lodor_saves_items ov) ! i = (e_path ?sv, split_label (e_name ?sv))"
    using assms(7) len by simp
  then have sv: "e_path ?sv = sp_id ?p" "split_label (e_name ?sv) = (when_shown ck (sp_date ?p), sp_dev ?p)"
    unfolding rows using assms(7) by simp_all
  let ?q = "ask_restore ?sv ov"
  have q: "overlay_step en a1 ov = Some ?q"
    using assms(4-8,12-14) len by (simp add: overlay_step_def saves_step_def Let_def)
  have f: "lodor_show_confirm ?q" "lodor_confirm_kind ?q = 2" "lodor_confirm_saveid ?q = sp_id ?p" "lodor_rompath ?q = lodor_rompath ov"
    "lodor_confirm_savewhen ?q = when_shown ck (sp_date ?p)" "lodor_confirm_savedev ?q = sp_dev ?p" "o_log ?q = o_log ov" "o_env ?q = o_env ov"
    using sv assms(10) by (simp_all add: ask_restore_def c_trunc_id)
  obtain out ov1 where run: "run_engine en 256 (restore_cmd (lodor_rompath ov) (sp_id ?p)) (?q\<lparr>lodor_show_confirm := False\<rparr>) = (out, ov1)"
    by fastforce
  have "overlay_step en a2 ?q = Some ov'" using assms(16,17) q by (auto simp: Option.bind_eq_Some_conv ask_restore_def split: prod.splits)
  then obtain ov2 where r: "confirm_restore en (?q\<lparr>lodor_show_confirm := False\<rparr>) = Some ov2" "ov' = ov2\<lparr>lodor_confirm_kind := 0\<rparr>"
    using f(1,2) assms(15) by (auto simp: overlay_step_def confirm_step_def Option.bind_eq_Some_conv)
  have "\<exists>l. o_log ov2 = o_log ov1 @ l"
    using r(1) run f(3,4) by (auto simp: confirm_restore_def Let_def Option.bind_eq_Some_conv open_entry_def close_actions_def close_saves_def
      Lodor_freeActions_def say_def split: if_splits)
  moreover obtain rest where "o_log ov1 = o_log ov @ Ran (restore_cmd (lodor_rompath ov) (sp_id ?p)) (o_env ov) # rest"
    using run_engine_log [OF run] f(7,8) by auto
  ultimately have "\<exists>rest. o_log ov' = o_log ov @ Ran (restore_cmd (lodor_rompath ov) (sp_id ?p)) (o_env ov) # rest" using r(2) by auto
  moreover have "sp_id ?p \<noteq> []" using assms(2,7) by (simp add: point_ok_def field_ok_def)
  ultimately show ?thesis using q f restore_words [OF assms(11,9) _ assms(10)] by blast
qed

definition saves_card :: fsys where
  "saves_card = card_with [(SAVES_FILE, concat (map (\<lambda>l. l @ [NL]) (map saves_line demo_points)))]"

definition timeline_open :: overlays where
  "timeline_open = demo_overlays\<lparr>lodor_show_saves := True, lodor_rompath := ''/mnt/SDCARD/Roms/GB (GB)/a.gb'',
     lodor_saves_items := (case Lodor_buildSaves demo_clock saves_card ''/mnt/SDCARD/Roms/GB (GB)/a.gb'' of Some items \<Rightarrow> items | None \<Rightarrow> [])\<rparr>"

text \<open>An engine that is asked twice, and answers that nothing was restored.\<close>

definition refusing_system :: system where
  "refusing_system = demo_system\<lparr>en_run := (\<lambda>cmd vars fs. (\<lparr>at_frames = (\<lambda>_. (True, False)), at_out = Some ''restored=0'', at_wifi_fail = None\<rparr>, fs))\<rparr>"

lemma timeline_open_built: "Lodor_buildSaves demo_clock saves_card (lodor_rompath timeline_open) = Some (lodor_saves_items timeline_open)"
  by code_simp

lemma refusing_run: "\<exists>ov'. overlay_run refusing_system [press_a, press_a] timeline_open = Some ov'"
proof -
  have "overlay_run refusing_system [press_a, press_a] timeline_open \<noteq> None" by code_simp
  then show ?thesis by simp
qed

theorem flashback_restores_chosen_witness:
  "\<exists>ov' cmd rest. overlay_run refusing_system [press_a, press_a] timeline_open = Some ov' \<and> o_log ov' = Ran cmd [] # rest
    \<and> sh_words cmd = Some [SDCARD_PATH @ LODOR_ROMM_BIN, ''--restore-save'', ''/mnt/SDCARD/Roms/GB (GB)/a.gb'', ''12'']"
proof -
  obtain ov' where r: "overlay_run refusing_system [press_a, press_a] timeline_open = Some ov'" using refusing_run by blast
  have f: "lodor_show_saves timeline_open" "\<not> lodor_show_confirm timeline_open" "\<not> lodor_show_details timeline_open" "lodor_saves_sel timeline_open = 0"
    "o_log timeline_open = []" "o_env timeline_open = []" "lodor_rompath timeline_open = ''/mnt/SDCARD/Roms/GB (GB)/a.gb''"
    by (simp_all add: timeline_open_def demo_overlays_def)
  have p: "\<forall>p \<in> set demo_points. point_ok p" "0 < length demo_points" "sp_id (demo_points ! 0) = ''12''"
    "\<forall>c \<in> set (sp_id (demo_points ! 0)). plain_char c" "length (sp_id (demo_points ! 0)) < 64"
    "length (escaped (lodor_rompath timeline_open)) \<le> 1019" "k_a press_a" "\<not> k_up press_a" "\<not> k_down press_a" by code_simp+
  have go: "\<not> m_quit (o_minui timeline_open)" by code_simp
  have "fs_files saves_card SAVES_FILE = Some (concat (map (\<lambda>l. l @ [NL]) (map saves_line demo_points)))"
    by (simp add: saves_card_def card_with_def)
  from flashback_restores_chosen [OF this p(1) timeline_open_built f(1-3) p(2) f(4) p(4-9,7) r go] show ?thesis
    using r f(5-7) p(3) by auto
qed


section \<open>The password\<close>

fun hide :: "event \<Rightarrow> event" where
  "hide (Ran cmd vars) = Ran cmd (unsetenv ''LODOR_RA_P'' vars)"
| "hide (Shell cmd vars) = Shell cmd (unsetenv ''LODOR_RA_P'' vars)"
| "hide e = e"

text \<open>
  All that is left of a state when the password in the environment of the processes that were started
  is not looked at, nor the bytes of the buffer behind the end of its string.
\<close>

definition hidden :: "overlays \<Rightarrow> overlays" where
  "hidden ov = ov\<lparr>o_log := map hide (o_log ov), lodor_ra_bytes := []\<rparr>"

definition typed :: "string \<Rightarrow> overlays \<Rightarrow> overlays" where
  "typed p ov = (put_pass p ov)\<lparr>o_kb := (o_kb ov)\<lparr>kb_buf := p\<rparr>\<rparr>"

abbreviation login_env :: "string \<Rightarrow> overlays \<Rightarrow> (string \<times> string) list" where
  "login_env p ov \<equiv> setenv ''LODOR_RA_P'' p (setenv ''LODOR_RA_U'' (lodor_ra_user ov) (o_env ov))"

text \<open>Two passwords that the engine and the reset of the radio treat alike.\<close>

definition treated_alike :: "system \<Rightarrow> (string \<times> string) list \<Rightarrow> (string \<times> string) list \<Rightarrow> bool" where
  "treated_alike en v w \<longleftrightarrow> en_run en RA_LOGIN_CMD v = en_run en RA_LOGIN_CMD w \<and> en_system en WIFI_RESET_CMD v = en_system en WIFI_RESET_CMD w"

lemma hide_env: "unsetenv ''LODOR_RA_P'' (setenv ''LODOR_RA_P'' p e) = unsetenv ''LODOR_RA_P'' e"
  by (simp add: setenv_def unsetenv_def)

lemma run_engine_secret:
  assumes "treated_alike en (o_env a) (o_env b)" "o_minui a = o_minui b" "map hide (o_log a) = map hide (o_log b)"
    and "unsetenv ''LODOR_RA_P'' (o_env a) = unsetenv ''LODOR_RA_P'' (o_env b)"
  shows "\<exists>out m l l'. run_engine en cap RA_LOGIN_CMD a = (out, a\<lparr>o_minui := m, o_log := l\<rparr>)
    \<and> run_engine en cap RA_LOGIN_CMD b = (out, b\<lparr>o_minui := m, o_log := l'\<rparr>) \<and> map hide l = map hide l'"
proof -
  note alike = assms(1) [unfolded treated_alike_def]
  obtain a1 fs1 where r1: "en_run en RA_LOGIN_CMD (o_env b) (m_fs (o_minui b)) = (a1, fs1)" by fastforce
  obtain a2 fs2 where r2: "en_run en RA_LOGIN_CMD (o_env b) (en_system en WIFI_RESET_CMD (o_env b) fs1) = (a2, fs2)" by fastforce
  note run = run_engine_def run_once_def set_fs_def o_fs_def sh_def say_def
  show ?thesis
  proof (cases "snd (Lodor_runWithProgress (exists fs1 (PAK_DIR @ ''/.wifi-8188fu'')) (en_reset en) cap a1 a1) = 1")
    case True
    then show ?thesis using assms(2-4) alike r1 by (simp add: run) (intro exI conjI, rule refl, rule refl, simp)
  next
    case False
    then show ?thesis using assms(2-4) alike r1 r2 by (simp add: run) (intro exI conjI, rule refl, rule refl, simp)
  qed
qed

lemma report_secret:
  assumes "map hide l = map hide l'"
  shows "hidden ((ra_report n (b\<lparr>o_log := l, o_env := e, lodor_ra_pass := [], lodor_ra_bytes := x, o_kb := k\<rparr>))\<lparr>lodor_ra_stage := 0\<rparr>)
    = hidden ((ra_report n (b\<lparr>o_log := l', o_env := e, lodor_ra_pass := [], lodor_ra_bytes := y, o_kb := k\<rparr>))\<lparr>lodor_ra_stage := 0\<rparr>)"
proof -
  consider "n = 1" | "n = 0" | "n \<noteq> 1" "n \<noteq> 0" by blast
  then show ?thesis using assms by cases (simp_all add: ra_report_def hidden_def say_def o_fs_def Let_def)
qed

text \<open>The frame that logs in.\<close>

lemma login_frame:
  assumes "run_engine en 1024 RA_LOGIN_CMD ((typed s ov)\<lparr>o_env := login_env s ov\<rparr>)
      = (out, (typed s ov)\<lparr>o_env := login_env s ov, o_minui := m, o_log := l\<rparr>)"
    and "n = (case last_result ''RESULT ra_login=%d'' 1 out of Some vs \<Rightarrow> vs ! 0 | None \<Rightarrow> - 1)"
  shows "ra_login en (typed s ov)
    = (ra_report n (ov\<lparr>o_minui := m, o_log := l, o_env := unsetenv ''LODOR_RA_U'' (unsetenv ''LODOR_RA_P'' (o_env ov)),
        lodor_ra_pass := [], lodor_ra_bytes := NUL # drop 1 (s @ NUL # drop (length s + 1) (lodor_ra_bytes ov)),
        o_kb := (o_kb ov)\<lparr>kb_buf := []\<rparr>\<rparr>))\<lparr>lodor_ra_stage := 0\<rparr>"
proof -
  have "unsetenv ''LODOR_RA_U'' (unsetenv ''LODOR_RA_P'' (login_env s ov)) = unsetenv ''LODOR_RA_U'' (unsetenv ''LODOR_RA_P'' (o_env ov))"
    by (auto simp: setenv_def unsetenv_def intro: filter_cong)
  moreover have "(typed s ov)\<lparr>o_env := setenv ''LODOR_RA_U'' (lodor_ra_user ov) (o_env ov), o_env := login_env s ov\<rparr>
      = (typed s ov)\<lparr>o_env := login_env s ov\<rparr>" by simp
  ultimately show ?thesis
    using assms by (simp add: ra_login_def wipe_def typed_def put_pass_def Let_def)
qed

text \<open>
  C38. The RetroAchievements password leaves no trace in what is run, said or kept as a string. For two
  passwords that the engine and the reset of the radio treat alike, the frame that logs in ends in the
  same state, whatever the answer was: the same commands, messages, card and screens, an empty
  password, and an environment without the password and the user; only the variable LODOR_RA_P in the
  environment of the processes started in that frame is not compared, nor the bytes of the password's
  buffer behind the end mark.
\<close>

theorem ra_password_no_trace:
  assumes "ra_on_top ov" "lodor_ra_stage ov = 2" "\<not> kb_active (o_kb ov)" "\<not> kb_cancelled (o_kb ov)" "p \<noteq> []" "q \<noteq> []"
    and "treated_alike en (login_env p ov) (login_env q ov)"
  shows "\<exists>a b. overlay_step en pad (typed p ov) = Some a \<and> overlay_step en pad (typed q ov) = Some b \<and> hidden a = hidden b
    \<and> lodor_ra_pass a = [] \<and> kb_buf (o_kb a) = [] \<and> ''LODOR_RA_P'' \<notin> fst ` set (o_env a) \<and> ''LODOR_RA_U'' \<notin> fst ` set (o_env a)"
proof -
  let ?in = "\<lambda>s. (typed s ov)\<lparr>o_env := login_env s ov\<rparr>"
  have "treated_alike en (o_env (?in p)) (o_env (?in q))" "o_minui (?in p) = o_minui (?in q)" "o_log (?in p) = o_log (?in q)"
    "unsetenv ''LODOR_RA_P'' (o_env (?in p)) = unsetenv ''LODOR_RA_P'' (o_env (?in q))"
    using assms(7) by (simp_all add: typed_def put_pass_def hide_env)
  from run_engine_secret [OF this(1,2) arg_cong [OF this(3)] this(4), of 1024] obtain out m l l' where
    r: "run_engine en 1024 RA_LOGIN_CMD (?in p) = (out, (?in p)\<lparr>o_minui := m, o_log := l\<rparr>)"
    "run_engine en 1024 RA_LOGIN_CMD (?in q) = (out, (?in q)\<lparr>o_minui := m, o_log := l'\<rparr>)" "map hide l = map hide l'"
    by blast
  have step: "overlay_step en pad (typed s ov) = Some (ra_login en (typed s ov))" if "s \<noteq> []" for s
    using assms(1-4) that by (simp add: overlay_step_def ra_step_def ra_pass_done_def ra_on_top_def typed_def put_pass_def)
  note login = login_frame [OF r(1) refl] login_frame [OF r(2) refl]
  have "hidden (ra_login en (typed p ov)) = hidden (ra_login en (typed q ov))"
    unfolding login by (rule report_secret [OF r(3)])
  moreover have "lodor_ra_pass (ra_login en (typed p ov)) = []" "kb_buf (o_kb (ra_login en (typed p ov))) = []"
    "''LODOR_RA_P'' \<notin> fst ` set (o_env (ra_login en (typed p ov)))" "''LODOR_RA_U'' \<notin> fst ` set (o_env (ra_login en (typed p ov)))"
    unfolding login(1) by (auto simp: ra_report_def say_def wipe_def put_pass_def unsetenv_def Let_def)
  ultimately show ?thesis using step assms(5,6) by blast
qed

lemma demo_overlays_ok: "ov_ok demo_overlays" by code_simp

theorem overlays_invariant_witness:
  "\<exists>ov'. overlay_run demo_system [no_keys\<lparr>k_up := True\<rparr>] (demo_overlays\<lparr>lodor_show_sync := True\<rparr>) = Some ov' \<and> rows_ok ov'"
proof -
  let ?ov = "demo_overlays\<lparr>lodor_show_sync := True\<rparr>"
  have ok: "ov_ok ?ov" by code_simp
  have "overlay_run demo_system [no_keys\<lparr>k_up := True\<rparr>] ?ov \<noteq> None" by code_simp
  then obtain ov' where r: "overlay_run demo_system [no_keys\<lparr>k_up := True\<rparr>] ?ov = Some ov'" by blast
  then show ?thesis using overlays_invariant [OF r ok, of no_keys] by blast
qed

definition password_typed :: overlays where
  "password_typed = demo_overlays\<lparr>lodor_show_ra := True, lodor_ra_stage := 2, lodor_ra_user := ''alice'',
     o_kb := demo_kb\<lparr>kb_cap := 128, kb_active := False, kb_cancelled := False\<rparr>\<rparr>"

lemma password_typed_ready: "ra_on_top password_typed" "lodor_ra_stage password_typed = 2" "\<not> kb_active (o_kb password_typed)"
  "\<not> kb_cancelled (o_kb password_typed)"
  by code_simp+

theorem ra_password_no_trace_witness:
  "\<exists>a b. overlay_step demo_system no_keys (typed ''secret'' password_typed) = Some a
    \<and> overlay_step demo_system no_keys (typed ''hunter2'' password_typed) = Some b \<and> hidden a = hidden b \<and> lodor_ra_pass a = []"
proof -
  have "treated_alike demo_system (login_env ''secret'' password_typed) (login_env ''hunter2'' password_typed)"
    by (simp add: treated_alike_def demo_system_def)
  from ra_password_no_trace [OF password_typed_ready _ _ this, of no_keys] show ?thesis by auto
qed

text \<open>
  Wiping writes the first byte only: behind the end mark the rest of the password stays in the buffer
  until another one is typed over it.
\<close>

theorem password_tail_stays: "drop 1 (lodor_ra_bytes (wipe (put_pass p ov))) = drop 1 (p @ NUL # drop (length p + 1) (lodor_ra_bytes ov))"
  by (simp add: wipe_def put_pass_def)

section \<open>What the sync menu says\<close>

text \<open>A text of lines, read line by line as suffixes: only those that begin with RESULT count.\<close>

lemma line_starts_Cons: "NL \<notin> set l \<Longrightarrow> line_starts (l @ NL # rest) = (l @ NL # rest) # line_starts rest"
  by (subst line_starts.simps) (simp add: strchr_append)

lemma line_starts_Nil: "line_starts [] = []"
  by (subst line_starts.simps) simp

lemma other_line: "\<not> prefix ''RESULT'' s \<Longrightarrow> scan_fmt (''RESULT'' @ f) s = []"
  by (auto simp: c_isspace_def split: list.splits)

lemma scan_lit: 
  assumes "\<forall>c \<in> set w. c \<noteq> CHR ''%'' \<and> \<not> c_isspace c"
  shows "scan_fmt (w @ f) (w @ s) = scan_fmt f s"
  using assms by (induction w) auto

lemma scan_blank: "c_isspace c \<Longrightarrow> c \<noteq> CHR ''%'' \<Longrightarrow> (s = [] \<or> \<not> c_isspace (hd s)) \<Longrightarrow> scan_fmt (c # f) (c # s) = scan_fmt f s"
  by (cases s) auto

lemma scan_number: 
  assumes "- (2 ^ 31) \<le> i" "i < 2 ^ 31" "r = [] \<or> \<not> c_isdigit (hd r)"
  shows "scan_fmt (CHR ''%'' # d # f) (c_int i @ r) = i # scan_fmt f r"
  using scan_num_c_int [OF assms] by simp


lemma push_other: "\<not> prefix ''RESULT'' s \<Longrightarrow> \<exists>why'. push_line s (p, k, why) = (p, k, why')"
proof -
  assume "\<not> prefix ''RESULT'' s"
  then have "scan_fmt ''RESULT pushed=%d total=%d stuck=%d'' s = []"
    using other_line [of s "'' pushed=%d total=%d stuck=%d''"] by (simp del: scan_fmt.simps)
  then show ?thesis by (simp add: push_line_def Let_def del: scan_fmt.simps split: option.splits prod.splits)
qed

lemma push_others:
  assumes "\<forall>l \<in> set ls. NL \<notin> set l \<and> \<not> prefix ''RESULT'' l"
  shows "\<exists>why'. fold push_line (line_starts (concat (map (\<lambda>l. l @ [NL]) ls) @ rest)) (p, k, why) = fold push_line (line_starts rest) (p, k, why')"
  using assms
proof (induction ls arbitrary: why)
  case Nil
  then show ?case by auto
next
  case (Cons l ls)
  let ?rest = "concat (map (\<lambda>l. l @ [NL]) ls) @ rest"
  have "NL \<notin> set ''RESULT''" by (simp add: NL_def)
  then have "\<not> prefix ''RESULT'' (l @ NL # ?rest)" using Cons.prems prefix_before by (meson list.set_intros(1))
  then obtain why1 where "push_line (l @ NL # ?rest) (p, k, why) = (p, k, why1)" using push_other by blast
  then show ?case using Cons line_starts_Cons [of l ?rest] by simp
qed

definition result_line :: "int \<Rightarrow> int \<Rightarrow> int \<Rightarrow> string" where
  "result_line p t k = ''RESULT pushed='' @ c_int p @ '' total='' @ c_int t @ '' stuck='' @ c_int k"

definition int_ok :: "int \<Rightarrow> bool" where
  "int_ok i \<longleftrightarrow> - (2 ^ 31) \<le> i \<and> i < 2 ^ 31"

lemma scan_result_line:
  assumes "int_ok p" "int_ok t" "int_ok k"
  shows "scan_fmt ''RESULT pushed=%d total=%d stuck=%d'' (result_line p t k @ NL # rest) = [p, t, k]"
proof -
  have n: "scan_fmt (CHR ''%'' # CHR ''d'' # f) (c_int i @ c # r) = i # scan_fmt f (c # r)" if "int_ok i" "\<not> c_isdigit c" for i f c r
    using scan_number [of i "c # r" "CHR ''d''" f] that by (simp add: int_ok_def)
  have lit: "scan_fmt (''RESULT'' @ f) (''RESULT'' @ s) = scan_fmt f s" "scan_fmt (''pushed='' @ f) (''pushed='' @ s) = scan_fmt f s"
    "scan_fmt (''total='' @ f) (''total='' @ s) = scan_fmt f s" "scan_fmt (''stuck='' @ f) (''stuck='' @ s) = scan_fmt f s" for f s
    by (rule scan_lit; code_simp)+
  have blank: "scan_fmt (CHR '' '' # f) (CHR '' '' # c # s) = scan_fmt f (c # s)" if "\<not> c_isspace c" for f c s
    using scan_blank [of "CHR '' ''" "c # s" f] that by (simp add: c_isspace_def)
  have chars: "\<not> c_isspace (CHR ''p'')" "\<not> c_isspace (CHR ''t'')" "\<not> c_isspace (CHR ''s'')" "\<not> c_isdigit (CHR '' '')" "\<not> c_isdigit NL"
    by code_simp+
  have "scan_fmt (''RESULT'' @ CHR '' '' # ''pushed='' @ CHR ''%'' # CHR ''d'' # CHR '' '' # ''total='' @ CHR ''%'' # CHR ''d'' # CHR '' '' # ''stuck='' @ CHR ''%'' # CHR ''d'' # [])
      (''RESULT'' @ CHR '' '' # ''pushed='' @ c_int p @ CHR '' '' # ''total='' @ c_int t @ CHR '' '' # ''stuck='' @ c_int k @ NL # rest) = [p, t, k]"
  proof -
    have 4: "scan_fmt (CHR '' '' # ''stuck='' @ CHR ''%'' # CHR ''d'' # []) (CHR '' '' # ''stuck='' @ c_int k @ NL # rest) = [k]"
      using blank [of "CHR ''s''" "''stuck='' @ CHR ''%'' # CHR ''d'' # []" "''tuck='' @ c_int k @ NL # rest"] chars lit(4) n [OF assms(3) chars(5)] by simp
    have 3: "scan_fmt (CHR '' '' # ''total='' @ CHR ''%'' # CHR ''d'' # f) (CHR '' '' # ''total='' @ c_int t @ CHR '' '' # s) = t # scan_fmt f (CHR '' '' # s)" for f s
      using blank [of "CHR ''t''" "''total='' @ CHR ''%'' # CHR ''d'' # f" "''otal='' @ c_int t @ CHR '' '' # s"] chars lit(3) n [OF assms(2) chars(4)] by simp
    have 2: "scan_fmt (CHR '' '' # ''pushed='' @ CHR ''%'' # CHR ''d'' # f) (CHR '' '' # ''pushed='' @ c_int p @ CHR '' '' # s) = p # scan_fmt f (CHR '' '' # s)" for f s
      using blank [of "CHR ''p''" "''pushed='' @ CHR ''%'' # CHR ''d'' # f" "''ushed='' @ c_int p @ CHR '' '' # s"] chars lit(2) n [OF assms(1) chars(4)] by simp
    show ?thesis by (subst lit(1), subst 2, subst 3, subst 4) (rule refl)
  qed
  then show ?thesis by (simp add: result_line_def del: scan_fmt.simps)
qed


lemma c_int_no_NL: "NL \<notin> set (c_int i)"
proof -
  have "\<not> c_isdigit NL" "NL \<noteq> CHR ''-''" by code_simp+
  then show ?thesis using c_digits_isdigit by (auto simp: c_int_def)
qed

text \<open>
  C40. Sync Now says what the engine reported. When the engine's answer has one RESULT line among
  others, the message is about the numbers of that line: the saves that are stuck, if any, else how
  many were uploaded; and an answer without a RESULT line, as when the engine never ran, is reported
  as a failure with the saves still pending, never as a success.
\<close>

theorem sync_report:
  assumes "\<forall>l \<in> set (before @ after). NL \<notin> set l \<and> \<not> prefix ''RESULT'' l" "int_ok p" "int_ok t" "int_ok k"
  shows "sync_message (concat (map (\<lambda>l. l @ [NL]) (before @ [result_line p t k] @ after)))
    = (let why = snd (snd (push_result (concat (map (\<lambda>l. l @ [NL]) (before @ [result_line p t k] @ after)))))
       in if 0 < k then stuck_message k why else if p = 0 then ''Nothing to sync''
          else if 0 < p then c_trunc 64 (''Synced -- '' @ c_int p @ '' save'' @ plural p @ '' uploaded'')
          else ''Couldn'' @ QUOTE # ''t reach RomM --'' @ NL # ''saves still pending'')
    \<and> sync_message (concat (map (\<lambda>l. l @ [NL]) (before @ after))) = ''Couldn'' @ QUOTE # ''t reach RomM --'' @ NL # ''saves still pending''"
proof -
  let ?text = "\<lambda>ls. concat (map (\<lambda>l. l @ [NL]) ls)"
  have line: "NL \<notin> set (result_line p t k)"
    using c_int_no_NL by (auto simp: result_line_def NL_def)
  have others: "\<exists>why'. fold push_line (line_starts (?text ls @ rest)) (a, b, why) = fold push_line (line_starts rest) (a, b, why')"
    if "set ls \<subseteq> set (before @ after)" for ls rest a b why using push_others [of ls rest a b why] assms(1) that by blast
  obtain w1 where 1: "fold push_line (line_starts (?text before @ (result_line p t k @ NL # ?text after))) (- 1, 0, [])
      = fold push_line (line_starts (result_line p t k @ NL # ?text after)) (- 1, 0, w1)"
    using others [of before] by fastforce
  have 2: "push_line (result_line p t k @ NL # ?text after) (- 1, 0, w1) = (p, k, w1)"
    by (simp add: push_line_def scan_result_line [OF assms(2-4)] Let_def del: scan_fmt.simps)
  obtain w2 where 3: "fold push_line (line_starts (?text after @ [])) (p, k, w1) = fold push_line (line_starts []) (p, k, w2)"
    using others [of after "[]" p k w1] by fastforce
  have "push_result (?text (before @ [result_line p t k] @ after)) = (p, k, w2)"
    using 1 2 3 by (simp add: push_result_def line_starts_Cons [OF line] line_starts_Nil)
  moreover obtain w3 where "fold push_line (line_starts (?text (before @ after) @ [])) (- 1, 0, []) = fold push_line (line_starts []) (- 1, 0, w3)"
    using others [of "before @ after" "[]" "- 1" 0 "[]"] by fastforce
  then have "push_result (?text (before @ after)) = (- 1, 0, w3)" by (simp add: push_result_def line_starts_Nil)
  ultimately show ?thesis by (simp add: sync_message_def Let_def)
qed

theorem sync_report_witness:
  "sync_message (concat (map (\<lambda>l. l @ [NL]) ([''connecting''] @ [result_line 3 3 0] @ []))) = ''Synced -- 3 saves uploaded''"
proof -
  have "\<forall>l \<in> set ([''connecting''] @ []). NL \<notin> set l \<and> \<not> prefix ''RESULT'' l" by code_simp
  moreover have "int_ok 3" "int_ok 0" "c_trunc 64 (''Synced -- '' @ c_int 3 @ '' save'' @ plural 3 @ '' uploaded'') = ''Synced -- 3 saves uploaded''"
    by code_simp+
  ultimately show ?thesis using sync_report [of "[''connecting'']" "[]" 3 3 0] by (simp add: Let_def)
qed

text \<open>
  The BIOS row is not as honest: with no answer, as when the engine never ran, it says that the BIOS
  files were updated.
\<close>

theorem bios_updated_without_answer: "bios_message [] = ''BIOS updated''"
  by code_simp

end
