(* ===== verification/Spec2Isabelle.thy ===== *)
theory Spec2Isabelle
  imports Nav Effects Sound ArtCache SavedConfig Controls Connect Search Cheats PowerMgmt Video LodorSettings Menus Overlays
begin

text \<open>
  Verification of the launcher, the player and the runtime they share in LodorOS, a fork of MinUI for
  handheld consoles. All paths below are under \<open>src/workspace/all\<close> unless they say otherwise; the
  concrete paths and constants are those of the Miyoo Mini build.

  THE PROGRAM. Two programs take turns. The launcher (minui/minui.c) lists the card, lets the user
  pick a game and writes the command that starts it to /tmp/next; a shell loop runs that command when
  the launcher has quit. The command starts the player (minarch/minarch.c), which loads a libretro
  core and the game, runs the core's frames, and saves battery memory, states and settings. Both are
  linked with common/utils.c (strings, files) and common/api.c (input, sound, power), the player also
  with common/scaler.c and the platform's video code. They share state only through files: recent.txt,
  auto_resume.txt, the slot that should be resumed, the per-game emulator sidecars, settings.conf.

  HOW C IS MODELLED. A C function is a HOL function from the state it reads to the state it leaves.
  A function that can run into undefined behaviour (a null pointer followed, a fixed buffer or table
  overrun, an uninitialised buffer read) returns an option, and None is that point; a result the code
  itself reports is an ordinary value. So \<open>\<exists>y. f x = Some y\<close> says that f is memory safe on x and
  returns. Structs are records, enums datatypes, bit masks and pixels machine words, int is int with its
  bounds as conditions where they matter, strings are lists of the bytes before the NUL (CString).
  Files are a map from paths to contents (FileSys). Waits and loops that poll hardware take the
  sequence of what is polled as an argument, one element per turn; loops over data are recursive
  functions with a termination proof. Names are those of the code, with a qualifier where two of the
  sources use the same one.

  BASE.
  Prelude: the fault monad (c_ok, c_buf, fold_opt), qsort and the locale \<open>comparator\<close>, list lemmas.
  CString: the C string functions, fgets, snprintf, atoi, with their round trips.
  FileSys: the card, and exists, touch, putFile, getFile, allocFile, getInt, putInt of common/utils.c;
  the locale \<open>file_store\<close> is what the later theories use of it.
  Utils: the rest of common/utils.c: display names, emulator tags, cleaning of lines.
  Simulation: runs over a list of events and the locale \<open>simulation\<close> of a component that refines an
  abstract machine; Environment interprets it.

  LAUNCHER (minui/minui.c).
  Containers: Array, Hash, IntArray with their growing memory; the locales \<open>sequence\<close> and
  \<open>first_wins_map\<close> are their contracts, interpreted on the code's model. From there on lists and maps
  stand for them.
  Entries: Entry_new, sorting, Directory_index with aliases and the alphabetical index; the order of
  entries is an interpretation of \<open>comparator\<close>.
  Listing: getRoot, getRecents, getCollection, getDiscs, getEntries, addEntries, Directory_new.
  Recents: addRecent, saveRecents, hasRecents on recent.txt.
  Override: the markers in file names, the sidecars, Lodor_resolveEmu, and Lodor_atomicWrite as the list
  of the card's states between its system calls, which is what a power cut can leave.
  Shell: escapeSingleQuotes, Lodor_shq, the launch command, with a lexer of the shell as its meaning.
  Launcher: readyResume, autoResume, openRom, openPak, Entry_open, the directory stack, saveLast, loadLast.
  Nav: the navigation of main() and the updates of the root menu in place.
  Search and Keyboard: the search overlay and the on-screen keyboard. Connect: the gate of the
  onboarding and the server form. ArtCache: the artwork cache with its worker thread, as interleaved
  operations under one mutex. LodorSettings: settings.conf and the rows that toggle it, with the
  player's reader of it (minarch/cheevos.c).
  Engine: Lodor_runWithProgress, which runs the sync engine and polls for its end, and the scanning of
  its answer. GameLists: the lists that the overlays show, built from files (actions, emulator picker,
  timeline, feed, users, switcher, queue). Overlays: the input of the questions, the timeline, the
  sync menu, the settings, the users, the RetroAchievements login, the switcher, the picker and the
  actions, one step per frame, with a log of what was run, asked of the shell, said and removed.

  PLAYER (minarch/minarch.c).
  GameFile: zip archives, Game_open, Game_close, Game_changeDisc, the discs of a playlist.
  SaveStates: SRAM_*, RTC_*, State_*, the slots of the menu, Menu_beforeSleep.
  Cheats: Lodor_cheats* and the toggle of the menu.
  Options and PlayerConfig: Option_*, OptionList_*, Config_*; SavedConfig: what a saved configuration
  gives the next run. Controls: Input_init and the poll with its shortcuts. Menus: Menu_options and the
  menus below it. Environment: environment_callback over a session of the core.
  Video: selectScaler, the frame callbacks and the surfaces of the platform
  (\<open>src/workspace/miyoomini/platform/platform.c\<close>).

  RUNTIME (common/api.c, common/scaler.c).
  Input: PAD_*. Sound: SND_*, the ring as an interpretation of the locale \<open>bounded_fifo\<close>.
  PowerMgmt: PWR_* and VIB_*. Scaler and Effects: the portable scalers and the screen effects.

  WHAT THE LEMMAS SHOW. Each theory ends with its properties; the claims C1 and up stand before them.
  The common shape is an invariant (\<open>menus_ok\<close>, \<open>search_ok\<close>, \<open>kb_ok\<close>, \<open>ov_ok\<close>, \<open>art_ok\<close>, \<open>ring_good\<close>,
  \<open>ctl_ok\<close>, \<open>env_ok\<close> and so on), one lemma per operation that it keeps the invariant and does not fault, and the claim over
  any sequence of operations. What the overlays do to the world is stated on their log: nothing is
  removed without the question, the save put back is the one that was chosen, and a login leaves the
  password nowhere but in the environment given to the engine. Refinements: the containers against lists and maps, the sound ring
  against a queue, settings.conf against a record, the options against a store that the core reads,
  frames on the surface against the enlarged picture. Round trips: configurations, states, battery
  memory, cheat files, quoting against the shell's lexer. Termination: faux sleep, sound batches.
  The theorems in sections on what goes wrong are the findings: concrete runs in which the code does
  not do what it means to. Witness theorems run a property on concrete data.

  BOUNDS AND FUEL. zip_scan takes fuel, one unit per file of the archive; its theorem gives as
  much as the archive has entries, and \<open>zip_scan_hangs\<close> shows an archive for which no fuel is enough.
  Faux sleep takes the list of what its polls see; \<open>faux_sleep_ends\<close> says that a list that reaches two
  minutes past unplugging is enough. A sound batch takes the schedule of the callback. Every other
  recursion has a measure. Times are unbounded numbers of milliseconds whose 32 bit images the
  code compares; sizes in the scalers and in ArtCache are natural numbers below the 4 GB where C would wrap.

  PARAMETERS, with what is assumed of them as named hypotheses of the claims: the libretro core
  (SaveStates, Environment: its functions over a state of any type; for round trips that unserialize
  undoes serialize), inflate of zlib (GameFile: that it puts out all it is given), SDL and SDL_image
  (ArtCache), rounding of doubles (Video: that it is exact on the numbers that doubles hold), the NEON
  scalers (Video: that they do what the portable ones do), the sync engine and the shell's commands (Overlays:
  any functions on the card), the clock, mktime and the times of files (GameLists), what fwrite manages to write (\<open>room\<close>), the
  key codes of a platform (Input), the quotient of the sound buffer's size (Sound).

  SIMPLIFICATIONS. malloc does not fail. Directory listings are data of their own: a file that is
  created does not enter them. long has 32 bits (strtol, fseek) as on the target. A shift by the -1 of
  an unbound button is undefined in C and taken to give 0, as the code relies on. qsort keeps the order
  of equal entries. Locks are taken as whole operations. The texts that only
  explain an option are left out. In the options menus the rows of Save changes are in the model,
  while the invariant is about runs that do not press them.

  NOT MODELLED. Of minui.c: drawing, the steps of the onboarding wizard, which are blocking calls of the
  sync engine with messages, the dots that show where a game's data is, toasts and badges, the
  Tailscale flow, and of the overlays the delays and what keeps the screen on. Of
  minarch.c: the in-game menu's own loop and its drawing, Menu_scale, the in-game Flashback, the HUD,
  Core_open and the other uses of dlopen, threads and main(). Of minarch/cheevos.c: the client of
  the achievements, which is callbacks of rcheevos. Of api.c: GFX_* (drawing with SDL). The GL path
  (ma_glhw.c) beyond whether a request is taken. The clock, minput, say and syncsettings tools, keymon,
  libmsettings, batmon and the platform code of the other devices, which are loops over device files.
  Vendored code (libretro-common, rcheevos, qrcodegen) and the shell scripts.
\<close>

end
